(* ===== verification/Prelude.thy ===== *)
theory Prelude
  imports Main "HOL-Library.Word"
begin

text \<open>
  Shared vocabulary of the development: the machine integers of the C sources as words, byte-addressed
  memory, the little- and big-endian accessors that nearly every file of the kernel re-declares, and the
  generic lemmas on words, lists and memory that the component theories share.

  The collection \<open>le_simps\<close> holds the round trips of the byte accessors; \<open>mem_simps\<close> the rules that read a
  memory after a write.
\<close>

unbundle bit_operations_syntax

named_theorems le_simps \<open>round trips of the byte-order accessors\<close>
named_theorems mem_simps \<open>reading a memory after it was written\<close>

type_synonym u8 = "8 word"
type_synonym u16 = "16 word"
type_synonym u32 = "32 word"
type_synonym u64 = "64 word"
type_synonym bytes = "u8 list"
type_synonym mem = "u64 \<Rightarrow> u8"

section \<open>Byte order\<close>

definition le16 :: "u8 \<Rightarrow> u8 \<Rightarrow> u16" where
  "le16 b0 b1 = ucast b0 OR push_bit 8 (ucast b1)"

definition le32 :: "u8 \<Rightarrow> u8 \<Rightarrow> u8 \<Rightarrow> u8 \<Rightarrow> u32" where
  "le32 b0 b1 b2 b3 =
     ucast b0 OR push_bit 8 (ucast b1) OR push_bit 16 (ucast b2) OR push_bit 24 (ucast b3)"

definition le64 :: "u8 \<Rightarrow> u8 \<Rightarrow> u8 \<Rightarrow> u8 \<Rightarrow> u8 \<Rightarrow> u8 \<Rightarrow> u8 \<Rightarrow> u8 \<Rightarrow> u64" where
  "le64 b0 b1 b2 b3 b4 b5 b6 b7 =
     ucast (le32 b0 b1 b2 b3) OR push_bit 32 (ucast (le32 b4 b5 b6 b7))"

text \<open>The \<open>i\<close>-th byte of a value, counted from the least significant end.\<close>

definition byte_of :: "'a::len word \<Rightarrow> nat \<Rightarrow> u8" where
  "byte_of v i = ucast (drop_bit (8 * i) v)"

definition le_bytes :: "nat \<Rightarrow> 'a::len word \<Rightarrow> bytes" where
  "le_bytes n v = map (byte_of v) [0..<n]"

lemma length_le_bytes [simp]: "length (le_bytes n v) = n"
  by (simp add: le_bytes_def)

lemma nth_le_bytes [simp]: "i < n \<Longrightarrow> le_bytes n v ! i = byte_of v i"
  by (simp add: le_bytes_def)

lemma bit_byte_of [simp]:
  "bit (byte_of (v :: 'a::len word) i) n \<longleftrightarrow> n < 8 \<and> bit v (8 * i + n)"
  by (auto simp: byte_of_def bit_simps dest: bit_imp_le_length)

lemma bit_le16: "bit (le16 b0 b1) n \<longleftrightarrow> (if n < 8 then bit b0 n else n < 16 \<and> bit b1 (n - 8))"
  by (auto simp: le16_def bit_simps dest: bit_imp_le_length)

lemma bit_le32:
  "bit (le32 b0 b1 b2 b3) n \<longleftrightarrow>
     (if n < 8 then bit b0 n else if n < 16 then bit b1 (n - 8)
      else if n < 24 then bit b2 (n - 16) else n < 32 \<and> bit b3 (n - 24))"
  by (auto simp: le32_def bit_simps dest: bit_imp_le_length)

lemma bit_le64:
  "bit (le64 b0 b1 b2 b3 b4 b5 b6 b7) n \<longleftrightarrow>
     (if n < 32 then bit (le32 b0 b1 b2 b3) n else n < 64 \<and> bit (le32 b4 b5 b6 b7) (n - 32))"
  by (auto simp: le64_def bit_simps dest: bit_imp_le_length)

lemma le16_byte_of [le_simps, simp]: "le16 (byte_of v 0) (byte_of v (Suc 0)) = (v :: u16)"
  by (rule bit_word_eqI) (auto simp: bit_le16)

lemma le32_byte_of [le_simps, simp]:
  "le32 (byte_of v 0) (byte_of v (Suc 0)) (byte_of v 2) (byte_of v 3) = (v :: u32)"
  by (rule bit_word_eqI) (auto simp: bit_le32)

lemma le64_byte_of [le_simps, simp]:
  "le64 (byte_of v 0) (byte_of v (Suc 0)) (byte_of v 2) (byte_of v 3)
        (byte_of v 4) (byte_of v 5) (byte_of v 6) (byte_of v 7) = (v :: u64)"
  by (rule bit_word_eqI) (auto simp: bit_le64 bit_le32)

section \<open>Reading memory\<close>

text \<open>
  Memory is a total map from 64-bit addresses to bytes; an access that the source makes outside the
  object it means to read is an ordinary read of whatever byte lies there.
\<close>

definition rd16 :: "mem \<Rightarrow> u64 \<Rightarrow> u16" where
  "rd16 m p = le16 (m p) (m (p + 1))"

definition rd32 :: "mem \<Rightarrow> u64 \<Rightarrow> u32" where
  "rd32 m p = le32 (m p) (m (p + 1)) (m (p + 2)) (m (p + 3))"

definition rd64 :: "mem \<Rightarrow> u64 \<Rightarrow> u64" where
  "rd64 m p = le64 (m p) (m (p + 1)) (m (p + 2)) (m (p + 3)) (m (p + 4)) (m (p + 5)) (m (p + 6)) (m (p + 7))"

text \<open>The bytes \<open>bs\<close> lie in memory from address \<open>a\<close> on.\<close>

definition holds_at :: "mem \<Rightarrow> u64 \<Rightarrow> bytes \<Rightarrow> bool" where
  "holds_at m a bs \<longleftrightarrow> (\<forall>i < length bs. m (a + of_nat i) = bs ! i)"

lemma holds_atD: "holds_at m a bs \<Longrightarrow> i < length bs \<Longrightarrow> m (a + of_nat i) = bs ! i"
  by (simp add: holds_at_def)

lemma holds_at_append:
  "holds_at m a (xs @ ys) \<longleftrightarrow> holds_at m a xs \<and> holds_at m (a + of_nat (length xs)) ys"
proof
  assume h: "holds_at m a (xs @ ys)"
  have "m (a + of_nat (length xs) + of_nat i) = ys ! i" if "i < length ys" for i
    using holds_atD [OF h, of "length xs + i"] that by (simp add: add.assoc)
  moreover have "m (a + of_nat i) = xs ! i" if "i < length xs" for i
    using holds_atD [OF h, of i] that by (simp add: nth_append)
  ultimately show "holds_at m a xs \<and> holds_at m (a + of_nat (length xs)) ys"
    by (simp add: holds_at_def)
next
  assume h: "holds_at m a xs \<and> holds_at m (a + of_nat (length xs)) ys"
  have "m (a + of_nat i) = (xs @ ys) ! i" if "i < length (xs @ ys)" for i
  proof (cases "i < length xs")
    case True
    then show ?thesis using h by (simp add: holds_at_def nth_append)
  next
    case False
    define j where "j = i - length xs"
    have i: "i = length xs + j" using False by (simp add: j_def)
    have "m (a + of_nat (length xs) + of_nat j) = ys ! j"
      using h that by (simp add: holds_at_def i)
    then show ?thesis by (simp add: i nth_append add.assoc)
  qed
  then show "holds_at m a (xs @ ys)" by (simp add: holds_at_def)
qed

lemma holds_at_Nil [simp]: "holds_at m a []"
  by (simp add: holds_at_def)

lemma holds_at_Cons [simp]: "holds_at m a (x # xs) \<longleftrightarrow> m a = x \<and> holds_at m (a + 1) xs"
  using holds_at_append [of m a "[x]" xs] by (simp add: holds_at_def)

text \<open>A memory that holds \<open>bs\<close> from \<open>a\<close> on and zeroes elsewhere.\<close>

definition mem_of :: "u64 \<Rightarrow> bytes \<Rightarrow> mem" where
  "mem_of a bs = (\<lambda>p. if unat (p - a) < length bs then bs ! unat (p - a) else 0)"

lemma holds_at_mem_of: "length bs < 2 ^ 64 \<Longrightarrow> holds_at (mem_of a bs) a bs"
  by (simp add: holds_at_def mem_of_def unat_of_nat)

section \<open>Words and rounding\<close>

lemma unat_add_le: "unat (a + b) \<le> unat a + unat (b :: 'a::len word)"
  by (simp add: unat_word_ariths)

lemma unat_add_no_wrap:
  "unat a + unat b < 2 ^ LENGTH('a) \<Longrightarrow> unat (a + b) = unat a + unat (b :: 'a::len word)"
  by (simp add: unat_word_ariths)

lemma unat_of_nat_eq: "n < 2 ^ LENGTH('a) \<Longrightarrow> unat (of_nat n :: 'a::len word) = n"
  by (simp add: unat_of_nat)

lemma ucast_of_nat_small:
  "n < 2 ^ LENGTH('a) \<Longrightarrow> ucast (of_nat n :: 'a::len word) = (of_nat n :: 'b::len word)"
  by (metis of_nat_unat unat_of_nat_eq)

lemma of_nat_word_le:
  "a < 2 ^ LENGTH('a) \<Longrightarrow> b < 2 ^ LENGTH('a) \<Longrightarrow> (of_nat a :: 'a::len word) \<le> of_nat b \<longleftrightarrow> a \<le> b"
  by (simp add: word_le_nat_alt unat_of_nat_eq)

lemma uint_inject [simp]: "uint a = uint (b :: 'a::len word) \<longleftrightarrow> a = b"
  by (simp add: word_uint_eq_iff)

lemma unat_minus_1: "unat (- 1 :: 'a::len word) = 2 ^ LENGTH('a) - 1"
  by (simp add: unsigned_minus_1_eq_mask mask_eq_exp_minus_1)

lemma and_15: "x AND 15 = take_bit 4 (x :: 'a::len word)"
  by (simp add: take_bit_eq_mask mask_eq_exp_minus_1)

lemma and_not_mask_shift: "w AND NOT (mask k) = push_bit k (drop_bit k (w :: 'a::len word))"
  by (rule bit_word_eqI) (auto simp: bit_simps)

lemma unat_and_not_mask:
  "unat (w AND NOT (mask k)) = unat (w :: 'a::len word) div 2 ^ k * 2 ^ k"
proof -
  have "unat w div 2 ^ k * 2 ^ k < 2 ^ LENGTH('a)"
    using unsigned_less [of w] by (meson div_times_less_eq_dividend le_less_trans)
  moreover have "unat (w AND NOT (mask k)) =
      take_bit LENGTH('a) (push_bit k (drop_bit k (take_bit LENGTH('a) (unat w))))"
    by (simp only: and_not_mask_shift unsigned_push_bit_eq unsigned_drop_bit_eq)
  ultimately show ?thesis
    by (simp add: push_bit_eq_mult drop_bit_eq_div take_bit_eq_mod)
qed

lemma of_nat_inj_on_small:
  "i < 2 ^ LENGTH('a) \<Longrightarrow> j < 2 ^ LENGTH('a) \<Longrightarrow> of_nat i = (of_nat j :: 'a::len word) \<Longrightarrow> i = j"
  by (metis of_nat_inverse)

lemma bit_push_one: "bit (push_bit k 1 :: 'a::len word) n \<longleftrightarrow> n = k \<and> n < LENGTH('a)"
  by (auto simp: bit_simps)

lemma unat_lt64: "unat (w :: u64) < 18446744073709551616"
  using unsigned_less [of w] by simp

lemma unat_take_bit: "unat (take_bit k w) = unat (w :: 'a::len word) mod 2 ^ k"
proof -
  have "unat (take_bit k w) = take_bit k (unat w)" by (rule unsigned_take_bit_eq)
  also have "\<dots> = unat w mod 2 ^ k" by (rule take_bit_eq_mod)
  finally show ?thesis .
qed

lemma unat_drop_bit: "unat (drop_bit k w) = unat (w :: 'a::len word) div 2 ^ k"
proof -
  have "unat (drop_bit k w) = drop_bit k (unat w)" by (rule unat_drop_bit_eq)
  also have "\<dots> = unat w div 2 ^ k" by (rule drop_bit_eq_div)
  finally show ?thesis .
qed

lemma word_of_unat: "unat (w :: 'a::len word) = n \<Longrightarrow> w = of_nat n"
  by (metis of_nat_unat ucast_id)

lemma no_wrap:
  assumes "\<not> a + b < (a :: 'a::len word)"
  shows "unat (a + b) = unat a + unat b"
proof (rule ccontr)
  assume "unat (a + b) \<noteq> unat a + unat b"
  then have "2 ^ LENGTH('a) \<le> unat a + unat b" using unat_add_no_wrap [of a b] by linarith
  moreover have "unat a < 2 ^ LENGTH('a)" "unat b < 2 ^ LENGTH('a)" by (simp_all add: unsigned_less)
  moreover from this have "unat a + unat b - 2 ^ LENGTH('a) < 2 ^ LENGTH('a)" by linarith
  ultimately have "unat (a + b) = unat a + unat b - 2 ^ LENGTH('a)"
    by (simp add: unat_word_ariths le_mod_geq less_diff_conv2)
  then have "unat (a + b) < unat a" using \<open>unat b < 2 ^ LENGTH('a)\<close> \<open>2 ^ LENGTH('a) \<le> unat a + unat b\<close> by linarith
  then show False using assms by (simp add: word_less_nat_alt)
qed

section \<open>Buffers\<close>

text \<open>Little-endian fields of a buffer held as a list of bytes, and overwriting a part of one.\<close>

definition get16 :: "bytes \<Rightarrow> nat \<Rightarrow> u16" where
  "get16 b o' = le16 (b ! o') (b ! (o' + 1))"

definition get32 :: "bytes \<Rightarrow> nat \<Rightarrow> u32" where
  "get32 b o' = le32 (b ! o') (b ! (o' + 1)) (b ! (o' + 2)) (b ! (o' + 3))"

definition get64 :: "bytes \<Rightarrow> nat \<Rightarrow> u64" where
  "get64 b o' = ucast (get32 b o') OR push_bit 32 (ucast (get32 b (o' + 4)))"

definition splice :: "nat \<Rightarrow> bytes \<Rightarrow> bytes \<Rightarrow> bytes" where
  "splice o' bs b = take o' b @ bs @ drop (o' + length bs) b"

lemma length_splice [simp]: "o' + length bs \<le> length b \<Longrightarrow> length (splice o' bs b) = length b"
  by (simp add: splice_def)

lemma nth_splice:
  "o' + length bs \<le> length b \<Longrightarrow> i < length b \<Longrightarrow>
   splice o' bs b ! i = (if o' \<le> i \<and> i < o' + length bs then bs ! (i - o') else b ! i)"
  by (auto simp: splice_def nth_append min_def)

text \<open>A field is determined by the bytes it covers.\<close>

lemma get32_window: "o' + 4 \<le> n \<Longrightarrow> n + k \<le> length b \<Longrightarrow> get32 (take n (drop k b)) o' = get32 b (k + o')"
  by (simp add: get32_def add.assoc)

lemma get64_window: "o' + 8 \<le> n \<Longrightarrow> n + k \<le> length b \<Longrightarrow> get64 (take n (drop k b)) o' = get64 b (k + o')"
  by (simp add: get64_def get32_window add.assoc)

lemma get16_le_bytes [le_simps]: "length xs = o' \<Longrightarrow> get16 (xs @ le_bytes 2 v @ ys) o' = v"
  by (simp add: get16_def nth_append)

lemma get32_le_bytes [le_simps]: "length xs = o' \<Longrightarrow> get32 (xs @ le_bytes 4 v @ ys) o' = v"
  by (simp add: get32_def nth_append)

lemma get64_le_bytes [le_simps]: "length xs = o' \<Longrightarrow> get64 (xs @ le_bytes 8 v @ ys) o' = v"
proof -
  assume l: "length xs = o'"
  have "le_bytes 8 v = le_bytes 4 (ucast v :: u32) @ le_bytes 4 (ucast (drop_bit 32 v) :: u32)"
    by (rule nth_equalityI)
      (auto simp: nth_append byte_of_def bit_simps not_less algebra_simps intro!: bit_word_eqI dest!: le_Suc_ex)
  then have e: "xs @ le_bytes 8 v @ ys = xs @ le_bytes 4 (ucast v :: u32) @ (le_bytes 4 (ucast (drop_bit 32 v) :: u32) @ ys)"
    "xs @ le_bytes 8 v @ ys = (xs @ le_bytes 4 (ucast v :: u32)) @ le_bytes 4 (ucast (drop_bit 32 v) :: u32) @ ys"
    by simp_all
  have "get32 (xs @ le_bytes 8 v @ ys) o' = ucast v" unfolding e(1) by (rule get32_le_bytes [OF l])
  moreover have "get32 (xs @ le_bytes 8 v @ ys) (o' + 4) = ucast (drop_bit 32 v)"
    unfolding e(2) by (rule get32_le_bytes) (simp add: l)
  ultimately show ?thesis
    unfolding get64_def by (auto intro!: bit_word_eqI simp: bit_simps)
qed

end
