(* ===== verification/Klib.thy ===== *)
theory Klib
  imports Prelude
begin

text \<open>
  The freestanding C library of the kernel (\<open>stam/klib.c\<close>): the memory functions over byte-addressed
  memory and the string functions over pointers into it. A loop that counts \<open>n\<close> down is structural
  recursion on \<open>n\<close>; a loop that stops at a NUL byte is a partial function, and the lemmas say when it
  returns.

  The lemmas show that \<open>memmove\<close> is the parallel copy whatever the overlap, and that \<open>strlen\<close> and
  \<open>strcmp\<close> return on every terminated string and agree with lists of bytes.
\<close>

section \<open>Definitions\<close>

fun memset :: "mem \<Rightarrow> u64 \<Rightarrow> u32 \<Rightarrow> nat \<Rightarrow> mem" where
  "memset m d c 0 = m"
| "memset m d c (Suc n) = memset (m(d := ucast c)) (d + 1) c n"

fun memcpy :: "mem \<Rightarrow> u64 \<Rightarrow> u64 \<Rightarrow> nat \<Rightarrow> mem" where
  "memcpy m d s 0 = m"
| "memcpy m d s (Suc n) = memcpy (m(d := m s)) (d + 1) (s + 1) n"

text \<open>The backward loop of \<open>memmove\<close>: both pointers are decremented before they are used.\<close>

fun memmove_down :: "mem \<Rightarrow> u64 \<Rightarrow> u64 \<Rightarrow> nat \<Rightarrow> mem" where
  "memmove_down m p q 0 = m"
| "memmove_down m p q (Suc n) = memmove_down (m(p - 1 := m (q - 1))) (p - 1) (q - 1) n"

definition memmove :: "mem \<Rightarrow> u64 \<Rightarrow> u64 \<Rightarrow> nat \<Rightarrow> mem" where
  "memmove m d s n =
     (if d = s \<or> n = 0 then m
      else if d < s then memcpy m d s n
      else memmove_down m (d + of_nat n) (s + of_nat n) n)"

fun memcmp :: "mem \<Rightarrow> u64 \<Rightarrow> u64 \<Rightarrow> nat \<Rightarrow> int" where
  "memcmp m a b 0 = 0"
| "memcmp m a b (Suc n) =
     (if m a \<noteq> m b then uint (m a) - uint (m b) else memcmp m (a + 1) (b + 1) n)"

partial_function (option) strlen_from :: "mem \<Rightarrow> u64 \<Rightarrow> nat \<Rightarrow> nat option" where
  "strlen_from m p n = (if m p = 0 then Some n else strlen_from m (p + 1) (Suc n))"

definition strlen :: "mem \<Rightarrow> u64 \<Rightarrow> nat option" where
  "strlen m s = strlen_from m s 0"

partial_function (option) strcmp :: "mem \<Rightarrow> u64 \<Rightarrow> u64 \<Rightarrow> int option" where
  "strcmp m a b =
     (if m a \<noteq> 0 \<and> m a = m b then strcmp m (a + 1) (b + 1)
      else Some (uint (m a) - uint (m b)))"

fun strncmp :: "mem \<Rightarrow> u64 \<Rightarrow> u64 \<Rightarrow> nat \<Rightarrow> int" where
  "strncmp m a b 0 = 0"
| "strncmp m a b (Suc n) =
     (if m a \<noteq> m b then uint (m a) - uint (m b)
      else if m a = 0 then 0
      else strncmp m (a + 1) (b + 1) n)"

section \<open>Specifications\<close>

text \<open>The parallel copy: every byte of the destination range comes from the memory before the call.\<close>

definition blit :: "mem \<Rightarrow> u64 \<Rightarrow> u64 \<Rightarrow> nat \<Rightarrow> mem" where
  "blit m d s n = (\<lambda>a. if unat (a - d) < n then m (s + (a - d)) else m a)"

text \<open>The comparison of two strings as lists of non-NUL bytes, a missing byte counting as NUL.\<close>

fun list_cmp :: "bytes \<Rightarrow> bytes \<Rightarrow> int" where
  "list_cmp [] [] = 0"
| "list_cmp [] (y # ys) = - uint y"
| "list_cmp (x # xs) [] = uint x"
| "list_cmp (x # xs) (y # ys) = (if x = y then list_cmp xs ys else uint x - uint y)"

definition cstring_at :: "mem \<Rightarrow> u64 \<Rightarrow> bytes \<Rightarrow> bool" where
  "cstring_at m p s \<longleftrightarrow> 0 \<notin> set s \<and> holds_at m p (s @ [0])"

lemma cstring_at_Nil [simp]: "cstring_at m p [] \<longleftrightarrow> m p = 0"
  by (simp add: cstring_at_def)

lemma cstring_at_Cons [simp]:
  "cstring_at m p (c # s) \<longleftrightarrow> c \<noteq> 0 \<and> m p = c \<and> cstring_at m (p + 1) s"
  by (auto simp: cstring_at_def)

section \<open>The memory functions\<close>

lemma unat_diff_step: "a \<noteq> d \<Longrightarrow> unat (a - d) = Suc (unat (a - (d + 1 :: u64)))"
proof -
  assume "a \<noteq> d"
  then have "a - d \<noteq> 0" by simp
  then have "unat (a - d - 1) = unat (a - d) - 1" and "0 < unat (a - d)"
    by (simp_all add: unat_minus_one unat_gt_0)
  then show ?thesis by (simp add: diff_diff_eq)
qed

lemma memset_fill:
  "n < 2 ^ 64 \<Longrightarrow> memset m d c n = (\<lambda>a. if unat (a - d) < n then ucast c else m a)"
proof (induction n arbitrary: m d)
  case 0
  then show ?case by simp
next
  case (Suc n)
  then show ?case by (auto simp: fun_eq_iff unat_diff_step unat_minus_1)
qed

lemma memcpy_up:
  "d < s \<Longrightarrow> unat s + n < 2 ^ 64 \<Longrightarrow> memcpy m d s n = blit m d s n"
proof (induction n arbitrary: m d s)
  case 0
  then show ?case by (simp add: blit_def)
next
  case (Suc n)
  let ?m = "m(d := m s)"
  have s1: "unat (s + 1) = unat s + 1"
    using Suc.prems by (simp add: unat_add_no_wrap)
  then have "d + 1 < s + 1"
    using Suc.prems unat_add_le [of d 1] by (simp add: word_less_nat_alt)
  then have ih: "memcpy m d s (Suc n) = blit ?m (d + 1) (s + 1) n"
    using Suc.IH [of "d + 1" "s + 1" ?m] Suc.prems s1 by (simp del: fun_upd_apply)
  have "blit ?m (d + 1) (s + 1) n a = blit m d s (Suc n) a" for a
  proof (cases "a = d")
    case True
    then show ?thesis using Suc.prems by (simp add: blit_def unat_minus_1)
  next
    case False
    have keep: "s + (a - d) \<noteq> d" if "unat (a - d) < Suc n"
    proof -
      have "unat (s + (a - d)) = unat s + unat (a - d)"
        using that Suc.prems by (intro unat_add_no_wrap) simp
      then have "unat (s + (a - d)) \<noteq> unat d"
        using Suc.prems by (simp add: word_less_nat_alt)
      then show ?thesis by metis
    qed
    have "s + 1 + (a - (d + 1)) = s + (a - d)" by (simp add: algebra_simps)
    then show ?thesis using False keep by (auto simp: blit_def unat_diff_step)
  qed
  then show ?case using ih by (simp add: fun_eq_iff)
qed

lemma memmove_down_blit:
  "s < d \<Longrightarrow> unat d + n < 2 ^ 64 \<Longrightarrow>
   memmove_down m (d + of_nat n) (s + of_nat n) n = blit m d s n"
proof (induction n arbitrary: m)
  case 0
  then show ?case by (simp add: blit_def)
next
  case (Suc n)
  let ?m = "m(d + of_nat n := m (s + of_nat n))"
  have ih: "memmove_down m (d + of_nat (Suc n)) (s + of_nat (Suc n)) (Suc n) = blit ?m d s n"
    using Suc.IH [of ?m] Suc.prems by (simp add: algebra_simps del: fun_upd_apply)
  have "blit ?m d s n a = blit m d s (Suc n) a" for a
  proof (cases "unat (a - d) < n")
    case True
    have "unat (s + (a - d)) = unat s + unat (a - d)"
      using True Suc.prems by (intro unat_add_no_wrap) (simp add: word_less_nat_alt)
    moreover have "unat (d + of_nat n) = unat d + n"
      using Suc.prems by (simp add: unat_add_no_wrap unat_of_nat)
    ultimately have "unat (s + (a - d)) \<noteq> unat (d + of_nat n)"
      using True Suc.prems by (simp add: word_less_nat_alt)
    then have "s + (a - d) \<noteq> d + of_nat n" by metis
    then show ?thesis using True by (simp add: blit_def)
  next
    case False
    have n: "unat (of_nat n :: u64) = n" using Suc.prems by (simp add: unat_of_nat)
    show ?thesis
    proof (cases "a = d + of_nat n")
      case True
      then show ?thesis using n by (simp add: blit_def)
    next
      case ne: False
      then have "unat (a - d) \<noteq> n"
        by (metis add.commute diff_add_cancel of_nat_unat ucast_id)
      then show ?thesis using False ne by (simp add: blit_def)
    qed
  qed
  then show ?case using ih by (simp add: fun_eq_iff)
qed

lemma memcmp_eq_0_iff:
  "memcmp m a b n = 0 \<longleftrightarrow> (\<forall>i < n. m (a + of_nat i) = m (b + of_nat i))"
proof (induction n arbitrary: a b)
  case 0
  then show ?case by simp
next
  case (Suc n)
  then show ?case by (auto simp: All_less_Suc2 algebra_simps)
qed

section \<open>The string functions\<close>

lemma strlen_from_cstring: "cstring_at m p s \<Longrightarrow> strlen_from m p n = Some (n + length s)"
  by (induction s arbitrary: p n) (simp_all add: strlen_from.simps)

lemma strlen_cstring: "cstring_at m p s \<Longrightarrow> strlen m p = Some (length s)"
  by (simp add: strlen_def strlen_from_cstring)

lemma strcmp_cstring:
  "cstring_at m a s \<Longrightarrow> cstring_at m b t \<Longrightarrow> strcmp m a b = Some (list_cmp s t)"
proof (induction s t arbitrary: a b rule: list_cmp.induct)
  case 1
  then show ?case by (simp add: strcmp.simps)
next
  case (2 y ys)
  then show ?case by (simp add: strcmp.simps)
next
  case (3 x xs)
  then show ?case by (simp add: strcmp.simps)
next
  case (4 x xs y ys)
  then show ?case by (auto simp: strcmp.simps [of m a b])
qed

lemma list_cmp_eq_0_iff: "0 \<notin> set s \<Longrightarrow> 0 \<notin> set t \<Longrightarrow> list_cmp s t = 0 \<longleftrightarrow> s = t"
  by (induction s t rule: list_cmp.induct) (auto simp: uint_0_iff)

section \<open>Properties\<close>

text \<open>
  C28: \<open>memmove\<close> is the parallel copy. For ranges that do not run past the end of the address space and
  whatever their overlap, every byte of the destination afterwards is the byte the source held before the
  call, and no other byte changes.
\<close>
theorem memmove_blit:
  assumes "unat d + n < 2 ^ 64" and "unat s + n < 2 ^ 64"
  shows "memmove m d s n = blit m d s n"
proof -
  consider "d = s" | "n = 0" | "d < s" | "s < d" by (meson linorder_less_linear)
  then show ?thesis
  proof cases
    case 1
    then show ?thesis by (simp add: memmove_def blit_def fun_eq_iff)
  next
    case 2
    then show ?thesis by (simp add: memmove_def blit_def)
  next
    case 3
    then show ?thesis using memcpy_up [OF 3 assms(2)]
      by (auto simp: memmove_def blit_def)
  next
    case 4
    then show ?thesis using memmove_down_blit [OF 4 assms(1)]
      by (auto simp: memmove_def blit_def)
  qed
qed

theorem memmove_blit_witness:
  "memmove (\<lambda>a. ucast a) 101 100 8 = blit (\<lambda>a. ucast a) 101 100 8"
  by (rule memmove_blit) simp_all

text \<open>
  On two strings that end in a NUL byte the loop of \<open>strcmp\<close> returns, and it returns 0 exactly when the strings are equal.
\<close>
lemma strcmp_decides:
  assumes "cstring_at m a s" and "cstring_at m b t"
  shows "\<exists>r. strcmp m a b = Some r \<and> (r = 0 \<longleftrightarrow> s = t)"
  using strcmp_cstring [OF assms] list_cmp_eq_0_iff [of s t] assms
  by (simp add: cstring_at_def)

end
