(* ===== verification/Cpio.thy ===== *)
theory Cpio
  imports Klib
begin

text \<open>
  Finding a file in the initrd (\<open>stam/cpio.c\<close>) and the tool that writes it (\<open>vcpio/vcpio.c\<close>).

  The reader works on an archive that lies in memory at \<open>img\<close> and is \<open>sz\<close> bytes long. Its walk over
  the entries is bounded by fuel: \<open>None\<close> is a walk that has not ended, \<open>Some None\<close> the return value -1, and
  \<open>Some (Some (addr, size))\<close> the return value 0 with its two outputs. The offsets are 64-bit words and wrap
  as they do in C; \<open>cpio_find_returns\<close> shows that a fuel of one unit per byte is enough for every archive
  shorter than \<open>2 ^ 63\<close> bytes.

  The writer produces the bytes of the archive as a list. The last lemmas show that what the one writes
  is what the other finds.
\<close>

section \<open>The reader\<close>

definition HDR :: u64 where "HDR = 110"

definition hexval :: "u8 \<Rightarrow> int" where
  "hexval c =
     (if 48 \<le> c \<and> c \<le> 57 then uint c - 48
      else if 97 \<le> c \<and> c \<le> 102 then uint c - 97 + 10
      else if 65 \<le> c \<and> c \<le> 70 then uint c - 65 + 10
      else - 1)"

fun field_from :: "mem \<Rightarrow> u64 \<Rightarrow> nat \<Rightarrow> u64 \<Rightarrow> u64 option" where
  "field_from m p 0 v = Some v"
| "field_from m p (Suc n) v =
     (let d = hexval (m p)
      in if d < 0 then None else field_from m (p + 1) n (push_bit 4 v OR word_of_int d))"

definition field :: "mem \<Rightarrow> u64 \<Rightarrow> u64 option" where
  "field m p = field_from m p 8 0"

definition round4 :: "u64 \<Rightarrow> u64" where
  "round4 n = (n + 3) AND NOT 3"

text \<open>Comparison of the string at \<open>a\<close> with the string \<open>b\<close>, given by its bytes before the NUL.\<close>

fun same :: "mem \<Rightarrow> u64 \<Rightarrow> bytes \<Rightarrow> bool" where
  "same m a [] = (m a = 0)"
| "same m a (c # b) = (if m a \<noteq> 0 \<and> m a = c then same m (a + 1) b else m a = c)"

definition skip_slash :: "bytes \<Rightarrow> bytes" where
  "skip_slash s = (case s of [] \<Rightarrow> [] | c # cs \<Rightarrow> if c = 47 then cs else s)"

definition skip_slash_at :: "mem \<Rightarrow> u64 \<Rightarrow> u64" where
  "skip_slash_at m p = (if m p = 47 then p + 1 else p)"

definition newc_magic :: "mem \<Rightarrow> u64 \<Rightarrow> bool" where
  "newc_magic m h \<longleftrightarrow> m h = 48 \<and> m (h + 1) = 55 \<and> m (h + 2) = 48 \<and> m (h + 3) = 55 \<and>
     m (h + 4) = 48 \<and> m (h + 5) = 49"

definition trailer :: bytes where
  "trailer = [84, 82, 65, 73, 76, 69, 82, 33, 33, 33]"

fun cpio_walk :: "nat \<Rightarrow> mem \<Rightarrow> u64 \<Rightarrow> u64 \<Rightarrow> bytes \<Rightarrow> u64 \<Rightarrow> (u64 \<times> u64) option option" where
  "cpio_walk 0 m img sz want off = None"
| "cpio_walk (Suc fuel) m img sz want off =
     (if \<not> off + HDR \<le> sz then Some None
      else let h = img + off in
        if \<not> newc_magic m h then Some None
        else case (field m (h + 54), field m (h + 94)) of
          (Some filesize, Some namesize) \<Rightarrow>
            if namesize = 0 \<or> off + HDR + namesize > sz then Some None
            else let name = h + HDR; data = off + round4 (HDR + namesize) in
              if data + filesize > sz then Some None
              else if same m name trailer then Some None
              else if same m (skip_slash_at m name) want then Some (Some (img + data, filesize))
              else cpio_walk fuel m img sz want (data + round4 filesize)
        | _ \<Rightarrow> Some None)"

definition cpio_find :: "mem \<Rightarrow> u64 \<Rightarrow> u64 \<Rightarrow> bytes \<Rightarrow> (u64 \<times> u64) option option" where
  "cpio_find m img sz want = cpio_walk (Suc (unat sz)) m img sz (skip_slash want) 0"

text \<open>
  The boot-time listing prints the name and the size of each entry; here it returns them. It reads only
  two bytes of the magic and does not check where the payload ends.
\<close>

fun cpio_list_walk :: "nat \<Rightarrow> mem \<Rightarrow> u64 \<Rightarrow> u64 \<Rightarrow> u64 \<Rightarrow> (u64 \<times> u64) list option" where
  "cpio_list_walk 0 m img sz off = None"
| "cpio_list_walk (Suc fuel) m img sz off =
     (if \<not> off + HDR \<le> sz then Some []
      else let h = img + off in
        if m h \<noteq> 48 \<or> m (h + 1) \<noteq> 55 then Some []
        else case (field m (h + 54), field m (h + 94)) of
          (Some filesize, Some namesize) \<Rightarrow>
            if namesize = 0 \<or> off + HDR + namesize > sz then Some []
            else if same m (h + HDR) trailer then Some []
            else map_option (Cons (h + HDR, filesize))
              (cpio_list_walk fuel m img sz (off + round4 (HDR + namesize) + round4 filesize))
        | _ \<Rightarrow> Some [])"

definition cpio_list :: "mem \<Rightarrow> u64 \<Rightarrow> u64 \<Rightarrow> (u64 \<times> u64) list option" where
  "cpio_list m img sz = cpio_list_walk (Suc (unat sz)) m img sz 0"

section \<open>The writer\<close>

record vstat =
  st_ino :: u32
  st_mode :: u32
  st_uid :: u32
  st_gid :: u32
  st_nlink :: u32
  st_mtime :: u32
  st_size :: u64

definition hexdigit :: "u32 \<Rightarrow> u8" where
  "hexdigit d = (if d < 10 then 48 + ucast d else 87 + ucast d)"

text \<open>\<open>%08x\<close> of a 32-bit value.\<close>

definition hexfield :: "u32 \<Rightarrow> bytes" where
  "hexfield v = map (\<lambda>i. hexdigit (drop_bit (28 - 4 * i) v AND 15)) [0..<8]"

definition pad4 :: "nat \<Rightarrow> bytes" where
  "pad4 pos = replicate ((4 - pos mod 4) mod 4) 0"

definition write_header :: "vstat option \<Rightarrow> nat \<Rightarrow> bytes" where
  "write_header st nsize =
     [48, 55, 48, 55, 48, 49] @
     hexfield (case st of Some s \<Rightarrow> st_ino s | None \<Rightarrow> 0) @
     hexfield (case st of Some s \<Rightarrow> st_mode s | None \<Rightarrow> 0) @
     hexfield (case st of Some s \<Rightarrow> st_uid s | None \<Rightarrow> 0) @
     hexfield (case st of Some s \<Rightarrow> st_gid s | None \<Rightarrow> 0) @
     hexfield (case st of Some s \<Rightarrow> st_nlink s | None \<Rightarrow> 1) @
     hexfield (case st of Some s \<Rightarrow> st_mtime s | None \<Rightarrow> 0) @
     hexfield (case st of Some s \<Rightarrow> ucast (st_size s) | None \<Rightarrow> 0) @
     hexfield 0 @ hexfield 0 @ hexfield 0 @ hexfield 0 @
     hexfield (of_nat nsize) @ hexfield 0"

text \<open>One entry, and the position in the archive after it.\<close>

definition write_entry :: "bytes \<Rightarrow> vstat option \<Rightarrow> bytes option \<Rightarrow> nat \<Rightarrow> bytes \<times> nat" where
  "write_entry name st data pos =
     (let nsize = length name + 1;
          hd = write_header st nsize @ name @ [0];
          pos1 = pos + 110 + nsize;
          p1 = pad4 pos1;
          pos2 = pos1 + length p1
      in case (st, data) of
           (Some s, Some d) \<Rightarrow>
             if st_size s \<noteq> 0 then
               let body = take (unat (st_size s)) d;
                   pos3 = pos2 + unat (st_size s);
                   p2 = pad4 pos3
               in (hd @ p1 @ body @ p2, pos3 + length p2)
             else (hd @ p1, pos2)
         | _ \<Rightarrow> (hd @ p1, pos2))"

text \<open>
  What \<open>lstat\<close>, \<open>fopen\<close>/\<open>fread\<close> and \<open>readlink\<close> answer for a name: a missing file, a regular file with
  the bytes that could be read (none when it could not be opened), a symbolic link with its target (none
  when it could not be read), or anything else.
\<close>

datatype lnode = NotFound | Reg vstat "bytes option" | Lnk vstat "bytes option" | Other vstat

fun do_create_from :: "(bytes \<times> lnode) list \<Rightarrow> nat \<Rightarrow> bytes" where
  "do_create_from [] pos =
     fst (write_entry trailer
       (Some \<lparr>st_ino = 0, st_mode = 0, st_uid = 0, st_gid = 0, st_nlink = 1, st_mtime = 0, st_size = 0\<rparr>)
       None pos)"
| "do_create_from ((line, nd) # rest) pos =
     (if line = [] then do_create_from rest pos
      else case nd of
        NotFound \<Rightarrow> do_create_from rest pos
      | Reg st None \<Rightarrow> do_create_from rest pos
      | Reg st (Some d) \<Rightarrow>
          let (out, pos') = write_entry line (Some (st\<lparr>st_size := of_nat (length d)\<rparr>)) (Some d) pos
          in out @ do_create_from rest pos'
      | Lnk st None \<Rightarrow> do_create_from rest pos
      | Lnk st (Some t) \<Rightarrow>
          let (out, pos') = write_entry line (Some (st\<lparr>st_size := of_nat (length t)\<rparr>)) (Some t) pos
          in out @ do_create_from rest pos'
      | Other st \<Rightarrow>
          let (out, pos') = write_entry line (Some (st\<lparr>st_size := 0\<rparr>)) None pos
          in out @ do_create_from rest pos')"

definition do_create :: "(bytes \<times> lnode) list \<Rightarrow> bytes" where
  "do_create ins = do_create_from ins 0"

section \<open>Numbers in a header\<close>

lemma hexval_range: "hexval c = - 1 \<or> (0 \<le> hexval c \<and> hexval c < 16)"
  by (auto simp: hexval_def word_le_def)

lemma shift4_or:
  assumes "0 \<le> d" and "d < 16" and "unat v < 2 ^ 60"
  shows "unat (push_bit 4 v OR word_of_int d :: u64) = 16 * unat v + nat d"
proof -
  have d: "word_of_int d = (of_nat (nat d) :: u64)" using assms(1) by simp
  have "\<not> bit (push_bit 4 v) n \<or> \<not> bit (word_of_int d :: u64) n" for n
  proof (cases "n < 4")
    case False
    have "d = take_bit 4 d" using assms by (simp add: take_bit_eq_mod)
    then have "\<not> bit d n" using False by (metis bit_take_bit_iff)
    then show ?thesis by (simp add: bit_simps)
  qed (simp add: bit_simps)
  then have "push_bit 4 v OR word_of_int d = push_bit 4 v + (word_of_int d :: u64)"
    by (simp add: disjunctive_add)
  also have "\<dots> = of_nat (16 * unat v + nat d)"
    by (simp add: d push_bit_eq_mult ac_simps)
  finally have "unat (push_bit 4 v OR word_of_int d :: u64) = unat (of_nat (16 * unat v + nat d) :: u64)"
    by (rule arg_cong)
  also have "\<dots> = 16 * unat v + nat d"
    by (rule unat_of_nat_eq) (use assms in simp)
  finally show ?thesis .
qed

lemma field_from_bound:
  "field_from m p n v = Some w \<Longrightarrow> unat v < 16 ^ k \<Longrightarrow> k + n \<le> 15 \<Longrightarrow> unat w < 16 ^ (k + n)"
proof (induction n arbitrary: p v k)
  case 0
  then show ?case by simp
next
  case (Suc n)
  let ?d = "hexval (m p)"
  have d: "0 \<le> ?d" "?d < 16" and
    f: "field_from m (p + 1) n (push_bit 4 v OR word_of_int ?d) = Some w"
    using Suc.prems(1) hexval_range [of "m p"] by (auto simp: Let_def split: if_splits)
  have "(16 :: nat) ^ k \<le> 16 ^ 15" using Suc.prems(3) by (intro power_increasing) auto
  then have "unat v < 2 ^ 60" using Suc.prems(2) by (simp add: power_mult [symmetric])
  then have "unat (push_bit 4 v OR word_of_int ?d) < 16 ^ Suc k"
    using shift4_or [OF d, of v] Suc.prems(2) d by simp
  then show ?case using Suc.IH [OF f, of "Suc k"] Suc.prems(3) by simp
qed

lemma field_bound: "field m p = Some v \<Longrightarrow> unat v < 2 ^ 32"
  using field_from_bound [of m p 8 0 v 0] by (simp add: field_def power_mult [symmetric])

lemma unat_round4: "unat n + 3 < 2 ^ 64 \<Longrightarrow> unat (round4 n) = (unat n + 3) div 4 * 4"
  using unat_and_not_mask [of "n + 3" 2]
  by (simp add: round4_def unat_add_no_wrap mask_eq_exp_minus_1)

lemma round4_of_nat:
  assumes "w = of_nat n" and "n + 3 < 2 ^ 64"
  shows "round4 w = of_nat ((n + 3) div 4 * 4)"
proof -
  have "unat (round4 w) = (n + 3) div 4 * 4"
    using assms by (simp add: unat_round4 unat_of_nat_eq)
  then show ?thesis by (metis of_nat_unat ucast_id)
qed

lemma round4_bounds:
  "unat n + 3 < 2 ^ 64 \<Longrightarrow> unat n \<le> unat (round4 n) \<and> unat (round4 n) \<le> unat n + 3"
  by (simp add: unat_round4)

section \<open>The walk ends and stays inside the archive\<close>

text \<open>
  One step of the walk, without wrap-around: the archive is shorter than \<open>2 ^ 63\<close> bytes, so an entry that
  passes the checks lies inside it and the next offset is past this header.
\<close>

lemma entry_inside:
  assumes "unat sz < 2 ^ 63" and "unat off \<le> unat sz + 3"
    and "off + HDR + ns \<le> sz" and "data = off + round4 (HDR + ns)" and "data + fs \<le> sz"
    and "unat ns < 2 ^ 32" and "unat fs < 2 ^ 32"
  shows "unat off + 110 \<le> unat data" and "unat data + unat fs \<le> unat sz"
    and "unat (data + round4 fs) \<le> unat sz + 3" and "unat off + 110 \<le> unat (data + round4 fs)"
proof -
  have hn: "unat (HDR + ns) = 110 + unat ns"
    using assms(6) by (simp add: HDR_def unat_add_no_wrap)
  have r: "110 + unat ns \<le> unat (round4 (HDR + ns))" "unat (round4 (HDR + ns)) \<le> 113 + unat ns"
    using round4_bounds [of "HDR + ns"] hn assms(6) by simp_all
  have d: "unat data = unat off + unat (round4 (HDR + ns))"
    unfolding assms(4) using assms(1,2,6) r by (intro unat_add_no_wrap) simp
  then show "unat off + 110 \<le> unat data" using r by simp
  have df: "unat (data + fs) = unat data + unat fs"
    using assms(1,2,6,7) d r by (intro unat_add_no_wrap) simp
  then show dfs: "unat data + unat fs \<le> unat sz" using assms(5) by (simp add: word_le_nat_alt)
  have f: "unat fs \<le> unat (round4 fs)" "unat (round4 fs) \<le> unat fs + 3"
    using round4_bounds [of fs] assms(7) by simp_all
  have "unat (data + round4 fs) = unat data + unat (round4 fs)"
    using assms(1) dfs f by (intro unat_add_no_wrap) simp
  then show "unat (data + round4 fs) \<le> unat sz + 3" "unat off + 110 \<le> unat (data + round4 fs)"
    using dfs f d r by simp_all
qed

text \<open>The guards of a step that goes on, collected once for the inductions below.\<close>

lemma cpio_walk_step:
  assumes "cpio_walk (Suc fuel) m img sz want off = r"
    and "unat sz < 2 ^ 63" and "unat off \<le> unat sz + 3"
  obtains "r = Some None"
    | fs where "\<exists>data. r = Some (Some (img + data, fs)) \<and> unat data + unat fs \<le> unat sz"
    | off' where "r = cpio_walk fuel m img sz want off'" "unat off' \<le> unat sz + 3"
        "unat off + 110 \<le> unat off'" "unat off + 110 \<le> unat sz"
proof (cases "off + HDR \<le> sz \<and> newc_magic m (img + off)")
  case False
  then show ?thesis using assms(1) that(1) by (auto simp: Let_def)
next
  case go: True
  show ?thesis
  proof (cases "field m (img + off + 54)")
    case None
    then show ?thesis using go assms(1) that(1) by (auto simp: Let_def)
  next
    case fs: (Some fs)
    show ?thesis
    proof (cases "field m (img + off + 94)")
      case None
      then show ?thesis using fs go assms(1) that(1) by (auto simp: Let_def)
    next
      case ns: (Some ns)
      define data where "data = off + round4 (HDR + ns)"
      show ?thesis
      proof (cases "off + HDR + ns \<le> sz \<and> data + fs \<le> sz")
        case False
        then show ?thesis using fs ns go assms(1) that(1)
          by (auto simp: Let_def data_def not_le split: if_splits)
      next
        case True
        note e = entry_inside [OF assms(2,3) True [THEN conjunct1] data_def True [THEN conjunct2]
            field_bound [OF ns] field_bound [OF fs]]
        consider "r = Some None" | "r = Some (Some (img + data, fs))"
          | "r = cpio_walk fuel m img sz want (data + round4 fs)"
          using assms(1) fs ns by (auto simp: Let_def data_def split: if_splits)
        then show ?thesis
        proof cases
          case 2
          then show ?thesis using that(2) e(2) by blast
        next
          case 3
          then show ?thesis using that(3) e by simp
        qed (rule that(1))
      qed
    qed
  qed
qed

lemma cpio_walk_returns:
  "unat sz < 2 ^ 63 \<Longrightarrow> unat off \<le> unat sz + 3 \<Longrightarrow> unat sz - unat off < fuel \<Longrightarrow>
   \<exists>r. cpio_walk fuel m img sz want off = Some r"
proof (induction fuel arbitrary: off)
  case 0
  then show ?case by simp
next
  case (Suc fuel)
  show ?case
  proof (rule cpio_walk_step [OF refl Suc.prems(1,2), of fuel m img want])
    fix off'
    assume step: "cpio_walk (Suc fuel) m img sz want off = cpio_walk fuel m img sz want off'"
      "unat off' \<le> unat sz + 3" "unat off + 110 \<le> unat off'" "unat off + 110 \<le> unat sz"
    then have "unat sz - unat off' < fuel" using Suc.prems(3) by linarith
    then show ?thesis using Suc.IH [OF Suc.prems(1) step(2)] step(1) by simp
  qed auto
qed

lemma cpio_walk_inside:
  "cpio_walk fuel m img sz want off = Some (Some (a, l)) \<Longrightarrow> unat sz < 2 ^ 63 \<Longrightarrow>
   unat off \<le> unat sz + 3 \<Longrightarrow> unat (a - img) + unat l \<le> unat sz"
proof (induction fuel arbitrary: off)
  case 0
  then show ?case by simp
next
  case (Suc fuel)
  show ?case
  proof (rule cpio_walk_step [OF Suc.prems])
    fix off'
    assume "Some (Some (a, l)) = cpio_walk fuel m img sz want off'" "unat off' \<le> unat sz + 3"
    then show ?thesis using Suc.IH [of off'] Suc.prems(2) by metis
  qed auto
qed

text \<open>The listing ends as well: each entry moves the offset by at least the 110 bytes of a header.\<close>

lemma cpio_list_step:
  assumes "unat sz < 2 ^ 63" and "unat off \<le> unat sz + 2 ^ 34" and "unat ns < 2 ^ 32" and "unat fs < 2 ^ 32"
    and "off + HDR + ns \<le> sz"
  shows "unat off + 110 \<le> unat (off + round4 (HDR + ns) + round4 fs)"
    and "unat (off + round4 (HDR + ns) + round4 fs) \<le> unat sz + 2 ^ 34"
proof -
  have hn: "unat (HDR + ns) = 110 + unat ns"
    using assms(3) by (simp add: HDR_def unat_add_no_wrap)
  have o: "unat (off + HDR + ns) = unat off + 110 + unat ns"
    using unat_add_no_wrap [of off "HDR + ns"] hn assms(1-3) by (simp add: add.assoc)
  then have fit: "unat off + 110 + unat ns \<le> unat sz" using assms(5) by (simp add: word_le_nat_alt)
  have r: "110 + unat ns \<le> unat (round4 (HDR + ns))" "unat (round4 (HDR + ns)) \<le> 113 + unat ns"
    and f: "unat (round4 fs) \<le> unat fs + 3"
    using round4_bounds [of "HDR + ns"] round4_bounds [of fs] hn assms(3,4) by simp_all
  have "unat (off + round4 (HDR + ns)) = unat off + unat (round4 (HDR + ns))"
    using assms(1) fit r by (intro unat_add_no_wrap) simp
  moreover from this have "unat (off + round4 (HDR + ns) + round4 fs) =
      unat (off + round4 (HDR + ns)) + unat (round4 fs)"
    using assms(1,4) fit r f by (intro unat_add_no_wrap) simp
  ultimately show "unat off + 110 \<le> unat (off + round4 (HDR + ns) + round4 fs)"
    and "unat (off + round4 (HDR + ns) + round4 fs) \<le> unat sz + 2 ^ 34"
    using assms(4) fit r f by simp_all
qed

lemma cpio_list_walk_returns:
  "unat sz < 2 ^ 63 \<Longrightarrow> unat off \<le> unat sz + 2 ^ 34 \<Longrightarrow> unat sz - unat off < fuel \<Longrightarrow>
   cpio_list_walk fuel m img sz off \<noteq> None"
proof (induction fuel arbitrary: off)
  case 0
  then show ?case by simp
next
  case (Suc fuel)
  have ih: "cpio_list_walk fuel m img sz (off + round4 (HDR + ns) + round4 fs) \<noteq> None"
    if "field m (img + off + 54) = Some fs" "field m (img + off + 94) = Some ns"
      "off + HDR \<le> sz" "off + HDR + ns \<le> sz" for fs ns
  proof -
    note st = cpio_list_step [OF Suc.prems(1,2) field_bound [OF that(2)] field_bound [OF that(1)] that(4)]
    have "unat (off + HDR) = unat off + 110"
      using Suc.prems(1,2) by (simp add: HDR_def unat_add_no_wrap)
    then have "unat off + 110 \<le> unat sz" using that(3) by (simp add: word_le_nat_alt)
    then show ?thesis using Suc.IH [OF Suc.prems(1) st(2)] Suc.prems(3) st(1) by linarith
  qed
  show ?case
    using ih by (auto simp: Let_def not_less split: option.splits)
qed

lemma cpio_list_returns: "unat sz < 2 ^ 63 \<Longrightarrow> cpio_list m img sz \<noteq> None"
  unfolding cpio_list_def by (rule cpio_list_walk_returns) simp_all

section \<open>What the writer writes, the reader finds\<close>

lemma hexval_unat:
  "hexval c =
     (if 48 \<le> unat c \<and> unat c \<le> 57 then int (unat c) - 48
      else if 97 \<le> unat c \<and> unat c \<le> 102 then int (unat c) - 87
      else if 65 \<le> unat c \<and> unat c \<le> 70 then int (unat c) - 55
      else - 1)"
  by (simp add: hexval_def word_le_nat_alt)

lemma hexval_hexdigit:
  assumes "d < 16"
  shows "hexval (hexdigit d) = uint d"
proof -
  have d: "unat d < 16" using assms by (simp add: word_less_nat_alt)
  have u: "unat (ucast d :: u8) = unat d"
    using d by (simp add: unsigned_ucast_eq take_bit_eq_mod)
  show ?thesis
  proof (cases "d < 10")
    case True
    then have "unat d < 10" and "unat (hexdigit d) = 48 + unat d"
      using d unat_add_no_wrap [of 48 "ucast d :: u8"]
      by (simp_all add: u hexdigit_def word_less_nat_alt)
    then show ?thesis by (simp only: hexval_unat) simp
  next
    case False
    then have "10 \<le> unat d" and "unat (hexdigit d) = 87 + unat d"
      using d unat_add_no_wrap [of 87 "ucast d :: u8"]
      by (simp_all add: u hexdigit_def word_less_nat_alt not_less)
    then show ?thesis using d by (simp only: hexval_unat) simp
  qed
qed

lemma and_15_less: "v AND 15 < (16 :: u32)"
  using word_and_le1 [of v 15] by (simp add: word_le_nat_alt word_less_nat_alt)

fun hexdigits :: "nat \<Rightarrow> u32 \<Rightarrow> bytes" where
  "hexdigits 0 v = []"
| "hexdigits (Suc n) v = hexdigit (drop_bit (4 * n) v AND 15) # hexdigits n v"

lemma hexfield_digits: "hexfield v = hexdigits 8 v"
  by (simp add: hexfield_def upt_rec eval_nat_numeral)

lemma nibble_step:
  "push_bit 4 (ucast (drop_bit (k + 4) v)) OR ucast (drop_bit k v AND 15) = (ucast (drop_bit k (v :: u32)) :: u64)"
proof (rule bit_word_eqI)
  fix n assume "n < LENGTH(64)"
  show "bit (push_bit 4 (ucast (drop_bit (k + 4) v)) OR ucast (drop_bit k v AND 15) :: u64) n \<longleftrightarrow>
      bit (ucast (drop_bit k v) :: u64) n"
    unfolding and_15 by (cases "n < 4") (auto simp: bit_simps)
qed

lemma field_from_hexdigits:
  "holds_at m p (hexdigits n v) \<Longrightarrow> field_from m p n (ucast (drop_bit (4 * n) v)) = Some (ucast v)"
proof (induction n arbitrary: p)
  case 0
  then show ?case by simp
next
  case (Suc n)
  let ?d = "drop_bit (4 * n) v AND 15"
  have "hexval (m p) = uint ?d"
    using Suc.prems by (simp add: hexval_hexdigit and_15_less)
  moreover have "push_bit 4 (ucast (drop_bit (4 * Suc n) v)) OR word_of_int (uint ?d) =
      (ucast (drop_bit (4 * n) v) :: u64)"
    using nibble_step [of "4 * n" v] by (simp add: ac_simps)
  ultimately show ?case using Suc.IH [of "p + 1"] Suc.prems by (simp add: Let_def)
qed

lemma field_hexfield: "holds_at m p (hexfield v) \<Longrightarrow> field m p = Some (ucast v)"
  using field_from_hexdigits [of m p 8 v]
  by (simp add: hexfield_digits field_def drop_bit_eq_zero_iff_not_bit_last drop_bit_word_beyond)

lemma length_hexfield [simp]: "length (hexfield v) = 8"
  by (simp add: hexfield_def)

lemma length_write_header [simp]: "length (write_header st n) = 110"
  by (simp add: write_header_def)

lemma length_pad4: "length (pad4 n) = (4 - n mod 4) mod 4"
  by (simp add: pad4_def)

lemma pad4_add: "p mod 4 = 0 \<Longrightarrow> pad4 (p + n) = pad4 n"
  by (simp add: pad4_def mod_add_left_eq [symmetric])

lemma pad4_round: "n + (4 - n mod 4) mod 4 = (n + 3) div 4 * (4 :: nat)"
proof -
  obtain q r where n: "n = 4 * q + r" "r < 4"
    by (metis mod_less_divisor mult_div_mod_eq zero_less_numeral)
  then have "r = 0 \<or> r = 1 \<or> r = 2 \<or> r = 3" by arith
  then show ?thesis using n(1) by auto
qed

definition entry_bytes :: "vstat \<Rightarrow> bytes \<Rightarrow> bytes \<Rightarrow> bytes" where
  "entry_bytes st name d =
     write_header (Some st) (length name + 1) @ name @ [0] @ pad4 (111 + length name) @ d @ pad4 (length d)"

lemma length_entry_bytes:
  "length (entry_bytes st name d) = (111 + length name + 3) div 4 * 4 + (length d + 3) div 4 * 4"
proof -
  have "111 + length name + length (pad4 (111 + length name)) = (111 + length name + 3) div 4 * 4"
    and "length d + length (pad4 (length d)) = (length d + 3) div 4 * 4"
    by (simp_all only: length_pad4 pad4_round)
  then show ?thesis by (simp add: entry_bytes_def)
qed

lemma pad4_fill: "(n + length (pad4 n)) mod 4 = 0"
  by (simp only: length_pad4 pad4_round mod_mult_self2_is_0)

lemma write_entry_Some:
  assumes "pos mod 4 = 0" and "length d < 2 ^ 32"
  shows "write_entry name (Some (st\<lparr>st_size := of_nat (length d)\<rparr>)) (Some d) pos =
     (entry_bytes (st\<lparr>st_size := of_nat (length d)\<rparr>) name d,
      pos + length (entry_bytes (st\<lparr>st_size := of_nat (length d)\<rparr>) name d))"
proof -
  let ?l = "111 + length name"
  have n: "unat (of_nat (length d) :: u64) = length d"
    using assms(2) by (simp add: unat_of_nat_eq)
  have z: "of_nat (length d) \<noteq> (0 :: u64)" if "d \<noteq> []"
  proof
    assume "of_nat (length d) = (0 :: u64)"
    then have "unat (of_nat (length d) :: u64) = 0" by (simp only: unsigned_0)
    then show False using n that by simp
  qed
  have e: "pos + 110 + (length name + 1) = pos + ?l" by simp
  have p1: "pad4 (pos + ?l) = pad4 ?l" by (rule pad4_add [OF assms(1)])
  have "(pos + ?l + length (pad4 ?l)) mod 4 = 0"
    using mod_add_eq [of pos 4 "?l + length (pad4 ?l)"] assms(1) pad4_fill [of ?l] by (simp add: add.assoc)
  then have p2: "pad4 (pos + ?l + length (pad4 ?l) + length d) = pad4 (length d)"
    by (rule pad4_add)
  have p0: "pad4 0 = []" by (simp add: pad4_def)
  show ?thesis
  proof (cases "d = []")
    case True
    then show ?thesis unfolding write_entry_def Let_def entry_bytes_def e p1 by (simp add: p0)
  next
    case False
    then have "of_nat (length d) \<noteq> (0 :: u64)" by (rule z)
    then show ?thesis
      unfolding write_entry_def Let_def entry_bytes_def e p1 by (simp add: n p2)
  qed
qed

lemma write_entry_None:
  assumes "pos mod 4 = 0"
  shows "write_entry name (Some st) None pos =
     (entry_bytes st name [], pos + length (entry_bytes st name []))"
proof -
  have "pos + 110 + (length name + 1) = pos + (111 + length name)" by simp
  then show ?thesis
    unfolding write_entry_def Let_def entry_bytes_def
    by (simp only: pad4_add [OF assms, of "111 + length name"]) (simp add: pad4_def [of 0])
qed

text \<open>The entries an input produces: name, header fields and payload.\<close>

fun archived :: "(bytes \<times> lnode) list \<Rightarrow> (bytes \<times> vstat \<times> bytes) list" where
  "archived [] = []"
| "archived ((line, nd) # rest) =
     (if line = [] then archived rest
      else case nd of
        Reg st (Some d) \<Rightarrow> (line, st\<lparr>st_size := of_nat (length d)\<rparr>, d) # archived rest
      | Lnk st (Some d) \<Rightarrow> (line, st\<lparr>st_size := of_nat (length d)\<rparr>, d) # archived rest
      | Other st \<Rightarrow> (line, st\<lparr>st_size := 0\<rparr>, []) # archived rest
      | _ \<Rightarrow> archived rest)"

abbreviation stat0 :: vstat where
  "stat0 \<equiv> \<lparr>st_ino = 0, st_mode = 0, st_uid = 0, st_gid = 0, st_nlink = 1, st_mtime = 0, st_size = 0\<rparr>"

fun archive_bytes :: "(bytes \<times> vstat \<times> bytes) list \<Rightarrow> bytes" where
  "archive_bytes [] = entry_bytes stat0 trailer []"
| "archive_bytes ((name, st, d) # es) = entry_bytes st name d @ archive_bytes es"

lemma entry_mod4: "length (entry_bytes st name d) mod 4 = 0"
  by (simp add: length_entry_bytes mod_add_eq [symmetric] del: mod_add_eq)

lemma do_create_archive:
  "pos mod 4 = 0 \<Longrightarrow> \<forall>(n, st, d) \<in> set (archived ins). length d < 2 ^ 32 \<Longrightarrow>
   do_create_from ins pos = archive_bytes (archived ins)"
proof (induction ins arbitrary: pos rule: archived.induct)
  case 1
  then show ?case by (simp add: write_entry_None)
next
  case (2 line nd rest)
  then show ?case
    by (auto simp: write_entry_None write_entry_Some mod_add_eq [symmetric] entry_mod4
        split: lnode.splits option.splits)
qed

lemma archived_ok: "(n, st, d) \<in> set (archived ins) \<Longrightarrow> st_size st = of_nat (length d) \<and> n \<noteq> []"
  by (induction ins rule: archived.induct)
    (auto split: lnode.splits option.splits if_splits)

lemma same_cstring: "cstring_at m a s \<Longrightarrow> 0 \<notin> set w \<Longrightarrow> same m a w \<longleftrightarrow> s = w"
proof (induction w arbitrary: a s)
  case Nil
  then show ?case by (cases s) auto
next
  case (Cons c w)
  then show ?case by (cases s) auto
qed

lemma skip_slash_cstring:
  "cstring_at m a s \<Longrightarrow> cstring_at m (skip_slash_at m a) (skip_slash s)"
  by (cases s) (auto simp: skip_slash_def skip_slash_at_def)

lemma header_fields:
  assumes "holds_at m h (write_header (Some st) n)"
  shows "newc_magic m h" and "field m (h + 54) = Some (ucast (ucast (st_size st) :: u32))"
    and "field m (h + 94) = Some (ucast (of_nat n :: u32))"
proof -
  note h = assms [unfolded write_header_def option.case holds_at_append length_hexfield]
  show "newc_magic m h" using h by (simp add: newc_magic_def add.assoc)
  have "holds_at m (h + 54) (hexfield (ucast (st_size st)))" using h by (simp add: add.assoc)
  then show "field m (h + 54) = Some (ucast (ucast (st_size st) :: u32))" by (rule field_hexfield)
  have "holds_at m (h + 94) (hexfield (of_nat n))" using h by (simp add: add.assoc)
  then show "field m (h + 94) = Some (ucast (of_nat n :: u32))" by (rule field_hexfield)
qed

lemma cpio_walk_entry:
  assumes at: "holds_at m (img + of_nat off) (entry_bytes st name d)"
    and fits: "off + length (entry_bytes st name d) \<le> n" "n < 2 ^ 32"
    and st: "st_size st = of_nat (length d)"
    and nul: "0 \<notin> set name" "0 \<notin> set want"
  shows "\<exists>a. holds_at m a d \<and> cpio_walk (Suc fuel) m img (of_nat n) want (of_nat off) =
     (if name = trailer then Some None
      else if skip_slash name = want then Some (Some (a, of_nat (length d)))
      else cpio_walk fuel m img (of_nat n) want (of_nat (off + length (entry_bytes st name d))))"
proof -
  let ?h = "img + of_nat off" and ?l = "(111 + length name + 3) div 4 * 4" and ?r = "(length d + 3) div 4 * 4"
  have len: "length (entry_bytes st name d) = ?l + ?r" by (rule length_entry_bytes)
  have l: "111 + length name \<le> ?l" and r: "length d \<le> ?r" by arith+
  have sz: "unat (of_nat n :: u64) = n" "unat (of_nat off :: u64) = off"
    using fits by (simp_all add: unat_of_nat_eq)
  note e = at [unfolded entry_bytes_def]
  have hdr: "holds_at m ?h (write_header (Some st) (length name + 1))"
    and nm: "cstring_at m (?h + HDR) name"
    using e nul(1) by (simp_all add: holds_at_append cstring_at_def HDR_def add.assoc)
  have pl: "111 + length name + length (pad4 (111 + length name)) = ?l"
    by (simp only: length_pad4 pad4_round)
  have "holds_at m (?h + of_nat (111 + length name + length (pad4 (111 + length name)))) d"
    using e by (simp add: holds_at_append add.assoc)
  then have data: "holds_at m (?h + of_nat ?l) d" unfolding pl .
  have small: "length name + 1 < 2 ^ 32" "length d < 2 ^ 32"
    using fits len l r by simp_all
  have fs: "field m (?h + 54) = Some (of_nat (length d))"
    and ns: "field m (?h + 94) = Some (of_nat (length name + 1))"
    using header_fields(2,3) [OF hdr] small
      ucast_of_nat_small [of "length name + 1", where 'a = 32 and 'b = 64]
      ucast_of_nat_small [of "length d", where 'a = 32 and 'b = 64]
      ucast_of_nat_small [of "length d", where 'a = 64 and 'b = 32]
    by (simp_all only: st) simp_all
  have guards: "of_nat off + HDR \<le> (of_nat n :: u64)"
    "of_nat (length name + 1) \<noteq> (0 :: u64)"
    "of_nat off + HDR + of_nat (length name + 1) \<le> (of_nat n :: u64)"
    "of_nat off + of_nat ?l + of_nat (length d) \<le> (of_nat n :: u64)"
    using fits len l r of_nat_word_le [of "off + 110" n, where 'a = 64]
      of_nat_word_le [of "off + 110 + (length name + 1)" n, where 'a = 64]
      of_nat_word_le [of "off + ?l + length d" n, where 'a = 64]
      unat_of_nat_eq [of "length name + 1", where 'a = 64] small
    by (auto simp: HDR_def)
  have "HDR + of_nat (length name + 1) = of_nat (111 + length name)" by (simp add: HDR_def)
  then have "round4 (HDR + of_nat (length name + 1)) = of_nat ?l"
    by (rule round4_of_nat) (use small in simp)
  moreover have "round4 (of_nat (length d)) = of_nat ?r"
    by (rule round4_of_nat [OF refl]) (use small in simp)
  ultimately have rounds: "round4 (HDR + of_nat (length name + 1)) = of_nat ?l"
    "round4 (of_nat (length d)) = of_nat ?r" by simp_all
  define N F L R O' S where defs: "N = (of_nat (length name + 1) :: u64)" "F = (of_nat (length d) :: u64)"
    "L = (of_nat ?l :: u64)" "R = (of_nat ?r :: u64)" "O' = (of_nat off :: u64)" "S = (of_nat n :: u64)"
  have "same m (?h + HDR) trailer \<longleftrightarrow> name = trailer"
    by (rule same_cstring [OF nm]) (simp add: trailer_def)
  moreover have "same m (skip_slash_at m (?h + HDR)) want \<longleftrightarrow> skip_slash name = want"
    by (rule same_cstring [OF skip_slash_cstring [OF nm] nul(2)])
  ultimately have "cpio_walk (Suc fuel) m img S want O' =
     (if name = trailer then Some None
      else if skip_slash name = want then Some (Some (img + (O' + L), F))
      else cpio_walk fuel m img S want (O' + L + R))"
    using guards(1,2) guards(3,4) [THEN leD] rounds header_fields(1) [OF hdr] fs ns
    unfolding cpio_walk.simps Let_def defs(1-6) [symmetric] by simp
  moreover have "O' + L + R = of_nat (off + length (entry_bytes st name d))"
    by (simp only: len defs of_nat_add add.assoc)
  moreover have "holds_at m (img + (O' + L)) d" using data by (simp only: defs add.assoc)
  ultimately show ?thesis unfolding defs by metis
qed

declare cpio_walk.simps [simp del]

text \<open>An entry under the name \<open>want\<close>, both without their leading slash, and its payload.\<close>

definition named :: "bytes \<Rightarrow> bytes \<times> vstat \<times> bytes \<Rightarrow> bool" where
  "named want e \<longleftrightarrow> skip_slash (fst e) = skip_slash want"

definition payload :: "bytes \<times> vstat \<times> bytes \<Rightarrow> bytes" where
  "payload e = snd (snd e)"

definition good_entry :: "bytes \<times> vstat \<times> bytes \<Rightarrow> bool" where
  "good_entry e \<longleftrightarrow> st_size (fst (snd e)) = of_nat (length (payload e)) \<and> 0 \<notin> set (fst e) \<and> fst e \<noteq> trailer"

lemma cpio_walk_archive:
  assumes "holds_at m (img + of_nat off) (archive_bytes es)"
    and "off + length (archive_bytes es) = n" "n < 2 ^ 32"
    and "\<forall>e \<in> set es. good_entry e"
    and "0 \<notin> set want" and "length es < fuel"
  shows "case find (named want) es of
      None \<Rightarrow> cpio_walk fuel m img (of_nat n) (skip_slash want) (of_nat off) = Some None
    | Some e \<Rightarrow> \<exists>a. holds_at m a (payload e) \<and>
        cpio_walk fuel m img (of_nat n) (skip_slash want) (of_nat off) =
          Some (Some (a, of_nat (length (payload e))))"
  using assms
proof (induction es arbitrary: off fuel)
  case Nil
  then obtain f where f: "fuel = Suc f" by (cases fuel) auto
  have "0 \<notin> set (skip_slash want)" using Nil.prems(5) by (auto simp: skip_slash_def split: list.splits)
  then show ?case
    using cpio_walk_entry [of m img off stat0 trailer "[]" n "skip_slash want" f] Nil.prems f
    by (simp add: trailer_def)
next
  case (Cons x es)
  obtain name st d where x: "x = (name, st, d)" by (metis prod_cases3)
  obtain f where f: "fuel = Suc f" using Cons.prems(6) by (cases fuel) auto
  let ?off = "off + length (entry_bytes st name d)"
  have at: "holds_at m (img + of_nat off) (entry_bytes st name d)"
    and rest: "holds_at m (img + of_nat ?off) (archive_bytes es)"
    using Cons.prems(1) x by (simp_all add: holds_at_append add.assoc)
  have "0 \<notin> set (skip_slash want)" using Cons.prems(5) by (auto simp: skip_slash_def split: list.splits)
  then obtain a where a: "holds_at m a d" and
    w: "cpio_walk (Suc f) m img (of_nat n) (skip_slash want) (of_nat off) =
     (if name = trailer then Some None
      else if skip_slash name = skip_slash want then Some (Some (a, of_nat (length d)))
      else cpio_walk f m img (of_nat n) (skip_slash want) (of_nat ?off))"
    using cpio_walk_entry [OF at, of n "skip_slash want" f] Cons.prems(2-4) x
    by (auto simp: good_entry_def payload_def)
  show ?case
  proof (cases "named want x")
    case True
    then show ?thesis using a w Cons.prems(4) x f by (auto simp: named_def payload_def good_entry_def)
  next
    case False
    have "?off + length (archive_bytes es) = n" using Cons.prems(2) x by simp
    then have ih: "case find (named want) es of
        None \<Rightarrow> cpio_walk f m img (of_nat n) (skip_slash want) (of_nat ?off) = Some None
      | Some e \<Rightarrow> \<exists>a. holds_at m a (payload e) \<and>
          cpio_walk f m img (of_nat n) (skip_slash want) (of_nat ?off) =
            Some (Some (a, of_nat (length (payload e))))"
      by (rule Cons.IH [OF rest]) (use Cons.prems(3-6) f in auto)
    have "cpio_walk fuel m img (of_nat n) (skip_slash want) (of_nat off) =
        cpio_walk f m img (of_nat n) (skip_slash want) (of_nat ?off)"
      using w False Cons.prems(4) x f by (simp add: named_def good_entry_def del: of_nat_add)
    then show ?thesis using ih False by (simp only: find.simps if_False)
  qed
qed

lemma length_archive_ge: "length es \<le> length (archive_bytes es)"
proof (induction es rule: archive_bytes.induct)
  case (2 name st d es)
  have "1 \<le> (111 + length name + 3) div 4 * 4" by arith
  then show ?case using 2 by (simp add: length_entry_bytes)
qed simp

section \<open>Properties\<close>

text \<open>
  C26: the walk over an archive always ends. For every memory, every archive shorter than \<open>2 ^ 63\<close> bytes,
  corrupt or not, and every name, \<open>cpio_find\<close> returns, and when it reports a file the reported range lies
  inside the archive.
\<close>
theorem cpio_find_returns:
  assumes "unat sz < 2 ^ 63"
  shows "\<exists>r. cpio_find m img sz want = Some r \<and>
    (\<forall>a l. r = Some (a, l) \<longrightarrow> unat (a - img) + unat l \<le> unat sz)"
proof -
  obtain r where r: "cpio_find m img sz want = Some r"
    using cpio_walk_returns [of sz 0 "Suc (unat sz)" m img "skip_slash want"] assms
    by (auto simp: cpio_find_def)
  then show ?thesis
    using cpio_walk_inside [of "Suc (unat sz)" m img sz "skip_slash want" 0] assms
    by (auto simp: cpio_find_def)
qed

theorem cpio_find_returns_witness:
  "\<exists>r. cpio_find (\<lambda>_. 48) 4096 512 [105] = Some r \<and>
    (\<forall>a l. r = Some (a, l) \<longrightarrow> unat (a - 4096) + unat l \<le> unat (512 :: u64))"
  by (rule cpio_find_returns) simp

text \<open>
  C16: the kernel finds what the project's archiver wrote. When the archive \<open>do_create\<close> produces for a list
  of inputs lies in memory, \<open>cpio_find\<close> with a name returns the address and the length of the payload of
  the first archived entry of that name (a leading slash ignored on both sides), and -1 when there is none.
\<close>
theorem vcpio_cpio_roundtrip:
  assumes "holds_at m img (do_create ins)" and "length (do_create ins) < 2 ^ 32"
    and "\<forall>e \<in> set (archived ins). length (payload e) < 2 ^ 32 \<and> 0 \<notin> set (fst e) \<and> fst e \<noteq> trailer"
    and "0 \<notin> set want"
  shows "case find (named want) (archived ins) of
      None \<Rightarrow> cpio_find m img (of_nat (length (do_create ins))) want = Some None
    | Some e \<Rightarrow> \<exists>a. holds_at m a (payload e) \<and>
        cpio_find m img (of_nat (length (do_create ins))) want = Some (Some (a, of_nat (length (payload e))))"
proof -
  let ?n = "length (do_create ins)"
  have arch: "do_create ins = archive_bytes (archived ins)"
    unfolding do_create_def by (rule do_create_archive) (use assms(3) in \<open>auto simp: payload_def\<close>)
  have good: "\<forall>e \<in> set (archived ins). good_entry e"
    using assms(3) archived_ok by (auto simp: good_entry_def payload_def)
  have n: "unat (of_nat ?n :: u64) = ?n" using assms(2) by (simp add: unat_of_nat_eq)
  have len: "length (archived ins) < Suc ?n"
    using length_archive_ge [of "archived ins"] by (simp add: arch)
  have "case find (named want) (archived ins) of
      None \<Rightarrow> cpio_walk (Suc ?n) m img (of_nat ?n) (skip_slash want) (of_nat 0) = Some None
    | Some e \<Rightarrow> \<exists>a. holds_at m a (payload e) \<and>
        cpio_walk (Suc ?n) m img (of_nat ?n) (skip_slash want) (of_nat 0) =
          Some (Some (a, of_nat (length (payload e))))"
    by (rule cpio_walk_archive) (use assms good arch len in simp_all)
  moreover have "cpio_find m img (of_nat ?n) want =
      cpio_walk (Suc ?n) m img (of_nat ?n) (skip_slash want) (of_nat 0)"
    by (simp add: cpio_find_def n)
  ultimately show ?thesis by (simp only:)
qed

theorem vcpio_cpio_roundtrip_witness:
  "\<exists>a. holds_at (mem_of 4096 (do_create [([105], Reg stat0 (Some [1, 2, 3]))])) a [1, 2, 3] \<and>
     cpio_find (mem_of 4096 (do_create [([105], Reg stat0 (Some [1, 2, 3]))])) 4096
       (of_nat (length (do_create [([105], Reg stat0 (Some [1, 2, 3]))]))) [47, 105] = Some (Some (a, 3))"
proof -
  let ?ins = "[([105], Reg stat0 (Some [1, 2, 3]))]"
  have len: "length (do_create ?ins) = 240" by code_simp
  show ?thesis
    using vcpio_cpio_roundtrip [of "mem_of 4096 (do_create ?ins)" 4096 ?ins "[47, 105]"]
      holds_at_mem_of [of "do_create ?ins" 4096] len
    by (simp add: payload_def named_def skip_slash_def trailer_def)
qed

end
