(* ===== verification/Contracts.thy ===== *)
theory Contracts
  imports Prelude
begin

text \<open>
  The interfaces the components of the kernel rely on, as locales: what a client may assume of a
  counted resource and of a bounded byte queue. Each is interpreted by the components that provide it
  (\<open>holders\<close> by the page counts of \<open>Pmm\<close> and by the open-file table of \<open>Files\<close>; \<open>byte_queue\<close> by the pipes of
  \<open>Files\<close> and by the keyboard ring of \<open>Console\<close>), so the lemmas below are proved once.
\<close>

section \<open>A resource with several holders\<close>

datatype hold = Take | Drop

text \<open>Somebody still holds the resource before each operation, and it is never held more than \<open>lim\<close> times.\<close>

fun live :: "nat \<Rightarrow> hold list \<Rightarrow> nat \<Rightarrow> bool" where
  "live lim [] n = True"
| "live lim (Take # hs) n = (0 < n \<and> n < lim \<and> live lim hs (Suc n))"
| "live lim (Drop # hs) n = (0 < n \<and> live lim hs (n - 1))"

text \<open>A run of operations on one resource: the answers of the drops, and the state after it.\<close>

fun hold_run :: "('s \<Rightarrow> 'k \<Rightarrow> 's) \<Rightarrow> ('s \<Rightarrow> 'k \<Rightarrow> nat \<times> 's) \<Rightarrow> 'k \<Rightarrow> hold list \<Rightarrow> 's \<Rightarrow> nat list \<times> 's" where
  "hold_run ref unref k [] s = ([], s)"
| "hold_run ref unref k (Take # hs) s = hold_run ref unref k hs (ref s k)"
| "hold_run ref unref k (Drop # hs) s =
     (let (left, s') = unref s k; (ls, s'') = hold_run ref unref k hs s' in (left # ls, s''))"

text \<open>Exactly the drop that leaves nobody reports zero: each answer is the balance after that drop.\<close>

fun answers :: "hold list \<Rightarrow> nat \<Rightarrow> nat list" where
  "answers [] n = []"
| "answers (Take # hs) n = answers hs (Suc n)"
| "answers (Drop # hs) n = (n - 1) # answers hs (n - 1)"

locale holders =
  fixes count :: "'s \<Rightarrow> 'k \<Rightarrow> nat"
    and ref :: "'s \<Rightarrow> 'k \<Rightarrow> 's"
    and unref :: "'s \<Rightarrow> 'k \<Rightarrow> nat \<times> 's"
    and tracked :: "'s \<Rightarrow> 'k \<Rightarrow> bool"
    and lim :: nat
  assumes ref_count: "tracked s k \<Longrightarrow> 0 < count s k \<Longrightarrow> count s k < lim \<Longrightarrow> count (ref s k) k = Suc (count s k)"
    and unref_left: "tracked s k \<Longrightarrow> 0 < count s k \<Longrightarrow> fst (unref s k) = count s k - 1"
    and unref_count: "tracked s k \<Longrightarrow> 1 < count s k \<Longrightarrow> count (snd (unref s k)) k = count s k - 1"
    and ref_tracked: "tracked s k \<Longrightarrow> 0 < count s k \<Longrightarrow> tracked (ref s k) k"
    and unref_tracked: "tracked s k \<Longrightarrow> 1 < count s k \<Longrightarrow> tracked (snd (unref s k)) k"
begin

lemma hold_run_answers:
  "tracked s k \<Longrightarrow> count s k = n \<Longrightarrow> live lim hs n \<Longrightarrow> fst (hold_run ref unref k hs s) = answers hs n"
proof (induction hs n arbitrary: s rule: answers.induct)
  case (1 n)
  then show ?case by simp
next
  case (2 hs n)
  then show ?case by (simp add: ref_count ref_tracked)
next
  case (3 hs n)
  show ?case
  proof (cases "n = 1")
    case True
    have "hs = [] \<or> \<not> live lim hs 0" by (cases hs; cases "hd hs") auto
    then have "hs = []" using 3 True by simp
    then show ?thesis using 3 by (simp add: Let_def case_prod_unfold unref_left)
  next
    case False
    then show ?thesis using 3
      by (simp add: Let_def case_prod_unfold unref_left unref_count unref_tracked)
  qed
qed

end

section \<open>A bounded queue of bytes\<close>

text \<open>
  What a ring buffer promises its users: it holds a list of bytes of at most \<open>cap\<close> elements, putting
  appends at the end unless it is full, taking removes from the front unless it is empty.
\<close>

locale byte_queue =
  fixes contents :: "'q \<Rightarrow> bytes"
    and inv :: "'q \<Rightarrow> bool"
    and put :: "u8 \<Rightarrow> 'q \<Rightarrow> 'q option"
    and get :: "'q \<Rightarrow> (u8 \<times> 'q) option"
    and cap :: nat
  assumes put_full: "inv q \<Longrightarrow> put c q = None \<longleftrightarrow> length (contents q) \<ge> cap"
    and put_append: "inv q \<Longrightarrow> put c q = Some q' \<Longrightarrow> contents q' = contents q @ [c] \<and> inv q'"
    and get_empty: "inv q \<Longrightarrow> get q = None \<longleftrightarrow> contents q = []"
    and get_front: "inv q \<Longrightarrow> get q = Some (c, q') \<Longrightarrow> contents q = c # contents q' \<and> inv q'"
begin

text \<open>Put as many bytes of a list as fit, and the bytes that did not.\<close>

fun put_all :: "bytes \<Rightarrow> 'q \<Rightarrow> bytes \<times> 'q" where
  "put_all [] q = ([], q)"
| "put_all (c # cs) q = (case put c q of None \<Rightarrow> (c # cs, q) | Some q' \<Rightarrow> put_all cs q')"

text \<open>Take at most \<open>n\<close> bytes.\<close>

fun get_upto :: "nat \<Rightarrow> 'q \<Rightarrow> bytes \<times> 'q" where
  "get_upto 0 q = ([], q)"
| "get_upto (Suc n) q =
     (case get q of None \<Rightarrow> ([], q)
      | Some (c, q') \<Rightarrow> let (cs, q'') = get_upto n q' in (c # cs, q''))"

lemma put_all_spec:
  "inv q \<Longrightarrow> length (contents q) \<le> cap \<Longrightarrow> put_all cs q = (rest, q') \<Longrightarrow>
   inv q' \<and> length (contents q') \<le> cap \<and>
   contents q' = contents q @ take (cap - length (contents q)) cs \<and>
   rest = drop (cap - length (contents q)) cs"
proof (induction cs arbitrary: q)
  case Nil
  then show ?case by simp
next
  case (Cons c cs)
  show ?case
  proof (cases "put c q")
    case None
    then have "cap \<le> length (contents q)" using put_full [OF Cons.prems(1)] by simp
    then show ?thesis using Cons.prems None by simp
  next
    case (Some q1)
    have "contents q1 = contents q @ [c]" "inv q1" using put_append Cons.prems(1) Some by blast+
    moreover have room: "length (contents q) < cap" using put_full [OF Cons.prems(1), of c] Some by auto
    moreover have "cap - length (contents q) = Suc (cap - length (contents q @ [c]))" using room by simp
    ultimately show ?thesis using Cons.IH [of q1] Cons.prems Some by simp
  qed
qed

lemma get_upto_spec:
  "inv q \<Longrightarrow> get_upto n q = (cs, q') \<Longrightarrow>
   inv q' \<and> cs = take n (contents q) \<and> contents q' = drop n (contents q)"
proof (induction n arbitrary: q cs)
  case 0
  then show ?case by simp
next
  case (Suc n)
  show ?case
  proof (cases "get q")
    case None
    then have "contents q = []" using get_empty [OF Suc.prems(1)] by simp
    then show ?thesis using Suc.prems None by simp
  next
    case (Some r)
    obtain c q1 where r: "r = (c, q1)" by (cases r)
    have "contents q = c # contents q1" "inv q1" using get_front Suc.prems(1) Some r by blast+
    moreover obtain ds q2 where "get_upto n q1 = (ds, q2)" by (cases "get_upto n q1")
    ultimately show ?thesis using Suc.IH [of q1 ds] Suc.prems(2) Some r by auto
  qed
qed

end

end
