(* ===== verification/Pmm.thy ===== *)
theory Pmm
  imports Contracts
begin

text \<open>
  Physical pages, their reference counts and the kernel's own map (\<open>stam/mmu.c\<close>).

  The file's static variables are the fields of the record \<open>pmm\<close>. The memory the kernel reaches through
  its current pointers is the field \<open>pm\<close>, a map from the address of a 64-bit word to the word: every access of
  \<open>mmu.c\<close> and of \<open>vm.c\<close> to a page is made of aligned words (the byte loops of both run over whole pages).
  The table of counts is the field \<open>refs\<close>, indexed as the C array is, beside the pointer \<open>refs_ptr\<close> that
  says whether it was allocated. An operation that holds \<open>pmm_lock\<close> is one function. Cache maintenance, barriers
  and the writes to system registers have no effect on this state; \<open>mmu_init\<close> returns the register values.

  The lemmas show that a page is never handed out while somebody owns it, that it comes zeroed, that
  \<open>page_unref\<close> answers zero exactly to the last holder, and that a device window translates to the
  physical address it was asked for.
\<close>

type_synonym wmem = "u64 \<Rightarrow> u64"

record pmm =
  free_next :: u64
  free_top :: u64
  pmm_start :: u64
  pages_taken :: u32
  high_half :: bool
  free_list :: u64
  pages_returned :: u32
  refs_ptr :: u64
  refs :: "nat \<Rightarrow> u8"
  refs_base :: u64
  refs_pages :: u64
  free_after_use :: u32
  pm :: wmem
  l1 :: u64
  l1_high :: u64
  l1_user :: u64
  devwin_next :: u32

text \<open>The statics as the kernel starts: all zero but the number of the first device window.\<close>

definition pmm_statics :: "wmem \<Rightarrow> pmm" where
  "pmm_statics m = \<lparr>free_next = 0, free_top = 0, pmm_start = 0, pages_taken = 0, high_half = False,
     free_list = 0, pages_returned = 0, refs_ptr = 0, refs = \<lambda>_. 0, refs_base = 0, refs_pages = 0,
     free_after_use = 0, pm = m, l1 = 0, l1_high = 0, l1_user = 0, devwin_next = 510\<rparr>"

section \<open>The allocator\<close>

definition PAGE_SIZE :: u64 where "PAGE_SIZE = 4096"
definition KVA_OFFSET :: u64 where "KVA_OFFSET = 0xffffff8000000000"
definition PAGE_FREE_MAGIC :: u64 where "PAGE_FREE_MAGIC = 0x46524545504147"

definition phys_to_kva :: "u64 \<Rightarrow> u64" where
  "phys_to_kva p = p + KVA_OFFSET"

definition mmu_note_high :: "pmm \<Rightarrow> pmm" where
  "mmu_note_high s = s\<lparr>high_half := True\<rparr>"

definition kva_to_phys :: "pmm \<Rightarrow> u64 \<Rightarrow> u64" where
  "kva_to_phys s v = (if high_half s then v - KVA_OFFSET else v)"

definition usable :: "pmm \<Rightarrow> u64 \<Rightarrow> u64" where
  "usable s phys = (if high_half s then phys + KVA_OFFSET else phys)"

definition pmm_init :: "u64 \<Rightarrow> u64 \<Rightarrow> u64 \<Rightarrow> u64 \<Rightarrow> u64 \<Rightarrow> pmm \<Rightarrow> pmm" where
  "pmm_init kend ram_base ram_size avoid avoid_size s =
     (let start = ram_base;
          start = (if kend > ram_base \<and> kend < ram_base + ram_size then kend else start);
          start = (if avoid_size \<noteq> 0 \<and> avoid + avoid_size > start \<and> avoid < ram_base + ram_size
                   then (if avoid + avoid_size > start then avoid + avoid_size else start) else start);
          next = (start + 0xfff) AND NOT 0xfff
      in s\<lparr>free_next := next, free_top := ram_base + ram_size, pmm_start := next\<rparr>)"

text \<open>The loops that clear \<open>n\<close> words from a pointer on.\<close>

definition zero_words :: "wmem \<Rightarrow> u64 \<Rightarrow> nat \<Rightarrow> wmem" where
  "zero_words m p n = fold (\<lambda>i m. m(p + 8 * of_nat i := 0)) [0..<n] m"

definition free_page :: "pmm \<Rightarrow> u64 \<Rightarrow> pmm" where
  "free_page s p =
     (if p = 0 then s
      else s\<lparr>pm := (pm s)(p := free_list s, p + 8 := PAGE_FREE_MAGIC),
             free_list := p, pages_returned := pages_returned s + 1\<rparr>)"

definition pmm_free_after_use :: "pmm \<Rightarrow> u32" where
  "pmm_free_after_use s = free_after_use s"

definition pmm_pages_free_listed :: "pmm \<Rightarrow> u32" where
  "pmm_pages_free_listed s = pages_returned s"

definition alloc_page :: "pmm \<Rightarrow> u64 \<times> pmm" where
  "alloc_page s =
     (if free_list s \<noteq> 0 then
        let page = free_list s;
            touched = (pm s (page + 8) \<noteq> PAGE_FREE_MAGIC)
        in (page, s\<lparr>free_list := pm s page, pages_returned := pages_returned s - 1,
                    free_after_use := (if touched then free_after_use s + 1 else free_after_use s),
                    pm := zero_words (pm s) page 512\<rparr>)
      else if free_next s + PAGE_SIZE > free_top s then (0, s)
      else let p = free_next s; z = usable s p
        in (z, s\<lparr>free_next := p + PAGE_SIZE, pages_taken := pages_taken s + 1,
                 pm := zero_words (pm s) z 512\<rparr>))"

definition alloc_pages :: "pmm \<Rightarrow> u32 \<Rightarrow> u64 \<times> pmm" where
  "alloc_pages s n =
     (if n = 0 then (0, s)
      else if free_next s + ucast n * PAGE_SIZE > free_top s then (0, s)
      else let p = free_next s; z = usable s p
        in (z, s\<lparr>free_next := p + ucast n * PAGE_SIZE, pages_taken := pages_taken s + n,
                 pm := zero_words (pm s) z (unat n * 512)\<rparr>))"

definition pmm_pages_used :: "pmm \<Rightarrow> u32" where
  "pmm_pages_used s = pages_taken s"

definition pmm_free_bytes :: "pmm \<Rightarrow> u64" where
  "pmm_free_bytes s = free_top s - free_next s"

section \<open>Reference counts\<close>

definition pmm_init_refs :: "pmm \<Rightarrow> pmm" where
  "pmm_init_refs s =
     (if refs_ptr s \<noteq> 0 then s
      else let np = (free_top s - pmm_start s) div PAGE_SIZE;
               need = (np + PAGE_SIZE - 1) div PAGE_SIZE;
               (r, s1) = alloc_pages (s\<lparr>refs_base := pmm_start s, refs_pages := np\<rparr>) (ucast need);
               s2 = s1\<lparr>refs_ptr := r\<rparr>
        in if r = 0 then s2\<lparr>refs_pages := 0\<rparr>
           else s2\<lparr>refs := (\<lambda>i. if i < unat np then 0 else refs s2 i)\<rparr>)"

text \<open>\<open>refs_index\<close> returns -1 for a page the table does not cover; here \<open>None\<close>.\<close>

definition refs_index :: "pmm \<Rightarrow> u64 \<Rightarrow> nat option" where
  "refs_index s pa =
     (if refs_ptr s = 0 \<or> pa < refs_base s then None
      else let i = (pa - refs_base s) div PAGE_SIZE
           in if i < refs_pages s then Some (unat i) else None)"

definition page_ref :: "pmm \<Rightarrow> u64 \<Rightarrow> pmm" where
  "page_ref s pa =
     (case refs_index s pa of None \<Rightarrow> s
      | Some i \<Rightarrow> if refs s i < 255 then s\<lparr>refs := (refs s)(i := refs s i + 1)\<rparr> else s)"

definition page_unref :: "pmm \<Rightarrow> u64 \<Rightarrow> nat \<times> pmm" where
  "page_unref s pa =
     (case refs_index s pa of None \<Rightarrow> (0, s)
      | Some i \<Rightarrow>
          if refs s i > 0 then (unat (refs s i - 1) + 1, s\<lparr>refs := (refs s)(i := refs s i - 1)\<rparr>)
          else (0, s))"

definition page_count :: "pmm \<Rightarrow> u64 \<Rightarrow> nat" where
  "page_count s pa =
     (case refs_index s pa of None \<Rightarrow> 1
      | Some i \<Rightarrow> if refs s i \<noteq> 0 then unat (refs s i) + 1 else 1)"

section \<open>The kernel's map\<close>

definition ATTR_DEVICE :: u64 where "ATTR_DEVICE = 0"
definition ATTR_NORMAL :: u64 where "ATTR_NORMAL = 1"
definition DESC_BLOCK :: u64 where "DESC_BLOCK = 1"
definition DESC_AF :: u64 where "DESC_AF = push_bit 10 1"
definition DESC_SH_INNER :: u64 where "DESC_SH_INNER = push_bit 8 3"
definition DESC_PXN :: u64 where "DESC_PXN = push_bit 53 1"
definition DESC_UXN :: u64 where "DESC_UXN = push_bit 54 1"
definition GIB :: u64 where "GIB = push_bit 30 1"
definition DEVWIN_FIRST :: u32 where "DEVWIN_FIRST = 510"

definition block :: "u64 \<Rightarrow> u64 \<Rightarrow> bool \<Rightarrow> u64" where
  "block pa attr executable =
     (let d = (pa AND NOT (GIB - 1)) OR DESC_AF OR push_bit 2 attr OR DESC_BLOCK;
          d = (if attr = ATTR_NORMAL then d OR DESC_SH_INNER else d)
      in if \<not> executable then d OR DESC_PXN OR DESC_UXN else d)"

definition identity_entry :: "u64 \<Rightarrow> u64 \<Rightarrow> nat \<Rightarrow> u64" where
  "identity_entry ram_base ram_size i =
     (let va = of_nat i * GIB;
          is_ram = (va + GIB > ram_base \<and> va < ram_base + ram_size)
      in block va (if is_ram then ATTR_NORMAL else ATTR_DEVICE) is_ram)"

definition fill_table :: "wmem \<Rightarrow> u64 \<Rightarrow> (nat \<Rightarrow> u64) \<Rightarrow> wmem" where
  "fill_table m t e = fold (\<lambda>i m. m(t + 8 * of_nat i := e i)) [0..<512] m"

record mmu_regs =
  mair_el1 :: u64
  tcr_el1 :: u64
  ttbr0_el1 :: u64

definition mmu_init :: "u64 \<Rightarrow> u64 \<Rightarrow> u64 \<Rightarrow> pmm \<Rightarrow> mmu_regs option \<times> pmm" where
  "mmu_init mmfr0 ram_base ram_size s =
     (let (t, s1) = alloc_page s; s1 = s1\<lparr>l1 := t\<rparr>
      in if t = 0 then (None, s1)
         else let s2 = s1\<lparr>pm := fill_table (pm s1) t (identity_entry ram_base ram_size)\<rparr>;
                  ips = mmfr0 AND 0xf;
                  ips = (if ips > 5 then 5 else ips);
                  tcr = 25 OR push_bit 8 1 OR push_bit 10 1 OR push_bit 12 3 OR push_bit 14 0 OR
                        push_bit 16 25 OR push_bit 23 1 OR push_bit 30 2 OR push_bit 32 ips
              in (Some \<lparr>mair_el1 = push_bit 8 0xff OR 0, tcr_el1 = tcr, ttbr0_el1 = t\<rparr>, s2))"

definition copy_table :: "wmem \<Rightarrow> u64 \<Rightarrow> u64 \<Rightarrow> wmem" where
  "copy_table m d s = fold (\<lambda>i m. m(d + 8 * of_nat i := m (s + 8 * of_nat i))) [0..<512] m"

text \<open>
  The tables of the two halves, and the step across: from \<open>go_high\<close> on a kernel pointer is the high alias,
  so memory is the same memory seen \<open>KVA_OFFSET\<close> higher.
\<close>

definition mmu_go_high :: "pmm \<Rightarrow> pmm" where
  "mmu_go_high s =
     (let (h, s1) = alloc_page s; (u, s2) = alloc_page (s1\<lparr>l1_high := h\<rparr>); s2 = s2\<lparr>l1_user := u\<rparr>
      in if h = 0 \<or> u = 0 then s2
         else s2\<lparr>pm := (\<lambda>v. fill_table (copy_table (pm s2) h (l1 s2)) u (\<lambda>_. 0) (v - KVA_OFFSET)),
                 l1 := phys_to_kva (l1 s2), l1_high := phys_to_kva h, l1_user := phys_to_kva u\<rparr>)"

definition mmu_identity_table :: "pmm \<Rightarrow> u64" where
  "mmu_identity_table s = kva_to_phys s (l1 s)"

fun find_window :: "pmm \<Rightarrow> u64 \<Rightarrow> nat list \<Rightarrow> nat option" where
  "find_window s base [] = None"
| "find_window s base (i # is) =
     (if pm s (l1_high s + 8 * of_nat i) AND 0x0000fffffffff000 = base then Some i
      else find_window s base is)"

text \<open>\<open>None\<close> is the return value -1.\<close>

definition mmu_map_device :: "u64 \<Rightarrow> pmm \<Rightarrow> u64 option \<times> pmm" where
  "mmu_map_device phys s =
     (if phys < ucast DEVWIN_FIRST * GIB then (Some (phys_to_kva phys), s)
      else let base = phys AND NOT (GIB - 1) in
        case find_window s base [unat DEVWIN_FIRST..<unat (devwin_next s)] of
          Some i \<Rightarrow> (Some (KVA_OFFSET + of_nat i * GIB + (phys - base)), s)
        | None \<Rightarrow>
            if devwin_next s \<ge> 512 then (None, s)
            else let i = devwin_next s in
              (Some (KVA_OFFSET + ucast i * GIB + (phys - base)),
               s\<lparr>devwin_next := i + 1,
                 pm := (pm s)(l1_high s + 8 * ucast i := block base ATTR_DEVICE False)\<rparr>))"

definition mmu_user_table :: "pmm \<Rightarrow> u64" where
  "mmu_user_table s = kva_to_phys s (l1_user s)"

definition mmu_user_table_kva :: "pmm \<Rightarrow> u64" where
  "mmu_user_table_kva s = l1_user s"

text \<open>The per-processor field \<open>user_table_kva\<close>, 0 before a table was installed, is an argument.\<close>

definition mmu_current_user_table_kva :: "u64 \<Rightarrow> pmm \<Rightarrow> u64" where
  "mmu_current_user_table_kva v s = (if v \<noteq> 0 then v else l1_user s)"

section \<open>Words of a page\<close>

definition aligned :: "u64 \<Rightarrow> bool" where
  "aligned p \<longleftrightarrow> p AND mask 12 = 0"

lemma aligned_iff: "aligned p \<longleftrightarrow> unat p mod 4096 = 0"
proof -
  have "p AND mask 12 = 0 \<longleftrightarrow> unat (take_bit 12 p) = 0"
    by (simp only: take_bit_eq_mask unat_eq_0)
  moreover have "unat (take_bit 12 p) = unat p mod 4096"
    by (simp add: take_bit_eq_mod unat_mod_distrib)
  ultimately show ?thesis by (simp only: aligned_def)
qed

lemma alignedE:
  assumes "aligned p" obtains k where "unat p = 4096 * k" "k < 2 ^ 52"
proof -
  obtain k where k: "unat p = 4096 * k" using assms by (auto simp: aligned_iff mod_eq_0_iff_dvd)
  moreover have "unat p < 2 ^ 64" using unsigned_less [of p] by simp
  ultimately show ?thesis using that by simp
qed

lemma unat_page_word:
  assumes "aligned p" and "i < 512"
  shows "unat (p + 8 * of_nat i) = unat p + 8 * i"
proof -
  obtain k where k: "unat p = 4096 * k" "k < 2 ^ 52" using assms(1) by (rule alignedE)
  then have "unat p + 8 * i < 2 ^ 64" using assms(2) by simp
  moreover have e: "p + 8 * of_nat i = p + of_nat (8 * i)" by simp
  moreover have "unat (of_nat (8 * i) :: u64) = 8 * i"
    using assms(2) by (intro unat_of_nat_eq) simp
  ultimately show ?thesis using unat_add_no_wrap [of p "of_nat (8 * i)"] by (simp only:) simp
qed

lemma page_word_eq_iff:
  assumes "aligned p" "aligned q" "i < 512" "j < 512"
  shows "p + 8 * of_nat i = q + 8 * of_nat j \<longleftrightarrow> p = q \<and> i = j"
proof
  assume "p + 8 * of_nat i = q + 8 * of_nat j"
  then have e: "unat p + 8 * i = unat q + 8 * j"
    using unat_page_word [OF assms(1,3)] unat_page_word [OF assms(2,4)] by simp
  obtain k l where kl: "unat p = 4096 * k" "unat q = 4096 * l"
    using assms(1,2) by (metis alignedE)
  have "k = (4096 * k + 8 * i) div 4096" "l = (4096 * l + 8 * j) div 4096" using assms(3,4) by auto
  then have "k = l" using e kl by simp
  then show "p = q \<and> i = j" using e kl by (simp add: word_unat_eq_iff)
qed auto

lemma page_word_0: "aligned p \<Longrightarrow> aligned q \<Longrightarrow> i < 512 \<Longrightarrow> p = q + 8 * of_nat i \<longleftrightarrow> p = q \<and> i = 0"
  using page_word_eq_iff [of p q 0 i] by auto

lemma page_word_8: "aligned p \<Longrightarrow> aligned q \<Longrightarrow> i < 512 \<Longrightarrow> p + 8 = q + 8 * of_nat i \<longleftrightarrow> p = q \<and> i = 1"
  using page_word_eq_iff [of p q 1 i] by auto

lemma fold_upd_other:
  "a \<notin> f ` set is \<Longrightarrow> fold (\<lambda>i m. m(f i := g i m)) is m a = m a"
  by (induction "is" arbitrary: m) auto

lemma fold_upd_at:
  "inj_on f (set is) \<Longrightarrow> distinct is \<Longrightarrow> i \<in> set is \<Longrightarrow>
   fold (\<lambda>i m. m(f i := e i)) is m (f i) = e i"
proof (induction "is" arbitrary: m)
  case Nil
  then show ?case by simp
next
  case (Cons j "is")
  show ?case
  proof (cases "i = j")
    case True
    then have "f i \<notin> f ` set is" using Cons.prems by auto
    then show ?thesis using True fold_upd_other [of "f j" f "is" "\<lambda>i m. e i" "m(f j := e j)"]
      by (simp del: fun_upd_apply) simp
  next
    case False
    then show ?thesis using Cons by (simp add: inj_on_def)
  qed
qed

lemma page_words_inj: "aligned p \<Longrightarrow> inj_on (\<lambda>i. p + 8 * of_nat i) {0..<512}"
  by (auto simp: inj_on_def page_word_eq_iff simp del: add_left_cancel)

lemma zero_words_at: "aligned p \<Longrightarrow> i < 512 \<Longrightarrow> zero_words m p 512 (p + 8 * of_nat i) = 0"
  using fold_upd_at [of "\<lambda>i. p + 8 * of_nat i" "[0..<512]" i "\<lambda>_. 0"] page_words_inj
  by (simp add: zero_words_def)

lemma fill_table_at: "aligned p \<Longrightarrow> i < 512 \<Longrightarrow> fill_table m p e (p + 8 * of_nat i) = e i"
  using fold_upd_at [of "\<lambda>i. p + 8 * of_nat i" "[0..<512]" i e] page_words_inj
  by (simp add: fill_table_def)

lemma zero_words_other: "\<forall>i < n. a \<noteq> p + 8 * of_nat i \<Longrightarrow> zero_words m p n a = m a"
  unfolding zero_words_def by (rule fold_upd_other) auto

section \<open>Who owns which page\<close>

text \<open>The free list threaded through the pages, head first.\<close>

fun flist :: "wmem \<Rightarrow> u64 \<Rightarrow> u64 list \<Rightarrow> bool" where
  "flist m h [] \<longleftrightarrow> h = 0"
| "flist m h (p # ps) \<longleftrightarrow> h = p \<and> p \<noteq> 0 \<and> m (p + 8) = PAGE_FREE_MAGIC \<and> flist m (m p) ps"

text \<open>A page the allocator has handed out at some time: below the mark, at or above where it began.\<close>

definition taken :: "pmm \<Rightarrow> u64 \<Rightarrow> bool" where
  "taken s p \<longleftrightarrow> aligned p \<and> p \<noteq> 0 \<and> kva_to_phys s p < free_next s"

definition pmm_inv :: "pmm \<Rightarrow> u64 set \<Rightarrow> u64 list \<Rightarrow> bool" where
  "pmm_inv s own fl \<longleftrightarrow>
     flist (pm s) (free_list s) fl \<and> distinct fl \<and> set fl \<inter> own = {} \<and>
     (\<forall>p \<in> set fl \<union> own. taken s p) \<and>
     aligned (free_next s) \<and> 0 < free_next s \<and> unat (free_next s) \<le> 2 ^ 39 \<and>
     unat (free_top s) < 2 ^ 39 \<and> free_after_use s = 0"

text \<open>
  The allocator in use. Its clients own pages: they get them from \<open>alloc_page\<close> and \<open>alloc_pages\<close>, write
  words into them, count and uncount holders, and give back pages they own. The other steps are those of the boot: \<open>mmu_init\<close>
  keeps the page of its table; the move to the high half, which \<open>main.c\<close> makes before any page has been returned, takes two pages
  and from then on every pointer to a page is its high alias; \<open>pmm_init_refs\<close> keeps the pages of the counts. When the move fails the kernel stops.
\<close>

definition refs_need :: "pmm \<Rightarrow> u32" where
  "refs_need s = ucast (((free_top s - pmm_start s) div PAGE_SIZE + PAGE_SIZE - 1) div PAGE_SIZE)"

definition page_run :: "u64 \<Rightarrow> u32 \<Rightarrow> u64 set" where
  "page_run p n = (\<lambda>i. p + 4096 * of_nat i) ` {0..<unat n}"

inductive pmm_step :: "pmm \<times> u64 set \<Rightarrow> pmm \<times> u64 set \<Rightarrow> bool" where
  alloc: "alloc_page s = (p, s') \<Longrightarrow> p \<noteq> 0 \<Longrightarrow> pmm_step (s, own) (s', insert p own)"
| alloc_fail: "alloc_page s = (0, s') \<Longrightarrow> pmm_step (s, own) (s', own)"
| allocs: "alloc_pages s n = (p, s') \<Longrightarrow> p \<noteq> 0 \<Longrightarrow> pmm_step (s, own) (s', own \<union> page_run p n)"
| allocs_fail: "alloc_pages s n = (0, s') \<Longrightarrow> pmm_step (s, own) (s', own)"
| free: "p \<in> own \<Longrightarrow> pmm_step (s, own) (free_page s p, own - {p})"
| store: "p \<in> own \<Longrightarrow> i < 512 \<Longrightarrow> pmm_step (s, own) (s\<lparr>pm := (pm s)(p + 8 * of_nat i := v)\<rparr>, own)"
| ref: "pmm_step (s, own) (page_ref s pa, own)"
| unref: "pmm_step (s, own) (snd (page_unref s pa), own)"
| table: "mmu_init mmfr0 ram_base ram_size s = (Some r, s') \<Longrightarrow> pmm_step (s, own) (s', insert (l1 s') own)"
| high: "\<not> high_half s \<Longrightarrow> free_list s = 0 \<Longrightarrow> alloc_page s = (h, s1) \<Longrightarrow> h \<noteq> 0 \<Longrightarrow>
    alloc_page (s1\<lparr>l1_high := h\<rparr>) = (u, s2) \<Longrightarrow> u \<noteq> 0 \<Longrightarrow>
    pmm_step (s, own) (mmu_note_high (mmu_go_high s), phys_to_kva ` insert u (insert h own))"
| counts: "refs_ptr s = 0 \<Longrightarrow> pmm_init_refs s = s' \<Longrightarrow> refs_ptr s' \<noteq> 0 \<Longrightarrow>
    pmm_step (s, own) (s', own \<union> page_run (refs_ptr s') (refs_need s))"
| no_counts: "refs_ptr s \<noteq> 0 \<or> refs_ptr (pmm_init_refs s) = 0 \<Longrightarrow> pmm_step (s, own) (pmm_init_refs s, own)"
| device: "l1_high s \<in> own \<Longrightarrow> pmm_step (s, own) (snd (mmu_map_device phys s), own)"

lemma flist_cong:
  "flist m h ps \<Longrightarrow> \<forall>p \<in> set ps. m' p = m p \<and> m' (p + 8) = m (p + 8) \<Longrightarrow> flist m' h ps"
  by (induction ps arbitrary: h) auto

lemma kva_to_phys_usable [simp]: "kva_to_phys s (usable s p) = p"
  by (simp add: kva_to_phys_def usable_def)

lemma usable_kva_to_phys [simp]: "usable s (kva_to_phys s p) = p"
  by (simp add: kva_to_phys_def usable_def)

lemma aligned_add: "aligned q \<Longrightarrow> aligned (p + q) \<longleftrightarrow> aligned p"
proof -
  assume "aligned q"
  have "unat (p + q) mod 4096 = (unat p + unat q) mod 4096"
    by (simp add: unat_word_ariths mod_mod_cancel)
  also have "\<dots> = unat p mod 4096"
    using \<open>aligned q\<close> mod_add_right_eq [of "unat p" "unat q" 4096] by (simp add: aligned_iff)
  finally show ?thesis by (simp only: aligned_iff)
qed

lemma aligned_mult: "aligned (4096 * q)"
proof -
  have "unat (4096 * q) mod 4096 = (4096 * unat q) mod 4096"
    by (simp add: unat_word_ariths mod_mod_cancel)
  then show ?thesis by (simp only: aligned_iff) simp
qed

lemma aligned_kva_offset: "aligned (p + KVA_OFFSET) \<longleftrightarrow> aligned p"
  by (rule aligned_add) (simp add: aligned_iff KVA_OFFSET_def)

lemma aligned_usable [simp]: "aligned (usable s p) \<longleftrightarrow> aligned p"
  by (simp add: usable_def aligned_kva_offset)

lemma usable_nonzero: "0 < p \<Longrightarrow> unat p < 2 ^ 39 \<Longrightarrow> usable s p \<noteq> 0"
proof -
  assume "0 < p" "unat p < 2 ^ 39"
  then have "unat (p + KVA_OFFSET) = unat p + unat KVA_OFFSET"
    by (intro unat_add_no_wrap) (simp add: KVA_OFFSET_def)
  moreover have "0 < unat p" using \<open>0 < p\<close> by (simp add: word_less_nat_alt)
  ultimately have "p + KVA_OFFSET \<noteq> 0" by auto
  then show ?thesis using \<open>0 < p\<close> by (auto simp: usable_def)
qed

lemma aligned_add_pages: "aligned p \<Longrightarrow> aligned (p + 4096 * q)"
  by (simp add: aligned_add aligned_mult)

text \<open>Writing inside a page that is not on the free list leaves the list alone.\<close>

lemma flist_outside:
  assumes "flist m h fl" and "\<forall>p \<in> set fl. aligned p" and "aligned q" and "q \<notin> set fl"
    and "\<And>a. \<forall>i < 512. a \<noteq> q + 8 * of_nat i \<Longrightarrow> m' a = m a"
  shows "flist m' h fl"
proof (rule flist_cong [OF assms(1)], intro ballI)
  fix p assume p: "p \<in> set fl"
  then have "aligned p" "p \<noteq> q" using assms by auto
  then show "m' p = m p \<and> m' (p + 8) = m (p + 8)"
    using assms(3,5) page_word_0 page_word_8 by metis
qed

lemma taken_mono:
  assumes "taken s p" "free_next s \<le> free_next s'" "high_half s' = high_half s"
  shows "taken s' p"
  using assms by (auto simp: taken_def kva_to_phys_def split: if_splits)

lemma unat_page_add:
  assumes "aligned p" "unat p + 4096 * unat (n :: u32) < 2 ^ 64"
  shows "unat (p + ucast n * PAGE_SIZE) = unat p + 4096 * unat n"
proof -
  have "ucast n * PAGE_SIZE = (of_nat (4096 * unat n) :: u64)" by (simp add: PAGE_SIZE_def)
  moreover have "unat (of_nat (4096 * unat n) :: u64) = 4096 * unat n"
    using assms(2) by (intro unat_of_nat_eq) simp
  ultimately show ?thesis using assms(2) unat_add_no_wrap [of p "of_nat (4096 * unat n)"] by simp
qed

lemma alloc_page_fresh:
  assumes inv: "pmm_inv s own fl" and a: "alloc_page s = (p, s')" and p: "p \<noteq> 0"
  shows "p \<notin> own" "aligned p" "\<forall>i < 512. pm s' (p + 8 * of_nat i) = 0"
    "\<exists>fl'. pmm_inv s' (insert p own) fl'"
    "\<And>a. \<forall>i < 512. a \<noteq> p + 8 * of_nat i \<Longrightarrow> pm s' a = pm s a"
proof -
  have "p \<notin> own \<and> aligned p \<and> (\<forall>i < 512. pm s' (p + 8 * of_nat i) = 0) \<and>
      (\<exists>fl'. pmm_inv s' (insert p own) fl') \<and> pm s' = zero_words (pm s) p 512"
  proof (cases "free_list s = 0")
    case False
    obtain fl1 where fl: "fl = p # fl1" "flist (pm s) (pm s p) fl1" "free_list s = p"
        "pm s (p + 8) = PAGE_FREE_MAGIC"
      using inv a False by (cases fl) (auto simp: pmm_inv_def alloc_page_def Let_def)
    have al: "aligned p" "\<forall>q \<in> set fl1. aligned q" and dis: "p \<notin> set fl1" "p \<notin> own"
      using inv fl(1) by (auto simp: pmm_inv_def taken_def)
    have s': "s' = s\<lparr>free_list := pm s p, pages_returned := pages_returned s - 1,
        pm := zero_words (pm s) p 512\<rparr>"
      using a False fl by (simp add: alloc_page_def Let_def)
    have "flist (pm s') (free_list s') fl1"
      using flist_outside [OF fl(2) al(2,1) dis(1), of "zero_words (pm s) p 512"] zero_words_other
      by (simp add: s')
    then have "pmm_inv s' (insert p own) fl1"
      using inv fl(1) dis unfolding pmm_inv_def by (auto simp: s' taken_def kva_to_phys_def)
    then show ?thesis using dis al zero_words_at [OF al(1)] by (auto simp: s')
  next
    case True
    have fl: "fl = []" using inv True by (cases fl) (auto simp: pmm_inv_def)
    have s': "p = usable s (free_next s)" "s' = s\<lparr>free_next := free_next s + PAGE_SIZE,
        pages_taken := pages_taken s + 1, pm := zero_words (pm s) p 512\<rparr>"
      and room: "\<not> free_top s < free_next s + PAGE_SIZE"
      using a True p by (auto simp: alloc_page_def Let_def split: if_splits)
    have bounds: "aligned (free_next s)" "0 < free_next s" "unat (free_next s) \<le> 2 ^ 39" "unat (free_top s) < 2 ^ 39"
      using inv by (auto simp: pmm_inv_def)
    then have nx: "unat (free_next s + PAGE_SIZE) = unat (free_next s) + 4096"
      using unat_page_add [of "free_next s" 1] by (simp add: PAGE_SIZE_def)
    have al: "aligned p" using bounds by (simp add: s')
    have nown: "p \<notin> own"
    proof
      assume "p \<in> own"
      then have "kva_to_phys s p < free_next s" using inv by (simp add: pmm_inv_def taken_def)
      then show False by (simp add: s')
    qed
    have "aligned (free_next s + PAGE_SIZE)"
      using aligned_add_pages [OF bounds(1), of 1] by (simp add: PAGE_SIZE_def)
    moreover have "taken s' q" if "taken s q" for q
      using that by (rule taken_mono) (simp_all add: s' word_le_nat_alt nx)
    moreover have "taken s' p"
      using al p nx by (simp add: taken_def s' kva_to_phys_def usable_def word_less_nat_alt)
    moreover have "unat (free_next s + PAGE_SIZE) \<le> unat (free_top s)"
      using room by (simp add: word_less_nat_alt not_less)
    moreover have "0 < free_next s + PAGE_SIZE" using nx by (simp add: word_less_nat_alt)
    ultimately have "pmm_inv s' (insert p own) []"
      using inv True fl bounds(4) unfolding pmm_inv_def by (auto simp: s'(2))
    then show ?thesis using nown al zero_words_at [OF al] by (auto simp: s'(2))
  qed
  then show "p \<notin> own" "aligned p" "\<forall>i < 512. pm s' (p + 8 * of_nat i) = 0"
    "\<exists>fl'. pmm_inv s' (insert p own) fl'"
    "\<And>a. \<forall>i < 512. a \<noteq> p + 8 * of_nat i \<Longrightarrow> pm s' a = pm s a"
    by (auto simp: zero_words_other)
qed

lemma room_nonzero:
  assumes "pmm_inv s own fl" "\<not> free_top s < free_next s + ucast (n :: u32) * PAGE_SIZE" "n \<noteq> 0"
  shows "usable s (free_next s) \<noteq> 0"
proof (rule usable_nonzero)
  have "unat n < 2 ^ 32" using unsigned_less [of n] by simp
  then have "unat (free_next s) + 4096 * unat n \<le> unat (free_top s)"
    using assms unat_page_add [of "free_next s" n] by (simp add: pmm_inv_def word_less_nat_alt not_less)
  then show "unat (free_next s) < 2 ^ 39" using assms(1) by (simp add: pmm_inv_def)
qed (use assms(1) in \<open>simp add: pmm_inv_def\<close>)

lemma alloc_page_None: "alloc_page s = (0, s') \<Longrightarrow> pmm_inv s own fl \<Longrightarrow> s' = s"
  using room_nonzero [of s own fl 1]
  by (auto simp: alloc_page_def Let_def split: if_splits)

lemma free_page_inv:
  assumes inv: "pmm_inv s own fl" and p: "p \<in> own"
  shows "pmm_inv (free_page s p) (own - {p}) (p # fl)"
proof -
  have nz: "p \<noteq> 0" "aligned p" "p \<notin> set fl" and al: "\<forall>q \<in> set fl. aligned q"
    using inv p by (auto simp: pmm_inv_def taken_def)
  have "flist ((pm s)(p := free_list s, p + 8 := PAGE_FREE_MAGIC)) (free_list s) fl"
  proof (rule flist_outside [OF _ al nz(2,3)])
    fix a assume "\<forall>i < 512. a \<noteq> p + 8 * of_nat i"
    then have "a \<noteq> p + 8 * of_nat 0" "a \<noteq> p + 8 * of_nat 1" by (metis zero_less_numeral, metis one_less_numeral_iff semiring_norm(76))
    then show "((pm s)(p := free_list s, p + 8 := PAGE_FREE_MAGIC)) a = pm s a" by simp
  qed (use inv in \<open>simp add: pmm_inv_def\<close>)
  then show ?thesis
    using inv p nz unfolding pmm_inv_def by (auto simp: free_page_def taken_def kva_to_phys_def)
qed

lemma store_inv:
  assumes inv: "pmm_inv s own fl" and p: "p \<in> own" and i: "i < 512"
  shows "pmm_inv (s\<lparr>pm := (pm s)(p + 8 * of_nat i := v)\<rparr>) own fl"
proof -
  have nz: "aligned p" "p \<notin> set fl" and al: "\<forall>q \<in> set fl. aligned q"
    using inv p by (auto simp: pmm_inv_def taken_def)
  have "flist ((pm s)(p + 8 * of_nat i := v)) (free_list s) fl"
    by (rule flist_outside [OF _ al nz]) (use inv i in \<open>auto simp: pmm_inv_def\<close>)
  then show ?thesis using inv unfolding pmm_inv_def by (simp add: taken_def kva_to_phys_def)
qed

lemma of_nat_word_add: "p + 4096 * of_nat k + 8 * of_nat i = p + 8 * (of_nat (512 * k + i) :: u64)"
  by (simp add: algebra_simps)

lemma alloc_pages_inv:
  assumes inv: "pmm_inv s own fl" and a: "alloc_pages s n = (p, s')" and p: "p \<noteq> 0"
  shows "pmm_inv s' (own \<union> page_run p n) fl"
    and "own \<inter> page_run p n = {}"
  unfolding page_run_def
proof -
  have s': "p = usable s (free_next s)" "s' = s\<lparr>free_next := free_next s + ucast n * PAGE_SIZE,
      pages_taken := pages_taken s + n, pm := zero_words (pm s) p (unat n * 512)\<rparr>"
    and room: "\<not> free_top s < free_next s + ucast n * PAGE_SIZE"
    using a p by (auto simp: alloc_pages_def Let_def split: if_splits)
  have bounds: "aligned (free_next s)" "0 < free_next s" "unat (free_next s) \<le> 2 ^ 39" "unat (free_top s) < 2 ^ 39"
    using inv by (auto simp: pmm_inv_def)
  have n32: "unat n < 2 ^ 32" using unsigned_less [of n] by simp
  have nx: "unat (free_next s + ucast n * PAGE_SIZE) = unat (free_next s) + 4096 * unat n"
    using bounds n32 by (intro unat_page_add) simp_all
  then have fits: "unat (free_next s) + 4096 * unat n \<le> unat (free_top s)"
    using room by (simp add: word_less_nat_alt not_less)
  let ?new = "(\<lambda>i. p + 4096 * of_nat i) ` {0..<unat n}"
  have new: "aligned q \<and> q \<noteq> 0 \<and> free_next s \<le> kva_to_phys s q \<and> taken s' q" if qn: "q \<in> ?new" for q
  proof -
    obtain i where i: "i < unat n" "q = p + 4096 * of_nat i" using qn by auto
    have ph: "kva_to_phys s q = free_next s + 4096 * of_nat i"
      by (simp add: i s' kva_to_phys_def usable_def)
    have "unat (4096 * of_nat i :: u64) = 4096 * i"
      using i(1) n32 unat_of_nat_eq [of "4096 * i", where 'a = 64] by simp
    then have u: "unat (kva_to_phys s q) = unat (free_next s) + 4096 * i"
      unfolding ph using i(1) fits bounds by (subst unat_add_no_wrap) simp_all
    have "aligned q" using bounds by (simp add: i s' aligned_add aligned_mult)
    moreover have "usable s (kva_to_phys s q) \<noteq> 0"
      by (rule usable_nonzero) (use u i(1) fits bounds in \<open>simp_all add: word_less_nat_alt\<close>)
    then have "q \<noteq> 0" by simp
    ultimately show ?thesis using u i(1) nx
      by (simp add: taken_def word_le_nat_alt word_less_nat_alt s' kva_to_phys_def)
  qed
  have old: "q \<notin> ?new" if "taken s q" for q
    using new that by (auto simp: taken_def not_le [symmetric])
  show "own \<inter> ?new = {}" using inv old by (auto simp: pmm_inv_def)
  have "pm s' a = pm s a" if "aligned q" "q \<notin> ?new" "a = q + 8 * of_nat j" "j < 2" for q a j
  proof -
    have "a \<noteq> p + 8 * of_nat k" if "k < unat n * 512" for k
    proof
      assume e: "a = p + 8 * of_nat k"
      define b i where "b = k div 512" and "i = k mod 512"
      then have k: "k = 512 * b + i" "i < 512" "b < unat n" using that by (auto simp: less_mult_imp_div_less)
      have "q + 8 * of_nat j = (p + 4096 * of_nat b) + 8 * of_nat i"
        unfolding of_nat_word_add using e \<open>a = q + 8 * of_nat j\<close> k(1) by simp
      then have "q = p + 4096 * of_nat b"
        using page_word_eq_iff [of q "p + 4096 * of_nat b" j i] \<open>aligned q\<close> \<open>j < 2\<close> k bounds(1)
        by (simp add: s' aligned_add_pages)
      then show False using \<open>q \<notin> ?new\<close> k(3) by auto
    qed
    then show ?thesis by (simp add: s'(2) zero_words_other)
  qed
  note keep = this
  have "flist (pm s') (free_list s) fl"
  proof (rule flist_cong)
    show "flist (pm s) (free_list s) fl" using inv by (simp add: pmm_inv_def)
    have "taken s q" if "q \<in> set fl" for q using inv that by (auto simp: pmm_inv_def)
    then show "\<forall>q \<in> set fl. pm s' q = pm s q \<and> pm s' (q + 8) = pm s (q + 8)"
      using keep [of _ _ 0] keep [of _ _ 1] old by (auto simp: taken_def)
  qed
  moreover have "taken s' q" if "taken s q" for q
    using that by (rule taken_mono) (simp_all add: s' word_le_nat_alt nx)
  moreover have "aligned (free_next s')"
    using bounds(1) aligned_add_pages [of "free_next s" "ucast n"] by (simp add: s' PAGE_SIZE_def ac_simps)
  moreover have "0 < free_next s'" using bounds(2) nx by (simp add: s' word_less_nat_alt)
  moreover have "set fl \<inter> ?new = {}" using inv old by (auto simp: pmm_inv_def)
  ultimately show "pmm_inv s' (own \<union> ?new) fl"
    using inv new fits nx bounds unfolding pmm_inv_def by (simp add: s'(2) ball_Un Int_Un_distrib)
qed

lemma alloc_pages_None: "alloc_pages s n = (0, s') \<Longrightarrow> pmm_inv s own fl \<Longrightarrow> s' = s"
  using room_nonzero [of s own fl n]
  by (auto simp: alloc_pages_def Let_def split: if_splits)

lemma pmm_inv_refs: "pmm_inv s own fl \<Longrightarrow> pmm_inv (s\<lparr>refs := r\<rparr>) own fl"
  by (simp add: pmm_inv_def taken_def kva_to_phys_def)

lemma pmm_inv_tables [simp]:
  "pmm_inv (s\<lparr>l1 := a\<rparr>) own fl = pmm_inv s own fl" "pmm_inv (s\<lparr>l1_high := a\<rparr>) own fl = pmm_inv s own fl"
  "pmm_inv (s\<lparr>l1_user := a\<rparr>) own fl = pmm_inv s own fl" "pmm_inv (s\<lparr>devwin_next := d\<rparr>) own fl = pmm_inv s own fl"
  "pmm_inv (s\<lparr>refs_ptr := a\<rparr>) own fl = pmm_inv s own fl" "pmm_inv (s\<lparr>refs_base := a\<rparr>) own fl = pmm_inv s own fl"
  "pmm_inv (s\<lparr>refs_pages := a\<rparr>) own fl = pmm_inv s own fl"
  by (simp_all add: pmm_inv_def taken_def kva_to_phys_def)

lemma fill_table_inv:
  assumes inv: "pmm_inv s own fl" and p: "p \<in> own"
  shows "pmm_inv (s\<lparr>pm := fill_table (pm s) p e\<rparr>) own fl"
proof -
  have nz: "aligned p" "p \<notin> set fl" and al: "\<forall>q \<in> set fl. aligned q" using inv p by (auto simp: pmm_inv_def taken_def)
  have "flist (fill_table (pm s) p e) (free_list s) fl"
  proof (rule flist_outside [OF _ al nz])
    show "flist (pm s) (free_list s) fl" using inv by (simp add: pmm_inv_def)
    show "fill_table (pm s) p e a = pm s a" if "\<forall>i < 512. a \<noteq> p + 8 * of_nat i" for a
      unfolding fill_table_def by (rule fold_upd_other) (use that in auto)
  qed
  then show ?thesis using inv unfolding pmm_inv_def by (simp add: taken_def kva_to_phys_def)
qed

lemma mmu_init_inv:
  assumes inv: "pmm_inv s own fl" and m: "mmu_init mmfr0 ram_base ram_size s = (Some r, s')"
  shows "\<exists>fl. pmm_inv s' (insert (l1 s') own) fl"
proof -
  obtain t s1 where a: "alloc_page s = (t, s1)" by fastforce
  then have t: "t \<noteq> 0" using m by (auto simp: mmu_init_def)
  obtain fl1 where i1: "pmm_inv (s1\<lparr>l1 := t\<rparr>) (insert t own) fl1" using alloc_page_fresh(4) [OF inv a t] by auto
  have "s' = s1\<lparr>l1 := t, pm := fill_table (pm s1) t (identity_entry ram_base ram_size)\<rparr>"
    using m a t by (simp add: mmu_init_def Let_def)
  then show ?thesis using fill_table_inv [OF i1, of t] by auto
qed

lemma alloc_page_fields: "alloc_page s = (p, s') \<Longrightarrow> high_half s' = high_half s \<and> (free_list s = 0 \<longrightarrow> free_list s' = 0)"
  by (auto simp: alloc_page_def Let_def split: if_splits)

text \<open>The move: with nothing on the free list, every owned page is owned again under its high alias.\<close>

lemma rise_inv:
  assumes "pmm_inv s own fl" "\<not> high_half s" "free_list s = 0"
  shows "pmm_inv (s\<lparr>pm := m, high_half := True\<rparr>) (phys_to_kva ` own) []"
proof -
  have "taken (s\<lparr>pm := m, high_half := True\<rparr>) (phys_to_kva p)" if "p \<in> own" for p
  proof -
    have t: "aligned p" "p \<noteq> 0" "p < free_next s" using assms that by (auto simp: pmm_inv_def taken_def kva_to_phys_def)
    then have "unat p < 2 ^ 39" using assms(1) by (simp add: pmm_inv_def word_less_nat_alt)
    then have "p + KVA_OFFSET \<noteq> 0" using usable_nonzero [of p "s\<lparr>high_half := True\<rparr>"] t(2) by (simp add: usable_def word_gt_0)
    then show ?thesis using t by (simp add: taken_def kva_to_phys_def phys_to_kva_def aligned_kva_offset)
  qed
  then show ?thesis using assms by (auto simp: pmm_inv_def)
qed

lemma go_high_inv:
  assumes inv: "pmm_inv s own fl" and lo: "\<not> high_half s" "free_list s = 0" and h: "alloc_page s = (h, s1)" "h \<noteq> 0"
    and u: "alloc_page (s1\<lparr>l1_high := h\<rparr>) = (u, s2)" "u \<noteq> 0"
  shows "pmm_inv (mmu_note_high (mmu_go_high s)) (phys_to_kva ` insert u (insert h own)) []"
proof -
  obtain fl1 where i1: "pmm_inv (s1\<lparr>l1_high := h\<rparr>) (insert h own) fl1" using alloc_page_fresh(4) [OF inv h] by auto
  obtain fl2 where i2: "pmm_inv s2 (insert u (insert h own)) fl2" using alloc_page_fresh(4) [OF i1 u] by auto
  have f: "\<not> high_half s2" "free_list s2 = 0" using alloc_page_fields [OF h(1)] alloc_page_fields [OF u(1)] lo by simp_all
  define m where "m = (\<lambda>v. fill_table (copy_table (pm s2) h (l1 s2)) u (\<lambda>_. 0) (v - KVA_OFFSET))"
  have "mmu_note_high (mmu_go_high s) =
      s2\<lparr>pm := m, high_half := True, l1 := phys_to_kva (l1 s2), l1_high := phys_to_kva h, l1_user := phys_to_kva u\<rparr>"
    using h u by (simp add: mmu_go_high_def mmu_note_high_def m_def)
  then show ?thesis using rise_inv [OF i2 f, of m] by simp
qed

lemma init_refs_inv:
  assumes inv: "pmm_inv s own fl"
  shows "refs_ptr s = 0 \<Longrightarrow> refs_ptr (pmm_init_refs s) \<noteq> 0 \<Longrightarrow>
      pmm_inv (pmm_init_refs s) (own \<union> page_run (refs_ptr (pmm_init_refs s)) (refs_need s)) fl"
    and "refs_ptr s \<noteq> 0 \<or> refs_ptr (pmm_init_refs s) = 0 \<Longrightarrow> pmm_inv (pmm_init_refs s) own fl"
proof -
  define np where "np = (free_top s - pmm_start s) div PAGE_SIZE"
  define t where "t = s\<lparr>refs_base := pmm_start s, refs_pages := np\<rparr>"
  have it: "pmm_inv t own fl" using inv by (simp add: t_def)
  obtain r s1 where a: "alloc_pages t (refs_need s) = (r, s1)" by fastforce
  have e: "pmm_init_refs s = (if refs_ptr s \<noteq> 0 then s else if r = 0 then s1\<lparr>refs_ptr := 0, refs_pages := 0\<rparr>
      else s1\<lparr>refs_ptr := r, refs := (\<lambda>i. if i < unat np then 0 else refs s1 i)\<rparr>)"
    using a by (simp add: pmm_init_refs_def t_def np_def refs_need_def Let_def cong: if_cong)
  have none: "r = 0 \<Longrightarrow> s1 = t" using a alloc_pages_None [OF _ it] by simp
  show "pmm_inv (pmm_init_refs s) (own \<union> page_run (refs_ptr (pmm_init_refs s)) (refs_need s)) fl"
    if "refs_ptr s = 0" "refs_ptr (pmm_init_refs s) \<noteq> 0"
  proof -
    have r: "r \<noteq> 0" using that by (auto simp: e)
    then show ?thesis using alloc_pages_inv(1) [OF it a r] that by (simp add: e pmm_inv_refs)
  qed
  show "pmm_inv (pmm_init_refs s) own fl" if "refs_ptr s \<noteq> 0 \<or> refs_ptr (pmm_init_refs s) = 0"
    using that inv it none by (auto simp: e split: if_splits)
qed

lemma map_device_inv:
  assumes inv: "pmm_inv s own fl" and h: "l1_high s \<in> own"
  shows "pmm_inv (snd (mmu_map_device phys s)) own fl"
proof -
  have "pmm_inv (s\<lparr>pm := (pm s)(l1_high s + 8 * ucast (devwin_next s) := v)\<rparr>) own fl" if "devwin_next s < 512" for v
    using store_inv [OF inv h, of "unat (devwin_next s)" v] that by (simp add: word_less_nat_alt)
  moreover have "s\<lparr>devwin_next := d, pm := m\<rparr> = (s\<lparr>pm := m\<rparr>)\<lparr>devwin_next := d\<rparr>" for d m by simp
  ultimately have "pmm_inv (s\<lparr>devwin_next := d, pm := (pm s)(l1_high s + 8 * ucast (devwin_next s) := v)\<rparr>) own fl"
    if "devwin_next s < 512" for d v
    using that by (simp only: pmm_inv_tables)
  then show ?thesis using inv by (auto simp: mmu_map_device_def Let_def not_le split: option.split)
qed

lemma pmm_step_inv:
  "pmm_step x y \<Longrightarrow> \<exists>fl. pmm_inv (fst x) (snd x) fl \<Longrightarrow> \<exists>fl. pmm_inv (fst y) (snd y) fl"
proof (induction rule: pmm_step.induct)
  case (alloc s p s' own)
  then show ?case using alloc_page_fresh(4) by fastforce
next
  case (alloc_fail s s' own)
  then show ?case using alloc_page_None by fastforce
next
  case (allocs s n p s' own)
  then show ?case using alloc_pages_inv(1) by fastforce
next
  case (allocs_fail s n s' own)
  then show ?case using alloc_pages_None by fastforce
next
  case (free p own s)
  then show ?case using free_page_inv by fastforce
next
  case (store p own i s v)
  then show ?case using store_inv by fastforce
next
  case (ref s own pa)
  then show ?case by (auto simp: page_ref_def intro: pmm_inv_refs split: option.splits)
next
  case (unref s own pa)
  then show ?case by (auto simp: page_unref_def intro: pmm_inv_refs split: option.splits)
next
  case (table mmfr0 ram_base ram_size s r s' own)
  then show ?case using mmu_init_inv by fastforce
next
  case (high s h s1 u s2 own)
  then show ?case using go_high_inv by (metis fst_conv snd_conv)
next
  case (counts s s' own)
  then show ?case using init_refs_inv(1) by fastforce
next
  case (no_counts s own)
  then show ?case using init_refs_inv(2) by fastforce
next
  case (device s own phys)
  then show ?case using map_device_inv by fastforce
qed

lemma pmm_steps_inv:
  "pmm_step\<^sup>*\<^sup>* x y \<Longrightarrow> \<exists>fl. pmm_inv (fst x) (snd x) fl \<Longrightarrow> \<exists>fl. pmm_inv (fst y) (snd y) fl"
  by (induction rule: rtranclp_induct) (auto dest: pmm_step_inv)

section \<open>Counting holders\<close>

interpretation pages: holders page_count page_ref page_unref "\<lambda>s pa. refs_index s pa \<noteq> None" 256
proof unfold_locales
  fix s pa
  have word: "unat (w + 1) = unat w + 1" if "w < 255" for w :: u8
    using that by (simp add: word_less_nat_alt unat_add_no_wrap)
  have word': "unat (w - 1) = unat w - 1" if "w > 0" for w :: u8
    using that by (simp add: unat_minus_one)
  have idx: "refs_index (s\<lparr>refs := r\<rparr>) pa = refs_index s pa" for r by (simp add: refs_index_def)
  assume t: "refs_index s pa \<noteq> None"
  then obtain i where i: "refs_index s pa = Some i" by auto
  show "fst (page_unref s pa) = page_count s pa - 1" if "0 < page_count s pa"
    using i by (auto simp: page_unref_def page_count_def word' unat_gt_0 word_gt_0)
  show "page_count (snd (page_unref s pa)) pa = page_count s pa - 1" if "1 < page_count s pa"
    using that i by (auto simp: page_unref_def page_count_def idx word' word_gt_0 unat_eq_0 split: if_splits)
  show "page_count (page_ref s pa) pa = Suc (page_count s pa)" if "0 < page_count s pa" "page_count s pa < 256"
    using that i word [of "refs s i"]
    by (auto simp: page_ref_def page_count_def idx word_less_nat_alt split: if_splits)
  show "refs_index (page_ref s pa) pa \<noteq> None" using i by (simp add: page_ref_def idx)
  show "refs_index (snd (page_unref s pa)) pa \<noteq> None" using i by (simp add: page_unref_def idx)
qed

section \<open>What the kernel's map translates\<close>

text \<open>
  The processor's reading of a level 1 table of 1 GiB blocks: bits 30 to 38 of the address choose the
  entry, bits 30 to 47 of the entry are the output block.
\<close>

definition l1_walk :: "wmem \<Rightarrow> u64 \<Rightarrow> u64 \<Rightarrow> u64 option" where
  "l1_walk m t va =
     (let d = m (t + 8 * take_bit 9 (drop_bit 30 va))
      in if take_bit 2 d = 1 then Some ((d AND mask 48 AND NOT (mask 30)) OR take_bit 30 va) else None)"

definition kernel_map :: "pmm \<Rightarrow> bool" where
  "kernel_map s \<longleftrightarrow> aligned (l1_high s) \<and> 510 \<le> devwin_next s \<and> devwin_next s \<le> 512 \<and>
     (\<forall>i < 510. \<exists>attr x. (attr = 0 \<or> attr = 1) \<and> pm s (l1_high s + 8 * of_nat i) = block (of_nat i * GIB) attr x) \<and>
     (\<forall>i. 510 \<le> i \<and> i < unat (devwin_next s) \<longrightarrow>
        (\<exists>b. pm s (l1_high s + 8 * of_nat i) = block b ATTR_DEVICE False))"

lemma GIB_mask: "GIB - 1 = mask 30"
  by (simp add: GIB_def mask_eq_exp_minus_1)

lemma bit_desc:
  "bit DESC_AF n \<longleftrightarrow> n = 10" "bit DESC_BLOCK n \<longleftrightarrow> n = 0" "bit DESC_SH_INNER n \<longleftrightarrow> n = 8 \<or> n = 9"
  "bit DESC_PXN n \<longleftrightarrow> n = 53" "bit DESC_UXN n \<longleftrightarrow> n = 54"
proof -
  have "DESC_SH_INNER = push_bit 8 1 OR push_bit 9 1" by (simp add: DESC_SH_INNER_def)
  moreover have "bit (push_bit 8 1 OR push_bit 9 1 :: u64) n \<longleftrightarrow> n = 8 \<or> n = 9"
    unfolding bit_or_iff bit_push_one by auto
  ultimately show "bit DESC_SH_INNER n \<longleftrightarrow> n = 8 \<or> n = 9" by (simp only:)
qed (auto simp only: DESC_AF_def DESC_BLOCK_def DESC_PXN_def DESC_UXN_def bit_push_one bit_1_iff, simp_all)

lemma bit_block:
  assumes "attr = 0 \<or> attr = 1"
  shows "bit (block pa attr x) n \<longleftrightarrow>
     n < 64 \<and> (n \<ge> 30 \<and> bit pa n \<or> n = 10 \<or> n = 0 \<or> n = 2 \<and> attr = 1 \<or>
       attr = 1 \<and> (n = 8 \<or> n = 9) \<or> \<not> x \<and> (n = 53 \<or> n = 54))"
proof -
  have two: "bit (push_bit 2 attr) n \<longleftrightarrow> n = 2 \<and> attr = 1"
    using assms bit_push_one [of 2 n, where 'a = 64] by auto
  have c: "bit (if P then a else b) n \<longleftrightarrow> (if P then bit a n else bit b n)" for P and a b :: u64 by simp
  show ?thesis
    unfolding block_def Let_def GIB_mask ATTR_NORMAL_def c
      bit_or_iff bit_and_iff bit_not_iff bit_mask_iff bit_desc two
    by (auto dest: bit_imp_le_length)
qed

lemma l1_walk_block:
  assumes "attr = 0 \<or> attr = 1" and "m (t + 8 * take_bit 9 (drop_bit 30 va)) = block pa attr x"
  shows "l1_walk m t va = Some ((pa AND mask 48 AND NOT (mask 30)) OR take_bit 30 va)"
proof -
  have "take_bit 2 (block pa attr x) = 1"
    by (rule bit_word_eqI) (use assms(1) in \<open>auto simp: bit_take_bit_iff bit_block bit_1_iff\<close>)
  moreover have "block pa attr x AND mask 48 AND NOT (mask 30) = pa AND mask 48 AND NOT (mask 30)"
    by (rule bit_word_eqI) (use assms(1) in \<open>auto simp: bit_simps bit_block\<close>)
  ultimately show ?thesis using assms(2) by (simp add: l1_walk_def)
qed

lemma block_join:
  fixes phys va pa :: u64
  assumes "unat phys < 2 ^ 48" "take_bit 30 va = take_bit 30 phys" "pa AND NOT (mask 30) = phys AND NOT (mask 30)"
  shows "(pa AND mask 48 AND NOT (mask 30)) OR take_bit 30 va = phys"
proof -
  have "take_bit 48 phys = phys"
    using assms(1) by (simp add: word_unat_eq_iff unat_take_bit del: take_bit_eq_mod)
  then have high: "bit phys n \<Longrightarrow> n < 48" for n by (metis bit_take_bit_iff)
  have eq: "bit pa n \<longleftrightarrow> bit phys n" if "30 \<le> n" for n
    using assms(3) that by (cases "n < 64") (auto simp: bit_eq_iff bit_simps dest: bit_imp_le_length)
  show ?thesis
    unfolding assms(2) by (rule bit_word_eqI) (auto simp: bit_simps eq not_less dest: high)
qed

lemma window_address:
  assumes "i < 512" "r < GIB"
  shows "take_bit 9 (drop_bit 30 (KVA_OFFSET + of_nat i * GIB + r)) = of_nat i"
    and "take_bit 30 (KVA_OFFSET + of_nat i * GIB + r) = r"
proof -
  have g: "unat GIB = 2 ^ 30" by (simp add: GIB_def)
  have r: "unat r < 2 ^ 30" using assms(2) g by (simp add: word_less_nat_alt)
  have "unat (of_nat i * GIB :: u64) = i * 2 ^ 30"
    using unat_of_nat_eq [of "i * 2 ^ 30", where 'a = 64] assms(1) by (simp add: GIB_def)
  moreover have k: "unat KVA_OFFSET = 2 ^ 64 - 2 ^ 39" by (simp add: KVA_OFFSET_def)
  ultimately have "unat (KVA_OFFSET + of_nat i * GIB) = 2 ^ 64 - 2 ^ 39 + i * 2 ^ 30"
    using assms(1) by (subst unat_add_no_wrap) simp_all
  then have u: "unat (KVA_OFFSET + of_nat i * GIB + r) = 2 ^ 64 - 2 ^ 39 + i * 2 ^ 30 + unat r"
    using r assms(1) by (subst unat_add_no_wrap) simp_all
  define v where "v = KVA_OFFSET + of_nat i * GIB + r"
  have e: "2 ^ 64 - 2 ^ 39 + i * 2 ^ 30 + unat r = ((2 ^ 34 - 2 ^ 9) + i) * 2 ^ 30 + unat r" by simp
  have m: "(2 ^ 34 - 2 ^ 9 + i) mod 512 = i" using assms(1) mod_mult_self4 [of 512 33554431 i] by simp
  have "unat v div 2 ^ 30 = (2 ^ 34 - 2 ^ 9) + i" "unat v mod 2 ^ 30 = unat r"
    using r unfolding v_def u e by (simp_all only: div_mult_self3 mod_mult_self3) simp_all
  then have "unat (take_bit 9 (drop_bit 30 v)) = i" "unat (take_bit 30 v) = unat r"
    using m by (simp_all only: unat_take_bit unat_drop_bit) simp_all
  then show "take_bit 9 (drop_bit 30 (KVA_OFFSET + of_nat i * GIB + r)) = of_nat i"
    and "take_bit 30 (KVA_OFFSET + of_nat i * GIB + r) = r"
    unfolding v_def using word_of_unat [of _ i] by (blast, simp add: word_unat_eq_iff)
qed

lemma phys_minus_base: "(phys :: u64) - (phys AND NOT (GIB - 1)) = take_bit 30 phys" "take_bit 30 phys < GIB"
proof -
  have "phys = (phys AND NOT (mask 30)) + take_bit 30 phys"
    by (subst disjunctive_add) (auto simp: bit_simps intro!: bit_word_eqI)
  then show "phys - (phys AND NOT (GIB - 1)) = take_bit 30 phys" unfolding GIB_mask
    by (metis add_diff_cancel_left')
  have "unat (take_bit 30 phys) < 2 ^ 30" by (simp only: unat_take_bit) simp
  then show "take_bit 30 phys < GIB" by (simp add: word_less_nat_alt GIB_def)
qed

lemma pmm_init_inv:
  assumes "0 < ram_base" "unat ram_base + unat ram_size < 2 ^ 39" "unat avoid + unat avoid_size < 2 ^ 39"
  shows "pmm_inv (pmm_init kend ram_base ram_size avoid avoid_size (pmm_statics m)) {} []"
proof -
  have top: "unat (ram_base + ram_size) = unat ram_base + unat ram_size"
    and av: "unat (avoid + avoid_size) = unat avoid + unat avoid_size"
    using assms(2,3) by (simp_all add: unat_add_no_wrap)
  define start where "start = (let start = ram_base;
          start = (if kend > ram_base \<and> kend < ram_base + ram_size then kend else start)
      in if avoid_size \<noteq> 0 \<and> avoid + avoid_size > start \<and> avoid < ram_base + ram_size
         then (if avoid + avoid_size > start then avoid + avoid_size else start) else start)"
  have st: "0 < unat start" "unat start < 2 ^ 39"
    using assms top av by (auto simp: start_def Let_def word_less_nat_alt)
  then have u: "unat (start + 0xfff) = unat start + 4095" by (simp add: unat_add_no_wrap)
  have m: "(0xfff :: u64) = mask 12" by (simp add: mask_eq_exp_minus_1)
  define nx where "nx = (start + 0xfff) AND NOT 0xfff"
  have nx: "unat nx = (unat start + 4095) div 4096 * 4096"
    unfolding nx_def using unat_and_not_mask [of "start + 0xfff" 12] u by (simp add: m [symmetric])
  have e: "pmm_init kend ram_base ram_size avoid avoid_size (pmm_statics m) =
      (pmm_statics m)\<lparr>free_next := nx, free_top := ram_base + ram_size, pmm_start := nx\<rparr>"
    unfolding pmm_init_def Let_def start_def nx_def ..
  have "0 < (unat start + 4095) div 4096" using st by auto
  then show ?thesis
    unfolding e pmm_inv_def using assms(2) top st
    by (simp add: aligned_iff nx word_less_nat_alt pmm_statics_def)
qed

lemma find_window_Some:
  "find_window s base is = Some i \<Longrightarrow> i \<in> set is \<and> pm s (l1_high s + 8 * of_nat i) AND 0x0000fffffffff000 = base"
  by (induction s base "is" rule: find_window.induct) (auto split: if_splits)

lemma base48:
  assumes "unat phys < 2 ^ 48"
  shows "(phys AND NOT (mask 30)) AND mask 48 AND NOT (mask 30) = (phys AND NOT (mask 30) :: u64)"
proof -
  have "take_bit 48 phys = phys"
    using assms by (simp add: word_unat_eq_iff unat_take_bit del: take_bit_eq_mod)
  then have high: "bit phys n \<Longrightarrow> n < 48" for n by (metis bit_take_bit_iff)
  show ?thesis by (rule bit_word_eqI) (auto simp: bit_simps dest: high)
qed

lemma block_window:
  assumes "block b ATTR_DEVICE False AND 0x0000fffffffff000 = phys AND NOT (GIB - 1)"
  shows "b AND mask 48 AND NOT (mask 30) = phys AND NOT (GIB - 1)"
proof -
  have m: "(0x0000fffffffff000 :: u64) = mask 48 AND NOT (mask 12)" by (simp add: mask_eq_exp_minus_1)
  have "block b ATTR_DEVICE False AND (mask 48 AND NOT (mask 12)) = b AND mask 48 AND NOT (mask 30)"
    by (rule bit_word_eqI) (auto simp: bit_simps bit_block ATTR_DEVICE_def)
  then show ?thesis using assms m by simp
qed

lemma kernel_map_extend:
  assumes "kernel_map s" "i = unat (devwin_next s)" "i < 512"
  shows "kernel_map (s\<lparr>devwin_next := devwin_next s + 1,
      pm := (pm s)(l1_high s + 8 * of_nat i := block b ATTR_DEVICE False)\<rparr>)"
    and "\<forall>va. unat (take_bit 9 (drop_bit 30 va)) < unat (devwin_next s) \<longrightarrow>
      l1_walk ((pm s)(l1_high s + 8 * of_nat i := block b ATTR_DEVICE False)) (l1_high s) va =
      l1_walk (pm s) (l1_high s) va"
proof -
  note km = assms(1) [unfolded kernel_map_def]
  have i: "510 \<le> i" using km assms(2) by (simp add: word_le_nat_alt)
  have u: "unat (devwin_next s + 1) = Suc i"
    using assms(2,3) unat_add_no_wrap [of "devwin_next s" 1] by simp
  have other: "l1_high s + 8 * of_nat j \<noteq> l1_high s + 8 * of_nat i" if "j < 512" "j \<noteq> i" for j
    using page_word_eq_iff [of "l1_high s" "l1_high s" j i] km that assms(3) by blast
  show "kernel_map (s\<lparr>devwin_next := devwin_next s + 1,
      pm := (pm s)(l1_high s + 8 * of_nat i := block b ATTR_DEVICE False)\<rparr>)"
    unfolding kernel_map_def using km other u i assms(3)
    by (auto simp: word_le_nat_alt less_Suc_eq assms(2) [symmetric] simp del: add_left_cancel)
  show "\<forall>va. unat (take_bit 9 (drop_bit 30 va)) < unat (devwin_next s) \<longrightarrow>
      l1_walk ((pm s)(l1_high s + 8 * of_nat i := block b ATTR_DEVICE False)) (l1_high s) va =
      l1_walk (pm s) (l1_high s) va"
  proof (intro allI impI)
    fix va :: u64 assume j: "unat (take_bit 9 (drop_bit 30 va)) < unat (devwin_next s)"
    have "l1_high s + 8 * of_nat (unat (take_bit 9 (drop_bit 30 va))) \<noteq> l1_high s + 8 * of_nat i"
      by (rule other) (use j assms(2,3) in simp_all)
    then show "l1_walk ((pm s)(l1_high s + 8 * of_nat i := block b ATTR_DEVICE False)) (l1_high s) va =
        l1_walk (pm s) (l1_high s) va"
      unfolding l1_walk_def by simp
  qed
qed

section \<open>Properties\<close>

text \<open>
  C8: no page has two owners. From the state \<open>pmm_init\<close> leaves behind, after any sequence of allocations,
  writes into owned pages, counts and returns of owned pages, through the switch to the kernel's own tables, the move to the high half and the
  allocation of the counts, a page that \<open>alloc_page\<close> hands out is not owned by anybody, is page-aligned, is full of zeroes, and was not
  written to while it was free.
\<close>
theorem alloc_page_exclusive:
  assumes "0 < ram_base" "unat ram_base + unat ram_size < 2 ^ 39" "unat avoid + unat avoid_size < 2 ^ 39"
    and "pmm_step\<^sup>*\<^sup>* (pmm_init kend ram_base ram_size avoid avoid_size (pmm_statics m), {}) (s, own)"
    and "alloc_page s = (p, s')" "p \<noteq> 0"
  shows "p \<notin> own \<and> aligned p \<and> (\<forall>i < 512. pm s' (p + 8 * of_nat i) = 0) \<and> free_after_use s' = 0"
proof -
  obtain fl where inv: "pmm_inv s own fl"
    using pmm_steps_inv [OF assms(4)] pmm_init_inv [OF assms(1-3)] by auto
  note f = alloc_page_fresh [OF inv assms(5,6)]
  then show ?thesis by (auto simp: pmm_inv_def)
qed

text \<open>The boot of a small machine, up to a page that is allocated, given back and asked for again.\<close>

definition small_low :: pmm where "small_low = snd (mmu_init 5 4096 65536 (pmm_init 0 4096 65536 0 0 (pmm_statics (\<lambda>_. 7))))"
definition small_high :: pmm where "small_high = pmm_init_refs (mmu_note_high (mmu_go_high small_low))"
definition small_back :: pmm where "small_back = free_page (snd (alloc_page small_high)) 0xffffff8000005000"

lemma small_values:
  "\<not> high_half small_low \<and> free_list small_low = 0 \<and> l1 small_low = 4096 \<and> free_next small_low = 8192 \<and>
   free_top small_low = 69632 \<and> pmm_start small_low = 4096 \<and> refs_ptr small_low = 0"
  "fst (mmu_init 5 4096 65536 (pmm_init 0 4096 65536 0 0 (pmm_statics (\<lambda>_. 7)))) \<noteq> None"
  by (simp_all add: small_low_def mmu_init_def pmm_init_def pmm_statics_def alloc_page_def Let_def usable_def PAGE_SIZE_def)

lemma small_high_values:
  "high_half small_high \<and> free_list small_high = 0 \<and> refs_ptr small_high = 0xffffff8000004000 \<and> free_next small_high = 20480 \<and>
   free_top small_high = 69632"
  using small_values(1)
  by (simp add: small_high_def mmu_go_high_def mmu_note_high_def pmm_init_refs_def alloc_page_def alloc_pages_def Let_def usable_def
      PAGE_SIZE_def KVA_OFFSET_def)

lemma small_run:
  "pmm_step\<^sup>*\<^sup>* (pmm_init 0 4096 65536 0 0 (pmm_statics (\<lambda>_. 7)), {})
     (small_back, {0xffffff8000001000, 0xffffff8000002000, 0xffffff8000003000, 0xffffff8000004000})"
proof -
  let ?s = "pmm_init 0 4096 65536 0 0 (pmm_statics (\<lambda>_. 7))"
  obtain r where r: "mmu_init 5 4096 65536 ?s = (Some r, small_low)" using small_values(2) by (cases "mmu_init 5 4096 65536 ?s") (auto simp: small_low_def)
  have 1: "pmm_step\<^sup>*\<^sup>* (?s, {}) (small_low, {4096})" using pmm_step.table [OF r, of "{}"] small_values(1) by (simp add: r_into_rtranclp)
  obtain h s1 where h: "alloc_page small_low = (h, s1)" by fastforce
  obtain u s2 where u: "alloc_page (s1\<lparr>l1_high := h\<rparr>) = (u, s2)" by fastforce
  have hu: "h = 8192" "u = 12288"
    using h u small_values(1) by (auto simp: alloc_page_def Let_def usable_def PAGE_SIZE_def)
  let ?t = "mmu_note_high (mmu_go_high small_low)"
  have 2: "pmm_step (small_low, {4096}) (?t, phys_to_kva ` {12288, 8192, 4096})"
    using pmm_step.high [OF _ _ h _ u, of "{4096}"] hu small_values(1) by simp
  have "refs_ptr ?t = 0 \<and> free_top ?t = 69632 \<and> pmm_start ?t = 4096"
    using small_values(1) by (simp add: mmu_go_high_def mmu_note_high_def alloc_page_def Let_def)
  then have 3: "pmm_step (?t, phys_to_kva ` {12288, 8192, 4096}) (small_high, phys_to_kva ` {12288, 8192, 4096} \<union> page_run 0xffffff8000004000 1)"
    using pmm_step.counts [of ?t small_high "phys_to_kva ` {12288, 8192, 4096}"] small_high_values by (simp add: small_high_def refs_need_def PAGE_SIZE_def)
  have o: "phys_to_kva ` {12288, 8192, 4096} \<union> page_run 0xffffff8000004000 1 =
      {0xffffff8000001000, 0xffffff8000002000, 0xffffff8000003000, 0xffffff8000004000}" (is "_ = ?own")
    by (auto simp: phys_to_kva_def KVA_OFFSET_def page_run_def)
  obtain p s3 where p: "alloc_page small_high = (p, s3)" by fastforce
  have p5: "p = 0xffffff8000005000" using p small_high_values by (auto simp: alloc_page_def Let_def usable_def PAGE_SIZE_def KVA_OFFSET_def)
  have 4: "pmm_step (small_high, ?own) (s3, insert p ?own)" using pmm_step.alloc [OF p] p5 by simp
  have 5: "pmm_step (s3, insert p ?own) (small_back, ?own)"
    using pmm_step.free [of p "insert p ?own" s3] p p5 by (simp add: small_back_def insert_Diff_if)
  show ?thesis using 1 2 3 [unfolded o] 4 5 by (meson rtranclp.rtrancl_into_rtrancl)
qed

theorem alloc_page_exclusive_witness:
  "\<exists>s'. alloc_page small_back = (0xffffff8000005000, s') \<and> high_half small_back \<and> refs_ptr small_back \<noteq> 0 \<and>
     0xffffff8000005000 \<notin> {0xffffff8000001000, 0xffffff8000002000, 0xffffff8000003000, 0xffffff8000004000 :: u64} \<and>
     (\<forall>i < 512. pm s' (0xffffff8000005000 + 8 * of_nat i) = 0) \<and> free_after_use s' = 0"
proof -
  obtain p s' where a: "alloc_page small_back = (p, s')" by fastforce
  then have p: "p = 0xffffff8000005000" by (auto simp: alloc_page_def small_back_def free_page_def Let_def)
  have "high_half small_back" "refs_ptr small_back \<noteq> 0"
    using small_high_values by (auto simp: small_back_def free_page_def alloc_page_def Let_def)
  then show ?thesis using alloc_page_exclusive [OF _ _ _ small_run a] a p by auto
qed

text \<open>
  C29: \<open>page_unref\<close> answers zero to the last holder and to nobody else. Over any interleaving of new
  holders and holders letting go of a tracked page, with at most 256 of them at a time, every \<open>page_unref\<close>
  answers the number of holders that remain.
\<close>
theorem page_unref_answers:
  assumes "refs_index s pa \<noteq> None" "live 256 hs (page_count s pa)"
  shows "fst (hold_run page_ref page_unref pa hs s) = answers hs (page_count s pa)"
  by (rule pages.hold_run_answers [OF assms(1) refl assms(2)])

theorem page_unref_answers_witness:
  "fst (hold_run page_ref page_unref 8192 [Take, Take, Drop, Take, Drop, Drop, Drop]
      ((pmm_statics (\<lambda>_. 0))\<lparr>refs_ptr := 4096, refs_base := 4096, refs_pages := 16\<rparr>)) = [2, 2, 1, 0]"
  using page_unref_answers [of "(pmm_statics (\<lambda>_. 0))\<lparr>refs_ptr := 4096, refs_base := 4096, refs_pages := 16\<rparr>"
      8192 "[Take, Take, Drop, Take, Drop, Drop, Drop]"]
  by (simp add: refs_index_def page_count_def pmm_statics_def PAGE_SIZE_def)

text \<open>
  A device window reaches the device. When \<open>mmu_map_device\<close> returns an address for a physical
  address below \<open>2 ^ 48\<close>, the kernel's table translates that address to exactly that physical address, the
  straight window and the windows handed out before are left as they were, and the map stays well formed.
\<close>
lemma mmu_map_device_translates:
  assumes "kernel_map s" "unat phys < 2 ^ 48" "mmu_map_device phys s = (Some out, s')"
  shows "l1_walk (pm s') (l1_high s') out = Some phys \<and> kernel_map s' \<and>
     (\<forall>va. unat (take_bit 9 (drop_bit 30 va)) < unat (devwin_next s) \<longrightarrow>
        l1_walk (pm s') (l1_high s') va = l1_walk (pm s) (l1_high s) va)"
proof -
  let ?t = "l1_high s" and ?base = "phys AND NOT (GIB - 1)"
  note r = phys_minus_base [of phys]
  have base: "?base AND NOT (mask 30) = phys AND NOT (mask 30)" by (simp add: GIB_mask)
  note km = assms(1) [unfolded kernel_map_def]
  show ?thesis
  proof (cases "phys < ucast DEVWIN_FIRST * GIB")
    case True
    then have out: "out = phys_to_kva phys" "s' = s" using assms(3) by (simp_all add: mmu_map_device_def)
    define i where "i = unat phys div 2 ^ 30"
    have "unat phys < 510 * 2 ^ 30" using True by (simp add: word_less_nat_alt DEVWIN_FIRST_def GIB_def)
    then have i: "i < 510" unfolding i_def by (simp add: less_mult_imp_div_less)
    have "phys = of_nat i * GIB + take_bit 30 phys"
    proof (rule word_unat_eq_iff [THEN iffD2])
      have "unat (of_nat i * GIB :: u64) = i * 2 ^ 30"
        using unat_of_nat_eq [of "i * 2 ^ 30", where 'a = 64] i by (simp add: GIB_def)
      then have "unat (of_nat i * GIB + take_bit 30 phys) = i * 2 ^ 30 + unat phys mod 2 ^ 30"
        using i by (subst unat_add_no_wrap) (simp_all add: unat_take_bit)
      then show "unat phys = unat (of_nat i * GIB + take_bit 30 phys)"
        by (simp only: i_def div_mult_mod_eq)
    qed
    then have "phys - take_bit 30 phys = of_nat i * GIB" by (metis add_diff_cancel_right')
    moreover have "phys - take_bit 30 phys = ?base" using r(1) by (metis add.commute diff_add_cancel diff_eq_eq)
    ultimately have g: "of_nat i * GIB = ?base" by simp
    have o: "out = KVA_OFFSET + of_nat i * GIB + take_bit 30 phys"
      using r(1) g by (simp add: out phys_to_kva_def algebra_simps)
    note w = window_address [of i "take_bit 30 phys", OF _ r(2), folded o]
    obtain attr x where "attr = 0 \<or> attr = 1" "pm s (?t + 8 * of_nat i) = block (of_nat i * GIB) attr x"
      using km i by blast
    then have "l1_walk (pm s) ?t out = Some ((of_nat i * GIB AND mask 48 AND NOT (mask 30)) OR take_bit 30 out)"
      using w(1) i by (intro l1_walk_block) auto
    moreover have "(of_nat i * GIB AND mask 48 AND NOT (mask 30)) OR take_bit 30 out = phys"
      by (rule block_join [OF assms(2)]) (use w(2) i base g in simp_all)
    ultimately show ?thesis using out assms(1) by simp
  next
    case False
    show ?thesis
    proof (cases "find_window s ?base [unat DEVWIN_FIRST..<unat (devwin_next s)]")
      case (Some i)
      have i: "510 \<le> i" "i < unat (devwin_next s)" "pm s (?t + 8 * of_nat i) AND 0x0000fffffffff000 = ?base"
        using find_window_Some [OF Some] by (auto simp: DEVWIN_FIRST_def)
      then have i512: "i < 512" using km by (simp add: word_le_nat_alt)
      have out: "out = KVA_OFFSET + of_nat i * GIB + take_bit 30 phys" "s' = s"
        using assms(3) False Some r(1) by (simp_all add: mmu_map_device_def Let_def)
      note w = window_address [OF i512 r(2), folded out(1)]
      obtain b where b: "pm s (?t + 8 * of_nat i) = block b ATTR_DEVICE False" using km i by blast
      have "l1_walk (pm s) ?t out = Some ((b AND mask 48 AND NOT (mask 30)) OR take_bit 30 out)"
        using w(1) b by (intro l1_walk_block [of ATTR_DEVICE]) (auto simp: ATTR_DEVICE_def)
      moreover have "b AND mask 48 AND NOT (mask 30) = ?base"
        by (rule block_window) (use i(3) b in simp)
      ultimately show ?thesis
        using block_join [OF assms(2) w(2), of ?base] base assms(1) out(2) r
          base48 [OF assms(2)] by (simp add: GIB_mask)
    next
      case None
      define i where "i = unat (devwin_next s)"
      have dw: "devwin_next s < 512" and s': "s' = s\<lparr>devwin_next := devwin_next s + 1,
          pm := (pm s)(?t + 8 * of_nat i := block ?base ATTR_DEVICE False)\<rparr>"
        and out: "out = KVA_OFFSET + of_nat i * GIB + take_bit 30 phys"
        using assms(3) False None r(1)
        by (auto simp: mmu_map_device_def Let_def i_def not_le split: if_splits)
      have i: "i < 512" "510 \<le> i" using dw km by (simp_all add: i_def word_less_nat_alt word_le_nat_alt)
      note w = window_address [OF i(1) r(2), folded out(1)]
      have "l1_walk (pm s') ?t out = Some ((?base AND mask 48 AND NOT (mask 30)) OR take_bit 30 out)"
        using w(1) by (intro l1_walk_block [of ATTR_DEVICE]) (auto simp: ATTR_DEVICE_def s')
      moreover have "(?base AND mask 48 AND NOT (mask 30)) OR take_bit 30 out = phys"
        by (rule block_join [OF assms(2)]) (use w(2) base in simp_all)
      moreover have "unat (devwin_next s + 1) = Suc i"
        using i unat_add_no_wrap [of "devwin_next s" 1] by (simp add: i_def)
      ultimately show ?thesis using kernel_map_extend [OF assms(1) i_def i(1)] by (simp add: s')
    qed
  qed
qed

end
