(* ===== verification/Vm.thy ===== *)
theory Vm
  imports Pmm
begin

text \<open>
  Address spaces (\<open>stam/vm.c\<close>): three levels of tables of 512 descriptors, the walk that decides whether a
  pointer a program passed is the program's, copy-on-write, duplication and release of a space.

  Every function works on the state of \<open>Pmm\<close>; a pointer to a table or to a slot of it is the address of
  a word. The argument \<open>cur\<close> is the processor's \<open>user_table_kva\<close>, which \<open>mmu_current_user_table_kva\<close> reads;
  a function that sets it around a call passes the new value to that call. The result of a C function that returns
  0 or -1 is an \<open>int\<close>, a null pointer is 0. Barriers and TLB maintenance have no effect on this state.

  The loop of \<open>vm_user_ok\<close> carries fuel, \<open>None\<close> being a loop that has not ended; \<open>vm_user_ok_returns\<close>
  shows that one unit per page of the user half is enough.
\<close>

section \<open>Descriptors\<close>

definition D_TABLE :: u64 where "D_TABLE = 3"
definition D_BLOCK :: u64 where "D_BLOCK = 1"
definition D_PAGE :: u64 where "D_PAGE = 3"
definition D_VALID :: u64 where "D_VALID = 1"
definition D_AF :: u64 where "D_AF = push_bit 10 1"
definition D_SH_INNER :: u64 where "D_SH_INNER = push_bit 8 3"
definition D_AP_EL0 :: u64 where "D_AP_EL0 = push_bit 6 1"
definition D_PXN :: u64 where "D_PXN = push_bit 53 1"
definition D_UXN :: u64 where "D_UXN = push_bit 54 1"
definition D_AP_RO :: u64 where "D_AP_RO = push_bit 7 1"
definition ADDR_MASK :: u64 where "ADDR_MASK = 0x0000fffffffff000"

definition table_at :: "u64 \<Rightarrow> u64" where
  "table_at desc = phys_to_kva (desc AND ADDR_MASK)"

text \<open>The slot of a table that an address selects at a level, given the shift of the level.\<close>

definition slot_of :: "u64 \<Rightarrow> nat \<Rightarrow> u64 \<Rightarrow> u64" where
  "slot_of tbl shift va = tbl + 8 * (drop_bit shift va AND 511)"

section \<open>Mapping\<close>

definition split_entry :: "u64 \<Rightarrow> u64 \<Rightarrow> nat \<Rightarrow> u64" where
  "split_entry old child_size i =
     ((old AND NOT (child_size * 512 - 1) AND ADDR_MASK) + of_nat i * child_size) OR
     (old AND NOT ADDR_MASK AND NOT 3) OR (if child_size = 4096 then D_PAGE else D_BLOCK)"

definition split :: "u64 \<Rightarrow> u64 \<Rightarrow> pmm \<Rightarrow> u64 \<times> pmm" where
  "split slot child_size s =
     (let old = pm s slot; (tbl, s1) = alloc_page s
      in if tbl = 0 then (0, s1)
         else let m = (if old AND D_VALID \<noteq> 0 then fill_table (pm s1) tbl (split_entry old child_size)
                       else fill_table (pm s1) tbl (\<lambda>_. 0))
              in (tbl, s1\<lparr>pm := m(slot := kva_to_phys s1 tbl OR D_TABLE)\<rparr>))"

definition descend :: "u64 \<Rightarrow> nat \<Rightarrow> u64 \<Rightarrow> u64 \<Rightarrow> pmm \<Rightarrow> u64 \<times> pmm" where
  "descend tbl shift va child_size s =
     (let d = pm s (slot_of tbl shift va)
      in if d AND 3 = D_TABLE then (table_at d, s) else split (slot_of tbl shift va) child_size s)"

definition map_user_page_raw :: "u64 \<Rightarrow> u64 \<Rightarrow> u64 \<Rightarrow> pmm \<Rightarrow> int \<times> pmm" where
  "map_user_page_raw cur va desc s =
     (let l1 = mmu_current_user_table_kva cur s
      in if l1 = 0 then (- 1, s)
         else let (l2, s2) = descend l1 30 va (push_bit 21 1) s
              in if l2 = 0 then (- 1, s2)
                 else let (l3, s3) = descend l2 21 va 4096 s2
                      in if l3 = 0 then (- 1, s3)
                         else (0, s3\<lparr>pm := (pm s3)(slot_of l3 12 va := desc)\<rparr>))"

definition user_desc :: "u64 \<Rightarrow> bool \<Rightarrow> u64" where
  "user_desc pa executable =
     (let d = (pa AND ADDR_MASK) OR D_PAGE OR D_AF OR D_SH_INNER OR push_bit 2 1 OR D_AP_EL0 OR D_PXN
      in if \<not> executable then d OR D_UXN else d)"

definition map_user_page :: "u64 \<Rightarrow> u64 \<Rightarrow> u64 \<Rightarrow> bool \<Rightarrow> pmm \<Rightarrow> int \<times> pmm" where
  "map_user_page cur va page executable s =
     (let pa = kva_to_phys s page; l1 = mmu_current_user_table_kva cur s
      in if l1 = 0 then (- 1, s)
         else let (l2, s2) = descend l1 30 va (push_bit 21 1) s
              in if l2 = 0 then (- 1, s2)
                 else let (l3, s3) = descend l2 21 va 4096 s2
                      in if l3 = 0 then (- 1, s3)
                         else (0, s3\<lparr>pm := (pm s3)(slot_of l3 12 va := user_desc pa executable)\<rparr>))"

section \<open>Copy-on-write\<close>

text \<open>The byte loop over two whole pages, a word at a time.\<close>

definition copy_page :: "wmem \<Rightarrow> u64 \<Rightarrow> u64 \<Rightarrow> wmem" where
  "copy_page m d s = fold (\<lambda>i m. m(d + 8 * of_nat i := m (s + 8 * of_nat i))) [0..<512] m"

definition vm_cow_fault :: "u64 \<Rightarrow> u64 \<Rightarrow> pmm \<Rightarrow> int \<times> pmm" where
  "vm_cow_fault cur va s =
     (let l1 = mmu_current_user_table_kva cur s
      in if l1 = 0 then (- 1, s)
         else let d1 = pm s (slot_of l1 30 va)
         in if d1 AND 3 \<noteq> D_TABLE then (- 1, s)
         else let l2 = table_at d1; d2 = pm s (slot_of l2 21 va)
         in if d2 AND 3 \<noteq> D_TABLE then (- 1, s)
         else let l3 = table_at d2; slot = slot_of l3 12 va; d = pm s slot
         in if d AND 3 \<noteq> D_PAGE then (- 1, s)
         else if d AND D_AP_EL0 = 0 then (- 1, s)
         else if d AND D_AP_RO = 0 then (- 1, s)
         else let pa = d AND ADDR_MASK
         in if page_count s pa > 1 then
              let (fresh, s1) = alloc_page s
              in if fresh = 0 then (- 1, s1)
                 else let s2 = s1\<lparr>pm := copy_page (pm s1) fresh (phys_to_kva pa)\<rparr>;
                          s3 = snd (page_unref s2 pa)
                      in (0, s3\<lparr>pm := (pm s3)(slot :=
                            (kva_to_phys s3 fresh AND ADDR_MASK) OR (d AND NOT ADDR_MASK AND NOT D_AP_RO))\<rparr>)
            else (0, s\<lparr>pm := (pm s)(slot := d AND NOT D_AP_RO)\<rparr>))"

section \<open>Whose address is it\<close>

text \<open>The slot of the leaf and the size it maps; \<open>None\<close> is the null pointer.\<close>

definition walk_to_leaf :: "u64 \<Rightarrow> u64 \<Rightarrow> pmm \<Rightarrow> (u64 \<times> u64) option" where
  "walk_to_leaf cur va s =
     (let l1 = mmu_current_user_table_kva cur s
      in if l1 = 0 then None
         else let d1 = pm s (slot_of l1 30 va)
         in if d1 AND 3 = D_BLOCK then Some (slot_of l1 30 va, push_bit 30 1)
         else if d1 AND 3 \<noteq> D_TABLE then None
         else let l2 = table_at d1; d2 = pm s (slot_of l2 21 va)
         in if d2 AND 3 = D_BLOCK then Some (slot_of l2 21 va, push_bit 21 1)
         else if d2 AND 3 \<noteq> D_TABLE then None
         else let l3 = table_at d2; slot = slot_of l3 12 va
         in if pm s slot AND 3 \<noteq> D_PAGE then None
         else Some (slot, 4096))"

definition USER_LIMIT :: u64 where "USER_LIMIT = push_bit 39 1"

fun vm_ok_loop :: "nat \<Rightarrow> u64 \<Rightarrow> u64 \<Rightarrow> u64 \<Rightarrow> bool \<Rightarrow> pmm \<Rightarrow> (bool \<times> pmm) option" where
  "vm_ok_loop 0 cur p e write s = None"
| "vm_ok_loop (Suc fuel) cur p e write s =
     (if \<not> p < e then Some (True, s)
      else case walk_to_leaf cur p s of
        None \<Rightarrow> Some (False, s)
      | Some (slot, sz) \<Rightarrow>
          let d = pm s slot
          in if d AND D_VALID = 0 then Some (False, s)
             else if d AND D_AP_EL0 = 0 then Some (False, s)
             else if write \<and> d AND D_AP_RO \<noteq> 0 then
               let (r, s1) = vm_cow_fault cur p s
               in if r \<noteq> 0 then Some (False, s1)
                  else if pm s1 slot AND D_AP_RO \<noteq> 0 then Some (False, s1)
                  else vm_ok_loop fuel cur ((p AND NOT (sz - 1)) + sz) e write s1
             else vm_ok_loop fuel cur ((p AND NOT (sz - 1)) + sz) e write s)"

definition vm_user_ok :: "u64 \<Rightarrow> u64 \<Rightarrow> u64 \<Rightarrow> bool \<Rightarrow> pmm \<Rightarrow> (bool \<times> pmm) option" where
  "vm_user_ok cur va len write s =
     (if len = 0 then Some (True, s)
      else if va + len < va then Some (False, s)
      else if va \<ge> USER_LIMIT \<or> va + len > USER_LIMIT then Some (False, s)
      else vm_ok_loop (2 ^ 27 + 1) cur (va AND NOT 4095) (va + len) write s)"

text \<open>
  The byte the kernel reads through a user address: the translation the processor makes, and the byte of
  the word behind it. \<open>None\<close> is a fault at EL1.
\<close>

definition user_byte :: "u64 \<Rightarrow> u64 \<Rightarrow> pmm \<Rightarrow> u8 option" where
  "user_byte cur a s =
     (case walk_to_leaf cur a s of
        None \<Rightarrow> None
      | Some (slot, sz) \<Rightarrow>
          let d = pm s slot; pa = (d AND ADDR_MASK AND NOT (sz - 1)) + (a AND (sz - 1))
          in Some (byte_of (pm s (phys_to_kva (pa AND NOT 7))) (unat (pa AND 7))))"

datatype scan = Fault | Found nat | Scanned nat

text \<open>The inner loop of \<open>vm_user_strlen\<close>: at most \<open>n\<close> bytes are left in the page.\<close>

fun scan_page :: "nat \<Rightarrow> u64 \<Rightarrow> u64 \<Rightarrow> nat \<Rightarrow> nat \<Rightarrow> pmm \<Rightarrow> scan" where
  "scan_page 0 cur a i lim s = Scanned i"
| "scan_page (Suc n) cur a i lim s =
     (if \<not> i < lim then Scanned i
      else case user_byte cur a s of
        None \<Rightarrow> Fault
      | Some b \<Rightarrow> if b = 0 then Found i else scan_page n cur (a + 1) (Suc i) lim s)"

fun vm_strlen_loop :: "nat \<Rightarrow> u64 \<Rightarrow> u64 \<Rightarrow> nat \<Rightarrow> nat \<Rightarrow> pmm \<Rightarrow> (nat option) option" where
  "vm_strlen_loop 0 cur va i lim s = None"
| "vm_strlen_loop (Suc fuel) cur va i lim s =
     (if \<not> i < lim then Some None
      else let page = (va + of_nat i) AND NOT 4095
        in case vm_user_ok cur page 1 False s of
          None \<Rightarrow> None
        | Some (ok, s') \<Rightarrow>
            if \<not> ok then Some None
            else case scan_page (unat (page + 4096 - (va + of_nat i))) cur (va + of_nat i) i lim s' of
              Fault \<Rightarrow> None
            | Found j \<Rightarrow> Some (Some j)
            | Scanned j \<Rightarrow> vm_strlen_loop fuel cur va j lim s')"

text \<open>\<open>Some (Some n)\<close> is the length, \<open>Some None\<close> the value -1, \<open>None\<close> a fault or no return.\<close>

definition vm_user_strlen :: "u64 \<Rightarrow> u64 \<Rightarrow> u64 \<Rightarrow> pmm \<Rightarrow> (nat option) option" where
  "vm_user_strlen cur va lim s =
     (if va \<ge> USER_LIMIT then Some None else vm_strlen_loop (Suc (unat lim)) cur va 0 (unat lim) s)"

section \<open>Whole spaces\<close>

definition vm_new_space :: "pmm \<Rightarrow> u64 \<times> pmm" where
  "vm_new_space s =
     (let (l1, s1) = alloc_page s
      in if l1 = 0 then (0, s1) else (l1, s1\<lparr>pm := fill_table (pm s1) l1 (\<lambda>_. 0)\<rparr>))"

definition cow_share :: "u64 \<Rightarrow> pmm \<Rightarrow> u64 \<times> pmm" where
  "cow_share slot s =
     (let d = pm s slot; s1 = s\<lparr>pm := (pm s)(slot := d OR D_AP_RO)\<rparr>; s2 = page_ref s1 (d AND ADDR_MASK)
      in (pm s2 slot, s2))"

fun copy_l3 :: "u64 \<Rightarrow> nat \<Rightarrow> nat \<Rightarrow> u64 \<Rightarrow> nat list \<Rightarrow> pmm \<Rightarrow> bool \<times> pmm" where
  "copy_l3 dst i1 i2 l3 [] s = (True, s)"
| "copy_l3 dst i1 i2 l3 (i3 # is) s =
     (let d = pm s (l3 + 8 * of_nat i3)
      in if d AND 3 \<noteq> D_PAGE then copy_l3 dst i1 i2 l3 is s
         else let va = push_bit 30 (of_nat i1) OR push_bit 21 (of_nat i2) OR push_bit 12 (of_nat i3);
                  (shared, s1) = cow_share (l3 + 8 * of_nat i3) s;
                  (r, s2) = map_user_page_raw dst va shared s1
              in if r \<noteq> 0 then (False, s2) else copy_l3 dst i1 i2 l3 is s2)"

fun copy_l2 :: "u64 \<Rightarrow> nat \<Rightarrow> u64 \<Rightarrow> nat list \<Rightarrow> pmm \<Rightarrow> bool \<times> pmm" where
  "copy_l2 dst i1 l2 [] s = (True, s)"
| "copy_l2 dst i1 l2 (i2 # is) s =
     (let d = pm s (l2 + 8 * of_nat i2)
      in if d AND 3 \<noteq> D_TABLE then copy_l2 dst i1 l2 is s
         else let (ok, s1) = copy_l3 dst i1 i2 (table_at d) [0..<512] s
              in if \<not> ok then (False, s1) else copy_l2 dst i1 l2 is s1)"

fun copy_l1 :: "u64 \<Rightarrow> u64 \<Rightarrow> nat list \<Rightarrow> pmm \<Rightarrow> bool \<times> pmm" where
  "copy_l1 dst src [] s = (True, s)"
| "copy_l1 dst src (i1 # is) s =
     (let d = pm s (src + 8 * of_nat i1)
      in if d AND 3 \<noteq> D_TABLE then copy_l1 dst src is s
         else let (ok, s1) = copy_l2 dst i1 (table_at d) [0..<512] s
              in if \<not> ok then (False, s1) else copy_l1 dst src is s1)"

definition vm_copy_space :: "u64 \<Rightarrow> pmm \<Rightarrow> u64 \<times> pmm" where
  "vm_copy_space src s =
     (let (dst, s1) = vm_new_space s
      in if dst = 0 then (0, s1)
         else let (ok, s2) = copy_l1 dst src [0..<512] s1 in (if ok then dst else 0, s2))"

fun free_l3 :: "u64 \<Rightarrow> nat list \<Rightarrow> pmm \<Rightarrow> pmm" where
  "free_l3 l3 [] s = s"
| "free_l3 l3 (i # is) s =
     (let d = pm s (l3 + 8 * of_nat i)
      in if d AND 3 = D_PAGE then
           let pa = d AND ADDR_MASK; (left, s1) = page_unref s pa
           in free_l3 l3 is (if left = 0 then free_page s1 (phys_to_kva pa) else s1)
         else free_l3 l3 is s)"

fun free_l2 :: "u64 \<Rightarrow> nat list \<Rightarrow> pmm \<Rightarrow> pmm" where
  "free_l2 l2 [] s = s"
| "free_l2 l2 (i # is) s =
     (let d = pm s (l2 + 8 * of_nat i)
      in if d AND 3 \<noteq> D_TABLE then free_l2 l2 is s
         else free_l2 l2 is (free_page (free_l3 (table_at d) [0..<512] s) (table_at d)))"

fun free_l1 :: "u64 \<Rightarrow> nat list \<Rightarrow> pmm \<Rightarrow> pmm" where
  "free_l1 t [] s = s"
| "free_l1 t (i # is) s =
     (let d = pm s (t + 8 * of_nat i)
      in if d AND 3 \<noteq> D_TABLE then free_l1 t is s
         else free_l1 t is (free_page (free_l2 (table_at d) [0..<512] s) (table_at d)))"

definition vm_free_space :: "u64 \<Rightarrow> pmm \<Rightarrow> pmm" where
  "vm_free_space l1_kva s =
     (if l1_kva = 0 then s else free_page (free_l1 l1_kva [0..<512] s) l1_kva)"

section \<open>The walk\<close>

lemma push_one_minus_1: "push_bit k 1 - 1 = (mask k :: 'a::len word)"
  by (simp add: mask_eq_exp_minus_1)

lemma slot_of_cong: "drop_bit k a = drop_bit k p \<Longrightarrow> k \<le> j \<Longrightarrow> slot_of tbl j a = slot_of tbl j (p :: u64)"
  by (metis drop_bit_drop_bit le_add_diff_inverse2 slot_of_def)

lemma walk_same:
  assumes "walk_to_leaf cur p s = Some (slot, sz)"
  shows "\<exists>k \<in> {12, 21, 30}. sz = push_bit k 1 \<and>
     (\<forall>a. drop_bit k a = drop_bit k p \<longrightarrow> walk_to_leaf cur a s = Some (slot, sz))"
proof -
  define t where "t = mmu_current_user_table_kva cur s"
  define d1 where "d1 = pm s (slot_of t 30 p)"
  define d2 where "d2 = pm s (slot_of (table_at d1) 21 p)"
  have s12: "(4096 :: u64) = push_bit 12 1" by simp
  consider (l1) "sz = push_bit 30 1" "d1 AND 3 = D_BLOCK" | (l2) "sz = push_bit 21 1" "d1 AND 3 \<noteq> D_BLOCK"
      "d2 AND 3 = D_BLOCK" | (l3) "sz = push_bit 12 1" "d1 AND 3 \<noteq> D_BLOCK" "d2 AND 3 \<noteq> D_BLOCK"
    using assms unfolding walk_to_leaf_def Let_def t_def [symmetric] d1_def [symmetric] d2_def [symmetric] s12
    by (auto split: if_splits)
  then show ?thesis
  proof cases
    case l1
    have "walk_to_leaf cur a s = Some (slot, sz)" if "drop_bit 30 a = drop_bit 30 p" for a
      using assms l1 slot_of_cong [OF that, of 30]
      unfolding walk_to_leaf_def Let_def t_def [symmetric] by (auto simp: d1_def split: if_splits)
    then show ?thesis using l1 by blast
  next
    case l2
    have "walk_to_leaf cur a s = Some (slot, sz)" if "drop_bit 21 a = drop_bit 21 p" for a
      using assms l2 slot_of_cong [OF that, of 30] slot_of_cong [OF that, of 21]
      unfolding walk_to_leaf_def Let_def t_def [symmetric] by (auto simp: d1_def d2_def split: if_splits)
    then show ?thesis using l2 by blast
  next
    case l3
    have "walk_to_leaf cur a s = Some (slot, sz)" if "drop_bit 12 a = drop_bit 12 p" for a
      using assms l3 slot_of_cong [OF that, of 30] slot_of_cong [OF that, of 21] slot_of_cong [OF that, of 12]
      unfolding walk_to_leaf_def Let_def t_def [symmetric] by (auto simp: d1_def d2_def split: if_splits)
    then show ?thesis using l3 by blast
  qed
qed

text \<open>Where the loop goes next, in numbers: to the next multiple of the size of the leaf.\<close>

lemma next_leaf:
  assumes "k \<le> 30" "unat p < 2 ^ 40"
  shows "unat ((p AND NOT (push_bit k 1 - 1)) + push_bit k 1 :: u64) = (unat p div 2 ^ k + 1) * 2 ^ k"
proof -
  have one: "unat (push_bit k 1 :: u64) = 2 ^ k"
    using assms(1) power_increasing [of k 30 "2 :: nat"] unat_of_nat_eq [of "2 ^ k", where 'a = 64]
    by simp
  have "(2 :: nat) ^ k \<le> 2 ^ 30" using assms(1) by (intro power_increasing) simp_all
  moreover have "unat p div 2 ^ k * 2 ^ k \<le> unat p" by (rule div_times_less_eq_dividend)
  ultimately have "unat p div 2 ^ k * 2 ^ k + 2 ^ k \<le> unat p + 2 ^ 30" by (rule add_mono [rotated])
  then have "unat p div 2 ^ k * 2 ^ k + 2 ^ k < 2 ^ 64" using assms(2) by simp
  then show ?thesis
    unfolding push_one_minus_1
    using one by (subst unat_add_no_wrap) (simp_all add: unat_and_not_mask)
qed

lemma leaf_step:
  assumes "walk_to_leaf cur p s = Some (slot, sz)" "unat p < 2 ^ 40" "unat p mod 4096 = 0"
  shows "unat p + 4096 \<le> unat ((p AND NOT (sz - 1)) + sz)"
    and "unat ((p AND NOT (sz - 1)) + sz) \<le> unat p + 2 ^ 30"
    and "unat ((p AND NOT (sz - 1)) + sz) mod 4096 = 0"
    and "\<forall>a. p \<le> a \<and> unat a < unat ((p AND NOT (sz - 1)) + sz) \<longrightarrow> walk_to_leaf cur a s = Some (slot, sz)"
proof -
  obtain k where k: "k \<in> {12, 21, 30}" "sz = push_bit k 1"
    "\<forall>a. drop_bit k a = drop_bit k p \<longrightarrow> walk_to_leaf cur a s = Some (slot, sz)"
    using walk_same [OF assms(1)] by blast
  let ?n = "(p AND NOT (sz - 1)) + sz" and ?q = "unat p div 2 ^ k"
  have n: "unat ?n = (?q + 1) * 2 ^ k"
    unfolding k(2) by (rule next_leaf) (use k(1) assms(2) in auto)
  have "2 ^ k = (4096 :: nat) * 2 ^ (k - 12)" using k(1) by auto
  then show m: "unat ?n mod 4096 = 0" by (simp add: n)
  have lt: "unat p < unat ?n"
    using dividend_less_times_div [of "2 ^ k" "unat p"] unfolding n by (simp add: algebra_simps)
  show "unat p + 4096 \<le> unat ?n"
  proof -
    obtain a b where ab: "unat p = 4096 * a" "unat ?n = 4096 * b"
      using assms(3) m by (auto simp: mod_eq_0_iff_dvd dvd_def)
    then have "a < b" using lt by simp
    then show ?thesis using ab by simp
  qed
  have "(2 :: nat) ^ k \<le> 2 ^ 30" using k(1) by auto
  then have "?q * 2 ^ k + 2 ^ k \<le> unat p + 2 ^ 30"
    by (intro add_mono div_times_less_eq_dividend)
  then show "unat ?n \<le> unat p + 2 ^ 30" unfolding n by (simp add: algebra_simps)
  show "\<forall>a. p \<le> a \<and> unat a < unat ?n \<longrightarrow> walk_to_leaf cur a s = Some (slot, sz)"
  proof (intro allI impI)
    fix a assume a: "p \<le> a \<and> unat a < unat ?n"
    then have "unat p \<le> unat a" and lt': "unat a < (?q + 1) * 2 ^ k"
      using n by (simp_all add: word_le_nat_alt)
    then have "?q * 2 ^ k \<le> unat a" by (intro le_trans [OF div_times_less_eq_dividend])
    then have "unat a div 2 ^ k = ?q" using lt' by (intro div_nat_eqI) (simp_all add: mult.commute)
    then have "drop_bit k a = drop_bit k p" by (simp add: word_unat_eq_iff unat_drop_bit)
    then show "walk_to_leaf cur a s = Some (slot, sz)" using k(3) by blast
  qed
qed

lemma vm_ok_loop_returns:
  "unat p mod 4096 = 0 \<Longrightarrow> unat p \<le> 2 ^ 39 + 2 ^ 30 \<Longrightarrow> unat e \<le> 2 ^ 39 \<Longrightarrow> 2 ^ 39 + 4096 \<le> unat p + 4096 * fuel \<Longrightarrow>
   0 < fuel \<Longrightarrow> \<exists>r. vm_ok_loop fuel cur p e write s = Some r"
proof (induction fuel arbitrary: p s)
  case 0
  then show ?case by simp
next
  case (Suc fuel)
  have ih: "\<exists>r. vm_ok_loop fuel cur ((p AND NOT (sz - 1)) + sz) e write s' = Some r"
    if "walk_to_leaf cur p s = Some (slot, sz)" "p < e" for slot sz s'
  proof (rule Suc.IH)
    have p: "unat p < 2 ^ 39" using that(2) Suc.prems(3) by (simp add: word_less_nat_alt)
    note l = leaf_step [OF that(1) _ Suc.prems(1)]
    show "unat ((p AND NOT (sz - 1)) + sz) mod 4096 = 0"
      "unat ((p AND NOT (sz - 1)) + sz) \<le> 2 ^ 39 + 2 ^ 30"
      "2 ^ 39 + 4096 \<le> unat ((p AND NOT (sz - 1)) + sz) + 4096 * fuel" "0 < fuel"
      using l p Suc.prems(4) by simp_all
  qed (rule Suc.prems(3))
  show ?case
    using ih by (auto simp: Let_def split: option.splits prod.splits)
qed

section \<open>What a range that passed the check guarantees\<close>

text \<open>The processor lets EL0 reach the byte at \<open>a\<close>, and write it when \<open>write\<close> is set.\<close>

definition el0_ok :: "u64 \<Rightarrow> u64 \<Rightarrow> bool \<Rightarrow> pmm \<Rightarrow> bool" where
  "el0_ok cur a write s \<longleftrightarrow>
     (case walk_to_leaf cur a s of None \<Rightarrow> False
      | Some (slot, sz) \<Rightarrow> pm s slot AND D_VALID \<noteq> 0 \<and> pm s slot AND D_AP_EL0 \<noteq> 0 \<and>
          (write \<longrightarrow> pm s slot AND D_AP_RO = 0))"

text \<open>
  A space whose tables form three disjoint levels, all of them owned pages. A level 1 entry that is not
  empty leads to level 2, a level 2 entry that is not empty to level 3, no table is entered twice, and there
  are no blocks: this is what \<open>map_user_page\<close> builds from an empty space.
\<close>

definition wf_space :: "u64 \<Rightarrow> u64 set \<Rightarrow> u64 set \<Rightarrow> u64 set \<Rightarrow> pmm \<Rightarrow> bool" where
  "wf_space t L2 L3 own s \<longleftrightarrow>
     t \<noteq> 0 \<and> insert t (L2 \<union> L3) \<subseteq> own \<and> t \<notin> L2 \<and> t \<notin> L3 \<and> L2 \<inter> L3 = {} \<and>
     (\<forall>i < 512. let d = pm s (t + 8 * of_nat i) in d = 0 \<or> d AND 3 = D_TABLE \<and> table_at d \<in> L2) \<and>
     (\<forall>l \<in> L2. \<forall>i < 512. let d = pm s (l + 8 * of_nat i) in d = 0 \<or> d AND 3 = D_TABLE \<and> table_at d \<in> L3) \<and>
     (\<forall>i < 512. \<forall>j < 512. let d = pm s (t + 8 * of_nat i); e = pm s (t + 8 * of_nat j)
        in d \<noteq> 0 \<and> e \<noteq> 0 \<and> table_at d = table_at e \<longrightarrow> i = j) \<and>
     (\<forall>l \<in> L2. \<forall>k \<in> L2. \<forall>i < 512. \<forall>j < 512. let d = pm s (l + 8 * of_nat i); e = pm s (k + 8 * of_nat j)
        in d \<noteq> 0 \<and> e \<noteq> 0 \<and> table_at d = table_at e \<longrightarrow> l = k \<and> i = j)"

lemma slot_of_nat: "\<exists>i < 512. slot_of t j va = t + 8 * of_nat i"
proof -
  have m: "(511 :: u64) = mask 9" by (simp add: mask_eq_exp_minus_1)
  define i where "i = unat (drop_bit j va AND 511)"
  have "i < 512" unfolding i_def m take_bit_eq_mask [symmetric] unat_take_bit by simp
  moreover have "slot_of t j va = t + 8 * of_nat i" by (simp add: slot_of_def i_def)
  ultimately show ?thesis by blast
qed

text \<open>A word of a page, for reasoning about which writes can touch which tables.\<close>

definition word_in :: "u64 \<Rightarrow> u64 \<Rightarrow> bool" where
  "word_in p a \<longleftrightarrow> (\<exists>i < 512. a = p + 8 * of_nat i)"

lemma slot_word_in [simp]: "word_in t (slot_of t j va)"
  using slot_of_nat by (simp add: word_in_def)

lemma word_in_unique: "aligned p \<Longrightarrow> aligned q \<Longrightarrow> word_in p a \<Longrightarrow> word_in q a \<Longrightarrow> p = q"
  unfolding word_in_def using page_word_eq_iff by blast

lemma wf_space_levels:
  assumes "wf_space t L2 L3 own s"
  shows "word_in t a \<Longrightarrow> pm s a = 0 \<or> pm s a AND 3 = D_TABLE \<and> table_at (pm s a) \<in> L2"
    and "l \<in> L2 \<Longrightarrow> word_in l a \<Longrightarrow> pm s a = 0 \<or> pm s a AND 3 = D_TABLE \<and> table_at (pm s a) \<in> L3"
  using assms unfolding wf_space_def word_in_def Let_def by blast+

lemma wf_space_inj:
  assumes "wf_space t L2 L3 own s"
  shows "word_in t a \<Longrightarrow> word_in t b \<Longrightarrow> pm s a \<noteq> 0 \<Longrightarrow> pm s b \<noteq> 0 \<Longrightarrow> table_at (pm s a) = table_at (pm s b) \<Longrightarrow> a = b"
    and "l \<in> L2 \<Longrightarrow> k \<in> L2 \<Longrightarrow> word_in l a \<Longrightarrow> word_in k b \<Longrightarrow> pm s a \<noteq> 0 \<Longrightarrow> pm s b \<noteq> 0 \<Longrightarrow>
      table_at (pm s a) = table_at (pm s b) \<Longrightarrow> a = b"
  using assms unfolding wf_space_def word_in_def Let_def by blast+

text \<open>The same conditions over words instead of indices.\<close>

lemma wf_spaceI:
  assumes "t \<noteq> 0" "insert t (L2 \<union> L3) \<subseteq> own" "t \<notin> L2" "t \<notin> L3" "L2 \<inter> L3 = {}" "\<forall>p \<in> own. aligned p"
    and "\<And>a. word_in t a \<Longrightarrow> pm s a = 0 \<or> pm s a AND 3 = D_TABLE \<and> table_at (pm s a) \<in> L2"
    and "\<And>l a. l \<in> L2 \<Longrightarrow> word_in l a \<Longrightarrow> pm s a = 0 \<or> pm s a AND 3 = D_TABLE \<and> table_at (pm s a) \<in> L3"
    and "\<And>a b. word_in t a \<Longrightarrow> word_in t b \<Longrightarrow> pm s a \<noteq> 0 \<Longrightarrow> pm s b \<noteq> 0 \<Longrightarrow>
      table_at (pm s a) = table_at (pm s b) \<Longrightarrow> a = b"
    and "\<And>l k a b. l \<in> L2 \<Longrightarrow> k \<in> L2 \<Longrightarrow> word_in l a \<Longrightarrow> word_in k b \<Longrightarrow> pm s a \<noteq> 0 \<Longrightarrow> pm s b \<noteq> 0 \<Longrightarrow>
      table_at (pm s a) = table_at (pm s b) \<Longrightarrow> a = b"
  shows "wf_space t L2 L3 own s"
proof -
  have wi: "word_in p (p + 8 * of_nat i)" if "i < 512" for p i using that by (auto simp: word_in_def)
  have al: "aligned t" "l \<in> L2 \<Longrightarrow> aligned l" for l using assms(2,6) by auto
  show ?thesis unfolding wf_space_def Let_def
  proof (intro conjI allI ballI impI)
    fix i j assume "i < 512" "j < 512" and "pm s (t + 8 * of_nat i) \<noteq> 0 \<and> pm s (t + 8 * of_nat j) \<noteq> 0 \<and>
      table_at (pm s (t + 8 * of_nat i)) = table_at (pm s (t + 8 * of_nat j))"
    then have "t + 8 * of_nat i = t + 8 * of_nat j" using assms(9) wi by blast
    then show "i = j" using page_word_eq_iff [OF al(1) al(1)] \<open>i < 512\<close> \<open>j < 512\<close> by blast
  next
    fix l k i j assume lk: "l \<in> L2" "k \<in> L2" "i < 512" "j < 512" and "pm s (l + 8 * of_nat i) \<noteq> 0 \<and>
      pm s (k + 8 * of_nat j) \<noteq> 0 \<and> table_at (pm s (l + 8 * of_nat i)) = table_at (pm s (k + 8 * of_nat j))"
    then have "l + 8 * of_nat i = k + 8 * of_nat j" using assms(10) wi by blast
    then show "l = k" "i = j" using page_word_eq_iff [OF al(2) al(2)] lk by blast+
  next
    fix i :: nat assume "i < 512"
    then show "pm s (t + 8 * of_nat i) = 0 \<or>
        pm s (t + 8 * of_nat i) AND 3 = D_TABLE \<and> table_at (pm s (t + 8 * of_nat i)) \<in> L2"
      by (intro assms(7) wi)
  next
    fix l and i :: nat assume "l \<in> L2" "i < 512"
    then show "pm s (l + 8 * of_nat i) = 0 \<or>
        pm s (l + 8 * of_nat i) AND 3 = D_TABLE \<and> table_at (pm s (l + 8 * of_nat i)) \<in> L3"
      using assms(8) [of l "l + 8 * of_nat i"] wi [of i l] by blast
  qed (use assms(1-5) in simp_all)
qed

text \<open>A change of memory that leaves levels 1 and 2 alone leaves the space well formed and its walks as they were.\<close>

lemma wf_space_frame:
  assumes "wf_space t L2 L3 own s" and "\<And>p a. p \<in> insert t L2 \<Longrightarrow> word_in p a \<Longrightarrow> pm s' a = pm s a" and "own \<subseteq> own'"
  shows "wf_space t L2 L3 own' s'"
proof -
  have "pm s' (p + 8 * of_nat i) = pm s (p + 8 * of_nat i)" if "p \<in> insert t L2" "i < 512" for p i
    using assms(2) that by (auto simp: word_in_def)
  then show ?thesis using assms(1,3) unfolding wf_space_def Let_def by (auto simp: subset_iff)
qed

text \<open>In a well-formed space the only leaves are pages of level 3.\<close>

lemma walk_wf:
  assumes "wf_space t L2 L3 own s" "t = mmu_current_user_table_kva cur s"
  shows "walk_to_leaf cur va s =
     (let d1 = pm s (slot_of t 30 va); d2 = pm s (slot_of (table_at d1) 21 va);
          slot = slot_of (table_at d2) 12 va
      in if d1 \<noteq> 0 \<and> d2 \<noteq> 0 \<and> pm s slot AND 3 = D_PAGE then Some (slot, 4096) else None)"
    and "pm s (slot_of t 30 va) \<noteq> 0 \<Longrightarrow> table_at (pm s (slot_of t 30 va)) \<in> L2"
    and "pm s (slot_of t 30 va) \<noteq> 0 \<Longrightarrow> pm s (slot_of (table_at (pm s (slot_of t 30 va))) 21 va) \<noteq> 0 \<Longrightarrow>
      table_at (pm s (slot_of (table_at (pm s (slot_of t 30 va))) 21 va)) \<in> L3"
proof -
  note l1 = wf_space_levels(1) [OF assms(1), of "slot_of t 30 va"]
  show l2: "pm s (slot_of t 30 va) \<noteq> 0 \<Longrightarrow> table_at (pm s (slot_of t 30 va)) \<in> L2" using l1 by simp
  note l3 = wf_space_levels(2) [OF assms(1) l2, of "slot_of (table_at (pm s (slot_of t 30 va))) 21 va"]
  then show "pm s (slot_of t 30 va) \<noteq> 0 \<Longrightarrow> pm s (slot_of (table_at (pm s (slot_of t 30 va))) 21 va) \<noteq> 0 \<Longrightarrow>
      table_at (pm s (slot_of (table_at (pm s (slot_of t 30 va))) 21 va)) \<in> L3" by simp
  have "t \<noteq> 0" using assms(1) by (simp add: wf_space_def)
  then show "walk_to_leaf cur va s =
     (let d1 = pm s (slot_of t 30 va); d2 = pm s (slot_of (table_at d1) 21 va);
          slot = slot_of (table_at d2) 12 va
      in if d1 \<noteq> 0 \<and> d2 \<noteq> 0 \<and> pm s slot AND 3 = D_PAGE then Some (slot, 4096) else None)"
    using l1 l3 unfolding walk_to_leaf_def Let_def assms(2) [symmetric]
    by (cases "pm s (slot_of t 30 va) = 0";
        cases "pm s (slot_of (table_at (pm s (slot_of t 30 va))) 21 va) = 0") (auto simp: D_BLOCK_def D_TABLE_def)
qed

section \<open>Copy-on-write keeps the space well formed\<close>

lemma copy_page_other: "\<not> word_in d a \<Longrightarrow> copy_page m d s a = m a"
  unfolding copy_page_def word_in_def by (rule fold_upd_other) auto

lemma fold_copy_at:
  assumes "\<And>i j. i < n \<Longrightarrow> j < n \<Longrightarrow> f i \<noteq> g j" and "inj_on f {0..<n}"
  shows "i < n \<Longrightarrow> fold (\<lambda>i m. m(f i := m (g i))) [0..<n] m (f i) = m (g i)"
  using assms
proof (induction n)
  case 0
  then show ?case by simp
next
  case (Suc n)
  have inj: "inj_on f {0..<n}" using Suc.prems(3) by (rule inj_on_subset) auto
  have src: "fold (\<lambda>i m. m(f i := m (g i))) [0..<n] m (g n) = m (g n)"
  proof (rule fold_upd_other)
    show "g n \<notin> f ` set [0..<n]"
    proof
      assume "g n \<in> f ` set [0..<n]"
      then obtain j where "j < n" "f j = g n" by auto
      then show False using Suc.prems(2) [of j n] by simp
    qed
  qed
  show ?case
  proof (cases "i = n")
    case True
    then show ?thesis using src by (simp add: fun_upd_same del: fun_upd_apply)
  next
    case False
    then have "i < n" "f i \<noteq> f n" using Suc.prems by (auto simp: inj_on_def)
    then show ?thesis using Suc.IH [OF _ _ inj] Suc.prems(2) by (simp add: fun_upd_other del: fun_upd_apply)
  qed
qed

lemma copy_page_at:
  assumes "aligned d" "aligned s" "d \<noteq> s" "i < 512"
  shows "copy_page m d s (d + 8 * of_nat i) = m (s + 8 * of_nat i)"
  unfolding copy_page_def
  by (rule fold_copy_at [OF _ page_words_inj [OF assms(1)] assms(4)]) (use assms page_word_eq_iff in blast)

lemma copy_page_inv:
  assumes "pmm_inv s own fl" "d \<in> own"
  shows "pmm_inv (s\<lparr>pm := copy_page (pm s) d src\<rparr>) own fl"
proof -
  have "pmm_inv (s\<lparr>pm := fold (\<lambda>i m. m(d + 8 * of_nat i := m (src + 8 * of_nat i))) [0..<n] (pm s)\<rparr>) own fl"
    if "n \<le> 512" for n
    using that
  proof (induction n)
    case 0
    then show ?case using assms(1) by simp
  next
    case (Suc n)
    then show ?case using store_inv [of "s\<lparr>pm := _\<rparr>" own fl d n] assms(2) by (simp del: fun_upd_apply)
  qed
  then show ?thesis unfolding copy_page_def by blast
qed

lemma and_3_iff: "d AND 3 = 3 \<longleftrightarrow> bit d 0 \<and> bit d (Suc 0)" for d :: u64
proof -
  have "d AND 3 = 3 \<longleftrightarrow> (\<forall>n < 64. n < 2 \<longrightarrow> bit d n)"
    using bit_mask_iff [where 'a = "64 word", of 2]
    by (auto simp: bit_eq_iff bit_and_iff mask_eq_exp_minus_1)
  also have "\<dots> \<longleftrightarrow> bit d 0 \<and> bit d (Suc 0)"
  proof
    assume "\<forall>n < 64. n < 2 \<longrightarrow> bit d n"
    from this [rule_format, of 0] this [rule_format, of "Suc 0"] show "bit d 0 \<and> bit d (Suc 0)" by simp
  qed (auto simp: less_2_cases_iff)
  finally show ?thesis .
qed

lemma bit_ADDR_MASK: "bit ADDR_MASK n \<longleftrightarrow> 12 \<le> n \<and> n < 48"
proof -
  have "ADDR_MASK = mask 48 AND NOT (mask 12)" by (simp add: ADDR_MASK_def mask_eq_exp_minus_1)
  moreover have "bit (mask 48 AND NOT (mask 12) :: u64) n \<longleftrightarrow> 12 \<le> n \<and> n < 48"
    by (auto simp: bit_simps)
  ultimately show ?thesis by (simp only:)
qed

lemma desc_flags:
  "d AND D_AP_EL0 = 0 \<longleftrightarrow> \<not> bit d 6" "d AND D_AP_RO = 0 \<longleftrightarrow> \<not> bit d 7" "d AND D_VALID = 0 \<longleftrightarrow> \<not> bit d 0"
  "d AND 3 = D_PAGE \<longleftrightarrow> bit d 0 \<and> bit d (Suc 0)" "d AND 3 = D_TABLE \<longleftrightarrow> bit d 0 \<and> bit d (Suc 0)"
  "bit D_AP_RO n \<longleftrightarrow> n = 7"
  unfolding D_AP_EL0_def D_AP_RO_def D_VALID_def D_PAGE_def D_TABLE_def and_3_iff bit_push_one
  using bit_iff_and_push_bit_not_eq_0 [of d 6] bit_iff_and_push_bit_not_eq_0 [of d 7]
    bit_iff_and_push_bit_not_eq_0 [of d 0] by auto

lemma leaf_bits:
  fixes d :: u64
  assumes "d AND 3 = D_PAGE" "d AND D_AP_EL0 \<noteq> 0"
  shows "((x AND ADDR_MASK) OR (d AND NOT ADDR_MASK AND NOT D_AP_RO)) AND 3 = D_PAGE"
    "((x AND ADDR_MASK) OR (d AND NOT ADDR_MASK AND NOT D_AP_RO)) AND D_AP_EL0 \<noteq> 0"
    "((x AND ADDR_MASK) OR (d AND NOT ADDR_MASK AND NOT D_AP_RO)) AND D_AP_RO = 0"
    "(d AND NOT D_AP_RO) AND 3 = D_PAGE" "(d AND NOT D_AP_RO) AND D_AP_EL0 \<noteq> 0" "(d AND NOT D_AP_RO) AND D_AP_RO = 0"
  using assms unfolding desc_flags by (simp_all add: bit_or_iff bit_and_iff bit_not_iff desc_flags bit_ADDR_MASK)

lemma page_unref_pm [simp]: "pm (snd (page_unref s pa)) = pm s"
  "l1_user (snd (page_unref s pa)) = l1_user s" "high_half (snd (page_unref s pa)) = high_half s"
  by (simp_all add: page_unref_def split: option.splits)

lemma alloc_page_l1_user: "alloc_page s = (p, s') \<Longrightarrow> l1_user s' = l1_user s \<and> high_half s' = high_half s"
  by (auto simp: alloc_page_def Let_def split: if_splits)

lemma page_unref_inv: "pmm_inv s own fl \<Longrightarrow> pmm_inv (snd (page_unref s pa)) own fl"
  by (auto simp: page_unref_def pmm_inv_refs split: option.splits)

text \<open>
  What a resolved copy-on-write fault does: one leaf slot changes, into a page descriptor that EL0 may
  reach and write; every other word of every owned page stays.
\<close>

lemma vm_cow_fault_effect:
  assumes inv: "pmm_inv s own fl" and wf: "wf_space t L2 L3 own s"
    and t: "t = mmu_current_user_table_kva cur s" and c: "vm_cow_fault cur va s = (0, s')"
  obtains slot l3 own' fl' where "l3 \<in> L3" "word_in l3 slot" "walk_to_leaf cur va s = Some (slot, 4096)"
    "\<forall>p \<in> own. \<forall>a. word_in p a \<longrightarrow> a \<noteq> slot \<longrightarrow> pm s' a = pm s a"
    "pm s' slot AND 3 = D_PAGE" "pm s' slot AND D_AP_EL0 \<noteq> 0" "pm s' slot AND D_AP_RO = 0"
    "own \<subseteq> own'" "pmm_inv s' own' fl'" "mmu_current_user_table_kva cur s' = t"
proof -
  define d1 where "d1 = pm s (slot_of t 30 va)"
  define d2 where "d2 = pm s (slot_of (table_at d1) 21 va)"
  define l3 where "l3 = table_at d2"
  define slot where "slot = slot_of l3 12 va"
  define d where "d = pm s slot"
  note cow = c [unfolded vm_cow_fault_def Let_def t [symmetric], folded d1_def, folded d2_def, folded l3_def,
      folded slot_def, folded d_def]
  have tables: "d1 AND 3 = D_TABLE" "d2 AND 3 = D_TABLE" and leaf: "d AND 3 = D_PAGE" "d AND D_AP_EL0 \<noteq> 0"
    using cow by (auto split: if_splits)
  have nz: "d1 \<noteq> 0" "d2 \<noteq> 0" using tables by (auto simp: D_TABLE_def)
  note w = walk_wf [OF wf t, of va, folded d1_def, folded d2_def, folded l3_def]
  have l3: "l3 \<in> L3" "word_in l3 slot" using w(3) nz by (simp_all add: slot_def)
  have walk: "walk_to_leaf cur va s = Some (slot, 4096)"
    using nz leaf(1) unfolding walk_wf(1) [OF wf t, of va, unfolded Let_def, folded d1_def, folded d2_def,
        folded l3_def, folded slot_def, folded d_def] by simp
  have own: "l3 \<in> own" using l3(1) wf by (auto simp: wf_space_def)
  obtain i where i: "i < 512" "slot = l3 + 8 * of_nat i" using l3(2) by (auto simp: word_in_def)
  show thesis
  proof (cases "page_count s (d AND ADDR_MASK) > 1")
    case False
    then have s': "s' = s\<lparr>pm := (pm s)(slot := d AND NOT D_AP_RO)\<rparr>" using cow by (auto split: if_splits)
    have "pmm_inv s' own fl" unfolding s' i(2) by (rule store_inv [OF inv own i(1)])
    then show thesis
      using that [OF l3 walk, of own fl] leaf_bits(4-6) [OF leaf] t
      by (simp add: s' mmu_current_user_table_kva_def)
  next
    case True
    obtain fresh s1 where a: "alloc_page s = (fresh, s1)" by fastforce
    have f: "fresh \<noteq> 0" using cow True a by (auto split: if_splits)
    note fr = alloc_page_fresh [OF inv a f]
    obtain fl1 where inv1: "pmm_inv s1 (insert fresh own) fl1" using fr(4) by blast
    define s2 where "s2 = s1\<lparr>pm := copy_page (pm s1) fresh (phys_to_kva (d AND ADDR_MASK))\<rparr>"
    define s3 where "s3 = snd (page_unref s2 (d AND ADDR_MASK))"
    have s': "s' = s3\<lparr>pm := (pm s3)(slot :=
        (kva_to_phys s3 fresh AND ADDR_MASK) OR (d AND NOT ADDR_MASK AND NOT D_AP_RO))\<rparr>"
      using cow True a f by (auto simp: s2_def s3_def split: if_splits)
    have "pmm_inv s3 (insert fresh own) fl1"
      unfolding s3_def s2_def by (intro page_unref_inv copy_page_inv inv1) simp
    then have inv': "pmm_inv s' (insert fresh own) fl1"
      unfolding s' i(2) by (rule store_inv) (use own i(1) in simp_all)
    have keep: "pm s' a = pm s a" if "p \<in> own" "word_in p a" "a \<noteq> slot" for p a
    proof -
      have "aligned p" "p \<noteq> fresh" using that(1) inv fr(1) by (auto simp: pmm_inv_def taken_def)
      then have nf: "\<not> word_in fresh a" using word_in_unique that(2) fr(2) by blast
      then have "pm s1 a = pm s a" using fr(5) by (simp add: word_in_def)
      then show ?thesis using that(3) nf by (simp add: s' s3_def s2_def copy_page_other)
    qed
    have "mmu_current_user_table_kva cur s' = t"
      using t alloc_page_l1_user [OF a] by (simp add: s' s3_def s2_def mmu_current_user_table_kva_def)
    then show thesis
      using that [OF l3 walk, of "insert fresh own" fl1] keep leaf_bits(1-3) [OF leaf] inv'
      by (auto simp: s')
  qed
qed

lemma el0_ok_cow:
  assumes inv: "pmm_inv s own fl" and wf: "wf_space t L2 L3 own s"
    and t: "t = mmu_current_user_table_kva cur s" and c: "vm_cow_fault cur va s = (0, s')"
  shows "el0_ok cur a write s \<Longrightarrow> el0_ok cur a write s'"
    and "\<exists>own' fl'. own \<subseteq> own' \<and> pmm_inv s' own' fl' \<and> wf_space t L2 L3 own' s' \<and> t = mmu_current_user_table_kva cur s'"
    and "walk_to_leaf cur a s' = walk_to_leaf cur a s"
proof -
  obtain slot l3 own' fl' where
    l3: "l3 \<in> L3" "word_in l3 slot" and walk: "walk_to_leaf cur va s = Some (slot, 4096)"
    and keep: "\<forall>p \<in> own. \<forall>a. word_in p a \<longrightarrow> a \<noteq> slot \<longrightarrow> pm s' a = pm s a"
    and d: "pm s' slot AND 3 = D_PAGE" "pm s' slot AND D_AP_EL0 \<noteq> 0" "pm s' slot AND D_AP_RO = 0"
    and inv': "own \<subseteq> own'" "pmm_inv s' own' fl'" "mmu_current_user_table_kva cur s' = t"
    by (rule vm_cow_fault_effect [OF assms]) (rule that; assumption)
  have own: "insert t (L2 \<union> L3) \<subseteq> own" and dis: "t \<notin> L3" "L2 \<inter> L3 = {}" using wf by (auto simp: wf_space_def)
  have al: "aligned p" if "p \<in> own" for p using inv that by (auto simp: pmm_inv_def taken_def)
  have up: "pm s' b = pm s b" if "p \<in> insert t L2" "word_in p b" for p b
  proof -
    have "p \<noteq> l3" using that(1) l3(1) dis by auto
    then have "b \<noteq> slot" using word_in_unique [of p l3 b] that own al l3 by blast
    then show ?thesis using keep that own by blast
  qed
  have wf': "wf_space t L2 L3 own' s'" by (rule wf_space_frame [OF wf up inv'(1)])
  then show "\<exists>own' fl'. own \<subseteq> own' \<and> pmm_inv s' own' fl' \<and> wf_space t L2 L3 own' s' \<and> t = mmu_current_user_table_kva cur s'"
    using inv' by metis
  have slotd: "pm s slot AND 3 = D_PAGE"
    using walk unfolding walk_wf(1) [OF wf t] Let_def by (auto split: if_splits)
  have same: "walk_to_leaf cur b s' = walk_to_leaf cur b s" for b
  proof -
    define d1 where "d1 = pm s (slot_of t 30 b)"
    define d2 where "d2 = pm s (slot_of (table_at d1) 21 b)"
    define sl where "sl = slot_of (table_at d2) 12 b"
    have e1: "pm s' (slot_of t 30 b) = d1" unfolding d1_def by (rule up [of t]) simp_all
    have e2: "pm s' (slot_of (table_at d1) 21 b) = d2" if "d1 \<noteq> 0"
      unfolding d2_def by (rule up [of "table_at d1"]) (use walk_wf(2) [OF wf t, of b] that in \<open>simp_all add: d1_def\<close>)
    have e3: "pm s' sl AND 3 = D_PAGE \<longleftrightarrow> pm s sl AND 3 = D_PAGE" if "d1 \<noteq> 0" "d2 \<noteq> 0"
    proof (cases "sl = slot")
      case True
      then show ?thesis using d(1) slotd by simp
    next
      case False
      have "table_at d2 \<in> L3" using walk_wf(3) [OF wf t, of b] that by (simp add: d1_def d2_def)
      then have "pm s' sl = pm s sl" using keep own False slot_word_in by (auto simp: sl_def)
      then show ?thesis by simp
    qed
    show ?thesis
      unfolding walk_wf(1) [OF wf' inv'(3) [symmetric]] walk_wf(1) [OF wf t] Let_def e1 d1_def [symmetric]
        d2_def [symmetric] sl_def [symmetric] using e2 e3 sl_def by auto
  qed
  show "walk_to_leaf cur a s' = walk_to_leaf cur a s" by (rule same)
  assume ok: "el0_ok cur a write s"
  then obtain sl sz where sl: "walk_to_leaf cur a s = Some (sl, sz)"
    "pm s sl AND D_VALID \<noteq> 0" "pm s sl AND D_AP_EL0 \<noteq> 0" "write \<longrightarrow> pm s sl AND D_AP_RO = 0"
    by (auto simp: el0_ok_def split: option.splits)
  have "pm s' slot AND D_VALID \<noteq> 0" using d(1) by (simp add: desc_flags)
  moreover have "pm s' sl = pm s sl" if "sl \<noteq> slot"
  proof -
    from sl(1) have "\<exists>l \<in> L3. word_in l sl"
      unfolding walk_wf(1) [OF wf t] Let_def using walk_wf(3) [OF wf t, of a]
      by (auto split: if_splits intro!: bexI slot_word_in)
    then show ?thesis using keep own that by blast
  qed
  ultimately show "el0_ok cur a write s'"
    using sl d same [of a] by (cases "sl = slot") (simp_all add: el0_ok_def)
qed

lemma vm_ok_loop_sound:
  assumes "vm_ok_loop fuel cur p e write s = Some (True, s')"
    and "unat p mod 4096 = 0" "unat e \<le> 2 ^ 39" "unat p < 2 ^ 40"
    and "write \<longrightarrow> (\<exists>fl. pmm_inv s own fl) \<and> wf_space t L2 L3 own s \<and> t = mmu_current_user_table_kva cur s"
  shows "(\<not> write \<longrightarrow> s' = s) \<and> (\<forall>a. el0_ok cur a write s \<longrightarrow> el0_ok cur a write s') \<and>
    (\<forall>a. p \<le> a \<and> a < e \<longrightarrow> el0_ok cur a write s')"
  using assms
proof (induction fuel arbitrary: p s own)
  case 0
  then show ?case by simp
next
  case (Suc fuel)
  show ?case
  proof (cases "p < e")
    case False
    then show ?thesis using Suc.prems(1) by auto
  next
    case pe: True
    obtain slot sz where walk: "walk_to_leaf cur p s = Some (slot, sz)"
      using Suc.prems(1) pe by (auto split: option.splits)
    let ?n = "(p AND NOT (sz - 1)) + sz"
    have p40: "unat p < 2 ^ 39" using pe Suc.prems(3) by (simp add: word_less_nat_alt)
    note step = leaf_step [OF walk Suc.prems(4,2)]
    have d: "pm s slot AND D_VALID \<noteq> 0" "pm s slot AND D_AP_EL0 \<noteq> 0"
      using Suc.prems(1) pe walk by (auto simp: Let_def split: if_splits)
    have n40: "unat ?n < 2 ^ 40" using step(2) p40 by simp
    have ran: "\<forall>a. p \<le> a \<and> a < e \<longrightarrow> a < ?n \<or> ?n \<le> a" by auto
    show ?thesis
    proof (cases "write \<and> pm s slot AND D_AP_RO \<noteq> 0")
      case False
      then have rest: "vm_ok_loop fuel cur ?n e write s = Some (True, s')"
        using Suc.prems(1) pe walk d by (auto simp: Let_def)
      note ih = Suc.IH [OF rest step(3) Suc.prems(3) n40 Suc.prems(5)]
      have "el0_ok cur a write s" if "p \<le> a" "a < ?n" for a
        using step(4) that d False by (auto simp: el0_ok_def word_less_nat_alt)
      then show ?thesis using ih not_less by blast
    next
      case True
      obtain s1 where cow: "vm_cow_fault cur p s = (0, s1)" and ro: "pm s1 slot AND D_AP_RO = 0"
        and rest: "vm_ok_loop fuel cur ?n e write s1 = Some (True, s')"
        using Suc.prems(1) pe walk d True by (auto simp: Let_def split: if_splits prod.splits)
      obtain fl where hyp: "pmm_inv s own fl" "wf_space t L2 L3 own s" "t = mmu_current_user_table_kva cur s"
        using Suc.prems(5) True by blast
      note eff = el0_ok_cow [OF hyp cow]
      obtain own' where next': "write \<longrightarrow> (\<exists>fl. pmm_inv s1 own' fl) \<and> wf_space t L2 L3 own' s1 \<and>
          t = mmu_current_user_table_kva cur s1"
        using eff(2) by metis
      note ih = Suc.IH [OF rest step(3) Suc.prems(3) n40 next']
      have "el0_ok cur p write s1"
      proof -
        obtain sl where
          "walk_to_leaf cur p s = Some (sl, 4096)" "pm s1 sl AND 3 = D_PAGE" "pm s1 sl AND D_AP_EL0 \<noteq> 0"
          using vm_cow_fault_effect [OF hyp cow] by blast
        then show ?thesis using eff(3) [of p] walk ro by (auto simp: el0_ok_def desc_flags)
      qed
      then have "el0_ok cur a write s1" if "p \<le> a" "a < ?n" for a
        using step(4) that eff(3) [of a] eff(3) [of p] walk by (auto simp: el0_ok_def word_less_nat_alt)
      then show ?thesis using ih eff(1) True not_less by blast
    qed
  qed
qed

section \<open>Mapping a page\<close>

text \<open>The descriptor a walk ends at.\<close>

definition leaf :: "u64 \<Rightarrow> u64 \<Rightarrow> pmm \<Rightarrow> u64 option" where
  "leaf cur va s = map_option (\<lambda>(slot, sz). pm s slot) (walk_to_leaf cur va s)"

lemma table_at_desc:
  assumes "high_half s" "taken s p" "unat (free_next s) < 2 ^ 40"
  shows "table_at (kva_to_phys s p OR D_TABLE) = p" "(kva_to_phys s p OR D_TABLE) AND 3 = D_TABLE"
    "kva_to_phys s p OR D_TABLE \<noteq> 0"
proof -
  define x where "x = kva_to_phys s p"
  have x: "x = p - KVA_OFFSET" "unat x < 2 ^ 40" using assms by (auto simp: x_def kva_to_phys_def taken_def word_less_nat_alt)
  have p: "p = x + KVA_OFFSET" by (simp add: x)
  then have "aligned x" using assms(2) aligned_kva_offset by (simp add: taken_def)
  then have "take_bit 12 x = 0" by (simp add: aligned_def take_bit_eq_mask)
  then have low: "bit x n \<Longrightarrow> 12 \<le> n" for n
    by (metis bit_0_eq bit_take_bit_iff bot_apply bot_bool_def leI)
  have "take_bit 40 x = x" using x(2) by (simp add: word_unat_eq_iff unat_take_bit del: take_bit_eq_mod)
  then have high: "bit x n \<Longrightarrow> n < 40" for n by (metis bit_take_bit_iff)
  have three: "bit (3 :: u64) n \<longleftrightarrow> n < 2" for n
    using bit_mask_iff [where 'a = "64 word", of 2 n] by (auto simp: mask_eq_exp_minus_1)
  have "(x OR D_TABLE) AND ADDR_MASK = x"
    unfolding D_TABLE_def
    by (rule bit_word_eqI) (auto simp: bit_or_iff bit_and_iff bit_ADDR_MASK three dest: low high simp del: bit_numeral_word_iff)
  then show "table_at (kva_to_phys s p OR D_TABLE) = p"
    using p unfolding table_at_def phys_to_kva_def x_def [symmetric] by simp
  show t: "(kva_to_phys s p OR D_TABLE) AND 3 = D_TABLE"
    unfolding desc_flags unfolding D_TABLE_def bit_or_iff three by simp
  show "kva_to_phys s p OR D_TABLE \<noteq> 0"
  proof
    assume "kva_to_phys s p OR D_TABLE = 0"
    with t have "0 AND 3 = D_TABLE" by (simp only:)
    then show False by (simp add: D_TABLE_def)
  qed
qed

lemma fill_table_other: "\<not> word_in p a \<Longrightarrow> fill_table m p e a = m a"
  unfolding fill_table_def word_in_def by (rule fold_upd_other) auto

lemma split_empty:
  assumes inv: "pmm_inv s own fl" and hh: "high_half s" and zero: "pm s slot = 0"
    and p: "p \<in> own" "word_in p slot" and sp: "split slot cs s = (tbl, s')" "tbl \<noteq> 0"
  obtains fl' where "pmm_inv s' (insert tbl own) fl'" "tbl \<notin> own" "high_half s'" "l1_user s' = l1_user s"
    "\<forall>a. word_in tbl a \<longrightarrow> pm s' a = 0" "\<forall>a. \<not> word_in tbl a \<longrightarrow> a \<noteq> slot \<longrightarrow> pm s' a = pm s a"
    "table_at (pm s' slot) = tbl" "pm s' slot AND 3 = D_TABLE" "pm s' slot \<noteq> 0"
proof -
  obtain s1 where a: "alloc_page s = (tbl, s1)"
    and s': "s' = s1\<lparr>pm := (fill_table (pm s1) tbl (\<lambda>_. 0))(slot := kva_to_phys s1 tbl OR D_TABLE)\<rparr>"
    using sp zero by (auto simp: split_def Let_def split: prod.splits if_splits)
  note fr = alloc_page_fresh [OF inv a sp(2)]
  obtain fl1 where i1: "pmm_inv s1 (insert tbl own) fl1" using fr(4) by blast
  have al: "aligned p" using inv p by (auto simp: pmm_inv_def taken_def)
  have np: "\<not> word_in tbl slot" using word_in_unique [OF fr(2) al _ p(2)] fr(1) p(1) by blast
  have zero_fill: "fill_table (pm s1) tbl (\<lambda>_. 0) = pm s1"
  proof
    fix b show "fill_table (pm s1) tbl (\<lambda>_. 0) b = pm s1 b"
      using fill_table_at [OF fr(2)] fr(3) fill_table_other by (cases "word_in tbl b") (auto simp: word_in_def)
  qed
  obtain i where i: "i < 512" "slot = p + 8 * of_nat i" using p(2) by (auto simp: word_in_def)
  have h1: "high_half s1" "l1_user s1 = l1_user s" using alloc_page_l1_user [OF a] hh by simp_all
  have "taken s1 tbl" "unat (free_next s1) < 2 ^ 40" using i1 by (auto simp: pmm_inv_def)
  note td = table_at_desc [OF h1(1) this]
  have "pmm_inv s' (insert tbl own) fl1"
    unfolding s' zero_fill i(2) by (rule store_inv [OF i1 _ i(1)]) (simp add: p)
  moreover have "\<forall>a. word_in tbl a \<longrightarrow> pm s' a = 0"
    using fr(3) np by (auto simp: s' zero_fill word_in_def)
  moreover have "\<forall>a. \<not> word_in tbl a \<longrightarrow> a \<noteq> slot \<longrightarrow> pm s' a = pm s a"
    using fr(5) by (auto simp: s' zero_fill word_in_def)
  ultimately show thesis
    using that [of fl1] fr(1) h1 td by (simp add: s' zero_fill)
qed

text \<open>One level of the descent, from level 1 and from level 2.\<close>

lemma descend_l1:
  assumes inv: "pmm_inv s own fl" and hh: "high_half s" and wf: "wf_space t L2 L3 own s"
    and d: "descend t 30 va cs s = (l2, s')" "l2 \<noteq> 0"
  obtains L2' own' fl' where "pmm_inv s' own' fl'" "high_half s'" "wf_space t L2' L3 own' s'"
    "l1_user s' = l1_user s" "l2 \<in> L2'" "own \<subseteq> own'" "L2 \<subseteq> L2'" "pm s' (slot_of t 30 va) \<noteq> 0"
    "table_at (pm s' (slot_of t 30 va)) = l2"
    "\<forall>a. (\<exists>p \<in> insert t (L2 \<union> L3). word_in p a) \<and> a \<noteq> slot_of t 30 va \<longrightarrow> pm s' a = pm s a"
    "\<forall>p \<in> L2' - L2. \<forall>a. word_in p a \<longrightarrow> pm s' a = 0"
    "pm s (slot_of t 30 va) \<noteq> 0 \<longrightarrow> s' = s" "pm s (slot_of t 30 va) = 0 \<longrightarrow> l2 \<notin> L2"
    "L2' \<inter> own \<subseteq> L2" "\<forall>p \<in> own. \<forall>a. word_in p a \<and> a \<noteq> slot_of t 30 va \<longrightarrow> pm s' a = pm s a"
proof (cases "pm s (slot_of t 30 va) = 0")
  case False
  then have "pm s (slot_of t 30 va) AND 3 = D_TABLE" "table_at (pm s (slot_of t 30 va)) \<in> L2"
    using wf_space_levels(1) [OF wf, of "slot_of t 30 va"] by simp_all
  moreover from this have e: "s' = s" "l2 = table_at (pm s (slot_of t 30 va))"
    using d(1) by (auto simp: descend_def Let_def)
  ultimately show thesis
    by (intro that [of own fl L2]) (use False inv hh wf in \<open>simp_all add: e\<close>)
next
  case True
  let ?slot = "slot_of t 30 va"
  have sp: "split ?slot cs s = (l2, s')" using d True by (simp add: descend_def D_TABLE_def)
  have own: "t \<in> own" "insert t (L2 \<union> L3) \<subseteq> own" using wf by (auto simp: wf_space_def)
  obtain fl' where n: "pmm_inv s' (insert l2 own) fl'" "l2 \<notin> own" "high_half s'" "l1_user s' = l1_user s"
    "\<forall>a. word_in l2 a \<longrightarrow> pm s' a = 0" "\<forall>a. \<not> word_in l2 a \<longrightarrow> a \<noteq> ?slot \<longrightarrow> pm s' a = pm s a"
    "table_at (pm s' ?slot) = l2" "pm s' ?slot AND 3 = D_TABLE" "pm s' ?slot \<noteq> 0"
    by (rule split_empty [OF inv hh True own(1) slot_word_in sp d(2)]) (rule that; assumption)
  have al: "\<forall>p \<in> insert l2 own. aligned p" using n(1) by (auto simp: pmm_inv_def taken_def)
  have old: "pm s' a = pm s a" if "p \<in> own" "word_in p a" "a \<noteq> ?slot" for p a
  proof -
    have "\<not> word_in l2 a" using word_in_unique [of p l2 a] that al n(2) by auto
    then show ?thesis using n(6) that(3) by blast
  qed
  have t: "pm s' a = pm s a" if "word_in t a" "a \<noteq> ?slot" for a using old own that by blast
  have l: "pm s' a = pm s a" if "p \<in> L2" "word_in p a" for p a
  proof -
    have "a \<noteq> ?slot" using word_in_unique [of p t a] that al own wf by (auto simp: wf_space_def)
    then show ?thesis using old own that by blast
  qed
  have "wf_space t (insert l2 L2) L3 (insert l2 own) s'"
  proof (rule wf_spaceI)
    show "pm s' a = 0 \<or> pm s' a AND 3 = D_TABLE \<and> table_at (pm s' a) \<in> insert l2 L2" if "word_in t a" for a
      using n(7,8) t [OF that] wf_space_levels(1) [OF wf that] by (cases "a = ?slot") auto
    show "pm s' a = 0 \<or> pm s' a AND 3 = D_TABLE \<and> table_at (pm s' a) \<in> L3" if "p \<in> insert l2 L2" "word_in p a" for p a
      using n(5) l [of p a] wf_space_levels(2) [OF wf, of p a] that by auto
    show "a = b" if "word_in t a" "word_in t b" "pm s' a \<noteq> 0" "pm s' b \<noteq> 0" "table_at (pm s' a) = table_at (pm s' b)" for a b
    proof -
      have not: "table_at (pm s c) \<noteq> l2" if "word_in t c" "pm s c \<noteq> 0" for c
        using wf_space_levels(1) [OF wf that(1)] that(2) own n(2) by auto
      show ?thesis using that wf_space_inj(1) [OF wf, of a b] t not n(7) by (cases "a = ?slot"; cases "b = ?slot") metis+
    qed
    show "a = b" if "p \<in> insert l2 L2" "q \<in> insert l2 L2" "word_in p a" "word_in q b" "pm s' a \<noteq> 0" "pm s' b \<noteq> 0"
      "table_at (pm s' a) = table_at (pm s' b)" for p q a b
      using that n(5) l wf_space_inj(2) [OF wf, of p q a b] by (metis insertE)
  qed (use wf own n(2) al in \<open>auto simp: wf_space_def\<close>)
  moreover have "\<forall>a. (\<exists>p \<in> insert t (L2 \<union> L3). word_in p a) \<and> a \<noteq> ?slot \<longrightarrow> pm s' a = pm s a"
    using old own by blast
  moreover have "\<forall>p \<in> insert l2 L2 - L2. \<forall>a. word_in p a \<longrightarrow> pm s' a = 0" using n(5) by blast
  moreover have "l2 \<notin> L2" "insert l2 L2 \<inter> own \<subseteq> L2" using n(2) own(2) by auto
  moreover have "\<forall>p \<in> own. \<forall>a. word_in p a \<and> a \<noteq> ?slot \<longrightarrow> pm s' a = pm s a" using old by blast
  ultimately show thesis
    by (intro that [of "insert l2 own" fl' "insert l2 L2"]) (use n True in \<open>simp_all add: subset_insertI\<close>)
qed

lemma descend_l2:
  assumes inv: "pmm_inv s own fl" and hh: "high_half s" and wf: "wf_space t L2 L3 own s" and m: "l2 \<in> L2"
    and d: "descend l2 21 va cs s = (l3, s')" "l3 \<noteq> 0"
  obtains L3' own' fl' where "pmm_inv s' own' fl'" "high_half s'" "wf_space t L2 L3' own' s'"
    "l1_user s' = l1_user s" "l3 \<in> L3'" "own \<subseteq> own'" "L3 \<subseteq> L3'" "pm s' (slot_of l2 21 va) \<noteq> 0"
    "table_at (pm s' (slot_of l2 21 va)) = l3"
    "\<forall>a. (\<exists>p \<in> insert t (L2 \<union> L3). word_in p a) \<and> a \<noteq> slot_of l2 21 va \<longrightarrow> pm s' a = pm s a"
    "\<forall>p \<in> L3' - L3. \<forall>a. word_in p a \<longrightarrow> pm s' a = 0"
    "pm s (slot_of l2 21 va) \<noteq> 0 \<longrightarrow> s' = s" "pm s (slot_of l2 21 va) = 0 \<longrightarrow> l3 \<notin> L3"
    "L3' \<inter> own \<subseteq> L3" "\<forall>p \<in> own. \<forall>a. word_in p a \<and> a \<noteq> slot_of l2 21 va \<longrightarrow> pm s' a = pm s a"
proof (cases "pm s (slot_of l2 21 va) = 0")
  case False
  then have "pm s (slot_of l2 21 va) AND 3 = D_TABLE" "table_at (pm s (slot_of l2 21 va)) \<in> L3"
    using wf_space_levels(2) [OF wf m, of "slot_of l2 21 va"] by simp_all
  moreover from this have e: "s' = s" "l3 = table_at (pm s (slot_of l2 21 va))"
    using d(1) by (auto simp: descend_def Let_def)
  ultimately show thesis
    by (intro that [of own fl L3]) (use False inv hh wf in \<open>simp_all add: e\<close>)
next
  case True
  let ?slot = "slot_of l2 21 va"
  have sp: "split ?slot cs s = (l3, s')" using d True by (simp add: descend_def D_TABLE_def)
  have own: "l2 \<in> own" "insert t (L2 \<union> L3) \<subseteq> own" using wf m by (auto simp: wf_space_def)
  obtain fl' where n: "pmm_inv s' (insert l3 own) fl'" "l3 \<notin> own" "high_half s'" "l1_user s' = l1_user s"
    "\<forall>a. word_in l3 a \<longrightarrow> pm s' a = 0" "\<forall>a. \<not> word_in l3 a \<longrightarrow> a \<noteq> ?slot \<longrightarrow> pm s' a = pm s a"
    "table_at (pm s' ?slot) = l3" "pm s' ?slot AND 3 = D_TABLE" "pm s' ?slot \<noteq> 0"
    by (rule split_empty [OF inv hh True own(1) slot_word_in sp d(2)]) (rule that; assumption)
  have al: "\<forall>p \<in> insert l3 own. aligned p" using n(1) by (auto simp: pmm_inv_def taken_def)
  have old: "pm s' a = pm s a" if "p \<in> own" "word_in p a" "a \<noteq> ?slot" for p a
  proof -
    have "\<not> word_in l3 a" using word_in_unique [of p l3 a] that al n(2) by auto
    then show ?thesis using n(6) that(3) by blast
  qed
  have t: "pm s' a = pm s a" if "word_in t a" for a
  proof -
    have "a \<noteq> ?slot" using word_in_unique [of t l2 a] that al own m wf by (auto simp: wf_space_def)
    then show ?thesis using old own that by blast
  qed
  have l: "pm s' a = pm s a" if "p \<in> L2" "word_in p a" "a \<noteq> ?slot" for p a using old own that by blast
  have not: "table_at (pm s c) \<noteq> l3" if "p \<in> L2" "word_in p c" "pm s c \<noteq> 0" for p c
    using wf_space_levels(2) [OF wf that(1,2)] that(3) own n(2) by auto
  have "wf_space t L2 (insert l3 L3) (insert l3 own) s'"
  proof (rule wf_spaceI)
    show "pm s' a = 0 \<or> pm s' a AND 3 = D_TABLE \<and> table_at (pm s' a) \<in> L2" if "word_in t a" for a
      using t [OF that] wf_space_levels(1) [OF wf that] by simp
    show "pm s' a = 0 \<or> pm s' a AND 3 = D_TABLE \<and> table_at (pm s' a) \<in> insert l3 L3" if "p \<in> L2" "word_in p a" for p a
      using n(7,8) l [OF that] wf_space_levels(2) [OF wf that] by (cases "a = ?slot") auto
    show "a = b" if "word_in t a" "word_in t b" "pm s' a \<noteq> 0" "pm s' b \<noteq> 0" "table_at (pm s' a) = table_at (pm s' b)" for a b
      using that t wf_space_inj(1) [OF wf, of a b] by simp
    show "a = b" if "p \<in> L2" "q \<in> L2" "word_in p a" "word_in q b" "pm s' a \<noteq> 0" "pm s' b \<noteq> 0"
      "table_at (pm s' a) = table_at (pm s' b)" for p q a b
      using that wf_space_inj(2) [OF wf, of p q a b] l not n(7) by (cases "a = ?slot"; cases "b = ?slot") metis+
  qed (use wf own n(2) al in \<open>auto simp: wf_space_def\<close>)
  moreover have "\<forall>a. (\<exists>p \<in> insert t (L2 \<union> L3). word_in p a) \<and> a \<noteq> ?slot \<longrightarrow> pm s' a = pm s a"
    using old own by blast
  moreover have "\<forall>p \<in> insert l3 L3 - L3. \<forall>a. word_in p a \<longrightarrow> pm s' a = 0" using n(5) by blast
  moreover have "l3 \<notin> L3" "insert l3 L3 \<inter> own \<subseteq> L3" using n(2) own(2) by auto
  moreover have "\<forall>p \<in> own. \<forall>a. word_in p a \<and> a \<noteq> ?slot \<longrightarrow> pm s' a = pm s a" using old by blast
  ultimately show thesis
    by (intro that [of "insert l3 own" fl' "insert l3 L3"]) (use n True in \<open>simp_all add: subset_insertI\<close>)
qed

lemma leaf_wf:
  assumes "wf_space t L2 L3 own s" "t = mmu_current_user_table_kva cur s"
  shows "leaf cur va s =
     (let d1 = pm s (slot_of t 30 va); d2 = pm s (slot_of (table_at d1) 21 va);
          d = pm s (slot_of (table_at d2) 12 va)
      in if d1 \<noteq> 0 \<and> d2 \<noteq> 0 \<and> d AND 3 = D_PAGE then Some d else None)"
  unfolding leaf_def walk_wf(1) [OF assms] Let_def by simp

lemma zero_not_page [simp]: "D_PAGE \<noteq> 0"
  by (simp add: D_PAGE_def)

lemma leaf_same:
  assumes "wf_space t L2 L3 own s" "wf_space t L2' L3' own' s'"
    and "t = mmu_current_user_table_kva cur s" "t = mmu_current_user_table_kva cur s'"
    and "pm s' (slot_of t 30 x) = pm s (slot_of t 30 x)"
    and "pm s (slot_of t 30 x) \<noteq> 0 \<Longrightarrow> pm s' (slot_of (table_at (pm s (slot_of t 30 x))) 21 x) =
      pm s (slot_of (table_at (pm s (slot_of t 30 x))) 21 x)"
    and "pm s (slot_of t 30 x) \<noteq> 0 \<Longrightarrow> pm s (slot_of (table_at (pm s (slot_of t 30 x))) 21 x) \<noteq> 0 \<Longrightarrow>
      pm s' (slot_of (table_at (pm s (slot_of (table_at (pm s (slot_of t 30 x))) 21 x))) 12 x) =
      pm s (slot_of (table_at (pm s (slot_of (table_at (pm s (slot_of t 30 x))) 21 x))) 12 x)"
  shows "leaf cur x s' = leaf cur x s"
  unfolding leaf_wf [OF assms(1,3)] leaf_wf [OF assms(2,4)] Let_def assms(5) using assms(6,7) by auto

lemma leaf_descend_l1:
  assumes wf: "wf_space t L2 L3 own s" "wf_space t L2' L3 own' s'" and al: "\<forall>p \<in> own. aligned p"
    and t: "t = mmu_current_user_table_kva cur s" "t = mmu_current_user_table_kva cur s'"
    and keep: "\<forall>a. (\<exists>p \<in> insert t (L2 \<union> L3). word_in p a) \<and> a \<noteq> slot_of t 30 va \<longrightarrow> pm s' a = pm s a"
    and new: "\<forall>p \<in> L2' - L2. \<forall>a. word_in p a \<longrightarrow> pm s' a = 0" "table_at (pm s' (slot_of t 30 va)) \<in> L2'"
    and same: "pm s (slot_of t 30 va) \<noteq> 0 \<longrightarrow> s' = s"
    and fresh: "pm s (slot_of t 30 va) = 0 \<longrightarrow> table_at (pm s' (slot_of t 30 va)) \<notin> L2"
  shows "leaf cur x s' = leaf cur x s"
proof (cases "pm s (slot_of t 30 va) = 0")
  case False
  then show ?thesis using same by simp
next
  case True
  have low: "pm s' (slot_of p j x) = pm s (slot_of p j x)" if p: "p \<in> L2 \<union> L3" for p j
  proof -
    have "p \<noteq> t" "aligned p" "aligned t" using wf(1) al p by (auto simp: wf_space_def)
    then have "slot_of p j x \<noteq> slot_of t 30 va"
      using word_in_unique [of p t "slot_of p j x"] slot_word_in [of t 30 va] by auto
    moreover have "\<exists>q \<in> insert t (L2 \<union> L3). word_in q (slot_of p j x)"
      by (rule bexI [of _ p]) (use p in simp_all)
    ultimately show ?thesis using keep by simp
  qed
  show ?thesis
  proof (cases "slot_of t 30 x = slot_of t 30 va")
    case eq: True
    let ?l = "table_at (pm s' (slot_of t 30 va))"
    have "pm s' (slot_of ?l 21 x) = 0" using new fresh True slot_word_in by blast
    then show ?thesis unfolding leaf_wf [OF wf(1) t(1)] leaf_wf [OF wf(2) t(2)] Let_def eq True by simp
  next
    case ne: False
    show ?thesis
    proof (rule leaf_same [OF wf t])
      show "pm s' (slot_of t 30 x) = pm s (slot_of t 30 x)" using keep ne slot_word_in by blast
    qed (use low walk_wf(2,3) [OF wf(1) t(1), of x] in blast)+
  qed
qed

lemma leaf_descend_l2:
  assumes wf: "wf_space t L2 L3 own s" "wf_space t L2 L3' own' s'" and al: "\<forall>p \<in> own. aligned p"
    and t: "t = mmu_current_user_table_kva cur s" "t = mmu_current_user_table_kva cur s'" and l2: "l2 \<in> L2"
    and keep: "\<forall>a. (\<exists>p \<in> insert t (L2 \<union> L3). word_in p a) \<and> a \<noteq> slot_of l2 21 va \<longrightarrow> pm s' a = pm s a"
    and new: "\<forall>p \<in> L3' - L3. \<forall>a. word_in p a \<longrightarrow> pm s' a = 0" "table_at (pm s' (slot_of l2 21 va)) \<in> L3'"
    and same: "pm s (slot_of l2 21 va) \<noteq> 0 \<longrightarrow> s' = s"
    and fresh: "pm s (slot_of l2 21 va) = 0 \<longrightarrow> table_at (pm s' (slot_of l2 21 va)) \<notin> L3"
  shows "leaf cur x s' = leaf cur x s"
proof (cases "pm s (slot_of l2 21 va) = 0")
  case False
  then show ?thesis using same by simp
next
  case True
  have low: "pm s' (slot_of p j x) = pm s (slot_of p j x)" if p: "p \<in> insert t L3" for p j
  proof -
    have "p \<noteq> l2" "aligned p" "aligned l2" using wf(1) al p l2 by (auto simp: wf_space_def)
    then have "slot_of p j x \<noteq> slot_of l2 21 va"
      using word_in_unique [of p l2 "slot_of p j x"] slot_word_in [of l2 21 va] by auto
    moreover have "\<exists>q \<in> insert t (L2 \<union> L3). word_in q (slot_of p j x)"
      by (rule bexI [of _ p]) (use p in auto)
    ultimately show ?thesis using keep by simp
  qed
  let ?m = "table_at (pm s (slot_of t 30 x))"
  show ?thesis
  proof (cases "pm s (slot_of t 30 x) \<noteq> 0 \<and> slot_of ?m 21 x = slot_of l2 21 va")
    case eq: True
    let ?l = "table_at (pm s' (slot_of l2 21 va))"
    have "pm s' (slot_of ?l 12 x) = 0" using new fresh True slot_word_in by blast
    moreover have "pm s' (slot_of t 30 x) = pm s (slot_of t 30 x)" by (rule low) simp
    ultimately show ?thesis
      using eq True unfolding leaf_wf [OF wf(1) t(1)] leaf_wf [OF wf(2) t(2)] Let_def by simp
  next
    case ne: False
    show ?thesis
    proof (rule leaf_same [OF wf t])
      show "pm s' (slot_of t 30 x) = pm s (slot_of t 30 x)" by (rule low) simp
      show "pm s' (slot_of ?m 21 x) = pm s (slot_of ?m 21 x)" if "pm s (slot_of t 30 x) \<noteq> 0"
        using keep ne that walk_wf(2) [OF wf(1) t(1), of x] slot_word_in [of ?m 21 x] by blast
    qed (use low walk_wf(3) [OF wf(1) t(1), of x] in blast)
  qed
qed

lemma index_inj:
  fixes a b :: u64
  assumes "unat a < 2 ^ 39" "unat b < 2 ^ 39"
    and "drop_bit 30 a AND 511 = drop_bit 30 b AND 511" "drop_bit 21 a AND 511 = drop_bit 21 b AND 511"
      "drop_bit 12 a AND 511 = drop_bit 12 b AND 511"
  shows "drop_bit 12 a = drop_bit 12 b"
proof -
  have m: "(511 :: u64) = mask 9" by (simp add: mask_eq_exp_minus_1)
  have idx: "bit a (k + n) \<longleftrightarrow> bit b (k + n)" if "drop_bit k a AND 511 = drop_bit k b AND 511" "n < 9" for k n
    using arg_cong [OF that(1), of "\<lambda>w. bit w n"] that(2)
    unfolding m by (simp add: bit_and_iff bit_drop_bit_eq bit_mask_iff)
  have high: "\<not> bit w n" if "unat w < 2 ^ 39" "39 \<le> n" for w :: u64 and n
  proof -
    have "take_bit 39 w = w" using that(1) by (simp add: word_unat_eq_iff unat_take_bit del: take_bit_eq_mod)
    then show ?thesis using that(2) by (metis bit_take_bit_iff not_less)
  qed
  show ?thesis
  proof (rule bit_word_eqI)
    fix n :: nat
    consider "n < 9" | "9 \<le> n" "n < 18" | "18 \<le> n" "n < 27" | "27 \<le> n" by linarith
    then have "bit a (12 + n) \<longleftrightarrow> bit b (12 + n)"
    proof cases
      case 1
      then show ?thesis by (rule idx [OF assms(5)])
    next
      case 2
      then show ?thesis using idx [OF assms(4), of "n - 9"] by simp
    next
      case 3
      then show ?thesis using idx [OF assms(3), of "n - 18"] by simp
    next
      case 4
      then show ?thesis using high [OF assms(1)] high [OF assms(2)] by simp
    qed
    then show "bit (drop_bit 12 a) n \<longleftrightarrow> bit (drop_bit 12 b) n" by (simp add: bit_drop_bit_eq)
  qed
qed

lemma slot_eq_index:
  assumes "aligned p" "aligned q" "slot_of p j a = slot_of q k b"
  shows "p = q" "drop_bit j a AND 511 = drop_bit k b AND 511"
proof -
  have m: "(511 :: u64) = mask 9" by (simp add: mask_eq_exp_minus_1)
  have lt: "unat (w AND 511) < 512" for w :: u64
    unfolding m take_bit_eq_mask [symmetric] unat_take_bit by simp
  have "p + 8 * of_nat (unat (drop_bit j a AND 511)) = q + 8 * of_nat (unat (drop_bit k b AND 511))"
    using assms(3) by (simp add: slot_of_def)
  then show "p = q" "drop_bit j a AND 511 = drop_bit k b AND 511"
    using page_word_eq_iff [OF assms(1,2) lt lt, of "drop_bit j a" "drop_bit k b"] by (auto simp: word_unat_eq_iff)
qed

lemma map_user_page_raw_leaf:
  assumes inv: "pmm_inv s own fl" and hh: "high_half s" and wf: "wf_space t L2 L3 own s"
    and t: "t = mmu_current_user_table_kva cur s" and desc: "desc AND 3 = D_PAGE"
    and m: "map_user_page_raw cur va desc s = (0, s')"
  shows "leaf cur va s' = Some desc"
    and "\<exists>L2' L3' own' fl'. pmm_inv s' own' fl' \<and> wf_space t L2' L3' own' s' \<and> own \<subseteq> own' \<and> L3' \<inter> own \<subseteq> L3 \<and> L2' \<inter> own \<subseteq> L2 \<and>
      (\<forall>p \<in> own - insert t (L2 \<union> L3). \<forall>a. word_in p a \<longrightarrow> pm s' a = pm s a)"
    and "t = mmu_current_user_table_kva cur s' \<and> high_half s'"
    and "unat va < 2 ^ 39 \<Longrightarrow> unat x < 2 ^ 39 \<Longrightarrow> drop_bit 12 x \<noteq> drop_bit 12 va \<Longrightarrow> leaf cur x s' = leaf cur x s"
proof -
  have t0: "t \<noteq> 0" using wf by (simp add: wf_space_def)
  obtain l2 s2 where d1: "descend t 30 va (push_bit 21 1) s = (l2, s2)" by fastforce
  obtain l3 s3 where d2: "descend l2 21 va 4096 s2 = (l3, s3)" by fastforce
  have nz: "l2 \<noteq> 0" "l3 \<noteq> 0" and s': "s' = s3\<lparr>pm := (pm s3)(slot_of l3 12 va := desc)\<rparr>"
    using m t0 d1 d2 unfolding map_user_page_raw_def Let_def t [symmetric] by (auto split: if_splits)
  obtain L2' own2 fl2 where a: "pmm_inv s2 own2 fl2" "high_half s2" "wf_space t L2' L3 own2 s2"
    "l1_user s2 = l1_user s" "l2 \<in> L2'" "own \<subseteq> own2" "L2 \<subseteq> L2'" "pm s2 (slot_of t 30 va) \<noteq> 0"
    "table_at (pm s2 (slot_of t 30 va)) = l2"
    "\<forall>a. (\<exists>p \<in> insert t (L2 \<union> L3). word_in p a) \<and> a \<noteq> slot_of t 30 va \<longrightarrow> pm s2 a = pm s a"
    "\<forall>p \<in> L2' - L2. \<forall>a. word_in p a \<longrightarrow> pm s2 a = 0" "pm s (slot_of t 30 va) \<noteq> 0 \<longrightarrow> s2 = s"
    "pm s (slot_of t 30 va) = 0 \<longrightarrow> l2 \<notin> L2" "L2' \<inter> own \<subseteq> L2"
    "\<forall>p \<in> own. \<forall>a. word_in p a \<and> a \<noteq> slot_of t 30 va \<longrightarrow> pm s2 a = pm s a"
    by (rule descend_l1 [OF inv hh wf d1 nz(1)]) (rule that; assumption)
  obtain L3' own3 fl3 where b: "pmm_inv s3 own3 fl3" "high_half s3" "wf_space t L2' L3' own3 s3"
    "l1_user s3 = l1_user s2" "l3 \<in> L3'" "own2 \<subseteq> own3" "L3 \<subseteq> L3'" "pm s3 (slot_of l2 21 va) \<noteq> 0"
    "table_at (pm s3 (slot_of l2 21 va)) = l3"
    "\<forall>a. (\<exists>p \<in> insert t (L2' \<union> L3). word_in p a) \<and> a \<noteq> slot_of l2 21 va \<longrightarrow> pm s3 a = pm s2 a"
    "\<forall>p \<in> L3' - L3. \<forall>a. word_in p a \<longrightarrow> pm s3 a = 0" "pm s2 (slot_of l2 21 va) \<noteq> 0 \<longrightarrow> s3 = s2"
    "pm s2 (slot_of l2 21 va) = 0 \<longrightarrow> l3 \<notin> L3" "L3' \<inter> own2 \<subseteq> L3"
    "\<forall>p \<in> own2. \<forall>a. word_in p a \<and> a \<noteq> slot_of l2 21 va \<longrightarrow> pm s3 a = pm s2 a"
    by (rule descend_l2 [OF a(1-3,5) d2 nz(2)]) (rule that; assumption)
  have al: "\<forall>p \<in> own3. aligned p" using b(1) by (auto simp: pmm_inv_def taken_def)
  then have al2: "\<forall>p \<in> own2. aligned p" and al1: "\<forall>p \<in> own. aligned p" using b(6) a(6) by auto
  have cur: "t = mmu_current_user_table_kva cur s2" "t = mmu_current_user_table_kva cur s3"
      "t = mmu_current_user_table_kva cur s'"
    using t a(4) b(4) by (simp_all add: s' mmu_current_user_table_kva_def)
  have leaf2: "leaf cur y s2 = leaf cur y s" for y
    by (rule leaf_descend_l1 [OF wf a(3) al1 t cur(1) a(10,11) _ a(12)]) (use a in simp_all)
  have leaf3: "leaf cur y s3 = leaf cur y s2" for y
    by (rule leaf_descend_l2 [OF a(3) b(3) al2 cur(1,2) a(5) b(10,11) _ b(12)]) (use b in simp_all)
  let ?slot = "slot_of l3 12 va"
  have in3: "insert t (L2' \<union> L3') \<subseteq> own3" "t \<notin> L2'" "t \<notin> L3'" "L2' \<inter> L3' = {}" using b(3) by (auto simp: wf_space_def)
  have up: "pm s' c = pm s3 c" if "p \<in> insert t L2'" "word_in p c" for p c
  proof -
    have "p \<noteq> l3" "aligned p" "aligned l3" using that(1) b(5) in3 al by auto
    then have "c \<noteq> ?slot" using word_in_unique [of p l3 c] that(2) slot_word_in [of l3 12 va] by auto
    then show ?thesis by (simp add: s')
  qed
  have wf': "wf_space t L2' L3' own3 s'" by (rule wf_space_frame [OF b(3)]) (use up in auto)
  obtain i where i: "i < 512" "?slot = l3 + 8 * of_nat i" using slot_of_nat by blast
  have "pmm_inv s' own3 fl3" unfolding s' i(2) by (rule store_inv [OF b(1) _ i(1)]) (use b(5) in3 in auto)
  moreover have "pm s' c = pm s c" if p: "p \<in> own" "p \<notin> insert t (L2 \<union> L3)" "word_in p c" for p c
  proof -
    have no: "c \<noteq> slot_of q k va" if "q \<in> insert t (L2' \<union> L3')" for q k
    proof -
      have "p \<noteq> q" using that p(1,2) a(6,14) b(14) by auto
      moreover have "aligned p" "aligned q" using that p(1) in3(1) al al1 by auto
      ultimately show ?thesis using word_in_unique [of p q c] p(3) slot_word_in [of q k va] by auto
    qed
    have "pm s' c = pm s3 c" using no [of l3] b(5) by (simp add: s')
    then show ?thesis using no [of t] no [of l2] a(5,6,15) b(15) p(1,3) by auto
  qed
  ultimately show "\<exists>L2' L3' own' fl'. pmm_inv s' own' fl' \<and> wf_space t L2' L3' own' s' \<and> own \<subseteq> own' \<and> L3' \<inter> own \<subseteq> L3 \<and> L2' \<inter> own \<subseteq> L2 \<and>
      (\<forall>p \<in> own - insert t (L2 \<union> L3). \<forall>a. word_in p a \<longrightarrow> pm s' a = pm s a)"
    using wf' a(6,14) b(6,14) by blast
  show "t = mmu_current_user_table_kva cur s' \<and> high_half s'" using cur(3) b(2) by (simp add: s')
  have p1: "pm s3 (slot_of t 30 va) = pm s2 (slot_of t 30 va)"
  proof -
    have "t \<noteq> l2" "aligned t" "aligned l2" using a(5) in3 al by auto
    then have "slot_of t 30 va \<noteq> slot_of l2 21 va"
      using word_in_unique [of t l2 "slot_of t 30 va"] slot_word_in [of l2 21 va] by auto
    then show ?thesis using b(10) by auto
  qed
  have q1: "pm s' (slot_of t 30 va) = pm s2 (slot_of t 30 va)" using up [of t] p1 by simp
  have q2: "pm s' (slot_of l2 21 va) = pm s3 (slot_of l2 21 va)" using up [of l2] a(5) by simp
  show "leaf cur va s' = Some desc"
    unfolding leaf_wf [OF wf' cur(3)] Let_def q1 a(9) q2 b(9) using a(8) b(8) desc by (simp add: s')
  assume lim: "unat va < 2 ^ 39" "unat x < 2 ^ 39" and ne: "drop_bit 12 x \<noteq> drop_bit 12 va"
  have "leaf cur x s' = leaf cur x s3"
  proof (rule leaf_same [OF b(3) wf' cur(2,3)])
    show "pm s' (slot_of t 30 x) = pm s3 (slot_of t 30 x)" by (rule up [of t]) simp_all
    let ?m = "table_at (pm s3 (slot_of t 30 x))"
    assume n1: "pm s3 (slot_of t 30 x) \<noteq> 0"
    then have m: "?m \<in> L2'" using walk_wf(2) [OF b(3) cur(2)] by blast
    then show "pm s' (slot_of ?m 21 x) = pm s3 (slot_of ?m 21 x)" by (intro up [of ?m]) simp_all
    let ?n = "table_at (pm s3 (slot_of ?m 21 x))"
    assume n2: "pm s3 (slot_of ?m 21 x) \<noteq> 0"
    then have n: "?n \<in> L3'" using walk_wf(3) [OF b(3) cur(2) n1] by blast
    have "slot_of ?n 12 x \<noteq> ?slot"
    proof
      assume e: "slot_of ?n 12 x = ?slot"
      note e3 = slot_eq_index [OF _ _ e]
      have al': "aligned ?n" "aligned l3" "aligned ?m" "aligned l2" "aligned t" using al in3 n m b(5) a(5) by auto
      have "slot_of ?m 21 x = slot_of l2 21 va"
        using wf_space_inj(2) [OF b(3) m a(5) slot_word_in slot_word_in n2 b(8)] e3(1) [OF al'(1,2)] b(9) by simp
      note e2 = slot_eq_index [OF al'(3,4) this]
      have "slot_of t 30 x = slot_of t 30 va"
        using wf_space_inj(1) [OF b(3) slot_word_in slot_word_in n1] p1 a(8,9) e2(1) by simp
      then have "drop_bit 30 x AND 511 = drop_bit 30 va AND 511" by (rule slot_eq_index [OF al'(5,5)])
      then show False using index_inj [OF lim(2,1)] e2(2) e3(2) [OF al'(1,2)] ne by blast
    qed
    then show "pm s' (slot_of ?n 12 x) = pm s3 (slot_of ?n 12 x)" by (simp add: s')
  qed
  then show "leaf cur x s' = leaf cur x s" using leaf2 leaf3 by simp
qed

lemma page_of_va:
  "unat (va AND NOT 4095) = unat va div 4096 * 4096" "va AND NOT 4095 \<le> (va :: u64)"
proof -
  have m: "(4095 :: u64) = mask 12" by (simp add: mask_eq_exp_minus_1)
  show u: "unat (va AND NOT 4095) = unat va div 4096 * 4096"
    using unat_and_not_mask [of va 12] unfolding m by simp
  show "va AND NOT 4095 \<le> va" unfolding word_le_nat_alt u by (rule div_times_less_eq_dividend)
qed

lemma vm_user_ok_range:
  assumes "\<not> va + len < va" "\<not> USER_LIMIT < va + len"
  shows "unat (va + len) = unat va + unat len" "unat va + unat len \<le> 2 ^ 39"
proof -
  show u: "unat (va + len) = unat va + unat len" by (rule no_wrap [OF assms(1)])
  have "unat USER_LIMIT = 2 ^ 39" by (simp add: USER_LIMIT_def)
  then show "unat va + unat len \<le> 2 ^ 39" using assms(2) u by (simp add: word_less_nat_alt not_less)
qed

lemma vm_user_ok_True:
  assumes "vm_user_ok cur va len write s = Some (True, s')"
    and "write \<longrightarrow> pmm_inv s own fl \<and> wf_space (mmu_current_user_table_kva cur s) L2 L3 own s"
  shows "(\<not> write \<longrightarrow> s' = s) \<and>
     (len \<noteq> 0 \<longrightarrow> unat va + unat len \<le> 2 ^ 39 \<and> (\<forall>a. va \<le> a \<and> a < va + len \<longrightarrow> el0_ok cur a write s'))"
proof (cases "len = 0")
  case True
  then show ?thesis using assms(1) by (simp add: vm_user_ok_def)
next
  case False
  have g: "\<not> va + len < va" "\<not> USER_LIMIT < va + len"
    and loop: "vm_ok_loop (2 ^ 27 + 1) cur (va AND NOT 4095) (va + len) write s = Some (True, s')"
    using assms(1) False unfolding vm_user_ok_def by (simp_all split: if_splits)
  note r = vm_user_ok_range [OF g]
  have "unat va div 4096 * 4096 \<le> unat va" by (rule div_times_less_eq_dividend)
  then have lim: "unat (va AND NOT 4095) < 2 ^ 40" "unat (va + len) \<le> 2 ^ 39"
    unfolding page_of_va using r by simp_all
  have "unat (va AND NOT 4095) mod 4096 = 0" unfolding page_of_va by simp
  note sound = vm_ok_loop_sound [OF loop this lim(2,1), of own "mmu_current_user_table_kva cur s" L2 L3]
  show ?thesis using sound assms(2) r page_of_va(2) [of va] order_trans by blast
qed

text \<open>With two free pages above the mark a mapping succeeds.\<close>

lemma alloc_page_room:
  assumes "pmm_inv s own fl" "unat (free_next s) + 4096 * Suc k \<le> unat (free_top s)"
  shows "\<exists>p s'. alloc_page s = (p, s') \<and> p \<noteq> 0 \<and> unat (free_next s') + 4096 * k \<le> unat (free_top s')"
proof (cases "free_list s = 0")
  case False
  then show ?thesis using assms(2) by (auto simp: alloc_page_def Let_def)
next
  case True
  have u: "unat (free_next s + PAGE_SIZE) = unat (free_next s) + 4096"
    using unat_page_add [of "free_next s" 1] assms(1) by (simp add: pmm_inv_def)
  then have room: "\<not> free_top s < free_next s + PAGE_SIZE" using assms(2) by (simp add: word_less_nat_alt)
  moreover have "usable s (free_next s) \<noteq> 0" using room_nonzero [OF assms(1), of 1] room by simp
  ultimately show ?thesis using True u assms(2) by (auto simp: alloc_page_def Let_def)
qed

lemma descend_room:
  assumes "pmm_inv s own fl" "unat (free_next s) + 4096 * Suc k \<le> unat (free_top s)"
    and "pm s (slot_of p j va) = 0 \<or> pm s (slot_of p j va) AND 3 = D_TABLE \<and> table_at (pm s (slot_of p j va)) \<noteq> 0"
  shows "\<exists>l s'. descend p j va cs s = (l, s') \<and> l \<noteq> 0 \<and> unat (free_next s') + 4096 * k \<le> unat (free_top s')"
proof (cases "pm s (slot_of p j va) = 0")
  case False
  then show ?thesis using assms(2,3) by (auto simp: descend_def Let_def)
next
  case True
  then show ?thesis using alloc_page_room [OF assms(1,2)] by (auto simp: descend_def split_def D_TABLE_def Let_def)
qed

lemma map_user_page_raw_eq:
  "map_user_page cur va page executable s = map_user_page_raw cur va (user_desc (kva_to_phys s page) executable) s"
  by (simp add: map_user_page_def map_user_page_raw_def)

lemma map_user_page_raw_succeeds:
  assumes inv: "pmm_inv s own fl" and hh: "high_half s" and wf: "wf_space t L2 L3 own s"
    and t: "t = mmu_current_user_table_kva cur s" and room: "unat (free_next s) + 4096 * Suc (Suc k) \<le> unat (free_top s)"
  shows "\<exists>s'. map_user_page_raw cur va desc s = (0, s') \<and> unat (free_next s') + 4096 * k \<le> unat (free_top s')"
proof -
  have nz: "p \<noteq> 0" if "pmm_inv x o' f" "p \<in> o'" for x o' f p using that by (auto simp: pmm_inv_def taken_def)
  have own: "insert t (L2 \<union> L3) \<subseteq> own" using wf by (auto simp: wf_space_def)
  have "pm s (slot_of t 30 va) = 0 \<or> pm s (slot_of t 30 va) AND 3 = D_TABLE \<and> table_at (pm s (slot_of t 30 va)) \<noteq> 0"
    using wf_space_levels(1) [OF wf slot_word_in] nz [OF inv] own by blast
  then obtain l2 s2 where d1: "descend t 30 va (push_bit 21 1) s = (l2, s2)" "l2 \<noteq> 0"
    and r2: "unat (free_next s2) + 4096 * Suc k \<le> unat (free_top s2)"
    using descend_room [OF inv, of "Suc k" t 30 va "push_bit 21 1"] room by auto
  obtain L2' own2 fl2 where a: "pmm_inv s2 own2 fl2" "wf_space t L2' L3 own2 s2" "l2 \<in> L2'"
    by (rule descend_l1 [OF inv hh wf d1]) (rule that; assumption)
  have own2: "insert t (L2' \<union> L3) \<subseteq> own2" using a(2) by (auto simp: wf_space_def)
  have "pm s2 (slot_of l2 21 va) = 0 \<or> pm s2 (slot_of l2 21 va) AND 3 = D_TABLE \<and> table_at (pm s2 (slot_of l2 21 va)) \<noteq> 0"
    using wf_space_levels(2) [OF a(2,3) slot_word_in] nz [OF a(1)] own2 by blast
  then obtain l3 s3 where d2: "descend l2 21 va 4096 s2 = (l3, s3)" "l3 \<noteq> 0" "unat (free_next s3) + 4096 * k \<le> unat (free_top s3)"
    using descend_room [OF a(1) r2, of l2 21 va 4096] by auto
  have "t \<noteq> 0" using wf by (simp add: wf_space_def)
  then show ?thesis using d1 d2 unfolding map_user_page_raw_def Let_def t [symmetric] by simp
qed

lemma alloc_page_refs_ptr [simp]: "refs_ptr (snd (alloc_page s)) = refs_ptr s"
  by (simp add: alloc_page_def Let_def)

lemma descend_refs_ptr [simp]: "refs_ptr (snd (descend p j va cs s)) = refs_ptr s"
  using alloc_page_refs_ptr [of s]
  by (auto simp: descend_def split_def Let_def split: prod.splits simp del: alloc_page_refs_ptr)

lemma map_user_page_raw_refs_ptr [simp]: "refs_ptr (snd (map_user_page_raw cur va desc s)) = refs_ptr s"
  unfolding map_user_page_raw_def Let_def case_prod_unfold by simp

section \<open>A fresh space\<close>

lemma vm_new_space_wf:
  assumes inv: "pmm_inv s own fl" and n: "vm_new_space s = (t, s')" "t \<noteq> 0"
  shows "wf_space t {} {} (insert t own) s'" "\<exists>fl'. pmm_inv s' (insert t own) fl'" "high_half s' = high_half s"
proof -
  obtain s1 where a: "alloc_page s = (t, s1)" and s': "s' = s1\<lparr>pm := fill_table (pm s1) t (\<lambda>_. 0)\<rparr>"
    using n by (auto simp: vm_new_space_def Let_def split: prod.splits if_splits)
  note fr = alloc_page_fresh [OF inv a n(2)]
  have zero_fill: "fill_table (pm s1) t (\<lambda>_. 0) = pm s1"
  proof
    fix b show "fill_table (pm s1) t (\<lambda>_. 0) b = pm s1 b"
      using fill_table_at [OF fr(2)] fr(3) fill_table_other by (cases "word_in t b") (auto simp: word_in_def)
  qed
  then have e: "s' = s1" by (simp add: s')
  show "\<exists>fl'. pmm_inv s' (insert t own) fl'" using fr(4) by (simp add: e)
  show "high_half s' = high_half s" using alloc_page_l1_user [OF a] by (simp add: e)
  show "wf_space t {} {} (insert t own) s'" using fr(3) n(2) by (simp add: wf_space_def e)
qed

text \<open>A machine with 1 MiB of memory from 4 KiB on, running in the high half, and its first space.\<close>

definition demo_pmm :: pmm where
  "demo_pmm = mmu_note_high (pmm_init 0 0x1000 0x100000 0 0 (pmm_statics (\<lambda>_. 0)))"

definition demo_space :: "u64 \<times> pmm" where
  "demo_space = vm_new_space demo_pmm"

lemma demo_space_wf:
  "\<exists>fl. pmm_inv (snd demo_space) {fst demo_space} fl" "wf_space (fst demo_space) {} {} {fst demo_space} (snd demo_space)"
  "high_half (snd demo_space)" "fst demo_space = KVA_OFFSET + 0x1000"
proof -
  have "pmm_inv (pmm_init 0 0x1000 0x100000 0 0 (pmm_statics (\<lambda>_. 0))) {} []" by (rule pmm_init_inv) simp_all
  then have inv: "pmm_inv demo_pmm {} []" by (simp add: demo_pmm_def mmu_note_high_def pmm_inv_def taken_def)
  have hh: "high_half demo_pmm" by (simp add: demo_pmm_def mmu_note_high_def)
  show f: "fst demo_space = KVA_OFFSET + 0x1000"
    by (simp add: demo_space_def demo_pmm_def mmu_note_high_def pmm_init_def pmm_statics_def vm_new_space_def
        alloc_page_def Let_def usable_def PAGE_SIZE_def KVA_OFFSET_def)
  have "fst demo_space \<noteq> 0" unfolding f by (simp add: KVA_OFFSET_def)
  note w = vm_new_space_wf [OF inv, of "fst demo_space" "snd demo_space", OF _ this]
  show "\<exists>fl. pmm_inv (snd demo_space) {fst demo_space} fl"
    "wf_space (fst demo_space) {} {} {fst demo_space} (snd demo_space)" "high_half (snd demo_space)"
    using w hh by (simp_all add: demo_space_def)
qed

lemma demo_map_ok:
  "\<exists>s'. map_user_page (fst demo_space) 0x400000 (KVA_OFFSET + 0x9000) True (snd demo_space) = (0, s')"
proof -
  let ?t = "fst demo_space" and ?s = "snd demo_space"
  obtain fl where inv: "pmm_inv ?s {?t} fl" using demo_space_wf(1) by blast
  have "?t = mmu_current_user_table_kva ?t ?s"
    using demo_space_wf(2) by (simp add: mmu_current_user_table_kva_def wf_space_def)
  moreover have "unat (free_next ?s) + 4096 * Suc (Suc 0) \<le> unat (free_top ?s)"
    by (simp add: demo_space_def demo_pmm_def mmu_note_high_def pmm_init_def pmm_statics_def vm_new_space_def
        alloc_page_def Let_def usable_def PAGE_SIZE_def KVA_OFFSET_def)
  ultimately show ?thesis unfolding map_user_page_raw_eq
    using map_user_page_raw_succeeds [OF inv demo_space_wf(3,2)] by blast
qed

lemma bit_user_desc:
  "bit (user_desc pa x) n \<longleftrightarrow> bit pa n \<and> 12 \<le> n \<and> n < 48 \<or> n < 2 \<or> n = 10 \<or> n = 8 \<or> n = 9 \<or> n = 2 \<or>
      n = 6 \<or> n = 53 \<or> \<not> x \<and> n = 54"
proof -
  have three: "bit (3 :: u64) n \<longleftrightarrow> n < 2" for n
    using bit_mask_iff [where 'a = "64 word", of 2 n] by (auto simp: mask_eq_exp_minus_1)
  have sh: "D_SH_INNER = DESC_SH_INNER" by (simp add: D_SH_INNER_def DESC_SH_INNER_def)
  show ?thesis
    unfolding user_desc_def Let_def if_distrib [of "\<lambda>w. bit w n"] bit_or_iff bit_and_iff bit_ADDR_MASK sh bit_desc
    unfolding D_PAGE_def three D_AF_def D_AP_EL0_def D_PXN_def D_UXN_def bit_push_one by auto
qed

lemma user_desc_flags:
  "user_desc pa x AND 3 = D_PAGE" "user_desc pa x AND D_AP_EL0 \<noteq> 0" "user_desc pa x AND D_AP_RO = 0"
  "user_desc pa x AND D_VALID \<noteq> 0"
  unfolding desc_flags bit_user_desc by simp_all

section \<open>What a resolved fault leaves in the page\<close>

lemma addr_of_desc:
  assumes "high_half s" "taken s p" "unat (free_next s) < 2 ^ 40"
  shows "phys_to_kva (((kva_to_phys s p AND ADDR_MASK) OR (d AND NOT ADDR_MASK AND NOT D_AP_RO)) AND ADDR_MASK) = p"
proof -
  let ?x = "kva_to_phys s p"
  have "table_at (?x OR D_TABLE) = p" by (rule table_at_desc [OF assms])
  moreover have "(?x OR D_TABLE) AND ADDR_MASK = ?x AND ADDR_MASK"
  proof (rule bit_word_eqI)
    fix n
    have three: "bit (3 :: u64) n \<longleftrightarrow> n < 2"
      using bit_mask_iff [where 'a = "64 word", of 2 n] by (auto simp: mask_eq_exp_minus_1)
    show "bit ((?x OR D_TABLE) AND ADDR_MASK) n \<longleftrightarrow> bit (?x AND ADDR_MASK) n"
      unfolding D_TABLE_def bit_and_iff bit_or_iff three bit_ADDR_MASK by auto
  qed
  moreover have "((?x AND ADDR_MASK) OR (d AND NOT ADDR_MASK AND NOT D_AP_RO)) AND ADDR_MASK = ?x AND ADDR_MASK"
    by (rule bit_word_eqI) (auto simp: bit_or_iff bit_and_iff bit_not_iff)
  ultimately show ?thesis by (simp add: table_at_def)
qed

lemma addr_clear_ro: "(d AND NOT D_AP_RO) AND ADDR_MASK = d AND ADDR_MASK"
  by (rule bit_word_eqI) (auto simp: bit_and_iff bit_not_iff bit_ADDR_MASK desc_flags(6))

lemma vm_cow_fault_page:
  assumes inv: "pmm_inv s own fl" and hh: "high_half s" and wf: "wf_space t L2 L3 own s"
    and t: "t = mmu_current_user_table_kva cur s" and c: "vm_cow_fault cur va s = (0, s')"
    and d: "leaf cur va s = Some d" and page: "page = phys_to_kva (d AND ADDR_MASK)" "page \<in> own" "page \<notin> L3"
  shows "\<exists>d' page'. leaf cur va s' = Some d' \<and> page' = phys_to_kva (d' AND ADDR_MASK) \<and> d' AND D_AP_RO = 0 \<and>
     (\<forall>i < 512. pm s' (page' + 8 * of_nat i) = pm s (page + 8 * of_nat i)) \<and>
     (\<forall>i < 512. pm s' (page + 8 * of_nat i) = pm s (page + 8 * of_nat i)) \<and>
     (if page_count s (d AND ADDR_MASK) > 1 then page' \<notin> own else page' = page)"
proof -
  obtain slot l3 own' fl' where l3: "l3 \<in> L3" "word_in l3 slot"
    and walk: "walk_to_leaf cur va s = Some (slot, 4096)"
    and keep: "\<forall>p \<in> own. \<forall>a. word_in p a \<longrightarrow> a \<noteq> slot \<longrightarrow> pm s' a = pm s a"
    and ro: "pm s' slot AND 3 = D_PAGE" "pm s' slot AND D_AP_EL0 \<noteq> 0" "pm s' slot AND D_AP_RO = 0"
    and inv': "own \<subseteq> own'" "pmm_inv s' own' fl'" "mmu_current_user_table_kva cur s' = t"
    by (rule vm_cow_fault_effect [OF inv wf t c]) (rule that; assumption)
  have ds: "pm s slot = d" using d walk by (simp add: leaf_def)
  have lf: "leaf cur va s' = Some (pm s' slot)" using el0_ok_cow(3) [OF inv wf t c, of va] walk by (simp add: leaf_def)
  have al: "aligned p" if "p \<in> own" for p using inv that by (auto simp: pmm_inv_def taken_def)
  have l3own: "l3 \<in> own" using l3 wf by (auto simp: wf_space_def)
  have off: "page + 8 * of_nat i \<noteq> slot" if "i < 512" for i
    using word_in_unique [OF al al, OF page(2) l3own _ l3(2)] l3(1) page(3) that by (auto simp: word_in_def)
  have old: "pm s' (page + 8 * of_nat i) = pm s (page + 8 * of_nat i)" if "i < 512" for i
    using keep page(2) off that by (auto simp: word_in_def)
  show ?thesis
  proof (cases "page_count s (d AND ADDR_MASK) > 1")
    case False
    have "s' = s\<lparr>pm := (pm s)(slot := d AND NOT D_AP_RO)\<rparr>"
      using c walk ds False d unfolding vm_cow_fault_def walk_to_leaf_def Let_def t [symmetric] by (auto split: if_splits)
    then have "pm s' slot AND ADDR_MASK = d AND ADDR_MASK" by (simp add: addr_clear_ro)
    then show ?thesis using lf ro old False page(1) by auto
  next
    case True
    obtain fresh s1 where a: "alloc_page s = (fresh, s1)" by fastforce
    define s2 where "s2 = s1\<lparr>pm := copy_page (pm s1) fresh page\<rparr>"
    define s3 where "s3 = snd (page_unref s2 (d AND ADDR_MASK))"
    have f: "fresh \<noteq> 0" and s': "s' = s3\<lparr>pm := (pm s3)(slot :=
        (kva_to_phys s3 fresh AND ADDR_MASK) OR (d AND NOT ADDR_MASK AND NOT D_AP_RO))\<rparr>"
      using c walk ds True d a unfolding vm_cow_fault_def walk_to_leaf_def Let_def t [symmetric] s3_def s2_def page(1)
      by (auto split: if_splits)
    note fr = alloc_page_fresh [OF inv a f]
    obtain fl1 where i1: "pmm_inv s1 (insert fresh own) fl1" using fr(4) by blast
    then have tk: "taken s1 fresh" "unat (free_next s1) < 2 ^ 40" by (auto simp: pmm_inv_def)
    have h1: "high_half s1" using alloc_page_l1_user [OF a] hh by simp
    have "kva_to_phys s3 fresh = kva_to_phys s1 fresh" by (simp add: kva_to_phys_def s3_def s2_def)
    then have addr: "phys_to_kva (pm s' slot AND ADDR_MASK) = fresh" using addr_of_desc [OF h1 tk] by (simp add: s')
    have "pm s' (fresh + 8 * of_nat i) = pm s (page + 8 * of_nat i)" if i: "i < 512" for i
    proof -
      have ne: "fresh \<noteq> page" using fr(1) page(2) by auto
      have "\<not> word_in fresh (page + 8 * of_nat i)"
        using word_in_unique [OF fr(2) al [OF page(2)]] ne i by (auto simp: word_in_def)
      then have "pm s1 (page + 8 * of_nat i) = pm s (page + 8 * of_nat i)" using fr(5) by (simp add: word_in_def)
      moreover have "fresh + 8 * of_nat i \<noteq> slot"
        using word_in_unique [OF fr(2) al [OF l3own] _ l3(2)] fr(1) l3own i by (auto simp: word_in_def)
      ultimately show ?thesis
        using copy_page_at [OF fr(2) al [OF page(2)] ne i] by (simp add: s' s3_def s2_def)
    qed
    then show ?thesis using lf ro old True addr fr(1) by auto
  qed
qed

lemma cow_fault_sole:
  assumes wf: "wf_space t L2 L3 own s" and t: "t = mmu_current_user_table_kva cur s"
    and d: "leaf cur va s = Some d" "d AND D_AP_EL0 \<noteq> 0" "d AND D_AP_RO \<noteq> 0" "page_count s (d AND ADDR_MASK) \<le> 1"
  shows "\<exists>s'. vm_cow_fault cur va s = (0, s')"
proof -
  define d1 where "d1 = pm s (slot_of t 30 va)"
  define d2 where "d2 = pm s (slot_of (table_at d1) 21 va)"
  note l = leaf_wf [OF wf t, of va, unfolded Let_def, folded d1_def, folded d2_def]
  have nz: "d1 \<noteq> 0" "d2 \<noteq> 0" "d AND 3 = D_PAGE" "d = pm s (slot_of (table_at d2) 12 va)"
    using l d(1) by (auto split: if_splits)
  have "table_at d1 \<in> L2" using walk_wf(2) [OF wf t, of va] nz(1) by (simp add: d1_def)
  then have "d1 AND 3 = D_TABLE" "d2 AND 3 = D_TABLE"
    using wf_space_levels(1) [OF wf, of "slot_of t 30 va"] wf_space_levels(2) [OF wf, of "table_at d1" "slot_of (table_at d1) 21 va"]
      nz by (simp_all add: d1_def d2_def)
  then show ?thesis
    using nz d wf unfolding vm_cow_fault_def Let_def t [symmetric] d1_def [symmetric] d2_def [symmetric]
    by (simp add: wf_space_def)
qed

lemma shared_desc:
  assumes "high_half s" "taken s p" "unat (free_next s) < 2 ^ 40"
  shows "phys_to_kva ((user_desc (kva_to_phys s p) x OR D_AP_RO) AND ADDR_MASK) = p"
proof -
  have "(user_desc (kva_to_phys s p) x OR D_AP_RO) AND ADDR_MASK = kva_to_phys s p AND ADDR_MASK"
    by (rule bit_word_eqI) (auto simp: bit_or_iff bit_and_iff bit_ADDR_MASK bit_user_desc desc_flags(6))
  then show ?thesis using addr_of_desc [OF assms, of 0] by (simp add: and.assoc)
qed

text \<open>The space of the demonstration with one page in it, marked read-only as \<open>cow_share\<close> leaves it.\<close>

definition demo_page :: u64 where
  "demo_page = fst (alloc_page (snd demo_space))"

definition demo_desc :: u64 where
  "demo_desc = user_desc (kva_to_phys (snd (alloc_page (snd demo_space))) demo_page) True OR D_AP_RO"

definition demo_cow :: pmm where
  "demo_cow = snd (map_user_page_raw (fst demo_space) 0x400000 demo_desc (snd (alloc_page (snd demo_space))))"

lemma demo_cow_wf:
  "\<exists>own fl L2 L3. pmm_inv demo_cow own fl \<and> wf_space (fst demo_space) L2 L3 own demo_cow \<and>
     phys_to_kva (demo_desc AND ADDR_MASK) \<in> own - L3"
  "leaf (fst demo_space) 0x400000 demo_cow = Some demo_desc" "high_half demo_cow"
  "fst demo_space = mmu_current_user_table_kva (fst demo_space) demo_cow" "refs_ptr demo_cow = 0"
proof -
  let ?t = "fst demo_space" and ?s = "snd demo_space"
  obtain fl where inv: "pmm_inv ?s {?t} fl" using demo_space_wf(1) by blast
  have room: "unat (free_next ?s) + 4096 * Suc 2 \<le> unat (free_top ?s)"
    by (simp add: demo_space_def demo_pmm_def mmu_note_high_def pmm_init_def pmm_statics_def vm_new_space_def
        alloc_page_def Let_def usable_def PAGE_SIZE_def KVA_OFFSET_def)
  obtain s1 where a: "alloc_page ?s = (demo_page, s1)" "demo_page \<noteq> 0"
    and r1: "unat (free_next s1) + 4096 * 2 \<le> unat (free_top s1)"
    using alloc_page_room [OF inv room] by (auto simp: demo_page_def)
  note fr = alloc_page_fresh [OF inv a]
  obtain fl1 where i1: "pmm_inv s1 {demo_page, ?t} fl1" using fr(4) by blast
  have h1: "high_half s1" "l1_user s1 = l1_user ?s" using alloc_page_l1_user [OF a(1)] demo_space_wf(3) by simp_all
  have al: "aligned ?t" using inv by (auto simp: pmm_inv_def taken_def)
  have wf1: "wf_space ?t {} {} {demo_page, ?t} s1"
  proof (rule wf_space_frame [OF demo_space_wf(2)])
    fix p b assume "p \<in> insert ?t {}" "word_in p b"
    then have "\<not> word_in demo_page b" using word_in_unique [OF fr(2) al] fr(1) by auto
    then show "pm s1 b = pm ?s b" using fr(5) by (auto simp: word_in_def)
  qed auto
  have t1: "?t = mmu_current_user_table_kva ?t s1"
    using demo_space_wf(2) by (simp add: mmu_current_user_table_kva_def wf_space_def)
  have tk: "taken s1 demo_page" "unat (free_next s1) < 2 ^ 40" using i1 by (auto simp: pmm_inv_def)
  have dd: "demo_desc = user_desc (kva_to_phys s1 demo_page) True OR D_AP_RO" by (simp add: demo_desc_def a(1))
  have page: "phys_to_kva (demo_desc AND ADDR_MASK) = demo_page" unfolding dd by (rule shared_desc [OF h1(1) tk])
  have d3: "demo_desc AND 3 = D_PAGE" unfolding desc_flags dd bit_or_iff bit_user_desc by simp
  have ok: "\<exists>s'. map_user_page_raw ?t 0x400000 demo_desc s1 = (0, s')"
    using map_user_page_raw_succeeds [OF i1 h1(1) wf1 t1, of 0] r1 by (fastforce simp del: One_nat_def)
  then have raw: "map_user_page_raw ?t 0x400000 demo_desc s1 = (0, demo_cow)" by (auto simp: demo_cow_def a(1))
  note m = map_user_page_raw_leaf [OF i1 h1(1) wf1 t1 d3 raw]
  show "leaf ?t 0x400000 demo_cow = Some demo_desc" by (rule m(1))
  show "high_half demo_cow" "?t = mmu_current_user_table_kva ?t demo_cow" using m(3) by simp_all
  show "\<exists>own fl L2 L3. pmm_inv demo_cow own fl \<and> wf_space ?t L2 L3 own demo_cow \<and>
      phys_to_kva (demo_desc AND ADDR_MASK) \<in> own - L3"
    unfolding page using m(2) by blast
  show "refs_ptr demo_cow = 0"
    by (simp add: demo_cow_def demo_space_def vm_new_space_def Let_def case_prod_unfold)
      (simp add: demo_pmm_def mmu_note_high_def pmm_init_def Let_def pmm_statics_def)
qed

section \<open>Properties\<close>

text \<open>
  C6: a pointer that passed the check is the program's. When \<open>vm_user_ok\<close> accepts a range, the range does
  not wrap, lies below the user limit, and the tables let EL0 reach every byte of it; when it was asked
  for a write, every byte may be written in the state it leaves behind, copy-on-write pages having been resolved
  on the way. The write case speaks of a space whose tables are three disjoint levels of owned pages.
\<close>
theorem vm_user_ok_sound:
  assumes "vm_user_ok cur va len write s = Some (True, s')"
    and "write \<longrightarrow> pmm_inv s own fl \<and> wf_space (mmu_current_user_table_kva cur s) L2 L3 own s"
  shows "(\<not> write \<longrightarrow> s' = s) \<and>
     (len \<noteq> 0 \<longrightarrow> unat va + unat len \<le> 2 ^ 39 \<and> (\<forall>a. va \<le> a \<and> a < va + len \<longrightarrow> el0_ok cur a write s'))"
  by (rule vm_user_ok_True [OF assms])

theorem vm_user_ok_sound_witness:
  "\<exists>s'. vm_user_ok (fst demo_space) 0x400010 16 True
       (snd (map_user_page (fst demo_space) 0x400000 (KVA_OFFSET + 0x9000) True (snd demo_space))) = Some (True, s') \<and>
     (\<forall>a. 0x400010 \<le> a \<and> a < 0x400020 \<longrightarrow> el0_ok (fst demo_space) a True s')"
proof -
  let ?t = "fst demo_space" and ?s = "snd demo_space"
  obtain fl where inv: "pmm_inv ?s {?t} fl" using demo_space_wf(1) by blast
  have t: "?t = mmu_current_user_table_kva ?t ?s"
    using demo_space_wf(2) by (simp add: mmu_current_user_table_kva_def wf_space_def)
  obtain s' where m: "map_user_page ?t 0x400000 (KVA_OFFSET + 0x9000) True ?s = (0, s')" using demo_map_ok by blast
  let ?d = "user_desc (kva_to_phys ?s (KVA_OFFSET + 0x9000)) True"
  have raw: "map_user_page_raw ?t 0x400000 ?d ?s = (0, s')"
    using m by (simp add: map_user_page_raw_eq)
  note r = map_user_page_raw_leaf [OF inv demo_space_wf(3,2) t user_desc_flags(1) raw]
  obtain L2 L3 own fl' where w: "pmm_inv s' own fl'" "wf_space ?t L2 L3 own s'" using r(2) by blast
  have t': "?t = mmu_current_user_table_kva ?t s'" using r(3) by blast
  obtain slot where walk: "walk_to_leaf ?t 0x400000 s' = Some (slot, 4096)" "pm s' slot = ?d"
    using r(1) unfolding leaf_def walk_wf(1) [OF w(2) t'] Let_def by (auto split: if_splits)
  have "vm_ok_loop (Suc (Suc n)) ?t 0x400000 0x400020 True s' = Some (True, s')" for n
    using walk user_desc_flags by (simp add: Let_def)
  from this [of 134217727] have "vm_user_ok ?t 0x400010 16 True s' = Some (True, s')"
    unfolding vm_user_ok_def by (simp add: USER_LIMIT_def)
  then show ?thesis
    using vm_user_ok_sound [of ?t "0x400010" 16 True s' s' own fl' L2 L3] w t' m by simp
qed

text \<open>
  The check always answers: for every space, well formed or corrupt, every range and either mode,
  \<open>vm_user_ok\<close> returns: a loop over the user half takes at most one turn per 4 KiB page and one more.
\<close>
lemma vm_user_ok_returns: "\<exists>r. vm_user_ok cur va len write s = Some r"
proof (cases "len = 0 \<or> va + len < va \<or> va \<ge> USER_LIMIT \<or> va + len > USER_LIMIT")
  case True
  then show ?thesis by (auto simp: vm_user_ok_def)
next
  case False
  then have r: "unat (va + len) \<le> 2 ^ 39" using vm_user_ok_range [of va len] by auto
  have "unat va div 4096 * 4096 \<le> unat va" by (rule div_times_less_eq_dividend)
  moreover have "unat va \<le> unat (va + len)" using False by (auto simp: word_less_nat_alt)
  ultimately have "unat (va AND NOT 4095) \<le> 2 ^ 39" unfolding page_of_va using r by linarith
  moreover have "unat (va AND NOT 4095) mod 4096 = 0" unfolding page_of_va by simp
  ultimately show ?thesis
    using vm_ok_loop_returns [of "va AND NOT 4095" "va + len" "2 ^ 27 + 1" cur "write" s] r False
    unfolding vm_user_ok_def by auto
qed

text \<open>
  C19: a mapping maps its page and nothing else. When \<open>map_user_page\<close> succeeds in a well-formed space, a walk
  to the address ends at the descriptor of that page, which EL0 may reach, the kernel never executes and the
  program executes only if asked for; the descriptor of every other page of the user half is what it was; and
  the space and the allocator stay well formed.
\<close>
theorem map_user_page_maps:
  assumes "pmm_inv s own fl" "high_half s" "wf_space t L2 L3 own s" "t = mmu_current_user_table_kva cur s"
    and "map_user_page cur va page executable s = (0, s')" "unat va < 2 ^ 39"
  shows "leaf cur va s' = Some (user_desc (kva_to_phys s page) executable) \<and>
     (\<forall>x. unat x < 2 ^ 39 \<and> drop_bit 12 x \<noteq> drop_bit 12 va \<longrightarrow> leaf cur x s' = leaf cur x s) \<and>
     (\<exists>L2' L3' own' fl'. pmm_inv s' own' fl' \<and> wf_space t L2' L3' own' s')"
proof -
  let ?d = "user_desc (kva_to_phys s page) executable"
  have raw: "map_user_page_raw cur va ?d s = (0, s')"
    using assms(5) by (simp add: map_user_page_raw_eq)
  note m = map_user_page_raw_leaf [OF assms(1-4) user_desc_flags(1) raw]
  show ?thesis using m assms(6) by blast
qed

theorem map_user_page_maps_witness:
  "\<exists>s'. map_user_page (fst demo_space) 0x400000 (KVA_OFFSET + 0x9000) True (snd demo_space) = (0, s') \<and>
     leaf (fst demo_space) 0x400000 s' = Some (user_desc 0x9000 True)"
proof -
  let ?t = "fst demo_space" and ?s = "snd demo_space"
  obtain fl where inv: "pmm_inv ?s {?t} fl" using demo_space_wf(1) by blast
  have t: "?t = mmu_current_user_table_kva ?t ?s"
    using demo_space_wf(2) by (simp add: mmu_current_user_table_kva_def wf_space_def)
  have "kva_to_phys ?s (KVA_OFFSET + 0x9000) = 0x9000" using demo_space_wf(3) by (simp add: kva_to_phys_def)
  then show ?thesis
    using demo_map_ok map_user_page_maps [OF inv demo_space_wf(3,2) t, of "0x400000" "KVA_OFFSET + 0x9000" True]
    by fastforce
qed

text \<open>
  C7: copy-on-write gives a private page with the same contents. When \<open>vm_cow_fault\<close> resolves a fault in a
  well-formed space, the address is writable afterwards and its page holds what the page before held; when
  others held that page too the new page was nobody's before, otherwise the page is the same; and the page
  the others still read is not changed in any word.
\<close>
theorem vm_cow_fault_private:
  assumes "pmm_inv s own fl" "high_half s" "wf_space t L2 L3 own s" "t = mmu_current_user_table_kva cur s"
    and "vm_cow_fault cur va s = (0, s')" "leaf cur va s = Some d"
    and "phys_to_kva (d AND ADDR_MASK) \<in> own - L3"
  shows "\<exists>d'. leaf cur va s' = Some d' \<and> d' AND D_AP_RO = 0 \<and>
     (\<forall>i < 512. pm s' (phys_to_kva (d' AND ADDR_MASK) + 8 * of_nat i) = pm s (phys_to_kva (d AND ADDR_MASK) + 8 * of_nat i)) \<and>
     (\<forall>i < 512. pm s' (phys_to_kva (d AND ADDR_MASK) + 8 * of_nat i) = pm s (phys_to_kva (d AND ADDR_MASK) + 8 * of_nat i)) \<and>
     (if page_count s (d AND ADDR_MASK) > 1 then phys_to_kva (d' AND ADDR_MASK) \<notin> own
      else phys_to_kva (d' AND ADDR_MASK) = phys_to_kva (d AND ADDR_MASK))"
  using vm_cow_fault_page [OF assms(1-6) refl] assms(7) by blast

theorem vm_cow_fault_private_witness:
  "\<exists>s' d'. vm_cow_fault (fst demo_space) 0x400000 demo_cow = (0, s') \<and>
     leaf (fst demo_space) 0x400000 s' = Some d' \<and> d' AND D_AP_RO = 0"
proof -
  obtain own fl L2 L3 where w: "pmm_inv demo_cow own fl" "wf_space (fst demo_space) L2 L3 own demo_cow"
    "phys_to_kva (demo_desc AND ADDR_MASK) \<in> own - L3" using demo_cow_wf(1) by blast
  have "demo_desc AND D_AP_EL0 \<noteq> 0" "demo_desc AND D_AP_RO \<noteq> 0"
    unfolding demo_desc_def desc_flags bit_or_iff bit_user_desc by simp_all
  moreover have "page_count demo_cow (demo_desc AND ADDR_MASK) \<le> 1"
    by (simp add: page_count_def refs_index_def demo_cow_wf(5))
  ultimately obtain s' where "vm_cow_fault (fst demo_space) 0x400000 demo_cow = (0, s')"
    using cow_fault_sole [OF w(2) demo_cow_wf(4,2)] by blast
  then show ?thesis
    using vm_cow_fault_private [OF w(1) demo_cow_wf(3) w(2) demo_cow_wf(4) _ demo_cow_wf(2) w(3)] by blast
qed

end
