(* ===== verification/Gpt.thy ===== *)
theory Gpt
  imports Prelude
begin

text \<open>
  The disk as the kernel sees it (the entry points of \<open>stam/virtio_blk.c\<close>), finding the EFI system
  partition on it (\<open>stam/gpt.c\<close>), and the tool that writes the partition table (\<open>vpart/vpart.c\<close>).

  The device is the environment: the record \<open>disk\<close> holds what the medium contains, sector by sector, and on
  which requests the device answers with an error or not at all. A failed write leaves the medium as it was.
  The queue protocol between driver and device is not modelled. \<open>vpart\<close> writes to the medium through a file; the
  bytes it draws from \<open>/dev/urandom\<close> are arguments, and \<open>None\<close> is its exit with a message.

  The last section shows that the kernel finds the partition that \<open>vpart\<close> wrote.
\<close>

section \<open>The block device\<close>

type_synonym medium = "u64 \<Rightarrow> bytes"

record disk =
  present :: bool
  capacity :: u64
  medium :: medium
  fails :: "bool \<Rightarrow> u64 \<Rightarrow> bool"

text \<open>One sector, either direction: \<open>None\<close> is the value -1.\<close>

definition blk_read :: "disk \<Rightarrow> u64 \<Rightarrow> bytes option" where
  "blk_read d sector =
     (if \<not> present d then None else if sector \<ge> capacity d then None
      else if fails d False sector then None else Some (medium d sector))"

definition blk_write :: "disk \<Rightarrow> u64 \<Rightarrow> bytes \<Rightarrow> disk option" where
  "blk_write d sector b =
     (if \<not> present d then None else if sector \<ge> capacity d then None
      else if fails d True sector then None else Some (d\<lparr>medium := (medium d)(sector := b)\<rparr>))"

section \<open>Finding the partition\<close>

definition esp_type :: bytes where
  "esp_type = [0x28, 0x73, 0x2a, 0xc1, 0x1f, 0xf8, 0xd2, 0x11, 0xba, 0x4b, 0x00, 0xa0, 0xc9, 0x3e, 0xc9, 0x3b]"

definition efi_part :: bytes where
  "efi_part = [69, 70, 73, 32, 80, 65, 82, 84]"

text \<open>The loop over the entries: one read per entry, an unreadable sector ends it.\<close>

fun find_entry :: "disk \<Rightarrow> u64 \<Rightarrow> nat list \<Rightarrow> (u64 \<times> u64) option" where
  "find_entry d entries_lba [] = None"
| "find_entry d entries_lba (i # is) =
     (let lba = entries_lba + of_nat (i * 128 div 512); off = i * 128 mod 512
      in case blk_read d lba of
           None \<Rightarrow> None
         | Some sec \<Rightarrow>
             if take 16 (drop off sec) \<noteq> esp_type then find_entry d entries_lba is
             else let start = get64 sec (off + 32); en = get64 sec (off + 40)
               in if en < start then find_entry d entries_lba is
                  else Some (start, en - start + 1))"

definition gpt_find_esp :: "disk \<Rightarrow> (u64 \<times> u64) option" where
  "gpt_find_esp d =
     (if \<not> present d then None
      else case blk_read d 1 of
        None \<Rightarrow> None
      | Some sec \<Rightarrow>
          if take 8 sec \<noteq> efi_part then None
          else let entries_lba = get64 sec 72; n_entries = get32 sec 80; entry_size = get32 sec 84
            in if entry_size \<noteq> 128 \<or> n_entries = 0 \<or> n_entries > 256 then None
               else find_entry d entries_lba [0..<unat n_entries])"

section \<open>Writing the table\<close>

definition crc_tab :: "u32 \<Rightarrow> u32" where
  "crc_tab i = ((\<lambda>c. if c AND 1 \<noteq> 0 then 0xEDB88320 XOR drop_bit 1 c else drop_bit 1 c) ^^ 8) i"

fun crc32_from :: "u32 \<Rightarrow> bytes \<Rightarrow> u32" where
  "crc32_from crc [] = crc"
| "crc32_from crc (b # bs) = crc32_from (crc_tab ((crc XOR ucast b) AND 0xff) XOR drop_bit 8 crc) bs"

definition crc32 :: "bytes \<Rightarrow> u32" where
  "crc32 bs = crc32_from 0xFFFFFFFF bs XOR 0xFFFFFFFF"

definition guid :: "u32 \<Rightarrow> u16 \<Rightarrow> u16 \<Rightarrow> bytes \<Rightarrow> bytes" where
  "guid d1 d2 d3 rest = le_bytes 4 d1 @ le_bytes 2 d2 @ le_bytes 2 d3 @ rest"

definition guid_random :: "bytes \<Rightarrow> bytes" where
  "guid_random r = r[7 := (r ! 7 AND 0x0F) OR 0x40, 8 := (r ! 8 AND 0x3F) OR 0x80]"

record part =
  ptype :: bytes
  first :: u64
  last :: u64
  pname :: bytes

definition SECTOR :: nat where "SECTOR = 512"
definition ENTRIES :: nat where "ENTRIES = 128"
definition ENTRY_SIZE :: nat where "ENTRY_SIZE = 128"
definition ARRAY_SECS :: u64 where "ARRAY_SECS = 32"

definition utf16_name :: "bytes \<Rightarrow> bytes" where
  "utf16_name n =
     (let cs = take 35 n in concat (map (\<lambda>c. [c, 0]) cs) @ replicate (72 - 2 * length cs) 0)"

definition gpt_entry :: "bytes \<Rightarrow> part \<Rightarrow> bytes" where
  "gpt_entry rnd p =
     ptype p @ guid_random rnd @ le_bytes 8 (first p) @ le_bytes 8 (last p) @ le_bytes 8 (0 :: u64) @
     utf16_name (pname p)"

text \<open>The array of 128 entries: those of the partitions, then zeroes.\<close>

definition gpt_array :: "(nat \<Rightarrow> bytes) \<Rightarrow> part list \<Rightarrow> bytes" where
  "gpt_array rnd parts =
     (let used = concat (map (\<lambda>i. gpt_entry (rnd i) (parts ! i)) [0..<length parts])
      in used @ replicate (ENTRIES * ENTRY_SIZE - length used) 0)"

definition gpt_header_crc :: "u32 \<Rightarrow> bool \<Rightarrow> u64 \<Rightarrow> bytes \<Rightarrow> u32 \<Rightarrow> bytes" where
  "gpt_header_crc crc backup last_lba disk_guid array_crc =
     (let last_usable = last_lba - ARRAY_SECS - 1
      in efi_part @ le_bytes 4 (0x00010000 :: u32) @ le_bytes 4 (92 :: u32) @ le_bytes 4 crc @
         le_bytes 4 (0 :: u32) @ le_bytes 8 (if backup then last_lba else 1) @
         le_bytes 8 (if backup then 1 else last_lba) @ le_bytes 8 (2 + ARRAY_SECS) @
         le_bytes 8 last_usable @ disk_guid @ le_bytes 8 (if backup then last_usable + 1 else 2) @
         le_bytes 4 (of_nat ENTRIES :: u32) @ le_bytes 4 (of_nat ENTRY_SIZE :: u32) @ le_bytes 4 array_crc @
         replicate 420 0)"

definition gpt_header :: "bool \<Rightarrow> u64 \<Rightarrow> bytes \<Rightarrow> u32 \<Rightarrow> bytes" where
  "gpt_header backup last_lba disk_guid array_crc =
     gpt_header_crc (crc32 (take 92 (gpt_header_crc 0 backup last_lba disk_guid array_crc)))
       backup last_lba disk_guid array_crc"

definition protective_mbr :: "u64 \<Rightarrow> bytes" where
  "protective_mbr disk_sectors =
     replicate 446 0 @ [0x00, 0x00, 0x02, 0x00, 0xEE, 0xFF, 0xFF, 0xFF] @ le_bytes 4 (1 :: u32) @
     le_bytes 4 (if disk_sectors - 1 > 0xFFFFFFFF then 0xFFFFFFFF else ucast (disk_sectors - 1) :: u32) @
     replicate 48 0 @ [0x55, 0xAA]"

text \<open>\<open>write_at\<close> puts a buffer of whole sectors at an LBA.\<close>

definition write_at :: "u64 \<Rightarrow> bytes \<Rightarrow> medium \<Rightarrow> medium" where
  "write_at lba buf m =
     (\<lambda>s. if unat (s - lba) < length buf div SECTOR then take SECTOR (drop (unat (s - lba) * SECTOR) buf) else m s)"

fun parts_ok :: "u64 \<Rightarrow> u64 \<Rightarrow> part option \<Rightarrow> part list \<Rightarrow> bool" where
  "parts_ok first_usable last_usable prev [] = True"
| "parts_ok first_usable last_usable prev (p # ps) =
     (if first p < first_usable \<or> last p > last_usable then False
      else if first p > last p then False
      else if (case prev of Some q \<Rightarrow> first p \<le> last q | None \<Rightarrow> False) then False
      else parts_ok first_usable last_usable (Some p) ps)"

definition write_gpt :: "u64 \<Rightarrow> part list \<Rightarrow> (nat \<Rightarrow> bytes) \<Rightarrow> bytes \<Rightarrow> medium \<Rightarrow> medium option" where
  "write_gpt disk_sectors parts rnd disk_rnd m =
     (let last_lba = disk_sectors - 1; first_usable = 2 + ARRAY_SECS; last_usable = last_lba - ARRAY_SECS - 1
      in if \<not> parts_ok first_usable last_usable None parts then None
         else let arr = gpt_array rnd parts; array_crc = crc32 arr; dg = guid_random disk_rnd;
                  m1 = write_at 2 arr m;
                  m2 = write_at 1 (gpt_header False last_lba dg array_crc) m1;
                  m3 = write_at (last_usable + 1) arr m2;
                  m4 = write_at last_lba (gpt_header True last_lba dg array_crc) m3
              in Some (write_at 0 (protective_mbr disk_sectors) m4))"

definition ESP_REST :: bytes where "ESP_REST = [0xBA, 0x4B, 0x00, 0xA0, 0xC9, 0x3E, 0xC9, 0x3B]"
definition LINUX_REST :: bytes where "LINUX_REST = [0x8E, 0x79, 0x3D, 0x69, 0xD8, 0x47, 0x7D, 0xE4]"
definition HOME_REST :: bytes where "HOME_REST = [0xB8, 0x44, 0x0E, 0x14, 0xE2, 0xAE, 0xF9, 0x15]"
definition SWAP_REST :: bytes where "SWAP_REST = [0x84, 0xE5, 0x09, 0x33, 0xC8, 0x4B, 0x4F, 0x4F]"

text \<open>The command line after parsing.\<close>

record vpart_args =
  esp_mb :: u64
  root_mb :: u64
  home_mb :: u64
  swap_mb :: u64
  want_root :: bool
  esp_only :: bool

text \<open>The layout \<open>main\<close> computes from the arguments and the size of the disk.\<close>

definition vpart_layout :: "vpart_args \<Rightarrow> u64 \<Rightarrow> part list option" where
  "vpart_layout a sectors =
     (if esp_mb a = 0 \<and> \<not> esp_only a then None
      else if (home_mb a \<noteq> 0 \<or> swap_mb a \<noteq> 0) \<and> \<not> want_root a then None
      else if sectors < 2048 then None
      else let last_usable = sectors - ARRAY_SECS - 2; start = 2048;
               esp = \<lparr>ptype = guid 0xC12A7328 0xF81F 0x11D2 ESP_REST, first = start,
                      last = (if esp_only a then last_usable else start + esp_mb a * 2048 - 1),
                      pname = [69, 70, 73, 32, 83, 121, 115, 116, 101, 109]\<rparr>;
               next1 = last esp + 1;
               tail = (home_mb a + swap_mb a) * 2048;
               en = (if root_mb a \<noteq> 0 then next1 + root_mb a * 2048 - 1 else last_usable - tail)
           in if want_root a \<and> en \<le> next1 then None
              else let rootp = (if want_root a then [\<lparr>ptype = guid 0x0FC63DAF 0x8483 0x4772 LINUX_REST,
                         first = next1, last = en, pname = [86, 101, 114, 107, 79, 83]\<rparr>] else []);
                       next2 = (if want_root a then en + 1 else next1);
                       homep = (if home_mb a \<noteq> 0 then [\<lparr>ptype = guid 0x933AC7E1 0x2EB4 0x4F13 HOME_REST,
                         first = next2, last = next2 + home_mb a * 2048 - 1, pname = [104, 111, 109, 101]\<rparr>] else []);
                       next3 = (if home_mb a \<noteq> 0 then next2 + home_mb a * 2048 else next2);
                       swapp = (if swap_mb a \<noteq> 0 then [\<lparr>ptype = guid 0x0657FD6D 0xA4AB 0x43C4 SWAP_REST,
                         first = next3, last = next3 + swap_mb a * 2048 - 1, pname = [115, 119, 97, 112]\<rparr>] else [])
                   in Some ([esp] @ rootp @ homep @ swapp))"

definition vpart_main :: "vpart_args \<Rightarrow> u64 \<Rightarrow> (nat \<Rightarrow> bytes) \<Rightarrow> bytes \<Rightarrow> medium \<Rightarrow> medium option" where
  "vpart_main a sectors rnd disk_rnd m =
     (case vpart_layout a sectors of None \<Rightarrow> None | Some parts \<Rightarrow> write_gpt sectors parts rnd disk_rnd m)"

section \<open>What is written\<close>

lemma length_utf16_name [simp]: "length (utf16_name n) = 72"
proof -
  have "length (concat (map (\<lambda>c. [c, 0 :: u8]) cs)) = 2 * length cs" for cs
    by (induction cs) simp_all
  then show ?thesis by (simp add: utf16_name_def Let_def)
qed

lemma length_guid_random [simp]: "length (guid_random r) = length r"
  by (simp add: guid_random_def)

lemma length_gpt_entry [simp]: "length rnd = 16 \<Longrightarrow> length (ptype p) = 16 \<Longrightarrow> length (gpt_entry rnd p) = 128"
  by (simp add: gpt_entry_def)

lemma length_gpt_header [simp]:
  "length dg = 16 \<Longrightarrow> length (gpt_header_crc c b l dg a) = 512" "length dg = 16 \<Longrightarrow> length (gpt_header b l dg a) = 512"
  by (simp_all add: gpt_header_def gpt_header_crc_def efi_part_def Let_def)

lemma length_protective_mbr [simp]: "length (protective_mbr n) = 512"
  by (simp add: protective_mbr_def)

lemma gpt_array_entry0:
  assumes "\<forall>i. length (rnd i) = 16" "\<forall>q \<in> set (p # ps). length (ptype q) = 16" "length (p # ps) \<le> 128"
  shows "length (gpt_array rnd (p # ps)) = 16384" "take 128 (gpt_array rnd (p # ps)) = gpt_entry (rnd 0) p"
proof -
  let ?e = "\<lambda>i. gpt_entry (rnd i) ((p # ps) ! i)"
  define n where "n = length (p # ps)"
  define used where "used = concat (map ?e [0..<n])"
  have e: "length (?e i) = 128" if "i < n" for i
    by (rule length_gpt_entry) (use assms(1,2) nth_mem [OF that [unfolded n_def]] in blast)+
  then have "map length (map ?e [0..<n]) = replicate n 128" by (intro nth_equalityI) simp_all
  then have len: "length used = 128 * n" unfolding used_def by (simp only: length_concat sum_list_replicate) simp
  have arr: "gpt_array rnd (p # ps) = used @ replicate (16384 - length used) 0"
    unfolding gpt_array_def Let_def n_def [symmetric] used_def [symmetric] by (simp add: ENTRIES_def ENTRY_SIZE_def)
  then show "length (gpt_array rnd (p # ps)) = 16384" using len assms(3) by (simp add: n_def)
  have "[0..<n] = 0 # [1..<n]" by (simp add: n_def upt_rec)
  then have "used = ?e 0 @ concat (map ?e [1..<n])" unfolding used_def by simp
  then show "take 128 (gpt_array rnd (p # ps)) = gpt_entry (rnd 0) p"
    unfolding arr using e [of 0] by (simp add: n_def)
qed

lemma gpt_entry_fields:
  assumes "length rnd = 16" "length (ptype p) = 16"
  shows "take 16 (gpt_entry rnd p) = ptype p" "get64 (gpt_entry rnd p) 32 = first p" "get64 (gpt_entry rnd p) 40 = last p"
proof -
  show "take 16 (gpt_entry rnd p) = ptype p" using assms by (simp add: gpt_entry_def)
  have "get64 ((ptype p @ guid_random rnd) @ le_bytes 8 (first p) @ (le_bytes 8 (last p) @ le_bytes 8 (0 :: u64) @
      utf16_name (pname p))) 32 = first p"
    by (rule get64_le_bytes) (simp add: assms)
  then show "get64 (gpt_entry rnd p) 32 = first p" by (simp add: gpt_entry_def)
  have "get64 ((ptype p @ guid_random rnd @ le_bytes 8 (first p)) @ le_bytes 8 (last p) @ (le_bytes 8 (0 :: u64) @
      utf16_name (pname p))) 40 = last p"
    by (rule get64_le_bytes) (simp add: assms)
  then show "get64 (gpt_entry rnd p) 40 = last p" by (simp add: gpt_entry_def)
qed

lemma gpt_header_fields:
  assumes "length dg = 16"
  shows "take 8 (gpt_header False l dg a) = efi_part" "get64 (gpt_header False l dg a) 72 = 2"
    "get32 (gpt_header False l dg a) 80 = 128" "get32 (gpt_header False l dg a) 84 = 128"
proof -
  define c where "c = crc32 (take 92 (gpt_header_crc 0 False l dg a))"
  define pre where "pre = efi_part @ le_bytes 4 (0x00010000 :: u32) @ le_bytes 4 (92 :: u32) @ le_bytes 4 c @
         le_bytes 4 (0 :: u32) @ le_bytes 8 (1 :: u64) @ le_bytes 8 l @ le_bytes 8 (2 + ARRAY_SECS) @
         le_bytes 8 (l - ARRAY_SECS - 1) @ dg"
  have len: "length pre = 72" using assms by (simp add: pre_def efi_part_def)
  have h: "gpt_header False l dg a = pre @ le_bytes 8 (2 :: u64) @ (le_bytes 4 (of_nat ENTRIES :: u32) @
      le_bytes 4 (of_nat ENTRY_SIZE :: u32) @ le_bytes 4 a @ replicate 420 0)"
    unfolding gpt_header_def c_def [symmetric] by (simp add: gpt_header_crc_def pre_def Let_def)
  show "take 8 (gpt_header False l dg a) = efi_part" by (simp add: h pre_def efi_part_def)
  show "get64 (gpt_header False l dg a) 72 = 2" unfolding h by (rule get64_le_bytes [OF len])
  have "get32 ((pre @ le_bytes 8 (2 :: u64)) @ le_bytes 4 (of_nat ENTRIES :: u32) @
      (le_bytes 4 (of_nat ENTRY_SIZE :: u32) @ le_bytes 4 a @ replicate 420 0)) 80 = of_nat ENTRIES"
    by (rule get32_le_bytes) (simp add: len)
  then show "get32 (gpt_header False l dg a) 80 = 128" by (simp add: h ENTRIES_def)
  have "get32 ((pre @ le_bytes 8 (2 :: u64) @ le_bytes 4 (of_nat ENTRIES :: u32)) @ le_bytes 4 (of_nat ENTRY_SIZE :: u32) @
      (le_bytes 4 a @ replicate 420 0)) 84 = of_nat ENTRY_SIZE"
    by (rule get32_le_bytes) (simp add: len)
  then show "get32 (gpt_header False l dg a) 84 = 128" by (simp add: h ENTRY_SIZE_def)
qed

lemma write_at_other: "length buf div 512 \<le> unat (s - lba) \<Longrightarrow> write_at lba buf m s = m s"
  by (simp add: write_at_def SECTOR_def)

lemma write_at_first: "512 \<le> length buf \<Longrightarrow> write_at lba buf m lba = take 512 buf"
  by (simp add: write_at_def SECTOR_def div_greater_zero_iff)

text \<open>Low sectors are out of reach of the backup structures at the end of the disk.\<close>

lemma far:
  assumes "2048 \<le> unat sectors" "k \<le> 2" "j \<le> 33"
  shows "k + j \<le> unat (of_nat k - (sectors - of_nat j) :: u64)"
proof -
  have u: "unat (sectors - of_nat j) = unat sectors - j"
    using assms by (subst unat_sub) (simp_all add: word_le_nat_alt unat_of_nat)
  have "unat (of_nat k - (sectors - of_nat j) :: u64) = 2 ^ 64 + k - (unat sectors - j)"
    using assms u unat_lt64 [of sectors]
    by (auto simp: unat_sub_if' unat_of_nat)
  then show ?thesis using unat_lt64 [of sectors] assms by simp
qed

lemma write_gpt_low:
  assumes "write_gpt sectors parts rnd dr m = Some m'" "2048 \<le> unat sectors"
    and "length dr = 16" "length (gpt_array rnd parts) = 16384"
  shows "m' 1 = gpt_header False (sectors - 1) (guid_random dr) (crc32 (gpt_array rnd parts))"
    "m' 2 = take 512 (gpt_array rnd parts)"
proof -
  let ?arr = "gpt_array rnd parts" and ?dg = "guid_random dr" and ?l = "sectors - 1"
  let ?h = "\<lambda>b. gpt_header b ?l ?dg (crc32 ?arr)"
  have lu: "?l - ARRAY_SECS - 1 + 1 = sectors - 33" by (simp add: ARRAY_SECS_def)
  have m': "m' = write_at 0 (protective_mbr sectors) (write_at ?l (?h True) (write_at (sectors - 33) ?arr
      (write_at 1 (?h False) (write_at 2 ?arr m))))"
    using assms(1) unfolding write_gpt_def Let_def lu by (simp split: if_splits)
  have away: "32 \<le> unat (1 - (sectors - 33))" "32 \<le> unat (2 - (sectors - 33))"
    "1 \<le> unat (1 - ?l)" "1 \<le> unat (2 - ?l)"
    using far [OF assms(2), of 1 33] far [OF assms(2), of 2 33] far [OF assms(2), of 1 1] far [OF assms(2), of 2 1]
    by simp_all
  have len: "length (?h b) = 512" for b using assms(3) by simp
  show "m' 1 = ?h False" "m' 2 = take 512 ?arr"
    unfolding m' using away assms(4) len
    by (simp_all add: write_at_other write_at_first)
qed

lemma vpart_layout_esp:
  assumes "vpart_layout a sectors = Some parts"
  shows "\<exists>p ps. parts = p # ps \<and> ptype p = esp_type \<and> first p = 2048 \<and> length (p # ps) \<le> 4 \<and>
     (\<forall>q \<in> set (p # ps). length (ptype q) = 16)" "2048 \<le> unat sectors"
proof -
  have g: "length (guid d1 d2 d3 r) = 8 + length r" for d1 d2 d3 r by (simp add: guid_def)
  have esp: "guid 0xC12A7328 0xF81F 0x11D2 ESP_REST = esp_type" by code_simp
  show "\<exists>p ps. parts = p # ps \<and> ptype p = esp_type \<and> first p = 2048 \<and> length (p # ps) \<le> 4 \<and>
     (\<forall>q \<in> set (p # ps). length (ptype q) = 16)" "2048 \<le> unat sectors"
    using assms unfolding vpart_layout_def Let_def esp
    by (auto simp: g esp_type_def ESP_REST_def LINUX_REST_def HOME_REST_def SWAP_REST_def word_less_nat_alt
        not_less split: if_splits)
qed

section \<open>Properties\<close>

text \<open>
  C21: the kernel finds the partition \<open>vpart\<close> made. Whatever sizes were asked for, when \<open>vpart\<close> writes a table
  the layout begins with the EFI system partition at sector 2048, and on a disk that holds what it wrote and
  answers reads, \<open>gpt_find_esp\<close> returns exactly the start and the length of that partition.
\<close>
theorem vpart_gpt_roundtrip:
  assumes "vpart_main a sectors rnd dr m = Some m'"
    and "\<forall>i. length (rnd i) = 16" "length dr = 16"
    and "present d" "capacity d = sectors" "medium d = m'" "\<forall>s. \<not> fails d False s"
  shows "\<exists>p ps. vpart_layout a sectors = Some (p # ps) \<and> first p = 2048 \<and> first p \<le> last p \<and>
     gpt_find_esp d = Some (first p, last p - first p + 1)"
proof -
  obtain parts where lay: "vpart_layout a sectors = Some parts" and w: "write_gpt sectors parts rnd dr m = Some m'"
    using assms(1) by (auto simp: vpart_main_def split: option.splits)
  obtain p ps where p: "parts = p # ps" "ptype p = esp_type" "first p = 2048" "length (p # ps) \<le> 4"
    "\<forall>q \<in> set (p # ps). length (ptype q) = 16" using vpart_layout_esp(1) [OF lay] by blast
  have big: "2048 \<le> unat sectors" by (rule vpart_layout_esp(2) [OF lay])
  have le: "first p \<le> last p" using w p(1) by (auto simp: write_gpt_def Let_def not_less split: if_splits)
  have arr: "length (gpt_array rnd parts) = 16384" "take 128 (gpt_array rnd parts) = gpt_entry (rnd 0) p"
    using gpt_array_entry0 [OF assms(2) p(5)] p(1,4) by simp_all
  note low = write_gpt_low [OF w big assms(3) arr(1)]
  note hf = gpt_header_fields [of "guid_random dr", simplified, OF assms(3)]
  have rd: "blk_read d 1 = Some (gpt_header False (sectors - 1) (guid_random dr) (crc32 (gpt_array rnd parts)))"
    "blk_read d 2 = Some (take 512 (gpt_array rnd parts))"
    using assms(4-7) low big by (auto simp: blk_read_def word_le_nat_alt)
  let ?sec = "take 512 (gpt_array rnd parts)"
  have e: "take 128 ?sec = gpt_entry (rnd 0) p" using arr by (simp add: take_take min_def)
  note ef = gpt_entry_fields [of "rnd 0" p] 
  have f: "take 16 ?sec = esp_type" "get64 ?sec 32 = first p" "get64 ?sec 40 = last p"
  proof -
    have "take 16 ?sec = take 16 (take 128 ?sec)" by simp
    then show "take 16 ?sec = esp_type" using ef(1) assms(2) p(2,5) by (simp only: e) simp
    show "get64 ?sec 32 = first p" using get64_window [of 32 128 0 ?sec] ef(2) e assms(2) p(5) arr(1) by simp
    show "get64 ?sec 40 = last p" using get64_window [of 40 128 0 ?sec] ef(3) e assms(2) p(5) arr(1) by simp
  qed
  have "[0..<unat (128 :: u32)] = 0 # [1..<128]" by (simp add: upt_rec)
  then have "gpt_find_esp d = Some (first p, last p - first p + 1)"
    unfolding gpt_find_esp_def using assms(4) rd hf f le by (simp add: Let_def not_less)
  then show ?thesis using lay p(1,3) le by blast
qed

theorem vpart_gpt_roundtrip_witness:
  "\<exists>m'. vpart_main \<lparr>esp_mb = 64, root_mb = 0, home_mb = 0, swap_mb = 0, want_root = True, esp_only = False\<rparr>
        262144 (\<lambda>_. replicate 16 7) (replicate 16 9) (\<lambda>_. replicate 512 0) = Some m' \<and>
     gpt_find_esp \<lparr>present = True, capacity = 262144, medium = m', fails = \<lambda>_ _. False\<rparr> = Some (2048, 131072)"
proof -
  let ?a = "\<lparr>esp_mb = 64, root_mb = 0, home_mb = 0, swap_mb = 0, want_root = True, esp_only = False\<rparr>"
  have "vpart_main ?a 262144 (\<lambda>_. replicate 16 7) (replicate 16 9) (\<lambda>_. replicate 512 0) \<noteq> None"
    by (simp add: vpart_main_def vpart_layout_def write_gpt_def ARRAY_SECS_def Let_def)
  then obtain m' where m': "vpart_main ?a 262144 (\<lambda>_. replicate 16 7) (replicate 16 9) (\<lambda>_. replicate 512 0) = Some m'"
    by blast
  let ?d = "\<lparr>present = True, capacity = 262144, medium = m', fails = \<lambda>_ _. False\<rparr>"
  obtain p ps where "vpart_layout ?a 262144 = Some (p # ps)" "gpt_find_esp ?d = Some (first p, last p - first p + 1)"
    using vpart_gpt_roundtrip [OF m', of ?d] by auto
  then show ?thesis using m' by (auto simp: vpart_layout_def ARRAY_SECS_def Let_def)
qed

end
