(* ===== verification/Fat.thy ===== *)
theory Fat
  imports Gpt
begin

text \<open>
  The FAT32 filesystem of the kernel (\<open>stam/fat.c\<close>), reading and writing, over the disk of \<open>Gpt\<close>.

  The file's static variables are the fields of the record \<open>fatfs\<close>, the two sector buffers among them:
  every function that fills one leaves it filled. A C string is the list of its bytes before the NUL. The long-name
  buffer of \<open>dir_find\<close> and \<open>fat_dirent\<close> is an uninitialised local array; what the stack holds there is the
  field \<open>lfn_init\<close>.

  A loop over a cluster chain ends only if the chain does, and a damaged table may hold a cycle. Such
  loops carry fuel of one more than the number of clusters of the volume, and \<open>None\<close> is a loop that has not ended.
  The loops that copy data are bounded by the number of bytes and need no such value.
\<close>

record fatfs =
  bytes_per_sec :: u32
  sec_per_clus :: u32
  first_data_sec :: u32
  fat_start :: u32
  root_clus :: u32
  fsinfo_sec :: u32
  total_clus :: u32
  nfats :: u32
  fatsz :: u32
  mounted :: bool
  part_lba :: u64
  secbuf :: bytes
  dirbuf :: bytes
  lfn_init :: bytes
  dsk :: disk

record fat_file =
  cluster :: u32
  fsize :: u32
  is_dir :: bool
  dir_sec :: u64
  dir_off :: u32

section \<open>Sectors\<close>

text \<open>The boolean says whether the C function returned 0.\<close>

definition rd_secbuf :: "u64 \<Rightarrow> fatfs \<Rightarrow> bool \<times> fatfs" where
  "rd_secbuf n s =
     (case blk_read (dsk s) (part_lba s + n) of None \<Rightarrow> (False, s) | Some b \<Rightarrow> (True, s\<lparr>secbuf := b\<rparr>))"

definition rd_dirbuf :: "u64 \<Rightarrow> fatfs \<Rightarrow> bool \<times> fatfs" where
  "rd_dirbuf n s =
     (case blk_read (dsk s) (part_lba s + n) of None \<Rightarrow> (False, s) | Some b \<Rightarrow> (True, s\<lparr>dirbuf := b\<rparr>))"

definition wr_sec :: "u64 \<Rightarrow> bytes \<Rightarrow> fatfs \<Rightarrow> bool \<times> fatfs" where
  "wr_sec n b s =
     (case blk_write (dsk s) (part_lba s + n) b of None \<Rightarrow> (False, s) | Some d \<Rightarrow> (True, s\<lparr>dsk := d\<rparr>))"

definition wr16 :: "nat \<Rightarrow> u16 \<Rightarrow> bytes \<Rightarrow> bytes" where
  "wr16 p v b = splice p (le_bytes 2 v) b"

definition wr32 :: "nat \<Rightarrow> u32 \<Rightarrow> bytes \<Rightarrow> bytes" where
  "wr32 p v b = splice p (le_bytes 4 v) b"

definition fat_mount :: "fatfs \<Rightarrow> bool \<times> fatfs" where
  "fat_mount s =
     (if \<not> present (dsk s) then (False, s)
      else let s0 = s\<lparr>part_lba := (case gpt_find_esp (dsk s) of Some (start, _) \<Rightarrow> start | None \<Rightarrow> 0)\<rparr>;
               (ok, s1) = rd_secbuf 0 s0; b = secbuf s1
           in if \<not> ok then (False, s1)
              else if b ! 510 \<noteq> 0x55 \<or> b ! 511 \<noteq> 0xaa then (False, s1)
              else let reserved = ucast (get16 b 14) :: u32; totsec = get32 b 32;
                       s2 = s1\<lparr>bytes_per_sec := ucast (get16 b 11), sec_per_clus := ucast (b ! 13),
                               nfats := ucast (b ! 16), fatsz := get32 b 36, root_clus := get32 b 44\<rparr>
                   in if bytes_per_sec s2 \<noteq> 512 \<or> sec_per_clus s2 = 0 \<or> fatsz s2 = 0 \<or> nfats s2 = 0 \<or> root_clus s2 < 2
                      then (False, s2)
                      else let fds = reserved + nfats s2 * fatsz s2
                           in (True, s2\<lparr>fsinfo_sec := ucast (get16 b 48), fat_start := reserved, first_data_sec := fds,
                                       total_clus := (totsec - fds) div sec_per_clus s2 + 2, mounted := True\<rparr>))"

definition clus_sector :: "u32 \<Rightarrow> fatfs \<Rightarrow> u64" where
  "clus_sector c s = ucast (first_data_sec s) + ucast (c - 2) * ucast (sec_per_clus s)"

section \<open>The table\<close>

text \<open>The sector of copy \<open>k\<close> of the table that holds the entry of cluster \<open>c\<close>, and its offset there.\<close>

definition fat_sec :: "u32 \<Rightarrow> u32 \<Rightarrow> fatfs \<Rightarrow> u64" where
  "fat_sec k c s = ucast (fat_start s) + ucast k * ucast (fatsz s) + ucast c * 4 div 512"

definition fat_off :: "u32 \<Rightarrow> nat" where
  "fat_off c = unat (ucast c * 4 mod 512 :: u64)"

primrec fat_set_copies :: "u32 \<Rightarrow> u32 \<Rightarrow> nat list \<Rightarrow> fatfs \<Rightarrow> bool \<times> fatfs" where
  "fat_set_copies c v [] s = (True, s)"
| "fat_set_copies c v (k # ks) s =
     (let n = fat_sec (of_nat k) c s; (ok, s1) = rd_secbuf n s
      in if \<not> ok then (False, s1)
         else let old = get32 (secbuf s1) (fat_off c);
                  s2 = s1\<lparr>secbuf := wr32 (fat_off c) ((old AND 0xf0000000) OR (v AND 0x0fffffff)) (secbuf s1)\<rparr>;
                  (ok', s3) = wr_sec n (secbuf s2) s2
              in if \<not> ok' then (False, s3) else fat_set_copies c v ks s3)"

definition fat_set :: "u32 \<Rightarrow> u32 \<Rightarrow> fatfs \<Rightarrow> bool \<times> fatfs" where
  "fat_set c v s =
     (if c < 2 \<or> c \<ge> total_clus s then (False, s) else fat_set_copies c v [0..<unat (nfats s)] s)"

primrec clear_sectors :: "u64 \<Rightarrow> nat list \<Rightarrow> fatfs \<Rightarrow> bool \<times> fatfs" where
  "clear_sectors n [] s = (True, s)"
| "clear_sectors n (k # ks) s =
     (let (ok, s1) = wr_sec (n + of_nat k) (secbuf s) s
      in if \<not> ok then (False, s1) else clear_sectors n ks s1)"

text \<open>The scan for a free cluster, with the number of the sector it has in its buffer; 0 is failure.\<close>

primrec clus_scan :: "nat list \<Rightarrow> u64 option \<Rightarrow> fatfs \<Rightarrow> u32 \<times> fatfs" where
  "clus_scan [] cached s = (0, s)"
| "clus_scan (n # ns) cached s =
     (let c = of_nat n :: u32; sec = fat_sec 0 c s;
          (ok, s1) = (if Some sec \<noteq> cached then rd_secbuf sec s else (True, s))
      in if \<not> ok then (0, s1)
         else if get32 (secbuf s1) (fat_off c) AND 0x0fffffff \<noteq> 0 then clus_scan ns (Some sec) s1
         else let (ok2, s2) = fat_set c 0x0ffffff8 s1
              in if \<not> ok2 then (0, s2)
                 else let s3 = s2\<lparr>secbuf := replicate 512 0\<rparr>;
                          (ok4, s4) = clear_sectors (clus_sector c s3) [0..<unat (sec_per_clus s3)] s3
                      in (if ok4 then c else 0, s4))"

definition clus_alloc :: "fatfs \<Rightarrow> u32 \<times> fatfs" where
  "clus_alloc s = clus_scan [2..<unat (total_clus s)] None s"

definition fsinfo_update :: "fatfs \<Rightarrow> fatfs" where
  "fsinfo_update s =
     (if fsinfo_sec s = 0 then s
      else let (ok, s1) = rd_dirbuf (ucast (fsinfo_sec s)) s
           in if \<not> ok then s1
              else if get32 (dirbuf s1) 0 \<noteq> 0x41615252 then s1
              else let s2 = s1\<lparr>dirbuf := wr32 492 0xffffffff (wr32 488 0xffffffff (dirbuf s1))\<rparr>
                   in snd (wr_sec (ucast (fsinfo_sec s2)) (dirbuf s2) s2))"

definition fat_sync :: "fatfs \<Rightarrow> fatfs" where
  "fat_sync s = (if mounted s then fsinfo_update s else s)"

definition fat_next :: "u32 \<Rightarrow> fatfs \<Rightarrow> u32 \<times> fatfs" where
  "fat_next c s =
     (if c < 2 \<or> c \<ge> total_clus s then (0, s)
      else let (ok, s1) = rd_secbuf (fat_sec 0 c s) s
           in if \<not> ok then (0, s1)
              else let v = get32 (secbuf s1) (fat_off c) AND 0x0fffffff
                   in (if v \<ge> 0x0ffffff8 \<or> v < 2 then 0 else v, s1))"

section \<open>Names\<close>

definition upper :: "u8 \<Rightarrow> u8" where
  "upper c = (if 97 \<le> c \<and> c \<le> 122 then c - 32 else c)"

definition cstr :: "bytes \<Rightarrow> bytes" where
  "cstr b = takeWhile (\<lambda>c. c \<noteq> 0) b"

definition short_name :: "bytes \<Rightarrow> bytes" where
  "short_name e =
     cstr (takeWhile (\<lambda>c. c \<noteq> 32) (take 8 e) @
       (if e ! 8 \<noteq> 32 then 46 # takeWhile (\<lambda>c. c \<noteq> 32) (take 3 (drop 8 e)) else []))"

definition lfn_chars :: "bytes \<Rightarrow> bytes" where
  "lfn_chars e =
     map (\<lambda>o'. let u = get16 e o' in if u = 0 \<or> u = 0xffff then 0 else ucast (u AND 0xff))
       [1, 3, 5, 7, 9, 14, 16, 18, 20, 22, 24, 28, 30]"

definition name_eq :: "bytes \<Rightarrow> bytes \<Rightarrow> bool" where
  "name_eq a b \<longleftrightarrow> map upper a = map upper b"

section \<open>Directories\<close>

text \<open>
  The entries of a sector are visited in order with the state of the long name collected so far. The
  visit of an entry ends the directory, goes on to the next entry, or reaches an entry with a name.
\<close>

datatype visit = DirEnd | Skip bytes nat | Named "bytes option"

definition visit_entry :: "bytes \<Rightarrow> bytes \<Rightarrow> nat \<Rightarrow> visit" where
  "visit_entry e lfn lfn_len =
     (if e ! 0 = 0 then DirEnd
      else if e ! 0 = 0xe5 then Skip lfn 0
      else if e ! 11 AND 0x0f = 0x0f then
        let seq = unat (e ! 0 AND 0x3f)
        in if 1 \<le> seq \<and> seq \<le> 20 then
             let at = (seq - 1) * 13
             in Skip ((splice at (lfn_chars e) lfn)[260 := 0]) (if at + 13 > lfn_len then at + 13 else lfn_len)
           else Skip lfn lfn_len
      else if e ! 11 AND 0x08 \<noteq> 0 then Skip lfn 0
      else Named (if lfn_len \<noteq> 0 then
             let n = takeWhile (\<lambda>c. c \<noteq> 0) (take (min lfn_len 260) lfn) in (if n \<noteq> [] then Some n else None)
           else None))"

datatype 'a found = Hit 'a | Miss | More bytes nat nat

definition entry_file :: "bytes \<Rightarrow> u64 \<Rightarrow> nat \<Rightarrow> fat_file" where
  "entry_file e sec i =
     (let c = push_bit 16 (ucast (get16 e 20)) OR ucast (get16 e 26)
      in \<lparr>cluster = (if c < 2 then 0 else c), fsize = get32 e 28, is_dir = (e ! 11 AND 0x10 \<noteq> 0),
          dir_sec = sec, dir_off = of_nat i\<rparr>)"

primrec find_in_sector :: "bytes \<Rightarrow> u64 \<Rightarrow> bytes \<Rightarrow> nat list \<Rightarrow> bytes \<Rightarrow> nat \<Rightarrow> fat_file found" where
  "find_in_sector name sec b [] lfn lfn_len = More lfn lfn_len 0"
| "find_in_sector name sec b (i # is) lfn lfn_len =
     (let e = take 32 (drop i b)
      in case visit_entry e lfn lfn_len of
           DirEnd \<Rightarrow> Miss
         | Skip l n \<Rightarrow> find_in_sector name sec b is l n
         | Named long \<Rightarrow>
             if name_eq (short_name e) name \<or> (case long of Some l \<Rightarrow> name_eq l name | None \<Rightarrow> False)
             then Hit (entry_file e sec i)
             else find_in_sector name sec b is lfn 0)"

definition entry_offsets :: "nat list" where
  "entry_offsets = map (\<lambda>k. 32 * k) [0..<16]"

primrec find_in_cluster :: "bytes \<Rightarrow> u32 \<Rightarrow> nat list \<Rightarrow> bytes \<Rightarrow> nat \<Rightarrow> fatfs \<Rightarrow> fat_file found \<times> fatfs" where
  "find_in_cluster name c [] lfn lfn_len s = (More lfn lfn_len 0, s)"
| "find_in_cluster name c (k # ks) lfn lfn_len s =
     (let n = clus_sector c s + of_nat k; (ok, s1) = rd_dirbuf n s
      in if \<not> ok then (Miss, s1)
         else case find_in_sector name n (dirbuf s1) entry_offsets lfn lfn_len of
           More l m _ \<Rightarrow> find_in_cluster name c ks l m s1
         | r \<Rightarrow> (r, s1))"

primrec dir_find_loop :: "nat \<Rightarrow> u32 \<Rightarrow> bytes \<Rightarrow> bytes \<Rightarrow> nat \<Rightarrow> fatfs \<Rightarrow> (fat_file option \<times> fatfs) option" where
  "dir_find_loop 0 c name lfn lfn_len s = None"
| "dir_find_loop (Suc fuel) c name lfn lfn_len s =
     (if c = 0 then Some (None, s)
      else case find_in_cluster name c [0..<unat (sec_per_clus s)] lfn lfn_len s of
        (Hit f, s1) \<Rightarrow> Some (Some f, s1)
      | (Miss, s1) \<Rightarrow> Some (None, s1)
      | (More l m _, s1) \<Rightarrow> let (c', s2) = fat_next c s1 in dir_find_loop fuel c' name l m s2)"

definition chain_fuel :: "fatfs \<Rightarrow> nat" where
  "chain_fuel s = Suc (Suc (unat (total_clus s)))"

definition dir_find :: "u32 \<Rightarrow> bytes \<Rightarrow> fatfs \<Rightarrow> (fat_file option \<times> fatfs) option" where
  "dir_find dir name s = dir_find_loop (chain_fuel s) dir name (lfn_init s) 0 s"

definition root_file :: "fatfs \<Rightarrow> fat_file" where
  "root_file s = \<lparr>cluster = root_clus s, fsize = 0, is_dir = True, dir_sec = 0, dir_off = 0\<rparr>"

definition skip_slashes :: "bytes \<Rightarrow> bytes" where
  "skip_slashes p = dropWhile (\<lambda>c. c = 47) p"

definition first_part :: "bytes \<Rightarrow> bytes" where
  "first_part p = take 63 (takeWhile (\<lambda>c. c \<noteq> 47) p)"

lemma rest_shorter: "p \<noteq> [] \<Longrightarrow> length (skip_slashes (drop (length (first_part p)) p)) < length p"
proof (cases p)
  case (Cons c cs)
  have d: "length (dropWhile P xs) \<le> length xs" for P and xs :: bytes
    by (induction xs) auto
  show ?thesis
  proof (cases "c = 47")
    case True
    then show ?thesis using Cons d [of "\<lambda>c. c = 47" cs] by (simp add: skip_slashes_def first_part_def)
  next
    case False
    then have "0 < length (first_part p)" "0 < length p" using Cons by (simp_all add: first_part_def)
    then show ?thesis using d [of "\<lambda>c. c = 47" "drop (length (first_part p)) p"]
      unfolding skip_slashes_def length_drop by linarith
  qed
qed simp

lemma rest_shorter0: "p \<noteq> [] \<Longrightarrow> [] = first_part p \<Longrightarrow> length (skip_slashes p) < length p"
proof -
  assume "p \<noteq> []" "[] = first_part p"
  then have "drop (length (first_part p)) p = p" by (metis drop0 list.size(3))
  then show ?thesis using rest_shorter [OF \<open>p \<noteq> []\<close>] by simp
qed

function fat_open_from :: "bytes \<Rightarrow> fat_file \<Rightarrow> fatfs \<Rightarrow> (fat_file option \<times> fatfs) option" where
  "fat_open_from path cur s =
     (if path = [] then Some (Some cur, s)
      else let part = first_part path; rest = skip_slashes (drop (length part) path)
           in if part = [] then fat_open_from rest cur s
              else if \<not> is_dir cur then Some (None, s)
              else case dir_find (if cluster cur \<noteq> 0 then cluster cur else root_clus s) part s of
                None \<Rightarrow> None
              | Some (None, s1) \<Rightarrow> Some (None, s1)
              | Some (Some f, s1) \<Rightarrow> fat_open_from rest f s1)"
  by pat_completeness auto
termination
  by (relation "measure (\<lambda>(path, cur, s). length path)") (auto simp: rest_shorter rest_shorter0)

declare fat_open_from.simps [simp del]

definition fat_open :: "bytes \<Rightarrow> fatfs \<Rightarrow> (fat_file option \<times> fatfs) option" where
  "fat_open path s =
     (if \<not> mounted s then Some (None, s) else fat_open_from (skip_slashes path) (root_file s) s)"

section \<open>Reading\<close>

primrec fat_skip :: "nat \<Rightarrow> u32 \<Rightarrow> fatfs \<Rightarrow> u32 \<times> fatfs" where
  "fat_skip 0 c s = (c, s)"
| "fat_skip (Suc n) c s = (if c = 0 then (c, s) else let (c', s1) = fat_next c s in fat_skip n c' s1)"

definition cluster_bytes :: "fatfs \<Rightarrow> nat" where
  "cluster_bytes s = unat (sec_per_clus s) * 512"

text \<open>
  The copying loop: \<open>todo\<close> bytes are left. The result is the bytes copied, and whether a read failed; each
  turn copies at least one byte, so fuel of one more than \<open>todo\<close> is enough.
\<close>

primrec fat_read_loop :: "nat \<Rightarrow> u32 \<Rightarrow> nat \<Rightarrow> nat \<Rightarrow> bytes \<Rightarrow> fatfs \<Rightarrow> (bytes \<times> bool) \<times> fatfs" where
  "fat_read_loop 0 c within todo done' s = ((done', False), s)"
| "fat_read_loop (Suc fuel) c within todo done' s =
     (if todo = 0 \<or> c = 0 then ((done', False), s)
      else let k = within div 512; in_sec = within mod 512;
               (ok, s1) = rd_secbuf (clus_sector c s + of_nat k) s
           in if \<not> ok then ((done', True), s1)
              else let n = min (512 - in_sec) todo;
                       done'' = done' @ take n (drop in_sec (secbuf s1));
                       within' = within + n
                   in if within' \<ge> cluster_bytes s1 then
                        let (c', s2) = fat_next c s1 in fat_read_loop fuel c' 0 (todo - n) done'' s2
                      else fat_read_loop fuel c within' (todo - n) done'' s1)"

text \<open>\<open>None\<close> is -1, otherwise the bytes that were stored in the caller's buffer.\<close>

definition fat_read :: "fat_file \<Rightarrow> u64 \<Rightarrow> u64 \<Rightarrow> fatfs \<Rightarrow> bytes option \<times> fatfs" where
  "fat_read f off len s =
     (if \<not> mounted s \<or> is_dir f then (None, s)
      else if off \<ge> ucast (fsize f) then (Some [], s)
      else let len' = (if off + len > ucast (fsize f) then ucast (fsize f) - off else len);
               (c, s1) = fat_skip (unat off div cluster_bytes s) (cluster f) s;
               ((bs, failed), s2) = fat_read_loop (Suc (unat len')) c (unat off mod cluster_bytes s) (unat len') [] s1
           in if failed \<and> bs = [] then (None, s2) else (Some bs, s2))"

section \<open>Writing\<close>

definition dir_writeback :: "fat_file \<Rightarrow> fatfs \<Rightarrow> bool \<times> fatfs" where
  "dir_writeback f s =
     (if dir_sec f = 0 then (False, s)
      else let (ok, s1) = rd_dirbuf (dir_sec f) s; e = unat (dir_off f)
           in if \<not> ok then (False, s1)
              else let b = wr16 (e + 26) (ucast (cluster f AND 0xffff))
                            (wr16 (e + 20) (ucast (drop_bit 16 (cluster f))) (wr32 (e + 28) (fsize f) (dirbuf s1)))
                   in wr_sec (dir_sec f) b (s1\<lparr>dirbuf := b\<rparr>))"

text \<open>The next cluster of a chain, taken from the free ones and linked when the chain ends; 0 is failure.\<close>

definition fat_extend :: "u32 \<Rightarrow> fatfs \<Rightarrow> u32 \<times> fatfs" where
  "fat_extend c s =
     (let (n, s1) = fat_next c s
      in if n \<noteq> 0 then (n, s1)
         else let (n', s2) = clus_alloc s1
              in if n' = 0 then (0, s2)
                 else let (ok, s3) = fat_set c n' s2 in (if ok then n' else 0, s3))"

primrec fat_walk_write :: "nat \<Rightarrow> u32 \<Rightarrow> fatfs \<Rightarrow> u32 \<times> fatfs" where
  "fat_walk_write 0 c s = (c, s)"
| "fat_walk_write (Suc n) c s =
     (let (c', s1) = fat_extend c s in if c' = 0 then (0, s1) else fat_walk_write n c' s1)"

text \<open>How the copying loop ended: all written, out of clusters (\<open>break\<close>), or a sector that failed (\<open>return\<close>).\<close>

datatype wr_end = WrAll | WrBreak | WrFail

primrec fat_write_loop :: "nat \<Rightarrow> u32 \<Rightarrow> nat \<Rightarrow> bytes \<Rightarrow> nat \<Rightarrow> fatfs \<Rightarrow> (wr_end \<times> nat) \<times> fatfs" where
  "fat_write_loop 0 c within src done' s = ((WrAll, done'), s)"
| "fat_write_loop (Suc fuel) c within src done' s =
     (if src = [] then ((WrAll, done'), s)
      else let k = within div 512; in_sec = within mod 512; n = min (512 - in_sec) (length src);
               sec = clus_sector c s + of_nat k;
               (ok, s1) = (if n \<noteq> 512 then rd_secbuf sec s else (True, s))
           in if \<not> ok then ((WrFail, done'), s1)
              else let s2 = s1\<lparr>secbuf := splice in_sec (take n src) (secbuf s1)\<rparr>;
                       (ok3, s3) = wr_sec sec (secbuf s2) s2
                   in if \<not> ok3 then ((WrFail, done'), s3)
                      else let src' = drop n src; within' = within + n; done'' = done' + n
                           in if src' \<noteq> [] \<and> within' \<ge> cluster_bytes s3 then
                                let (c', s4) = fat_extend c s3
                                in if c' = 0 then ((WrBreak, done''), s4)
                                   else fat_write_loop fuel c' 0 src' done'' s4
                              else fat_write_loop fuel c within' src' done'' s3)"

text \<open>The number of bytes written, \<open>None\<close> for -1; the file's own fields are updated in place.\<close>

definition fat_write :: "fat_file \<Rightarrow> u64 \<Rightarrow> bytes \<Rightarrow> fatfs \<Rightarrow> (nat option \<times> fat_file) \<times> fatfs" where
  "fat_write f off src s =
     (if \<not> mounted s \<or> is_dir f \<or> dir_sec f = 0 then ((None, f), s)
      else if src = [] then ((Some 0, f), s)
      else if off > ucast (fsize f) then ((None, f), s)
      else let (c0, s0) = (if cluster f = 0 then clus_alloc s else (cluster f, s)); f0 = f\<lparr>cluster := c0\<rparr>
           in if c0 = 0 then ((None, f0), s0)
              else let (c, s1) = fat_walk_write (unat off div cluster_bytes s0) c0 s0
                   in if c = 0 then ((None, f0), s1)
                      else let ((r, n), s2) = fat_write_loop (Suc (length src)) c (unat off mod cluster_bytes s0) src 0 s1
                           in if r = WrFail then ((if n \<noteq> 0 then Some n else None, f0), s2)
                              else let f1 = (if off + of_nat n > ucast (fsize f0)
                                             then f0\<lparr>fsize := ucast (off + of_nat n)\<rparr> else f0);
                                       (ok, s3) = dir_writeback f1 s2
                                   in ((if \<not> ok \<and> n = 0 then None else Some n, f1), s3))"

primrec free_chain :: "nat \<Rightarrow> u32 \<Rightarrow> fatfs \<Rightarrow> fatfs option" where
  "free_chain 0 c s = None"
| "free_chain (Suc fuel) c s =
     (if c = 0 then Some s
      else let (next, s1) = fat_next c s; (ok, s2) = fat_set c 0 s1
           in if \<not> ok then Some s2 else free_chain fuel next s2)"

definition fat_truncate :: "fat_file \<Rightarrow> fatfs \<Rightarrow> ((bool \<times> fat_file) \<times> fatfs) option" where
  "fat_truncate f s =
     (if \<not> mounted s \<or> is_dir f \<or> dir_sec f = 0 then Some ((False, f), s)
      else case free_chain (chain_fuel s) (cluster f) s of
        None \<Rightarrow> None
      | Some s1 \<Rightarrow> let f1 = f\<lparr>cluster := 0, fsize := 0\<rparr>; (ok, s2) = dir_writeback f1 s1 in Some ((ok, f1), s2))"

section \<open>Making names\<close>

text \<open>The position of the last dot, -1 (here \<open>None\<close>) when there is none.\<close>

definition last_dot :: "bytes \<Rightarrow> nat option" where
  "last_dot name = (case filter (\<lambda>i. name ! i = 46) [0..<length name] of [] \<Rightarrow> None | is \<Rightarrow> Some (List.last is))"

primrec make_83_loop :: "bytes \<Rightarrow> nat \<Rightarrow> nat option \<Rightarrow> nat \<Rightarrow> nat \<Rightarrow> bytes \<Rightarrow> (nat \<times> bytes) option" where
  "make_83_loop [] i dot n e out = Some (n, out)"
| "make_83_loop (ch # name) i dot n e out =
     (let u = upper ch
      in if u = 47 \<or> u = 0 then None
         else if Some i = dot then make_83_loop name (Suc i) dot n e out
         else if (case dot of Some d \<Rightarrow> i > d | None \<Rightarrow> False) then
           if e \<ge> 3 then None else make_83_loop name (Suc i) dot n (Suc e) (out[8 + e := u])
         else if n \<ge> 8 then None else make_83_loop name (Suc i) dot (Suc n) e (out[n := u]))"

definition make_83 :: "bytes \<Rightarrow> bytes option" where
  "make_83 name =
     (case make_83_loop name 0 (last_dot name) 0 0 (replicate 11 32) of
        None \<Rightarrow> None | Some (n, out) \<Rightarrow> if n \<noteq> 0 then Some out else None)"

text \<open>The last component of a path without leading slashes, and what stands before it.\<close>

definition last_part :: "bytes \<Rightarrow> bytes" where
  "last_part p = rev (takeWhile (\<lambda>c. c \<noteq> 47) (rev p))"

definition parent_part :: "bytes \<Rightarrow> bytes" where
  "parent_part p = take 127 (take (length p - length (last_part p) - 1) p)"

definition new_entry :: "bytes \<Rightarrow> bytes" where
  "new_entry name83 = (name83 @ replicate 21 0)[11 := 0x20]"

primrec free_slot :: "bytes \<Rightarrow> nat list \<Rightarrow> nat option" where
  "free_slot b [] = None"
| "free_slot b (i # is) = (if b ! i \<noteq> 0 \<and> b ! i \<noteq> 0xe5 then free_slot b is else Some i)"

datatype slot_out = Placed fat_file | SlotFail | NoSlot

primrec place_in_cluster :: "bytes \<Rightarrow> u32 \<Rightarrow> nat list \<Rightarrow> fatfs \<Rightarrow> slot_out \<times> fatfs" where
  "place_in_cluster name83 c [] s = (NoSlot, s)"
| "place_in_cluster name83 c (k # ks) s =
     (let n = clus_sector c s + of_nat k; (ok, s1) = rd_dirbuf n s
      in if \<not> ok then (SlotFail, s1)
         else case free_slot (dirbuf s1) entry_offsets of
           None \<Rightarrow> place_in_cluster name83 c ks s1
         | Some i \<Rightarrow>
             let s2 = s1\<lparr>dirbuf := splice i (new_entry name83) (dirbuf s1)\<rparr>; (ok3, s3) = wr_sec n (dirbuf s2) s2
             in if \<not> ok3 then (SlotFail, s3)
                else (Placed \<lparr>cluster = 0, fsize = 0, is_dir = False, dir_sec = n, dir_off = of_nat i\<rparr>, s3))"

text \<open>The search along the directory's chain; the last cluster seen comes back when no slot was free.\<close>

primrec place_loop :: "nat \<Rightarrow> bytes \<Rightarrow> u32 \<Rightarrow> u32 \<Rightarrow> fatfs \<Rightarrow> ((slot_out \<times> u32) \<times> fatfs) option" where
  "place_loop 0 name83 c last_c s = None"
| "place_loop (Suc fuel) name83 c last_c s =
     (if c = 0 then Some ((NoSlot, last_c), s)
      else case place_in_cluster name83 c [0..<unat (sec_per_clus s)] s of
        (NoSlot, s1) \<Rightarrow> let (c', s2) = fat_next c s1 in place_loop fuel name83 c' c s2
      | (r, s1) \<Rightarrow> Some ((r, c), s1))"

definition place_new_cluster :: "bytes \<Rightarrow> u32 \<Rightarrow> fatfs \<Rightarrow> fat_file option \<times> fatfs" where
  "place_new_cluster name83 last_c s =
     (let (nc, s1) = clus_alloc s
      in if nc = 0 then (None, s1)
         else let (ok, s2) = fat_set last_c nc s1
              in if \<not> ok then (None, s2)
                 else let (ok3, s3) = rd_dirbuf (clus_sector nc s2) s2
                      in if \<not> ok3 then (None, s3)
                         else let s4 = s3\<lparr>dirbuf := splice 0 (new_entry name83) (dirbuf s3)\<rparr>;
                                  (ok5, s5) = wr_sec (clus_sector nc s4) (dirbuf s4) s4
                              in if \<not> ok5 then (None, s5)
                                 else (Some \<lparr>cluster = 0, fsize = 0, is_dir = False,
                                             dir_sec = clus_sector nc s4, dir_off = 0\<rparr>, s5))"

definition fat_create :: "bytes \<Rightarrow> fatfs \<Rightarrow> (fat_file option \<times> fatfs) option" where
  "fat_create path s =
     (if \<not> mounted s then Some (None, s)
      else case fat_open path s of
        None \<Rightarrow> None
      | Some (Some _, s1) \<Rightarrow> Some (None, s1)
      | Some (None, s1) \<Rightarrow>
          let p = skip_slashes path; lastp = last_part p;
              dirr = (if lastp \<noteq> p then
                        case fat_open (parent_part p) s1 of
                          None \<Rightarrow> None
                        | Some (None, s2) \<Rightarrow> Some (None, s2)
                        | Some (Some d, s2) \<Rightarrow>
                            Some (if is_dir d then Some (if cluster d \<noteq> 0 then cluster d else root_clus s2) else None, s2)
                      else Some (Some (root_clus s1), s1))
          in case dirr of
               None \<Rightarrow> None
             | Some (None, s2) \<Rightarrow> Some (None, s2)
             | Some (Some dir, s2) \<Rightarrow>
                 (case make_83 lastp of
                    None \<Rightarrow> Some (None, s2)
                  | Some name83 \<Rightarrow>
                      (case place_loop (chain_fuel s2) name83 dir dir s2 of
                         None \<Rightarrow> None
                       | Some ((Placed f, _), s3) \<Rightarrow> Some (Some f, s3)
                       | Some ((SlotFail, _), s3) \<Rightarrow> Some (None, s3)
                       | Some ((NoSlot, last_c), s3) \<Rightarrow> Some (place_new_cluster name83 last_c s3))))"

section \<open>Listing, directories, removing\<close>

primrec dirent_in_sector :: "bytes \<Rightarrow> nat list \<Rightarrow> bytes \<Rightarrow> nat \<Rightarrow> nat \<Rightarrow> (bytes \<times> u32 \<times> bool) found" where
  "dirent_in_sector b [] lfn lfn_len idx = More lfn lfn_len idx"
| "dirent_in_sector b (i # is) lfn lfn_len idx =
     (let e = take 32 (drop i b)
      in case visit_entry e lfn lfn_len of
           DirEnd \<Rightarrow> Miss
         | Skip l n \<Rightarrow> dirent_in_sector b is l n idx
         | Named long \<Rightarrow>
             if idx = 0 then Hit (case long of Some l \<Rightarrow> l | None \<Rightarrow> short_name e, get32 e 28, e ! 11 AND 0x10 \<noteq> 0)
             else dirent_in_sector b is lfn 0 (idx - 1))"

primrec dirent_in_cluster :: "u32 \<Rightarrow> nat list \<Rightarrow> bytes \<Rightarrow> nat \<Rightarrow> nat \<Rightarrow> fatfs \<Rightarrow> (bytes \<times> u32 \<times> bool) found \<times> fatfs" where
  "dirent_in_cluster c [] lfn lfn_len idx s = (More lfn lfn_len idx, s)"
| "dirent_in_cluster c (k # ks) lfn lfn_len idx s =
     (let (ok, s1) = rd_dirbuf (clus_sector c s + of_nat k) s
      in if \<not> ok then (Miss, s1)
         else case dirent_in_sector (dirbuf s1) entry_offsets lfn lfn_len idx of
           More l m j \<Rightarrow> dirent_in_cluster c ks l m j s1
         | r \<Rightarrow> (r, s1))"

primrec dirent_loop :: "nat \<Rightarrow> u32 \<Rightarrow> bytes \<Rightarrow> nat \<Rightarrow> nat \<Rightarrow> fatfs \<Rightarrow> ((bytes \<times> u32 \<times> bool) option \<times> fatfs) option" where
  "dirent_loop 0 c lfn lfn_len idx s = None"
| "dirent_loop (Suc fuel) c lfn lfn_len idx s =
     (if c = 0 then Some (None, s)
      else case dirent_in_cluster c [0..<unat (sec_per_clus s)] lfn lfn_len idx s of
        (Hit r, s1) \<Rightarrow> Some (Some r, s1)
      | (Miss, s1) \<Rightarrow> Some (None, s1)
      | (More l m j, s1) \<Rightarrow> let (c', s2) = fat_next c s1 in dirent_loop fuel c' l m j s2)"

definition fat_dirent :: "fat_file \<Rightarrow> u32 \<Rightarrow> fatfs \<Rightarrow> ((bytes \<times> u32 \<times> bool) option \<times> fatfs) option" where
  "fat_dirent dir index s =
     (if \<not> mounted s \<or> \<not> is_dir dir then Some (None, s)
      else dirent_loop (chain_fuel s) (if cluster dir \<noteq> 0 then cluster dir else root_clus s)
             (lfn_init s) 0 (unat index) s)"

definition dot_entries :: "u32 \<Rightarrow> u32 \<Rightarrow> bytes" where
  "dot_entries c pp =
     (let ent = (\<lambda>name cl. wr16 26 (ucast (cl AND 0xffff)) (wr16 20 (ucast (drop_bit 16 cl))
                   ((name @ replicate (11 - length name) 32 @ replicate 21 0)[11 := 0x10])))
      in ent [46] c @ ent [46, 46] pp @ replicate 448 0)"

definition fat_mkdir :: "bytes \<Rightarrow> fatfs \<Rightarrow> (bool \<times> fatfs) option" where
  "fat_mkdir path s =
     (case fat_create path s of
        None \<Rightarrow> None
      | Some (None, s1) \<Rightarrow> Some (False, s1)
      | Some (Some d, s1) \<Rightarrow>
          let (c, s2) = clus_alloc s1
          in if c = 0 then Some (False, s2)
             else let p = skip_slashes path;
                      par = (if last_part p \<noteq> p then
                               case fat_open (parent_part p) s2 of
                                 None \<Rightarrow> None
                               | Some (None, s3) \<Rightarrow> Some (root_clus s3, s3)
                               | Some (Some pf, s3) \<Rightarrow> Some (if is_dir pf then cluster pf else root_clus s3, s3)
                             else Some (root_clus s2, s2))
                  in case par of
                       None \<Rightarrow> None
                     | Some (parent, s3) \<Rightarrow>
                         let pp = (if parent = root_clus s3 then 0 else parent);
                             s4 = s3\<lparr>dirbuf := dot_entries c pp\<rparr>;
                             (ok5, s5) = wr_sec (clus_sector c s4) (dirbuf s4) s4
                         in if \<not> ok5 then Some (False, s5)
                            else let (ok6, s6) = rd_dirbuf (dir_sec d) s5; o' = unat (dir_off d)
                                 in if \<not> ok6 then Some (False, s6)
                                    else let b = wr16 (o' + 26) (ucast (c AND 0xffff)) (wr16 (o' + 20) (ucast (drop_bit 16 c))
                                                   (wr32 (o' + 28) 0 ((dirbuf s6)[o' + 11 := 0x10])))
                                         in Some (wr_sec (dir_sec d) b (s6\<lparr>dirbuf := b\<rparr>)))"

text \<open>Only "." and ".." may be left in a directory that is removed; the index counts up without bound.\<close>

primrec only_dots :: "nat \<Rightarrow> fat_file \<Rightarrow> u32 \<Rightarrow> fatfs \<Rightarrow> (bool \<times> fatfs) option" where
  "only_dots 0 f i s = None"
| "only_dots (Suc fuel) f i s =
     (case fat_dirent f i s of
        None \<Rightarrow> None
      | Some (None, s1) \<Rightarrow> Some (True, s1)
      | Some (Some (name, _, _), s1) \<Rightarrow>
          if name_eq name [46] \<or> name_eq name [46, 46] then only_dots fuel f (i + 1) s1 else Some (False, s1))"

definition fat_unlink :: "bytes \<Rightarrow> fatfs \<Rightarrow> (bool \<times> fatfs) option" where
  "fat_unlink path s =
     (case fat_open path s of
        None \<Rightarrow> None
      | Some (None, s1) \<Rightarrow> Some (False, s1)
      | Some (Some f, s1) \<Rightarrow>
          if dir_sec f = 0 then Some (False, s1)
          else case (if is_dir f then only_dots (2 ^ 32) f 0 s1 else Some (True, s1)) of
            None \<Rightarrow> None
          | Some (False, s2) \<Rightarrow> Some (False, s2)
          | Some (True, s2) \<Rightarrow>
              (case free_chain (chain_fuel s2) (cluster f) s2 of
                 None \<Rightarrow> None
               | Some s3 \<Rightarrow>
                   let (ok4, s4) = rd_dirbuf (dir_sec f) s3
                   in if \<not> ok4 then Some (False, s4)
                      else let b = (dirbuf s4)[unat (dir_off f) := 0xe5]
                           in Some (wr_sec (dir_sec f) b (s4\<lparr>dirbuf := b\<rparr>))))"

end
