(* ===== verification/FatVol.thy ===== *)
theory FatVol
  imports Fat
begin

text \<open>
  What the operations of \<open>Fat\<close> do to a volume. The abstract view of the medium is the table entry of a cluster in
  each copy of the table, the sectors, and the bytes of a cluster chain; \<open>wf_vol\<close> is the geometry that a
  formatter writes and \<open>fat_mount\<close> does not check: the table is large enough for every cluster and the data begins
  after the last copy.

  The lemmas show that the table update reaches every copy and nothing else, that allocation hands out a cluster that was
  free, zeroed and marked, that reading returns the bytes of the chain, and that names survive the 8.3 form.
\<close>

section \<open>The view of the medium\<close>

definition sec_at :: "fatfs \<Rightarrow> u64 \<Rightarrow> bytes" where
  "sec_at s n = medium (dsk s) (part_lba s + n)"

definition same_vol :: "fatfs \<Rightarrow> fatfs \<Rightarrow> bool" where
  "same_vol s s' \<longleftrightarrow>
     (\<exists>sb db m. s' = s\<lparr>secbuf := sb, dirbuf := db, dsk := (dsk s)\<lparr>medium := m\<rparr>\<rparr>)"

definition entry :: "fatfs \<Rightarrow> nat \<Rightarrow> u32 \<Rightarrow> u32" where
  "entry s k c = get32 (sec_at s (fat_sec (of_nat k) c s)) (fat_off c)"

definition wf_vol :: "fatfs \<Rightarrow> bool" where
  "wf_vol s \<longleftrightarrow>
     (\<forall>n. length (medium (dsk s) n) = 512) \<and> length (secbuf s) = 512 \<and> 0 < sec_per_clus s \<and> 0 < nfats s \<and>
     unat (total_clus s) * 4 \<le> unat (fatsz s) * 512 \<and>
     unat (first_data_sec s) = unat (fat_start s) + unat (nfats s) * unat (fatsz s)"

lemma same_vol_refl [simp]: "same_vol s s"
proof -
  have "s = s\<lparr>secbuf := secbuf s, dirbuf := dirbuf s, dsk := (dsk s)\<lparr>medium := medium (dsk s)\<rparr>\<rparr>" by simp
  then show ?thesis unfolding same_vol_def by blast
qed

lemma same_vol_trans: "same_vol s s1 \<Longrightarrow> same_vol s1 s2 \<Longrightarrow> same_vol s s2"
  unfolding same_vol_def by fastforce

lemma same_volD:
  assumes "same_vol s s'"
  shows "bytes_per_sec s' = bytes_per_sec s" "sec_per_clus s' = sec_per_clus s" "first_data_sec s' = first_data_sec s"
    "fat_start s' = fat_start s" "root_clus s' = root_clus s" "total_clus s' = total_clus s" "nfats s' = nfats s"
    "fatsz s' = fatsz s" "mounted s' = mounted s" "part_lba s' = part_lba s" "fsinfo_sec s' = fsinfo_sec s"
    "lfn_init s' = lfn_init s"
    "present (dsk s') = present (dsk s)" "capacity (dsk s') = capacity (dsk s)" "fails (dsk s') = fails (dsk s)"
  using assms by (auto simp: same_vol_def)

lemma same_vol_layout:
  assumes "same_vol s s'"
  shows "fat_sec k c s' = fat_sec k c s" "clus_sector c s' = clus_sector c s" "cluster_bytes s' = cluster_bytes s"
    "chain_fuel s' = chain_fuel s"
  using same_volD [OF assms] by (simp_all add: fat_sec_def clus_sector_def cluster_bytes_def chain_fuel_def)

lemma same_vol_secbuf [simp]: "same_vol s (s\<lparr>secbuf := b\<rparr>)"
proof -
  have "s\<lparr>secbuf := b\<rparr> = s\<lparr>secbuf := b, dirbuf := dirbuf s, dsk := (dsk s)\<lparr>medium := medium (dsk s)\<rparr>\<rparr>" by simp
  then show ?thesis unfolding same_vol_def by blast
qed

lemma same_vol_dirbuf [simp]: "same_vol s (s\<lparr>dirbuf := b\<rparr>)"
proof -
  have "s\<lparr>dirbuf := b\<rparr> = s\<lparr>secbuf := secbuf s, dirbuf := b, dsk := (dsk s)\<lparr>medium := medium (dsk s)\<rparr>\<rparr>" by simp
  then show ?thesis unfolding same_vol_def by blast
qed

lemma same_vol_medium [simp]: "same_vol s (s\<lparr>dsk := (dsk s)\<lparr>medium := m\<rparr>\<rparr>)"
proof -
  have "s\<lparr>dsk := (dsk s)\<lparr>medium := m\<rparr>\<rparr> = s\<lparr>secbuf := secbuf s, dirbuf := dirbuf s, dsk := (dsk s)\<lparr>medium := m\<rparr>\<rparr>" by simp
  then show ?thesis unfolding same_vol_def by blast
qed

section \<open>Sector reads and writes\<close>

lemma rd_secbufE:
  assumes "rd_secbuf n s = (ok, s1)"
  obtains "\<not> ok" "s1 = s" "blk_read (dsk s) (part_lba s + n) = None"
  | "ok" "s1 = s\<lparr>secbuf := sec_at s n\<rparr>"
  using assms by (auto simp: rd_secbuf_def sec_at_def blk_read_def split: option.splits if_splits)

lemma wr_secE:
  assumes "wr_sec n b s = (ok, s1)"
  obtains "\<not> ok" "s1 = s" "blk_write (dsk s) (part_lba s + n) b = None"
  | "ok" "s1 = s\<lparr>dsk := (dsk s)\<lparr>medium := (medium (dsk s))(part_lba s + n := b)\<rparr>\<rparr>"
  using assms by (auto simp: wr_sec_def blk_write_def split: option.splits if_splits)

lemma sec_at_secbuf [simp]: "sec_at (s\<lparr>secbuf := b\<rparr>) n = sec_at s n"
  by (simp add: sec_at_def)

lemma sec_at_dirbuf [simp]: "sec_at (s\<lparr>dirbuf := b\<rparr>) n = sec_at s n"
  by (simp add: sec_at_def)

lemma sec_at_write [simp]:
  "sec_at (s\<lparr>dsk := (dsk s)\<lparr>medium := (medium (dsk s))(part_lba s + k := b)\<rparr>\<rparr>) n = (if n = k then b else sec_at s n)"
  by (simp add: sec_at_def)

lemma wf_vol_secbuf [simp]: "length b = 512 \<Longrightarrow> wf_vol (s\<lparr>secbuf := b\<rparr>) \<longleftrightarrow> wf_vol (s\<lparr>secbuf := replicate 512 0\<rparr>)"
  by (simp add: wf_vol_def)

lemma wf_volD:
  assumes "wf_vol s"
  shows "length (sec_at s n) = 512" "length (secbuf s) = 512" "0 < sec_per_clus s" "0 < nfats s"
    "unat (total_clus s) * 4 \<le> unat (fatsz s) * 512"
    "unat (first_data_sec s) = unat (fat_start s) + unat (nfats s) * unat (fatsz s)"
  using assms by (simp_all add: wf_vol_def sec_at_def)

lemma wf_vol_same:
  assumes "wf_vol s" "same_vol s s'" "length (secbuf s') = 512" "\<And>n. length (sec_at s' n) = 512"
  shows "wf_vol s'"
proof -
  have "length (medium (dsk s') n) = 512" for n
    using assms(4) [of "n - part_lba s'"] by (simp add: sec_at_def)
  then show ?thesis using assms(1, 3) same_volD [OF assms(2)] by (simp add: wf_vol_def)
qed

section \<open>Where the sectors are\<close>

lemma unat_lt32: "unat (w :: u32) < 4294967296"
  using unsigned_less [of w] by simp

lemma unat_ucast_u32 [simp]: "unat (ucast (x :: u32) :: u64) = unat x"
  using unat_lt32 [of x] by (simp add: unsigned_ucast_eq take_bit_nat_eq_self_iff)

lemma unat_mult_no_wrap:
  "unat a * unat b < 2 ^ LENGTH('a) \<Longrightarrow> unat (a * b) = unat a * unat (b :: 'a::len word)"
  by (simp add: unat_word_ariths)

lemma u32_prod_bound: "unat (a :: u32) * unat (b :: u32) \<le> 18446744065119617025"
proof -
  have "unat a \<le> 4294967295" "unat b \<le> 4294967295" using unat_lt32 [of a] unat_lt32 [of b] by simp_all
  then have "unat a * unat b \<le> 4294967295 * 4294967295" by (rule mult_le_mono)
  then show ?thesis by simp
qed

lemma unat_quad: "unat (ucast (c :: u32) * 4 :: u64) = unat c * 4"
  using unat_lt32 [of c] by (subst unat_mult_no_wrap) simp_all

lemma unat_fat_sec:
  "unat (fat_sec k c s) = unat (fat_start s) + unat k * unat (fatsz s) + unat c * 4 div 512"
proof -
  have p: "unat (ucast k * ucast (fatsz s) :: u64) = unat k * unat (fatsz s)"
    using u32_prod_bound [of k "fatsz s"] by (subst unat_mult_no_wrap) simp_all
  have d: "unat (ucast c * 4 div 512 :: u64) = unat c * 4 div 512" by (simp add: unat_div_distrib unat_quad)
  have b: "unat c * 4 div 512 < 33554432" using unat_lt32 [of c] by simp
  have a: "unat (ucast (fat_start s) + ucast k * ucast (fatsz s) :: u64) = unat (fat_start s) + unat k * unat (fatsz s)"
    using u32_prod_bound [of k "fatsz s"] unat_lt32 [of "fat_start s"] by (subst unat_add_no_wrap) (simp_all add: p)
  show ?thesis unfolding fat_sec_def
    by (subst unat_add_no_wrap)
      (use b u32_prod_bound [of k "fatsz s"] unat_lt32 [of "fat_start s"] in \<open>simp_all add: a d\<close>)
qed

lemma fat_off_nat: "fat_off c = unat c * 4 mod 512"
  by (simp add: fat_off_def unat_mod_distrib unat_quad)

lemma fat_off_bound: "fat_off c + 4 \<le> 512"
proof -
  have "fat_off c = 4 * (unat c mod 128)" unfolding fat_off_nat using mult_mod_right [of 4 "unat c" 128] by (simp add: mult.commute)
  then show ?thesis using mod_less_divisor [of 128 "unat c"] by linarith
qed

lemma fat_off_apart:
  "c \<noteq> c' \<Longrightarrow> unat c * 4 div 512 = unat c' * 4 div 512 \<Longrightarrow> fat_off c' + 4 \<le> fat_off c \<or> fat_off c + 4 \<le> fat_off c'"
proof -
  assume "c \<noteq> c'" and e: "unat c * 4 div 512 = unat c' * 4 div 512"
  then have n: "unat c \<noteq> unat c'" by (simp add: word_unat_eq_iff)
  have "fat_off x = 4 * (unat x mod 128)" for x
    unfolding fat_off_nat using mult_mod_right [of 4 "unat x" 128] by (simp add: mult.commute)
  moreover have "unat c div 128 = unat c' div 128" using e by (simp add: div_mult2_eq)
  then have "unat c mod 128 \<noteq> unat c' mod 128" using n by (metis div_mult_mod_eq)
  ultimately show ?thesis by auto
qed

text \<open>Entries of different copies lie in different sectors.\<close>

lemma table_sector_bound:
  assumes "wf_vol s" "c < total_clus s"
  shows "unat c * 4 div 512 < unat (fatsz s)"
proof -
  have "unat c < unat (total_clus s)" using assms(2) by (simp add: word_less_nat_alt)
  then have "unat c * 4 < unat (fatsz s) * 512" using wf_volD(5) [OF assms(1)] by linarith
  then show ?thesis by (simp add: less_mult_imp_div_less)
qed

lemma row_unique:
  fixes f :: nat
  assumes "k * f + a = k' * f + b" "a < f" "b < f"
  shows "k = k' \<and> a = b"
proof -
  have "(k * f + a) div f = k" "(k' * f + b) div f = k'" "(k * f + a) mod f = a" "(k' * f + b) mod f = b"
    using assms(2, 3) by simp_all
  then show ?thesis using assms(1) by metis
qed

lemma fat_sec_inj:
  assumes "wf_vol s" "k < unat (nfats s)" "k' < unat (nfats s)" "c < total_clus s" "c' < total_clus s"
    "fat_sec (of_nat k) c s = fat_sec (of_nat k') c' s"
  shows "k = k' \<and> unat c * 4 div 512 = unat c' * 4 div 512"
proof -
  have "k < 2 ^ 32" "k' < 2 ^ 32" using assms(2, 3) unat_lt32 [of "nfats s"] by simp_all
  then have u: "unat (of_nat k :: u32) = k" "unat (of_nat k' :: u32) = k'" by (simp_all add: unat_of_nat_eq)
  have "k * unat (fatsz s) + unat c * 4 div 512 = k' * unat (fatsz s) + unat c' * 4 div 512"
    using arg_cong [where f = unat, OF assms(6)] by (simp add: unat_fat_sec u)
  then show ?thesis
    using row_unique table_sector_bound [OF assms(1, 4)] table_sector_bound [OF assms(1, 5)] by blast
qed

lemma fat_sec_before_data:
  assumes "wf_vol s" "k < unat (nfats s)" "c < total_clus s"
  shows "unat (fat_sec (of_nat k) c s) < unat (first_data_sec s)"
proof -
  have "k < 2 ^ 32" using assms(2) unat_lt32 [of "nfats s"] by simp
  then have u: "unat (of_nat k :: u32) = k" by (simp add: unat_of_nat_eq)
  have "k * unat (fatsz s) + unat c * 4 div 512 < Suc k * unat (fatsz s)" using table_sector_bound [OF assms(1, 3)] by simp
  also have "\<dots> \<le> unat (nfats s) * unat (fatsz s)" using assms(2) by (intro mult_le_mono1) simp
  finally show ?thesis using wf_volD(6) [OF assms(1)] by (simp add: unat_fat_sec u)
qed

lemma unat_clus_sector:
  assumes "2 \<le> c" "j < unat (sec_per_clus s)"
  shows "unat (clus_sector c s + of_nat j) = unat (first_data_sec s) + (unat c - 2) * unat (sec_per_clus s) + j"
proof -
  have m: "unat (c - 2) = unat c - 2" using assms(1) by (simp add: unat_sub_if_size word_le_nat_alt)
  have j: "unat (of_nat j :: u64) = j"
    using assms(2) unat_lt32 [of "sec_per_clus s"] by (simp add: unat_of_nat_eq)
  have p: "unat (ucast (c - 2) * ucast (sec_per_clus s) :: u64) = (unat c - 2) * unat (sec_per_clus s)"
    using u32_prod_bound [of "c - 2" "sec_per_clus s"] m by (subst unat_mult_no_wrap) simp_all
  have b: "(unat c - 2) * unat (sec_per_clus s) \<le> 18446744065119617025"
    using u32_prod_bound [of "c - 2" "sec_per_clus s"] m by simp
  have a: "unat (clus_sector c s) = unat (first_data_sec s) + (unat c - 2) * unat (sec_per_clus s)"
    unfolding clus_sector_def
    by (subst unat_add_no_wrap) (use b p unat_lt32 [of "first_data_sec s"] in simp_all)
  show ?thesis
    by (subst unat_add_no_wrap)
      (use a b j assms(2) unat_lt32 [of "first_data_sec s"] unat_lt32 [of "sec_per_clus s"] in simp_all)
qed

lemma data_sec_inj:
  assumes "2 \<le> c" "2 \<le> c'" "j < unat (sec_per_clus s)" "j' < unat (sec_per_clus s)"
    "clus_sector c s + of_nat j = clus_sector c' s + of_nat j'"
  shows "c = c' \<and> j = j'"
proof -
  have "(unat c - 2) * unat (sec_per_clus s) + j = (unat c' - 2) * unat (sec_per_clus s) + j'"
    using arg_cong [where f = unat, OF assms(5)] assms(1-4) by (simp add: unat_clus_sector)
  then have "unat c - 2 = unat c' - 2 \<and> j = j'" using row_unique assms(3, 4) by blast
  moreover have "2 \<le> unat c" "2 \<le> unat c'" using assms(1, 2) by (simp_all add: word_le_nat_alt)
  ultimately have "unat c = unat c'" "j = j'" by linarith+
  then show ?thesis by (simp add: word_unat_eq_iff)
qed

section \<open>Updating the table\<close>

lemma get32_wr32 [simp]: "p + 4 \<le> length b \<Longrightarrow> get32 (wr32 p v b) p = v"
  unfolding wr32_def splice_def by (rule get32_le_bytes) simp

lemma get32_wr32_other:
  "p + 4 \<le> length b \<Longrightarrow> q + 4 \<le> length b \<Longrightarrow> q + 4 \<le> p \<or> p + 4 \<le> q \<Longrightarrow> get32 (wr32 p v b) q = get32 b q"
  by (auto simp: get32_def wr32_def nth_splice)

lemma length_wr32 [simp]: "p + 4 \<le> length b \<Longrightarrow> length (wr32 p v b) = length b"
  by (simp add: wr32_def)

definition merge28 :: "u32 \<Rightarrow> u32 \<Rightarrow> u32" where
  "merge28 old v = (old AND 0xf0000000) OR (v AND 0x0fffffff)"

lemma merge28_low [simp]: "merge28 old v AND 0x0fffffff = v AND 0x0fffffff"
proof -
  have "(0xf0000000 :: u32) AND 0x0fffffff = 0" by simp
  then show ?thesis
    unfolding merge28_def bit.conj_disj_distrib2 by (simp add: and.assoc)
qed

lemma merge28_high [simp]: "merge28 old v AND 0xf0000000 = old AND 0xf0000000"
proof -
  have "(0x0fffffff :: u32) AND 0xf0000000 = 0" by simp
  then show ?thesis
    unfolding merge28_def bit.conj_disj_distrib2 by (simp add: and.assoc)
qed

text \<open>What a successful update of the entry of \<open>c\<close> in the copies \<open>K\<close> has done.\<close>

definition updated :: "nat set \<Rightarrow> u32 \<Rightarrow> u32 \<Rightarrow> fatfs \<Rightarrow> fatfs \<Rightarrow> bool" where
  "updated K c v s s' \<longleftrightarrow>
     same_vol s s' \<and> wf_vol s' \<and>
     (\<forall>k < unat (nfats s). \<forall>d < total_clus s.
        entry s' k d = (if k \<in> K \<and> d = c then merge28 (entry s k c) v else entry s k d)) \<and>
     (\<forall>n. unat (first_data_sec s) \<le> unat n \<longrightarrow> sec_at s' n = sec_at s n)"

lemma updated_step:
  assumes "wf_vol s" "c < total_clus s" "k < unat (nfats s)"
    and "n = fat_sec (of_nat k) c s" "b = wr32 (fat_off c) (merge28 (entry s k c) v) (sec_at s n)"
    and s': "s' = s\<lparr>secbuf := b, dsk := (dsk s)\<lparr>medium := (medium (dsk s))(part_lba s + n := b)\<rparr>\<rparr>"
  shows "updated {k} c v s s'"
proof -
  have sv: "same_vol s s'" unfolding s' same_vol_def by (intro exI [of _ b] exI [of _ "dirbuf s"]) auto
  have sec: "sec_at s' m = (if m = n then b else sec_at s m)" for m unfolding s' by (simp add: sec_at_def)
  have lb: "length b = 512" using assms(1, 5) fat_off_bound [of c] by (simp add: wf_volD)
  have wf: "wf_vol s'"
    by (rule wf_vol_same [OF assms(1) sv]) (simp_all add: s' lb sec_at_def wf_volD [OF assms(1), unfolded sec_at_def])
  have ent: "entry s' k' d = (if k' = k \<and> d = c then merge28 (entry s k c) v else entry s k' d)"
    if "k' < unat (nfats s)" "d < total_clus s" for k' d
  proof (cases "fat_sec (of_nat k') d s = n")
    case False
    then have "\<not> (k' = k \<and> d = c)" using assms(4) by auto
    moreover have "entry s' k' d = entry s k' d" using False by (simp add: entry_def same_vol_layout [OF sv] sec)
    ultimately show ?thesis by (simp only: if_False)
  next
    case True
    then have kk: "k' = k" and row: "unat c * 4 div 512 = unat d * 4 div 512"
      using fat_sec_inj [OF assms(1, 3) that(1) assms(2) that(2)] assms(4) by auto
    have e: "entry s' k' d = get32 b (fat_off d)" using True by (simp add: entry_def same_vol_layout [OF sv] sec)
    show ?thesis
    proof (cases "d = c")
      case d: True
      then show ?thesis using kk e assms(1, 5) fat_off_bound [of c] by (simp add: wf_volD)
    next
      case False
      then have "get32 b (fat_off d) = get32 (sec_at s n) (fat_off d)"
        unfolding assms(5)
        by (intro get32_wr32_other) (use row fat_off_apart fat_off_bound assms(1) in \<open>auto simp: wf_volD\<close>)
      then show ?thesis using False e True by (simp add: entry_def)
    qed
  qed
  have "n \<noteq> m" if "unat (first_data_sec s) \<le> unat m" for m
    using fat_sec_before_data [OF assms(1, 3, 2)] that assms(4) by auto
  then show ?thesis using sv wf ent sec unfolding updated_def by auto
qed

lemma updated_trans:
  assumes "updated K c v s s1" "updated K' c v s1 s2" "K \<inter> K' = {}"
  shows "updated (K \<union> K') c v s s2"
proof -
  note sv = assms(1) [unfolded updated_def, THEN conjunct1]
  show ?thesis using assms same_volD [OF sv] same_vol_trans [OF sv] unfolding updated_def by auto
qed

lemma fat_set_copies_updated:
  assumes "wf_vol s" "c < total_clus s" "set ks \<subseteq> {..<unat (nfats s)}" "distinct ks" "fat_set_copies c v ks s = (True, s')"
  shows "updated (set ks) c v s s'"
  using assms
proof (induction ks arbitrary: s)
  case Nil
  then show ?case by (simp add: updated_def)
next
  case (Cons k ks)
  define n where "n = fat_sec (of_nat k) c s"
  define b where "b = wr32 (fat_off c) (merge28 (entry s k c) v) (sec_at s n)"
  obtain ok s1 where r: "rd_secbuf n s = (ok, s1)" by fastforce
  have ok: "ok" using Cons.prems(5) r by (simp add: n_def [symmetric] Let_def split: if_splits)
  then have s1: "s1 = s\<lparr>secbuf := sec_at s n\<rparr>" using r by (auto elim: rd_secbufE)
  have e: "get32 (sec_at s n) (fat_off c) = entry s k c" by (simp add: entry_def n_def)
  obtain ok' s3 where w: "wr_sec n b (s\<lparr>secbuf := b\<rparr>) = (ok', s3)" by fastforce
  have t: "ok'" "fat_set_copies c v ks s3 = (True, s')"
    using Cons.prems(5) r ok w by (auto simp: n_def [symmetric] s1 e merge28_def [symmetric] b_def [symmetric] Let_def split: if_splits)
  have s3: "s3 = s\<lparr>secbuf := b, dsk := (dsk s)\<lparr>medium := (medium (dsk s))(part_lba s + n := b)\<rparr>\<rparr>"
    using w t(1) by (auto elim: wr_secE)
  have u: "updated {k} c v s s3"
    using Cons.prems(3) by (intro updated_step [OF Cons.prems(1, 2) _ n_def b_def s3]) simp
  note sv = u [unfolded updated_def, THEN conjunct1]
  have "updated (set ks) c v s3 s'"
    using Cons.IH [OF _ _ _ _ t(2)] Cons.prems u same_volD [OF sv] by (simp add: updated_def)
  then show ?case using updated_trans [OF u] Cons.prems(4) by simp
qed

lemma fat_set_updated:
  assumes "wf_vol s" "fat_set c v s = (True, s')"
  shows "2 \<le> c" "c < total_clus s" "updated {..<unat (nfats s)} c v s s'"
proof -
  show c: "2 \<le> c" "c < total_clus s" using assms(2) by (auto simp: fat_set_def split: if_splits)
  have "updated (set [0..<unat (nfats s)]) c v s s'"
    using assms(2) c by (intro fat_set_copies_updated [OF assms(1) c(2)]) (auto simp: fat_set_def not_less [symmetric])
  then show "updated {..<unat (nfats s)} c v s s'" by (simp add: atLeast_upt)
qed

section \<open>Following a chain\<close>

definition link :: "fatfs \<Rightarrow> u32 \<Rightarrow> u32" where
  "link s c = (let v = entry s 0 c AND 0x0fffffff in if v \<ge> 0x0ffffff8 \<or> v < 2 then 0 else v)"

definition vol_sector :: "fatfs \<Rightarrow> u64 \<Rightarrow> bool" where
  "vol_sector s n \<longleftrightarrow> unat n < unat (first_data_sec s) + (unat (total_clus s) - 2) * unat (sec_per_clus s)"

definition readable :: "fatfs \<Rightarrow> bool" where
  "readable s \<longleftrightarrow> (\<forall>n. vol_sector s n \<longrightarrow> blk_read (dsk s) (part_lba s + n) \<noteq> None)"

lemma readable_same: "same_vol s s' \<Longrightarrow> readable s' \<longleftrightarrow> readable s"
  unfolding readable_def vol_sector_def blk_read_def by (simp add: same_volD)

lemma rd_secbuf_readable: "readable s \<Longrightarrow> vol_sector s n \<Longrightarrow> rd_secbuf n s = (True, s\<lparr>secbuf := sec_at s n\<rparr>)"
  by (auto simp: readable_def rd_secbuf_def sec_at_def blk_read_def split: option.splits if_splits)

lemma vol_sector_table:
  assumes "wf_vol s" "k < unat (nfats s)" "c < total_clus s"
  shows "vol_sector s (fat_sec (of_nat k) c s)"
  using fat_sec_before_data [OF assms] by (simp add: vol_sector_def)

lemma vol_sector_data:
  assumes "2 \<le> c" "c < total_clus s" "j < unat (sec_per_clus s)"
  shows "vol_sector s (clus_sector c s + of_nat j)"
proof -
  have "unat c < unat (total_clus s)" "2 \<le> unat c" using assms(1, 2) by (simp_all add: word_less_nat_alt word_le_nat_alt)
  then have "Suc (unat c - 2) * unat (sec_per_clus s) \<le> (unat (total_clus s) - 2) * unat (sec_per_clus s)"
    by (intro mult_le_mono1) simp
  then show ?thesis using assms(3) by (simp add: vol_sector_def unat_clus_sector [OF assms(1, 3)])
qed

lemma fat_next_link:
  assumes "wf_vol s" "readable s" "2 \<le> c" "c < total_clus s"
  shows "fat_next c s = (link s c, s\<lparr>secbuf := sec_at s (fat_sec 0 c s)\<rparr>)"
proof -
  have "vol_sector s (fat_sec 0 c s)"
    using vol_sector_table [OF assms(1) _ assms(4), of 0] wf_volD(4) [OF assms(1)] by (simp add: word_less_nat_alt)
  moreover have "\<not> (c < 2 \<or> total_clus s \<le> c)" using assms(3, 4) by auto
  ultimately show ?thesis
    unfolding fat_next_def link_def entry_def Let_def
    by (simp only: rd_secbuf_readable [OF assms(2)] if_False case_prod_conv) simp
qed

text \<open>A table update that reports success has written the new value into every copy of the table, kept the four reserved
  bits of each, and changed no entry of another cluster and no data sector; the next step along the chain then reads it.\<close>

lemma fat_set_every_copy:
  assumes "wf_vol s" "readable s" "fat_set c v s = (True, s')"
  shows "(\<forall>k < unat (nfats s).
            entry s' k c AND 0x0fffffff = v AND 0x0fffffff \<and> entry s' k c AND 0xf0000000 = entry s k c AND 0xf0000000 \<and>
            (\<forall>d < total_clus s. d \<noteq> c \<longrightarrow> entry s' k d = entry s k d)) \<and>
         (\<forall>n. unat (first_data_sec s) \<le> unat n \<longrightarrow> sec_at s' n = sec_at s n) \<and>
         fst (fat_next c s') = (let w = v AND 0x0fffffff in if w \<ge> 0x0ffffff8 \<or> w < 2 then 0 else w) \<and>
         wf_vol s'"
proof -
  note u = fat_set_updated [OF assms(1, 3)]
  have sv: "same_vol s s'" and wf: "wf_vol s'" using u(3) by (simp_all add: updated_def)
  have n: "0 < unat (nfats s)" using wf_volD(4) [OF assms(1)] by (simp add: word_less_nat_alt)
  have e: "entry s' 0 c AND 0x0fffffff = v AND 0x0fffffff" using u n by (simp add: updated_def)
  have "fst (fat_next c s') = link s' c"
    using fat_next_link [OF wf] u(1, 2) assms(2) readable_same [OF sv] same_volD(6) [OF sv] by simp
  then show ?thesis using u wf e by (simp add: updated_def link_def)
qed

section \<open>Taking a free cluster\<close>

definition zero_sector :: bytes where
  "zero_sector = replicate 512 0"

lemma clear_sectors_spec:
  assumes "clear_sectors n ks s = (True, s')" "secbuf s = zero_sector"
  shows "same_vol s s' \<and> secbuf s' = zero_sector \<and>
         (\<forall>m. sec_at s' m = (if m \<in> (\<lambda>k. n + of_nat k) ` set ks then zero_sector else sec_at s m))"
  using assms
proof (induction ks arbitrary: s)
  case Nil
  then show ?case by auto
next
  case (Cons k ks)
  obtain ok s1 where w: "wr_sec (n + of_nat k) (secbuf s) s = (ok, s1)" by fastforce
  then have ok: "ok" and r: "clear_sectors n ks s1 = (True, s')" using Cons.prems(1) by (auto split: if_splits)
  have s1: "s1 = s\<lparr>dsk := (dsk s)\<lparr>medium := (medium (dsk s))(part_lba s + (n + of_nat k) := zero_sector)\<rparr>\<rparr>"
    using w ok Cons.prems(2) by (auto elim!: wr_secE)
  then have "same_vol s s1" "secbuf s1 = zero_sector"
    "\<And>m. sec_at s1 m = (if m = n + of_nat k then zero_sector else sec_at s m)"
    using Cons.prems(2) by (simp_all del: same_vol_def add: sec_at_def)
  then show ?case using Cons.IH [OF r] same_vol_trans by auto
qed

text \<open>The effect of taking cluster \<open>c\<close>.\<close>

definition taken :: "u32 \<Rightarrow> fatfs \<Rightarrow> fatfs \<Rightarrow> bool" where
  "taken c s s' \<longleftrightarrow>
     same_vol s s' \<and> wf_vol s' \<and>
     (\<forall>k < unat (nfats s). \<forall>d < total_clus s.
        entry s' k d = (if d = c then merge28 (entry s k c) 0x0ffffff8 else entry s k d)) \<and>
     (\<forall>j < unat (sec_per_clus s). sec_at s' (clus_sector c s + of_nat j) = zero_sector) \<and>
     (\<forall>d j. 2 \<le> d \<and> d \<noteq> c \<and> j < unat (sec_per_clus s) \<longrightarrow>
        sec_at s' (clus_sector d s + of_nat j) = sec_at s (clus_sector d s + of_nat j))"

lemma taken_intro:
  assumes "2 \<le> c" "wf_vol s" and u: "updated {..<unat (nfats s)} c 0x0ffffff8 s s2"
    and cl: "clear_sectors (clus_sector c s2) [0..<unat (sec_per_clus s2)] (s2\<lparr>secbuf := zero_sector\<rparr>) = (True, s')"
  shows "taken c s s'"
proof -
  have sv: "same_vol s s2" and wf: "wf_vol s2" using u by (simp_all add: updated_def)
  note lay = same_vol_layout [OF sv] same_volD [OF sv]
  define Z where "Z = (\<lambda>k. clus_sector c s + of_nat k) ` {..<unat (sec_per_clus s)}"
  have c: "same_vol (s2\<lparr>secbuf := zero_sector\<rparr>) s'" "secbuf s' = zero_sector"
    and sec: "\<And>m. sec_at s' m = (if m \<in> Z then zero_sector else sec_at s2 m)"
    using clear_sectors_spec [OF cl] by (simp_all add: lay Z_def atLeast_upt)
  have sv2: "same_vol s2 s'" by (rule same_vol_trans [OF same_vol_secbuf c(1)])
  have sv': "same_vol s s'" by (rule same_vol_trans [OF sv sv2])
  have wf': "wf_vol s'"
    by (rule wf_vol_same [OF wf sv2]) (simp_all add: c(2) sec wf_volD(1) [OF wf], simp_all add: zero_sector_def)
  have data: "unat (first_data_sec s) \<le> unat m" if "m \<in> Z" for m
    using that by (auto simp: Z_def unat_clus_sector [OF assms(1)])
  have ent: "entry s' k d = entry s2 k d" if "k < unat (nfats s)" "d < total_clus s" for k d
  proof -
    have "fat_sec (of_nat k) d s \<notin> Z" using data fat_sec_before_data [OF assms(2) that] by fastforce
    then show ?thesis by (simp add: entry_def sec same_vol_layout [OF sv'] same_vol_layout [OF sv])
  qed
  have other: "sec_at s' (clus_sector d s + of_nat j) = sec_at s (clus_sector d s + of_nat j)"
    if "2 \<le> d" "d \<noteq> c" "j < unat (sec_per_clus s)" for d j
  proof -
    have "clus_sector d s + of_nat j \<notin> Z"
      using data_sec_inj [OF that(1) assms(1) that(3)] that(2) by (auto simp: Z_def)
    then show ?thesis using u by (simp add: updated_def sec unat_clus_sector [OF that(1, 3)])
  qed
  show ?thesis
    using sv' wf' ent other u unfolding taken_def by (auto simp: updated_def sec Z_def)
qed

definition free_in :: "fatfs \<Rightarrow> u32 \<Rightarrow> bool" where
  "free_in s c \<longleftrightarrow> entry s 0 c AND 0x0fffffff = 0"

lemma taken_secbuf: "taken c (s\<lparr>secbuf := b\<rparr>) s' \<longleftrightarrow> taken c s s'"
proof -
  have e: "entry (s\<lparr>secbuf := b\<rparr>) k d = entry s k d" for k d by (simp add: entry_def fat_sec_def)
  have "same_vol (s\<lparr>secbuf := b\<rparr>) s' \<longleftrightarrow> same_vol s s'" unfolding same_vol_def by simp
  then show ?thesis by (simp add: taken_def e clus_sector_def)
qed

lemma clus_scan_spec:
  assumes "wf_vol s" "set ns \<subseteq> {2..<unat (total_clus s)}" "\<And>n. cached = Some n \<Longrightarrow> secbuf s = sec_at s n"
    "clus_scan ns cached s = (c, s')" "c \<noteq> 0"
  shows "\<exists>pre suf. ns = pre @ unat c # suf \<and> free_in s c \<and> (\<forall>n \<in> set pre. \<not> free_in s (of_nat n)) \<and> taken c s s'"
  using assms(1-4)
proof (induction ns arbitrary: cached s)
  case Nil
  then show ?case using assms(5) by simp
next
  case (Cons n ns)
  define d where "d = (of_nat n :: u32)"
  define sec where "sec = fat_sec 0 d s"
  have n: "2 \<le> n" "n < unat (total_clus s)" using Cons.prems(2) by auto
  then have ud: "unat d = n" unfolding d_def using unat_lt32 [of "total_clus s"] by (simp add: unat_of_nat_eq)
  obtain ok s1 where r: "(if Some sec \<noteq> cached then rd_secbuf sec s else (True, s)) = (ok, s1)" by fastforce
  have ok: "ok" using Cons.prems(4) assms(5) r by (auto simp: d_def [symmetric] sec_def [symmetric] Let_def split: if_splits)
  have s1: "s1 = s\<lparr>secbuf := sec_at s sec\<rparr>"
    using r ok Cons.prems(3) by (cases "Some sec = cached") (auto elim: rd_secbufE)
  have wf1: "wf_vol s1" unfolding s1 using Cons.prems(1) by (simp add: wf_vol_def sec_at_def)
  have fr: "get32 (secbuf s1) (fat_off d) AND 0x0fffffff = 0 \<longleftrightarrow> free_in s d"
    by (simp add: free_in_def entry_def s1 sec_def)
  have e1: "free_in s1 x = free_in s x" for x by (simp add: free_in_def entry_def s1 fat_sec_def)
  show ?case
  proof (cases "free_in s d")
    case False
    then have "clus_scan ns (Some sec) s1 = (c, s')"
      using Cons.prems(4) [unfolded clus_scan.simps Let_def, folded d_def, folded sec_def, unfolded r case_prod_conv] ok fr by simp
    then obtain pre suf where "ns = pre @ unat c # suf" "free_in s1 c" "\<forall>n \<in> set pre. \<not> free_in s1 (of_nat n)" "taken c s1 s'"
      using Cons.IH [OF wf1, of "Some sec"] Cons.prems(2) by (auto simp: s1)
    then show ?thesis using False
      by (intro exI [of _ "n # pre"] exI [of _ suf]) (simp add: e1, simp add: s1 taken_secbuf d_def)
  next
    case True
    obtain ok2 s2 where f: "fat_set d 0x0ffffff8 s1 = (ok2, s2)" by fastforce
    obtain ok4 s4 where cl: "clear_sectors (clus_sector d s2) [0..<unat (sec_per_clus s2)] (s2\<lparr>secbuf := zero_sector\<rparr>) = (ok4, s4)"
      by fastforce
    have lay: "clus_sector d (s2\<lparr>secbuf := b\<rparr>) = clus_sector d s2" for b by (simp add: clus_sector_def)
    have res: "(c, s') = (if ok2 then (if ok4 then d else 0, s4) else (0, s2))"
      using Cons.prems(4) r ok fr True f cl
      by (simp add: d_def [symmetric] sec_def [symmetric] Let_def zero_sector_def lay split: if_splits)
    then have "ok2" "ok4" and c: "c = d" "s' = s4" using assms(5) by (auto split: if_splits)
    then have u: "2 \<le> d" "updated {..<unat (nfats s1)} d 0x0ffffff8 s1 s2" using fat_set_updated [OF wf1] f by auto
    have "taken d s1 s4" using taken_intro [OF u(1) wf1 u(2)] cl \<open>ok4\<close> by simp
    then have "taken d s s4" unfolding s1 taken_secbuf .
    then show ?thesis using c ud True by (intro exI [of _ "[]"] exI [of _ ns]) simp
  qed
qed

text \<open>C30: an allocation that succeeds returns the first cluster whose entry was free, marks it as the end of a chain in every
  copy of the table, zeroes its sectors, and leaves the entries and the contents of every other cluster alone; so two calls in a
  row cannot return the same cluster.\<close>

theorem clus_alloc_exclusive:
  assumes "wf_vol s" "clus_alloc s = (c, s')" "c \<noteq> 0"
  shows "2 \<le> c \<and> c < total_clus s \<and> free_in s c \<and> (\<forall>d. 2 \<le> d \<and> d < c \<longrightarrow> \<not> free_in s d) \<and>
         (\<forall>k < unat (nfats s). entry s' k c AND 0x0fffffff = 0x0ffffff8 \<and>
            (\<forall>d < total_clus s. d \<noteq> c \<longrightarrow> entry s' k d = entry s k d)) \<and>
         (\<forall>j < unat (sec_per_clus s). sec_at s' (clus_sector c s + of_nat j) = replicate 512 0) \<and>
         (\<forall>d j. 2 \<le> d \<and> d \<noteq> c \<and> j < unat (sec_per_clus s) \<longrightarrow>
            sec_at s' (clus_sector d s + of_nat j) = sec_at s (clus_sector d s + of_nat j)) \<and>
         fst (clus_alloc s') \<noteq> c"
proof -
  have first: "\<exists>pre suf. [2..<unat (total_clus t)] = pre @ unat c # suf \<and> free_in t c \<and>
      (\<forall>n \<in> set pre. \<not> free_in t (of_nat n)) \<and> taken c t t'"
    if "wf_vol t" "clus_alloc t = (c, t')" for t t'
    using that assms(3) by (intro clus_scan_spec [of _ _ None]) (auto simp: clus_alloc_def)
  obtain pre suf where ps: "[2..<unat (total_clus s)] = pre @ unat c # suf" "free_in s c"
    "\<forall>n \<in> set pre. \<not> free_in s (of_nat n)" and t: "taken c s s'" using first [OF assms(1, 2)] by blast
  have r: "unat c \<in> set [2..<unat (total_clus s)]" unfolding ps(1) by simp
  have low: "\<not> free_in s d" if "2 \<le> d" "d < c" for d
  proof -
    have "sorted (pre @ unat c # suf)" "unat d \<in> set (pre @ unat c # suf)"
      using that r unfolding ps(1) [symmetric] by (auto simp: word_le_nat_alt word_less_nat_alt)
    then have "unat d \<in> set pre" using that by (auto simp: sorted_append word_less_nat_alt)
    then show ?thesis using ps(3) by (metis of_nat_unat ucast_id)
  qed
  have c: "2 \<le> c" "c < total_clus s" using r by (auto simp: word_le_nat_alt word_less_nat_alt)
  have n0: "0 < unat (nfats s)" using wf_volD(4) [OF assms(1)] by (simp add: word_less_nat_alt)
  have "\<not> free_in s' c" using t c n0 by (simp add: free_in_def taken_def)
  then have "fst (clus_alloc s') \<noteq> c" using first [of s' "snd (clus_alloc s')"] t by (auto simp: taken_def)
  then show ?thesis using c ps(2) low t by (simp add: taken_def zero_sector_def)
qed

section \<open>When the device serves every sector\<close>

definition serves :: "fatfs \<Rightarrow> bool" where
  "serves s \<longleftrightarrow> readable s \<and> (\<forall>n b. vol_sector s n \<longrightarrow> blk_write (dsk s) (part_lba s + n) b \<noteq> None)"

lemma serves_same: "same_vol s s' \<Longrightarrow> serves s' \<longleftrightarrow> serves s"
  unfolding serves_def by (simp add: readable_same) (simp add: vol_sector_def blk_write_def same_volD)

lemma vol_sector_same: "same_vol s s' \<Longrightarrow> vol_sector s' n \<longleftrightarrow> vol_sector s n"
  by (simp add: vol_sector_def same_volD)

lemma wr_sec_serves: "serves s \<Longrightarrow> vol_sector s n \<Longrightarrow> fst (wr_sec n b s)"
  by (auto simp: serves_def wr_sec_def split: option.splits)

lemma wr_sec_same: "same_vol s (snd (wr_sec n b s))"
proof -
  obtain ok s1 where w: "wr_sec n b s = (ok, s1)" by fastforce
  then show ?thesis by (auto elim!: wr_secE)
qed

lemma fat_set_copies_serves:
  assumes "wf_vol s" "serves s" "c < total_clus s" "set ks \<subseteq> {..<unat (nfats s)}"
  shows "fst (fat_set_copies c v ks s)"
  using assms
proof (induction ks arbitrary: s)
  case Nil
  then show ?case by simp
next
  case (Cons k ks)
  define n where "n = fat_sec (of_nat k) c s"
  define b where "b = wr32 (fat_off c) (merge28 (entry s k c) v) (sec_at s n)"
  have k: "k < unat (nfats s)" using Cons.prems(4) by simp
  have vs: "vol_sector s n" unfolding n_def by (rule vol_sector_table [OF Cons.prems(1) k Cons.prems(3)])
  have r: "rd_secbuf n s = (True, s\<lparr>secbuf := sec_at s n\<rparr>)"
    using Cons.prems(2) vs by (simp add: rd_secbuf_readable serves_def)
  obtain ok s3 where w: "wr_sec n b (s\<lparr>secbuf := b\<rparr>) = (ok, s3)" by fastforce
  have ok: "ok" using wr_sec_serves [of "s\<lparr>secbuf := b\<rparr>" n b] Cons.prems(2) vs w serves_same [of s "s\<lparr>secbuf := b\<rparr>"]
      vol_sector_same [of s "s\<lparr>secbuf := b\<rparr>"] by simp
  then have s3: "s3 = s\<lparr>secbuf := b, dsk := (dsk s)\<lparr>medium := (medium (dsk s))(part_lba s + n := b)\<rparr>\<rparr>"
    using w by (auto elim: wr_secE)
  have u: "updated {k} c v s s3" by (rule updated_step [OF Cons.prems(1, 3) k n_def b_def s3])
  note sv = u [unfolded updated_def, THEN conjunct1]
  have "fst (fat_set_copies c v ks s3)"
    using Cons.IH [of s3] Cons.prems u serves_same [OF sv] same_volD [OF sv] by (simp add: updated_def)
  moreover have "fat_set_copies c v (k # ks) s = fat_set_copies c v ks s3"
    using r w ok by (simp add: n_def [symmetric] entry_def [of s k c, folded n_def, symmetric] merge28_def [symmetric]
        b_def [symmetric] Let_def)
  ultimately show ?case by simp
qed

lemma fat_set_serves:
  assumes "wf_vol s" "serves s" "2 \<le> c" "c < total_clus s"
  shows "fst (fat_set c v s)"
proof -
  have "\<not> (c < 2 \<or> total_clus s \<le> c)" using assms(3, 4) by auto
  then show ?thesis unfolding fat_set_def
    by (simp only: if_False) (rule fat_set_copies_serves [OF assms(1, 2, 4)], auto)
qed

lemma clear_sectors_serves:
  assumes "serves s" "\<forall>k \<in> set ks. vol_sector s (n + of_nat k)"
  shows "fst (clear_sectors n ks s)"
  using assms
proof (induction ks arbitrary: s)
  case (Cons k ks)
  obtain s1 where w: "wr_sec (n + of_nat k) (secbuf s) s = (True, s1)"
    using wr_sec_serves [OF Cons.prems(1), of "n + of_nat k" "secbuf s"] Cons.prems(2) by (metis fst_conv list.set_intros(1) surj_pair)
  then have sv: "same_vol s s1" using wr_sec_same [of s "n + of_nat k" "secbuf s"] by simp
  then have "fst (clear_sectors n ks s1)"
    using Cons by (simp add: serves_same [OF sv] vol_sector_same [OF sv])
  then show ?case using w by simp
qed simp

lemma clus_scan_serves:
  assumes "wf_vol s" "serves s" "set ns \<subseteq> {2..<unat (total_clus s)}" "\<And>n. cached = Some n \<Longrightarrow> secbuf s = sec_at s n"
    "n \<in> set ns" "free_in s (of_nat n)"
  shows "fst (clus_scan ns cached s) \<noteq> 0"
  using assms
proof (induction ns arbitrary: cached s)
  case (Cons m ns)
  define d where "d = (of_nat m :: u32)"
  define sec where "sec = fat_sec 0 d s"
  define s1 where "s1 = s\<lparr>secbuf := sec_at s sec\<rparr>"
  have m: "2 \<le> m" "m < unat (total_clus s)" using Cons.prems(3) by auto
  then have ud: "unat d = m" unfolding d_def using unat_lt32 [of "total_clus s"] by (simp add: unat_of_nat_eq)
  then have d: "2 \<le> d" "d < total_clus s" "d \<noteq> 0" using m by (auto simp: word_le_nat_alt word_less_nat_alt word_unat_eq_iff)
  have "vol_sector s sec"
    using vol_sector_table [OF Cons.prems(1) _ d(2), of 0] wf_volD(4) [OF Cons.prems(1)] by (simp add: sec_def word_less_nat_alt)
  then have r: "(if Some sec \<noteq> cached then rd_secbuf sec s else (True, s)) = (True, s1)"
    using Cons.prems(2, 4) by (auto simp: s1_def serves_def rd_secbuf_readable)
  have sv: "same_vol s s1" unfolding s1_def by simp
  have wf1: "wf_vol s1" unfolding s1_def using Cons.prems(1) by (simp add: wf_vol_def sec_at_def)
  have sr1: "serves s1" using serves_same [OF sv] Cons.prems(2) by simp
  have fr: "get32 (secbuf s1) (fat_off d) AND 0x0fffffff = 0 \<longleftrightarrow> free_in s d"
    by (simp add: free_in_def entry_def s1_def sec_def)
  have e1: "free_in s1 x = free_in s x" for x by (simp add: free_in_def entry_def s1_def fat_sec_def)
  note unf = clus_scan.simps(2) [of m ns cached s, unfolded Let_def, folded d_def, folded sec_def, unfolded r case_prod_conv]
  show ?case
  proof (cases "free_in s d")
    case False
    then have "n \<in> set ns" using Cons.prems(5, 6) by (auto simp: d_def)
    then have "fst (clus_scan ns (Some sec) s1) \<noteq> 0"
      using Cons.IH [OF wf1 sr1, of "Some sec"] Cons.prems(3, 6) by (simp add: e1) (simp add: s1_def)
    then show ?thesis unfolding unf using False fr by simp
  next
    case True
    obtain s2 where f: "fat_set d 0x0ffffff8 s1 = (True, s2)"
      using fat_set_serves [OF wf1 sr1, of d "0x0ffffff8"] d same_volD(6) [OF sv] by (metis prod.collapse)
    then have sv2: "same_vol s s2" using fat_set_updated(3) [OF wf1 f] same_vol_trans [OF sv] by (simp add: updated_def)
    define s3 where "s3 = s2\<lparr>secbuf := replicate 512 0\<rparr>"
    have sv3: "same_vol s s3" unfolding s3_def by (rule same_vol_trans [OF sv2]) simp
    have "fst (clear_sectors (clus_sector d s3) [0..<unat (sec_per_clus s3)] s3)"
      using d by (intro clear_sectors_serves)
        (simp_all add: serves_same [OF sv3] Cons.prems(2) vol_sector_same [OF sv3] same_vol_layout [OF sv3]
          same_volD [OF sv3] vol_sector_data)
    then show ?thesis unfolding unf using True fr f d(3) by (auto simp: s3_def split: prod.splits)
  qed
qed simp

text \<open>On a device that serves every sector of the volume, an allocation fails only when no cluster is free, and a table update
  inside the volume does not fail.\<close>

lemma clus_alloc_finds:
  assumes "wf_vol s" "serves s"
  shows "(fst (clus_alloc s) \<noteq> 0 \<longleftrightarrow> (\<exists>d. 2 \<le> d \<and> d < total_clus s \<and> free_in s d)) \<and>
         (\<forall>c v. fst (fat_set c v s) \<longleftrightarrow> 2 \<le> c \<and> c < total_clus s)"
proof (intro conjI allI iffI)
  assume "fst (clus_alloc s) \<noteq> 0"
  then obtain pre suf where ps: "[2..<unat (total_clus s)] = pre @ unat (fst (clus_alloc s)) # suf" "free_in s (fst (clus_alloc s))"
    using clus_scan_spec [OF assms(1), of "[2..<unat (total_clus s)]" None] unfolding clus_alloc_def
    by (metis atLeastLessThan_upt option.distinct(1) order_refl prod.collapse)
  have "unat (fst (clus_alloc s)) \<in> set [2..<unat (total_clus s)]" unfolding ps(1) by simp
  then show "\<exists>d. 2 \<le> d \<and> d < total_clus s \<and> free_in s d"
    using ps(2) by (auto simp: word_le_nat_alt word_less_nat_alt)
next
  assume "\<exists>d. 2 \<le> d \<and> d < total_clus s \<and> free_in s d"
  then obtain d where d: "2 \<le> d" "d < total_clus s" "free_in s d" by blast
  then have "unat d \<in> set [2..<unat (total_clus s)]" by (simp add: word_le_nat_alt word_less_nat_alt)
  moreover have "free_in s (of_nat (unat d))" using d(3) by (metis of_nat_unat ucast_id)
  ultimately show "fst (clus_alloc s) \<noteq> 0"
    unfolding clus_alloc_def by (intro clus_scan_serves [OF assms, of _ _ "unat d"]) auto
next
  fix c v
  assume "fst (fat_set c v s)"
  then show "2 \<le> c" "c < total_clus s" by (auto simp: fat_set_def split: if_splits)
next
  fix c v
  assume "2 \<le> c \<and> c < total_clus s"
  then show "fst (fat_set c v s)" using fat_set_serves [OF assms] by blast
qed

section \<open>Reading\<close>

text \<open>The clusters of a chain in order, and the bytes they hold.\<close>

primrec chain :: "fatfs \<Rightarrow> u32 \<Rightarrow> u32 list \<Rightarrow> bool" where
  "chain s c [] \<longleftrightarrow> c = 0"
| "chain s c (d # ds) \<longleftrightarrow> c = d \<and> 2 \<le> c \<and> c < total_clus s \<and> chain s (link s c) ds"

definition clus_data :: "fatfs \<Rightarrow> u32 \<Rightarrow> bytes" where
  "clus_data s c = concat (map (\<lambda>j. sec_at s (clus_sector c s + of_nat j)) [0..<unat (sec_per_clus s)])"

definition chain_data :: "fatfs \<Rightarrow> u32 list \<Rightarrow> bytes" where
  "chain_data s cs = concat (map (clus_data s) cs)"

lemma concat_uniform:
  assumes "\<And>x. x \<in> set xs \<Longrightarrow> length (f x) = w" "j < length xs"
  shows "length (concat (map f xs)) = length xs * w" "take w (drop (j * w) (concat (map f xs))) = f (xs ! j)"
proof -
  have l: "length (concat (map f ys)) = length ys * w" if "set ys \<subseteq> set xs" for ys
    using that assms(1) by (induction ys) auto
  show "length (concat (map f xs)) = length xs * w" by (rule l) simp
  have "concat (map f xs) = concat (map f (take j xs)) @ f (xs ! j) @ concat (map f (drop (Suc j) xs))"
    using assms(2) by (metis append_take_drop_id concat.simps(2) concat_append list.simps(9) map_append id_take_nth_drop)
  moreover have "length (concat (map f (take j xs))) = j * w"
    using l [of "take j xs"] assms(2) set_take_subset [of j xs] by simp
  moreover have "length (f (xs ! j)) = w" using assms by simp
  ultimately show "take w (drop (j * w) (concat (map f xs))) = f (xs ! j)" by simp
qed

lemma length_clus_data: "wf_vol s \<Longrightarrow> length (clus_data s c) = cluster_bytes s"
proof -
  assume wf: "wf_vol s"
  have "0 < length [0..<unat (sec_per_clus s)]" using wf_volD(3) [OF wf] by (simp add: word_less_nat_alt)
  then show ?thesis unfolding clus_data_def cluster_bytes_def
    using concat_uniform(1) [where w = 512 and j = 0 and xs = "[0..<unat (sec_per_clus s)]"
      and f = "\<lambda>j. sec_at s (clus_sector c s + of_nat j)"] wf_volD(1) [OF wf] by simp
qed

lemma clus_data_sector:
  assumes "wf_vol s" "j < unat (sec_per_clus s)"
  shows "take 512 (drop (j * 512) (clus_data s c)) = sec_at s (clus_sector c s + of_nat j)"
  unfolding clus_data_def
  using concat_uniform(2) [where w = 512 and j = j and xs = "[0..<unat (sec_per_clus s)]"
      and f = "\<lambda>j. sec_at s (clus_sector c s + of_nat j)"] wf_volD(1) [OF assms(1)] assms(2) by simp

lemma length_chain_data: "wf_vol s \<Longrightarrow> length (chain_data s cs) = length cs * cluster_bytes s"
  by (induction cs) (simp_all add: chain_data_def length_clus_data)

lemma view_secbuf [simp]:
  "entry (s\<lparr>secbuf := b\<rparr>) k c = entry s k c" "link (s\<lparr>secbuf := b\<rparr>) c = link s c" "cluster_bytes (s\<lparr>secbuf := b\<rparr>) = cluster_bytes s"
  "clus_sector c (s\<lparr>secbuf := b\<rparr>) = clus_sector c s" "readable (s\<lparr>secbuf := b\<rparr>) = readable s"
  "clus_data (s\<lparr>secbuf := b\<rparr>) = clus_data s"
  by (simp_all add: entry_def fat_sec_def link_def cluster_bytes_def clus_sector_def readable_same clus_data_def fun_eq_iff)

lemma chain_data_secbuf [simp]: "chain_data (s\<lparr>secbuf := b\<rparr>) cs = chain_data s cs"
  by (simp add: chain_data_def)

lemma chain_secbuf [simp]: "chain (s\<lparr>secbuf := b\<rparr>) c cs = chain s c cs"
  by (induction cs arbitrary: c) simp_all

lemma wf_vol_sec [simp]: "wf_vol s \<Longrightarrow> wf_vol (s\<lparr>secbuf := sec_at s n\<rparr>)"
  by (simp add: wf_vol_def sec_at_def)

text \<open>A state reached by reading only differs in the sector buffer.\<close>

lemma fat_skip_chain:
  assumes "wf_vol s" "readable s" "chain s c cs"
  shows "\<exists>b. length b = 512 \<and> fat_skip n c s = (case drop n cs of [] \<Rightarrow> 0 | d # _ \<Rightarrow> d, s\<lparr>secbuf := b\<rparr>) \<and>
             chain s (case drop n cs of [] \<Rightarrow> 0 | d # _ \<Rightarrow> d) (drop n cs)"
  using assms
proof (induction n arbitrary: c cs s)
  case 0
  then show ?case by (intro exI [of _ "secbuf s"]) (cases cs, auto simp: wf_volD)
next
  case (Suc n)
  show ?case
  proof (cases cs)
    case Nil
    then show ?thesis using Suc.prems by (intro exI [of _ "secbuf s"]) (auto simp: wf_volD)
  next
    case (Cons d ds)
    then have c: "c = d" "2 \<le> c" "c < total_clus s" "chain s (link s c) ds" using Suc.prems(3) by auto
    then have "c \<noteq> 0" by auto
    then show ?thesis
      using Suc.IH [of "s\<lparr>secbuf := sec_at s (fat_sec 0 c s)\<rparr>" "link s c" ds] Suc.prems c fat_next_link [OF Suc.prems(1, 2) c(2, 3)] Cons
      by auto
  qed
qed

lemma take_drop_split:
  assumes "n \<le> t" "n \<le> 512 - i" "i < 512" "i + 512 * k = w"
  shows "take t (drop w D) = take n (drop i (take 512 (drop (k * 512) D))) @ take (t - n) (drop (w + n) D)"
proof -
  have "take n (drop i (take 512 (drop (k * 512) D))) = take n (drop w D)"
    using assms by (simp add: drop_take min_def add.commute mult.commute)
  moreover have "take t (drop w D) = take n (drop w D) @ take (t - n) (drop n (drop w D))"
    using assms(1) by (metis le_add_diff_inverse take_add)
  ultimately show ?thesis by (simp add: add.commute)
qed

lemma fat_read_loop_spec:
  assumes "wf_vol s" "readable s" "chain s c cs" "todo < fuel" "cs \<noteq> [] \<Longrightarrow> within < cluster_bytes s"
    "within + todo \<le> length cs * cluster_bytes s \<or> todo = 0"
  shows "fst (fat_read_loop fuel c within todo done' s) = (done' @ take todo (drop within (chain_data s cs)), False)"
  using assms
proof (induction fuel arbitrary: c cs within todo done' s)
  case (Suc fuel)
  show ?case
  proof (cases "todo = 0 \<or> c = 0")
    case True
    moreover have "todo = 0" if "c = 0" using that Suc.prems(3, 6) by (cases cs) auto
    ultimately show ?thesis by auto
  next
    case False
    obtain ds where cs: "cs = c # ds" and c: "2 \<le> c" "c < total_clus s" "chain s (link s c) ds"
      using Suc.prems(3) False by (cases cs) auto
    have w: "within < unat (sec_per_clus s) * 512" using Suc.prems(5) cs by (simp add: cluster_bytes_def)
    define k where "k = within div 512"
    define i where "i = within mod 512"
    define n where "n = min (512 - i) todo"
    have ki: "i < 512" "i + 512 * k = within" unfolding k_def i_def by simp_all
    have k: "k < unat (sec_per_clus s)" using w ki by linarith
    have n: "0 < n" "n \<le> todo" "n \<le> 512 - i" unfolding n_def using ki False by auto
    have room: "within + n \<le> cluster_bytes s" using k ki n(3) unfolding cluster_bytes_def by linarith
    define b where "b = sec_at s (clus_sector c s + of_nat k)"
    define s1 where "s1 = s\<lparr>secbuf := b\<rparr>"
    have r: "rd_secbuf (clus_sector c s + of_nat (within div 512)) s = (True, s1)"
      unfolding s1_def b_def k_def using rd_secbuf_readable [OF Suc.prems(2)] vol_sector_data [OF c(1, 2) k] k_def by simp
    have s1: "wf_vol s1" "readable s1" unfolding s1_def b_def using Suc.prems(1, 2) by simp_all
    have sec: "take 512 (drop (k * 512) (chain_data s cs)) = b"
      using clus_data_sector [OF Suc.prems(1) k, of c] k length_clus_data [OF Suc.prems(1), of c]
      by (simp add: b_def cs chain_data_def cluster_bytes_def)
    have split: "take todo (drop within (chain_data s cs)) = take n (drop i b) @ take (todo - n) (drop (within + n) (chain_data s cs))"
      using take_drop_split [OF n(2, 3) ki, of "chain_data s cs"] sec by (simp only:)
    note unf = fat_read_loop.simps(2) [of fuel c within todo done' s, unfolded Let_def r case_prod_conv,
        folded i_def, folded n_def]
    have sb: "secbuf s1 = b" unfolding s1_def by simp
    show ?thesis
    proof (cases "within + n \<ge> cluster_bytes s")
      case True
      then have e: "within + n = cluster_bytes s" using room by simp
      obtain b2 where nx: "fat_next c s1 = (link s c, s\<lparr>secbuf := b2\<rparr>)" "length b2 = 512"
        using fat_next_link [OF s1 c(1)] c(2) wf_volD(1) [OF Suc.prems(1)] by (auto simp: s1_def)
      have wf2: "wf_vol (s\<lparr>secbuf := b2\<rparr>)" using Suc.prems(1) nx(2) by (simp add: wf_vol_def)
      have rest: "drop (within + n) (chain_data s cs) = chain_data s ds"
        by (simp add: e cs chain_data_def length_clus_data [OF Suc.prems(1)])
      have "0 < cluster_bytes s" using room n(1) by simp
      then have "fst (fat_read_loop fuel (link s c) 0 (todo - n) (done' @ take n (drop i b)) (s\<lparr>secbuf := b2\<rparr>)) =
          ((done' @ take n (drop i b)) @ take (todo - n) (drop 0 (chain_data (s\<lparr>secbuf := b2\<rparr>) ds)), False)"
        using Suc.prems n e cs c(3) wf2 by (intro Suc.IH) auto
      then show ?thesis unfolding unf sb using False True nx(1) split rest by (simp add: s1_def)
    next
      case nf: False
      have "fst (fat_read_loop fuel c (within + n) (todo - n) (done' @ take n (drop i b)) s1) =
          ((done' @ take n (drop i b)) @ take (todo - n) (drop (within + n) (chain_data s1 cs)), False)"
        using Suc.prems n nf s1 by (intro Suc.IH) (auto simp: s1_def)
      then show ?thesis unfolding unf sb using False nf split by (simp add: s1_def)
    qed
  qed
qed simp

text \<open>C22: reading a regular file returns exactly the bytes its cluster chain holds from the offset on, cut at the length asked for
  and at the size in the directory entry, wherever the range crosses sectors and clusters.\<close>

theorem fat_read_chain:
  assumes "wf_vol s" "readable s" "mounted s" "\<not> is_dir f" "chain s (cluster f) cs"
    "unat (fsize f) \<le> length cs * cluster_bytes s" "unat off + unat len < 2 ^ 64"
  shows "fst (fat_read f off len s) = Some (take (unat len) (drop (unat off) (take (unat (fsize f)) (chain_data s cs))))"
proof (cases "off \<ge> ucast (fsize f)")
  case True
  then have "unat (fsize f) \<le> unat off" by (simp add: word_le_nat_alt)
  then show ?thesis using True assms(3, 4) by (simp add: fat_read_def)
next
  case False
  then have lt: "unat off < unat (fsize f)" by (simp add: word_le_nat_alt)
  define len' where "len' = (if off + len > ucast (fsize f) then ucast (fsize f) - off else len)"
  have sum: "unat (off + len) = unat off + unat len" using assms(7) by (intro unat_add_no_wrap) simp
  have l': "unat len' = min (unat len) (unat (fsize f) - unat off)"
    using lt sum by (auto simp: len'_def word_less_nat_alt unat_sub_if_size)
  define q where "q = unat off div cluster_bytes s"
  define r where "r = unat off mod cluster_bytes s"
  have cb: "0 < cluster_bytes s" using wf_volD(3) [OF assms(1)] by (simp add: cluster_bytes_def word_less_nat_alt)
  have qr: "q * cluster_bytes s + r = unat off" "r < cluster_bytes s" unfolding q_def r_def using cb by simp_all
  have "q * cluster_bytes s < length cs * cluster_bytes s" using lt assms(6) qr by linarith
  then have q: "q < length cs" by simp
  obtain b c where b: "length b = 512" "fat_skip q (cluster f) s = (c, s\<lparr>secbuf := b\<rparr>)" "chain s c (drop q cs)"
    using fat_skip_chain [OF assms(1, 2, 5), of q] by blast
  have wf1: "wf_vol (s\<lparr>secbuf := b\<rparr>)" using assms(1) b(1) by (simp add: wf_vol_def)
  have "r + unat len' \<le> length (drop q cs) * cluster_bytes s"
    using l' lt assms(6) qr q by (simp add: diff_mult_distrib)
  then have "fst (fat_read_loop (Suc (unat len')) c r (unat len') [] (s\<lparr>secbuf := b\<rparr>)) =
      ([] @ take (unat len') (drop r (chain_data (s\<lparr>secbuf := b\<rparr>) (drop q cs))), False)"
    using wf1 assms(2) b(3) qr(2) by (intro fat_read_loop_spec) auto
  moreover have "drop r (chain_data s (drop q cs)) = drop (unat off) (chain_data s cs)"
  proof -
    have "chain_data s cs = chain_data s (take q cs) @ chain_data s (drop q cs)"
      unfolding chain_data_def by (metis append_take_drop_id concat_append map_append)
    moreover have "length (chain_data s (take q cs)) = q * cluster_bytes s" using q by (simp add: length_chain_data [OF assms(1)])
    ultimately show ?thesis using qr(1) by (metis drop_drop append_eq_conv_conj add.commute)
  qed
  moreover have "fat_read f off len s = (let ((bs, failed), s2) = fat_read_loop (Suc (unat len')) c r (unat len') [] (s\<lparr>secbuf := b\<rparr>)
      in if failed \<and> bs = [] then (None, s2) else (Some bs, s2))"
    unfolding fat_read_def len'_def [symmetric] q_def [symmetric] r_def [symmetric]
    using False assms(3, 4) b(2) by (simp add: len'_def [symmetric])
  ultimately show ?thesis using l' lt by (simp add: drop_take min.commute split: prod.splits del: fat_read_loop.simps)
qed

section \<open>A small volume\<close>

text \<open>Two copies of a one-sector table, clusters of two sectors, every entry free; the first cluster holds some bytes.\<close>

definition demo_vol :: fatfs where
  "demo_vol = \<lparr>bytes_per_sec = 512, sec_per_clus = 2, first_data_sec = 3, fat_start = 1, root_clus = 2, fsinfo_sec = 0,
     total_clus = 5, nfats = 2, fatsz = 1, mounted = True, part_lba = 0, secbuf = replicate 512 0, dirbuf = replicate 512 0,
     lfn_init = replicate 261 0,
     dsk = \<lparr>present = True, capacity = 64, medium = (\<lambda>n. replicate 512 (if n = 3 then 7 else if n = 4 then 9 else 0)), fails = (\<lambda>_ _. False)\<rparr>\<rparr>"

lemma demo_vol_wf: "wf_vol demo_vol"
  by (simp add: wf_vol_def demo_vol_def)

lemma demo_vol_serves: "serves demo_vol"
  by (auto simp: serves_def readable_def vol_sector_def blk_read_def blk_write_def demo_vol_def word_le_nat_alt)

lemma demo_vol_free: "free_in demo_vol c" if "c < 5"
proof -
  have "unat c < 5" using that by (simp add: word_less_nat_alt)
  then have "unat (fat_sec 0 c demo_vol) = unat (1 :: u64)" unfolding unat_fat_sec by (simp add: demo_vol_def)
  then have f: "fat_sec 0 c demo_vol = 1" by (simp only: word_unat_eq_iff)
  have "fat_off c + 4 \<le> 512" by (rule fat_off_bound)
  moreover have "sec_at demo_vol 1 = replicate 512 0" by (simp add: sec_at_def demo_vol_def)
  ultimately show ?thesis by (simp add: free_in_def entry_def f get32_def le32_def)
qed

theorem clus_alloc_exclusive_witness: "fst (clus_alloc demo_vol) = 2"
proof -
  obtain c s' where a: "clus_alloc demo_vol = (c, s')" by fastforce
  have "2 \<le> (2 :: u32) \<and> 2 < total_clus demo_vol \<and> free_in demo_vol 2" using demo_vol_free by (simp add: demo_vol_def)
  then have n: "[2..<unat (total_clus demo_vol)] = [2, 3, 4]" "free_in demo_vol (of_nat 2)"
    by (simp_all add: demo_vol_def upt_rec)
  have "fst (clus_scan [2, 3, 4] None demo_vol) \<noteq> 0"
    using n by (intro clus_scan_serves [OF demo_vol_wf demo_vol_serves, of _ _ 2]) (auto simp: demo_vol_def)
  then have "c \<noteq> 0" using a n by (simp add: clus_alloc_def)
  then have "2 \<le> c \<and> (\<forall>d. 2 \<le> d \<and> d < c \<longrightarrow> \<not> free_in demo_vol d)"
    using clus_alloc_exclusive [OF demo_vol_wf a] by blast
  moreover have "free_in demo_vol 2" using n(2) by simp
  ultimately show ?thesis using a by (metis fst_conv order.order_iff_strict order_refl)
qed

theorem fat_read_chain_witness:
  "fst (fat_read \<lparr>cluster = 2, fsize = 600, is_dir = False, dir_sec = 3, dir_off = 0\<rparr> 510 4 demo_vol) = Some [7, 7, 9, 9]"
proof -
  let ?f = "\<lparr>cluster = 2, fsize = 600, is_dir = False, dir_sec = 3, dir_off = 0\<rparr> :: fat_file"
  have r: "readable demo_vol" using demo_vol_serves by (simp add: serves_def)
  have "link demo_vol 2 = 0" using demo_vol_free [of 2] by (simp add: free_in_def link_def)
  then have c: "chain demo_vol (cluster ?f) [2]" by (simp add: demo_vol_def)
  have d: "chain_data demo_vol [2] = replicate 512 7 @ replicate 512 9"
    by (simp add: chain_data_def clus_data_def sec_at_def clus_sector_def demo_vol_def upt_rec)
  have "fst (fat_read ?f 510 4 demo_vol) = Some (take (unat (4 :: u64)) (drop (unat (510 :: u64)) (take (unat (fsize ?f)) (chain_data demo_vol [2]))))"
    by (rule fat_read_chain [OF demo_vol_wf r _ _ c]) (simp_all add: demo_vol_def cluster_bytes_def)
  also have "\<dots> = Some (take 4 (drop 510 (take 600 (replicate 512 7 @ replicate 512 9))))" unfolding d by simp
  also have "\<dots> = Some [7, 7, 9, 9]" by (simp add: numeral_eq_Suc)
  finally show ?thesis .
qed

section \<open>Short names\<close>

lemma last_dot_none: "46 \<notin> set name \<Longrightarrow> last_dot name = None"
proof -
  assume "46 \<notin> set name"
  then have "filter (\<lambda>i. name ! i = 46) [0..<length name] = []" by (auto simp: filter_empty_conv in_set_conv_nth)
  then show ?thesis by (simp add: last_dot_def)
qed

lemma last_dot_some: "46 \<notin> set ext \<Longrightarrow> last_dot (base @ 46 # ext) = Some (length base)"
proof -
  assume e: "46 \<notin> set ext"
  let ?n = "base @ 46 # ext"
  have u: "[0..<length ?n] = [0..<length base] @ length base # [Suc (length base)..<length base + Suc (length ext)]"
    using upt_add_eq_append [of 0 "length base" "Suc (length ext)"]
    by (simp add: upt_conv_Cons del: upt_Suc)
  have "?n ! i \<noteq> 46" if "i \<in> set [Suc (length base)..<length base + Suc (length ext)]" for i
  proof -
    have "Suc (length base) \<le> i" using that by auto
    then obtain j where j: "i = Suc (length base) + j" by (rule le_Suc_ex [THEN exE])
    then have "?n ! i = ext ! j" by (simp add: nth_append)
    moreover have "ext ! j \<in> set ext" using that j by (intro nth_mem) auto
    ultimately show ?thesis using e by metis
  qed
  then have "filter (\<lambda>i. ?n ! i = 46) [Suc (length base)..<length base + Suc (length ext)] = []"
    unfolding filter_empty_conv by blast
  then have f: "filter (\<lambda>i. ?n ! i = 46) [0..<length ?n] = filter (\<lambda>i. ?n ! i = 46) [0..<length base] @ [length base]"
    unfolding u by simp
  have c: "(case xs @ [y] of [] \<Rightarrow> None | ys \<Rightarrow> Some (List.last ys)) = Some y" for xs and y :: nat by (cases xs) simp_all
  show ?thesis unfolding last_dot_def f by (rule c)
qed

lemma splice_Cons: "n < length out \<Longrightarrow> splice (Suc n) zs (out[n := z]) = splice n (z # zs) out"
  by (simp add: splice_def take_Suc_conv_app_nth)

lemma make_83_loop_base:
  assumes "case dot of Some d \<Rightarrow> i + length xs \<le> d | None \<Rightarrow> True" "make_83_loop (xs @ ys) i dot n e out = Some r"
    "n \<le> 8" "length out = 11"
  shows "make_83_loop ys (i + length xs) dot (n + length xs) e (splice n (map upper xs) out) = Some r \<and> n + length xs \<le> 8"
  using assms
proof (induction xs arbitrary: i n out)
  case Nil
  then show ?case by (simp add: splice_def)
next
  case (Cons x xs)
  have d: "Some i \<noteq> dot" "\<not> (case dot of Some d \<Rightarrow> i > d | None \<Rightarrow> False)" using Cons.prems(1) by (auto split: option.splits)
  have n: "n < 8" and r: "make_83_loop (xs @ ys) (Suc i) dot (Suc n) e (out[n := upper x]) = Some r"
    using Cons.prems(2) d by (auto simp: Let_def split: if_splits)
  have "case dot of Some d \<Rightarrow> Suc i + length xs \<le> d | None \<Rightarrow> True" using Cons.prems(1) by (simp split: option.splits)
  from Cons.IH [OF this r] show ?case using n Cons.prems(4) splice_Cons [of n out "map upper xs" "upper x"] by simp
qed

lemma make_83_loop_ext:
  assumes "d < i" "make_83_loop xs i (Some d) n e out = Some r" "e \<le> 3" "length out = 11"
  shows "r = (n, splice (8 + e) (map upper xs) out) \<and> e + length xs \<le> 3"
  using assms
proof (induction xs arbitrary: i e out)
  case Nil
  then show ?case by (simp add: splice_def)
next
  case (Cons x xs)
  have n: "e < 3" and r: "make_83_loop xs (Suc i) (Some d) n (Suc e) (out[8 + e := upper x]) = Some r"
    using Cons.prems(1, 2) by (auto simp: Let_def split: if_splits)
  from Cons.IH [OF _ r] show ?case using n Cons.prems(1, 4) splice_Cons [of "8 + e" out "map upper xs" "upper x"] by simp
qed

lemma upper_special [simp]: "upper c = 32 \<longleftrightarrow> c = 32" "upper c = 0 \<longleftrightarrow> c = 0" "upper 46 = 46" "upper (upper c) = upper c"
proof -
  have b: "97 \<le> unat c \<and> unat c \<le> 122 \<Longrightarrow> unat (c - 32) = unat c - 32" by (simp add: unat_sub_if_size)
  have u: "unat (upper c) = (if 97 \<le> unat c \<and> unat c \<le> 122 then unat c - 32 else unat c)" for c
    by (simp add: upper_def word_le_nat_alt unat_sub_if_size)
  show "upper c = 32 \<longleftrightarrow> c = 32" "upper c = 0 \<longleftrightarrow> c = 0" "upper 46 = 46" "upper (upper c) = upper c"
    unfolding word_unat_eq_iff u by (auto simp: u)
qed

lemma short_name_fields:
  assumes "length b \<le> 8" "length x \<le> 3" "32 \<notin> set b" "32 \<notin> set x" "0 \<notin> set b" "0 \<notin> set x"
    "e = b @ replicate (8 - length b) 32 @ x @ replicate (3 - length x) 32"
  shows "short_name (new_entry e) = b @ (if x = [] then [] else 46 # x)"
proof -
  have le: "length e = 11" using assms(1, 2, 7) by simp
  have ne: "new_entry e = e @ 0x20 # replicate 20 0"
    by (simp add: new_entry_def le list_update_append numeral_eq_Suc)
  have t8: "take 8 (new_entry e) = b @ replicate (8 - length b) 32" unfolding ne using assms(1, 7) by simp
  have t3: "take 3 (drop 8 (new_entry e)) = x @ replicate (3 - length x) 32" unfolding ne using assms(1, 2, 7) by simp
  have stop: "takeWhile (\<lambda>c. c \<noteq> 32) (ys @ replicate k 32) = ys" if "32 \<notin> set ys" for ys :: bytes and k
    using that by (induction ys) (auto simp: takeWhile_replicate)
  have e8: "new_entry e ! 8 = (if x = [] then 32 else x ! 0)"
    unfolding ne using assms(1, 2, 7) by (auto simp: nth_append)
  have nz: "cstr ys = ys" if "0 \<notin> set ys" for ys unfolding cstr_def using that by (induction ys) auto
  have "x \<noteq> [] \<Longrightarrow> x ! 0 \<noteq> 32" using assms(4) by (metis length_greater_0_conv nth_mem)
  then show ?thesis unfolding short_name_def t8 t3 e8 using assms stop by (auto intro!: nz)
qed

text \<open>C31: a name that fits 8.3, without a space in it and not ending in a dot, is the name that the entry made for it shows, up to
  case; so the file is found again under the name it was created with.\<close>

theorem make_83_short_name:
  assumes "make_83 name = Some e" "32 \<notin> set name" "0 \<notin> set name" "name \<noteq> []" "List.last name \<noteq> 46"
  shows "short_name (new_entry e) = map upper name \<and> name_eq (short_name (new_entry e)) name"
proof -
  let ?o = "replicate 11 32 :: bytes"
  obtain n where l: "make_83_loop name 0 (last_dot name) 0 0 ?o = Some (n, e)"
    using assms(1) by (auto simp: make_83_def split: option.splits prod.splits if_splits)
  have sn: "short_name (new_entry e) = map upper name"
  proof (cases "46 \<in> set name")
    case False
    then have "make_83_loop (name @ []) 0 None 0 0 ?o = Some (n, e)" using l last_dot_none by simp
    then have "splice 0 (map upper name) ?o = e" "length name \<le> 8"
      using make_83_loop_base [of 0 name None "[]" 0 0 ?o "(n, e)"] by simp_all
    then show ?thesis
      using short_name_fields [of "map upper name" "[]" e] assms(2, 3)
      by (simp add: splice_def image_iff flip: replicate_add)
  next
    case True
    then obtain base ext where nm: "name = base @ 46 # ext" "46 \<notin> set ext" using split_list_last by metis
    then have "make_83_loop (base @ 46 # ext) 0 (Some (length base)) 0 0 ?o = Some (n, e)" using l last_dot_some by simp
    then have "make_83_loop (46 # ext) (length base) (Some (length base)) (length base) 0 (splice 0 (map upper base) ?o) = Some (n, e)"
      and b: "length base \<le> 8" using make_83_loop_base [of 0 base "Some (length base)" "46 # ext" 0 0 ?o "(n, e)"] by simp_all
    then have "make_83_loop ext (Suc (length base)) (Some (length base)) (length base) 0 (splice 0 (map upper base) ?o) = Some (n, e)"
      by (simp add: Let_def)
    then have x: "length ext \<le> 3" and e: "e = splice 8 (map upper ext) (splice 0 (map upper base) ?o)"
      using make_83_loop_ext [of "length base" "Suc (length base)" ext "length base" 0 "splice 0 (map upper base) ?o" "(n, e)"] b by simp_all
    have "ext \<noteq> []" using assms(5) nm by auto
    moreover have "e = map upper base @ replicate (8 - length base) 32 @ map upper ext @ replicate (3 - length ext) 32"
      unfolding e splice_def using b x by simp
    ultimately show ?thesis
      using short_name_fields [of "map upper base" "map upper ext" e] assms(2, 3) b x nm by (simp add: image_iff)
  qed
  moreover have "name_eq (map upper name) name" by (simp add: name_eq_def)
  ultimately show ?thesis by simp
qed

theorem make_83_short_name_witness:
  "make_83 [110, 111, 116, 101, 46, 116, 120] = Some [78, 79, 84, 69, 32, 32, 32, 32, 84, 88, 32] \<and>
   short_name (new_entry [78, 79, 84, 69, 32, 32, 32, 32, 84, 88, 32]) = [78, 79, 84, 69, 46, 84, 88]"
proof -
  have m: "make_83 [110, 111, 116, 101, 46, 116, 120] = Some [78, 79, 84, 69, 32, 32, 32, 32, 84, 88, 32]" by code_simp
  then show ?thesis using make_83_short_name [OF m] by (simp add: upper_def)
qed

end
