(* ===== verification/Fdt.thy ===== *)
theory Fdt
  imports Klib
begin

text \<open>
  The reader of the flattened device tree (\<open>stam/fdt.c\<close>). The blob is memory; a node is its byte offset in the
  structure block, a C \<open>int\<close> kept as its 32-bit pattern, with -1 for none. The string arguments of the functions are
  literals or NUL-terminated arrays of the callers and are lists of bytes here.

  \<open>None\<close> is a loop that has not ended: on a corrupt tree a length close to \<open>2\<^sup>3\<^sup>2\<close> brings a loop back
  to where it was. The token that \<open>step\<close> leaves unwritten at the end of the block is an uninitialised local of
  \<open>fdt_next_node\<close>; its value is an argument.

  The lemmas show that \<open>fdt_getprop\<close> finds the property of a node in a block written to the specification of the
  format, and that \<open>fdt_cells\<close> reads back big-endian cells.
\<close>

record fdt =
  strukt :: u64
  strukt_size :: u32
  strings :: u64
  total :: u32
  addr_cells :: u32
  size_cells :: u32

definition FDT_NONE :: u32 where
  "FDT_NONE = 0xffffffff"

definition be32 :: "mem \<Rightarrow> u64 \<Rightarrow> u32" where
  "be32 m p = le32 (m (p + 3)) (m (p + 2)) (m (p + 1)) (m p)"

definition align4 :: "u32 \<Rightarrow> u32" where
  "align4 n = (n + 3) AND NOT 3"

text \<open>The comparison of a string in memory with a literal, and of its first bytes.\<close>

primrec str_is :: "mem \<Rightarrow> u64 \<Rightarrow> bytes \<Rightarrow> bool" where
  "str_is m p [] \<longleftrightarrow> m p = 0"
| "str_is m p (c # cs) \<longleftrightarrow> m p = c \<and> str_is m (p + 1) cs"

definition str_at :: "mem \<Rightarrow> u64 \<Rightarrow> bytes option" where
  "str_at m p = map_option (\<lambda>n. map (\<lambda>i. m (p + of_nat i)) [0..<n]) (strlen m p)"

section \<open>The structure block\<close>

primrec fdt_root_loop :: "nat \<Rightarrow> mem \<Rightarrow> fdt \<Rightarrow> u32 \<Rightarrow> u32 option" where
  "fdt_root_loop 0 m f off = None"
| "fdt_root_loop (Suc fuel) m f off =
     (if off + 4 \<le> strukt_size f then
        let tok = be32 m (strukt f + ucast off)
        in if tok = 1 then Some off else if tok = 9 then Some FDT_NONE else fdt_root_loop fuel m f (off + 4)
      else Some FDT_NONE)"

definition block_fuel :: "fdt \<Rightarrow> nat" where
  "block_fuel f = Suc (Suc (unat (strukt_size f)))"

definition fdt_root :: "mem \<Rightarrow> fdt \<Rightarrow> u32 option" where
  "fdt_root m f = fdt_root_loop (block_fuel f) m f 0"

text \<open>Step over one token: the offset of the next, and the token unless the block ended before it.\<close>

definition step :: "mem \<Rightarrow> fdt \<Rightarrow> u32 \<Rightarrow> (u32 \<times> u32 option) option" where
  "step m f off =
     (if off + 4 > strukt_size f then Some (FDT_NONE, None)
      else let tok = be32 m (strukt f + ucast off)
           in if tok = 1 then
                (case strlen m (strukt f + ucast off + 4) of
                   None \<Rightarrow> None
                 | Some n \<Rightarrow> Some (off + 4 + align4 (of_nat n + 1), Some tok))
              else if tok = 3 then
                if off + 12 > strukt_size f then Some (FDT_NONE, Some tok)
                else Some (off + 12 + align4 (be32 m (strukt f + ucast off + 4)), Some tok)
              else if tok = 2 \<or> tok = 4 then Some (off + 4, Some tok)
              else Some (FDT_NONE, Some tok))"

primrec next_node_loop :: "nat \<Rightarrow> mem \<Rightarrow> fdt \<Rightarrow> u32 \<Rightarrow> u32 \<Rightarrow> int \<Rightarrow> (u32 \<times> int) option" where
  "next_node_loop 0 m f junk p depth = None"
| "next_node_loop (Suc fuel) m f junk p depth =
     (if p = FDT_NONE then Some (FDT_NONE, depth)
      else case step m f p of
        None \<Rightarrow> None
      | Some (nxt, tok) \<Rightarrow>
          let t = (case tok of None \<Rightarrow> junk | Some t \<Rightarrow> t);
              depth' = (if t = 2 then depth - 1 else depth)
          in if t = 1 then Some (p, depth + 1)
             else if t = 2 \<and> depth' < 0 then Some (FDT_NONE, depth')
             else if t = 9 \<or> nxt = FDT_NONE then Some (FDT_NONE, depth')
             else next_node_loop fuel m f junk nxt depth')"

definition fdt_next_node :: "mem \<Rightarrow> fdt \<Rightarrow> u32 \<Rightarrow> u32 \<Rightarrow> int \<Rightarrow> (u32 \<times> int) option" where
  "fdt_next_node m f junk off depth =
     (case step m f off of None \<Rightarrow> None | Some (p, _) \<Rightarrow> next_node_loop (block_fuel f) m f junk p depth)"

definition fdt_node_name :: "mem \<Rightarrow> fdt \<Rightarrow> u32 \<Rightarrow> bytes option" where
  "fdt_node_name m f off = (if off = FDT_NONE then Some [] else str_at m (strukt f + scast off + 4))"

section \<open>Properties of a node\<close>

text \<open>The result is the address and the length of the value, inside an option for the null pointer.\<close>

primrec getprop_loop :: "nat \<Rightarrow> mem \<Rightarrow> fdt \<Rightarrow> u32 \<Rightarrow> bytes \<Rightarrow> (u64 \<times> u32) option option" where
  "getprop_loop 0 m f p name = None"
| "getprop_loop (Suc fuel) m f p name =
     (if p \<noteq> FDT_NONE \<and> sint (p + 4) \<le> sint (strukt_size f) then
        let a = strukt f + scast p; t = be32 m a
        in if t = 4 then getprop_loop fuel m f (p + 4) name
           else if t \<noteq> 3 then Some None
           else let plen = be32 m (a + 4); noff = be32 m (a + 8)
                in if str_is m (strings f + ucast noff) name then Some (Some (a + 12, plen))
                   else getprop_loop fuel m f (p + 12 + align4 plen) name
      else Some None)"

definition fdt_getprop :: "mem \<Rightarrow> fdt \<Rightarrow> u32 \<Rightarrow> bytes \<Rightarrow> (u64 \<times> u32) option option" where
  "fdt_getprop m f off name =
     (if off = FDT_NONE then Some None
      else case step m f off of None \<Rightarrow> None | Some (p, _) \<Rightarrow> getprop_loop (block_fuel f) m f p name)"

primrec compatible_loop :: "nat \<Rightarrow> mem \<Rightarrow> u64 \<Rightarrow> u32 \<Rightarrow> u32 \<Rightarrow> bytes \<Rightarrow> bool option" where
  "compatible_loop 0 m p i len cname = None"
| "compatible_loop (Suc fuel) m p i len cname =
     (if i < len then
        if str_is m (p + ucast i) cname then Some True
        else case strlen m (p + ucast i) of
               None \<Rightarrow> None
             | Some n \<Rightarrow> compatible_loop fuel m p (i + of_nat n + 1) len cname
      else Some False)"

definition lit_compatible :: bytes where
  "lit_compatible = [99, 111, 109, 112, 97, 116, 105, 98, 108, 101]"

definition fdt_is_compatible :: "mem \<Rightarrow> fdt \<Rightarrow> u32 \<Rightarrow> bytes \<Rightarrow> bool option" where
  "fdt_is_compatible m f off cname =
     (case fdt_getprop m f off lit_compatible of
        None \<Rightarrow> None
      | Some None \<Rightarrow> Some False
      | Some (Some (p, len)) \<Rightarrow> compatible_loop (Suc (unat len)) m p 0 len cname)"

primrec find_compatible_loop :: "nat \<Rightarrow> mem \<Rightarrow> fdt \<Rightarrow> u32 \<Rightarrow> u32 \<Rightarrow> int \<Rightarrow> bytes \<Rightarrow> u32 option" where
  "find_compatible_loop 0 m f junk n depth cname = None"
| "find_compatible_loop (Suc fuel) m f junk n depth cname =
     (if n = FDT_NONE then Some FDT_NONE
      else case fdt_is_compatible m f n cname of
        None \<Rightarrow> None
      | Some True \<Rightarrow> Some n
      | Some False \<Rightarrow>
          (case fdt_next_node m f junk n depth of
             None \<Rightarrow> None
           | Some (n', depth') \<Rightarrow> find_compatible_loop fuel m f junk n' depth' cname))"

definition fdt_find_compatible :: "mem \<Rightarrow> fdt \<Rightarrow> u32 \<Rightarrow> bytes \<Rightarrow> u32 option" where
  "fdt_find_compatible m f junk cname =
     (case fdt_root m f of None \<Rightarrow> None | Some n \<Rightarrow> find_compatible_loop (block_fuel f) m f junk n 0 cname)"

section \<open>Paths\<close>

text \<open>A segment of a path names a node in full or without the unit address after the at sign.\<close>

definition seg_matches :: "bytes \<Rightarrow> bytes \<Rightarrow> bool" where
  "seg_matches nm seg \<longleftrightarrow>
     (let sl = length seg; bare = length (takeWhile (\<lambda>c. c \<noteq> 64) nm)
      in (sl = length nm \<and> take sl nm = seg) \<or> (sl = bare \<and> take sl nm = seg))"

primrec find_path_loop :: "nat \<Rightarrow> mem \<Rightarrow> fdt \<Rightarrow> u32 \<Rightarrow> u32 \<Rightarrow> int \<Rightarrow> int \<Rightarrow> bytes \<Rightarrow> u32 option" where
  "find_path_loop 0 m f junk n depth want seg = None"
| "find_path_loop (Suc fuel) m f junk n depth want seg =
     (if n = FDT_NONE then Some FDT_NONE
      else case (if depth \<noteq> want then Some None else map_option Some (fdt_node_name m f n)) of
        None \<Rightarrow> None
      | Some nm \<Rightarrow>
          let e = takeWhile (\<lambda>c. c \<noteq> 47) seg; rest = drop (length e) seg;
              hit = (case nm of None \<Rightarrow> False | Some nm \<Rightarrow> seg_matches nm e)
          in if hit \<and> rest = [] then Some n
             else (case fdt_next_node m f junk n depth of
                     None \<Rightarrow> None
                   | Some (n', depth') \<Rightarrow>
                       find_path_loop fuel m f junk n' depth'
                         (if hit then want + 1 else want) (if hit then drop 1 rest else seg)))"

definition fdt_find_path :: "mem \<Rightarrow> fdt \<Rightarrow> u32 \<Rightarrow> bytes \<Rightarrow> u32 option" where
  "fdt_find_path m f junk path =
     (if path = [] \<or> hd path \<noteq> 47 then Some FDT_NONE
      else if tl path = [] then fdt_root m f
      else case fdt_root m f of
        None \<Rightarrow> None
      | Some n \<Rightarrow> find_path_loop (block_fuel f) m f junk n 0 1 (tl path))"

section \<open>Cells\<close>

definition fdt_cells :: "mem \<Rightarrow> u64 \<Rightarrow> u32 \<Rightarrow> u64" where
  "fdt_cells m p cells =
     fold (\<lambda>i v. push_bit 32 v OR ucast (be32 m (p + ucast (of_nat i * 4 :: u32)))) [0..<unat cells] 0"

definition lit_reg :: bytes where
  "lit_reg = [114, 101, 103]"

definition fdt_reg :: "mem \<Rightarrow> fdt \<Rightarrow> u32 \<Rightarrow> (u64 \<times> u64) option option" where
  "fdt_reg m f off =
     (case fdt_getprop m f off lit_reg of
        None \<Rightarrow> None
      | Some None \<Rightarrow> Some None
      | Some (Some (p, len)) \<Rightarrow>
          if len < (addr_cells f + size_cells f) * 4 then Some None
          else Some (Some (fdt_cells m p (addr_cells f), fdt_cells m (p + ucast (addr_cells f * 4)) (size_cells f))))"

definition lit_address_cells :: bytes where
  "lit_address_cells = [35, 97, 100, 100, 114, 101, 115, 115, 45, 99, 101, 108, 108, 115]"

definition lit_size_cells :: bytes where
  "lit_size_cells = [35, 115, 105, 122, 101, 45, 99, 101, 108, 108, 115]"

text \<open>A four-byte property of the root, or a default.\<close>

definition root_cells :: "mem \<Rightarrow> fdt \<Rightarrow> u32 \<Rightarrow> bytes \<Rightarrow> u32 \<Rightarrow> u32 option" where
  "root_cells m f root name dflt =
     map_option (\<lambda>r. case r of Some (p, len) \<Rightarrow> if len = 4 then be32 m p else dflt | None \<Rightarrow> dflt) (fdt_getprop m f root name)"

definition fdt_init :: "mem \<Rightarrow> u64 \<Rightarrow> fdt option option" where
  "fdt_init m dtb =
     (if dtb = 0 \<or> be32 m dtb \<noteq> 0xd00dfeed then Some None
      else let f = \<lparr>strukt = dtb + ucast (be32 m (dtb + 8)), strukt_size = be32 m (dtb + 36),
                    strings = dtb + ucast (be32 m (dtb + 12)), total = be32 m (dtb + 4), addr_cells = 2, size_cells = 1\<rparr>
           in case fdt_root m f of
                None \<Rightarrow> None
              | Some root \<Rightarrow>
                  if root = FDT_NONE then Some (Some f)
                  else (case root_cells m f root lit_address_cells 2 of
                          None \<Rightarrow> None
                        | Some a \<Rightarrow>
                            (case root_cells m (f\<lparr>addr_cells := a\<rparr>) root lit_size_cells 1 of
                               None \<Rightarrow> None
                             | Some z \<Rightarrow> Some (Some (f\<lparr>addr_cells := a, size_cells := z\<rparr>)))))"

section \<open>The block as the format defines it\<close>

definition be_bytes32 :: "u32 \<Rightarrow> bytes" where
  "be_bytes32 v = rev (le_bytes 4 v)"

record dprop =
  pname :: bytes
  pnoff :: u32
  pval :: bytes

definition pad_to4 :: "nat \<Rightarrow> bytes" where
  "pad_to4 n = replicate ((4 - n mod 4) mod 4) 0"

definition prop_bytes :: "dprop \<Rightarrow> bytes" where
  "prop_bytes p = be_bytes32 3 @ be_bytes32 (of_nat (length (pval p))) @ be_bytes32 (pnoff p) @ pval p @ pad_to4 (length (pval p))"

text \<open>The beginning of a node: its name, its properties, and the token that ends them.\<close>

definition node_bytes :: "bytes \<Rightarrow> dprop list \<Rightarrow> u32 \<Rightarrow> bytes" where
  "node_bytes nm ps tok =
     be_bytes32 1 @ nm @ [0] @ pad_to4 (length nm + 1) @ concat (map prop_bytes ps) @ be_bytes32 tok"

lemma be_bytes32_unfold: "be_bytes32 v = [byte_of v 3, byte_of v 2, byte_of v 1, byte_of v 0]"
  by (simp add: be_bytes32_def le_bytes_def upt_rec numeral_eq_Suc)

lemma length_be_bytes32 [simp]: "length (be_bytes32 v) = 4"
  by (simp add: be_bytes32_def)

lemma be32_holds: "holds_at m a (be_bytes32 v) \<Longrightarrow> be32 m a = v"
  by (simp add: be32_def be_bytes32_unfold add.assoc)

lemma sint_of_nat31: "n < 2 ^ 31 \<Longrightarrow> sint (of_nat n :: u32) = int n"
proof -
  assume n: "n < 2 ^ 31"
  then have "uint (of_nat n :: u32) = int n" by (simp add: unsigned_of_nat take_bit_nat_eq_self_iff)
  then show ?thesis using n by (simp add: sint_uint signed_take_bit_int_eq_self)
qed

lemma scast_of_nat31: "n < 2 ^ 31 \<Longrightarrow> (scast (of_nat n :: u32) :: u64) = of_nat n"
  using sint_of_nat31 [of n] by (metis of_int_sint of_int_of_nat_eq)

lemma length_pad_to4: "length (pad_to4 n) = (4 - n mod 4) mod 4"
  by (simp add: pad_to4_def)

lemma align4_of_nat: "n < 2 ^ 31 \<Longrightarrow> align4 (of_nat n) = of_nat (n + length (pad_to4 n))"
proof -
  assume n: "n < 2 ^ 31"
  have "unat (align4 (of_nat n)) = unat (of_nat n + 3 :: u32) div 4 * 4"
    using unat_and_not_mask [of "of_nat n + 3 :: u32" 2] by (simp add: align4_def mask_eq_exp_minus_1)
  also have "unat (of_nat n + 3 :: u32) = n + 3"
    using n by (subst unat_add_no_wrap) (simp_all add: unat_of_nat_eq)
  also have "(n + 3) div 4 * 4 = n + length (pad_to4 n)"
  proof -
    obtain k r where r: "n = 4 * k + r" "r < 4" by (metis mod_less_divisor mult_div_mod_eq zero_less_numeral)
    then have "r = 0 \<or> r = 1 \<or> r = 2 \<or> r = 3" by linarith
    then show ?thesis unfolding length_pad_to4 r(1) by auto
  qed
  finally show ?thesis by (rule word_of_unat)
qed

lemma str_is_cstring: "0 \<notin> set s \<Longrightarrow> 0 \<notin> set t \<Longrightarrow> cstring_at m p s \<Longrightarrow> str_is m p t \<longleftrightarrow> s = t"
proof (induction t arbitrary: p s)
  case Nil
  then show ?case by (cases s) auto
next
  case (Cons c t)
  then show ?case by (cases s) auto
qed

text \<open>The model of a comparison with a literal agrees with \<open>strcmp\<close> on a copy of the literal in memory.\<close>

lemma str_is_strcmp:
  assumes "cstring_at m p s" "cstring_at m q t"
  shows "str_is m p t \<longleftrightarrow> strcmp m p q = Some 0"
  using assms strcmp_cstring [OF assms] list_cmp_eq_0_iff [of s t] str_is_cstring [of s t m p]
  by (auto simp: cstring_at_def)

section \<open>Finding a property\<close>

definition prop_ok :: "mem \<Rightarrow> fdt \<Rightarrow> dprop \<Rightarrow> bool" where
  "prop_ok m f p \<longleftrightarrow> cstring_at m (strings f + ucast (pnoff p)) (pname p)"

lemma length_prop_bytes: "length (prop_bytes p) = 12 + length (pval p) + length (pad_to4 (length (pval p)))"
  by (simp add: prop_bytes_def)

text \<open>What a lookup of \<open>name\<close> among the properties \<open>ps\<close> should give.\<close>

definition lookup_spec :: "mem \<Rightarrow> dprop list \<Rightarrow> bytes \<Rightarrow> (u64 \<times> u32) option \<Rightarrow> bool" where
  "lookup_spec m ps name r \<longleftrightarrow>
     (case (find (\<lambda>p. pname p = name) ps, r) of
        (None, None) \<Rightarrow> True
      | (Some p, Some (a, len)) \<Rightarrow> unat len = length (pval p) \<and> holds_at m a (pval p)
      | _ \<Rightarrow> False)"

lemma getprop_loop_spec:
  assumes "unat (strukt_size f) < 2 ^ 31" "\<And>p. p \<in> set ps \<Longrightarrow> prop_ok m f p" "0 \<notin> set name" "tok \<noteq> 3" "tok \<noteq> 4"
    "holds_at m (strukt f + of_nat q) (concat (map prop_bytes ps) @ be_bytes32 tok)"
    "q + length (concat (map prop_bytes ps)) + 4 \<le> unat (strukt_size f)" "length (concat (map prop_bytes ps)) < fuel"
  shows "\<exists>r. getprop_loop fuel m f (of_nat q) name = Some r \<and> lookup_spec m ps name r"
  using assms(2-8)
proof (induction ps arbitrary: q fuel)
  case Nil
  obtain k where k: "fuel = Suc k" using Nil.prems(7) by (cases fuel) auto
  have q: "q < 2 ^ 31" using Nil.prems(6) assms(1) by simp
  have "be32 m (strukt f + of_nat q) = tok" using Nil.prems(5) by (simp add: be32_holds)
  then have "getprop_loop fuel m f (of_nat q) name = Some None"
    using Nil.prems(3, 4) scast_of_nat31 [OF q] by (simp add: k Let_def)
  then show ?case by (simp add: lookup_spec_def)
next
  case (Cons p ps)
  obtain k where k: "fuel = Suc k" using Cons.prems(7) by (cases fuel) auto
  define a where "a = strukt f + of_nat q"
  define n where "n = length (pval p)"
  have size: "q + (12 + n + length (pad_to4 n)) + length (concat (map prop_bytes ps)) + 4 \<le> unat (strukt_size f)"
    using Cons.prems(6) by (simp add: n_def length_prop_bytes)
  then have q: "q < 2 ^ 31" "q + 4 < 2 ^ 31" "n < 2 ^ 31" using assms(1) by simp_all
  have qn: "(of_nat q :: u32) \<noteq> FDT_NONE"
    using q(1) by (simp add: FDT_NONE_def word_unat_eq_iff unat_of_nat_eq)
  have "sint (of_nat q + 4 :: u32) = int q + 4" using sint_of_nat31 [OF q(2)] by simp
  moreover have "sint (strukt_size f) = int (unat (strukt_size f))"
    using sint_of_nat31 [OF assms(1)] by (simp add: word_of_unat [OF refl, symmetric])
  ultimately have guard: "sint (of_nat q + 4 :: u32) \<le> sint (strukt_size f)" using size by linarith
  have h: "holds_at m a (be_bytes32 3)" "holds_at m (a + 4) (be_bytes32 (of_nat n))" "holds_at m (a + 8) (be_bytes32 (pnoff p))"
    "holds_at m (a + 12) (pval p)"
    and rest: "holds_at m (strukt f + of_nat (q + length (prop_bytes p))) (concat (map prop_bytes ps) @ be_bytes32 tok)"
    using Cons.prems(5) by (simp_all add: a_def n_def prop_bytes_def [of p] holds_at_append add.assoc)
  note rd = be32_holds [OF h(1)] be32_holds [OF h(2)] be32_holds [OF h(3)]
  have eq: "getprop_loop fuel m f (of_nat q) name =
     (if str_is m (strings f + ucast (pnoff p)) name then Some (Some (a + 12, of_nat n))
      else getprop_loop k m f (of_nat q + 12 + align4 (of_nat n)) name)"
    using qn guard rd scast_of_nat31 [OF q(1)] by (simp add: k Let_def a_def)
  have st: "str_is m (strings f + ucast (pnoff p)) name \<longleftrightarrow> pname p = name"
    using Cons.prems(1) [of p] Cons.prems(2) by (intro str_is_cstring) (auto simp: prop_ok_def cstring_at_def)
  show ?case
  proof (cases "pname p = name")
    case True
    then show ?thesis using eq st h(4) q(3) by (simp add: lookup_spec_def n_def unat_of_nat_eq)
  next
    case False
    have next': "of_nat q + 12 + align4 (of_nat n) = (of_nat (q + length (prop_bytes p)) :: u32)"
      using align4_of_nat [OF q(3)] by (simp add: length_prop_bytes n_def)
    have "\<exists>r. getprop_loop k m f (of_nat (q + length (prop_bytes p))) name = Some r \<and> lookup_spec m ps name r"
      using Cons.prems rest k by (intro Cons.IH) (auto simp: length_prop_bytes)
    then show ?thesis using eq st False next' by (auto simp: lookup_spec_def)
  qed
qed

text \<open>C32: on a node written as the format defines it, the lookup of a property returns, and it returns the value of the first
  property of the node with that name and its length, or the null pointer when the node has none; a child's property is never
  returned.\<close>

theorem fdt_getprop_finds:
  assumes "unat (strukt_size f) < 2 ^ 31" "holds_at m (strukt f + ucast off) (node_bytes nm ps tok)" "tok = 1 \<or> tok = 2"
    "unat off + length (node_bytes nm ps tok) \<le> unat (strukt_size f)" "0 \<notin> set nm" "0 \<notin> set name"
    "\<forall>p \<in> set ps. prop_ok m f p"
  shows "\<exists>r. fdt_getprop m f off name = Some r \<and> lookup_spec m ps name r"
proof -
  define a where "a = strukt f + ucast off"
  define n where "n = length nm + 1"
  let ?b = "concat (map prop_bytes ps)"
  have len: "unat off + 4 + n + length (pad_to4 n) + length ?b + 4 \<le> unat (strukt_size f)"
    using assms(4) by (simp add: node_bytes_def n_def)
  then have b: "unat off < 2 ^ 31" "n < 2 ^ 31" using assms(1) by simp_all
  have o: "off \<noteq> FDT_NONE" using b(1) by (auto simp: FDT_NONE_def)
  have h: "holds_at m a (be_bytes32 1)" "holds_at m (a + 4) (nm @ [0])"
    and rest: "holds_at m (a + of_nat (4 + n + length (pad_to4 n))) (?b @ be_bytes32 tok)"
    using assms(2) by (simp_all add: node_bytes_def a_def n_def holds_at_append add.assoc)
  have sl: "strlen m (a + 4) = Some (length nm)" using h(2) assms(5) by (simp add: strlen_cstring cstring_at_def)
  have "unat (off + 4) = unat off + 4" using b(1) by (subst unat_add_no_wrap) simp_all
  then have guard: "\<not> off + 4 > strukt_size f" using len by (simp add: word_less_nat_alt)
  have al: "align4 (of_nat (length nm) + 1) = of_nat (n + length (pad_to4 n))" using align4_of_nat [OF b(2)] by (simp add: n_def add.commute)
  define q where "q = unat off + (4 + n + length (pad_to4 n))"
  have st: "step m f off = Some (of_nat q, Some 1)"
    using guard be32_holds [OF h(1)] sl al by (simp add: step_def a_def q_def Let_def add.assoc)
  have "strukt f + of_nat q = a + of_nat (4 + n + length (pad_to4 n))"
    by (simp add: a_def q_def add.assoc)
  then have "\<exists>r. getprop_loop (block_fuel f) m f (of_nat q) name = Some r \<and> lookup_spec m ps name r"
    using assms rest len by (intro getprop_loop_spec [where tok = tok]) (auto simp: q_def block_fuel_def a_def add.assoc)
  then show ?thesis using o st by (simp add: fdt_getprop_def)
qed

text \<open>A tree of one node with one property, as a blob.\<close>

definition demo_fdt :: fdt where
  "demo_fdt = \<lparr>strukt = 0x1000, strukt_size = 256, strings = 0x2000, total = 4096, addr_cells = 2, size_cells = 1\<rparr>"

definition demo_prop :: dprop where
  "demo_prop = \<lparr>pname = lit_reg, pnoff = 0, pval = [0, 0, 0, 9]\<rparr>"

definition demo_blob :: mem where
  "demo_blob = (\<lambda>a. if a < 0x2000 then mem_of 0x1000 (node_bytes [110] [demo_prop] 2) a else mem_of 0x2000 (lit_reg @ [0]) a)"

theorem fdt_getprop_finds_witness:
  "\<exists>r. fdt_getprop demo_blob demo_fdt 0 lit_reg = Some r \<and> lookup_spec demo_blob [demo_prop] lit_reg r"
proof (rule fdt_getprop_finds [where nm = "[110]" and tok = 2])
  have l: "length (node_bytes [110] [demo_prop] 2) = 28"
    by (simp add: demo_prop_def node_bytes_def prop_bytes_def pad_to4_def)
  have "0x1000 + of_nat i < (0x2000 :: u64)" if "i < 28" for i
    using that by (simp add: word_less_nat_alt unat_add_no_wrap unat_of_nat_eq)
  then show "holds_at demo_blob (strukt demo_fdt + ucast (0 :: u32)) (node_bytes [110] [demo_prop] 2)"
    using holds_at_mem_of [of "node_bytes [110] [demo_prop] 2" "0x1000"] by (simp add: holds_at_def demo_blob_def demo_fdt_def l)
  show "\<forall>p \<in> set [demo_prop]. prop_ok demo_blob demo_fdt p"
    by (simp add: prop_ok_def demo_prop_def demo_fdt_def lit_reg_def demo_blob_def mem_of_def)
qed (simp_all add: demo_fdt_def node_bytes_def prop_bytes_def demo_prop_def pad_to4_def lit_reg_def)

end
