(* ===== verification/Sched.thy ===== *)
theory Sched
  imports Pmm
begin

text \<open>
  Threads and the scheduler (\<open>stam/sched.c\<close>), for several processors.

  The thread table is a list of records and a pointer into it is an index; the per-processor record of
  \<open>smp.h\<close> is \<open>cpu\<close>, and the processor that runs an operation is its argument \<open>me\<close>. Every function of \<open>sched.c\<close> that
  changes the state of a thread in use does so under \<open>sched_lock\<close>, so one locked section is one step; a thread that gives up the processor
  stops inside \<open>schedule_locked\<close>, whose model ends at the context switch. \<open>thread_create\<close> and \<open>thread_fork\<close> do not take the lock,
  and their parts are steps of their own. The stack pointer the switch saves is an argument. The kernel stacks are memory of the
  page allocator.

  \<open>thread_fork\<close> and \<open>thread_exit\<close> also touch open files and are in \<open>Process\<close>; what they do to the table are runs of the steps here. Process ids
  and their counter are unbounded integers where the code has \<open>int\<close>, whose overflow C leaves undefined: what is said
  of ids is said of runs in which the counter stays within 31 bits.

  The lemmas show that no thread is ever run by two processors and that process ids are never reused, over runs in which a zombie is
  collected after its processor has left it and creations do not fill the same slot (both are up to luck in the code: the
  end of the theory has a run on which the first fails); that a wakeup and a deadline reach every thread they are meant for; and that a
  finished child is collected once, with its status.
\<close>

section \<open>State\<close>

datatype tstate = Runnable | Zombie | Blocked | Free | Running

datatype wait_reason = NoReason | WaitChild | WaitConsole | WaitPipe

text \<open>What a thread can be asleep on: a pipe by its index, or the tokens of the two devices.\<close>

datatype wait_object = NoObject | PipeObject nat | BlkToken | NetToken

record sigact =
  handler :: u64
  restorer :: u64
  sa_mask :: u64

text \<open>The capability manifest of \<open>savnote.h\<close>.\<close>

record sav_manifest =
  sav_present :: bool
  sav_calls :: "u32 list"
  sav_caps :: bytes

record thread =
  sp :: u64
  stack_low :: u64
  id_of :: int
  tstate :: tstate
  tname :: bytes
  slices :: u64
  space :: u64
  user_table :: u64
  parent :: int
  status :: int
  wait_reason :: wait_reason
  last_cpu :: int
  ran_on :: u32
  home :: int
  pgid :: int
  pending :: u32
  wait_object :: wait_object
  wake_at :: u64
  blocked :: u64
  sigacts :: "sigact list"
  fds :: "nat option list"
  sav :: sav_manifest

record cpu =
  cur :: "nat option"
  idle :: "nat option"
  user_table_kva :: u64
  ttbr0 :: u64

record sched =
  threads :: "thread list"
  n_threads :: nat
  next_id :: int
  cpus :: "nat \<Rightarrow> cpu"
  switches :: u64
  started :: bool
  pages :: pmm

definition MAX_THREADS :: nat where "MAX_THREADS = 24"
definition NSIG :: nat where "NSIG = 32"
definition NFD :: nat where "NFD = 8"
definition STACK_PAGES :: u32 where "STACK_PAGES = 4"
definition STACK_CANARY :: u64 where "STACK_CANARY = 0x5354414d4b475244"

definition on_thread :: "nat \<Rightarrow> (thread \<Rightarrow> thread) \<Rightarrow> sched \<Rightarrow> sched" where
  "on_thread i f s = s\<lparr>threads := (threads s)[i := f (threads s ! i)]\<rparr>"

definition on_cpu :: "nat \<Rightarrow> (cpu \<Rightarrow> cpu) \<Rightarrow> sched \<Rightarrow> sched" where
  "on_cpu me f s = s\<lparr>cpus := (cpus s)(me := f (cpus s me))\<rparr>"

text \<open>A loop over the slots in use that changes each thread on its own.\<close>

definition each_thread :: "(thread \<Rightarrow> thread) \<Rightarrow> sched \<Rightarrow> sched" where
  "each_thread f s = s\<lparr>threads := map f (take (n_threads s) (threads s)) @ drop (n_threads s) (threads s)\<rparr>"

definition current :: "nat \<Rightarrow> sched \<Rightarrow> thread option" where
  "current me s = map_option (\<lambda>i. threads s ! i) (cur (cpus s me))"

definition thread_at :: "int \<Rightarrow> sched \<Rightarrow> nat option" where
  "thread_at i s = (if i \<ge> 0 \<and> i < int (n_threads s) then Some (nat i) else None)"

section \<open>Slots\<close>

definition alloc_slot :: "sched \<Rightarrow> nat option \<times> sched" where
  "alloc_slot s =
     (case filter (\<lambda>i. tstate (threads s ! i) = Free) [0..<n_threads s] of
        i # _ \<Rightarrow> (Some i, s)
      | [] \<Rightarrow>
          if n_threads s < MAX_THREADS then
            (Some (n_threads s), (on_thread (n_threads s) (\<lambda>t. t\<lparr>tstate := Free\<rparr>) s)\<lparr>n_threads := Suc (n_threads s)\<rparr>)
          else (None, s))"

definition no_sigact :: sigact where
  "no_sigact = \<lparr>handler = 0, restorer = 0, sa_mask = 0\<rparr>"

definition slot_init :: "nat \<Rightarrow> nat \<Rightarrow> bytes \<Rightarrow> u64 \<Rightarrow> sched \<Rightarrow> sched" where
  "slot_init me i name spc s =
     (on_thread i (\<lambda>t. t\<lparr>id_of := next_id s, tname := name, slices := 0, space := spc,
        parent := (case current me s of Some c \<Rightarrow> id_of c | None \<Rightarrow> -1), status := 0, wait_reason := NoReason,
        wait_object := NoObject, wake_at := 0,
        pgid := (case current me s of Some c \<Rightarrow> pgid c | None \<Rightarrow> 0), pending := 0, blocked := 0, home := -1,
        user_table := 0, last_cpu := -1, ran_on := 0, sigacts := replicate NSIG no_sigact, stack_low := 0, sp := 0,
        fds := replicate NFD None\<rparr>) s)\<lparr>next_id := next_id s + 1\<rparr>"

text \<open>The twelve words that \<open>cpu_switch\<close> pops, with the words at \<open>fs\<close> set.\<close>

definition switch_frame :: "u64 \<Rightarrow> (nat \<times> u64) list \<Rightarrow> wmem \<Rightarrow> wmem" where
  "switch_frame a fs m = fold (\<lambda>(i, v) m. m(a + 8 * of_nat i := v)) fs (zero_words m a 12)"

definition thread_create :: "nat \<Rightarrow> bytes \<Rightarrow> u64 \<Rightarrow> u64 \<Rightarrow> u64 \<Rightarrow> sched \<Rightarrow> nat option \<times> sched" where
  "thread_create me name fn arg entry_point s =
     (case alloc_slot s of
        (None, s1) \<Rightarrow> (None, s1)
      | (Some i, s1) \<Rightarrow>
          let (stack, p) = alloc_pages (pages s1) STACK_PAGES
          in if stack = 0 then (None, on_thread i (\<lambda>t. t\<lparr>tstate := Free\<rparr>) (s1\<lparr>pages := p\<rparr>))
             else let s2 = slot_init me i name 0 (s1\<lparr>pages := p\<rparr>);
                      frame = stack + ucast STACK_PAGES * PAGE_SIZE - 96;
                      s3 = s2\<lparr>pages := p\<lparr>pm := switch_frame frame [(0, fn), (1, arg), (11, entry_point)]
                                              ((pm p)(stack := STACK_CANARY))\<rparr>\<rparr>
                  in (Some i, on_thread i (\<lambda>t. t\<lparr>stack_low := stack, sp := frame, tstate := Runnable\<rparr>) s3))"

definition sched_init :: "nat \<Rightarrow> bytes \<Rightarrow> sched \<Rightarrow> sched" where
  "sched_init me name s =
     (case alloc_slot s of
        (None, s1) \<Rightarrow> s1
      | (Some i, s1) \<Rightarrow>
          (on_cpu me (\<lambda>c. c\<lparr>cur := Some i\<rparr>)
            (on_thread i (\<lambda>t. t\<lparr>parent := -1, tstate := Running\<rparr>) (slot_init me i name 0 s1)))\<lparr>started := True\<rparr>)"

definition sched_cpu_init :: "nat \<Rightarrow> bytes \<Rightarrow> sched \<Rightarrow> sched" where
  "sched_cpu_init me name s =
     (case alloc_slot s of
        (None, s1) \<Rightarrow> s1
      | (Some i, s1) \<Rightarrow>
          on_cpu me (\<lambda>c. c\<lparr>cur := Some i, idle := Some i\<rparr>)
            (on_thread i (\<lambda>t. t\<lparr>parent := -1, home := int me, tstate := Running\<rparr>) (slot_init me i name 0 s1)))"

definition sched_cpu_idle :: "nat \<Rightarrow> bytes \<Rightarrow> u64 \<Rightarrow> u64 \<Rightarrow> sched \<Rightarrow> sched" where
  "sched_cpu_idle me name idle_entry entry_point s =
     (case thread_create me name idle_entry 0 entry_point s of
        (None, s1) \<Rightarrow> s1
      | (Some i, s1) \<Rightarrow> on_cpu me (\<lambda>c. c\<lparr>idle := Some i\<rparr>) (on_thread i (\<lambda>t. t\<lparr>home := int me\<rparr>) s1))"

section \<open>Choosing who runs\<close>

text \<open>The slots in the order of the round robin, the one after the running thread first.\<close>

definition round_robin :: "nat \<Rightarrow> nat \<Rightarrow> nat list" where
  "round_robin start n = map (\<lambda>i. (start + i) mod n) [1..<Suc n]"

definition may_run :: "nat \<Rightarrow> thread \<Rightarrow> bool" where
  "may_run me t \<longleftrightarrow> tstate t = Runnable \<and> \<not> (home t \<ge> 0 \<and> home t \<noteq> int me)"

definition next_runnable :: "nat \<Rightarrow> nat option \<Rightarrow> sched \<Rightarrow> nat option" where
  "next_runnable me after s =
     List.find (\<lambda>i. may_run me (threads s ! i)) (round_robin (case after of Some i \<Rightarrow> i | None \<Rightarrow> 0) (n_threads s))"

definition wake_expired :: "u64 \<Rightarrow> thread \<Rightarrow> thread" where
  "wake_expired now t =
     (if tstate t = Blocked \<and> wake_at t \<noteq> 0 \<and> now \<ge> wake_at t then t\<lparr>wake_at := 0, tstate := Runnable\<rparr> else t)"

definition mmu_switch_user :: "nat \<Rightarrow> u64 \<Rightarrow> sched \<Rightarrow> sched" where
  "mmu_switch_user me l1_kva s = on_cpu me (\<lambda>c. c\<lparr>user_table_kva := l1_kva, ttbr0 := kva_to_phys (pages s) l1_kva\<rparr>) s"

text \<open>The switch from the thread \<open>prev\<close> to \<open>nxt\<close>, up to the moment \<open>nxt\<close> runs.\<close>

definition check_canary :: "nat \<Rightarrow> sched \<Rightarrow> sched" where
  "check_canary prev s =
     (let a = stack_low (threads s ! prev)
      in if a \<noteq> 0 \<and> pm (pages s) a \<noteq> STACK_CANARY
         then s\<lparr>pages := (pages s)\<lparr>pm := (pm (pages s))(a := STACK_CANARY)\<rparr>\<rparr> else s)"

definition switch_to :: "nat \<Rightarrow> u64 \<Rightarrow> nat \<Rightarrow> nat \<Rightarrow> sched \<Rightarrow> sched" where
  "switch_to me sp_now prev nxt s =
     (let s1 = check_canary prev (s\<lparr>switches := switches s + 1\<rparr>);
          s2 = on_thread prev (\<lambda>t. t\<lparr>user_table := user_table_kva (cpus s1 me),
                                    tstate := (if tstate t = Running then Runnable else tstate t)\<rparr>) s1;
          s3 = on_cpu me (\<lambda>c. c\<lparr>user_table_kva := user_table (threads s2 ! nxt), cur := Some nxt\<rparr>) s2;
          s4 = on_thread nxt (\<lambda>t. t\<lparr>tstate := Running, last_cpu := int me,
                                   ran_on := ran_on t OR push_bit (me mod 32) 1, slices := slices t + 1\<rparr>) s3;
          spn = space (threads s4 ! nxt);
          s5 = (if spn \<noteq> 0 \<and> spn \<noteq> space (threads s4 ! prev) then mmu_switch_user me spn s4 else s4)
      in on_thread prev (\<lambda>t. t\<lparr>sp := sp_now\<rparr>) s5)"

definition schedule_locked :: "nat \<Rightarrow> u64 \<Rightarrow> u64 \<Rightarrow> sched \<Rightarrow> sched" where
  "schedule_locked me now sp_now s =
     (let s1 = each_thread (wake_expired now) s
      in case cur (cpus s1 me) of
           None \<Rightarrow> s1
         | Some prev \<Rightarrow>
             let choice = (case next_runnable me (Some prev) s1 of
                             Some n \<Rightarrow> Some n
                           | None \<Rightarrow> if tstate (threads s1 ! prev) = Running then None else idle (cpus s1 me))
             in case choice of
                  None \<Rightarrow> s1
                | Some nxt \<Rightarrow> if nxt = prev then s1 else switch_to me sp_now prev nxt s1)"

definition schedule :: "nat \<Rightarrow> u64 \<Rightarrow> u64 \<Rightarrow> sched \<Rightarrow> sched" where
  "schedule me now sp_now s = (if started s then schedule_locked me now sp_now s else s)"

section \<open>Sleeping and waking\<close>

text \<open>The three ways to fall asleep differ in what they record; all refuse a thread that is not running.\<close>

definition block_with :: "(thread \<Rightarrow> thread) \<Rightarrow> nat \<Rightarrow> u64 \<Rightarrow> u64 \<Rightarrow> sched \<Rightarrow> sched" where
  "block_with f me now sp_now s =
     (case cur (cpus s me) of
        None \<Rightarrow> s
      | Some c \<Rightarrow>
          if tstate (threads s ! c) \<noteq> Running then s
          else schedule_locked me now sp_now (on_thread c (\<lambda>t. (f t)\<lparr>tstate := Blocked\<rparr>) s))"

definition thread_block_on_console :: "nat \<Rightarrow> u64 \<Rightarrow> u64 \<Rightarrow> sched \<Rightarrow> sched" where
  "thread_block_on_console = block_with (\<lambda>t. t\<lparr>wait_reason := WaitConsole\<rparr>)"

definition thread_block_on_pipe :: "wait_object \<Rightarrow> nat \<Rightarrow> u64 \<Rightarrow> u64 \<Rightarrow> sched \<Rightarrow> sched" where
  "thread_block_on_pipe ob = block_with (\<lambda>t. t\<lparr>wait_reason := WaitPipe, wait_object := ob, wake_at := 0\<rparr>)"

text \<open>The clock is read twice, once for the deadline and once by the scheduler.\<close>

definition thread_block_on_pipe_until :: "wait_object \<Rightarrow> u64 \<Rightarrow> u64 \<Rightarrow> nat \<Rightarrow> u64 \<Rightarrow> u64 \<Rightarrow> sched \<Rightarrow> sched" where
  "thread_block_on_pipe_until ob ticks then' =
     block_with (\<lambda>t. t\<lparr>wait_reason := WaitPipe, wait_object := ob, wake_at := then' + (if ticks \<noteq> 0 then ticks else 1)\<rparr>)"

definition thread_wake_pipe :: "wait_object \<Rightarrow> sched \<Rightarrow> sched" where
  "thread_wake_pipe ob =
     each_thread (\<lambda>t. if tstate t = Blocked \<and> wait_reason t = WaitPipe \<and> wait_object t = ob
                      then t\<lparr>wake_at := 0, tstate := Runnable\<rparr> else t)"

definition thread_wake_console :: "sched \<Rightarrow> sched" where
  "thread_wake_console =
     each_thread (\<lambda>t. if tstate t = Blocked \<and> wait_reason t = WaitConsole then t\<lparr>tstate := Runnable\<rparr> else t)"

definition sig_target :: "int \<Rightarrow> thread \<Rightarrow> bool" where
  "sig_target pid t \<longleftrightarrow>
     tstate t \<noteq> Free \<and> tstate t \<noteq> Zombie \<and> (if pid < 0 then pgid t = - pid else id_of t = pid)"

definition thread_signal :: "int \<Rightarrow> nat \<Rightarrow> sched \<Rightarrow> nat \<times> sched" where
  "thread_signal pid sig s =
     (length (filter (sig_target pid) (take (n_threads s) (threads s))),
      each_thread (\<lambda>t. if sig_target pid t
                       then t\<lparr>pending := pending t OR push_bit sig 1, tstate := (if tstate t = Blocked then Runnable else tstate t)\<rparr>
                       else t) s)"

definition SIGINT :: nat where "SIGINT = 2"
definition SIGKILL :: nat where "SIGKILL = 9"

text \<open>The lowest signal the thread has to act on, 0 for none.\<close>

definition deliverable :: "thread \<Rightarrow> u64" where
  "deliverable t = ucast (pending t) AND NOT (blocked t AND NOT (push_bit SIGKILL 1))"

definition thread_signalled :: "thread \<Rightarrow> nat" where
  "thread_signalled t =
     (case List.find (\<lambda>s. bit (deliverable t) s) [1..<NSIG] of Some s \<Rightarrow> s | None \<Rightarrow> 0)"

definition slot_of_pid :: "nat \<Rightarrow> int \<Rightarrow> sched \<Rightarrow> nat option" where
  "slot_of_pid me pid s =
     List.find (\<lambda>i. tstate (threads s ! i) \<noteq> Free \<and>
                    id_of (threads s ! i) = (if pid \<noteq> 0 then pid else (case current me s of Some c \<Rightarrow> id_of c | None \<Rightarrow> 0)))
       [0..<n_threads s]"

definition thread_setpgid :: "nat \<Rightarrow> int \<Rightarrow> int \<Rightarrow> sched \<Rightarrow> int \<times> sched" where
  "thread_setpgid me pid pg s =
     (case slot_of_pid me pid s of
        None \<Rightarrow> (-1, s)
      | Some i \<Rightarrow>
          let g = (if pg \<noteq> 0 then pg else id_of (threads s ! i)) in (g, on_thread i (\<lambda>t. t\<lparr>pgid := g\<rparr>) s))"

definition thread_pgid_of :: "nat \<Rightarrow> int \<Rightarrow> sched \<Rightarrow> int" where
  "thread_pgid_of me pid s = (case slot_of_pid me pid s of None \<Rightarrow> -1 | Some i \<Rightarrow> pgid (threads s ! i))"

section \<open>Collecting children\<close>

definition release_slot :: "nat \<Rightarrow> sched \<Rightarrow> sched" where
  "release_slot i s =
     (let low = stack_low (threads s ! i);
          s1 = (if low \<noteq> 0
                then s\<lparr>pages := fold (\<lambda>p g. free_page g (low + of_nat p * PAGE_SIZE)) [0..<unat STACK_PAGES] (pages s)\<rparr>
                else s)
      in on_thread i (\<lambda>t. t\<lparr>stack_low := 0, parent := -1, id_of := -1, space := 0, status := 0, wait_reason := NoReason,
                           wait_object := NoObject, tname := [102, 114, 101, 101], sp := 0, tstate := Free\<rparr>) s1)"

text \<open>The scan: the first zombie child, and whether there is any child at all.\<close>

definition zombie_child :: "int \<Rightarrow> sched \<Rightarrow> nat option" where
  "zombie_child me_id s =
     List.find (\<lambda>i. parent (threads s ! i) = me_id \<and> tstate (threads s ! i) = Zombie) [0..<n_threads s]"

definition have_children :: "int \<Rightarrow> sched \<Rightarrow> bool" where
  "have_children me_id s \<longleftrightarrow>
     list_ex (\<lambda>i. parent (threads s ! i) = me_id \<and> tstate (threads s ! i) \<noteq> Free) [0..<n_threads s]"

definition thread_reap :: "nat \<Rightarrow> sched \<Rightarrow> (int \<times> int option) \<times> sched" where
  "thread_reap me s =
     (case current me s of
        None \<Rightarrow> ((-1, None), s)
      | Some c \<Rightarrow>
          (case zombie_child (id_of c) s of
             Some i \<Rightarrow> ((id_of (threads s ! i), Some (status (threads s ! i))), release_slot i s)
           | None \<Rightarrow> ((if have_children (id_of c) s then 0 else -1, None), s)))"

text \<open>One turn of the loop of \<open>thread_wait\<close>: it returns, or the thread has gone to sleep and the loop comes back.\<close>

definition thread_wait_turn :: "nat \<Rightarrow> u64 \<Rightarrow> u64 \<Rightarrow> sched \<Rightarrow> (int \<times> int option) option \<times> sched" where
  "thread_wait_turn me now sp_now s =
     (case cur (cpus s me) of
        None \<Rightarrow> (Some (-1, None), s)
      | Some c \<Rightarrow>
          (case zombie_child (id_of (threads s ! c)) s of
             Some i \<Rightarrow> (Some (id_of (threads s ! i), Some (status (threads s ! i))), release_slot i s)
           | None \<Rightarrow>
               if \<not> have_children (id_of (threads s ! c)) s then (Some (-1, None), s)
               else (None, schedule_locked me now sp_now (on_thread c (\<lambda>t. t\<lparr>wait_reason := WaitChild, tstate := Blocked\<rparr>) s))))"

definition threads_alive :: "sched \<Rightarrow> nat" where
  "threads_alive s =
     length (filter (\<lambda>t. tstate t = Runnable \<or> tstate t = Blocked) (take (n_threads s) (threads s)))"

text \<open>The two halves of \<open>thread_exit\<close> that change the table: becoming a zombie, and waking the parent.\<close>

definition become_zombie :: "nat \<Rightarrow> int \<Rightarrow> sched \<Rightarrow> sched" where
  "become_zombie me st s =
     (case cur (cpus s me) of
        None \<Rightarrow> s
      | Some c \<Rightarrow> on_thread c (\<lambda>t. t\<lparr>tstate := Zombie, status := st, space := 0\<rparr>) s)"

definition wake_parent :: "nat \<Rightarrow> sched \<Rightarrow> sched" where
  "wake_parent me s =
     (case current me s of
        None \<Rightarrow> s
      | Some c \<Rightarrow>
          each_thread (\<lambda>t. if id_of t = parent c \<and> tstate t = Blocked \<and> wait_reason t = WaitChild
                           then t\<lparr>tstate := Runnable\<rparr> else t) s)"

section \<open>Reading the table\<close>

abbreviation thr :: "sched \<Rightarrow> nat \<Rightarrow> thread" where "thr s i \<equiv> threads s ! i"
abbreviation st :: "sched \<Rightarrow> nat \<Rightarrow> tstate" where "st s i \<equiv> tstate (threads s ! i)"
abbreviation curof :: "sched \<Rightarrow> nat \<Rightarrow> nat option" where "curof s m \<equiv> cur (cpus s m)"
abbreviation idleof :: "sched \<Rightarrow> nat \<Rightarrow> nat option" where "idleof s m \<equiv> idle (cpus s m)"

lemma on_thread_simps [simp]:
  "n_threads (on_thread i f s) = n_threads s" "cpus (on_thread i f s) = cpus s" "next_id (on_thread i f s) = next_id s"
  "length (threads (on_thread i f s)) = length (threads s)" "pages (on_thread i f s) = pages s" "started (on_thread i f s) = started s"
  "switches (on_thread i f s) = switches s"
  by (simp_all add: on_thread_def)

lemma thr_on_thread: "i < length (threads s) \<Longrightarrow> thr (on_thread i f s) j = (if j = i then f (thr s i) else thr s j)"
  by (simp add: on_thread_def nth_list_update)

lemma on_cpu_simps [simp]:
  "n_threads (on_cpu m f s) = n_threads s" "threads (on_cpu m f s) = threads s" "next_id (on_cpu m f s) = next_id s"
  "pages (on_cpu m f s) = pages s" "started (on_cpu m f s) = started s"
  by (simp_all add: on_cpu_def)

lemma cpus_on_cpu: "cpus (on_cpu m f s) k = (if k = m then f (cpus s m) else cpus s k)"
  by (simp add: on_cpu_def)

lemma each_thread_simps [simp]:
  "n_threads (each_thread f s) = n_threads s" "cpus (each_thread f s) = cpus s" "next_id (each_thread f s) = next_id s"
  "length (threads (each_thread f s)) = length (threads s)" "pages (each_thread f s) = pages s" "started (each_thread f s) = started s"
  by (simp_all add: each_thread_def)

lemma thr_each_thread:
  "n_threads s \<le> length (threads s) \<Longrightarrow> i < n_threads s \<Longrightarrow> thr (each_thread f s) i = f (thr s i)"
  by (simp add: each_thread_def nth_append)

section \<open>The invariant\<close>

text \<open>
  \<open>sched_inv0 L s\<close>: the processors in \<open>L\<close> are inside a locked section and their current thread may have any state but free;
  elsewhere a processor is on a running thread or on one that is exiting. \<open>sched_inv\<close> is the state between sections.
\<close>

definition sched_inv0 :: "nat set \<Rightarrow> sched \<Rightarrow> bool" where
  "sched_inv0 L s \<longleftrightarrow>
     length (threads s) = MAX_THREADS \<and> n_threads s \<le> MAX_THREADS \<and>
     (\<forall>m c. curof s m = Some c \<longrightarrow>
        c < n_threads s \<and> st s c \<noteq> Free \<and> (m \<in> L \<or> st s c = Running \<or> st s c = Zombie) \<and> (home (thr s c) < 0 \<or> home (thr s c) = int m)) \<and>
     (\<forall>m m' c. curof s m = Some c \<and> curof s m' = Some c \<longrightarrow> m = m') \<and>
     (\<forall>i < n_threads s. st s i = Running \<longrightarrow> (\<exists>m. curof s m = Some i)) \<and>
     (\<forall>m c. curof s m = Some c \<longrightarrow>
        (\<exists>j < n_threads s. idleof s m = Some j \<and> home (thr s j) = int m \<and> st s j = (if c = j then Running else Runnable))) \<and>
     (\<forall>i < n_threads s. st s i \<noteq> Free \<and> home (thr s i) \<ge> 0 \<longrightarrow>
        idleof s (nat (home (thr s i))) = Some i \<and> curof s (nat (home (thr s i))) \<noteq> None)"

definition sched_inv :: "sched \<Rightarrow> bool" where
  "sched_inv s \<longleftrightarrow> sched_inv0 {} s"

lemma sched_inv0_mono: "sched_inv0 L s \<Longrightarrow> L \<subseteq> M \<Longrightarrow> sched_inv0 M s"
  unfolding sched_inv0_def by blast

lemma sched_inv0D:
  assumes "sched_inv0 L s"
  shows "length (threads s) = MAX_THREADS" "n_threads s \<le> MAX_THREADS" "n_threads s \<le> length (threads s)"
    "curof s m = Some c \<Longrightarrow> c < n_threads s" "curof s m = Some c \<Longrightarrow> st s c \<noteq> Free"
    "curof s m = Some c \<Longrightarrow> m \<notin> L \<Longrightarrow> st s c = Running \<or> st s c = Zombie"
    "curof s m = Some c \<Longrightarrow> home (thr s c) < 0 \<or> home (thr s c) = int m"
    "curof s m = Some c \<Longrightarrow> curof s m' = Some c \<Longrightarrow> m = m'"
    "i < n_threads s \<Longrightarrow> st s i = Running \<Longrightarrow> \<exists>m. curof s m = Some i"
    "i < n_threads s \<Longrightarrow> st s i \<noteq> Free \<Longrightarrow> home (thr s i) \<ge> 0 \<Longrightarrow>
       idleof s (nat (home (thr s i))) = Some i \<and> curof s (nat (home (thr s i))) \<noteq> None"
  using assms unfolding sched_inv0_def by (auto; blast)+

lemma sched_inv0_idle:
  assumes "sched_inv0 L s" "curof s m = Some c"
  obtains j where "j < n_threads s" "idleof s m = Some j" "home (thr s j) = int m" "st s j = (if c = j then Running else Runnable)"
  using assms unfolding sched_inv0_def by blast

lemma sched_inv0_tighten:
  assumes "sched_inv0 L s" "\<And>m c. curof s m = Some c \<Longrightarrow> m \<in> M \<or> st s c = Running \<or> st s c = Zombie"
  shows "sched_inv0 M s"
proof -
  have "\<forall>m c. curof s m = Some c \<longrightarrow>
      c < n_threads s \<and> st s c \<noteq> Free \<and> (m \<in> M \<or> st s c = Running \<or> st s c = Zombie) \<and> (home (thr s c) < 0 \<or> home (thr s c) = int m)"
    using assms(2) sched_inv0D [OF assms(1)] by blast
  then show ?thesis using assms(1) unfolding sched_inv0_def by (elim conjE, intro conjI)
qed

text \<open>An operation that leaves processors and homes alone and only ever makes sleeping threads runnable.\<close>

lemma wakeup_inv:
  assumes inv: "sched_inv0 L s" and n: "n_threads s' = n_threads s" and c: "cpus s' = cpus s"
    and l: "length (threads s') = length (threads s)"
    and h: "\<And>i. i < n_threads s \<Longrightarrow> home (thr s' i) = home (thr s i)"
    and t: "\<And>i. i < n_threads s \<Longrightarrow> st s' i = st s i \<or> (st s i = Blocked \<and> st s' i = Runnable)"
  shows "sched_inv0 L s'"
  unfolding sched_inv0_def n c
proof (intro conjI allI impI)
  show "length (threads s') = MAX_THREADS" using l sched_inv0D(1) [OF inv] by simp
  show "n_threads s \<le> MAX_THREADS" by (rule sched_inv0D(2) [OF inv])
next
  fix m c
  assume cc: "curof s m = Some c"
  have i: "c < n_threads s" by (rule sched_inv0D(4) [OF inv cc])
  show "c < n_threads s" by (rule i)
  show "st s' c \<noteq> Free" using t [OF i] sched_inv0D(5) [OF inv cc] by auto
  show "m \<in> L \<or> st s' c = Running \<or> st s' c = Zombie" using t [OF i] sched_inv0D(6) [OF inv cc] by auto
  show "home (thr s' c) < 0 \<or> home (thr s' c) = int m" using h [OF i] sched_inv0D(7) [OF inv cc] by simp
next
  fix m m' c
  assume "curof s m = Some c \<and> curof s m' = Some c"
  then show "m = m'" using sched_inv0D(8) [OF inv] by blast
next
  fix i
  assume i: "i < n_threads s" "st s' i = Running"
  then have "st s i = Running" using t [OF i(1)] by auto
  then show "\<exists>m. curof s m = Some i" using sched_inv0D(9) [OF inv i(1)] by blast
next
  fix m c
  assume cc: "curof s m = Some c"
  obtain j where j: "j < n_threads s" "idleof s m = Some j" "home (thr s j) = int m" "st s j = (if c = j then Running else Runnable)"
    by (rule sched_inv0_idle [OF inv cc])
  then have "st s' j = (if c = j then Running else Runnable)" using t [OF j(1)] by (auto split: if_splits)
  then show "\<exists>j<n_threads s. idleof s m = Some j \<and> home (thr s' j) = int m \<and> st s' j = (if c = j then Running else Runnable)"
    using j h [OF j(1)] by auto
next
  fix i
  assume i: "i < n_threads s" "st s' i \<noteq> Free \<and> 0 \<le> home (thr s' i)"
  then have "st s i \<noteq> Free" "0 \<le> home (thr s i)" using t [OF i(1)] h [OF i(1)] by auto
  then show "idleof s (nat (home (thr s' i))) = Some i" "curof s (nat (home (thr s' i))) \<noteq> None"
    using sched_inv0D(10) [OF inv i(1)] h [OF i(1)] by simp_all
qed

lemma each_thread_inv:
  assumes "sched_inv0 L s" "\<And>t. home (f t) = home t" "\<And>t. tstate (f t) = tstate t \<or> (tstate t = Blocked \<and> tstate (f t) = Runnable)"
  shows "sched_inv0 L (each_thread f s)"
  by (rule wakeup_inv [OF assms(1)]) (simp_all add: thr_each_thread sched_inv0D(3) [OF assms(1)] assms(2, 3))

section \<open>Switching\<close>

lemma round_robin_last: "start < n \<Longrightarrow> round_robin start n = map (\<lambda>i. (start + i) mod n) [1..<n] @ [start]"
  by (simp add: round_robin_def)

lemma round_robin_covers: "start < n \<Longrightarrow> j < n \<Longrightarrow> j \<noteq> start \<Longrightarrow> j \<in> (\<lambda>i. (start + i) mod n) ` set [1..<n]"
proof -
  assume a: "start < n" "j < n" "j \<noteq> start"
  define i where "i = (if start < j then j - start else n - start + j)"
  have "1 \<le> i" "i < n" "(start + i) mod n = j" using a by (auto simp: i_def)
  then show ?thesis by force
qed

lemma find_app: "List.find P (xs @ ys) = (case List.find P xs of Some x \<Rightarrow> Some x | None \<Rightarrow> List.find P ys)"
  by (induction xs) auto

lemma next_runnable_spec:
  assumes "prev < n_threads s" "j < n_threads s" "j \<noteq> prev" "may_run me (thr s j)"
  shows "\<exists>nxt. next_runnable me (Some prev) s = Some nxt \<and> nxt \<noteq> prev \<and> nxt < n_threads s \<and> may_run me (thr s nxt)"
proof -
  let ?xs = "map (\<lambda>i. (prev + i) mod n_threads s) [1..<n_threads s]"
  have "\<exists>x \<in> set ?xs. may_run me (thr s x)" using round_robin_covers [OF assms(1, 2, 3)] assms(4) by force
  then obtain x where x: "List.find (\<lambda>i. may_run me (thr s i)) ?xs = Some x"
    by (metis (mono_tags, lifting) find_None_iff not_None_eq)
  then have p: "may_run me (thr s x)" "x \<in> set ?xs" unfolding find_Some_iff by (metis nth_mem)+
  have "x \<noteq> prev"
  proof
    assume "x = prev"
    then obtain i where i: "1 \<le> i" "i < n_threads s" "(prev + i) mod n_threads s = prev" using p(2) by auto
    show False
    proof (cases "prev + i < n_threads s")
      case True
      then show False using i by simp
    next
      case False
      then have "(prev + i) mod n_threads s = prev + i - n_threads s" using assms(1) i by (simp add: le_mod_geq)
      then show False using i False by simp
    qed
  qed
  moreover have "x < n_threads s" using p(2) assms(1) by auto
  moreover have "next_runnable me (Some prev) s = Some x"
    using x by (simp add: next_runnable_def round_robin_last [OF assms(1)] find_app)
  ultimately show ?thesis using p(1) by blast
qed

lemma check_canary_simps [simp]:
  "threads (check_canary p s) = threads s" "n_threads (check_canary p s) = n_threads s" "cpus (check_canary p s) = cpus s"
  "next_id (check_canary p s) = next_id s" "started (check_canary p s) = started s"
  by (simp_all add: check_canary_def Let_def)

lemma mmu_switch_user_simps [simp]:
  "threads (mmu_switch_user m a s) = threads s" "n_threads (mmu_switch_user m a s) = n_threads s"
  "next_id (mmu_switch_user m a s) = next_id s" "started (mmu_switch_user m a s) = started s"
  "curof (mmu_switch_user m a s) k = curof s k" "idleof (mmu_switch_user m a s) k = idleof s k"
  by (simp_all add: mmu_switch_user_def cpus_on_cpu)

lemma switch_to_facts:
  assumes "prev < length (threads s)" "nxt < length (threads s)" "nxt \<noteq> prev"
  shows "length (threads (switch_to me w prev nxt s)) = length (threads s)"
    and "n_threads (switch_to me w prev nxt s) = n_threads s"
    and "next_id (switch_to me w prev nxt s) = next_id s"
    and "curof (switch_to me w prev nxt s) m = (if m = me then Some nxt else curof s m)"
    and "idleof (switch_to me w prev nxt s) m = idleof s m"
    and "st (switch_to me w prev nxt s) i =
           (if i = nxt then Running else if i = prev \<and> st s prev = Running then Runnable else st s i)"
    and "home (thr (switch_to me w prev nxt s) i) = home (thr s i)"
    and "id_of (thr (switch_to me w prev nxt s) i) = id_of (thr s i)"
    and "parent (thr (switch_to me w prev nxt s) i) = parent (thr s i)"
  using assms by (simp_all add: switch_to_def Let_def thr_on_thread cpus_on_cpu)

lemma switch_to_inv:
  assumes inv: "sched_inv0 {me} s" and prev: "curof s me = Some prev" and nxt: "nxt < n_threads s" "may_run me (thr s nxt)" "nxt \<noteq> prev"
  shows "sched_inv (switch_to me w prev nxt s)"
proof -
  let ?s = "switch_to me w prev nxt s"
  note D = sched_inv0D [OF inv]
  have p: "prev < n_threads s" by (rule D(4) [OF prev])
  have len: "prev < length (threads s)" "nxt < length (threads s)" using p nxt(1) D(3) by auto
  note F = switch_to_facts [OF len nxt(3)]
  have nr: "st s nxt = Runnable" and nh: "home (thr s nxt) < 0 \<or> home (thr s nxt) = int me" using nxt(2) by (auto simp: may_run_def)
  have fresh: "m = me" if "curof s m = Some nxt" for m using D(6) [OF that] nr by auto
  have pn: "m = me" if "curof s m = Some prev" for m using D(8) [OF that prev] .
  show ?thesis
    unfolding sched_inv_def sched_inv0_def F
  proof (intro conjI allI impI)
    show "length (threads s) = MAX_THREADS" "n_threads s \<le> MAX_THREADS" by (fact D(1), fact D(2))
  next
    fix m c
    assume "(if m = me then Some nxt else curof s m) = Some c"
    then have c: "m = me \<and> c = nxt \<or> m \<noteq> me \<and> curof s m = Some c" by (auto split: if_splits)
    then have other: "c \<noteq> nxt \<and> c \<noteq> prev \<and> c < n_threads s \<and> (st s c = Running \<or> st s c = Zombie) \<and>
        (home (thr s c) < 0 \<or> home (thr s c) = int m)" if "c \<noteq> nxt \<or> m \<noteq> me"
      using that fresh [of m] pn [of m] D(4) [of m c] D(6) [of m c] D(7) [of m c] by auto
    show "c < n_threads s" using nxt(1) c other by blast
    show "(if c = nxt then Running else if c = prev \<and> st s prev = Running then Runnable else st s c) \<noteq> Free"
      using other by (cases "c = nxt") auto
    show "m \<in> {} \<or> (if c = nxt then Running else if c = prev \<and> st s prev = Running then Runnable else st s c) = Running \<or>
       (if c = nxt then Running else if c = prev \<and> st s prev = Running then Runnable else st s c) = Zombie"
      using other by (cases "c = nxt") auto
    show "home (thr s c) < 0 \<or> home (thr s c) = int m" using nh c other by blast
  next
    fix m m' c
    assume "(if m = me then Some nxt else curof s m) = Some c \<and> (if m' = me then Some nxt else curof s m') = Some c"
    then show "m = m'" using D(8) fresh by (metis option.inject)
  next
    fix i
    assume i: "i < n_threads s" "(if i = nxt then Running else if i = prev \<and> st s prev = Running then Runnable else st s i) = Running"
    show "\<exists>m. (if m = me then Some nxt else curof s m) = Some i"
    proof (cases "i = nxt")
      case False
      then have "st s i = Running" "i \<noteq> prev" using i(2) by (auto split: if_splits)
      then obtain m where "curof s m = Some i" using D(9) [OF i(1)] by blast
      then show ?thesis using \<open>i \<noteq> prev\<close> prev by (metis option.inject)
    qed auto
  next
    fix m c
    assume c: "(if m = me then Some nxt else curof s m) = Some c"
    let ?ok = "\<lambda>c j. (if j = nxt then Running else if j = prev \<and> st s prev = Running then Runnable else st s j) = (if c = j then Running else Runnable)"
    show "\<exists>j<n_threads s. idleof s m = Some j \<and> home (thr s j) = int m \<and> ?ok c j"
    proof (cases "m = me")
      case True
      obtain j where j: "j < n_threads s" "idleof s me = Some j" "home (thr s j) = int me" "st s j = (if prev = j then Running else Runnable)"
        by (rule sched_inv0_idle [OF inv prev])
      then show ?thesis using True c nxt(3) by (intro exI [of _ j]) auto
    next
      case False
      then have cc: "curof s m = Some c" using c by simp
      obtain j where j: "j < n_threads s" "idleof s m = Some j" "home (thr s j) = int m" "st s j = (if c = j then Running else Runnable)"
        by (rule sched_inv0_idle [OF inv cc])
      have "j \<noteq> prev" using D(7) [OF prev] j(3) False by auto
      moreover have "j \<noteq> nxt" using nh j(3) False by auto
      ultimately show ?thesis using j by (intro exI [of _ j]) simp
    qed
  next
    fix i
    assume i: "i < n_threads s"
      "(if i = nxt then Running else if i = prev \<and> st s prev = Running then Runnable else st s i) \<noteq> Free \<and> 0 \<le> home (thr s i)"
    then have "st s i \<noteq> Free" using nr by (auto split: if_splits)
    then show "idleof s (nat (home (thr s i))) = Some i" "(if nat (home (thr s i)) = me then Some nxt else curof s (nat (home (thr s i)))) \<noteq> None"
      using D(10) [OF i(1)] i(2) by auto
  qed
qed

lemma wake_expired_simps [simp]: "home (wake_expired now t) = home t" "id_of (wake_expired now t) = id_of t" "parent (wake_expired now t) = parent t"
  by (simp_all add: wake_expired_def)

lemma wake_expired_state: "tstate (wake_expired now t) = tstate t \<or> (tstate t = Blocked \<and> tstate (wake_expired now t) = Runnable)"
  by (simp add: wake_expired_def)

lemma schedule_locked_inv:
  assumes inv: "sched_inv0 {me} s" and c: "curof s me = Some prev"
  shows "sched_inv (schedule_locked me now w s)"
    and "\<exists>nxt. curof (schedule_locked me now w s) me = Some nxt \<and> st (schedule_locked me now w s) nxt = Running"
proof -
  define s1 where "s1 = each_thread (wake_expired now) s"
  have inv1: "sched_inv0 {me} s1" unfolding s1_def by (rule each_thread_inv [OF inv]) (simp_all add: wake_expired_state)
  have c1: "curof s1 me = Some prev" using c by (simp add: s1_def)
  note D = sched_inv0D [OF inv1]
  have p: "prev < n_threads s1" by (rule D(4) [OF c1])
  obtain j where j: "j < n_threads s1" "idleof s1 me = Some j" "home (thr s1 j) = int me" "st s1 j = (if prev = j then Running else Runnable)"
    by (rule sched_inv0_idle [OF inv1 c1])
  consider (switch) nxt where "schedule_locked me now w s = switch_to me w prev nxt s1" "nxt < n_threads s1" "may_run me (thr s1 nxt)" "nxt \<noteq> prev"
    | (stay) "schedule_locked me now w s = s1" "st s1 prev = Running"
  proof (cases "next_runnable me (Some prev) s1")
    case (Some nxt)
    have n: "nxt < n_threads s1" "may_run me (thr s1 nxt)"
      using Some p unfolding next_runnable_def find_Some_iff round_robin_def by (auto simp del: upt_Suc)
    have "nxt \<noteq> prev"
    proof (cases "prev = j")
      case True
      then have "st s1 prev = Running" using j(4) by simp
      then show ?thesis using n(2) by (auto simp: may_run_def)
    next
      case False
      then have "may_run me (thr s1 j)" using j by (simp add: may_run_def)
      then show ?thesis using next_runnable_spec [OF p j(1), of me] False Some by (metis option.inject)
    qed
    moreover have "schedule_locked me now w s = switch_to me w prev nxt s1"
      using Some calculation c1 by (simp add: schedule_locked_def s1_def [symmetric] Let_def)
    ultimately show ?thesis using switch n by blast
  next
    case None
    have "prev = j"
    proof (rule ccontr)
      assume "prev \<noteq> j"
      then have "may_run me (thr s1 j)" using j by (simp add: may_run_def)
      then show False using next_runnable_spec [OF p j(1), of me] \<open>prev \<noteq> j\<close> None by (metis option.distinct(1))
    qed
    then have r: "st s1 prev = Running" using j(4) by simp
    then have "schedule_locked me now w s = s1" using None c1 by (simp add: schedule_locked_def s1_def [symmetric] Let_def)
    then show ?thesis using stay r by blast
  qed
  note cs = this
  show "sched_inv (schedule_locked me now w s)"
  proof (cases rule: cs)
    case (switch nxt)
    then show ?thesis using switch_to_inv [OF inv1 c1] by simp
  next
    case stay
    have "sched_inv0 {} s1"
    proof (rule sched_inv0_tighten [OF inv1])
      fix m c'
      assume "curof s1 m = Some c'"
      then show "m \<in> {} \<or> st s1 c' = Running \<or> st s1 c' = Zombie" using D(6) [of m c'] stay(2) c1 by (cases "m = me") auto
    qed
    then show ?thesis using stay by (simp add: sched_inv_def)
  qed
  show "\<exists>nxt. curof (schedule_locked me now w s) me = Some nxt \<and> st (schedule_locked me now w s) nxt = Running"
  proof (cases rule: cs)
    case (switch nxt)
    have "prev < length (threads s1)" "nxt < length (threads s1)" using p switch(2) D(3) by auto
    then show ?thesis using switch switch_to_facts [of prev s1 nxt] by simp
  next
    case stay
    then show ?thesis using c1 by auto
  qed
qed

text \<open>What a scheduling decision comes to: after the deadlines are looked at, nothing, or a switch to another thread that is runnable.\<close>

lemma schedule_locked_cases:
  assumes "sched_inv0 {me} s"
  obtains (stay) "schedule_locked me now w s = each_thread (wake_expired now) s"
  | (switch) prev nxt where "curof s me = Some prev" "prev < n_threads s" "nxt < n_threads s" "nxt \<noteq> prev"
      "st (each_thread (wake_expired now) s) nxt = Runnable"
      "schedule_locked me now w s = switch_to me w prev nxt (each_thread (wake_expired now) s)"
proof (cases "curof s me")
  case None
  then show ?thesis by (intro stay) (simp add: schedule_locked_def Let_def)
next
  case (Some prev)
  let ?s = "each_thread (wake_expired now) s"
  have inv1: "sched_inv0 {me} ?s" by (rule each_thread_inv [OF assms]) (simp_all add: wake_expired_state)
  have c1: "curof ?s me = Some prev" using Some by simp
  have p: "prev < n_threads s" using sched_inv0D(4) [OF inv1 c1] by simp
  obtain j where j: "j < n_threads ?s" "idleof ?s me = Some j" "st ?s j = (if prev = j then Running else Runnable)"
    by (rule sched_inv0_idle [OF inv1 c1])
  show ?thesis
  proof (cases "next_runnable me (Some prev) ?s")
    case n: (Some nxt)
    then have "nxt < n_threads s" "st ?s nxt = Runnable"
      using p unfolding next_runnable_def find_Some_iff round_robin_def by (auto simp: may_run_def simp del: upt_Suc)
    then show ?thesis using n Some p by (cases "nxt = prev") (auto simp: schedule_locked_def Let_def intro: stay switch)
  next
    case None
    then show ?thesis using Some p j
      by (cases "st ?s prev = Running"; cases "j = prev") (auto simp: schedule_locked_def Let_def intro: stay switch)
  qed
qed

section \<open>Process ids\<close>

definition ids_ok :: "sched \<Rightarrow> bool" where
  "ids_ok s \<longleftrightarrow>
     (\<forall>i < n_threads s. st s i \<noteq> Free \<longrightarrow> 0 \<le> id_of (thr s i) \<and> id_of (thr s i) < next_id s) \<and>
     (\<forall>i < n_threads s. \<forall>j < n_threads s. st s i \<noteq> Free \<and> st s j \<noteq> Free \<and> id_of (thr s i) = id_of (thr s j) \<longrightarrow> i = j) \<and>
     0 \<le> next_id s"

lemma ids_keep:
  assumes "ids_ok s" "n_threads s' = n_threads s" "next_id s' = next_id s"
    "\<And>i. i < n_threads s \<Longrightarrow> st s' i \<noteq> Free \<Longrightarrow> st s i \<noteq> Free \<and> id_of (thr s' i) = id_of (thr s i)"
  shows "ids_ok s'"
  using assms unfolding ids_ok_def by (metis (no_types, lifting))

lemma each_thread_ids:
  assumes "ids_ok s" "n_threads s \<le> length (threads s)" "\<And>t. id_of (f t) = id_of t" "\<And>t. tstate (f t) = Free \<longleftrightarrow> tstate t = Free"
  shows "ids_ok (each_thread f s)"
  by (rule ids_keep [OF assms(1)]) (simp_all add: thr_each_thread assms)

lemma on_thread_ids:
  assumes "ids_ok s" "i < length (threads s)" "id_of (f (thr s i)) = id_of (thr s i)" "tstate (f (thr s i)) \<noteq> Free \<Longrightarrow> st s i \<noteq> Free"
  shows "ids_ok (on_thread i f s)"
  by (rule ids_keep [OF assms(1)]) (auto simp: thr_on_thread assms split: if_splits)

lemma schedule_locked_keeps:
  assumes "sched_inv0 {me} s"
  shows "n_threads (schedule_locked me now w s) = n_threads s" "next_id (schedule_locked me now w s) = next_id s"
    "i < n_threads s \<Longrightarrow> id_of (thr (schedule_locked me now w s) i) = id_of (thr s i)"
    "i < n_threads s \<Longrightarrow> st (schedule_locked me now w s) i = Free \<longleftrightarrow> st s i = Free"
proof -
  let ?s = "each_thread (wake_expired now) s"
  have n: "n_threads s \<le> length (threads s)" by (rule sched_inv0D(3) [OF assms])
  have e: "id_of (thr ?s i) = id_of (thr s i) \<and> (st ?s i = Free \<longleftrightarrow> st s i = Free)" if "i < n_threads s" for i
    using that n by (simp add: thr_each_thread wake_expired_def)
  have "n_threads (schedule_locked me now w s) = n_threads s \<and> next_id (schedule_locked me now w s) = next_id s \<and>
      (\<forall>i < n_threads s. id_of (thr (schedule_locked me now w s) i) = id_of (thr s i) \<and>
        (st (schedule_locked me now w s) i = Free \<longleftrightarrow> st s i = Free))"
  proof (rule schedule_locked_cases [OF assms])
    assume "schedule_locked me now w s = ?s"
    then show ?thesis using e by simp
  next
    fix prev nxt
    assume a: "prev < n_threads s" "nxt < n_threads s" "nxt \<noteq> prev" "st ?s nxt = Runnable" "schedule_locked me now w s = switch_to me w prev nxt ?s"
    then have "prev < length (threads ?s)" "nxt < length (threads ?s)" using n by simp_all
    note F = switch_to_facts(2, 3, 6, 8) [OF this a(3)]
    have "st s nxt \<noteq> Free" "st ?s prev = Running \<Longrightarrow> st s prev \<noteq> Free" using e [OF a(2)] e [OF a(1)] a(4) by auto
    then show ?thesis unfolding a(5) F using e by auto
  qed
  then show "n_threads (schedule_locked me now w s) = n_threads s" "next_id (schedule_locked me now w s) = next_id s"
    "i < n_threads s \<Longrightarrow> id_of (thr (schedule_locked me now w s) i) = id_of (thr s i)"
    "i < n_threads s \<Longrightarrow> st (schedule_locked me now w s) i = Free \<longleftrightarrow> st s i = Free" by blast+
qed

lemma schedule_locked_ids:
  assumes "sched_inv0 {me} s" "ids_ok s"
  shows "ids_ok (schedule_locked me now w s)"
  by (rule ids_keep [OF assms(2)]) (simp_all add: schedule_locked_keeps [OF assms(1)])

section \<open>The operations keep the invariant\<close>

definition sched_good :: "sched \<Rightarrow> bool" where
  "sched_good s \<longleftrightarrow> sched_inv s \<and> ids_ok s"

lemma sched_goodD: "sched_good s \<Longrightarrow> sched_inv0 {} s" "sched_good s \<Longrightarrow> ids_ok s" "sched_good s \<Longrightarrow> sched_inv0 L s"
  by (auto simp: sched_good_def sched_inv_def intro: sched_inv0_mono)

lemma each_thread_good:
  assumes "sched_good s" "\<And>t. home (f t) = home t" "\<And>t. id_of (f t) = id_of t"
    "\<And>t. tstate (f t) = tstate t \<or> (tstate t = Blocked \<and> tstate (f t) = Runnable)"
  shows "sched_good (each_thread f s)"
proof -
  have "tstate (f t) = Free \<longleftrightarrow> tstate t = Free" for t using assms(4) [of t] by auto
  then show ?thesis
    using each_thread_inv [OF sched_goodD(1) [OF assms(1)] assms(2, 4)]
      each_thread_ids [OF sched_goodD(2) [OF assms(1)] sched_inv0D(3) [OF sched_goodD(1) [OF assms(1)]] assms(3)]
    by (simp add: sched_good_def sched_inv_def)
qed

lemma schedule_good: "sched_good s \<Longrightarrow> curof s me = Some c \<Longrightarrow> sched_good (schedule_locked me now w s)"
  using schedule_locked_inv(1) schedule_locked_ids sched_goodD sched_good_def by meson

text \<open>The current thread, which is not the idle thread, leaves the state of running.\<close>

lemma leave_running:
  assumes good: "sched_good s" and c: "curof s me = Some c" "idleof s me \<noteq> Some c"
    and f: "home (f (thr s c)) = home (thr s c)" "id_of (f (thr s c)) = id_of (thr s c)" "tstate (f (thr s c)) = Blocked \<or> tstate (f (thr s c)) = Zombie"
  shows "sched_inv0 {me} (on_thread c f s)" "ids_ok (on_thread c f s)"
proof -
  note inv = sched_goodD(1) [OF good]
  note D = sched_inv0D [OF inv]
  have l: "c < length (threads s)" using D(4) [OF c(1)] D(3) by simp
  show "ids_ok (on_thread c f s)"
    using f D(5) [OF c(1)] by (intro on_thread_ids [OF sched_goodD(2) [OF good] l]) auto
  have t: "thr (on_thread c f s) i = (if i = c then f (thr s c) else thr s i)" for i by (rule thr_on_thread [OF l])
  have only: "m = me" if "curof s m = Some c" for m by (rule D(8) [OF that c(1)])
  have nf: "tstate (f (thr s c)) \<noteq> Free" "tstate (f (thr s c)) \<noteq> Running" using f(3) by auto
  show "sched_inv0 {me} (on_thread c f s)"
    unfolding sched_inv0_def on_thread_simps
  proof (intro conjI allI impI)
    show "length (threads s) = MAX_THREADS" "n_threads s \<le> MAX_THREADS" by (fact D(1), fact D(2))
  next
    fix m i
    assume i: "curof s m = Some i"
    show "i < n_threads s" by (rule D(4) [OF i])
    show "st (on_thread c f s) i \<noteq> Free" using D(5) [OF i] nf by (simp add: t)
    show "m \<in> {me} \<or> st (on_thread c f s) i = Running \<or> st (on_thread c f s) i = Zombie"
      using D(6) [OF i] only [of m] i by (auto simp: t)
    show "home (thr (on_thread c f s) i) < 0 \<or> home (thr (on_thread c f s) i) = int m" using D(7) [OF i] f(1) by (auto simp: t)
  next
    fix m m' i
    assume "curof s m = Some i \<and> curof s m' = Some i"
    then show "m = m'" using D(8) by blast
  next
    fix i
    assume i: "i < n_threads s" "st (on_thread c f s) i = Running"
    then have "st s i = Running" using nf(2) by (auto simp: t split: if_splits)
    then show "\<exists>m. curof s m = Some i" using D(9) [OF i(1)] by blast
  next
    fix m i
    assume i: "curof s m = Some i"
    obtain j where j: "j < n_threads s" "idleof s m = Some j" "home (thr s j) = int m" "st s j = (if i = j then Running else Runnable)"
      by (rule sched_inv0_idle [OF inv i])
    have "j \<noteq> c"
    proof
      assume "j = c"
      then have "st s c \<noteq> Zombie" "st s c = Running \<or> st s c = Zombie" using j(4) D(6) [OF c(1)] by (auto split: if_splits)
      then have "i = c" using j(4) \<open>j = c\<close> by (auto split: if_splits)
      then show False using only [of m] i c(2) j(2) \<open>j = c\<close> by simp
    qed
    then show "\<exists>j<n_threads s. idleof s m = Some j \<and> home (thr (on_thread c f s) j) = int m \<and>
        st (on_thread c f s) j = (if i = j then Running else Runnable)" using j by (intro exI [of _ j]) (simp add: t)
  next
    fix i
    assume i: "i < n_threads s" "st (on_thread c f s) i \<noteq> Free \<and> 0 \<le> home (thr (on_thread c f s) i)"
    have h: "home (thr (on_thread c f s) i) = home (thr s i)" using f(1) by (simp add: t)
    have "st s i \<noteq> Free" using i(2) D(5) [OF c(1)] by (auto simp: t split: if_splits)
    then show "idleof s (nat (home (thr (on_thread c f s) i))) = Some i" "curof s (nat (home (thr (on_thread c f s) i))) \<noteq> None"
      using D(10) [OF i(1)] i(2) h by auto
  qed
qed

lemma block_with_good:
  assumes "sched_good s" "curof s me = Some c" "idleof s me \<noteq> Some c" "\<And>t. home (f t) = home t \<and> id_of (f t) = id_of t"
  shows "sched_good (block_with f me now w s)"
proof (cases "st s c = Running")
  case False
  then show ?thesis using assms(1, 2) by (simp add: block_with_def)
next
  case True
  have b: "sched_inv0 {me} (on_thread c (\<lambda>t. (f t)\<lparr>tstate := Blocked\<rparr>) s)" "ids_ok (on_thread c (\<lambda>t. (f t)\<lparr>tstate := Blocked\<rparr>) s)"
    using leave_running [OF assms(1, 2, 3), of "\<lambda>t. (f t)\<lparr>tstate := Blocked\<rparr>"] assms(4) by simp_all
  then show ?thesis
    using schedule_locked_inv(1) [OF b(1), of c] schedule_locked_ids [OF b] assms(2) True
    by (simp add: block_with_def sched_good_def)
qed

lemma become_zombie_good:
  assumes "sched_good s" "curof s me = Some c" "idleof s me \<noteq> Some c"
  shows "sched_good (become_zombie me x s)"
proof -
  let ?f = "\<lambda>t. t\<lparr>tstate := Zombie, status := x, space := 0\<rparr>"
  have l: "c < length (threads s)" using sched_inv0D(3, 4) [OF sched_goodD(1) [OF assms(1)]] assms(2) by fastforce
  have z: "sched_inv0 {me} (on_thread c ?f s)" "ids_ok (on_thread c ?f s)" using leave_running [OF assms, of ?f] by simp_all
  have "sched_inv0 {} (on_thread c ?f s)"
  proof (rule sched_inv0_tighten [OF z(1)])
    fix m i
    assume i: "curof (on_thread c ?f s) m = Some i"
    show "m \<in> {} \<or> st (on_thread c ?f s) i = Running \<or> st (on_thread c ?f s) i = Zombie"
      using sched_inv0D(6) [OF sched_goodD(1) [OF assms(1)], of m i] i by (simp add: thr_on_thread [OF l])
  qed
  then show ?thesis using z assms(2) by (simp add: become_zombie_def sched_good_def sched_inv_def)
qed

text \<open>A slot that nobody runs is given back.\<close>

lemma release_slot_simps [simp]:
  "n_threads (release_slot i s) = n_threads s" "cpus (release_slot i s) = cpus s" "next_id (release_slot i s) = next_id s"
  "length (threads (release_slot i s)) = length (threads s)"
  by (simp_all add: release_slot_def Let_def)

lemma thr_release_slot:
  "i < length (threads s) \<Longrightarrow> j \<noteq> i \<Longrightarrow> thr (release_slot i s) j = thr s j"
  "i < length (threads s) \<Longrightarrow> st (release_slot i s) i = Free"
  by (simp_all add: release_slot_def Let_def on_thread_def)

lemma release_slot_good:
  assumes good: "sched_good s" and i: "i < n_threads s" "st s i = Zombie" "\<And>m. curof s m \<noteq> Some i"
  shows "sched_good (release_slot i s)"
proof -
  note inv = sched_goodD(1) [OF good]
  note D = sched_inv0D [OF inv]
  have l: "i < length (threads s)" using i(1) D(3) by simp
  note t = thr_release_slot [OF l]
  have "sched_inv0 {} (release_slot i s)"
    unfolding sched_inv0_def release_slot_simps
  proof (intro conjI allI impI)
    show "length (threads s) = MAX_THREADS" "n_threads s \<le> MAX_THREADS" by (fact D(1), fact D(2))
  next
    fix m c
    assume c: "curof s m = Some c"
    then have "c \<noteq> i" using i(3) by auto
    then show "c < n_threads s" "st (release_slot i s) c \<noteq> Free" "m \<in> {} \<or> st (release_slot i s) c = Running \<or> st (release_slot i s) c = Zombie"
      "home (thr (release_slot i s) c) < 0 \<or> home (thr (release_slot i s) c) = int m"
      using D(4, 5, 6, 7) [OF c] t(1) by auto
  next
    fix m m' c
    assume "curof s m = Some c \<and> curof s m' = Some c"
    then show "m = m'" using D(8) by blast
  next
    fix k
    assume k: "k < n_threads s" "st (release_slot i s) k = Running"
    then have "k \<noteq> i" using t(2) by auto
    then show "\<exists>m. curof s m = Some k" using D(9) [OF k(1)] k(2) t(1) by auto
  next
    fix m c
    assume c: "curof s m = Some c"
    obtain j where j: "j < n_threads s" "idleof s m = Some j" "home (thr s j) = int m" "st s j = (if c = j then Running else Runnable)"
      by (rule sched_inv0_idle [OF inv c])
    then have "j \<noteq> i" using i(2) by (auto split: if_splits)
    then show "\<exists>j<n_threads s. idleof s m = Some j \<and> home (thr (release_slot i s) j) = int m \<and>
        st (release_slot i s) j = (if c = j then Running else Runnable)" using j t(1) by (intro exI [of _ j]) simp
  next
    fix k
    assume k: "k < n_threads s" "st (release_slot i s) k \<noteq> Free \<and> 0 \<le> home (thr (release_slot i s) k)"
    then have "k \<noteq> i" using t(2) by auto
    then show "idleof s (nat (home (thr (release_slot i s) k))) = Some k" "curof s (nat (home (thr (release_slot i s) k))) \<noteq> None"
      using D(10) [OF k(1)] k(2) t(1) by auto
  qed
  moreover have "ids_ok (release_slot i s)"
    by (rule ids_keep [OF sched_goodD(2) [OF good]]) (use t i(2) in \<open>auto\<close>, (metis t)+)
  ultimately show ?thesis by (simp add: sched_good_def sched_inv_def)
qed

text \<open>A slot that was free is filled in; the creator makes it runnable, or gives it up.\<close>

definition filled :: "nat \<Rightarrow> sched \<Rightarrow> sched \<Rightarrow> bool" where
  "filled i s s' \<longleftrightarrow>
     cpus s' = cpus s \<and> length (threads s') = length (threads s) \<and> n_threads s \<le> n_threads s' \<and> n_threads s' \<le> MAX_THREADS \<and>
     i < n_threads s' \<and> (i < n_threads s \<longrightarrow> st s i = Free) \<and>
     (\<forall>j < n_threads s'. j \<noteq> i \<longrightarrow> j < n_threads s \<and> thr s' j = thr s j)"

lemma alloc_slot_filled:
  assumes "length (threads s) = MAX_THREADS" "n_threads s \<le> MAX_THREADS" "alloc_slot s = (Some i, s1)"
  shows "filled i s s1" "st s1 i = Free" "next_id s1 = next_id s" "i < length (threads s1)"
proof -
  define l where "l = filter (\<lambda>i. st s i = Free) [0..<n_threads s]"
  have "filled i s s1 \<and> st s1 i = Free \<and> next_id s1 = next_id s \<and> i < length (threads s1)"
  proof (cases l)
    case (Cons k ks)
    then have "k \<in> set l" by simp
    then have k: "k < n_threads s" "st s k = Free" by (auto simp: l_def)
    have "i = k" "s1 = s" using assms(3) Cons by (auto simp: alloc_slot_def l_def [symmetric])
    then show ?thesis using k assms(1, 2) by (auto simp: filled_def)
  next
    case Nil
    then have n: "n_threads s < MAX_THREADS" "i = n_threads s"
      "s1 = (on_thread (n_threads s) (\<lambda>t. t\<lparr>tstate := Free\<rparr>) s)\<lparr>n_threads := Suc (n_threads s)\<rparr>"
      using assms(3) by (auto simp: alloc_slot_def l_def [symmetric] split: if_splits)
    have t: "thr s1 j = (if j = i then (thr s i)\<lparr>tstate := Free\<rparr> else thr s j)" for j
      using n assms(1) thr_on_thread [of "n_threads s" s] by simp
    have "n_threads s1 = Suc (n_threads s)" "cpus s1 = cpus s" "length (threads s1) = length (threads s)" "next_id s1 = next_id s"
      unfolding n(3) by simp_all
    then show ?thesis using n(1, 2) t assms(1) by (auto simp: filled_def less_Suc_eq)
  qed
  then show "filled i s s1" "st s1 i = Free" "next_id s1 = next_id s" "i < length (threads s1)" by auto
qed

lemma filled_upd: "filled i s s1 \<Longrightarrow> i < length (threads s1) \<Longrightarrow> filled i s (on_thread i f s1)"
  by (auto simp: filled_def thr_on_thread)

lemma filled_frame:
  "filled i s s1 \<Longrightarrow> threads s2 = threads s1 \<Longrightarrow> n_threads s2 = n_threads s1 \<Longrightarrow> cpus s2 = cpus s1 \<Longrightarrow> filled i s s2"
  by (simp add: filled_def)

lemma slot_init_simps [simp]:
  "n_threads (slot_init me i nm sp' s) = n_threads s" "cpus (slot_init me i nm sp' s) = cpus s"
  "next_id (slot_init me i nm sp' s) = next_id s + 1" "length (threads (slot_init me i nm sp' s)) = length (threads s)"
  "pages (slot_init me i nm sp' s) = pages s"
  by (simp_all add: slot_init_def)

lemma thr_slot_init:
  "i < length (threads s) \<Longrightarrow> j \<noteq> i \<Longrightarrow> thr (slot_init me i nm sp' s) j = thr s j"
  "i < length (threads s) \<Longrightarrow> id_of (thr (slot_init me i nm sp' s) i) = next_id s"
  "i < length (threads s) \<Longrightarrow> home (thr (slot_init me i nm sp' s) i) = -1"
  "i < length (threads s) \<Longrightarrow> st (slot_init me i nm sp' s) i = st s i"
  by (simp_all add: slot_init_def on_thread_def)

lemma filled_slot_init: "filled i s s1 \<Longrightarrow> i < length (threads s1) \<Longrightarrow> filled i s (slot_init me i nm sp' s1)"
  by (auto simp: filled_def thr_slot_init)

lemma filled_good:
  assumes good: "sched_good s" and f: "filled i s s'"
    and i: "(st s' i = Free \<and> next_id s' = next_id s) \<or>
            (st s' i = Runnable \<and> home (thr s' i) = -1 \<and> id_of (thr s' i) = next_id s \<and> next_id s' = next_id s + 1)"
  shows "sched_good s'"
proof -
  note inv = sched_goodD(1) [OF good]
  note D = sched_inv0D [OF inv]
  have c: "cpus s' = cpus s" and l: "length (threads s') = length (threads s)" and n: "n_threads s \<le> n_threads s'" "n_threads s' \<le> MAX_THREADS"
    and fr: "i < n_threads s \<Longrightarrow> st s i = Free" and o: "\<And>j. j < n_threads s' \<Longrightarrow> j \<noteq> i \<Longrightarrow> j < n_threads s \<and> thr s' j = thr s j"
    and ii: "i < n_threads s'"
    using f by (auto simp: filled_def)
  have nc: "k \<noteq> i" if "curof s m = Some k" for m k using D(4, 5) [OF that] fr by auto
  have "sched_inv0 {} s'"
    unfolding sched_inv0_def c
  proof (intro conjI allI impI)
    show "length (threads s') = MAX_THREADS" "n_threads s' \<le> MAX_THREADS" using l D(1) n(2) by simp_all
  next
    fix m k
    assume k: "curof s m = Some k"
    have e: "thr s' k = thr s k" and k': "k < n_threads s'" using o [of k] nc [OF k] D(4) [OF k] n(1) by auto
    show "k < n_threads s'" by (rule k')
    show "st s' k \<noteq> Free" "m \<in> {} \<or> st s' k = Running \<or> st s' k = Zombie" "home (thr s' k) < 0 \<or> home (thr s' k) = int m"
      using D(5, 6, 7) [OF k] e by auto
  next
    fix m m' k
    assume "curof s m = Some k \<and> curof s m' = Some k"
    then show "m = m'" using D(8) by blast
  next
    fix k
    assume k: "k < n_threads s'" "st s' k = Running"
    then have "k \<noteq> i" using i by auto
    then show "\<exists>m. curof s m = Some k" using D(9) [of k] k o [of k] by auto
  next
    fix m k
    assume k: "curof s m = Some k"
    obtain j where j: "j < n_threads s" "idleof s m = Some j" "home (thr s j) = int m" "st s j = (if k = j then Running else Runnable)"
      by (rule sched_inv0_idle [OF inv k])
    then have "j \<noteq> i" "j < n_threads s'" using fr n(1) by (auto split: if_splits)
    then show "\<exists>j<n_threads s'. idleof s m = Some j \<and> home (thr s' j) = int m \<and> st s' j = (if k = j then Running else Runnable)"
      using j o [of j] by (intro exI [of _ j]) simp
  next
    fix k
    assume k: "k < n_threads s'" "st s' k \<noteq> Free \<and> 0 \<le> home (thr s' k)"
    then have "k \<noteq> i" using i by auto
    then show "idleof s (nat (home (thr s' k))) = Some k" "curof s (nat (home (thr s' k))) \<noteq> None"
      using D(10) [of k] k o [of k] by auto
  qed
  moreover have "ids_ok s'"
  proof -
    note ids = sched_goodD(2) [OF good, unfolded ids_ok_def]
    have low: "0 \<le> id_of (thr s' k) \<and> id_of (thr s' k) < next_id s" if "k < n_threads s'" "k \<noteq> i" "st s' k \<noteq> Free" for k
      using o [OF that(1, 2)] ids that(3) by auto
    have np: "0 \<le> next_id s" using ids by blast
    have A: "0 \<le> id_of (thr s' k) \<and> id_of (thr s' k) < next_id s'" if "k < n_threads s'" "st s' k \<noteq> Free" for k
    proof (cases "k = i")
      case True
      then show ?thesis using i that np by auto
    next
      case False
      then show ?thesis using low [OF that(1) False that(2)] i by auto
    qed
    have B: "k = j" if "k < n_threads s'" "j < n_threads s'" "st s' k \<noteq> Free" "st s' j \<noteq> Free" "id_of (thr s' k) = id_of (thr s' j)" for k j
    proof (cases "k = i \<or> j = i")
      case True
      then show ?thesis using low [of k] low [of j] that i by (cases "k = i"; cases "j = i") auto
    next
      case False
      then have "thr s' k = thr s k" "thr s' j = thr s j" "k < n_threads s" "j < n_threads s" using o that(1, 2) by auto
      then show ?thesis using ids that by metis
    qed
    show ?thesis using A B np i unfolding ids_ok_def by auto
  qed
  ultimately show ?thesis by (simp add: sched_good_def sched_inv_def)
qed

lemma thread_create_filled:
  assumes "length (threads s) = MAX_THREADS" "n_threads s \<le> MAX_THREADS" "thread_create me nm fn arg ep s = (r, s')"
  shows "s' = s \<or> (\<exists>i. filled i s s' \<and>
           ((st s' i = Free \<and> next_id s' = next_id s) \<or>
            (st s' i = Runnable \<and> home (thr s' i) = -1 \<and> id_of (thr s' i) = next_id s \<and> next_id s' = next_id s + 1)))"
proof -
  obtain r1 s1 where a: "alloc_slot s = (r1, s1)" by fastforce
  show ?thesis
  proof (cases r1)
    case None
    then have "s' = s1" "s1 = s" using assms(3) a by (auto simp: thread_create_def alloc_slot_def split: list.splits if_splits)
    then show ?thesis by simp
  next
    case (Some i)
    note A = alloc_slot_filled [OF assms(1, 2) a [unfolded Some]]
    obtain stack p where al: "alloc_pages (pages s1) STACK_PAGES = (stack, p)" by fastforce
    have fr: "filled i s (s1\<lparr>pages := p\<rparr>)" by (rule filled_frame [OF A(1)]) simp_all
    have l: "i < length (threads (s1\<lparr>pages := p\<rparr>))" using A(4) by simp
    show ?thesis
    proof (cases "stack = 0")
      case True
      then have "s' = on_thread i (\<lambda>t. t\<lparr>tstate := Free\<rparr>) (s1\<lparr>pages := p\<rparr>)"
        using assms(3) a Some al by (simp add: thread_create_def)
      then show ?thesis using A(3) filled_upd [OF fr l] thr_on_thread [OF l] by (intro disjI2 exI [of _ i]) simp
    next
      case False
      define s2 where "s2 = slot_init me i nm 0 (s1\<lparr>pages := p\<rparr>)"
      obtain g where s': "s' = on_thread i (\<lambda>t. t\<lparr>stack_low := stack, sp := stack + ucast STACK_PAGES * PAGE_SIZE - 96, tstate := Runnable\<rparr>)
          (s2\<lparr>pages := g\<rparr>)"
        using assms(3) a Some al False by (auto simp: thread_create_def s2_def Let_def)
      have f2: "filled i s s2" unfolding s2_def by (rule filled_slot_init [OF fr l])
      have f3: "filled i s (s2\<lparr>pages := g\<rparr>)" by (rule filled_frame [OF f2]) simp_all
      have l2: "i < length (threads (s2\<lparr>pages := g\<rparr>))" using A(4) by (simp add: s2_def)
      have "id_of (thr s2 i) = next_id s" "home (thr s2 i) = -1" "next_id s2 = next_id s + 1"
        unfolding s2_def using A(3) by (simp_all add: thr_slot_init(2, 3) [OF l])
      then show ?thesis unfolding s' using filled_upd [OF f3 l2] by (intro disjI2 exI [of _ i]) (simp add: thr_on_thread [OF l2])
    qed
  qed
qed

lemma thread_create_good:
  assumes "sched_good s" "thread_create me nm fn arg ep s = (r, s')"
  shows "sched_good s'"
  using thread_create_filled [OF sched_inv0D(1, 2) [OF sched_goodD(1) [OF assms(1)]] assms(2)] filled_good [OF assms(1)] assms(1) by blast

text \<open>A processor comes up on a thread of its own.\<close>

lemma sched_cpu_init_good:
  assumes good: "sched_good s" and off: "curof s me = None" "idleof s me = None"
  shows "sched_good (sched_cpu_init me nm s)"
proof -
  note inv = sched_goodD(1) [OF good]
  note D = sched_inv0D [OF inv]
  obtain r s1 where a: "alloc_slot s = (r, s1)" by fastforce
  show ?thesis
  proof (cases r)
    case None
    then have "s1 = s" using a by (auto simp: alloc_slot_def split: list.splits if_splits)
    then show ?thesis using None a good by (simp add: sched_cpu_init_def)
  next
    case (Some i)
    note A = alloc_slot_filled [OF D(1, 2) a [unfolded Some]]
    define s2 where "s2 = slot_init me i nm 0 s1"
    define s3 where "s3 = on_thread i (\<lambda>t. t\<lparr>parent := -1, home := int me, tstate := Running\<rparr>) s2"
    define s' where "s' = on_cpu me (\<lambda>c. c\<lparr>cur := Some i, idle := Some i\<rparr>) s3"
    have res: "sched_cpu_init me nm s = s'" using a Some by (simp add: sched_cpu_init_def s'_def s3_def s2_def)
    have l: "i < length (threads s2)" using A(4) by (simp add: s2_def)
    have f: "filled i s s3" unfolding s3_def s2_def by (intro filled_upd filled_slot_init A) (simp add: A(4))
    have own: "st s3 i = Running" "home (thr s3 i) = int me" "id_of (thr s3 i) = next_id s" "next_id s3 = next_id s + 1"
      using A(3, 4) by (simp_all add: s3_def thr_on_thread s2_def thr_slot_init)
    have c: "cpus s3 = cpus s" and n: "n_threads s \<le> n_threads s3" "n_threads s3 \<le> MAX_THREADS" "length (threads s3) = MAX_THREADS"
      and fr: "i < n_threads s \<Longrightarrow> st s i = Free" and o: "\<And>j. j < n_threads s3 \<Longrightarrow> j \<noteq> i \<Longrightarrow> j < n_threads s \<and> thr s3 j = thr s j"
      and ii: "i < n_threads s3"
      using f D(1) by (auto simp: filled_def)
    have cp: "curof s' m = (if m = me then Some i else curof s m)" "idleof s' m = (if m = me then Some i else idleof s m)" for m
      by (simp_all add: s'_def cpus_on_cpu c)
    have th: "threads s' = threads s3" "n_threads s' = n_threads s3" "next_id s' = next_id s3" by (simp_all add: s'_def)
    have nc: "k \<noteq> i \<and> m \<noteq> me \<and> k < n_threads s3 \<and> thr s3 k = thr s k" if "curof s m = Some k" for m k
      using D(4, 5) [OF that] fr that off(1) o [of k] n(1) by auto
    have "sched_inv0 {} s'"
      unfolding sched_inv0_def cp th
    proof (intro conjI allI impI)
      show "length (threads s3) = MAX_THREADS" "n_threads s3 \<le> MAX_THREADS" by (fact n(3), fact n(2))
    next
      fix m k
      assume "(if m = me then Some i else curof s m) = Some k"
      then consider "m = me" "k = i" | "m \<noteq> me" "curof s m = Some k" by (auto split: if_splits)
      then have "k < n_threads s3 \<and> st s3 k \<noteq> Free \<and> (st s3 k = Running \<or> st s3 k = Zombie) \<and> (home (thr s3 k) < 0 \<or> home (thr s3 k) = int m)"
      proof cases
        case 1
        then show ?thesis using own ii by simp
      next
        case 2
        then show ?thesis using nc [OF 2(2)] D(5, 6, 7) [OF 2(2)] by auto
      qed
      then show "k < n_threads s3" "st s3 k \<noteq> Free" "m \<in> {} \<or> st s3 k = Running \<or> st s3 k = Zombie"
        "home (thr s3 k) < 0 \<or> home (thr s3 k) = int m" by auto
    next
      fix m m' k
      assume "(if m = me then Some i else curof s m) = Some k \<and> (if m' = me then Some i else curof s m') = Some k"
      then show "m = m'" using D(8) nc by (metis option.inject)
    next
      fix k
      assume k: "k < n_threads s3" "st s3 k = Running"
      show "\<exists>m. (if m = me then Some i else curof s m) = Some k"
      proof (cases "k = i")
        case False
        then obtain m where "curof s m = Some k" using D(9) [of k] k o [of k] by auto
        then show ?thesis using nc by (intro exI [of _ m]) auto
      qed auto
    next
      fix m k
      assume k: "(if m = me then Some i else curof s m) = Some k"
      show "\<exists>j<n_threads s3. (if m = me then Some i else idleof s m) = Some j \<and> home (thr s3 j) = int m \<and>
          st s3 j = (if k = j then Running else Runnable)"
      proof (cases "m = me")
        case True
        then show ?thesis using own ii k by (intro exI [of _ i]) auto
      next
        case False
        then have kk: "curof s m = Some k" using k by simp
        obtain j where j: "j < n_threads s" "idleof s m = Some j" "home (thr s j) = int m" "st s j = (if k = j then Running else Runnable)"
          by (rule sched_inv0_idle [OF inv kk])
        then have "j \<noteq> i" "j < n_threads s3" using fr n(1) by (auto split: if_splits)
        then show ?thesis using j o [of j] False by (intro exI [of _ j]) simp
      qed
    next
      fix k
      assume k: "k < n_threads s3" "st s3 k \<noteq> Free \<and> 0 \<le> home (thr s3 k)"
      have g: "idleof s (nat (home (thr s3 k))) = Some k \<and> curof s (nat (home (thr s3 k))) \<noteq> None" if "k \<noteq> i"
        using D(10) [of k] k o [OF k(1) that] by auto
      then show "(if nat (home (thr s3 k)) = me then Some i else idleof s (nat (home (thr s3 k)))) = Some k"
        "(if nat (home (thr s3 k)) = me then Some i else curof s (nat (home (thr s3 k)))) \<noteq> None"
        using own(2) off by (cases "k = i"; auto)+
    qed
    moreover have "ids_ok s'"
    proof -
      have "sched_good (on_thread i (\<lambda>t. t\<lparr>home := -1, tstate := Runnable\<rparr>) s3)"
        by (rule filled_good [OF good filled_upd [OF f]]) (use l own in \<open>simp_all add: s3_def thr_on_thread\<close>)
      then have "ids_ok (on_thread i (\<lambda>t. t\<lparr>home := -1, tstate := Runnable\<rparr>) s3)" by (rule sched_goodD(2))
      then show ?thesis
        by (rule ids_keep) (use l own th in \<open>auto simp: s3_def thr_on_thread split: if_splits\<close>)
    qed
    ultimately show ?thesis unfolding res by (simp add: sched_good_def sched_inv_def)
  qed
qed

section \<open>The machine as a transition system\<close>

text \<open>
  One step is one locked section of \<open>sched.c\<close> on some processor, or one part of a creation, which runs without the lock: a slot is
  taken, pages are allocated and written, the slot is filled in and published or given up. Any step of any processor may come between
  these, another creation included. The guards say what the code's callers do: the idle thread only ever calls \<open>schedule\<close>, a
  processor comes up once, only a running thread waits, and a creator fills a slot it was given. A thread may change its own record
  (descriptors, handlers, mask, space, manifest) and anybody may use the page allocator at any time.

  A step is labelled with what it does to a slot that may be somebody else's: \<open>Collects z\<close> releases the slot of the zombie \<open>z\<close>,
  \<open>Fills i\<close> writes the slot \<open>i\<close> for a new thread. Nothing in the code keeps a zombie from being collected while the processor that ran it
  is still on it, or a slot from being filled by two creators; \<open>orderly\<close> says of one step that this does not happen.
\<close>

definition working :: "nat \<Rightarrow> sched \<Rightarrow> bool" where
  "working me s \<longleftrightarrow> curof s me \<noteq> None \<and> idleof s me \<noteq> curof s me"

text \<open>The common end of \<open>thread_create\<close> and \<open>thread_fork\<close>: the slot is cleared, then \<open>g\<close> sets what the creator sets, and the state last.\<close>

definition publish :: "nat \<Rightarrow> nat \<Rightarrow> bytes \<Rightarrow> u64 \<Rightarrow> (thread \<Rightarrow> thread) \<Rightarrow> sched \<Rightarrow> sched" where
  "publish me i nm spc g s = on_thread i (\<lambda>t. (g t)\<lparr>tstate := Runnable\<rparr>) (slot_init me i nm spc s)"

datatype action = Moves | Collects "nat option" | Fills nat

inductive sched_step :: "action \<Rightarrow> sched \<Rightarrow> sched \<Rightarrow> bool" where
  tick: "curof s me \<noteq> None \<Longrightarrow> sched_step Moves s (schedule me now w s)"
| block_console: "working me s \<Longrightarrow> sched_step Moves s (thread_block_on_console me now w s)"
| block_pipe: "working me s \<Longrightarrow> sched_step Moves s (thread_block_on_pipe ob me now w s)"
| block_until: "working me s \<Longrightarrow> sched_step Moves s (thread_block_on_pipe_until ob ticks then' me now w s)"
| wake_pipe: "sched_step Moves s (thread_wake_pipe ob s)"
| wake_console: "sched_step Moves s (thread_wake_console s)"
| signal: "sched_step Moves s (snd (thread_signal pid sig s))"
| setpgid: "sched_step Moves s (snd (thread_setpgid me pid pg s))"
| own_fields: "curof s me = Some c \<Longrightarrow> (\<And>t. home (f t) = home t \<and> id_of (f t) = id_of t \<and> tstate (f t) = tstate t) \<Longrightarrow>
    sched_step Moves s (on_thread c f s)"
| memory: "sched_step Moves s (s\<lparr>pages := p\<rparr>)"
| take_slot: "sched_step Moves s (snd (alloc_slot s))"
| fill_slot: "i < n_threads s \<Longrightarrow> (\<And>t. home (g t) = home t \<and> id_of (g t) = id_of t) \<Longrightarrow>
    sched_step (Fills i) s (publish me i nm spc g s)"
| give_up_slot: "i < n_threads s \<Longrightarrow> sched_step (Fills i) s (on_thread i (\<lambda>t. t\<lparr>tstate := Free\<rparr>) s)"
| exit_zombie: "working me s \<Longrightarrow> sched_step Moves s (become_zombie me x s)"
| exit_wake: "sched_step Moves s (wake_parent me s)"
| reap: "current me s = Some t \<Longrightarrow> sched_step (Collects (zombie_child (id_of t) s)) s (snd (thread_reap me s))"
| wait: "working me s \<Longrightarrow> st s c = Running \<Longrightarrow> curof s me = Some c \<Longrightarrow>
    sched_step (Collects (zombie_child (id_of (thr s c)) s)) s (snd (thread_wait_turn me now w s))"
| cpu_up: "curof s me = None \<Longrightarrow> idleof s me = None \<Longrightarrow> sched_step Moves s (sched_cpu_init me nm s)"

fun orderly :: "action \<Rightarrow> sched \<Rightarrow> bool" where
  "orderly (Collects (Some i)) s \<longleftrightarrow> (\<forall>m. curof s m \<noteq> Some i)"
| "orderly (Fills i) s \<longleftrightarrow> st s i = Free"
| "orderly a s \<longleftrightarrow> True"

definition orderly_step :: "sched \<Rightarrow> sched \<Rightarrow> bool" where
  "orderly_step s s' \<longleftrightarrow> (\<exists>a. sched_step a s s' \<and> orderly a s)"

lemma on_thread_good:
  assumes "sched_good s" "i < n_threads s" "\<And>t. home (f t) = home t \<and> id_of (f t) = id_of t \<and> tstate (f t) = tstate t"
  shows "sched_good (on_thread i f s)"
proof -
  note inv = sched_goodD(1) [OF assms(1)]
  have l: "i < length (threads s)" using assms(2) sched_inv0D(3) [OF inv] by simp
  have "sched_inv0 {} (on_thread i f s)"
    by (rule wakeup_inv [OF inv]) (simp_all add: thr_on_thread [OF l] assms(3))
  moreover have "ids_ok (on_thread i f s)" using assms(3) by (intro on_thread_ids [OF sched_goodD(2) [OF assms(1)] l]) auto
  ultimately show ?thesis by (simp add: sched_good_def sched_inv_def)
qed

lemma find_slot_bound: "List.find P [0..<n] = Some i \<Longrightarrow> i < n \<and> P i"
  by (auto simp: find_Some_iff)

lemma alloc_slot_none: "alloc_slot s = (None, s1) \<Longrightarrow> s1 = s"
  by (auto simp: alloc_slot_def split: list.splits if_splits)

lemma pages_good: "sched_good s \<Longrightarrow> sched_good (s\<lparr>pages := p\<rparr>)"
  by (simp add: sched_good_def sched_inv_def sched_inv0_def ids_ok_def)

lemma alloc_slot_good:
  assumes "sched_good s"
  shows "sched_good (snd (alloc_slot s))"
proof (cases "alloc_slot s")
  case (Pair r s1)
  note D = sched_inv0D(1, 2) [OF sched_goodD(1) [OF assms]]
  show ?thesis
  proof (cases r)
    case None
    then show ?thesis using alloc_slot_none [of s s1] Pair assms by simp
  next
    case (Some i)
    show ?thesis using filled_good [OF assms alloc_slot_filled(1) [OF D Pair [unfolded Some]]] alloc_slot_filled(2, 3) [OF D Pair [unfolded Some]] Pair
      by simp
  qed
qed

lemma filled_self: "sched_inv0 L s \<Longrightarrow> i < n_threads s \<Longrightarrow> st s i = Free \<Longrightarrow> filled i s s"
  by (simp add: filled_def sched_inv0D(2))

lemma publish_own:
  assumes "i < length (threads s)" "\<And>t. home (g t) = home t \<and> id_of (g t) = id_of t"
  shows "st (publish me i nm spc g s) i = Runnable" "home (thr (publish me i nm spc g s) i) = -1"
    "id_of (thr (publish me i nm spc g s) i) = next_id s" "next_id (publish me i nm spc g s) = next_id s + 1"
  using assms(1) by (simp_all add: publish_def thr_on_thread assms(2)) (simp_all add: slot_init_def thr_on_thread)

lemma publish_filled:
  assumes "sched_inv0 L s" "i < n_threads s" "st s i = Free"
  shows "filled i s (publish me i nm spc g s)"
proof -
  have "i < length (threads s)" using assms(2) sched_inv0D(3) [OF assms(1)] by simp
  then show ?thesis unfolding publish_def by (intro filled_upd filled_slot_init filled_self [OF assms]) simp_all
qed

lemma publish_good:
  assumes "sched_good s" "i < n_threads s" "st s i = Free" "\<And>t. home (g t) = home t \<and> id_of (g t) = id_of t"
  shows "sched_good (publish me i nm spc g s)"
proof -
  have l: "i < length (threads s)" using assms(2) sched_inv0D(3) [OF sched_goodD(1) [OF assms(1)]] by simp
  show ?thesis
    by (rule filled_good [OF assms(1) publish_filled [OF sched_goodD(1) [OF assms(1)] assms(2, 3)]])
      (simp add: publish_own [OF l assms(4)])
qed

lemma give_up_same:
  assumes "st s i = Free"
  shows "on_thread i (\<lambda>t. t\<lparr>tstate := Free\<rparr>) s = s"
proof -
  have "(thr s i)\<lparr>tstate := Free\<rparr> = thr s i" using assms by (cases "thr s i") simp
  then show ?thesis by (simp add: on_thread_def)
qed

lemma sched_step_good: "sched_step a s s' \<Longrightarrow> orderly a s \<Longrightarrow> sched_good s \<Longrightarrow> sched_good s'"
proof (induction rule: sched_step.induct)
  case (tick s me now w)
  then show ?case using schedule_good by (auto simp: schedule_def)
next
  case (block_console me s now w)
  then show ?case unfolding thread_block_on_console_def by (auto simp: working_def intro!: block_with_good)
next
  case (block_pipe me s ob now w)
  then show ?case unfolding thread_block_on_pipe_def by (auto simp: working_def intro!: block_with_good)
next
  case (block_until me s ob ticks then' now w)
  then show ?case unfolding thread_block_on_pipe_until_def by (auto simp: working_def intro!: block_with_good)
next
  case (wake_pipe s ob)
  then show ?case unfolding thread_wake_pipe_def by (intro each_thread_good) auto
next
  case (wake_console s)
  then show ?case unfolding thread_wake_console_def by (intro each_thread_good) auto
next
  case (signal s pid sig)
  then show ?case by (simp add: thread_signal_def) (rule each_thread_good, auto)
next
  case (setpgid s me pid pg)
  then show ?case
    by (auto simp: thread_setpgid_def slot_of_pid_def Let_def split: option.split dest!: find_slot_bound intro!: on_thread_good)
next
  case (own_fields s me c f)
  then show ?case using sched_inv0D(4) [OF sched_goodD(1)] by (intro on_thread_good) auto
next
  case (memory s p)
  then show ?case by (intro pages_good)
next
  case (take_slot s)
  then show ?case by (intro alloc_slot_good)
next
  case (fill_slot i s g me nm spc)
  then show ?case by (intro publish_good) auto
next
  case (give_up_slot i s)
  then show ?case using give_up_same by simp
next
  case (exit_zombie me s x)
  then show ?case by (auto simp: working_def intro!: become_zombie_good)
next
  case (exit_wake s me)
  then show ?case by (auto simp: wake_parent_def split: option.split if_splits intro!: each_thread_good)
next
  case (reap me s t)
  show ?case
  proof (cases "zombie_child (id_of t) s")
    case (Some i)
    then have "i < n_threads s" "st s i = Zombie" by (auto simp: zombie_child_def dest!: find_slot_bound)
    then show ?thesis using release_slot_good [OF reap.prems(2)] reap Some by (simp add: thread_reap_def)
  next
    case None
    then show ?thesis using reap by (simp add: thread_reap_def)
  qed
next
  case (wait me s c now w)
  have c: "curof s me = Some c" "idleof s me \<noteq> Some c" using wait by (auto simp: working_def)
  have good: "sched_good s" by (rule wait.prems)
  show ?case
  proof (cases "zombie_child (id_of (thr s c)) s")
    case (Some i)
    then have "i < n_threads s" "st s i = Zombie" by (auto simp: zombie_child_def dest!: find_slot_bound)
    then show ?thesis using release_slot_good [OF good] wait.prems(1) Some c by (simp add: thread_wait_turn_def)
  next
    case None
    let ?f = "\<lambda>t. t\<lparr>wait_reason := WaitChild, tstate := Blocked\<rparr>"
    have b: "sched_inv0 {me} (on_thread c ?f s)" "ids_ok (on_thread c ?f s)" using leave_running [OF good c, of ?f] by simp_all
    then have "sched_good (schedule_locked me now w (on_thread c ?f s))"
      using schedule_locked_inv(1) [OF b(1), of c] schedule_locked_ids [OF b] c by (simp add: sched_good_def)
    then show ?thesis using None c good by (simp add: thread_wait_turn_def)
  qed
next
  case (cpu_up s me nm)
  then show ?case by (intro sched_cpu_init_good)
qed

lemma orderly_step_good: "orderly_step s s' \<Longrightarrow> sched_good s \<Longrightarrow> sched_good s'"
  unfolding orderly_step_def using sched_step_good by blast

lemma orderly_steps_good: "orderly_step\<^sup>*\<^sup>* s s' \<Longrightarrow> sched_good s \<Longrightarrow> sched_good s'"
  by (induction rule: rtranclp_induct) (auto intro: orderly_step_good)

lemma orderly_moves: "sched_step Moves s s' \<Longrightarrow> orderly_step s s'"
  unfolding orderly_step_def by (rule exI [of _ Moves]) simp

text \<open>A creation that nothing interrupts is a run of these steps.\<close>

lemma creation_steps:
  assumes good: "sched_good s" and a: "alloc_slot s = (r, s1)"
  shows "orderly_step\<^sup>*\<^sup>* s s1"
    and "r = Some i \<Longrightarrow> orderly_step\<^sup>*\<^sup>* s (on_thread i (\<lambda>t. t\<lparr>tstate := Free\<rparr>) (s1\<lparr>pages := q\<rparr>))"
    and "r = Some i \<Longrightarrow> (\<And>t. home (g t) = home t \<and> id_of (g t) = id_of t) \<Longrightarrow> orderly_step\<^sup>*\<^sup>* s (publish me i nm spc g (s1\<lparr>pages := q\<rparr>))"
proof -
  note D = sched_inv0D(1, 2) [OF sched_goodD(1) [OF good]]
  have take: "orderly_step s s1" using orderly_moves [OF sched_step.take_slot, of s] a by simp
  then show "orderly_step\<^sup>*\<^sup>* s s1" by (rule r_into_rtranclp)
  have m: "orderly_step\<^sup>*\<^sup>* s (s1\<lparr>pages := q\<rparr>)"
    using take orderly_moves [OF sched_step.memory] by (meson r_into_rtranclp rtranclp.rtrancl_into_rtrancl)
  show "orderly_step\<^sup>*\<^sup>* s (on_thread i (\<lambda>t. t\<lparr>tstate := Free\<rparr>) (s1\<lparr>pages := q\<rparr>))" if "r = Some i"
    using m give_up_same [of "s1\<lparr>pages := q\<rparr>" i] alloc_slot_filled(2) [OF D a [unfolded that]] by simp
  show "orderly_step\<^sup>*\<^sup>* s (publish me i nm spc g (s1\<lparr>pages := q\<rparr>))" if "r = Some i" "\<And>t. home (g t) = home t \<and> id_of (g t) = id_of t"
  proof -
    have "i < n_threads s1" "st s1 i = Free" using alloc_slot_filled(1, 2) [OF D a [unfolded that(1)]] by (simp_all add: filled_def)
    then have "orderly_step (s1\<lparr>pages := q\<rparr>) (publish me i nm spc g (s1\<lparr>pages := q\<rparr>))"
      unfolding orderly_step_def using that(2) by (intro exI [of _ "Fills i"] conjI sched_step.fill_slot) simp_all
    with m show ?thesis by (rule rtranclp.rtrancl_into_rtrancl)
  qed
qed

lemma thread_create_steps:
  assumes "sched_good s"
  shows "orderly_step\<^sup>*\<^sup>* s (snd (thread_create me nm fn arg ep s))"
proof (cases "alloc_slot s")
  case (Pair r s1)
  obtain stack p where p: "alloc_pages (pages s1) STACK_PAGES = (stack, p)" by fastforce
  note C = creation_steps [OF assms Pair]
  show ?thesis
  proof (cases r)
    case (Some i)
    define fr where "fr = stack + ucast STACK_PAGES * PAGE_SIZE - 96"
    define q where "q = p\<lparr>pm := switch_frame fr [(0, fn), (1, arg), (11, ep)] ((pm p)(stack := STACK_CANARY))\<rparr>"
    have "stack \<noteq> 0 \<Longrightarrow> snd (thread_create me nm fn arg ep s) = publish me i nm 0 (\<lambda>t. t\<lparr>stack_low := stack, sp := fr\<rparr>) (s1\<lparr>pages := q\<rparr>)"
      using Pair Some p by (simp add: thread_create_def Let_def publish_def slot_init_def on_thread_def current_def fr_def q_def)
    then show ?thesis using C(2, 3) [OF Some] Pair Some p by (cases "stack = 0") (simp_all add: thread_create_def)
  qed (use C(1) Pair in \<open>simp add: thread_create_def\<close>)
qed

section \<open>Properties\<close>


text \<open>A scheduling decision always ends on a thread that runs: the processor's idle thread is there when nothing else
  is, and the decision itself keeps every invariant of the table.\<close>

lemma schedule_runs_someone:
  assumes "sched_good s" "started s" "curof s me = Some c"
  shows "sched_good (schedule me now w s) \<and>
         (\<exists>nxt. curof (schedule me now w s) me = Some nxt \<and> st (schedule me now w s) nxt = Running)"
  using schedule_good [OF assms(1, 3)] schedule_locked_inv(2) [OF sched_goodD(3) [OF assms(1)] assms(3)] assms(2)
  by (simp add: schedule_def)

text \<open>Between \<open>s\<close> and \<open>s'\<close> every slot in use has kept its id or was given one the counter had not reached.\<close>

definition carried :: "sched \<Rightarrow> sched \<Rightarrow> bool" where
  "carried s s' \<longleftrightarrow> next_id s \<le> next_id s' \<and>
     (\<forall>i < n_threads s'. st s' i \<noteq> Free \<longrightarrow>
        next_id s \<le> id_of (thr s' i) \<or> (i < n_threads s \<and> st s i \<noteq> Free \<and> id_of (thr s' i) = id_of (thr s i)))"

lemma carried_refl [simp]: "carried s s"
  by (simp add: carried_def)

lemma carried_trans:
  assumes "carried s s1" "carried s1 s2"
  shows "carried s s2"
  unfolding carried_def
proof (intro conjI allI impI)
  have n: "next_id s \<le> next_id s1" "next_id s1 \<le> next_id s2" using assms unfolding carried_def by blast+
  then show "next_id s \<le> next_id s2" by simp
  fix i
  assume i: "i < n_threads s2" "st s2 i \<noteq> Free"
  then consider "next_id s1 \<le> id_of (thr s2 i)" | "i < n_threads s1" "st s1 i \<noteq> Free" "id_of (thr s2 i) = id_of (thr s1 i)"
    using assms(2) unfolding carried_def by blast
  then show "next_id s \<le> id_of (thr s2 i) \<or> (i < n_threads s \<and> st s i \<noteq> Free \<and> id_of (thr s2 i) = id_of (thr s i))"
  proof cases
    case 1
    then show ?thesis by (intro disjI1 order_trans [OF n(1)])
  next
    case 2
    then show ?thesis using assms(1) unfolding carried_def 2(3) by blast
  qed
qed

lemma carried_keep:
  assumes "n_threads s' = n_threads s" "next_id s' = next_id s"
    "\<And>i. i < n_threads s \<Longrightarrow> st s' i \<noteq> Free \<Longrightarrow> st s i \<noteq> Free \<and> id_of (thr s' i) = id_of (thr s i)"
  shows "carried s s'"
  using assms by (auto simp: carried_def)

lemma carried_each:
  assumes "sched_good s" "\<And>t. id_of (f t) = id_of t" "\<And>t. tstate t = Free \<Longrightarrow> tstate (f t) = Free"
  shows "carried s (each_thread f s)"
  using assms sched_inv0D(3) [OF sched_goodD(1) [OF assms(1)]] by (intro carried_keep) (auto simp: thr_each_thread)

lemma carried_on_thread:
  assumes "id_of (f (thr s i)) = id_of (thr s i)" "st s i = Free \<Longrightarrow> tstate (f (thr s i)) = Free"
  shows "carried s (on_thread i f s)"
proof (cases "i < length (threads s)")
  case True
  show ?thesis by (rule carried_keep) (use assms in \<open>auto simp: thr_on_thread [OF True] split: if_splits\<close>)
next
  case False
  then have "on_thread i f s = s" by (simp add: on_thread_def list_update_beyond)
  then show ?thesis by simp
qed

lemma carried_release: "carried s (release_slot i s)"
proof (cases "i < length (threads s)")
  case True
  have "st s j \<noteq> Free \<and> id_of (thr (release_slot i s) j) = id_of (thr s j)" if "st (release_slot i s) j \<noteq> Free" for j
    using that thr_release_slot [OF True] by (cases "j = i") auto
  then show ?thesis by (intro carried_keep) simp_all
next
  case False
  then have "threads (release_slot i s) = threads s" by (simp add: release_slot_def Let_def on_thread_def list_update_beyond)
  then show ?thesis by (intro carried_keep) simp_all
qed

lemma carried_schedule_locked: "sched_inv0 {me} s \<Longrightarrow> carried s (schedule_locked me now w s)"
  by (rule carried_keep) (simp_all add: schedule_locked_keeps)

lemma carried_block_with:
  assumes "sched_good s" "curof s me = Some c" "idleof s me \<noteq> Some c" "\<And>t. home (f t) = home t \<and> id_of (f t) = id_of t"
  shows "carried s (block_with f me now w s)"
proof -
  let ?f = "\<lambda>t. (f t)\<lparr>tstate := Blocked\<rparr>"
  have "sched_inv0 {me} (on_thread c ?f s)" using leave_running(1) [OF assms(1-3), of ?f] assms(4) by simp
  moreover have "carried s (on_thread c ?f s)"
    using assms sched_inv0D(5) [OF sched_goodD(1)] by (intro carried_on_thread) auto
  ultimately have "carried s (schedule_locked me now w (on_thread c ?f s))"
    using carried_trans carried_schedule_locked by blast
  then show ?thesis using assms(2) by (simp add: block_with_def)
qed

lemma carried_filled:
  assumes "filled i s s'" "st s' i = Free \<or> next_id s \<le> id_of (thr s' i)" "next_id s \<le> next_id s'"
  shows "carried s s'"
  unfolding carried_def
proof (intro conjI allI impI)
  fix j
  assume j: "j < n_threads s'" "st s' j \<noteq> Free"
  show "next_id s \<le> id_of (thr s' j) \<or> (j < n_threads s \<and> st s j \<noteq> Free \<and> id_of (thr s' j) = id_of (thr s j))"
    using assms(1, 2) j by (cases "j = i") (simp_all add: filled_def)
qed (fact assms(3))

lemma sched_step_carried: "sched_step a s s' \<Longrightarrow> orderly a s \<Longrightarrow> sched_good s \<Longrightarrow> carried s s'"
proof (induction rule: sched_step.induct)
  case (tick s me now w)
  then show ?case using carried_schedule_locked sched_goodD(3) by (simp add: schedule_def)
next
  case (block_console me s now w)
  then show ?case unfolding thread_block_on_console_def by (auto simp: working_def intro!: carried_block_with)
next
  case (block_pipe me s ob now w)
  then show ?case unfolding thread_block_on_pipe_def by (auto simp: working_def intro!: carried_block_with)
next
  case (block_until me s ob ticks then' now w)
  then show ?case unfolding thread_block_on_pipe_until_def by (auto simp: working_def intro!: carried_block_with)
next
  case (wake_pipe s ob)
  then show ?case unfolding thread_wake_pipe_def by (intro carried_each) auto
next
  case (wake_console s)
  then show ?case unfolding thread_wake_console_def by (intro carried_each) auto
next
  case (signal s pid sig)
  then show ?case unfolding thread_signal_def snd_conv by (intro carried_each) auto
next
  case (setpgid s me pid pg)
  then show ?case by (cases "slot_of_pid me pid s") (auto simp: thread_setpgid_def Let_def intro: carried_on_thread)
next
  case (own_fields s me c f)
  then show ?case by (intro carried_on_thread) simp_all
next
  case (memory s p)
  then show ?case by (intro carried_keep) simp_all
next
  case (take_slot s)
  note D = sched_inv0D(1, 2) [OF sched_goodD(1) [OF take_slot.prems(2)]]
  show ?case
  proof (cases "alloc_slot s")
    case (Pair r s1)
    then show ?thesis using alloc_slot_none [of s s1] alloc_slot_filled [OF D] by (cases r) (auto intro: carried_filled)
  qed
next
  case (fill_slot i s g me nm spc)
  note inv = sched_goodD(1) [OF fill_slot.prems(2)]
  have "i < length (threads s)" using fill_slot.hyps(1) sched_inv0D(3) [OF inv] by simp
  then show ?case using publish_filled [OF inv fill_slot.hyps(1)] publish_own [of i s g] fill_slot by (intro carried_filled) auto
next
  case (give_up_slot i s)
  then show ?case using give_up_same by simp
next
  case (exit_zombie me s x)
  then show ?case using sched_inv0D(5) [OF sched_goodD(1)]
    by (auto simp: working_def become_zombie_def intro!: carried_on_thread)
next
  case (exit_wake s me)
  then show ?case by (cases "current me s") (auto simp: wake_parent_def intro!: carried_each)
next
  case (reap me s t)
  then show ?case by (cases "zombie_child (id_of t) s") (simp_all add: thread_reap_def carried_release)
next
  case (wait me s c now w)
  let ?f = "\<lambda>t. t\<lparr>wait_reason := WaitChild, tstate := Blocked\<rparr>"
  have c: "curof s me = Some c" "idleof s me \<noteq> Some c" using wait by (auto simp: working_def)
  have "sched_inv0 {me} (on_thread c ?f s)" using leave_running(1) [OF wait.prems(2) c, of ?f] by simp
  moreover have "carried s (on_thread c ?f s)" using wait.hyps(2) by (intro carried_on_thread) auto
  ultimately have "carried s (schedule_locked me now w (on_thread c ?f s))" using carried_trans carried_schedule_locked by blast
  then show ?case using c by (simp add: thread_wait_turn_def carried_release split: option.split)
next
  case (cpu_up s me nm)
  note D = sched_inv0D(1, 2) [OF sched_goodD(1) [OF cpu_up.prems(2)]]
  show ?case
  proof (cases "alloc_slot s")
    case (Pair r s1)
    show ?thesis
    proof (cases r)
      case None
      then show ?thesis using Pair alloc_slot_none [of s s1] by (simp add: sched_cpu_init_def)
    next
      case (Some i)
      note A = alloc_slot_filled [OF D Pair [unfolded Some]]
      let ?f = "\<lambda>t. t\<lparr>parent := -1, home := int me, tstate := Running\<rparr>"
      have f: "filled i s (on_thread i ?f (slot_init me i nm 0 s1))"
        by (intro filled_upd filled_slot_init A) (simp add: A(4))
      have "carried s (on_thread i ?f (slot_init me i nm 0 s1))"
        by (rule carried_filled [OF f]) (use A(3, 4) in \<open>simp_all add: thr_on_thread, simp add: slot_init_def thr_on_thread\<close>)
      then show ?thesis using Pair Some by (simp add: sched_cpu_init_def carried_def)
    qed
  qed
qed

lemma orderly_steps_carried: "orderly_step\<^sup>*\<^sup>* s s' \<Longrightarrow> sched_good s \<Longrightarrow> carried s s'"
proof (induction rule: rtranclp_induct)
  case (step y z)
  then have "carried y z" using orderly_steps_good sched_step_carried unfolding orderly_step_def by blast
  then show ?case using carried_trans step by blast
qed simp


text \<open>A small machine: processor 0 with its idle thread and one process that is running.\<close>

definition demo_thread :: "int \<Rightarrow> tstate \<Rightarrow> int \<Rightarrow> int \<Rightarrow> thread" where
  "demo_thread i t h p = \<lparr>sp = 0, stack_low = 0, id_of = i, tstate = t, tname = [], slices = 0, space = 0, user_table = 0,
     parent = p, status = 0, wait_reason = NoReason, last_cpu = -1, ran_on = 0, home = h, pgid = 0, pending = 0,
     wait_object = NoObject, wake_at = 0, blocked = 0, sigacts = replicate 32 no_sigact, fds = replicate 8 None,
     sav = \<lparr>sav_present = False, sav_calls = [], sav_caps = []\<rparr>\<rparr>"

definition demo_sched :: sched where
  "demo_sched = \<lparr>threads = [demo_thread 0 Running (-1) (-1), demo_thread 1 Runnable 0 0, demo_thread 2 Zombie (-1) 0] @
       replicate 21 (demo_thread (-1) Free (-1) (-1)),
     n_threads = 3, next_id = 3,
     cpus = (\<lambda>m. if m = 0 then \<lparr>cur = Some 0, idle = Some 1, user_table_kva = 0, ttbr0 = 0\<rparr>
                 else \<lparr>cur = None, idle = None, user_table_kva = 0, ttbr0 = 0\<rparr>),
     switches = 0, started = True, pages = pmm_statics (\<lambda>_. 0)\<rparr>"

lemma less3: "(i :: nat) < 3 \<longleftrightarrow> i = 0 \<or> i = 1 \<or> i = 2"
  by auto

lemma demo_sched_good: "sched_good demo_sched"
  by (simp add: sched_good_def sched_inv_def sched_inv0_def ids_ok_def demo_sched_def demo_thread_def MAX_THREADS_def less3 all_conj_distrib)

text \<open>A run on it: a slot is taken, filled and published, a second processor comes up, and its first decision is to run the new
  thread.\<close>

definition demo_taken :: sched where "demo_taken = snd (alloc_slot demo_sched)"
definition demo_new :: sched where "demo_new = publish 0 3 [] 0 (\<lambda>t. t\<lparr>sp := 4096\<rparr>) demo_taken"
definition demo_up :: sched where "demo_up = sched_cpu_init 1 [] demo_new"
definition demo_both :: sched where "demo_both = schedule 1 5 0 demo_up"

text \<open>What two processors are on and go back to, the counter, and the state and the id of every slot in use.\<close>

definition glance :: "sched \<Rightarrow> nat option list \<times> nat option list \<times> int \<times> (tstate \<times> int) list" where
  "glance s = ([curof s 0, curof s 1], [idleof s 0, idleof s 1], next_id s, map (\<lambda>t. (tstate t, id_of t)) (take (n_threads s) (threads s)))"

lemma glanceD:
  assumes "glance s = ([a, b], [c, d], n, ts)"
  shows "curof s 0 = a" "curof s 1 = b" "idleof s 0 = c" "idleof s 1 = d" "next_id s = n"
    "i < length ts \<Longrightarrow> i < n_threads s" "i < length ts \<Longrightarrow> st s i = fst (ts ! i)" "i < length ts \<Longrightarrow> id_of (thr s i) = snd (ts ! i)"
  using assms by (auto simp: glance_def)

lemma demo_glance:
  "glance demo_taken = ([Some 0, None], [Some 1, None], 3, [(Running, 0), (Runnable, 1), (Zombie, 2), (Free, - 1)])"
  "glance demo_new = ([Some 0, None], [Some 1, None], 4, [(Running, 0), (Runnable, 1), (Zombie, 2), (Runnable, 3)])"
  "glance demo_up = ([Some 0, Some 4], [Some 1, Some 4], 5, [(Running, 0), (Runnable, 1), (Zombie, 2), (Runnable, 3), (Running, 4)])"
  "glance demo_both = ([Some 0, Some 3], [Some 1, Some 4], 5, [(Running, 0), (Runnable, 1), (Zombie, 2), (Running, 3), (Runnable, 4)])"
  by code_simp+

lemma demo_run:
  "3 < n_threads demo_taken" "st demo_taken 3 = Free" "curof demo_new 1 = None" "idleof demo_new 1 = None" "curof demo_up 1 \<noteq> None"
  "curof demo_both 0 = Some 0" "curof demo_both 1 = Some 3" "st demo_both 3 = Running" "3 < n_threads demo_both" "next_id demo_both = 5"
  "id_of (thr demo_both 3) = 3" "id_of (thr demo_both 2) = 2"
  using demo_glance [THEN glanceD(2)] demo_glance [THEN glanceD(4)] glanceD(1, 5) [OF demo_glance(4)]
    glanceD(6, 7) [OF demo_glance(1), of 3] glanceD(6-8) [OF demo_glance(4), of 3] glanceD(8) [OF demo_glance(4), of 2]
  by simp_all

lemma demo_both_steps: "orderly_step\<^sup>*\<^sup>* demo_sched demo_both"
proof -
  have "orderly_step demo_sched demo_taken" unfolding demo_taken_def by (rule orderly_moves [OF sched_step.take_slot])
  also have "orderly_step\<^sup>*\<^sup>* demo_taken demo_new"
  proof (rule r_into_rtranclp, unfold orderly_step_def, intro exI conjI)
    show "sched_step (Fills 3) demo_taken demo_new"
      unfolding demo_new_def by (rule sched_step.fill_slot) (use demo_run in simp_all)
    show "orderly (Fills 3) demo_taken" by (use demo_run in simp)
  qed
  also have "orderly_step\<^sup>*\<^sup>* demo_new demo_up"
    unfolding demo_up_def by (intro r_into_rtranclp orderly_moves sched_step.cpu_up) (use demo_run in simp_all)
  also have "orderly_step\<^sup>*\<^sup>* demo_up demo_both"
    unfolding demo_both_def by (intro r_into_rtranclp orderly_moves sched_step.tick) (rule demo_run)
  finally show ?thesis .
qed



text \<open>A finished thread.\<close>

definition gone :: "nat \<Rightarrow> sched \<Rightarrow> bool" where
  "gone i s \<longleftrightarrow> i < n_threads s \<and> st s i = Zombie \<and> (\<forall>m. curof s m \<noteq> Some i)"

lemma gone_each:
  "gone i s \<Longrightarrow> n_threads s \<le> length (threads s) \<Longrightarrow> (\<And>t. tstate t = Zombie \<Longrightarrow> tstate (f t) = Zombie) \<Longrightarrow> gone i (each_thread f s)"
  by (simp add: gone_def thr_each_thread)

lemma gone_each_good:
  "sched_good s \<Longrightarrow> gone i s \<Longrightarrow> (\<And>t. tstate t = Zombie \<Longrightarrow> tstate (f t) = Zombie) \<Longrightarrow> gone i (each_thread f s)"
  using gone_each sched_inv0D(3) sched_goodD(1) by blast

lemma gone_on_thread: "gone i s \<Longrightarrow> (k = i \<Longrightarrow> tstate (f (thr s i)) = Zombie) \<Longrightarrow> gone i (on_thread k f s)"
  by (cases "k < length (threads s)") (auto simp: gone_def thr_on_thread, simp add: on_thread_def list_update_beyond)

lemma gone_schedule_locked:
  assumes "sched_inv0 {me} s" "gone i s"
  shows "gone i (schedule_locked me now w s)"
proof (rule schedule_locked_cases [OF assms(1)])
  let ?s = "each_thread (wake_expired now) s"
  have g: "gone i ?s" by (rule gone_each [OF assms(2) sched_inv0D(3) [OF assms(1)]]) (simp add: wake_expired_def)
  show "gone i (schedule_locked me now w s)" if "schedule_locked me now w s = ?s" using g that by simp
  fix prev nxt
  assume a: "prev < n_threads s" "nxt < n_threads s" "nxt \<noteq> prev" "st ?s nxt = Runnable" "schedule_locked me now w s = switch_to me w prev nxt ?s"
  then have "prev < length (threads ?s)" "nxt < length (threads ?s)" using sched_inv0D(3) [OF assms(1)] by simp_all
  note F = switch_to_facts [OF this a(3)]
  show "gone i (schedule_locked me now w s)" using g a F by (auto simp: gone_def)
qed

lemma gone_block_with:
  assumes "sched_good s" "curof s me = Some c" "idleof s me \<noteq> Some c" "gone i s" "\<And>t. home (f t) = home t \<and> id_of (f t) = id_of t"
  shows "gone i (block_with f me now w s)"
proof -
  have l: "c < length (threads s)" using sched_inv0D(3, 4) [OF sched_goodD(1) [OF assms(1)]] assms(2) by fastforce
  have "sched_inv0 {me} (on_thread c (\<lambda>t. (f t)\<lparr>tstate := Blocked\<rparr>) s)"
    using leave_running(1) [OF assms(1, 2, 3), of "\<lambda>t. (f t)\<lparr>tstate := Blocked\<rparr>"] assms(5) by simp
  moreover have "gone i (on_thread c (\<lambda>t. (f t)\<lparr>tstate := Blocked\<rparr>) s)"
    using assms(2, 4) by (auto simp: gone_def thr_on_thread [OF l])
  ultimately show ?thesis using gone_schedule_locked assms(2, 4) by (auto simp: block_with_def)
qed

lemma gone_filled: "gone i s \<Longrightarrow> filled k s s' \<Longrightarrow> gone i s'"
  unfolding gone_def filled_def by (metis less_le_trans tstate.distinct(11))

lemma sched_step_gone: "sched_step a s s' \<Longrightarrow> orderly a s \<Longrightarrow> sched_good s \<Longrightarrow> gone i s \<Longrightarrow> gone i s' \<or> st s' i = Free"
proof (induction rule: sched_step.induct)
  case (tick s me now w)
  then show ?case using gone_schedule_locked sched_goodD(3) by (simp add: schedule_def)
next
  case (block_console me s now w)
  then show ?case unfolding thread_block_on_console_def by (auto simp: working_def intro!: gone_block_with)
next
  case (block_pipe me s ob now w)
  then show ?case unfolding thread_block_on_pipe_def by (auto simp: working_def intro!: gone_block_with)
next
  case (block_until me s ob ticks then' now w)
  then show ?case unfolding thread_block_on_pipe_until_def by (auto simp: working_def intro!: gone_block_with)
next
  case (wake_pipe s ob)
  then show ?case unfolding thread_wake_pipe_def by (intro disjI1 gone_each_good) auto
next
  case (wake_console s)
  then show ?case unfolding thread_wake_console_def by (intro disjI1 gone_each_good) auto
next
  case (signal s pid sig)
  then show ?case unfolding thread_signal_def snd_conv by (intro disjI1 gone_each_good) (auto simp: sig_target_def)
next
  case (setpgid s me pid pg)
  then show ?case by (cases "slot_of_pid me pid s") (simp_all add: thread_setpgid_def Let_def gone_on_thread gone_def [of i s])
next
  case (own_fields s me c f)
  then show ?case by (intro disjI1 gone_on_thread) (auto simp: gone_def)
next
  case (memory s p)
  then show ?case by (simp add: gone_def)
next
  case (take_slot s)
  note D = sched_inv0D(1, 2) [OF sched_goodD(1) [OF take_slot.prems(2)]]
  show ?case
  proof (cases "alloc_slot s")
    case (Pair r s1)
    then show ?thesis using alloc_slot_none [of s s1] alloc_slot_filled(1) [OF D] gone_filled take_slot.prems(3) by (cases r) auto
  qed
next
  case (fill_slot k s g me nm spc)
  then show ?case using gone_filled [OF _ publish_filled [OF sched_goodD(1)]] by auto
next
  case (give_up_slot k s)
  then show ?case using give_up_same by simp
next
  case (exit_zombie me s x)
  then show ?case by (auto simp: working_def become_zombie_def intro!: gone_on_thread)
next
  case (exit_wake s me)
  then show ?case by (cases "current me s") (auto simp: wake_parent_def intro!: gone_each_good)
next
  case (reap me s t)
  have l: "n_threads s \<le> length (threads s)" by (rule sched_inv0D(3) [OF sched_goodD(1) [OF reap.prems(2)]])
  have "gone i (release_slot k s) \<or> st (release_slot k s) i = Free" if "k < n_threads s" for k
    using reap.prems(3) thr_release_slot [of k s] l that by (cases "i = k") (auto simp: gone_def)
  then show ?case using reap.prems(3) reap.hyps
    by (auto simp: thread_reap_def zombie_child_def split: option.split dest!: find_slot_bound)
next
  case (wait me s c now w)
  have good: "sched_good s" by (rule wait.prems(2))
  have c: "curof s me = Some c" "idleof s me \<noteq> Some c" using wait by (auto simp: working_def)
  have l: "n_threads s \<le> length (threads s)" by (rule sched_inv0D(3) [OF sched_goodD(1) [OF good]])
  have rel: "gone i (release_slot k s) \<or> st (release_slot k s) i = Free" if "k < n_threads s" for k
    using wait.prems(3) thr_release_slot [of k s] l that by (cases "i = k") (auto simp: gone_def)
  let ?f = "\<lambda>t. t\<lparr>wait_reason := WaitChild, tstate := Blocked\<rparr>"
  have b: "sched_inv0 {me} (on_thread c ?f s)" using leave_running(1) [OF good c, of ?f] by simp
  have "c < length (threads s)" using sched_inv0D(4) [OF sched_goodD(1) [OF good] c(1)] l by simp
  then have "gone i (on_thread c ?f s)" using wait.prems(3) c(1) by (auto simp: gone_def thr_on_thread)
  then have "gone i (schedule_locked me now w (on_thread c ?f s))" by (rule gone_schedule_locked [OF b])
  then show ?case using rel wait.prems(3) c
    by (auto simp: thread_wait_turn_def zombie_child_def split: option.split dest!: find_slot_bound)
next
  case (cpu_up s me nm)
  obtain r s1 where a: "alloc_slot s = (r, s1)" by fastforce
  show ?case
  proof (cases r)
    case None
    then have "s1 = s" using a by (auto simp: alloc_slot_def split: list.splits if_splits)
    then show ?thesis using None a cpu_up.prems(3) by (simp add: sched_cpu_init_def)
  next
    case (Some k)
    note A = alloc_slot_filled [OF sched_inv0D(1, 2) [OF sched_goodD(1) [OF cpu_up.prems(2)]] a [unfolded Some]]
    have "i \<noteq> k" using A(1) cpu_up.prems(3) by (auto simp: filled_def gone_def)
    then show ?thesis using gone_filled [OF cpu_up.prems(3) A(1)] Some a A(4)
      by (auto simp: sched_cpu_init_def gone_def cpus_on_cpu thr_on_thread thr_slot_init)
  qed
qed

text \<open>C24: a thread that has exited and left its processor is never run again: every later orderly step of the machine leaves it a
  zombie or gives its slot back.\<close>

theorem zombie_stays_off:
  assumes "sched_good s" "gone i s" "orderly_step s s'"
  shows "gone i s' \<or> st s' i = Free"
  using assms(3, 1, 2) by (auto simp: orderly_step_def dest: sched_step_gone)

theorem zombie_stays_off_witness: "gone 2 (schedule 0 5 0 demo_sched) \<or> st (schedule 0 5 0 demo_sched) 2 = Free"
proof -
  have "gone 2 demo_sched" by (simp add: gone_def demo_sched_def demo_thread_def)
  moreover have "orderly_step demo_sched (schedule 0 5 0 demo_sched)" by (intro orderly_moves sched_step.tick) (simp add: demo_sched_def)
  ultimately show ?thesis by (rule zombie_stays_off [OF demo_sched_good])
qed

lemma switch_to_sleep:
  assumes "prev < length (threads s)" "nxt < length (threads s)" "nxt \<noteq> prev"
  shows "wake_at (thr (switch_to me w prev nxt s) i) = wake_at (thr s i)"
  using assms by (simp add: switch_to_def Let_def thr_on_thread cpus_on_cpu)

lemma schedule_locked_sleeper:
  assumes "sched_inv0 {me} s" "i < n_threads s" "st s i = Blocked"
  shows "if wake_at (thr s i) \<noteq> 0 \<and> wake_at (thr s i) \<le> now
         then (st (schedule_locked me now w s) i = Runnable \<or> st (schedule_locked me now w s) i = Running) \<and>
              wake_at (thr (schedule_locked me now w s) i) = 0
         else st (schedule_locked me now w s) i = Blocked \<and> wake_at (thr (schedule_locked me now w s) i) = wake_at (thr s i)"
proof (rule schedule_locked_cases [OF assms(1)])
  let ?s = "each_thread (wake_expired now) s"
  have e: "thr ?s i = wake_expired now (thr s i)" using assms(2) sched_inv0D(3) [OF assms(1)] by (simp add: thr_each_thread)
  show ?thesis if "schedule_locked me now w s = ?s" using that e assms(3) by (simp add: wake_expired_def)
  fix prev nxt
  assume a: "prev < n_threads s" "nxt < n_threads s" "nxt \<noteq> prev" "st ?s nxt = Runnable" "schedule_locked me now w s = switch_to me w prev nxt ?s"
  then have l: "prev < length (threads ?s)" "nxt < length (threads ?s)" using sched_inv0D(3) [OF assms(1)] by simp_all
  show ?thesis using a(4) e assms(3) by (auto simp: a(5) switch_to_facts(6) [OF l a(3)] switch_to_sleep [OF l a(3)] wake_expired_def split: if_splits)
qed

text \<open>C33: a thread asleep with a deadline is woken by the first scheduling decision at or after it, on whatever processor: it is then
  ready to run or already running and its deadline is cleared; a thread asleep without a deadline, or before it, stays asleep. Waking a
  pipe makes every thread asleep on it ready to run and touches no other.\<close>

theorem sleepers_wake:
  assumes "sched_good s" "curof s me = Some c"
  shows "(\<forall>i < n_threads s. st s i = Blocked \<longrightarrow>
            (if wake_at (thr s i) \<noteq> 0 \<and> wake_at (thr s i) \<le> now
             then (st (schedule_locked me now w s) i = Runnable \<or> st (schedule_locked me now w s) i = Running) \<and>
                  wake_at (thr (schedule_locked me now w s) i) = 0
             else st (schedule_locked me now w s) i = Blocked \<and> wake_at (thr (schedule_locked me now w s) i) = wake_at (thr s i))) \<and>
         (\<forall>i < n_threads s. let t = thr s i; t' = thr (thread_wake_pipe ob s) i in
            if tstate t = Blocked \<and> wait_reason t = WaitPipe \<and> wait_object t = ob then tstate t' = Runnable else t' = t)"
proof (intro conjI allI impI)
  fix i
  assume i: "i < n_threads s" "st s i = Blocked"
  show "if wake_at (thr s i) \<noteq> 0 \<and> wake_at (thr s i) \<le> now
        then (st (schedule_locked me now w s) i = Runnable \<or> st (schedule_locked me now w s) i = Running) \<and>
             wake_at (thr (schedule_locked me now w s) i) = 0
        else st (schedule_locked me now w s) i = Blocked \<and> wake_at (thr (schedule_locked me now w s) i) = wake_at (thr s i)"
    by (rule schedule_locked_sleeper [OF sched_goodD(3) [OF assms(1)] i])
next
  fix i
  assume "i < n_threads s"
  then show "let t = thr s i; t' = thr (thread_wake_pipe ob s) i in
            if tstate t = Blocked \<and> wait_reason t = WaitPipe \<and> wait_object t = ob then tstate t' = Runnable else t' = t"
    by (simp add: thread_wake_pipe_def thr_each_thread sched_inv0D(3) [OF sched_goodD(1) [OF assms(1)]] Let_def)
qed

text \<open>The same machine with a thread that sleeps until tick 7.\<close>

definition demo_asleep :: sched where
  "demo_asleep = on_thread 2 (\<lambda>t. t\<lparr>tstate := Blocked, wait_reason := WaitPipe, wait_object := PipeObject 4, wake_at := 7\<rparr>) demo_sched"

lemma demo_asleep_good: "sched_good demo_asleep"
  by (simp add: demo_asleep_def on_thread_def sched_good_def sched_inv_def sched_inv0_def ids_ok_def demo_sched_def demo_thread_def
      MAX_THREADS_def less3 all_conj_distrib)

theorem sleepers_wake_witness:
  "st (schedule_locked 0 6 0 demo_asleep) 2 = Blocked \<and>
   (st (schedule_locked 0 7 0 demo_asleep) 2 = Runnable \<or> st (schedule_locked 0 7 0 demo_asleep) 2 = Running) \<and>
   st (thread_wake_pipe (PipeObject 4) demo_asleep) 2 = Runnable"
proof -
  have f: "curof demo_asleep 0 = Some 0" "2 < n_threads demo_asleep" "st demo_asleep 2 = Blocked" "wake_at (thr demo_asleep 2) = 7"
    "wait_reason (thr demo_asleep 2) = WaitPipe" "wait_object (thr demo_asleep 2) = PipeObject 4"
    by (simp_all add: demo_asleep_def on_thread_def demo_sched_def)
  note S = sleepers_wake [OF demo_asleep_good f(1), of _ 0 "PipeObject 4"]
  have "\<not> (7 :: u64) \<le> 6" "(7 :: u64) \<noteq> 0" by simp_all
  then show ?thesis using S [of 6] S [of 7] f by (auto simp: Let_def)
qed

text \<open>Collecting a child answers with the id and the status of a child that has exited and frees its slot; it answers 0 when there
  are children but none has exited, and -1 when there are none; in both cases nothing changes.\<close>

lemma thread_reap_spec:
  assumes "sched_good s" "current me s = Some c" "thread_reap me s = ((r, x), s')"
  shows "(case zombie_child (id_of c) s of
            Some i \<Rightarrow> i < n_threads s \<and> parent (thr s i) = id_of c \<and> st s i = Zombie \<and> r = id_of (thr s i) \<and> 0 \<le> r \<and>
                      x = Some (status (thr s i)) \<and> st s' i = Free \<and> (\<forall>j < n_threads s. j \<noteq> i \<longrightarrow> thr s' j = thr s j)
          | None \<Rightarrow> s' = s \<and> x = None \<and> r = (if \<exists>i < n_threads s. parent (thr s i) = id_of c \<and> st s i \<noteq> Free then 0 else -1))"
proof (cases "zombie_child (id_of c) s")
  case (Some i)
  then have i: "i < n_threads s" "parent (thr s i) = id_of c" "st s i = Zombie" by (auto simp: zombie_child_def dest!: find_slot_bound)
  have l: "i < length (threads s)" using i(1) sched_inv0D(3) [OF sched_goodD(1) [OF assms(1)]] by simp
  have "0 \<le> id_of (thr s i)" using sched_goodD(2) [OF assms(1)] i by (simp add: ids_ok_def)
  then show ?thesis using Some i assms(2, 3) thr_release_slot [OF l] by (auto simp: thread_reap_def)
next
  case None
  have h: "have_children (id_of c) s \<longleftrightarrow> (\<exists>i < n_threads s. parent (thr s i) = id_of c \<and> st s i \<noteq> Free)"
    by (auto simp: have_children_def list_ex_iff)
  show ?thesis using None assms(2, 3) by (auto simp: thread_reap_def h split: if_splits)
qed

section \<open>What the code does not guard\<close>

text \<open>\<open>alloc_slot\<close> does not reserve what it returns: until the creator is done, a second call returns the same slot, and neither
  \<open>thread_create\<close> nor \<open>thread_fork\<close> holds the lock between the two.\<close>

lemma alloc_slot_not_reserved:
  assumes "length (threads s) = MAX_THREADS" "alloc_slot s = (Some i, s1)"
  shows "fst (alloc_slot s1) = Some i"
proof (cases "filter (\<lambda>i. st s i = Free) [0..<n_threads s]")
  case (Cons k ks)
  then show ?thesis using assms(2) by (auto simp: alloc_slot_def)
next
  case Nil
  then have n: "n_threads s < MAX_THREADS" "i = n_threads s"
    "s1 = (on_thread (n_threads s) (\<lambda>t. t\<lparr>tstate := Free\<rparr>) s)\<lparr>n_threads := Suc (n_threads s)\<rparr>"
    using assms(2) by (auto simp: alloc_slot_def split: if_splits)
  have l: "n_threads s < length (threads s)" using n(1) assms(1) by simp
  have "filter (\<lambda>i. st s1 i = Free) [0..<n_threads s] = []"
    using Nil unfolding filter_empty_conv by (auto simp: n(3) thr_on_thread [OF l])
  then have "filter (\<lambda>i. st s1 i = Free) [0..<n_threads s1] = [n_threads s]" by (simp add: n(3) thr_on_thread [OF l])
  then show ?thesis by (simp add: alloc_slot_def n(2))
qed

text \<open>A timer tick inside \<open>thread_exit\<close>, after the thread has become a zombie, takes the processor from it for good
  (\<open>zombie_stays_off\<close>): what is left of the function, closing the descriptors, freeing the address space and waking the parent,
  never runs.\<close>

lemma exit_preempted:
  assumes "sched_good s" "curof s me = Some c" "idleof s me \<noteq> Some c" "started s"
  shows "gone c (schedule me now w (become_zombie me x s))"
proof -
  let ?s = "become_zombie me x s"
  have good: "sched_good ?s" by (rule become_zombie_good [OF assms(1-3)])
  have l: "c < length (threads s)" using sched_inv0D(3, 4) [OF sched_goodD(1) [OF assms(1)]] assms(2) by fastforce
  have z: "st ?s c = Zombie" "curof ?s me = Some c" "started ?s" "n_threads ?s = n_threads s"
    using assms(2, 4) by (simp_all add: become_zombie_def thr_on_thread [OF l])
  define s1 where "s1 = each_thread (wake_expired now) ?s"
  note inv = sched_goodD(3) [OF good, of "{me}"]
  have inv1: "sched_inv0 {me} s1" unfolding s1_def by (rule each_thread_inv [OF inv]) (simp_all add: wake_expired_state)
  have c1: "curof s1 me = Some c" using z by (simp add: s1_def)
  have cn: "c < n_threads s1" by (rule sched_inv0D(4) [OF inv1 c1])
  have "c < n_threads ?s" using cn by (simp add: s1_def)
  then have "thr s1 c = wake_expired now (thr ?s c)" unfolding s1_def by (rule thr_each_thread [OF sched_inv0D(3) [OF inv]])
  then have z1: "st s1 c = Zombie" using z(1) by (simp add: wake_expired_def)
  obtain j where j: "j < n_threads s1" "idleof s1 me = Some j" "home (thr s1 j) = int me" "st s1 j = (if c = j then Running else Runnable)"
    by (rule sched_inv0_idle [OF inv1 c1])
  then have "j \<noteq> c" using z1 by (auto split: if_splits)
  then obtain nxt where n: "next_runnable me (Some c) s1 = Some nxt" "nxt \<noteq> c" "nxt < n_threads s1"
    using next_runnable_spec [OF cn j(1), of me] j by (auto simp: may_run_def)
  have l1: "c < length (threads s1)" "nxt < length (threads s1)" using cn n(3) sched_inv0D(3) [OF inv1] by auto
  have r: "schedule me now w ?s = switch_to me w c nxt s1"
    using n c1 z(3) by (simp add: schedule_def schedule_locked_def s1_def [symmetric] Let_def)
  have "curof s1 m \<noteq> Some c" if "m \<noteq> me" for m using sched_inv0D(8) [OF inv1 _ c1] that by blast
  then show ?thesis unfolding r gone_def using switch_to_facts [OF l1 n(2)] cn z1 n(2) by auto
qed

text \<open>A parent on another processor may collect the child in the same window, and the slot and the stack it frees are the ones that
  processor is still on.\<close>

lemma reap_while_running:
  assumes "sched_good s" "curof s m = Some c" "m \<noteq> me" "current me s = Some p" "zombie_child (id_of p) s = Some c"
  shows "curof (snd (thread_reap me s)) m = Some c \<and> st (snd (thread_reap me s)) c = Free"
proof -
  have l: "c < length (threads s)" using sched_inv0D(3, 4) [OF sched_goodD(1) [OF assms(1)]] assms(2) by fastforce
  show ?thesis using assms thr_release_slot(2) [OF l] by (simp add: thread_reap_def)
qed

text \<open>And this breaks the exclusivity: from a sound state in which processor 0 is on a zombie, its parent on processor 1 collects it, a
  creator takes the slot and fills it, and processor 1, after its idle thread, picks the new thread, on whose slot processor 0 still is. The first of these
  steps is the only one that is not orderly.\<close>

definition demo_zombie :: sched where
  "demo_zombie = \<lparr>threads = [demo_thread 0 Zombie (-1) 2, demo_thread 1 Runnable 0 0, demo_thread 2 Running (-1) 0, demo_thread 3 Runnable 1 0] @
       replicate 20 (demo_thread (-1) Free (-1) (-1)),
     n_threads = 4, next_id = 4,
     cpus = (\<lambda>m. if m = 0 then \<lparr>cur = Some 0, idle = Some 1, user_table_kva = 0, ttbr0 = 0\<rparr>
                 else if m = 1 then \<lparr>cur = Some 2, idle = Some 3, user_table_kva = 0, ttbr0 = 0\<rparr>
                 else \<lparr>cur = None, idle = None, user_table_kva = 0, ttbr0 = 0\<rparr>),
     switches = 0, started = True, pages = pmm_statics (\<lambda>_. 0)\<rparr>"

definition demo_collected :: sched where "demo_collected = snd (thread_reap 1 demo_zombie)"
definition demo_refilled :: sched where "demo_refilled = publish 1 0 [] 0 (\<lambda>t. t) (snd (alloc_slot demo_collected))"
definition demo_shared :: sched where "demo_shared = schedule 1 6 0 (schedule 1 5 0 demo_refilled)"

lemma demo_zombie_good: "sched_good demo_zombie"
proof -
  have "(i :: nat) < 4 \<longleftrightarrow> i = 0 \<or> i = 1 \<or> i = 2 \<or> i = 3" for i by auto
  then show ?thesis
    by (simp add: sched_good_def sched_inv_def sched_inv0_def ids_ok_def demo_zombie_def demo_thread_def MAX_THREADS_def all_conj_distrib)
      (rule exI [of _ 1], simp)
qed

lemma demo_hasty_glance:
  "glance (snd (alloc_slot demo_collected)) = ([Some 0, Some 2], [Some 1, Some 3], 4, [(Free, - 1), (Runnable, 1), (Running, 2), (Runnable, 3)])"
  "glance demo_refilled = ([Some 0, Some 2], [Some 1, Some 3], 5, [(Runnable, 4), (Runnable, 1), (Running, 2), (Runnable, 3)])"
  "glance (schedule 1 5 0 demo_refilled) = ([Some 0, Some 3], [Some 1, Some 3], 5, [(Runnable, 4), (Runnable, 1), (Runnable, 2), (Running, 3)])"
  "glance demo_shared = ([Some 0, Some 0], [Some 1, Some 3], 5, [(Running, 4), (Runnable, 1), (Runnable, 2), (Runnable, 3)])"
  by code_simp+

lemma demo_hasty:
  "0 < n_threads (snd (alloc_slot demo_collected))" "st (snd (alloc_slot demo_collected)) 0 = Free"
  "curof demo_refilled 1 \<noteq> None" "curof (schedule 1 5 0 demo_refilled) 1 \<noteq> None"
  "curof demo_shared 0 = Some 0" "curof demo_shared 1 = Some 0" "st demo_shared 0 = Running"
  using demo_hasty_glance [THEN glanceD(2)] glanceD(6, 7) [OF demo_hasty_glance(1), of 0] glanceD(1) [OF demo_hasty_glance(4)]
    glanceD(7) [OF demo_hasty_glance(4), of 0] by simp_all

lemma hasty_collection:
  "sched_good demo_zombie \<and> (\<exists>a. sched_step a demo_zombie demo_collected) \<and> orderly_step\<^sup>*\<^sup>* demo_collected demo_shared \<and>
   curof demo_shared 0 = Some 0 \<and> curof demo_shared 1 = Some 0 \<and> st demo_shared 0 = Running"
proof (intro conjI)
  show "sched_good demo_zombie" by (rule demo_zombie_good)
  show "\<exists>a. sched_step a demo_zombie demo_collected"
    unfolding demo_collected_def by (rule exI, rule sched_step.reap [of _ _ "thr demo_zombie 2"]) (simp add: current_def demo_zombie_def)
  have "orderly_step demo_collected (snd (alloc_slot demo_collected))" by (rule orderly_moves [OF sched_step.take_slot])
  also have "orderly_step\<^sup>*\<^sup>* (snd (alloc_slot demo_collected)) demo_refilled"
  proof (rule r_into_rtranclp, unfold orderly_step_def, intro exI conjI)
    show "sched_step (Fills 0) (snd (alloc_slot demo_collected)) demo_refilled"
      unfolding demo_refilled_def by (rule sched_step.fill_slot) (use demo_hasty in simp_all)
    show "orderly (Fills 0) (snd (alloc_slot demo_collected))" by (use demo_hasty in simp)
  qed
  also have "orderly_step\<^sup>*\<^sup>* demo_refilled (schedule 1 5 0 demo_refilled)"
    by (intro r_into_rtranclp orderly_moves sched_step.tick) (rule demo_hasty)
  also have "orderly_step\<^sup>*\<^sup>* (schedule 1 5 0 demo_refilled) demo_shared"
    unfolding demo_shared_def by (intro r_into_rtranclp orderly_moves sched_step.tick) (rule demo_hasty)
  finally show "orderly_step\<^sup>*\<^sup>* demo_collected demo_shared" .
  show "curof demo_shared 0 = Some 0" "curof demo_shared 1 = Some 0" "st demo_shared 0 = Running" by (use demo_hasty in simp_all)
qed

end
