(* ===== verification/Signals.thy ===== *)
theory Signals
  imports Sched Vm
begin

text \<open>
  Catching signals (\<open>stam/signal.c\<close>), and the kernel's accesses to user memory that it makes.

  The frame of an interrupted program is the record \<open>regs\<close>. A store or load at a user address goes through the tables of the
  processor's current space as the hardware walks them, so it changes a word of the page behind the address; \<open>None\<close>
  is a fault at EL1. The checks of \<open>vm_user_ok\<close> come first, and they may resolve copy-on-write pages.

  The lemmas show that no handler frame, forged or not, brings a program back with any privilege, that a handler
  that returns puts every register back, and that \<open>SIGKILL\<close> cannot be caught, ignored or held off.
\<close>

section \<open>User memory\<close>

text \<open>The answer of \<open>vm_user_ok\<close>; that it always answers is \<open>vm_user_ok_returns\<close>.\<close>

definition user_ok :: "u64 \<Rightarrow> u64 \<Rightarrow> u64 \<Rightarrow> bool \<Rightarrow> pmm \<Rightarrow> bool \<times> pmm" where
  "user_ok tb va len wr p = (case vm_user_ok tb va len wr p of Some r \<Rightarrow> r | None \<Rightarrow> (False, p))"

definition user_ptr :: "u64 \<Rightarrow> u64 \<Rightarrow> pmm \<Rightarrow> u64 option" where
  "user_ptr tb a p =
     (case walk_to_leaf tb a p of
        None \<Rightarrow> None
      | Some (slot, sz) \<Rightarrow> Some (phys_to_kva ((pm p slot AND ADDR_MASK AND NOT (sz - 1)) + (a AND (sz - 1)))))"

text \<open>A 64-bit load; one that is not aligned is made of its bytes.\<close>

definition user_word :: "u64 \<Rightarrow> u64 \<Rightarrow> pmm \<Rightarrow> u64 option" where
  "user_word tb a p =
     (if a AND 7 = 0 then map_option (pm p) (user_ptr tb a p)
      else (case map (\<lambda>i. user_byte tb (a + of_nat i) p) [0..<8] of
              [Some b0, Some b1, Some b2, Some b3, Some b4, Some b5, Some b6, Some b7] \<Rightarrow> Some (le64 b0 b1 b2 b3 b4 b5 b6 b7)
            | _ \<Rightarrow> None))"

primrec user_words :: "u64 \<Rightarrow> u64 \<Rightarrow> nat \<Rightarrow> pmm \<Rightarrow> u64 list option" where
  "user_words tb a 0 p = Some []"
| "user_words tb a (Suc n) p =
     (case user_word tb a p of
        None \<Rightarrow> None
      | Some v \<Rightarrow> map_option (Cons v) (user_words tb (a + 8) n p))"

primrec put_words :: "u64 \<Rightarrow> u64 \<Rightarrow> u64 list \<Rightarrow> pmm \<Rightarrow> pmm option" where
  "put_words tb a [] p = Some p"
| "put_words tb a (v # vs) p =
     (case user_ptr tb a p of
        None \<Rightarrow> None
      | Some k \<Rightarrow> put_words tb (a + 8) vs (p\<lparr>pm := (pm p)(k := v)\<rparr>))"

section \<open>Handlers\<close>

record regs =
  rx :: "u64 list"
  lr :: u64
  elr :: u64
  spsr :: u64
  sp_el0 :: u64

definition SIGFRAME_MAGIC :: u64 where "SIGFRAME_MAGIC = 0x5354414d53494731"

text \<open>The 36 words of a \<open>sigframe_t\<close>, and the registers they hold.\<close>

definition SIGFRAME_BYTES :: u64 where "SIGFRAME_BYTES = 288"

definition sigframe :: "u64 \<Rightarrow> regs \<Rightarrow> u64 list" where
  "sigframe blk f = [SIGFRAME_MAGIC, blk] @ rx f @ [lr f, elr f, spsr f, sp_el0 f]"

definition saved_regs :: "u64 list \<Rightarrow> regs" where
  "saved_regs ws = \<lparr>rx = take 30 (drop 2 ws), lr = ws ! 32, elr = ws ! 33, spsr = ws ! 34, sp_el0 = ws ! 35\<rparr>"

definition user_table_of :: "nat \<Rightarrow> sched \<Rightarrow> u64" where
  "user_table_of me s = user_table_kva (cpus s me)"

definition sig_action :: "nat \<Rightarrow> int \<Rightarrow> u64 \<Rightarrow> u64 \<Rightarrow> u64 \<Rightarrow> sched \<Rightarrow> int \<times> sched" where
  "sig_action me sig h r msk s =
     (if sig \<le> 0 \<or> sig \<ge> int NSIG then (-22, s)
      else if sig = int SIGKILL then (-22, s)
      else let cu = user_table_of me s;
               (ok1, p1) = (if h > 1 then user_ok cu h 4 False (pages s) else (True, pages s))
           in if \<not> ok1 then (-14, s\<lparr>pages := p1\<rparr>)
              else let (ok2, p2) = (if h > 1 then (if r = 0 then (False, p1) else user_ok cu r 4 False p1) else (True, p1))
                   in if \<not> ok2 then (-14, s\<lparr>pages := p2\<rparr>)
                      else case cur (cpus s me) of
                        None \<Rightarrow> (0, s\<lparr>pages := p2\<rparr>)
                      | Some c \<Rightarrow>
                          (0, on_thread c (\<lambda>t. t\<lparr>sigacts := (sigacts t)[nat sig := \<lparr>handler = h, restorer = r, sa_mask = msk\<rparr>]\<rparr>)
                                (s\<lparr>pages := p2\<rparr>)))"

definition sig_exec_reset :: "nat \<Rightarrow> sched \<Rightarrow> sched" where
  "sig_exec_reset me s =
     (case cur (cpus s me) of
        None \<Rightarrow> s
      | Some c \<Rightarrow>
          on_thread c (\<lambda>t. t\<lparr>sigacts := map (\<lambda>i. let a = sigacts t ! i in if i \<ge> 1 \<and> handler a > 1 then no_sigact else a)
                                          [0..<length (sigacts t)], blocked := 0\<rparr>) s)"

text \<open>The boolean is the value returned: whether the signal was dealt with.\<close>

definition sig_deliver :: "nat \<Rightarrow> nat \<Rightarrow> regs \<Rightarrow> sched \<Rightarrow> ((bool \<times> regs) \<times> sched) option" where
  "sig_deliver me sig f s =
     (case cur (cpus s me) of
        None \<Rightarrow> None
      | Some c \<Rightarrow>
          let act = sigacts (threads s ! c) ! sig; h = handler act
          in if h = 1 then Some ((True, f), on_thread c (\<lambda>t. t\<lparr>pending := pending t AND NOT (push_bit sig 1)\<rparr>) s)
             else if h = 0 then Some ((False, f), s)
             else let usp = (sp_el0 f - SIGFRAME_BYTES) AND NOT 15;
                      (ok, p1) = user_ok (user_table_of me s) usp SIGFRAME_BYTES True (pages s)
                  in if \<not> ok then Some ((False, f), s\<lparr>pages := p1\<rparr>)
                     else case put_words (user_table_of me s) usp (sigframe (blocked (threads s ! c)) f) p1 of
                       None \<Rightarrow> None
                     | Some p2 \<Rightarrow>
                         Some ((True, f\<lparr>sp_el0 := usp, elr := h, lr := restorer act, rx := (rx f)[0 := of_nat sig]\<rparr>),
                           on_thread c (\<lambda>t. t\<lparr>blocked := blocked t OR (sa_mask act OR push_bit sig 1),
                                             pending := pending t AND NOT (push_bit sig 1)\<rparr>) (s\<lparr>pages := p2\<rparr>)))"

definition EFAULT :: u64 where "EFAULT = - 14"

definition sig_return :: "nat \<Rightarrow> regs \<Rightarrow> sched \<Rightarrow> (u64 \<times> regs \<times> sched) option" where
  "sig_return me f s =
     (let usp = sp_el0 f; cu = user_table_of me s;
          (ok, p1) = user_ok cu usp SIGFRAME_BYTES False (pages s)
      in if \<not> ok then Some (EFAULT, f, s\<lparr>pages := p1\<rparr>)
         else case user_words cu usp 36 p1 of
           None \<Rightarrow> None
         | Some ws \<Rightarrow>
             if ws ! 0 \<noteq> SIGFRAME_MAGIC then Some (EFAULT, f, s\<lparr>pages := p1\<rparr>)
             else let sv = saved_regs ws; sv' = sv\<lparr>spsr := spsr sv AND 0xf0000000\<rparr>;
                      (ok2, p2) = user_ok cu (elr sv') 4 False p1
                  in if \<not> ok2 then Some (EFAULT, f, s\<lparr>pages := p2\<rparr>)
                     else case cur (cpus s me) of
                       None \<Rightarrow> None
                     | Some c \<Rightarrow> Some (rx sv' ! 0, sv', on_thread c (\<lambda>t. t\<lparr>blocked := ws ! 1\<rparr>) (s\<lparr>pages := p2\<rparr>)))"

section \<open>Loads after stores\<close>

text \<open>The words of the tables that the translation of an address reads.\<close>

definition walk_words :: "u64 \<Rightarrow> u64 \<Rightarrow> pmm \<Rightarrow> u64 set" where
  "walk_words tb a p =
     (let t = mmu_current_user_table_kva tb p; d1 = pm p (slot_of t 30 a); d2 = pm p (slot_of (table_at d1) 21 a)
      in {slot_of t 30 a, slot_of (table_at d1) 21 a, slot_of (table_at d2) 12 a})"

lemma user_ptr_cong:
  assumes "\<forall>w \<in> walk_words tb a p. m w = pm p w"
  shows "user_ptr tb a (p\<lparr>pm := m\<rparr>) = user_ptr tb a p" "walk_words tb a (p\<lparr>pm := m\<rparr>) = walk_words tb a p"
proof -
  let ?p = "p\<lparr>pm := m\<rparr>"
  define t where "t = mmu_current_user_table_kva tb p"
  define d1 where "d1 = pm p (slot_of t 30 a)"
  define d2 where "d2 = pm p (slot_of (table_at d1) 21 a)"
  have t: "mmu_current_user_table_kva tb ?p = t" by (simp add: t_def mmu_current_user_table_kva_def)
  have m: "m (slot_of t 30 a) = d1" "m (slot_of (table_at d1) 21 a) = d2"
    "m (slot_of (table_at d2) 12 a) = pm p (slot_of (table_at d2) 12 a)"
    using assms by (simp_all add: walk_words_def Let_def t_def [symmetric] d1_def [symmetric] d2_def [symmetric])
  have w: "walk_to_leaf tb a ?p = walk_to_leaf tb a p"
    by (simp add: walk_to_leaf_def t t_def [symmetric] Let_def m d1_def [symmetric] d2_def [symmetric])
  have "slot \<in> walk_words tb a p" if "walk_to_leaf tb a p = Some (slot, sz)" for slot sz
    using that by (auto simp: walk_to_leaf_def walk_words_def Let_def split: if_splits)
  then have "pm ?p slot = pm p slot" if "walk_to_leaf tb a p = Some (slot, sz)" for slot sz using that assms by auto
  then show "user_ptr tb a ?p = user_ptr tb a p" by (simp add: user_ptr_def w split: option.split)
  show "walk_words tb a ?p = walk_words tb a p"
    by (simp add: walk_words_def t t_def [symmetric] Let_def m d1_def [symmetric] d2_def [symmetric])
qed

text \<open>A range of words that is mapped, word for word onto different memory, none of it a table of the walk.\<close>

definition plain_range :: "u64 \<Rightarrow> u64 \<Rightarrow> nat \<Rightarrow> pmm \<Rightarrow> bool" where
  "plain_range tb a n p \<longleftrightarrow>
     (\<forall>i < n. \<exists>k. user_ptr tb (a + 8 * of_nat i) p = Some k \<and>
        (\<forall>j < n. (j \<noteq> i \<longrightarrow> user_ptr tb (a + 8 * of_nat j) p \<noteq> Some k) \<and> k \<notin> walk_words tb (a + 8 * of_nat j) p))"

lemma step8: "a + 8 + 8 * of_nat j = a + 8 * of_nat (Suc j)" for a :: u64
  by (simp add: algebra_simps)

lemma plain_range_at:
  assumes "plain_range tb a n p" "i < n" "user_ptr tb (a + 8 * of_nat i) p = Some k" "j < n"
  shows "k \<notin> walk_words tb (a + 8 * of_nat j) p" "j \<noteq> i \<Longrightarrow> user_ptr tb (a + 8 * of_nat j) p \<noteq> Some k"
  using assms unfolding plain_range_def by fastforce+

lemma plain_range_ptr: "plain_range tb a n p \<Longrightarrow> i < n \<Longrightarrow> \<exists>k. user_ptr tb (a + 8 * of_nat i) p = Some k"
  unfolding plain_range_def by blast

text \<open>A store to the first word of such a range leaves every translation in it alone.\<close>

lemma plain_range_store:
  assumes "plain_range tb a (Suc n) p" "user_ptr tb a p = Some k" "j \<le> n"
  shows "user_ptr tb (a + 8 * of_nat j) (p\<lparr>pm := (pm p)(k := v)\<rparr>) = user_ptr tb (a + 8 * of_nat j) p"
    and "walk_words tb (a + 8 * of_nat j) (p\<lparr>pm := (pm p)(k := v)\<rparr>) = walk_words tb (a + 8 * of_nat j) p"
proof -
  have "k \<notin> walk_words tb (a + 8 * of_nat j) p"
    using plain_range_at(1) [OF assms(1), of 0 k j] assms(2, 3) by simp
  then show "user_ptr tb (a + 8 * of_nat j) (p\<lparr>pm := (pm p)(k := v)\<rparr>) = user_ptr tb (a + 8 * of_nat j) p"
    "walk_words tb (a + 8 * of_nat j) (p\<lparr>pm := (pm p)(k := v)\<rparr>) = walk_words tb (a + 8 * of_nat j) p"
    by (intro user_ptr_cong; auto)+
qed

lemma plain_range_rest:
  assumes "plain_range tb a (Suc n) p" "user_ptr tb a p = Some k"
  shows "plain_range tb (a + 8) n (p\<lparr>pm := (pm p)(k := v)\<rparr>)"
  unfolding plain_range_def step8
proof (intro allI impI)
  fix i
  assume i: "i < n"
  obtain q where q: "user_ptr tb (a + 8 * of_nat (Suc i)) p = Some q" using plain_range_ptr [OF assms(1), of "Suc i"] i by auto
  note same = plain_range_store [OF assms, where v = v]
  have "user_ptr tb (a + 8 * of_nat (Suc i)) (p\<lparr>pm := (pm p)(k := v)\<rparr>) = Some q" using same(1) [of "Suc i"] i q by simp
  moreover have "(j \<noteq> i \<longrightarrow> user_ptr tb (a + 8 * of_nat (Suc j)) (p\<lparr>pm := (pm p)(k := v)\<rparr>) \<noteq> Some q) \<and>
      q \<notin> walk_words tb (a + 8 * of_nat (Suc j)) (p\<lparr>pm := (pm p)(k := v)\<rparr>)" if "j < n" for j
    using plain_range_at [OF assms(1) _ q, of "Suc j"] same [of "Suc j"] i that by simp
  ultimately show "\<exists>q. user_ptr tb (a + 8 * of_nat (Suc i)) (p\<lparr>pm := (pm p)(k := v)\<rparr>) = Some q \<and>
      (\<forall>j < n. (j \<noteq> i \<longrightarrow> user_ptr tb (a + 8 * of_nat (Suc j)) (p\<lparr>pm := (pm p)(k := v)\<rparr>) \<noteq> Some q) \<and>
               q \<notin> walk_words tb (a + 8 * of_nat (Suc j)) (p\<lparr>pm := (pm p)(k := v)\<rparr>))" by blast
qed

text \<open>All stores of a range: each word of it reads back, and no other memory changed.\<close>

lemma put_words_spec:
  assumes "plain_range tb a (length vs) p"
  shows "\<exists>m. put_words tb a vs p = Some (p\<lparr>pm := m\<rparr>) \<and>
     (\<forall>w. (\<forall>j < length vs. user_ptr tb (a + 8 * of_nat j) p \<noteq> Some w) \<longrightarrow> m w = pm p w) \<and>
     (\<forall>j < length vs. \<forall>k. user_ptr tb (a + 8 * of_nat j) p = Some k \<longrightarrow> m k = vs ! j)"
  using assms
proof (induction vs arbitrary: a p)
  case Nil
  then show ?case by (intro exI [of _ "pm p"]) simp
next
  case (Cons v vs)
  have pl: "plain_range tb a (Suc (length vs)) p" using Cons.prems by simp
  obtain k where k: "user_ptr tb a p = Some k" using plain_range_ptr [OF pl, of 0] by auto
  let ?p = "p\<lparr>pm := (pm p)(k := v)\<rparr>"
  note same = plain_range_store(1) [OF pl k, where v = v]
  obtain m where m: "put_words tb (a + 8) vs ?p = Some (?p\<lparr>pm := m\<rparr>)"
    "\<And>w. \<forall>j < length vs. user_ptr tb (a + 8 + 8 * of_nat j) ?p \<noteq> Some w \<Longrightarrow> m w = pm ?p w"
    "\<And>j q. j < length vs \<Longrightarrow> user_ptr tb (a + 8 + 8 * of_nat j) ?p = Some q \<Longrightarrow> m q = vs ! j"
    using Cons.IH [OF plain_range_rest [OF pl k, of v]] by blast
  have sh: "user_ptr tb (a + 8 + 8 * of_nat j) ?p = user_ptr tb (a + 8 * of_nat (Suc j)) p" if "j < length vs" for j
    unfolding step8 using same [of "Suc j"] that by simp
  have k': "m k = v"
  proof -
    have "user_ptr tb (a + 8 + 8 * of_nat j) ?p \<noteq> Some k" if "j < length vs" for j
      using plain_range_at(2) [OF pl, of 0 k "Suc j"] k that sh [OF that] by simp
    then show ?thesis using m(2) [of k] by simp
  qed
  have other: "m w = pm p w" if o: "\<forall>j < length (v # vs). user_ptr tb (a + 8 * of_nat j) p \<noteq> Some w" for w
  proof -
    have "w \<noteq> k" using o k by force
    moreover have "user_ptr tb (a + 8 + 8 * of_nat j) ?p \<noteq> Some w" if "j < length vs" for j
      using sh [OF that] o [rule_format, of "Suc j"] that by (metis length_Cons Suc_less_eq)
    ultimately show ?thesis using m(2) [of w] by simp
  qed
  have at: "m q = (v # vs) ! j" if j: "j < length (v # vs)" "user_ptr tb (a + 8 * of_nat j) p = Some q" for j q
  proof (cases j)
    case 0
    then show ?thesis using j(2) k k' by simp
  next
    case (Suc i)
    then show ?thesis using m(3) [of i q] sh [of i] j by simp
  qed
  show ?case using k m(1) other at by (intro exI [of _ m]) auto
qed

lemma words_round_trip:
  assumes "plain_range tb a (length vs) p" "a AND 7 = 0"
  shows "\<exists>m. put_words tb a vs p = Some (p\<lparr>pm := m\<rparr>) \<and> user_words tb a (length vs) (p\<lparr>pm := m\<rparr>) = Some vs"
proof -
  obtain m where m: "put_words tb a vs p = Some (p\<lparr>pm := m\<rparr>)"
    "\<And>w. \<forall>j < length vs. user_ptr tb (a + 8 * of_nat j) p \<noteq> Some w \<Longrightarrow> m w = pm p w"
    "\<And>j k. j < length vs \<Longrightarrow> user_ptr tb (a + 8 * of_nat j) p = Some k \<Longrightarrow> m k = vs ! j"
    using put_words_spec [OF assms(1)] by blast
  let ?p = "p\<lparr>pm := m\<rparr>"
  have al: "(a + 8 * x) AND 7 = 0" for x
  proof -
    have m: "w AND 7 = take_bit 3 w" for w :: u64 by (simp add: take_bit_eq_mask mask_eq_exp_minus_1)
    have "a = push_bit 3 (drop_bit 3 a)" using bits_ident [of 3 a] assms(2) unfolding m by simp
    then have "a + 8 * x = push_bit 3 (drop_bit 3 a + x)" by (simp add: push_bit_eq_mult algebra_simps)
    moreover have "take_bit 3 (push_bit 3 w) = 0" for w :: u64 by (simp add: take_bit_push_bit)
    ultimately show ?thesis unfolding m by simp
  qed
  have ptr: "user_ptr tb (a + 8 * of_nat j) ?p = user_ptr tb (a + 8 * of_nat j) p" if j: "j < length vs" for j
  proof (rule user_ptr_cong(1), rule ballI)
    fix w
    assume "w \<in> walk_words tb (a + 8 * of_nat j) p"
    then show "m w = pm p w" using m(2) plain_range_at(1) [OF assms(1) _ _ j] by blast
  qed
  have word: "user_word tb (a + 8 * of_nat j) ?p = Some (vs ! j)" if j: "j < length vs" for j
    using plain_range_ptr [OF assms(1) j] ptr [OF j] m(3) [OF j] al by (auto simp: user_word_def)
  have "user_words tb (a + 8 * of_nat i) n ?p = Some (take n (drop i vs))" if "i + n \<le> length vs" for i n
    using that
  proof (induction n arbitrary: i)
    case (Suc n)
    have "user_words tb (a + 8 * of_nat (Suc i)) n ?p = Some (take n (drop (Suc i) vs))"
      by (rule Suc.IH) (use Suc.prems in simp)
    moreover have "take (Suc n) (drop i vs) = vs ! i # take n (drop (Suc i) vs)"
      using Suc.prems by (simp add: take_Suc_conv_app_nth Cons_nth_drop_Suc [symmetric])
    ultimately show ?case using word [of i] Suc.prems by (simp add: algebra_simps)
  qed simp
  from this [of 0 "length vs"] show ?thesis using m(1) by auto
qed

section \<open>A small address space\<close>

text \<open>One page of a program, at \<open>0x400000\<close>, mapped by three tables. Its thread handles signal 2.\<close>

definition sig_pmm :: pmm where
  "sig_pmm = demo_pmm\<lparr>pm := (\<lambda>_. 0)(KVA_OFFSET + 0x1000 := 0x2003, KVA_OFFSET + 0x2010 := 0x3003, KVA_OFFSET + 0x3000 := 0x9743)\<rparr>"

definition sig_table :: u64 where "sig_table = KVA_OFFSET + 0x1000"

definition sig_sched :: sched where
  "sig_sched = demo_sched\<lparr>cpus := (\<lambda>_. (cpus demo_sched 0)\<lparr>user_table_kva := sig_table\<rparr>), pages := sig_pmm,
     threads := [(demo_thread 0 Running (-1) (-1))\<lparr>sigacts :=
       (replicate NSIG no_sigact)[2 := \<lparr>handler = 0x400100, restorer = 0x400200, sa_mask = 8\<rparr>]\<rparr>]\<rparr>"

definition sig_regs :: regs where
  "sig_regs = \<lparr>rx = replicate 30 7, lr = 5, elr = 0x400010, spsr = 0x60000005, sp_el0 = 0x400ff8\<rparr>"

text \<open>The three slots every address of the page is translated by, in any memory that holds them.\<close>

definition sig_walk :: "pmm \<Rightarrow> bool" where
  "sig_walk p \<longleftrightarrow> pm p (KVA_OFFSET + 0x1000) = 0x2003 \<and> pm p (KVA_OFFSET + 0x2010) = 0x3003 \<and> pm p (KVA_OFFSET + 0x3000) = 0x9743"

lemma sig_pmm_walk: "sig_walk sig_pmm"
  by (simp add: sig_walk_def sig_pmm_def)

lemma page_index:
  assumes "x < 0x1000"
  shows "drop_bit 30 (0x400000 + x :: u64) AND 511 = 0" "drop_bit 21 (0x400000 + x) AND 511 = 2" "drop_bit 12 (0x400000 + x) AND 511 = 0"
    "(0x400000 + x) AND 4095 = x"
proof -
  have x: "unat x < 4096" using assms by (simp add: word_less_nat_alt)
  have u: "unat (0x400000 + x) = 0x400000 + unat x" using x by (simp add: unat_word_ariths)
  have d: "drop_bit k (0x400000 + x) AND 511 = of_nat ((0x400000 + unat x) div 2 ^ k mod 512)" for k
  proof (rule word_unat_eq_iff [THEN iffD2])
    have m: "(511 :: u64) = mask 9" by (simp add: mask_eq_exp_minus_1)
    have "(0x400000 + unat x) div 2 ^ k mod 512 < 2 ^ 64" by (rule less_trans [OF mod_less_divisor]) simp_all
    then have o: "unat (of_nat ((0x400000 + unat x) div 2 ^ k mod 512) :: u64) = (0x400000 + unat x) div 2 ^ k mod 512"
      by (simp add: unat_of_nat_eq)
    have q: "unat (drop_bit k (0x400000 + x)) = (0x400000 + unat x) div 2 ^ k"
      unfolding u [symmetric] by (subst unat_drop_bit_eq) (simp only: drop_bit_eq_div)
    show "unat (drop_bit k (0x400000 + x) AND 511) = unat (of_nat ((0x400000 + unat x) div 2 ^ k mod 512) :: u64)"
      using q unfolding o m take_bit_eq_mask [symmetric] by (simp add: take_bit_eq_mod unat_mod_distrib)
  qed
  have "(0x400000 + unat x) div 2 ^ 30 = 0" "(0x400000 + unat x) div 2 ^ 21 = 2" "(0x400000 + unat x) div 2 ^ 12 = 1024" using x by simp_all
  then show "drop_bit 30 (0x400000 + x) AND 511 = 0" "drop_bit 21 (0x400000 + x) AND 511 = 2" "drop_bit 12 (0x400000 + x) AND 511 = 0"
    unfolding d by simp_all
  have m: "(4095 :: u64) = mask 12" by (simp add: mask_eq_exp_minus_1)
  show "(0x400000 + x) AND 4095 = x"
    unfolding m take_bit_eq_mask [symmetric] by (rule word_unat_eq_iff [THEN iffD2]) (use x mod_mult_self3 [of 1024 4096 "unat x"] in \<open>simp add: take_bit_eq_mod unat_mod_distrib u\<close>)
qed

lemma sig_translate:
  assumes "sig_walk p" "x < 0x1000"
  shows "walk_to_leaf sig_table (0x400000 + x) p = Some (KVA_OFFSET + 0x3000, 4096)"
    "user_ptr sig_table (0x400000 + x) p = Some (KVA_OFFSET + 0x9000 + x)"
    "walk_words sig_table (0x400000 + x) p = {KVA_OFFSET + 0x1000, KVA_OFFSET + 0x2010, KVA_OFFSET + 0x3000}"
proof -
  note i = page_index [OF assms(2)]
  have t: "mmu_current_user_table_kva sig_table p = sig_table" by (simp add: mmu_current_user_table_kva_def sig_table_def KVA_OFFSET_def)
  have d: "table_at 0x2003 = KVA_OFFSET + 0x2000" "table_at 0x3003 = KVA_OFFSET + 0x3000"
    by (simp_all add: table_at_def phys_to_kva_def ADDR_MASK_def)
  have s: "slot_of sig_table 30 (0x400000 + x) = KVA_OFFSET + 0x1000"
    "slot_of (KVA_OFFSET + 0x2000) 21 (0x400000 + x) = KVA_OFFSET + 0x2010"
    "slot_of (KVA_OFFSET + 0x3000) 12 (0x400000 + x) = KVA_OFFSET + 0x3000"
    by (simp_all add: slot_of_def i sig_table_def)
  have nz: "sig_table \<noteq> 0" by (simp add: sig_table_def KVA_OFFSET_def)
  show w: "walk_to_leaf sig_table (0x400000 + x) p = Some (KVA_OFFSET + 0x3000, 4096)"
    using assms(1) by (simp add: walk_to_leaf_def t nz s d Let_def sig_walk_def D_BLOCK_def D_TABLE_def D_PAGE_def)
  show "user_ptr sig_table (0x400000 + x) p = Some (KVA_OFFSET + 0x9000 + x)"
    using assms(1) i(4) by (simp add: user_ptr_def w sig_walk_def ADDR_MASK_def phys_to_kva_def)
  show "walk_words sig_table (0x400000 + x) p = {KVA_OFFSET + 0x1000, KVA_OFFSET + 0x2010, KVA_OFFSET + 0x3000}"
    using assms(1) by (simp add: walk_words_def Let_def t s d sig_walk_def)
qed

lemma sig_user_ok:
  assumes "sig_walk p" "x < 0x1000" "0 < len" "len \<le> 0x1000 - x"
  shows "user_ok sig_table (0x400000 + x) len wr p = (True, p)"
proof -
  note n = assms(2-4) [unfolded word_less_nat_alt word_le_nat_alt]
  have ul: "unat x < 4096" "0 < unat len" "unat x + unat len \<le> 4096"
    using n by (simp_all add: unat_sub word_le_nat_alt)
  have e: "unat (0x400000 + x + len) = 0x400000 + unat x + unat len" "unat (0x400000 + x) = 0x400000 + unat x"
    using ul by (simp_all add: unat_word_ariths)
  have al: "(0x400000 + x) AND NOT 4095 = 0x400000"
  proof -
    have m: "(4095 :: u64) = mask 12" by (simp add: mask_eq_exp_minus_1)
    have "0x400000 + x = ((0x400000 + x) AND NOT (mask 12)) + take_bit 12 (0x400000 + x)"
      by (subst disjunctive_add) (auto simp: bit_simps intro!: bit_word_eqI)
    moreover have "take_bit 12 (0x400000 + x) = x" using page_index(4) [OF assms(2)] unfolding m take_bit_eq_mask .
    ultimately show ?thesis unfolding m by (metis add_right_cancel)
  qed
  have lf: "walk_to_leaf sig_table 0x400000 p = Some (KVA_OFFSET + 0x3000, 4096)" using sig_translate(1) [OF assms(1), of 0] by simp
  have "vm_ok_loop (Suc (Suc k)) sig_table 0x400000 (0x400000 + x + len) wr p = Some (True, p)" for k
    using assms(1) e ul by (simp add: lf Let_def sig_walk_def D_VALID_def D_AP_EL0_def D_AP_RO_def word_less_nat_alt)
  from this [of 134217727] have "vm_user_ok sig_table (0x400000 + x) len wr p = Some (True, p)"
    using e ul al unfolding vm_user_ok_def by (simp add: USER_LIMIT_def word_less_nat_alt word_le_nat_alt)
  then show ?thesis by (simp add: user_ok_def)
qed

section \<open>Properties\<close>

lemma user_ok_read:
  assumes "user_ok tb va len False p = (True, p')"
  shows "p' = p" "len \<noteq> 0 \<Longrightarrow> unat va + unat len \<le> 2 ^ 39" "\<And>a. va \<le> a \<Longrightarrow> a < va + len \<Longrightarrow> el0_ok tb a False p"
proof -
  have v: "vm_user_ok tb va len False p = Some (True, p')" using assms by (auto simp: user_ok_def split: option.splits)
  note t = vm_user_ok_True [OF v]
  show p: "p' = p" using t by simp
  show "unat va + unat len \<le> 2 ^ 39" if "len \<noteq> 0" using t that by simp
  show "el0_ok tb a False p" if "va \<le> a" "a < va + len" for a
    using t that p by (cases "len = 0") auto
qed

text \<open>C10: whatever a program has put on its stack, coming back through \<open>rt_sigreturn\<close> leaves it at exception level 0 with
  interrupts enabled: of the saved processor state only the condition flags survive, and it resumes at an address of its own that
  EL0 can reach. When the call is refused, no register changes.\<close>

theorem sig_return_unprivileged:
  assumes "sig_return me f s = Some (r, f', s')"
  shows "(f' = f \<and> r = EFAULT \<and> threads s' = threads s) \<or>
         (spsr f' AND NOT 0xf0000000 = 0 \<and> unat (elr f') + 4 \<le> 2 ^ 39 \<and>
          (\<forall>a. elr f' \<le> a \<and> a < elr f' + 4 \<longrightarrow> el0_ok (user_table_of me s) a False (pages s')))"
proof -
  let ?t = "user_table_of me s"
  obtain ok p1 where o1: "user_ok ?t (sp_el0 f) SIGFRAME_BYTES False (pages s) = (ok, p1)" by fastforce
  show ?thesis
  proof (cases ok)
    case False
    then show ?thesis using assms o1 by (auto simp: sig_return_def)
  next
    case True
    then obtain ws where ws: "user_words ?t (sp_el0 f) 36 p1 = Some ws" using assms o1 by (auto simp: sig_return_def Let_def split: option.splits)
    define sv where "sv = (saved_regs ws)\<lparr>spsr := spsr (saved_regs ws) AND 0xf0000000\<rparr>"
    obtain ok2 p2 where o2: "user_ok ?t (elr sv) 4 False p1 = (ok2, p2)" by fastforce
    have res: "(f' = f \<and> r = EFAULT \<and> threads s' = threads s) \<or> (f' = sv \<and> ok2 \<and> pages s' = p2)"
      using assms o1 True ws o2 by (auto simp: sig_return_def Let_def sv_def split: if_splits option.splits)
    show ?thesis
    proof (cases "f' = sv \<and> ok2 \<and> pages s' = p2")
      case t: True
      note u = user_ok_read [OF o2 [unfolded t [THEN conjunct2, THEN conjunct1, THEN eqTrueI]]]
      have "spsr sv AND NOT 0xf0000000 = 0" by (simp add: sv_def and.assoc)
      then show ?thesis using t u by auto
    next
      case False
      then show ?thesis using res by blast
    qed
  qed
qed

lemma saved_sigframe: "length (rx f) = 30 \<Longrightarrow> saved_regs (sigframe b f) = f"
  by (simp add: saved_regs_def sigframe_def nth_append)

lemma sigframe_fields: "sigframe b f ! 0 = SIGFRAME_MAGIC" "sigframe b f ! 1 = b" "sigframe b f ! Suc 0 = b" "length (rx f) = 30 \<Longrightarrow> length (sigframe b f) = 36"
  by (simp_all add: sigframe_def)

lemma frame_aligned: "((x :: u64) AND NOT 15) AND 7 = 0"
proof (rule bit_word_eqI)
  fix n
  have m: "(7 :: u64) = mask 3" "(15 :: u64) = mask 4" by (simp_all add: mask_eq_exp_minus_1)
  show "bit ((x AND NOT 15) AND 7) n = bit (0 :: u64) n" unfolding m by (auto simp: bit_simps)
qed

lemma deliver_return:
  assumes d: "sig_deliver me sig f s = Some ((True, f'), s1)" and c: "curof s me = Some c" "c < length (threads s)"
    and h: "1 < handler (sigacts (thr s c) ! sig)" and len: "length (rx f) = 30"
    and pl: "plain_range (user_table_of me s) ((sp_el0 f - SIGFRAME_BYTES) AND NOT 15) 36
               (snd (user_ok (user_table_of me s) ((sp_el0 f - SIGFRAME_BYTES) AND NOT 15) SIGFRAME_BYTES True (pages s)))"
    and r: "fst (user_ok (user_table_of me s) (sp_el0 f') SIGFRAME_BYTES False (pages s1))"
      "fst (user_ok (user_table_of me s) (elr f) 4 False (pages s1))"
  shows "\<exists>s2. sig_return me f' s1 = Some (rx f ! 0, f\<lparr>spsr := spsr f AND 0xf0000000\<rparr>, s2) \<and>
              blocked (thr s2 c) = blocked (thr s c) \<and> elr f' = handler (sigacts (thr s c) ! sig) \<and> rx f' ! 0 = of_nat sig"
proof -
  let ?t = "user_table_of me s" and ?b = "blocked (thr s c)" and ?act = "sigacts (thr s c) ! sig"
  define usp where "usp = (sp_el0 f - SIGFRAME_BYTES) AND NOT 15"
  obtain ok p1 where o: "user_ok ?t usp SIGFRAME_BYTES True (pages s) = (ok, p1)" by fastforce
  have hh: "handler ?act \<noteq> 1" "handler ?act \<noteq> 0" using h by auto
  note dd = d [unfolded sig_deliver_def Let_def, folded usp_def]
  have ok: ok using dd c o hh by (auto split: if_splits)
  have pl': "plain_range ?t usp (length (sigframe ?b f)) p1" using pl o len by (simp add: usp_def sigframe_fields)
  obtain m where m: "put_words ?t usp (sigframe ?b f) p1 = Some (p1\<lparr>pm := m\<rparr>)"
    "user_words ?t usp (length (sigframe ?b f)) (p1\<lparr>pm := m\<rparr>) = Some (sigframe ?b f)"
    using words_round_trip [OF pl'] frame_aligned by (auto simp: usp_def)
  have res: "f' = f\<lparr>sp_el0 := usp, elr := handler ?act, lr := restorer ?act, rx := (rx f)[0 := of_nat sig]\<rparr>"
    "s1 = on_thread c (\<lambda>t. t\<lparr>blocked := blocked t OR (sa_mask ?act OR push_bit sig 1), pending := pending t AND NOT (push_bit sig 1)\<rparr>)
            (s\<lparr>pages := p1\<lparr>pm := m\<rparr>\<rparr>)"
    using dd c o hh ok m(1) by simp_all
  have cp: "cpus s1 = cpus s" "pages s1 = p1\<lparr>pm := m\<rparr>" "length (threads s1) = length (threads s)" "user_table_of me s1 = ?t"
    unfolding res(2) by (simp_all add: user_table_of_def)
  obtain q1 where q1: "user_ok ?t usp SIGFRAME_BYTES False (pages s1) = (True, q1)" using r(1) res(1) by (cases "user_ok ?t usp SIGFRAME_BYTES False (pages s1)") auto
  obtain q2 where q2: "user_ok ?t (elr f) 4 False (pages s1) = (True, q2)" using r(2) by (cases "user_ok ?t (elr f) 4 False (pages s1)") auto
  have e1: "q1 = pages s1" by (rule user_ok_read(1) [OF q1])
  have w: "user_words ?t usp 36 (pages s1) = Some (sigframe ?b f)" using m(2) len by (simp add: cp sigframe_fields)
  have "sig_return me f' s1 = Some (rx f ! 0, f\<lparr>spsr := spsr f AND 0xf0000000\<rparr>, on_thread c (\<lambda>t. t\<lparr>blocked := ?b\<rparr>) (s1\<lparr>pages := q2\<rparr>))"
    using q1 q2 w c cp(1, 4) by (simp add: sig_return_def res(1) e1 Let_def sigframe_fields saved_sigframe [OF len])
  moreover have "blocked (thr (on_thread c (\<lambda>t. t\<lparr>blocked := ?b\<rparr>) (s1\<lparr>pages := q2\<rparr>)) c) = ?b"
    using c(2) cp(3) by (simp add: on_thread_def)
  ultimately show ?thesis using res(1) len by (intro exI [of _ "on_thread c (\<lambda>t. t\<lparr>blocked := ?b\<rparr>) (s1\<lparr>pages := q2\<rparr>)"]) simp
qed

text \<open>Signal 2 is delivered to the thread of the small address space, and its handler returns.\<close>

lemma sig_range: "plain_range sig_table 0x400ed0 36 sig_pmm"
  unfolding plain_range_def
proof (intro allI impI)
  have ptr: "user_ptr sig_table (0x400ed0 + 8 * of_nat i) sig_pmm = Some (KVA_OFFSET + 0x9ed0 + 8 * of_nat i)"
      "walk_words sig_table (0x400ed0 + 8 * of_nat i) sig_pmm = {KVA_OFFSET + 0x1000, KVA_OFFSET + 0x2010, KVA_OFFSET + 0x3000}"
    if "i < 36" for i :: nat
  proof -
    have "unat (0xed0 + 8 * of_nat i :: u64) = 0xed0 + 8 * i" using that by (simp add: unat_word_ariths unat_of_nat_eq)
    then have "0xed0 + 8 * of_nat i < (0x1000 :: u64)" using that by (simp add: word_less_nat_alt)
    from sig_translate(2, 3) [OF sig_pmm_walk this]
    show "user_ptr sig_table (0x400ed0 + 8 * of_nat i) sig_pmm = Some (KVA_OFFSET + 0x9ed0 + 8 * of_nat i)"
      "walk_words sig_table (0x400ed0 + 8 * of_nat i) sig_pmm = {KVA_OFFSET + 0x1000, KVA_OFFSET + 0x2010, KVA_OFFSET + 0x3000}"
      by (simp_all add: add.assoc [symmetric])
  qed
  have k: "unat (KVA_OFFSET + 0x9ed0 + 8 * of_nat i) = unat KVA_OFFSET + 0x9ed0 + 8 * i" if "i < 36" for i :: nat
    using that by (simp add: KVA_OFFSET_def unat_word_ariths unat_of_nat_eq)
  fix i :: nat
  assume i: "i < 36"
  have "KVA_OFFSET + 0x9ed0 + 8 * of_nat j \<noteq> KVA_OFFSET + 0x9ed0 + 8 * of_nat i" if "j < 36" "j \<noteq> i" for j
    using k [OF i] k [OF that(1)] that(2) by (metis add_left_cancel mult_cancel1 zero_neq_numeral)
  moreover have "KVA_OFFSET + 0x9ed0 + 8 * of_nat i \<notin> {KVA_OFFSET + 0x1000, KVA_OFFSET + 0x2010, KVA_OFFSET + 0x3000}"
    using k [OF i] by (auto simp: KVA_OFFSET_def word_unat_eq_iff)
  ultimately show "\<exists>k. user_ptr sig_table (0x400ed0 + 8 * of_nat i) sig_pmm = Some k \<and>
        (\<forall>j < 36. (j \<noteq> i \<longrightarrow> user_ptr sig_table (0x400ed0 + 8 * of_nat j) sig_pmm \<noteq> Some k) \<and> k \<notin> walk_words sig_table (0x400ed0 + 8 * of_nat j) sig_pmm)"
    using i by (intro exI [of _ "KVA_OFFSET + 0x9ed0 + 8 * of_nat i"]) (auto simp: ptr)
qed

lemma sig_demo:
  "\<exists>f' s1. sig_deliver 0 2 sig_regs sig_sched = Some ((True, f'), s1) \<and> sp_el0 f' = 0x400ed0 \<and>
     user_table_of 0 s1 = sig_table \<and> sig_walk (pages s1)"
proof -
  let ?fr = "sigframe 0 sig_regs"
  have len: "length ?fr = 36" by (simp add: sigframe_def sig_regs_def)
  obtain m where m: "put_words sig_table 0x400ed0 ?fr sig_pmm = Some (sig_pmm\<lparr>pm := m\<rparr>)"
    "\<And>w. \<forall>j < 36. user_ptr sig_table (0x400ed0 + 8 * of_nat j) sig_pmm \<noteq> Some w \<Longrightarrow> m w = pm sig_pmm w"
    using put_words_spec [of sig_table "0x400ed0" ?fr sig_pmm] sig_range unfolding len by blast
  have "m w = pm sig_pmm w" if "w \<in> walk_words sig_table 0x400ed0 sig_pmm" for w
    using m(2) plain_range_at(1) [OF sig_range, of _ w 0] that by fastforce
  moreover have "walk_words sig_table 0x400ed0 sig_pmm = {KVA_OFFSET + 0x1000, KVA_OFFSET + 0x2010, KVA_OFFSET + 0x3000}"
    using sig_translate(3) [OF sig_pmm_walk, of "0xed0"] by simp
  ultimately have w: "sig_walk (sig_pmm\<lparr>pm := m\<rparr>)" using sig_pmm_walk by (simp add: sig_walk_def)
  have u: "user_table_of 0 sig_sched = sig_table" by (simp add: user_table_of_def sig_sched_def)
  have c: "curof sig_sched 0 = Some 0" "blocked (thr sig_sched 0) = 0" "handler (sigacts (thr sig_sched 0) ! 2) = 0x400100"
    by (simp_all add: sig_sched_def demo_sched_def demo_thread_def NSIG_def)
  have sp: "sp_el0 sig_regs - SIGFRAME_BYTES AND NOT 15 = 0x400ed0" by (simp add: sig_regs_def SIGFRAME_BYTES_def)
  have ok: "user_ok sig_table 0x400ed0 SIGFRAME_BYTES True sig_pmm = (True, sig_pmm)"
    using sig_user_ok [OF sig_pmm_walk, of "0xed0" 288 True] by (simp add: SIGFRAME_BYTES_def)
  have pg: "pages sig_sched = sig_pmm" by (simp add: sig_sched_def)
  have "\<exists>f' s1. sig_deliver 0 2 sig_regs sig_sched = Some ((True, f'), s1) \<and> sp_el0 f' = 0x400ed0 \<and>
      cpus s1 = cpus sig_sched \<and> pages s1 = sig_pmm\<lparr>pm := m\<rparr>"
    unfolding sig_deliver_def Let_def sp c(1) option.case u pg ok m(1) c(2, 3) case_prod_conv by simp
  then show ?thesis using w u by (fastforce simp: user_table_of_def)
qed

lemma sig_demo_hyps:
  "curof sig_sched 0 = Some 0" "0 < length (threads sig_sched)" "1 < handler (sigacts (thr sig_sched 0) ! 2)" "length (rx sig_regs) = 30"
  "plain_range (user_table_of 0 sig_sched) ((sp_el0 sig_regs - SIGFRAME_BYTES) AND NOT 15) 36
     (snd (user_ok (user_table_of 0 sig_sched) ((sp_el0 sig_regs - SIGFRAME_BYTES) AND NOT 15) SIGFRAME_BYTES True (pages sig_sched)))"
  "user_table_of 0 sig_sched = sig_table"
proof -
  have u: "user_table_of 0 sig_sched = sig_table" "pages sig_sched = sig_pmm" by (simp_all add: user_table_of_def sig_sched_def)
  have ok: "user_ok sig_table 0x400ed0 SIGFRAME_BYTES True sig_pmm = (True, sig_pmm)"
    using sig_user_ok [OF sig_pmm_walk, of "0xed0" 288 True] by (simp add: SIGFRAME_BYTES_def)
  have sp: "sp_el0 sig_regs - SIGFRAME_BYTES AND NOT 15 = 0x400ed0" by (simp add: sig_regs_def SIGFRAME_BYTES_def)
  show "plain_range (user_table_of 0 sig_sched) ((sp_el0 sig_regs - SIGFRAME_BYTES) AND NOT 15) 36
     (snd (user_ok (user_table_of 0 sig_sched) ((sp_el0 sig_regs - SIGFRAME_BYTES) AND NOT 15) SIGFRAME_BYTES True (pages sig_sched)))"
    unfolding u sp ok using sig_range by simp
qed (simp_all add: sig_sched_def demo_sched_def NSIG_def user_table_of_def sig_regs_def)

theorem sig_return_unprivileged_witness:
  "\<exists>f' s1 f2 s2. sig_deliver 0 2 sig_regs sig_sched = Some ((True, f'), s1) \<and> sig_return 0 f' s1 = Some (7, f2, s2) \<and>
     spsr f2 AND NOT 0xf0000000 = 0 \<and> el0_ok sig_table 0x400010 False (pages s2)"
proof -
  obtain f' s1 where d: "sig_deliver 0 2 sig_regs sig_sched = Some ((True, f'), s1)" "sp_el0 f' = 0x400ed0" "sig_walk (pages s1)"
    "user_table_of 0 s1 = sig_table" using sig_demo by blast
  note h = sig_demo_hyps
  obtain s2 where s2: "sig_return 0 f' s1 = Some (7, sig_regs\<lparr>spsr := 0x60000000\<rparr>, s2)"
    using deliver_return [OF d(1) h(1-4) h(5)] d sig_user_ok [OF d(3), of "0xed0" SIGFRAME_BYTES False]
      sig_user_ok [OF d(3), of "0x10" 4 False]
    by (auto simp: h SIGFRAME_BYTES_def sig_regs_def)
  show ?thesis
    using sig_return_unprivileged [OF s2] d s2 by (auto simp: EFAULT_def sig_regs_def)
qed

text \<open>C34: a handler that returns is invisible to the code it interrupted. After a delivery, and with the frame still on the stack, a
  \<open>rt_sigreturn\<close> from the stack pointer the handler was given puts every register back, the processor state up to its
  privileged bits, and the set of blocked signals.\<close>

theorem sigreturn_undoes_deliver:
  assumes d: "sig_deliver me sig f s = Some ((True, f'), s1)" and c: "curof s me = Some c" "c < length (threads s)"
    and h: "1 < handler (sigacts (thr s c) ! sig)" and len: "length (rx f) = 30"
    and pl: "plain_range (user_table_of me s) ((sp_el0 f - SIGFRAME_BYTES) AND NOT 15) 36
               (snd (user_ok (user_table_of me s) ((sp_el0 f - SIGFRAME_BYTES) AND NOT 15) SIGFRAME_BYTES True (pages s)))"
    and r: "fst (user_ok (user_table_of me s) (sp_el0 f') SIGFRAME_BYTES False (pages s1))"
      "fst (user_ok (user_table_of me s) (elr f) 4 False (pages s1))"
  shows "\<exists>s2. sig_return me f' s1 = Some (rx f ! 0, f\<lparr>spsr := spsr f AND 0xf0000000\<rparr>, s2) \<and>
              blocked (thr s2 c) = blocked (thr s c) \<and> elr f' = handler (sigacts (thr s c) ! sig) \<and> rx f' ! 0 = of_nat sig"
  by (rule deliver_return [OF assms])

theorem sigreturn_undoes_deliver_witness:
  "\<exists>f' s1 s2. sig_deliver 0 2 sig_regs sig_sched = Some ((True, f'), s1) \<and>
     sig_return 0 f' s1 = Some (7, sig_regs\<lparr>spsr := 0x60000000\<rparr>, s2)"
proof -
  obtain f' s1 where d: "sig_deliver 0 2 sig_regs sig_sched = Some ((True, f'), s1)" "sp_el0 f' = 0x400ed0" "sig_walk (pages s1)"
    using sig_demo by blast
  note h = sig_demo_hyps
  show ?thesis
    using sigreturn_undoes_deliver [OF d(1) h(1-4) h(5) ] d sig_user_ok [OF d(3), of "0xed0" SIGFRAME_BYTES False]
      sig_user_ok [OF d(3), of "0x10" 4 False]
    by (auto simp: h SIGFRAME_BYTES_def sig_regs_def)
qed

text \<open>C25: \<open>SIGKILL\<close> always works. No call installs a handler for it or ignores it, a pending one makes the thread act whatever it has
  blocked, and with no handler the delivery answers that the caller must kill.\<close>

theorem sigkill_works:
  "(\<forall>me h r msk s. sig_action me 9 h r msk s = (-22, s)) \<and>
   (\<forall>t. bit (pending t) SIGKILL \<longrightarrow> 0 < thread_signalled t \<and> thread_signalled t \<le> SIGKILL \<and> bit (pending t) (thread_signalled t)) \<and>
   (\<forall>me sig h r msk s c. sigacts (thr (snd (sig_action me sig h r msk s)) c) ! SIGKILL = sigacts (thr s c) ! SIGKILL) \<and>
   (\<forall>me f s c. curof s me = Some c \<and> handler (sigacts (thr s c) ! SIGKILL) = 0 \<longrightarrow> sig_deliver me SIGKILL f s = Some ((False, f), s))"
proof (intro conjI allI impI)
  show "sig_action me 9 h r msk s = (-22, s)" for me h r msk s by (simp add: sig_action_def SIGKILL_def NSIG_def)
next
  fix t :: thread
  assume p: "bit (pending t) SIGKILL"
  have d: "bit (deliverable t) SIGKILL"
    using p by (simp add: deliverable_def SIGKILL_def bit_simps bit_push_one)
  have m: "SIGKILL \<in> set [1..<NSIG]" by (simp add: SIGKILL_def NSIG_def)
  have "List.find (bit (deliverable t)) [1..<NSIG] \<noteq> None" using d m unfolding find_None_iff by blast
  then obtain x where x: "List.find (bit (deliverable t)) [1..<NSIG] = Some x" by blast
  then obtain i where i: "i < length [1..<NSIG]" "bit (deliverable t) ([1..<NSIG] ! i)" "x = [1..<NSIG] ! i"
    "\<forall>j < i. \<not> bit (deliverable t) ([1..<NSIG] ! j)" unfolding find_Some_iff by blast
  have "x = Suc i" using i by simp
  have "i \<le> 8"
  proof (rule ccontr)
    assume "\<not> i \<le> 8"
    then have "\<not> bit (deliverable t) ([1..<NSIG] ! 8)" using i(4) by simp
    then show False using d by (simp add: NSIG_def SIGKILL_def)
  qed
  have s: "thread_signalled t = x" using x by (simp add: thread_signalled_def)
  show "0 < thread_signalled t" "thread_signalled t \<le> SIGKILL" using s \<open>x = Suc i\<close> \<open>i \<le> 8\<close> by (simp_all add: SIGKILL_def)
  have "bit (deliverable t) x" using i by simp
  then show "bit (pending t) (thread_signalled t)" unfolding s by (simp add: deliverable_def bit_simps)
next
  fix me sig h r msk s c
  show "sigacts (thr (snd (sig_action me sig h r msk s)) c) ! SIGKILL = sigacts (thr s c) ! SIGKILL"
  proof -
    have up: "sigacts (thr (on_thread k (\<lambda>t. t\<lparr>sigacts := (sigacts t)[nat sig := a]\<rparr>) (s\<lparr>pages := p\<rparr>)) c) ! SIGKILL = sigacts (thr s c) ! SIGKILL"
      if "sig \<noteq> int SIGKILL" "0 < sig" for k a p
      using that by (cases "k < length (threads s)"; cases "k = c") (auto simp: on_thread_def nth_list_update list_update_beyond)
    have up0: "sigacts (thr (on_thread k (\<lambda>t. t\<lparr>sigacts := (sigacts t)[nat sig := a]\<rparr>) s) c) ! SIGKILL = sigacts (thr s c) ! SIGKILL"
      if "sig \<noteq> int SIGKILL" "0 < sig" for k a using up [OF that, of k a "pages s"] by simp
    show ?thesis
      by (auto simp: sig_action_def Let_def up up0 case_prod_unfold not_le split: option.split)
  qed
next
  show "sig_deliver me SIGKILL f s = Some ((False, f), s)"
    if "curof s me = Some c \<and> handler (sigacts (thr s c) ! SIGKILL) = 0" for me f s c
    using that by (simp add: sig_deliver_def)
qed

theorem sigkill_works_witness:
  "sig_deliver 0 SIGKILL sig_regs sig_sched = Some ((False, sig_regs), sig_sched) \<and>
   0 < thread_signalled ((thr sig_sched 0)\<lparr>pending := 512, blocked := 512\<rparr>)"
proof -
  have "bit (pending ((thr sig_sched 0)\<lparr>pending := 512, blocked := 512\<rparr>)) SIGKILL" by (simp add: SIGKILL_def)
  moreover have "handler (sigacts (thr sig_sched 0) ! SIGKILL) = 0"
    by (simp add: sig_sched_def SIGKILL_def NSIG_def no_sigact_def)
  ultimately show ?thesis using sigkill_works sig_demo_hyps(1) by blast
qed

end
