(* ===== verification/Ring.thy ===== *)
theory Ring
  imports Contracts
begin

text \<open>
  Ring buffers: an array of \<open>N\<close> cells, the index \<open>h\<close> of the next write and the index \<open>t\<close> of the next read, one cell
  always left empty. The keyboard buffer of \<open>console.c\<close> and the pipes of \<open>file.c\<close> are both of this shape; the lemmas say what
  list of elements such a buffer holds and how a write and a read change it.
\<close>

definition ring_count :: "nat \<Rightarrow> nat \<Rightarrow> nat \<Rightarrow> nat" where
  "ring_count N h t = (h + (N - t)) mod N"

definition ring_list :: "nat \<Rightarrow> 'a list \<Rightarrow> nat \<Rightarrow> nat \<Rightarrow> 'a list" where
  "ring_list N b h t = map (\<lambda>i. b ! ((t + i) mod N)) [0..<ring_count N h t]"

lemma length_ring_list [simp]: "length (ring_list N b h t) = ring_count N h t"
  by (simp add: ring_list_def)

lemma ring_count_eq: "h < N \<Longrightarrow> t < N \<Longrightarrow> ring_count N h t = (if t \<le> h then h - t else h + N - t)"
  by (auto simp: ring_count_def mod_if)

lemma ring_count_less: "h < N \<Longrightarrow> ring_count N h t < N"
  by (simp add: ring_count_def)

lemma wrap: "x < N + N \<Longrightarrow> x mod N = (if x < N then x else x - N)" for x :: nat
  by (simp add: le_mod_geq mod_if)

lemma succ_mod: "h < N \<Longrightarrow> Suc h mod N = (if Suc h = N then 0 else Suc h)"
  by auto

lemma ring_empty: "h < N \<Longrightarrow> t < N \<Longrightarrow> ring_count N h t = 0 \<longleftrightarrow> h = t"
  by (auto simp: ring_count_eq)

lemma ring_full: "h < N \<Longrightarrow> t < N \<Longrightarrow> Suc h mod N = t \<longleftrightarrow> ring_count N h t = N - 1"
  by (auto simp: ring_count_eq succ_mod)

lemma ring_cell: "h < N \<Longrightarrow> t < N \<Longrightarrow> (t + ring_count N h t) mod N = h"
  by (auto simp: ring_count_eq)

lemma ring_cell_other: "h < N \<Longrightarrow> t < N \<Longrightarrow> i < ring_count N h t \<Longrightarrow> (t + i) mod N \<noteq> h"
  using ring_count_less [of h N t] by (auto simp: ring_count_eq wrap split: if_splits)

lemma ring_put:
  assumes "h < N" "t < N" "length b = N" "Suc h mod N \<noteq> t"
  shows "ring_list N (b[h := c]) (Suc h mod N) t = ring_list N b h t @ [c]"
proof -
  have n: "ring_count N (Suc h mod N) t = Suc (ring_count N h t)"
    using assms by (auto simp: ring_count_eq succ_mod split: if_splits)
  have "b[h := c] ! ((t + i) mod N) = b ! ((t + i) mod N)" if "i < ring_count N h t" for i
    using ring_cell_other [OF assms(1, 2) that] by simp
  then show ?thesis using ring_cell [OF assms(1, 2)] assms by (simp add: ring_list_def n)
qed

lemma ring_get:
  assumes "h < N" "t < N" "h \<noteq> t"
  shows "ring_list N b h t = b ! t # ring_list N b h (Suc t mod N)"
proof -
  have n: "ring_count N h t = Suc (ring_count N h (Suc t mod N))"
    using assms by (auto simp: ring_count_eq succ_mod)
  have "(Suc t mod N + i) mod N = (t + Suc i) mod N" for i by (simp add: mod_add_left_eq)
  then show ?thesis using assms(2) unfolding ring_list_def n by (simp add: upt_conv_Cons map_Suc_upt [symmetric] del: upt_Suc)
qed

end
