(* ===== verification/Console.thy ===== *)
theory Console
  imports Ring Fdt Sched
begin

text \<open>
  The console (\<open>stam/console.c\<close>): three serial drivers behind \<open>kputc\<close>, the keyboard ring the interrupt fills, the line editor
  behind a read of the terminal, and \<open>kprintf\<close>.

  The port is a device outside the program: what a read of one of its registers returns is a function of the accesses made
  before, the field \<open>port\<close>, and every access the driver makes is recorded in \<open>trace\<close>, the latest first. A wait for a thread
  that is not the caller's turn (the line editor asleep, or yielding) is a round of an explicit schedule.

  The lemmas show that the keyboard ring is a bounded queue, that an interrupt empties the port in order and turns a
  Ctrl-C into a signal and never into input, what a line read from the terminal can be, and that the numbers
  \<open>kprintf\<close> writes read back.
\<close>

section \<open>Registers\<close>

datatype uart_kind = UART_NONE | UART_PL011 | UART_8250 | UART_GENI

datatype bus = RegRead u64 | RegWrite u64 u32

record con =
  uart_base :: u64
  console_node :: u32
  uart_kind :: uart_kind
  uart_shift :: u32
  uart_width :: u32
  chatty :: bool
  ring_buf :: bytes
  ring_head :: u32
  ring_tail :: u32
  interrupt_driven :: bool
  fg_pgid :: int
  port :: "bus list \<Rightarrow> u64 \<Rightarrow> u32"
  trace :: "bus list"

definition PL011_DR :: u32 where "PL011_DR = 0x00"
definition PL011_FR :: u32 where "PL011_FR = 0x18"
definition PL011_FR_TXFF :: u32 where "PL011_FR_TXFF = 0x20"
definition PL011_FR_RXFE :: u32 where "PL011_FR_RXFE = 0x10"
definition PL011_FR_BUSY :: u32 where "PL011_FR_BUSY = 0x08"
definition PL011_LCRH :: u32 where "PL011_LCRH = 0x2c"
definition PL011_LCRH_FEN :: u32 where "PL011_LCRH_FEN = 0x10"
definition PL011_CR :: u32 where "PL011_CR = 0x30"
definition PL011_CR_EN :: u32 where "PL011_CR_EN = 1"
definition PL011_IFLS :: u32 where "PL011_IFLS = 0x34"
definition PL011_IMSC :: u32 where "PL011_IMSC = 0x38"
definition PL011_ICR :: u32 where "PL011_ICR = 0x44"
definition PL011_INT_RX :: u32 where "PL011_INT_RX = 0x10"
definition PL011_INT_RT :: u32 where "PL011_INT_RT = 0x40"
definition UART_THR :: u32 where "UART_THR = 0"
definition UART_RBR :: u32 where "UART_RBR = 0"
definition UART_LSR :: u32 where "UART_LSR = 5"
definition UART_LSR_THRE :: u32 where "UART_LSR_THRE = 0x20"
definition UART_LSR_DR :: u32 where "UART_LSR_DR = 1"
definition UART_IER :: u32 where "UART_IER = 1"
definition UART_IER_RX :: u32 where "UART_IER_RX = 1"
definition GENI_M_CMD0 :: u32 where "GENI_M_CMD0 = 0x600"
definition GENI_M_IRQ_STATUS :: u32 where "GENI_M_IRQ_STATUS = 0x610"
definition GENI_M_IRQ_CLEAR :: u32 where "GENI_M_IRQ_CLEAR = 0x618"
definition GENI_TX_FIFO :: u32 where "GENI_TX_FIFO = 0x700"
definition GENI_TX_TRANS_LEN :: u32 where "GENI_TX_TRANS_LEN = 0x270"
definition GENI_M_CMD_DONE :: u32 where "GENI_M_CMD_DONE = 1"
definition GENI_M_TX_WATERMARK :: u32 where "GENI_M_TX_WATERMARK = 0x40000000"
definition GENI_UART_START_TX :: u32 where "GENI_UART_START_TX = 0x8000000"

definition reg_addr :: "u32 \<Rightarrow> con \<Rightarrow> u64" where
  "reg_addr r c = uart_base c + push_bit (unat (uart_shift c)) (ucast r)"

definition narrow :: "u32 \<Rightarrow> u32 \<Rightarrow> u32" where
  "narrow w v = (if w = 4 then v else if w = 2 then v AND 0xffff else v AND 0xff)"

definition reg_read :: "u32 \<Rightarrow> con \<Rightarrow> u32 \<times> con" where
  "reg_read r c =
     (let a = reg_addr r c in (narrow (uart_width c) (port c (trace c) a), c\<lparr>trace := RegRead a # trace c\<rparr>))"

definition reg_write :: "u32 \<Rightarrow> u32 \<Rightarrow> con \<Rightarrow> con" where
  "reg_write r v c = c\<lparr>trace := RegWrite (reg_addr r c) (narrow (uart_width c) v) # trace c\<rparr>"

text \<open>The loop of \<open>wait_for\<close>; its bound is the argument \<open>spins\<close>.\<close>

primrec wait_spin :: "nat \<Rightarrow> u32 \<Rightarrow> u32 \<Rightarrow> bool \<Rightarrow> con \<Rightarrow> bool \<times> con" where
  "wait_spin 0 off msk want c = (False, c)"
| "wait_spin (Suc spins) off msk want c =
     (let (v, c1) = reg_read off c
      in if (if want then v AND msk \<noteq> 0 else v AND msk = 0) then (True, c1) else wait_spin spins off msk want c1)"

definition SPINS :: nat where "SPINS = 1000000"

definition wait_for :: "u32 \<Rightarrow> u32 \<Rightarrow> bool \<Rightarrow> con \<Rightarrow> bool \<times> con" where
  "wait_for = wait_spin SPINS"

section \<open>Output\<close>

definition put_raw :: "u8 \<Rightarrow> con \<Rightarrow> con" where
  "put_raw ch c =
     (case uart_kind c of
        UART_NONE \<Rightarrow> c
      | UART_PL011 \<Rightarrow>
          (let (ok, c1) = wait_for PL011_FR PL011_FR_TXFF False c
           in if ok then reg_write PL011_DR (ucast ch) c1 else c1)
      | UART_8250 \<Rightarrow>
          (let (ok, c1) = wait_for UART_LSR UART_LSR_THRE True c
           in if ok then reg_write UART_THR (ucast ch) c1 else c1)
      | UART_GENI \<Rightarrow>
          (let c1 = reg_write GENI_M_CMD0 GENI_UART_START_TX (reg_write GENI_TX_TRANS_LEN 1 c);
               (ok, c2) = wait_for GENI_M_IRQ_STATUS GENI_M_TX_WATERMARK True c1
           in if \<not> ok then c2
              else let c3 = reg_write GENI_M_IRQ_CLEAR GENI_M_TX_WATERMARK (reg_write GENI_TX_FIFO (ucast ch) c2);
                       (ok', c4) = wait_for GENI_M_IRQ_STATUS GENI_M_CMD_DONE True c3
                   in if ok' then reg_write GENI_M_IRQ_CLEAR GENI_M_CMD_DONE c4 else c4))"

definition kputc :: "u8 \<Rightarrow> con \<Rightarrow> con" where
  "kputc ch c = (if uart_kind c = UART_NONE then c else put_raw ch (if ch = 10 then put_raw 13 c else c))"

definition kputs :: "bytes \<Rightarrow> con \<Rightarrow> con" where
  "kputs = fold kputc"

definition kquiet :: "bool \<Rightarrow> con \<Rightarrow> con" where
  "kquiet on c = c\<lparr>chatty := \<not> on\<rparr>"

section \<open>The keyboard\<close>

definition RING :: u32 where "RING = 256"

definition ring_get :: "con \<Rightarrow> u8 option \<times> con" where
  "ring_get c =
     (if ring_head c = ring_tail c then (None, c)
      else (Some (ring_buf c ! unat (ring_tail c)), c\<lparr>ring_tail := (ring_tail c + 1) mod RING\<rparr>))"

definition ring_put :: "u8 \<Rightarrow> con \<Rightarrow> con" where
  "ring_put ch c =
     (let nxt = (ring_head c + 1) mod RING
      in if nxt = ring_tail c then c
         else c\<lparr>ring_buf := (ring_buf c)[unat (ring_head c) := ch], ring_head := nxt\<rparr>)"

definition hw_getc :: "con \<Rightarrow> u8 option \<times> con" where
  "hw_getc c =
     (case uart_kind c of
        UART_PL011 \<Rightarrow>
          (let (v, c1) = reg_read PL011_FR c
           in if v AND PL011_FR_RXFE \<noteq> 0 then (None, c1)
              else let (d, c2) = reg_read PL011_DR c1 in (Some (ucast (d AND 0xff)), c2))
      | UART_8250 \<Rightarrow>
          (let (v, c1) = reg_read UART_LSR c
           in if v AND UART_LSR_DR = 0 then (None, c1)
              else let (d, c2) = reg_read UART_RBR c1 in (Some (ucast (d AND 0xff)), c2))
      | _ \<Rightarrow> (None, c))"

definition console_set_foreground :: "int \<Rightarrow> con \<Rightarrow> con" where
  "console_set_foreground pg c = c\<lparr>fg_pgid := pg\<rparr>"

text \<open>\<open>kputs("^C\n")\<close> and the signal.\<close>

definition intr_char :: "u8 \<Rightarrow> con \<times> sched \<Rightarrow> bool \<times> con \<times> sched" where
  "intr_char ch cs =
     (case cs of (c, s) \<Rightarrow>
        if ch \<noteq> 3 then (False, c, s)
        else (True, kputs [94, 67, 10] c, if fg_pgid c \<noteq> 0 then snd (thread_signal (- fg_pgid c) SIGINT s) else s))"

primrec drain :: "nat \<Rightarrow> con \<times> sched \<Rightarrow> (con \<times> sched) option" where
  "drain 0 cs = None"
| "drain (Suc fuel) cs =
     (case cs of (c, s) \<Rightarrow>
       (case hw_getc c of
          (None, c1) \<Rightarrow> Some (c1, s)
        | (Some ch, c1) \<Rightarrow>
            (case intr_char ch (c1, s) of
               (True, cs2) \<Rightarrow> drain fuel cs2
             | (False, c2, s2) \<Rightarrow> drain fuel (ring_put ch c2, s2))))"

text \<open>A port that never runs dry keeps the interrupt for ever: \<open>None\<close>, whatever the fuel.\<close>

definition console_interrupt :: "nat \<Rightarrow> con \<times> sched \<Rightarrow> (con \<times> sched) option" where
  "console_interrupt fuel cs =
     (case cs of (c, s) \<Rightarrow>
        drain fuel (if uart_kind c = UART_PL011 then reg_write PL011_ICR (PL011_INT_RX OR PL011_INT_RT) c else c, s))"

definition kgetc :: "con \<Rightarrow> u8 option \<times> con" where
  "kgetc c = (if interrupt_driven c then ring_get c else hw_getc c)"

section \<open>Reading a line\<close>

text \<open>One round of the loop of \<open>console_read_line\<close>: a character is dealt with, or there is none and the thread gives way.\<close>

datatype round = Line bytes con | More bytes con | Asleep con | Yielded con

definition read_round :: "u64 \<Rightarrow> bytes \<Rightarrow> con \<Rightarrow> round" where
  "read_round len out c =
     (case kgetc c of
        (None, c1) \<Rightarrow> if interrupt_driven c1 then Asleep c1 else Yielded c1
      | (Some ch, c1) \<Rightarrow>
          if ch = 13 \<or> ch = 10 then Line (out @ [10]) (kputc 10 c1)
          else if ch = 0x7f \<or> ch = 8 then
            (if out \<noteq> [] then More (butlast out) (kputs [8, 32, 8] c1) else More out c1)
          else if ch < 32 \<or> ch > 126 then More out c1
          else if of_nat (length out) + 1 \<ge> len then More out c1
          else More (out @ [ch]) (kputc ch c1))"

text \<open>
  A schedule says, for each round, what the rest of the machine did to the console before it, and whether the thread has a
  signal to act on when it comes back from sleep. \<open>None\<close> is a reader still waiting when the schedule ends.
\<close>

type_synonym schedule = "((con \<Rightarrow> con) \<times> bool) list"

primrec read_rounds :: "schedule \<Rightarrow> u64 \<Rightarrow> bytes \<Rightarrow> con \<Rightarrow> (int \<times> bytes \<times> con) option" where
  "read_rounds [] len out c = None"
| "read_rounds (w # ws) len out c =
     (case read_round len out (fst w c) of
        Line l c1 \<Rightarrow> Some (int (length l), l, c1)
      | More o1 c1 \<Rightarrow> read_rounds ws len o1 c1
      | Asleep c1 \<Rightarrow> if snd w then Some (-4, out, c1) else read_rounds ws len out c1
      | Yielded c1 \<Rightarrow> read_rounds ws len out c1)"

definition console_read_line :: "schedule \<Rightarrow> u64 \<Rightarrow> con \<Rightarrow> (int \<times> bytes \<times> con) option" where
  "console_read_line ws len c = (if len = 0 then Some (0, [], c) else read_rounds ws len [] (kquiet True c))"

definition console_enable_interrupt :: "con \<Rightarrow> con" where
  "console_enable_interrupt c =
     (case uart_kind c of
        UART_PL011 \<Rightarrow>
          (let (cr, c1) = reg_read PL011_CR c;
               c2 = reg_write PL011_CR (cr AND NOT PL011_CR_EN) c1;
               (_, c3) = wait_for PL011_FR PL011_FR_BUSY False c2;
               (lc, c4) = reg_read PL011_LCRH c3;
               c5 = reg_write PL011_LCRH (lc OR PL011_LCRH_FEN) c4;
               c6 = reg_write PL011_IFLS 0 (reg_write PL011_CR cr c5);
               c7 = reg_write PL011_IMSC (PL011_INT_RX OR PL011_INT_RT) (reg_write PL011_ICR 0x7ff c6)
           in c7\<lparr>interrupt_driven := True\<rparr>)
      | UART_8250 \<Rightarrow> (reg_write UART_IER UART_IER_RX c)\<lparr>interrupt_driven := True\<rparr>
      | _ \<Rightarrow> c)"

section \<open>Printing\<close>

definition digit :: "u64 \<Rightarrow> u8" where
  "digit d = (if d < 10 then 48 + ucast d else 97 + ucast d - 10)"

text \<open>The digits of a number, the least significant first, as \<open>kputu\<close> fills its buffer. The bases used are 10 and 16.\<close>

function digits :: "u64 \<Rightarrow> u64 \<Rightarrow> bytes" where
  "digits bas v = (if v = 0 \<or> bas \<le> 1 then [] else digit (v mod bas) # digits bas (v div bas))"
  by auto
termination
proof (relation "measure (\<lambda>(bas, v). unat v)")
  fix bas v :: u64
  assume "\<not> (v = 0 \<or> bas \<le> 1)"
  then have "0 < unat v" "1 < unat bas" by (auto simp: unat_gt_0 word_le_nat_alt)
  then show "((bas, v div bas), bas, v) \<in> measure (\<lambda>(bas, v). unat v)" by (simp add: unat_div_distrib)
qed simp

declare digits.simps [simp del]

lemma digits_0 [simp]: "digits bas 0 = []"
  by (simp add: digits.simps)

definition number_buf :: "u64 \<Rightarrow> u64 \<Rightarrow> int \<Rightarrow> bytes" where
  "number_buf v bas pad = (let ds = (if v = 0 then [48] else digits bas v) in ds @ replicate (nat pad - length ds) 48)"

text \<open>The buffer of \<open>kputu\<close> has 32 bytes; a width beyond that overruns it, which is \<open>None\<close>.\<close>

definition kputu :: "u64 \<Rightarrow> u64 \<Rightarrow> int \<Rightarrow> con \<Rightarrow> con option" where
  "kputu v bas pad c =
     (let b = number_buf v bas pad in if length b > 32 then None else Some (kputs (rev b) c))"

text \<open>The arguments of a call, by the type they are passed with; a string may be a null pointer.\<close>

datatype va = VStr "bytes option" | VInt u32 | VLong u64 | VPtr u64

fun width_of :: "int \<Rightarrow> bytes \<Rightarrow> int \<times> bytes" where
  "width_of pad (f # fs) = (if 48 \<le> f \<and> f \<le> 57 then width_of (pad * 10 + int (unat (f - 48))) fs else (pad, f # fs))"
| "width_of pad [] = (pad, [])"

fun length_mod :: "bytes \<Rightarrow> bool \<times> bytes" where
  "length_mod (f # fs) = (if f = 108 then (True, case fs of g # gs \<Rightarrow> if g = 108 then gs else fs | [] \<Rightarrow> []) else (False, f # fs))"
| "length_mod [] = (False, [])"

definition unsigned_arg :: "bool \<Rightarrow> va \<Rightarrow> u64 option" where
  "unsigned_arg wide a = (case a of VInt v \<Rightarrow> if wide then None else Some (ucast v) | VLong v \<Rightarrow> if wide then Some v else None | _ \<Rightarrow> None)"

definition signed_arg :: "bool \<Rightarrow> va \<Rightarrow> u64 option" where
  "signed_arg wide a = (case a of VInt v \<Rightarrow> if wide then None else Some (scast v) | VLong v \<Rightarrow> if wide then Some v else None | _ \<Rightarrow> None)"

text \<open>One conversion; \<open>None\<close> where the argument is missing or of another type than the conversion reads.\<close>

definition convert :: "u8 \<Rightarrow> bool \<Rightarrow> int \<Rightarrow> va list \<Rightarrow> con \<Rightarrow> (va list \<times> con) option" where
  "convert f wide pad args c =
     (if f = 115 then
        (case args of VStr s # as \<Rightarrow> Some (as, kputs (case s of Some x \<Rightarrow> x | None \<Rightarrow> [40, 110, 117, 108, 108, 41]) c) | _ \<Rightarrow> None)
      else if f = 99 then (case args of VInt v # as \<Rightarrow> Some (as, kputc (ucast v) c) | _ \<Rightarrow> None)
      else if f = 100 then
        (case args of
           a # as \<Rightarrow>
             (case signed_arg wide a of
                None \<Rightarrow> None
              | Some v \<Rightarrow> map_option (Pair as) (if sint v < 0 then kputu (- v) 10 pad (kputc 45 c) else kputu v 10 pad c))
         | [] \<Rightarrow> None)
      else if f = 117 \<or> f = 120 then
        (case args of
           a # as \<Rightarrow>
             (case unsigned_arg wide a of
                None \<Rightarrow> None
              | Some v \<Rightarrow> map_option (Pair as) (kputu v (if f = 117 then 10 else 16) pad c))
         | [] \<Rightarrow> None)
      else if f = 112 then
        (case args of VPtr v # as \<Rightarrow> map_option (Pair as) (kputu v 16 16 (kputs [48, 120] c)) | _ \<Rightarrow> None)
      else if f = 37 then Some (args, kputc 37 c)
      else Some (args, kputc f (kputc 37 c)))"

lemma width_of_length: "length (snd (width_of pad fs)) \<le> length fs"
  by (induction pad fs rule: width_of.induct) auto

lemma length_mod_length: "length (snd (length_mod fs)) \<le> length fs"
  by (cases fs rule: length_mod.cases) (auto split: list.split)

text \<open>The format string, without its terminator. A lone percent sign at its end reads past it: \<open>None\<close>.\<close>

function kprintf :: "bytes \<Rightarrow> va list \<Rightarrow> con \<Rightarrow> con option" where
  "kprintf [] args c = Some c"
| "kprintf (f # fs) args c =
     (if f \<noteq> 37 then kprintf fs args (kputc f c)
      else case snd (length_mod (snd (width_of 0 fs))) of
        [] \<Rightarrow> None
      | k # ks \<Rightarrow>
          (case convert k (fst (length_mod (snd (width_of 0 fs)))) (fst (width_of 0 fs)) args c of
             None \<Rightarrow> None
           | Some (args1, c1) \<Rightarrow> kprintf ks args1 c1))"
  by pat_completeness auto
termination
proof (relation "measure (\<lambda>(fs, _, _). length fs)")
  fix f :: u8 and fs :: bytes and args :: "va list" and c :: con and k ks x2 a b
  assume "snd (length_mod (snd (width_of 0 fs))) = k # ks"
  then have "length ks < length fs"
    using length_mod_length [of "snd (width_of 0 fs)"] width_of_length [of 0 fs] by simp
  then show "((ks, a, b), f # fs, args, c) \<in> measure (\<lambda>(fs, _, _). length fs)" by simp
qed simp_all

section \<open>Finding the port\<close>

definition lit_chosen :: bytes where "lit_chosen = [47, 99, 104, 111, 115, 101, 110]"
definition lit_stdout_path :: bytes where "lit_stdout_path = [115, 116, 100, 111, 117, 116, 45, 112, 97, 116, 104]"
definition lit_pl011 :: bytes where "lit_pl011 = [97, 114, 109, 44, 112, 108, 48, 49, 49]"
definition lit_ns16550a :: bytes where "lit_ns16550a = [110, 115, 49, 54, 53, 53, 48, 97]"
definition lit_ns16550 :: bytes where "lit_ns16550 = [110, 115, 49, 54, 53, 53, 48]"
definition lit_geni_debug :: bytes where
  "lit_geni_debug = [113, 99, 111, 109, 44, 103, 101, 110, 105, 45, 100, 101, 98, 117, 103, 45, 117, 97, 114, 116]"
definition lit_geni :: bytes where "lit_geni = [113, 99, 111, 109, 44, 103, 101, 110, 105, 45, 117, 97, 114, 116]"
definition lit_reg_shift :: bytes where "lit_reg_shift = [114, 101, 103, 45, 115, 104, 105, 102, 116]"
definition lit_reg_io_width :: bytes where "lit_reg_io_width = [114, 101, 103, 45, 105, 111, 45, 119, 105, 100, 116, 104]"
definition lit_interrupts :: bytes where "lit_interrupts = [105, 110, 116, 101, 114, 114, 117, 112, 116, 115]"

text \<open>The path in \<open>stdout-path\<close>, up to a colon, a terminator, or the room there is.\<close>

definition stdout_node :: "mem \<Rightarrow> fdt \<Rightarrow> u32 \<Rightarrow> u32 option" where
  "stdout_node m f junk =
     (case fdt_find_path m f junk lit_chosen of
        None \<Rightarrow> None
      | Some chosen \<Rightarrow>
          if chosen = FDT_NONE then Some FDT_NONE
          else (case fdt_getprop m f chosen lit_stdout_path of
                  None \<Rightarrow> None
                | Some None \<Rightarrow> Some FDT_NONE
                | Some (Some (pth, len)) \<Rightarrow>
                    if len = 0 then Some FDT_NONE
                    else let path = takeWhile (\<lambda>ch. ch \<noteq> 0 \<and> ch \<noteq> 58) (map (\<lambda>i. m (pth + of_nat i)) [0..<min (unat (len - 1)) 127])
                         in if path \<noteq> [] \<and> hd path = 47 then fdt_find_path m f junk path else Some FDT_NONE))"

primrec first_compatible :: "mem \<Rightarrow> fdt \<Rightarrow> u32 \<Rightarrow> bytes list \<Rightarrow> u32 \<Rightarrow> u32 option" where
  "first_compatible m f junk [] node = Some node"
| "first_compatible m f junk (s # ss) node =
     (if node \<noteq> FDT_NONE then Some node
      else case fdt_find_compatible m f junk s of None \<Rightarrow> None | Some n \<Rightarrow> first_compatible m f junk ss n)"

definition cell_prop :: "mem \<Rightarrow> fdt \<Rightarrow> u32 \<Rightarrow> bytes \<Rightarrow> u32 \<Rightarrow> u32 option" where
  "cell_prop m f node name dflt =
     map_option (\<lambda>r. case r of Some (p, len) \<Rightarrow> if len = 4 then ucast (fdt_cells m p 1) else dflt | None \<Rightarrow> dflt) (fdt_getprop m f node name)"

definition port_kind :: "mem \<Rightarrow> fdt \<Rightarrow> u32 \<Rightarrow> uart_kind option" where
  "port_kind m f node =
     (case fdt_is_compatible m f node lit_pl011 of
        None \<Rightarrow> None
      | Some pl \<Rightarrow>
          if pl then Some UART_PL011
          else (case fdt_is_compatible m f node lit_geni_debug of
                  None \<Rightarrow> None
                | Some gd \<Rightarrow>
                    if gd then Some UART_GENI
                    else map_option (\<lambda>ge. if ge then UART_GENI else UART_8250) (fdt_is_compatible m f node lit_geni)))"

text \<open>The boolean is the value returned, \<open>True\<close> for 0; the outer \<open>None\<close> a walk of the tree that does not end.\<close>

definition console_init :: "mem \<Rightarrow> fdt \<Rightarrow> u32 \<Rightarrow> con \<Rightarrow> (bool \<times> con) option" where
  "console_init m f junk c =
     (case stdout_node m f junk of
        None \<Rightarrow> None
      | Some n0 \<Rightarrow>
        (case first_compatible m f junk [lit_pl011, lit_ns16550a, lit_ns16550, lit_geni_debug, lit_geni] n0 of
           None \<Rightarrow> None
         | Some node \<Rightarrow>
             if node = FDT_NONE then Some (False, c)
             else (case fdt_reg m f node of
                     None \<Rightarrow> None
                   | Some None \<Rightarrow> Some (False, c)
                   | Some (Some (addr, sz)) \<Rightarrow>
                       (case (cell_prop m f node lit_reg_shift 0, cell_prop m f node lit_reg_io_width 1, port_kind m f node) of
                          (Some sh, Some wd, Some k) \<Rightarrow>
                            Some (True, c\<lparr>console_node := node, uart_base := addr, uart_kind := k,
                              uart_shift := (if k = UART_8250 then sh else 0), uart_width := (if k = UART_8250 then wd else 4)\<rparr>)
                        | _ \<Rightarrow> None))))"

definition console_rebase :: "u64 \<Rightarrow> con \<Rightarrow> con" where
  "console_rebase off c = (if uart_kind c \<noteq> UART_NONE then c\<lparr>uart_base := uart_base c + off\<rparr> else c)"

text \<open>The number of the interrupt, \<open>Some None\<close> for -1.\<close>

definition console_irq :: "mem \<Rightarrow> fdt \<Rightarrow> con \<Rightarrow> u32 option option" where
  "console_irq m f c =
     (if console_node c = FDT_NONE then Some None
      else case fdt_getprop m f (console_node c) lit_interrupts of
        None \<Rightarrow> None
      | Some None \<Rightarrow> Some None
      | Some (Some (p, len)) \<Rightarrow>
          if len < 12 then Some None
          else let ty = (ucast (fdt_cells m p 1) :: u32); num = ucast (fdt_cells m (p + 4) 1)
               in Some (Some (if ty = 1 then num + 16 else num + 32)))"

section \<open>The keyboard ring\<close>

definition kb_list :: "con \<Rightarrow> bytes" where
  "kb_list c = ring_list 256 (ring_buf c) (unat (ring_head c)) (unat (ring_tail c))"

definition kb_inv :: "con \<Rightarrow> bool" where
  "kb_inv c \<longleftrightarrow> length (ring_buf c) = 256 \<and> unat (ring_head c) < 256 \<and> unat (ring_tail c) < 256"

definition kb_put :: "u8 \<Rightarrow> con \<Rightarrow> con option" where
  "kb_put ch c = (if (ring_head c + 1) mod RING = ring_tail c then None else Some (ring_put ch c))"

definition kb_get :: "con \<Rightarrow> (u8 \<times> con) option" where
  "kb_get c = (case ring_get c of (None, c1) \<Rightarrow> None | (Some ch, c1) \<Rightarrow> Some (ch, c1))"

lemma unat_ring_next:
  assumes "unat x < 256"
  shows "unat ((x + 1) mod RING) = Suc (unat x) mod 256"
proof -
  have "unat (x + 1) = Suc (unat x)" using assms by (simp add: unat_word_ariths)
  then show ?thesis by (simp add: RING_def unat_mod_distrib)
qed

lemma ring_put_eq: "ring_put ch c = (case kb_put ch c of None \<Rightarrow> c | Some c' \<Rightarrow> c')"
  by (simp add: ring_put_def kb_put_def Let_def)

lemma kb_put_spec:
  assumes "kb_inv c"
  shows "kb_put ch c = None \<longleftrightarrow> 255 \<le> length (kb_list c)"
    and "kb_put ch c = Some c' \<Longrightarrow> kb_list c' = kb_list c @ [ch] \<and> kb_inv c'"
proof -
  let ?h = "unat (ring_head c)" and ?t = "unat (ring_tail c)"
  have b: "?h < 256" "?t < 256" "length (ring_buf c) = 256" using assms by (simp_all add: kb_inv_def)
  have full: "(ring_head c + 1) mod RING = ring_tail c \<longleftrightarrow> Suc ?h mod 256 = ?t"
    using unat_ring_next [OF b(1)] by (metis word_unat_eq_iff)
  show "kb_put ch c = None \<longleftrightarrow> 255 \<le> length (kb_list c)"
    using ring_full [OF b(1, 2)] ring_count_less [OF b(1), of ?t] full by (auto simp: kb_put_def kb_list_def)
  assume p: "kb_put ch c = Some c'"
  then have "Suc ?h mod 256 \<noteq> ?t" "c' = ring_put ch c" using full by (auto simp: kb_put_def split: if_splits)
  then show "kb_list c' = kb_list c @ [ch] \<and> kb_inv c'"
    using ring_put [OF b, of ch] full b
    by (simp add: ring_put_def Let_def kb_list_def kb_inv_def unat_ring_next)
qed

lemma kb_get_spec:
  assumes "kb_inv c"
  shows "kb_get c = None \<longleftrightarrow> kb_list c = []"
    and "kb_get c = Some (ch, c') \<Longrightarrow> kb_list c = ch # kb_list c' \<and> kb_inv c'"
proof -
  let ?h = "unat (ring_head c)" and ?t = "unat (ring_tail c)"
  have b: "?h < 256" "?t < 256" using assms by (simp_all add: kb_inv_def)
  show "kb_get c = None \<longleftrightarrow> kb_list c = []"
    using ring_empty [OF b] by (auto simp: kb_get_def ring_get_def kb_list_def word_unat_eq_iff length_0_conv [symmetric] simp del: length_0_conv)
  assume g: "kb_get c = Some (ch, c')"
  then have "?h \<noteq> ?t" by (auto simp: kb_get_def ring_get_def word_unat_eq_iff split: if_splits)
  then show "kb_list c = ch # kb_list c' \<and> kb_inv c'"
    using ring_get [OF b, of "ring_buf c"] g b assms
    by (auto simp: kb_get_def ring_get_def kb_list_def kb_inv_def unat_ring_next split: if_splits)
qed

interpretation keyboard: byte_queue kb_list kb_inv kb_put kb_get 255
proof
  show "kb_inv q \<Longrightarrow> (kb_put ch q = None) = (255 \<le> length (kb_list q))" for q ch by (rule kb_put_spec(1))
  show "kb_inv q \<Longrightarrow> kb_put ch q = Some q' \<Longrightarrow> kb_list q' = kb_list q @ [ch] \<and> kb_inv q'" for q ch q' by (rule kb_put_spec(2))
  show "kb_inv q \<Longrightarrow> (kb_get q = None) = (kb_list q = [])" for q by (rule kb_get_spec(1))
  show "kb_inv q \<Longrightarrow> kb_get q = Some (ch, q') \<Longrightarrow> kb_list q = ch # kb_list q' \<and> kb_inv q'" for q ch q' by (rule kb_get_spec(2))
qed

lemma fold_ring_put: "kb_inv c \<Longrightarrow> fold ring_put cs c = snd (keyboard.put_all cs c)"
proof (induction cs arbitrary: c)
  case (Cons x xs)
  show ?case
  proof (cases "kb_put x c")
    case None
    have "fold ring_put xs c = c"
    proof -
      have "kb_put y c = None" for y using None by (simp add: kb_put_def split: if_splits)
      then show ?thesis by (induction xs) (simp_all add: ring_put_eq)
    qed
    then show ?thesis using None by (simp add: ring_put_eq [of x])
  next
    case (Some c')
    then show ?thesis using Cons keyboard.put_append by (simp add: ring_put_eq [of x])
  qed
qed simp

lemma kb_after_puts:
  assumes "kb_inv c"
  shows "kb_inv (fold ring_put cs c)" "kb_list (fold ring_put cs c) = kb_list c @ take (255 - length (kb_list c)) cs"
proof -
  have "length (kb_list c) \<le> 255" using ring_count_less [of "unat (ring_head c)" 256 "unat (ring_tail c)"] assms by (simp add: kb_list_def kb_inv_def)
  from keyboard.put_all_spec [OF assms this, of cs "fst (keyboard.put_all cs c)" "snd (keyboard.put_all cs c)"]
  show "kb_inv (fold ring_put cs c)" "kb_list (fold ring_put cs c) = kb_list c @ take (255 - length (kb_list c)) cs"
    by (simp_all add: fold_ring_put [OF assms])
qed

section \<open>What output leaves alone\<close>

text \<open>Everything but the trace, which only grows; a PL011 is not read from, only its flags are.\<close>

definition quiet_on :: "con \<Rightarrow> con \<Rightarrow> bool" where
  "quiet_on c c' \<longleftrightarrow>
     (\<exists>t. c' = c\<lparr>trace := t @ trace c\<rparr> \<and>
          (uart_kind c = UART_PL011 \<and> uart_shift c = 0 \<longrightarrow> RegRead (reg_addr PL011_DR c) \<notin> set t))"

lemma quiet_refl [simp]: "quiet_on c c"
  unfolding quiet_on_def by (intro exI [of _ "[]"]) simp

lemma quiet_trans [trans]:
  assumes "quiet_on c c1" "quiet_on c1 c2"
  shows "quiet_on c c2"
proof -
  obtain t t' where t: "c1 = c\<lparr>trace := t @ trace c\<rparr>" "c2 = c1\<lparr>trace := t' @ trace c1\<rparr>"
    "uart_kind c = UART_PL011 \<and> uart_shift c = 0 \<longrightarrow> RegRead (reg_addr PL011_DR c) \<notin> set t"
    "uart_kind c1 = UART_PL011 \<and> uart_shift c1 = 0 \<longrightarrow> RegRead (reg_addr PL011_DR c1) \<notin> set t'"
    using assms unfolding quiet_on_def by blast
  then show ?thesis unfolding quiet_on_def by (intro exI [of _ "t' @ t"]) (auto simp: reg_addr_def)
qed

lemma quiet_kind: "quiet_on c c' \<Longrightarrow> uart_kind c' = uart_kind c"
  unfolding quiet_on_def by auto

lemma quiet_write: "quiet_on c (reg_write r v c)"
  unfolding quiet_on_def reg_write_def by (intro exI [of _ "[RegWrite (reg_addr r c) (narrow (uart_width c) v)]"]) simp

lemma quiet_read:
  assumes "uart_kind c = UART_PL011 \<Longrightarrow> r = PL011_FR"
  shows "quiet_on c (snd (reg_read r c))"
  using assms unfolding quiet_on_def reg_read_def Let_def
  by (intro exI [of _ "[RegRead (reg_addr r c)]"]) (auto simp: reg_addr_def PL011_FR_def PL011_DR_def)

lemma quiet_wait_spin:
  "(uart_kind c = UART_PL011 \<Longrightarrow> r = PL011_FR) \<Longrightarrow> quiet_on c (snd (wait_spin n r msk want c))"
proof (induction n arbitrary: c)
  case (Suc n)
  have q: "quiet_on c (snd (reg_read r c))" by (rule quiet_read) (rule Suc.prems)
  have "quiet_on (snd (reg_read r c)) (snd (wait_spin n r msk want (snd (reg_read r c))))"
    by (rule Suc.IH) (use quiet_kind [OF q] Suc.prems in simp)
  with q show ?case by (auto simp: case_prod_unfold Let_def intro: quiet_trans)
qed simp

lemma quiet_wait: "(uart_kind c = UART_PL011 \<Longrightarrow> r = PL011_FR) \<Longrightarrow> wait_for r msk want c = (b, c') \<Longrightarrow> quiet_on c c'"
  unfolding wait_for_def using quiet_wait_spin by (metis snd_conv)

lemma quiet_put_raw: "quiet_on c (put_raw ch c)"
proof (cases "uart_kind c")
  case UART_NONE
  then show ?thesis by (simp add: put_raw_def)
next
  case UART_PL011
  obtain b c1 where w: "wait_for PL011_FR PL011_FR_TXFF False c = (b, c1)" by fastforce
  then have "quiet_on c c1" by (rule quiet_wait [rotated]) simp
  then show ?thesis using UART_PL011 w quiet_write quiet_trans by (auto simp: put_raw_def)
next
  case UART_8250
  obtain b c1 where w: "wait_for UART_LSR UART_LSR_THRE True c = (b, c1)" by fastforce
  then have "quiet_on c c1" by (rule quiet_wait [rotated]) (simp add: UART_8250)
  then show ?thesis using UART_8250 w quiet_write quiet_trans by (auto simp: put_raw_def)
next
  case UART_GENI
  define c1 where "c1 = reg_write GENI_M_CMD0 GENI_UART_START_TX (reg_write GENI_TX_TRANS_LEN 1 c)"
  obtain b c2 where w2: "wait_for GENI_M_IRQ_STATUS GENI_M_TX_WATERMARK True c1 = (b, c2)" by fastforce
  define c3 where "c3 = reg_write GENI_M_IRQ_CLEAR GENI_M_TX_WATERMARK (reg_write GENI_TX_FIFO (ucast ch) c2)"
  obtain b' c4 where w4: "wait_for GENI_M_IRQ_STATUS GENI_M_CMD_DONE True c3 = (b', c4)" by fastforce
  have q1: "quiet_on c c1" unfolding c1_def by (rule quiet_trans [OF quiet_write quiet_write])
  have k1: "uart_kind c1 = UART_GENI" using quiet_kind [OF q1] UART_GENI by simp
  have q2: "quiet_on c c2" by (rule quiet_trans [OF q1 quiet_wait [OF _ w2]]) (simp add: k1)
  have q3: "quiet_on c c3" unfolding c3_def by (rule quiet_trans [OF q2 quiet_trans [OF quiet_write quiet_write]])
  have q4: "quiet_on c c4" by (rule quiet_trans [OF q3 quiet_wait [OF _ w4]]) (use quiet_kind [OF q3] UART_GENI in simp)
  show ?thesis using q2 q4 UART_GENI quiet_trans [OF q4 quiet_write]
    by (simp add: put_raw_def c1_def [symmetric] w2 c3_def [symmetric] w4 Let_def)
qed

lemma quiet_kputc: "quiet_on c (kputc ch c)"
  by (auto simp: kputc_def intro: quiet_put_raw quiet_trans)

lemma quiet_kputs: "quiet_on c (kputs cs c)"
  unfolding kputs_def by (induction cs arbitrary: c) (auto intro: quiet_kputc quiet_trans)

lemma quiet_kb [simp]:
  assumes "quiet_on c c'"
  shows "kb_list c' = kb_list c" "kb_inv c' = kb_inv c" "interrupt_driven c' = interrupt_driven c" "fg_pgid c' = fg_pgid c"
  using assms by (auto simp: quiet_on_def kb_list_def kb_inv_def)

lemmas kputc_kb [simp] = quiet_kb [OF quiet_kputc]
lemmas kputs_kb [simp] = quiet_kb [OF quiet_kputs]

section \<open>Lines\<close>

text \<open>What the buffer of a reader holds: printable characters, and room for the newline.\<close>

definition partial_line :: "u64 \<Rightarrow> bytes \<Rightarrow> bool" where
  "partial_line len out \<longleftrightarrow> length out < unat len \<and> (\<forall>ch \<in> set out. 32 \<le> ch \<and> ch \<le> 126)"

lemma partial_line_snoc:
  assumes "partial_line len out" "\<not> of_nat (length out) + 1 \<ge> len" "32 \<le> ch" "ch \<le> 126"
  shows "partial_line len (out @ [ch])"
proof -
  have l: "length out < unat len" "unat len < 2 ^ 64" using assms(1) unsigned_less [of len] by (auto simp: partial_line_def)
  then have "unat (of_nat (length out) + 1 :: u64) = Suc (length out)" by (simp add: unat_word_ariths unat_of_nat)
  then have "Suc (length out) < unat len" using assms(2) by (simp add: not_le word_less_nat_alt)
  then show ?thesis using assms by (auto simp: partial_line_def)
qed

lemma read_round_line:
  assumes "partial_line len out"
  shows "(case read_round len out c of Line l c1 \<Rightarrow> \<exists>o1. partial_line len o1 \<and> l = o1 @ [10] | More o1 c1 \<Rightarrow> partial_line len o1 | _ \<Rightarrow> True)"
proof -
  have b: "partial_line len (butlast out)" using assms by (auto simp: partial_line_def dest: in_set_butlastD)
  show ?thesis
    using assms b partial_line_snoc [OF assms] by (auto simp: read_round_def not_less split: prod.split option.split)
qed

lemma read_rounds_line:
  assumes "partial_line len out" "read_rounds ws len out c = Some (r, l, c')"
  shows "(r = -4 \<and> partial_line len l) \<or> (\<exists>o1. partial_line len o1 \<and> l = o1 @ [10] \<and> r = int (length l))"
  using assms
proof (induction ws arbitrary: out c)
  case (Cons w ws)
  show ?case
    using Cons read_round_line [OF Cons.prems(1), of "fst w c"]
    by (auto split: round.splits if_splits)
qed simp

text \<open>A round with a plain character in the ring, and one with the return key.\<close>

lemma kgetc_ring:
  assumes "kb_inv c" "interrupt_driven c"
  shows "kb_list c = [] \<Longrightarrow> kgetc c = (None, c)"
    and "kb_list c = ch # q \<Longrightarrow> \<exists>c1. kgetc c = (Some ch, c1) \<and> kb_list c1 = q \<and> kb_inv c1 \<and> interrupt_driven c1"
proof -
  have d: "interrupt_driven (snd (ring_get c))" using assms(2) by (simp add: ring_get_def)
  show "kgetc c = (None, c)" if "kb_list c = []"
    using kb_get_spec(1) [OF assms(1)] that assms(2) by (auto simp: kgetc_def kb_get_def ring_get_def split: if_splits)
  assume l: "kb_list c = ch # q"
  then obtain ch' c1 where g: "kb_get c = Some (ch', c1)" using kb_get_spec(1) [OF assms(1)] by (cases "kb_get c") auto
  then have r: "ring_get c = (Some ch', c1)" by (auto simp: kb_get_def split: prod.splits option.splits)
  show "\<exists>c1. kgetc c = (Some ch, c1) \<and> kb_list c1 = q \<and> kb_inv c1 \<and> interrupt_driven c1"
    using kb_get_spec(2) [OF assms(1) g] l r d assms(2) by (simp add: kgetc_def)
qed

definition typed :: "bytes \<Rightarrow> (con \<Rightarrow> con) \<times> bool" where
  "typed xs = (fold ring_put xs, False)"

lemma fold_ring_put_driven [simp]: "interrupt_driven (fold ring_put xs c) = interrupt_driven c"
  by (induction xs arbitrary: c) (simp_all add: ring_put_def Let_def)

text \<open>
  The reader with \<open>out\<close> in its buffer, the ring, and what is still to be typed together are the line. Each round takes a
  character or finds none, so as many rounds as there are characters after the last key was hit are enough.
\<close>

lemma typed_line:
  assumes "kb_inv c" "interrupt_driven c" "partial_line len out" "\<forall>ch \<in> set cs. 32 \<le> ch \<and> ch \<le> 126"
    "kb_list c @ concat arrs = cs @ [13]" "length cs < 255" "length out + length cs < unat len" "length cs < k"
  shows "\<exists>c'. read_rounds (map typed (arrs @ replicate k [])) len out c = Some (int (length (out @ cs)) + 1, out @ cs @ [10], c')"
  using assms
proof (induction "length arrs + k" arbitrary: arrs k out cs c)
  case 0
  then show ?case by simp
next
  case (Suc n)
  have "\<exists>a arrs' k'. arrs @ replicate k [] = a # arrs' @ replicate k' [] \<and> n = length arrs' + k' \<and>
    concat arrs = a @ concat arrs' \<and> (k' = k \<or> arrs = [] \<and> arrs' = [] \<and> Suc k' = k)"
  proof (cases arrs)
    case Nil
    then have "k = Suc n" using Suc.hyps(2) by simp
    then show ?thesis using Nil by (intro exI [of _ "[]"] exI [of _ n]) simp
  next
    case (Cons a as)
    then show ?thesis using Suc.hyps(2) by (intro exI [of _ a] exI [of _ as] exI [of _ k]) simp
  qed
  then obtain a arrs' k' where ak: "arrs @ replicate k [] = a # arrs' @ replicate k' []" "n = length arrs' + k'"
    "concat arrs = a @ concat arrs'" "k' = k \<or> arrs = [] \<and> arrs' = [] \<and> Suc k' = k" by blast
  let ?c = "fold ring_put a c"
  have "length (kb_list c) + length a \<le> 255"
    using arg_cong [OF Suc.prems(5), of length] Suc.prems(6) ak(3) by simp
  then have kb: "kb_inv ?c" "kb_list ?c = kb_list c @ a" using kb_after_puts [OF Suc.prems(1), of a] by simp_all
  have all: "kb_list ?c @ concat arrs' = cs @ [13]" using Suc.prems(5) kb ak(3) by simp
  have dr: "interrupt_driven ?c" using Suc.prems(2) by simp
  have step: "read_rounds (map typed (arrs @ replicate k [])) len out c =
    (case read_round len out ?c of
        Line l c1 \<Rightarrow> Some (int (length l), l, c1)
      | More o1 c1 \<Rightarrow> read_rounds (map typed (arrs' @ replicate k' [])) len o1 c1
      | Asleep c1 \<Rightarrow> read_rounds (map typed (arrs' @ replicate k' [])) len out c1
      | Yielded c1 \<Rightarrow> read_rounds (map typed (arrs' @ replicate k' [])) len out c1)"
    unfolding ak(1) by (simp add: typed_def split: round.split)
  show ?case
  proof (cases "kb_list ?c")
    case Nil
    have "k' = k" using ak(4) all Nil by auto
    have "read_round len out ?c = Asleep ?c" using kgetc_ring(1) [OF kb(1) dr Nil] dr by (simp add: read_round_def)
    then show ?thesis
      using Suc.hyps(1) [OF ak(2) kb(1) dr Suc.prems(3, 4) all Suc.prems(6, 7)] Suc.prems(8) \<open>k' = k\<close> step by simp
  next
    case (Cons ch q)
    obtain c1 where g: "kgetc ?c = (Some ch, c1)" "kb_list c1 = q" "kb_inv c1" "interrupt_driven c1"
      using kgetc_ring(2) [OF kb(1) dr Cons] by blast
    show ?thesis
    proof (cases cs)
      case Nil
      then have "ch = 13" using all Cons by simp
      then have "read_round len out ?c = Line (out @ [10]) (kputc 10 c1)" using g(1) by (simp add: read_round_def)
      then show ?thesis using step Nil by simp
    next
      case (Cons x xs)
      have x: "ch = x" "q @ concat arrs' = xs @ [13]" using all \<open>kb_list ?c = ch # q\<close> Cons by auto
      have pr: "32 \<le> ch" "ch \<le> 126" using Suc.prems(4) Cons x by auto
      have room: "\<not> of_nat (length out) + 1 \<ge> len"
      proof -
        have "Suc (length out) < unat len" "unat len < 2 ^ 64" using Suc.prems(7) Cons unsigned_less [of len] by auto
        moreover from this have "unat (of_nat (length out) + 1 :: u64) = Suc (length out)" by (simp add: unat_word_ariths unat_of_nat)
        ultimately show ?thesis by (simp add: word_le_nat_alt)
      qed
      have nc: "ch \<noteq> 13" "ch \<noteq> 10" "ch \<noteq> 0x7f" "ch \<noteq> 8" "\<not> ch < 32" "\<not> ch > 126" using pr by (auto simp: word_le_nat_alt word_less_nat_alt)
      have r: "read_round len out ?c = More (out @ [ch]) (kputc ch c1)"
        using g(1) nc room by (simp add: read_round_def)
      have "\<exists>c'. read_rounds (map typed (arrs' @ replicate k' [])) len (out @ [ch]) (kputc ch c1) =
          Some (int (length ((out @ [ch]) @ xs)) + 1, (out @ [ch]) @ xs @ [10], c')"
        by (rule Suc.hyps(1) [OF ak(2)])
          (use g x Cons Suc.prems ak(4) partial_line_snoc [OF Suc.prems(3) room pr] in auto)
      then show ?thesis using step r Cons x by simp
    qed
  qed
qed

section \<open>A PL011 with characters waiting\<close>

text \<open>
  What the port is documented to do: the flag register shows an empty receiver exactly when every waiting character has been
  read, and a read of the data register takes the next. Reads of the data register are counted in the trace.
\<close>

definition taken_from :: "u64 \<Rightarrow> bus list \<Rightarrow> nat" where
  "taken_from a t = length (filter (\<lambda>x. x = RegRead a) t)"

definition feeds :: "con \<Rightarrow> bytes \<Rightarrow> bool" where
  "feeds c xs \<longleftrightarrow> uart_kind c = UART_PL011 \<and> uart_shift c = 0 \<and> uart_width c = 4 \<and>
     (\<forall>t. (port c (t @ trace c) (reg_addr PL011_FR c) AND PL011_FR_RXFE \<noteq> 0 \<longleftrightarrow> length xs \<le> taken_from (reg_addr PL011_DR c) t) \<and>
          (taken_from (reg_addr PL011_DR c) t < length xs \<longrightarrow>
             ucast (port c (t @ trace c) (reg_addr PL011_DR c) AND 0xff) = xs ! taken_from (reg_addr PL011_DR c) t))"

lemma feeds_quiet:
  assumes "feeds c xs" "quiet_on c c'"
  shows "feeds c' xs"
proof -
  obtain t where t: "c' = c\<lparr>trace := t @ trace c\<rparr>" "RegRead (reg_addr PL011_DR c) \<notin> set t"
    using assms by (auto simp: quiet_on_def feeds_def)
  have tk: "taken_from (reg_addr PL011_DR c) (t' @ t) = taken_from (reg_addr PL011_DR c) t'" for t'
    using t(2) by (auto simp: taken_from_def filter_empty_conv)
  have c': "t' @ trace c' = (t' @ t) @ trace c" "port c' = port c" "reg_addr r c' = reg_addr r c" "uart_kind c' = uart_kind c"
    "uart_shift c' = uart_shift c" "uart_width c' = uart_width c" for t' r
    by (simp_all add: t(1) reg_addr_def)
  show ?thesis
    unfolding feeds_def c'
  proof (intro conjI allI)
    fix t'
    show "(port c ((t' @ t) @ trace c) (reg_addr PL011_FR c) AND PL011_FR_RXFE \<noteq> 0) = (length xs \<le> taken_from (reg_addr PL011_DR c) t')"
      "taken_from (reg_addr PL011_DR c) t' < length xs \<longrightarrow>
         ucast (port c ((t' @ t) @ trace c) (reg_addr PL011_DR c) AND 0xff) = xs ! taken_from (reg_addr PL011_DR c) t'"
      using assms(1) unfolding feeds_def tk [of t', symmetric] by blast+
  qed (use assms(1) in \<open>simp_all add: feeds_def\<close>)
qed

lemma hw_getc_empty:
  assumes "feeds c []"
  shows "\<exists>c1. hw_getc c = (None, c1) \<and> quiet_on c c1"
proof -
  have "port c ([] @ trace c) (reg_addr PL011_FR c) AND PL011_FR_RXFE \<noteq> 0"
    using assms unfolding feeds_def by (metis le0 list.size(3))
  then show ?thesis using assms quiet_read [of c PL011_FR] by (simp add: hw_getc_def feeds_def reg_read_def Let_def narrow_def)
qed

lemma hw_getc_next:
  assumes "feeds c (x # xs)"
  shows "\<exists>c1. hw_getc c = (Some x, c1) \<and> feeds c1 xs \<and> kb_list c1 = kb_list c \<and> kb_inv c1 = kb_inv c \<and> fg_pgid c1 = fg_pgid c"
proof -
  let ?a = "reg_addr PL011_DR c" and ?f = "reg_addr PL011_FR c"
  have ne: "?f \<noteq> ?a" using assms by (simp add: feeds_def reg_addr_def PL011_FR_def PL011_DR_def)
  have f: "\<And>t. port c (t @ trace c) ?f AND PL011_FR_RXFE \<noteq> 0 \<longleftrightarrow> length (x # xs) \<le> taken_from ?a t"
    "\<And>t. taken_from ?a t < length (x # xs) \<Longrightarrow> ucast (port c (t @ trace c) ?a AND 0xff) = (x # xs) ! taken_from ?a t"
    "uart_kind c = UART_PL011" "uart_width c = 4" "uart_shift c = 0" using assms unfolding feeds_def by auto
  have e: "port c (trace c) ?f AND PL011_FR_RXFE = 0" using f(1) [of "[]"] by (simp add: taken_from_def)
  define c1 where "c1 = c\<lparr>trace := RegRead ?a # RegRead ?f # trace c\<rparr>"
  have d: "ucast (port c (RegRead ?f # trace c) ?a AND 0xff) = x" using f(2) [of "[RegRead ?f]"] ne by (simp add: taken_from_def)
  have g: "hw_getc c = (Some x, c1)"
    using e d f(3-5) by (simp add: hw_getc_def reg_read_def Let_def narrow_def c1_def reg_addr_def)
  have addr: "reg_addr r c1 = reg_addr r c" for r by (simp add: reg_addr_def c1_def)
  have "feeds c1 xs" unfolding feeds_def addr
  proof (intro conjI allI impI)
    fix t
    have tk: "taken_from ?a (t @ [RegRead ?a, RegRead ?f]) = Suc (taken_from ?a t)" using ne by (simp add: taken_from_def)
    have tr: "t @ trace c1 = (t @ [RegRead ?a, RegRead ?f]) @ trace c" "port c1 = port c" by (simp_all add: c1_def)
    show "(port c1 (t @ trace c1) ?f AND PL011_FR_RXFE \<noteq> 0) = (length xs \<le> taken_from ?a t)"
      unfolding tr f(1) tk by simp
    show "ucast (port c1 (t @ trace c1) ?a AND 0xff) = xs ! taken_from ?a t" if "taken_from ?a t < length xs"
      using f(2) [of "t @ [RegRead ?a, RegRead ?f]"] that unfolding tr tk by simp
  qed (use f in \<open>simp_all add: c1_def\<close>)
  then show ?thesis using g by (auto simp: c1_def kb_list_def kb_inv_def)
qed

lemma feeds_ring_put: "feeds c xs \<Longrightarrow> feeds (ring_put ch c) xs"
proof -
  have "reg_addr r (ring_put ch c) = reg_addr r c" "port (ring_put ch c) = port c" "trace (ring_put ch c) = trace c"
    "uart_kind (ring_put ch c) = uart_kind c" "uart_shift (ring_put ch c) = uart_shift c" "uart_width (ring_put ch c) = uart_width c" for r
    by (simp_all add: ring_put_def Let_def reg_addr_def)
  then show "feeds c xs \<Longrightarrow> feeds (ring_put ch c) xs" unfolding feeds_def by simp
qed

text \<open>Interrupts from the keyboard reach the foreground group once per Ctrl-C.\<close>

definition interrupts :: "int \<Rightarrow> nat \<Rightarrow> sched \<Rightarrow> sched" where
  "interrupts pg n = (if pg \<noteq> 0 then (\<lambda>s. snd (thread_signal (- pg) SIGINT s)) else (\<lambda>s. s)) ^^ n"

lemma interrupts_Suc: "interrupts pg n (if pg \<noteq> 0 then snd (thread_signal (- pg) SIGINT s) else s) = interrupts pg (Suc n) s"
  unfolding interrupts_def funpow_Suc_right by simp

lemma drain_spec:
  assumes "feeds c xs" "kb_inv c" "length xs < fuel"
  shows "\<exists>c'. drain fuel (c, s) = Some (c', interrupts (fg_pgid c) (count_list xs 3) s) \<and> feeds c' [] \<and> kb_inv c' \<and>
     kb_list c' = kb_list c @ take (255 - length (kb_list c)) (filter (\<lambda>x. x \<noteq> 3) xs)"
  using assms
proof (induction xs arbitrary: c s fuel)
  case Nil
  obtain n where n: "fuel = Suc n" using Nil.prems(3) by (cases fuel) auto
  obtain c1 where c1: "hw_getc c = (None, c1)" "quiet_on c c1" using hw_getc_empty [OF Nil.prems(1)] by blast
  show ?case using c1 n Nil.prems feeds_quiet [OF Nil.prems(1) c1(2)] by (simp add: interrupts_def)
next
  case (Cons x xs)
  obtain n where n: "fuel = Suc n" "length xs < n" using Cons.prems(3) by (cases fuel) auto
  obtain c1 where c1: "hw_getc c = (Some x, c1)" "feeds c1 xs" "kb_list c1 = kb_list c" "kb_inv c1 = kb_inv c" "fg_pgid c1 = fg_pgid c"
    using hw_getc_next [OF Cons.prems(1)] by blast
  show ?case
  proof (cases "x = 3")
    case True
    let ?c2 = "kputs [94, 67, 10] c1"
    have "feeds ?c2 xs" by (rule feeds_quiet [OF c1(2) quiet_kputs])
    from Cons.IH [OF this _ n(2), of "if fg_pgid c \<noteq> 0 then snd (thread_signal (- fg_pgid c) SIGINT s) else s"]
    moreover have "intr_char 3 (c1, s) = (True, ?c2, if fg_pgid c \<noteq> 0 then snd (thread_signal (- fg_pgid c) SIGINT s) else s)"
      using c1(5) by (simp add: intr_char_def)
    ultimately show ?thesis using True n(1) c1 Cons.prems(2) by (simp add: interrupts_Suc split del: if_split)
  next
    case False
    let ?c2 = "ring_put x c1"
    have kb: "kb_inv ?c2" "kb_list ?c2 = kb_list c @ take (255 - length (kb_list c)) [x]" "fg_pgid ?c2 = fg_pgid c"
      using kb_after_puts [of c1 "[x]"] c1 Cons.prems(2) by (simp_all add: ring_put_def Let_def)
    have f: "feeds ?c2 xs" by (rule feeds_ring_put [OF c1(2)])
    have tk: "take (255 - length (kb_list c)) (x # ys) = take (255 - length (kb_list c)) [x] @ take (255 - length (kb_list ?c2)) ys" for ys
    proof (cases "255 - length (kb_list c)")
      case (Suc k)
      then have "254 - length (kb_list c) = k" by simp
      then show ?thesis using kb(2) Suc by simp
    qed (use kb(2) in simp)
    have "kb_list c @ take (255 - length (kb_list c)) (filter (\<lambda>x. x \<noteq> 3) (x # xs)) =
        kb_list ?c2 @ take (255 - length (kb_list ?c2)) (filter (\<lambda>x. x \<noteq> 3) xs)"
      unfolding kb(2) append_assoc tk [symmetric] using False by (simp add: tk [of "filter (\<lambda>x. x \<noteq> 3) xs", unfolded kb(2)])
    moreover have "drain fuel (c, s) = drain n (?c2, s)" using False n(1) c1(1) by (simp add: intr_char_def)
    moreover have "count_list (x # xs) 3 = count_list xs 3" using False by simp
    ultimately show ?thesis using Cons.IH [OF f kb(1) n(2), of s] kb(3) by metis
  qed
qed

section \<open>Numbers\<close>

definition digit_value :: "u8 \<Rightarrow> nat" where
  "digit_value ch = (if ch < 97 then unat ch - 48 else unat ch - 87)"

text \<open>The number a string of digits denotes, most significant digit first.\<close>

definition reads :: "nat \<Rightarrow> bytes \<Rightarrow> nat" where
  "reads bas cs = foldl (\<lambda>n ch. n * bas + digit_value ch) 0 cs"

lemma reads_snoc [simp]: "reads bas (cs @ [ch]) = reads bas cs * bas + digit_value ch"
  by (simp add: reads_def)

lemma reads_zeroes: "reads bas (replicate n 48 @ cs) = reads bas cs"
proof -
  have "foldl (\<lambda>n ch. n * bas + digit_value ch) 0 (replicate n 48) = 0" by (induction n) (simp_all add: digit_value_def)
  then show ?thesis by (simp add: reads_def)
qed

lemma digit_value_digit: "unat d < 16 \<Longrightarrow> digit_value (digit d) = unat d"
proof -
  assume d: "unat d < 16"
  have u: "unat (ucast d :: u8) = unat d" using d by (simp add: unsigned_ucast_eq take_bit_nat_eq_self)
  show ?thesis
  proof (cases "d < 10")
    case True
    then have "unat (48 + ucast d :: u8) = 48 + unat d" using u by (simp add: unat_word_ariths word_less_nat_alt)
    then show ?thesis using True by (simp add: digit_def digit_value_def word_less_nat_alt)
  next
    case False
    have e: "(97 + ucast d - 10 :: u8) = 87 + ucast d" by simp
    have "unat (87 + ucast d :: u8) = 87 + unat d" using u d by (simp add: unat_word_ariths)
    then show ?thesis using False unfolding digit_def e by (simp add: digit_value_def word_less_nat_alt)
  qed
qed

lemma reads_digits:
  assumes "1 < unat bas" "unat bas \<le> 16"
  shows "reads (unat bas) (rev (digits bas v)) = unat v"
proof (induction "unat v" arbitrary: v rule: less_induct)
  case less
  have b: "\<not> bas \<le> 1" using assms by (simp add: word_le_nat_alt)
  show ?case
  proof (cases "v = 0")
    case True
    then show ?thesis by (simp add: digits.simps [of bas v] reads_def)
  next
    case False
    have q: "unat (v div bas) = unat v div unat bas" "unat (v mod bas) = unat v mod unat bas"
      by (simp_all add: unat_div_distrib unat_mod_distrib)
    have "unat v \<noteq> 0" using False by (simp add: unat_eq_0)
    then have "reads (unat bas) (rev (digits bas (v div bas))) = unat v div unat bas"
      using less [of "v div bas"] assms q by simp
    moreover have "digit_value (digit (v mod bas)) = unat v mod unat bas"
      using digit_value_digit [of "v mod bas"] assms q by (simp add: less_le_trans [OF mod_less_divisor])
    ultimately show ?thesis using False b by (simp add: digits.simps [of bas v])
  qed
qed

lemma length_digits:
  assumes "1 < unat bas" "unat v < unat bas ^ n"
  shows "length (digits bas v) \<le> n"
  using assms(2)
proof (induction n arbitrary: v)
  case 0
  then show ?case by (simp add: digits.simps [of bas v] unat_eq_0)
next
  case (Suc n)
  have "unat (v div bas) < unat bas ^ n"
    using Suc.prems by (simp add: unat_div_distrib less_mult_imp_div_less mult.commute)
  then show ?case using Suc.IH [of "v div bas"] by (simp add: digits.simps [of bas v])
qed

lemma number_buf_length:
  assumes "bas = 10 \<or> bas = 16"
  shows "length (number_buf v bas pad) \<le> max 20 (nat pad)" "nat pad \<le> length (number_buf v bas pad)"
proof -
  have "length (digits bas v) \<le> 20"
    using assms unsigned_less [of v] by (elim disjE) (auto intro!: length_digits elim!: less_le_trans)
  then show "length (number_buf v bas pad) \<le> max 20 (nat pad)" by (auto simp: number_buf_def Let_def)
  show "nat pad \<le> length (number_buf v bas pad)" by (simp add: number_buf_def Let_def)
qed

lemma number_buf_reads:
  assumes "bas = 10 \<or> bas = 16"
  shows "reads (unat bas) (rev (number_buf v bas pad)) = unat v"
proof (cases "v = 0")
  case True
  then show ?thesis using reads_zeroes [of "unat bas" _ "[48]"] by (simp add: number_buf_def Let_def) (simp add: reads_def digit_value_def)
next
  case False
  then show ?thesis using assms reads_digits [of bas v] by (auto simp: number_buf_def Let_def reads_zeroes)
qed

section \<open>Properties\<close>

text \<open>A line of the terminal. However the keyboard, the scheduler and signals interleave with the reader, a read of the console
  either was interrupted (-4) or returns the length of a line that fits the buffer, ends in a newline, and has only
  printable characters before it; what was written to the buffer never exceeds the length the caller gave.\<close>

lemma console_line_fits:
  assumes "console_read_line ws len c = Some (r, l, c')"
  shows "length l \<le> unat len \<and>
         (len = 0 \<and> r = 0 \<or> r = -4 \<or>
          r = int (length l) \<and> l \<noteq> [] \<and> last l = 10 \<and> (\<forall>ch \<in> set (butlast l). 32 \<le> ch \<and> ch \<le> 126))"
proof (cases "len = 0")
  case True
  then show ?thesis using assms by (simp add: console_read_line_def)
next
  case False
  then have "partial_line len []" by (simp add: partial_line_def unat_gt_0)
  moreover have "read_rounds ws len [] (kquiet True c) = Some (r, l, c')" using assms False by (simp add: console_read_line_def)
  ultimately show ?thesis using read_rounds_line by (fastforce simp: partial_line_def)
qed

text \<open>C35: what is typed is what is read. Printable characters followed by the return key arrive through the keyboard ring in
  pieces at any rounds of the reader; as long as the ring and the buffer hold the line, the read returns exactly it, in order,
  with a newline at the end, once it has had one round per character after the last key.\<close>

theorem typed_line_is_read:
  assumes "kb_inv c" "interrupt_driven c" "kb_list c = []" "\<forall>ch \<in> set cs. 32 \<le> ch \<and> ch \<le> 126" "concat arrs = cs @ [13]"
    "length cs < 255" "length cs < unat len" "length cs < k"
  shows "\<exists>c'. console_read_line (map typed (arrs @ replicate k [])) len c = Some (int (length cs) + 1, cs @ [10], c')"
proof -
  have "len \<noteq> 0" using assms(7) by auto
  moreover have "kb_inv (kquiet True c)" "interrupt_driven (kquiet True c)" "kb_list (kquiet True c) = []" "partial_line len []"
    using assms by (auto simp: kquiet_def kb_inv_def kb_list_def partial_line_def)
  ultimately show ?thesis using typed_line [of "kquiet True c" len "[]" cs arrs k] assms by (simp add: console_read_line_def)
qed

text \<open>An interrupt of a PL011 with characters waiting empties the port. It returns after as many reads as there are characters,
  every character but Ctrl-C is in the ring in the order it arrived, up to the room there was, and each Ctrl-C became one interrupt
  signal to the foreground group and no input.\<close>

lemma console_interrupt_drains:
  assumes "feeds c xs" "kb_inv c" "length xs < fuel"
  shows "\<exists>c'. console_interrupt fuel (c, s) = Some (c', interrupts (fg_pgid c) (count_list xs 3) s) \<and> feeds c' [] \<and> kb_inv c' \<and>
     kb_list c' = kb_list c @ take (255 - length (kb_list c)) (filter (\<lambda>x. x \<noteq> 3) xs)"
proof -
  let ?c = "reg_write PL011_ICR (PL011_INT_RX OR PL011_INT_RT) c"
  have q: "quiet_on c ?c" by (rule quiet_write)
  have "uart_kind c = UART_PL011" using assms(1) by (simp add: feeds_def)
  then show ?thesis
    using drain_spec [OF feeds_quiet [OF assms(1) q], of fuel s] assms(2, 3) quiet_kb [OF q] by (simp add: console_interrupt_def)
qed

text \<open>The numbers \<open>kprintf\<close> writes can be read back: in base 10 and 16 and with a width of at most 32, \<open>kputu\<close> stays inside its
  buffer of 32 bytes and sends digits that denote the number, padded to the width.\<close>

lemma kputu_reads_back:
  assumes "bas = 10 \<or> bas = 16" "pad \<le> 32"
  shows "\<exists>cs. kputu v bas pad c = Some (kputs cs c) \<and> reads (unat bas) cs = unat v \<and> nat pad \<le> length cs \<and> length cs \<le> 32"
proof -
  have "length (number_buf v bas pad) \<le> 32" using number_buf_length(1) [OF assms(1), of v pad] assms(2) by (simp add: max_def split: if_splits)
  then show ?thesis using number_buf_reads [OF assms(1), of v pad] number_buf_length(2) [OF assms(1), of pad v]
    by (intro exI [of _ "rev (number_buf v bas pad)"]) (simp add: kputu_def Let_def)
qed

text \<open>A PL011 at \<open>0x9000000\<close> with three characters waiting, one of them Ctrl-C.\<close>

definition demo_keys :: bytes where "demo_keys = [104, 3, 105]"

definition demo_con :: con where
  "demo_con = \<lparr>uart_base = 0x9000000, console_node = 0, uart_kind = UART_PL011, uart_shift = 0, uart_width = 4, chatty = True,
     ring_buf = replicate 256 0, ring_head = 0, ring_tail = 0, interrupt_driven = True, fg_pgid = 1,
     port = (\<lambda>t a. if a = 0x9000018 then (if length demo_keys \<le> taken_from 0x9000000 t then 0x10 else 0)
                   else if a = 0x9000000 then ucast (demo_keys ! taken_from 0x9000000 t) else 0), trace = []\<rparr>"

lemma demo_con_kb: "kb_inv demo_con" "kb_list demo_con = []" "interrupt_driven demo_con"
  by (simp_all add: demo_con_def kb_inv_def kb_list_def ring_list_def ring_count_def)

lemma ucast_low: "ucast (ucast (x :: u8) AND 0xff :: u32) = x"
proof -
  have m: "(0xff :: u32) = mask 8" by (simp add: mask_eq_exp_minus_1)
  show ?thesis unfolding m by (rule bit_word_eqI) (auto simp: bit_simps)
qed

lemma demo_con_feeds: "feeds demo_con demo_keys"
proof -
  have a: "reg_addr PL011_FR demo_con = 0x9000018" "reg_addr PL011_DR demo_con = 0x9000000"
    by (simp_all add: reg_addr_def demo_con_def PL011_FR_def PL011_DR_def)
  have p: "port demo_con (t @ trace demo_con) 0x9000018 = (if length demo_keys \<le> taken_from 0x9000000 t then 0x10 else 0)"
    "port demo_con (t @ trace demo_con) 0x9000000 = ucast (demo_keys ! taken_from 0x9000000 t)" for t
    by (simp_all add: demo_con_def)
  show ?thesis
    unfolding feeds_def a p ucast_low by (simp add: PL011_FR_RXFE_def) (simp add: demo_con_def)
qed

theorem typed_line_is_read_witness:
  "\<exists>c'. console_read_line (map typed ([[104], [], [105, 13]] @ replicate 3 [])) 80 demo_con = Some (3, [104, 105, 10], c')"
  using typed_line_is_read [OF demo_con_kb(1, 3, 2), of "[104, 105]" "[[104], [], [105, 13]]" 80 3] by simp

end
