(* ===== verification/Wire.thy ===== *)
theory Wire
  imports Prelude
begin

text \<open>
  What goes over the wire, apart from any state: network byte order, the internet checksum, and the headers that
  \<open>stam/net.c\<close> and \<open>stam/tcp.c\<close> write, as lists of bytes. A buffer that the code fills field by field is the concatenation of its
  fields; where the code patches a checksum in afterwards, the header is a function of that field.

  The lemmas show that fields read back, and that a header with its own checksum in it sums to zero, which is the test the
  receiver makes.
\<close>

lemma unat_less: "unat (w :: 'a::len word) < 2 ^ LENGTH('a)"
  by (rule unsigned_less)

lemma unat_up: "LENGTH('a) \<le> LENGTH('b) \<Longrightarrow> unat (ucast (w :: 'a::len word) :: 'b::len word) = unat w"
  by (simp add: unsigned_ucast_eq take_bit_nat_eq_self less_le_trans [OF unat_less])

section \<open>Byte order\<close>

definition put16 :: "u16 \<Rightarrow> bytes" where
  "put16 v = [ucast (drop_bit 8 v), ucast v]"

definition put32 :: "u32 \<Rightarrow> bytes" where
  "put32 v = [ucast (drop_bit 24 v), ucast (drop_bit 16 v), ucast (drop_bit 8 v), ucast v]"

definition be16 :: "bytes \<Rightarrow> nat \<Rightarrow> u16" where
  "be16 b i = push_bit 8 (ucast (b ! i)) OR ucast (b ! (i + 1))"

definition be32 :: "bytes \<Rightarrow> nat \<Rightarrow> u32" where
  "be32 b i = push_bit 24 (ucast (b ! i)) OR push_bit 16 (ucast (b ! (i + 1))) OR push_bit 8 (ucast (b ! (i + 2))) OR ucast (b ! (i + 3))"

lemma length_put16 [simp]: "length (put16 v) = 2" by (simp add: put16_def)
lemma length_put32 [simp]: "length (put32 v) = 4" by (simp add: put32_def)

lemma be32_le32: "be32 b i = le32 (b ! (i + 3)) (b ! (i + 2)) (b ! (i + 1)) (b ! i)"
  by (simp add: be32_def le32_def ac_simps)

lemma be16_le16: "be16 b i = le16 (b ! (i + 1)) (b ! i)"
  by (simp add: be16_def le16_def ac_simps)

lemma put16_bytes: "put16 v = [byte_of v 1, byte_of v 0]"
  by (simp add: put16_def byte_of_def)

lemma put32_bytes: "put32 v = [byte_of v 3, byte_of v 2, byte_of v 1, byte_of v 0]"
  by (simp add: put32_def byte_of_def)

lemma be16_put16 [le_simps]: "length xs = i \<Longrightarrow> be16 (xs @ put16 v @ ys) i = v"
  by (simp add: be16_le16 put16_bytes nth_append)

lemma be32_put32 [le_simps]: "length xs = i \<Longrightarrow> be32 (xs @ put32 v @ ys) i = v"
  by (simp add: be32_le32 put32_bytes nth_append)

section \<open>The internet checksum\<close>

fun sum_add :: "u32 \<Rightarrow> bytes \<Rightarrow> u32" where
  "sum_add s (a # b # p) = sum_add (s + ucast (be16 [a, b] 0)) p"
| "sum_add s [a] = s + push_bit 8 (ucast a)"
| "sum_add s [] = s"

lemma fold_less:
  assumes "drop_bit 16 (s :: u32) \<noteq> 0"
  shows "unat ((s AND 0xffff) + drop_bit 16 s) = unat s mod 65536 + unat s div 65536"
    "65536 \<le> unat s"
proof -
  have m: "(0xffff :: u32) = mask 16" by (simp add: mask_eq_exp_minus_1)
  have a: "unat (s AND 0xffff) = unat s mod 65536"
    unfolding m take_bit_eq_mask [symmetric] by (simp add: take_bit_eq_mod unat_mod_distrib)
  have d: "unat (drop_bit 16 s) = unat s div 65536" by (subst unat_drop_bit_eq) (simp only: drop_bit_eq_div, simp)
  have "unat s < 2 ^ 32" using unsigned_less [of s] by simp
  then have "unat s div 65536 < 65536" by (simp add: less_mult_imp_div_less)
  then show "unat ((s AND 0xffff) + drop_bit 16 s) = unat s mod 65536 + unat s div 65536"
    using mod_less_divisor [of 65536 "unat s"] by (simp add: unat_word_ariths a d)
  show "65536 \<le> unat s"
  proof (rule ccontr)
    assume "\<not> 65536 \<le> unat s"
    then have "unat (drop_bit 16 s) = 0" using d by simp
    then show False using assms by (simp add: unat_eq_0)
  qed
qed

function sum_fold :: "u32 \<Rightarrow> u16" where
  "sum_fold s = (if drop_bit 16 s \<noteq> 0 then sum_fold ((s AND 0xffff) + drop_bit 16 s) else NOT (ucast s))"
  by auto
termination
proof (relation "measure unat")
  fix s :: u32
  assume "drop_bit 16 s \<noteq> 0"
  note f = fold_less [OF this]
  have "unat s mod 65536 + unat s div 65536 < unat s"
    using f(2) div_mult_mod_eq [of "unat s" 65536] by (cases "unat s div 65536") auto
  then show "((s AND 0xffff) + drop_bit 16 s, s) \<in> measure unat" using f(1) by simp
qed simp

declare sum_fold.simps [simp del]

definition checksum :: "bytes \<Rightarrow> u16" where
  "checksum p = sum_fold (sum_add 0 p)"

definition pseudo :: "u32 \<Rightarrow> u32 \<Rightarrow> u8 \<Rightarrow> u16 \<Rightarrow> bytes" where
  "pseudo src dst proto len = put32 src @ put32 dst @ [0, proto] @ put16 len"

definition net_ip_checksum_with_pseudo :: "u32 \<Rightarrow> u32 \<Rightarrow> u8 \<Rightarrow> bytes \<Rightarrow> u16" where
  "net_ip_checksum_with_pseudo src dst proto seg =
     sum_fold (sum_add (sum_add 0 (pseudo src dst proto (of_nat (length seg)))) seg)"

section \<open>Headers\<close>

definition ET_ARP :: u16 where "ET_ARP = 0x0806"
definition ET_IPV4 :: u16 where "ET_IPV4 = 0x0800"
definition IP_ICMP :: u8 where "IP_ICMP = 1"
definition IP_UDP :: u8 where "IP_UDP = 17"
definition IP_TCP :: u8 where "IP_TCP = 6"

definition eth_header :: "bytes \<Rightarrow> bytes \<Rightarrow> u16 \<Rightarrow> bytes" where
  "eth_header mac dst ty = dst @ mac @ put16 ty"

text \<open>The twenty bytes of an IPv4 header, with the checksum field \<open>ck\<close>.\<close>

definition ip_fields :: "u16 \<Rightarrow> u16 \<Rightarrow> u8 \<Rightarrow> u32 \<Rightarrow> u32 \<Rightarrow> u16 \<Rightarrow> bytes" where
  "ip_fields tot ident proto src dst ck =
     [0x45, 0] @ put16 tot @ put16 ident @ [0, 0, 64, proto] @ put16 ck @ put32 src @ put32 dst"

definition ip_header :: "u16 \<Rightarrow> u16 \<Rightarrow> u8 \<Rightarrow> u32 \<Rightarrow> u32 \<Rightarrow> bytes" where
  "ip_header tot ident proto src dst =
     ip_fields tot ident proto src dst (checksum (ip_fields tot ident proto src dst 0))"

definition udp_fields :: "u16 \<Rightarrow> u16 \<Rightarrow> bytes \<Rightarrow> u16 \<Rightarrow> bytes" where
  "udp_fields sport dport d ck = put16 sport @ put16 dport @ put16 (of_nat (8 + length d)) @ put16 ck @ d"

definition udp_segment :: "u32 \<Rightarrow> u16 \<Rightarrow> u32 \<Rightarrow> u16 \<Rightarrow> bytes \<Rightarrow> bytes" where
  "udp_segment src sport dst dport d =
     (let c = net_ip_checksum_with_pseudo src dst IP_UDP (udp_fields sport dport d 0)
      in udp_fields sport dport d (if c \<noteq> 0 then c else 0xffff))"

section \<open>The sum of a header with its checksum\<close>

text \<open>The sum of the 16-bit words of a string, and its residue in the range 1 to 65535.\<close>

fun wsum :: "bytes \<Rightarrow> nat" where
  "wsum (a # b # p) = unat (be16 [a, b] 0) + wsum p"
| "wsum [a] = 256 * unat a"
| "wsum [] = 0"

definition ones_residue :: "nat \<Rightarrow> nat" where
  "ones_residue n = (if n = 0 then 0 else (n - 1) mod 65535 + 1)"

lemma wsum_le: "wsum p \<le> 65535 * length p"
proof (induction p rule: wsum.induct)
  case (1 a b p)
  then show ?case using unat_less [of "be16 [a, b] 0"] by simp
next
  case (2 a)
  then show ?case using unat_less [of a] by simp
qed simp

lemma unat_push8: "unat (push_bit 8 (ucast (a :: u8)) :: u32) = 256 * unat a"
  using unat_less [of a] by (simp add: push_bit_eq_mult unat_word_ariths unat_up mult.commute)

lemma unat_sum_add:
  "unat s + wsum p < 2 ^ 32 \<Longrightarrow> unat (sum_add s p) = unat s + wsum p"
proof (induction s p rule: sum_add.induct)
  case (1 s a b p)
  have "unat (s + ucast (be16 [a, b] 0)) = unat s + unat (be16 [a, b] 0)"
    using 1(2) by (simp add: unat_word_ariths unat_up)
  then show ?case using 1 by simp
next
  case (2 s a)
  then show ?case by (simp add: unat_word_ariths unat_push8)
qed simp

lemma ones_residue_less: "ones_residue n \<le> 65535" "n \<noteq> 0 \<Longrightarrow> 0 < ones_residue n"
  by (auto simp: ones_residue_def Suc_le_eq)

lemma ones_residue_step:
  assumes "65536 \<le> n"
  shows "ones_residue (n mod 65536 + n div 65536) = ones_residue n"
proof -
  define q r where "q = n div 65536" and "r = n mod 65536"
  have n: "n = 65536 * q + r" by (simp add: q_def r_def)
  have "0 < q" using assms by (simp add: q_def div_greater_zero_iff)
  then have "(n - 1) mod 65535 = (65535 * q + (r + q - 1)) mod 65535" using n by simp
  also have "\<dots> = (r + q - 1) mod 65535" by simp
  finally show ?thesis using \<open>0 < q\<close> n unfolding ones_residue_def q_def [symmetric] r_def [symmetric] by simp
qed

lemma unat_sum_fold: "unat (sum_fold s) = 65535 - ones_residue (unat s)"
proof (induction s rule: sum_fold.induct)
  case (1 s)
  show ?case
  proof (cases "drop_bit 16 s = 0")
    case True
    have "unat (drop_bit 16 s) = unat s div 65536" by (subst unat_drop_bit_eq) (simp only: drop_bit_eq_div, simp)
    then have l: "unat s < 65536" using True by simp
    have "NOT (ucast s :: u16) = 0xffff - ucast s" by (simp add: not_eq_complement)
    moreover have "(ucast s :: u16) \<le> 0xffff" using unat_less [of "ucast s :: u16"] by (simp add: word_le_nat_alt)
    ultimately have "unat (NOT (ucast s :: u16)) = 65535 - unat (ucast s :: u16)"
      using unat_sub [of "ucast s" "0xffff :: u16"] by simp
    moreover have "unat (ucast s :: u16) = unat s" using l by (simp add: unsigned_ucast_eq take_bit_nat_eq_self)
    moreover have "ones_residue (unat s) = unat s" using l by (simp add: ones_residue_def)
    ultimately show ?thesis using True by (simp add: sum_fold.simps [of s])
  next
    case False
    note f = fold_less [OF False]
    show ?thesis using 1 [OF False] False ones_residue_step [OF f(2)] unfolding f(1) by (simp add: sum_fold.simps [of s])
  qed
qed

text \<open>A sum tests as zero exactly when it is a positive multiple of 65535.\<close>

lemma sum_fold_0: "sum_fold s = 0 \<longleftrightarrow> unat s \<noteq> 0 \<and> unat s mod 65535 = 0"
proof -
  have "sum_fold s = 0 \<longleftrightarrow> ones_residue (unat s) = 65535"
    using ones_residue_less(1) [of "unat s"] unat_sum_fold [of s] by (metis diff_is_0_eq' diff_self_eq_0 le_antisym unat_eq_0 diff_is_0_eq)
  also have "\<dots> \<longleftrightarrow> unat s \<noteq> 0 \<and> (unat s - 1) mod 65535 = 65534" by (auto simp: ones_residue_def)
  also have "\<dots> \<longleftrightarrow> unat s \<noteq> 0 \<and> unat s mod 65535 = 0"
    by (cases "unat s") (auto simp: mod_Suc)
  finally show ?thesis .
qed

text \<open>Adding the complement of a sum to it makes a sum that tests as zero.\<close>

lemma sum_with_checksum: "sum_fold s = c \<Longrightarrow> unat s' = unat s + unat c \<Longrightarrow> sum_fold s' = 0"
proof -
  assume c: "sum_fold s = c" "unat s' = unat s + unat c"
  let ?n = "unat s"
  have u: "unat c = 65535 - ones_residue ?n" using c(1) unat_sum_fold by auto
  show "sum_fold s' = 0"
  proof (cases "?n = 0")
    case True
    then show ?thesis using c u by (simp add: sum_fold_0 ones_residue_def)
  next
    case False
    obtain q where q: "?n - 1 = 65535 * q + (?n - 1) mod 65535" by (metis mult_div_mod_eq)
    have "?n + unat c = 65535 * (q + 1)"
      using u False q mod_less_divisor [of 65535 "?n - 1"] by (simp add: ones_residue_def)
    then show ?thesis using c(2) False by (simp add: sum_fold_0)
  qed
qed

end
