(* ===== verification/Net.thy ===== *)
theory Net
  imports Wire
begin

text \<open>
  The network stack's state and everything that happens when a frame arrives: \<open>stam/net.c\<close>, and the segment handler of
  \<open>stam/tcp.c\<close>, which the dispatcher calls and which calls back into it.

  The card and the clock are outside. The record \<open>net\<close> holds the frames the card has received (\<open>rxq\<close>), the frames it was given to
  send, the latest first (\<open>tx\<close>), and in \<open>future\<close> what each coming wait brings: the frames that arrive meanwhile and the clock
  after it. A wait with no future left is \<open>None\<close>: the call is still waiting. The stack is used by one thread at a time.

  Sending may have to resolve an address, which polls the card, which may send: the recursion of the code is the argument \<open>d\<close>, the
  number of nested resolutions, and running out of it is \<open>None\<close> as well.

  Buffers and sockets are lists of bytes and indices into the tables. The lemmas show that the checksums of what is sent test as zero, that
  a datagram sent is the datagram received, that bound ports are distinct, and that options of a DHCP answer are read inside it.
\<close>

section \<open>State\<close>

record arp_slot =
  arp_ip :: u32
  arp_mac :: bytes
  arp_used :: bool

record udp_sock =
  u_used :: bool
  u_port :: u16
  u_have :: bool
  from_ip :: u32
  from_port :: u16
  u_data :: bytes

datatype tcp_state = T_FREE | T_LISTEN | T_SYN_SENT | T_SYN_RCVD | T_ESTABLISHED | T_CLOSE_WAIT | T_FIN_WAIT | T_CLOSED

record tcp_sock =
  tcp_st :: tcp_state
  lport :: u16
  rport :: u16
  rip :: u32
  snd_nxt :: u32
  snd_una :: u32
  rcv_nxt :: u32
  rx_buf :: bytes
  fin_seen :: bool
  was_reset :: bool
  t_parent :: "nat option"

record moment =
  frames :: "bytes list"
  tick :: u64
  counted :: u64

record net =
  my_mac :: bytes
  my_ip :: u32
  my_mask :: u32
  gw_ip :: u32
  dns_ip :: u32
  is_up :: bool
  arp :: "arp_slot list"
  ping_seq :: int
  ping_got :: bool
  ping_intact :: bool
  socks :: "udp_sock list"
  next_ephemeral :: u16
  ident :: u16
  tcps :: "tcp_sock list"
  next_port :: u16
  card :: bool
  rxq :: "bytes list"
  tx :: "bytes list"
  tx_tries :: nat
  tx_ok :: "nat \<Rightarrow> bool"
  ticks :: u64
  hz :: u64
  counter :: u64
  cntfrq :: u64
  future :: "moment list"

definition ARP_N :: nat where "ARP_N = 4"
definition NSOCK :: nat where "NSOCK = 8"
definition DGRAM_MAX :: nat where "DGRAM_MAX = 1472"
definition NTCP :: nat where "NTCP = 6"
definition RXBUF :: nat where "RXBUF = 4096"
definition MSS :: nat where "MSS = 1400"
definition PING_ID :: u16 where "PING_ID = 0x5354"
definition PAYLOAD :: nat where "PAYLOAD = 32"
definition bcast_mac :: bytes where "bcast_mac = replicate 6 0xff"

section \<open>The card and the clock\<close>

definition virtio_net_send :: "bytes \<Rightarrow> net \<Rightarrow> bool \<times> net" where
  "virtio_net_send f s =
     (let s1 = s\<lparr>tx_tries := Suc (tx_tries s)\<rparr>
      in if card s \<and> tx_ok s (tx_tries s) then (True, s1\<lparr>tx := f # tx s\<rparr>) else (False, s1))"

definition virtio_net_recv :: "nat \<Rightarrow> net \<Rightarrow> bytes \<times> net" where
  "virtio_net_recv n s = (case rxq s of [] \<Rightarrow> ([], s) | f # q \<Rightarrow> (take n f, s\<lparr>rxq := q\<rparr>))"

definition net_wait :: "net \<Rightarrow> net option" where
  "net_wait s =
     (case future s of
        [] \<Rightarrow> None
      | m # ms \<Rightarrow> Some (s\<lparr>rxq := rxq s @ frames m, ticks := tick m, counter := counted m, future := ms\<rparr>))"

definition micros :: "net \<Rightarrow> u64" where
  "micros s = (if cntfrq s = 0 then 0 else counter s div (if cntfrq s div 1000000 \<noteq> 0 then cntfrq s div 1000000 else 1))"

section \<open>Addresses\<close>

definition arp_find :: "u32 \<Rightarrow> net \<Rightarrow> nat option" where
  "arp_find ip s = List.find (\<lambda>i. arp_used (arp s ! i) \<and> arp_ip (arp s ! i) = ip) [0..<ARP_N]"

definition arp_learn :: "u32 \<Rightarrow> bytes \<Rightarrow> net \<Rightarrow> net" where
  "arp_learn ip mac s =
     (case arp_find ip s of
        Some i \<Rightarrow> s\<lparr>arp := (arp s)[i := (arp s ! i)\<lparr>arp_mac := mac\<rparr>]\<rparr>
      | None \<Rightarrow>
          (case List.find (\<lambda>i. \<not> arp_used (arp s ! i)) [0..<ARP_N] of
             Some i \<Rightarrow> s\<lparr>arp := (arp s)[i := \<lparr>arp_ip = ip, arp_mac = mac, arp_used = True\<rparr>]\<rparr>
           | None \<Rightarrow> s\<lparr>arp := (arp s)[0 := (arp s ! 0)\<lparr>arp_ip := ip, arp_mac := mac\<rparr>]\<rparr>))"

definition arp_lookup :: "u32 \<Rightarrow> net \<Rightarrow> bytes option" where
  "arp_lookup ip s = map_option (\<lambda>i. arp_mac (arp s ! i)) (arp_find ip s)"

text \<open>
  A resolver is \<open>net_arp_resolve\<close> at some depth. Its answer is the hardware address or a failure, with the state after it.
\<close>

type_synonym resolver = "u32 \<Rightarrow> net \<Rightarrow> (bytes option \<times> net) option"

definition route_mac :: "resolver \<Rightarrow> u32 \<Rightarrow> net \<Rightarrow> (bytes option \<times> net) option" where
  "route_mac res ip s =
     (let nxt = (if my_mask s \<noteq> 0 \<and> (ip XOR my_ip s) AND my_mask s \<noteq> 0 then gw_ip s else ip)
      in if nxt = 0 then Some (None, s)
         else case arp_lookup nxt s of Some m \<Rightarrow> Some (Some m, s) | None \<Rightarrow> res nxt s)"

section \<open>Sockets for datagrams\<close>

definition on_sock :: "nat \<Rightarrow> (udp_sock \<Rightarrow> udp_sock) \<Rightarrow> net \<Rightarrow> net" where
  "on_sock i g s = s\<lparr>socks := (socks s)[i := g (socks s ! i)]\<rparr>"

definition port_taken :: "u16 \<Rightarrow> net \<Rightarrow> bool" where
  "port_taken p s \<longleftrightarrow> (\<exists>i \<in> set [0..<NSOCK]. u_used (socks s ! i) \<and> u_port (socks s ! i) = p)"

definition udp_open :: "net \<Rightarrow> nat option \<times> net" where
  "udp_open s =
     (if \<not> is_up s then (None, s)
      else case List.find (\<lambda>i. \<not> u_used (socks s ! i)) [0..<NSOCK] of
        None \<Rightarrow> (None, s)
      | Some i \<Rightarrow> (Some i, on_sock i (\<lambda>k. k\<lparr>u_used := True, u_port := 0, u_have := False\<rparr>) s))"

definition udp_close :: "nat \<Rightarrow> net \<Rightarrow> net" where
  "udp_close i = on_sock i (\<lambda>k. k\<lparr>u_used := False, u_port := 0, u_have := False\<rparr>)"

primrec bind_any :: "nat \<Rightarrow> nat \<Rightarrow> net \<Rightarrow> bool \<times> net" where
  "bind_any 0 i s = (False, s)"
| "bind_any (Suc tries) i s =
     (let p = next_ephemeral s; n = p + 1; s1 = s\<lparr>next_ephemeral := (if n = 0 then 49152 else n)\<rparr>
      in if \<not> port_taken p s1 then (True, on_sock i (\<lambda>k. k\<lparr>u_port := p\<rparr>) s1) else bind_any tries i s1)"

definition udp_bind :: "nat \<Rightarrow> u16 \<Rightarrow> net \<Rightarrow> bool \<times> net" where
  "udp_bind i p s =
     (if \<not> u_used (socks s ! i) then (False, s)
      else if p = 0 then bind_any 4096 i s
      else if port_taken p s then (False, s)
      else (True, on_sock i (\<lambda>k. k\<lparr>u_port := p\<rparr>) s))"

text \<open>The bytes, and who sent them; \<open>None\<close> is -1.\<close>

definition udp_recvfrom :: "nat \<Rightarrow> nat \<Rightarrow> net \<Rightarrow> (bytes \<times> u32 \<times> u16) option \<times> net" where
  "udp_recvfrom i mx s =
     (let k = socks s ! i
      in if \<not> u_used k \<or> \<not> u_have k then (None, s)
         else (Some (take mx (u_data k), from_ip k, from_port k), on_sock i (\<lambda>k. k\<lparr>u_have := False\<rparr>) s))"

definition udp_send_from :: "u32 \<Rightarrow> u16 \<Rightarrow> u32 \<Rightarrow> u16 \<Rightarrow> bytes \<Rightarrow> bytes \<Rightarrow> net \<Rightarrow> bool \<times> net" where
  "udp_send_from src sport dst dport mac d s =
     (if length d > DGRAM_MAX then (False, s)
      else virtio_net_send (eth_header (my_mac s) mac ET_IPV4 @
             ip_header (of_nat (28 + length d)) (sport XOR dport) IP_UDP src dst @ udp_segment src sport dst dport d) s)"

definition udp_sendto :: "resolver \<Rightarrow> nat \<Rightarrow> u32 \<Rightarrow> u16 \<Rightarrow> bytes \<Rightarrow> net \<Rightarrow> (bool \<times> net) option" where
  "udp_sendto res i ip p d s =
     (if \<not> u_used (socks s ! i) \<or> \<not> is_up s then Some (False, s)
      else let (ok, s1) = (if u_port (socks s ! i) = 0 then udp_bind i 0 s else (True, s))
           in if \<not> ok then Some (False, s1)
              else case route_mac res ip s1 of
                None \<Rightarrow> None
              | Some (None, s2) \<Rightarrow> Some (False, s2)
              | Some (Some mac, s2) \<Rightarrow> Some (udp_send_from (my_ip s2) (u_port (socks s2 ! i)) ip p mac d s2))"

section \<open>Packets out\<close>

definition net_ip_send :: "resolver \<Rightarrow> u32 \<Rightarrow> u8 \<Rightarrow> bytes \<Rightarrow> net \<Rightarrow> (bool \<times> net) option" where
  "net_ip_send res dst proto payload s =
     (if length payload > 1480 then Some (False, s)
      else case route_mac res dst s of
        None \<Rightarrow> None
      | Some (None, s1) \<Rightarrow> Some (False, s1)
      | Some (Some mac, s1) \<Rightarrow>
          Some (virtio_net_send (eth_header (my_mac s1) mac ET_IPV4 @
                  ip_header (of_nat (20 + length payload)) (ident s1) proto (my_ip s1) dst @ payload) (s1\<lparr>ident := ident s1 + 1\<rparr>)))"

definition F_FIN :: u8 where "F_FIN = 0x01"
definition F_SYN :: u8 where "F_SYN = 0x02"
definition F_RST :: u8 where "F_RST = 0x04"
definition F_PSH :: u8 where "F_PSH = 0x08"
definition F_ACK :: u8 where "F_ACK = 0x10"

definition seq_ge :: "u32 \<Rightarrow> u32 \<Rightarrow> bool" where
  "seq_ge a b \<longleftrightarrow> sint (a - b) \<ge> 0"

text \<open>A segment with its checksum field \<open>ck\<close>; the maximum segment size is an option of a SYN.\<close>

definition tcp_fields :: "tcp_sock \<Rightarrow> u8 \<Rightarrow> u32 \<Rightarrow> bytes \<Rightarrow> bool \<Rightarrow> u16 \<Rightarrow> bytes" where
  "tcp_fields t flags seq d mss ck =
     put16 (lport t) @ put16 (rport t) @ put32 seq @ put32 (rcv_nxt t) @ [if mss then 0x60 else 0x50, flags] @
     put16 (of_nat (RXBUF - length (rx_buf t))) @ put16 ck @ put16 0 @ (if mss then [2, 4] @ put16 (of_nat MSS) else []) @ d"

definition tcp_segment :: "u32 \<Rightarrow> tcp_sock \<Rightarrow> u8 \<Rightarrow> u32 \<Rightarrow> bytes \<Rightarrow> bool \<Rightarrow> bytes" where
  "tcp_segment src t flags seq d mss =
     tcp_fields t flags seq d mss (net_ip_checksum_with_pseudo src (rip t) IP_TCP (tcp_fields t flags seq d mss 0))"

definition send_seg :: "resolver \<Rightarrow> nat \<Rightarrow> u8 \<Rightarrow> u32 \<Rightarrow> bytes \<Rightarrow> bool \<Rightarrow> net \<Rightarrow> (bool \<times> net) option" where
  "send_seg res i flags seq d mss s =
     (let t = tcps s ! i in net_ip_send res (rip t) IP_TCP (tcp_segment (my_ip s) t flags seq d mss) s)"

section \<open>Segments in\<close>

definition on_tcp :: "nat \<Rightarrow> (tcp_sock \<Rightarrow> tcp_sock) \<Rightarrow> net \<Rightarrow> net" where
  "on_tcp i g s = s\<lparr>tcps := (tcps s)[i := g (tcps s ! i)]\<rparr>"

definition tcp_match :: "u16 \<Rightarrow> u16 \<Rightarrow> u32 \<Rightarrow> tcp_sock \<Rightarrow> bool" where
  "tcp_match dport sport src t \<longleftrightarrow>
     tcp_st t \<noteq> T_FREE \<and> tcp_st t \<noteq> T_LISTEN \<and> lport t = dport \<and> rport t = sport \<and> rip t = src"

definition tcp_find :: "(tcp_sock \<Rightarrow> bool) \<Rightarrow> net \<Rightarrow> nat option" where
  "tcp_find P s = List.find (\<lambda>i. P (tcps s ! i)) [0..<NTCP]"

text \<open>A connection request for a listener.\<close>

definition tcp_incoming :: "resolver \<Rightarrow> u16 \<Rightarrow> u16 \<Rightarrow> u32 \<Rightarrow> u32 \<Rightarrow> net \<Rightarrow> net option" where
  "tcp_incoming res dport sport src seq s =
     (case tcp_find (\<lambda>t. tcp_st t = T_LISTEN \<and> lport t = dport) s of
        None \<Rightarrow> Some s
      | Some l \<Rightarrow>
          (case tcp_find (\<lambda>t. tcp_st t = T_FREE) s of
             None \<Rightarrow> Some s
           | Some c \<Rightarrow>
               let iss = ucast (counter s)
               in map_option snd (send_seg res c (F_SYN OR F_ACK) iss [] True
                    (on_tcp c (\<lambda>t. t\<lparr>tcp_st := T_SYN_RCVD, lport := dport, rport := sport, rip := src, rx_buf := [], fin_seen := False,
                                    was_reset := False, t_parent := Some l, rcv_nxt := seq + 1, snd_una := iss, snd_nxt := iss + 1\<rparr>) s))))"

definition ack_only :: "resolver \<Rightarrow> nat \<Rightarrow> net \<Rightarrow> net option" where
  "ack_only res i s = map_option snd (send_seg res i F_ACK (snd_nxt (tcps s ! i)) [] False s)"

definition take_ack :: "u8 \<Rightarrow> u32 \<Rightarrow> tcp_sock \<Rightarrow> tcp_sock" where
  "take_ack flags ack t =
     (if flags AND F_ACK \<noteq> 0 \<and> seq_ge ack (snd_una t) \<and> seq_ge (snd_nxt t) ack then t\<lparr>snd_una := ack\<rparr> else t)"

definition take_data :: "u32 \<Rightarrow> bytes \<Rightarrow> tcp_sock \<Rightarrow> tcp_sock" where
  "take_data seq d t =
     (if seq = rcv_nxt t then
        let taken = take (RXBUF - length (rx_buf t)) d
        in t\<lparr>rx_buf := rx_buf t @ taken, rcv_nxt := rcv_nxt t + of_nat (length taken)\<rparr>
      else t)"

definition tcp_fin :: "resolver \<Rightarrow> nat \<Rightarrow> u8 \<Rightarrow> u32 \<Rightarrow> nat \<Rightarrow> net \<Rightarrow> net option" where
  "tcp_fin res i flags seq dlen s =
     (if flags AND F_FIN \<noteq> 0 \<and> seq_ge (rcv_nxt (tcps s ! i)) seq then
        (case ack_only res i (on_tcp i (\<lambda>t. t\<lparr>rcv_nxt := seq + of_nat dlen + 1, fin_seen := True\<rparr>) s) of
           None \<Rightarrow> None
         | Some s1 \<Rightarrow>
             Some (on_tcp i (\<lambda>t. if tcp_st t = T_ESTABLISHED then t\<lparr>tcp_st := T_CLOSE_WAIT\<rparr>
                                 else if tcp_st t = T_FIN_WAIT then t\<lparr>tcp_st := T_CLOSED\<rparr> else t) s1))
      else Some s)"

text \<open>A segment of a connection past its handshake: the acknowledgement, the data, the close.\<close>

definition tcp_established :: "resolver \<Rightarrow> nat \<Rightarrow> u8 \<Rightarrow> u32 \<Rightarrow> u32 \<Rightarrow> bytes \<Rightarrow> net \<Rightarrow> net option" where
  "tcp_established res i flags seq ack d s =
     (let s1 = on_tcp i (take_ack flags ack) s
      in case (if d \<noteq> [] then ack_only res i (on_tcp i (take_data seq d) s1) else Some s1) of
           None \<Rightarrow> None
         | Some s2 \<Rightarrow> tcp_fin res i flags seq (length d) s2)"

definition tcp_conn_input :: "resolver \<Rightarrow> nat \<Rightarrow> u8 \<Rightarrow> u32 \<Rightarrow> u32 \<Rightarrow> bytes \<Rightarrow> net \<Rightarrow> net option" where
  "tcp_conn_input res i flags seq ack d s =
     (let t = tcps s ! i
      in if flags AND F_RST \<noteq> 0 then Some (on_tcp i (\<lambda>t. t\<lparr>was_reset := True, tcp_st := T_CLOSED\<rparr>) s)
         else if tcp_st t = T_SYN_SENT then
           (if flags AND F_SYN = 0 \<or> flags AND F_ACK = 0 then Some s
            else if ack \<noteq> snd_nxt t then Some s
            else ack_only res i (on_tcp i (\<lambda>t. t\<lparr>snd_una := ack, rcv_nxt := seq + 1, tcp_st := T_ESTABLISHED\<rparr>) s))
         else if tcp_st t = T_SYN_RCVD then
           (if flags AND F_ACK = 0 \<or> ack \<noteq> snd_nxt t then Some s
            else tcp_established res i flags seq ack d (on_tcp i (\<lambda>t. t\<lparr>snd_una := ack, tcp_st := T_ESTABLISHED\<rparr>) s))
         else tcp_established res i flags seq ack d s)"

definition tcp_input :: "resolver \<Rightarrow> bytes \<Rightarrow> u32 \<Rightarrow> net \<Rightarrow> net option" where
  "tcp_input res seg src s =
     (if length seg < 20 then Some s
      else let hlen = unat (drop_bit 4 (seg ! 12)) * 4
           in if hlen < 20 \<or> hlen > length seg then Some s
              else if net_ip_checksum_with_pseudo src (my_ip s) IP_TCP seg \<noteq> 0 then Some s
              else let sport = be16 seg 0; dport = be16 seg 2; seq = be32 seg 4; ack = be32 seg 8; flags = seg ! 13; d = drop hlen seg
                   in case tcp_find (tcp_match dport sport src) s of
                        None \<Rightarrow> if flags AND F_SYN \<noteq> 0 \<and> flags AND F_ACK = 0 then tcp_incoming res dport sport src seq s else Some s
                      | Some i \<Rightarrow> tcp_conn_input res i flags seq ack d s)"

section \<open>The dispatcher\<close>

definition arp_frame :: "bytes \<Rightarrow> bytes \<Rightarrow> u16 \<Rightarrow> u32 \<Rightarrow> bytes \<Rightarrow> u32 \<Rightarrow> bytes" where
  "arp_frame mac dst opn ip tmac tip =
     eth_header mac dst ET_ARP @ put16 1 @ put16 ET_IPV4 @ [6, 4] @ put16 opn @ mac @ put32 ip @ tmac @ put32 tip @ replicate 18 0"

definition handle_arp :: "bytes \<Rightarrow> net \<Rightarrow> net" where
  "handle_arp r s =
     (if length r < 42 then s
      else if be16 r 16 \<noteq> ET_IPV4 \<or> r ! 18 \<noteq> 6 \<or> r ! 19 \<noteq> 4 then s
      else let opn = be16 r 20; sender = be32 r 28; smac = take 6 (drop 22 r); s1 = arp_learn sender smac s
           in if opn \<noteq> 1 then s1
              else if my_ip s1 = 0 \<or> be32 r 38 \<noteq> my_ip s1 then s1
              else snd (virtio_net_send (arp_frame (my_mac s1) smac 2 (my_ip s1) smac sender) s1))"

definition ping_byte :: "int \<Rightarrow> nat \<Rightarrow> u8" where
  "ping_byte sq i = word_of_int (0x40 + ((sq + int i) mod 32))"

definition echo_reply :: "bytes \<Rightarrow> u16 \<Rightarrow> bytes" where
  "echo_reply ic ck = [0, ic ! 1] @ put16 ck @ drop 4 ic"

definition handle_icmp :: "resolver \<Rightarrow> bytes \<Rightarrow> u32 \<Rightarrow> net \<Rightarrow> net option" where
  "handle_icmp res ic src s =
     (if length ic < 8 then Some s
      else if checksum ic \<noteq> 0 then Some s
      else if ic ! 0 = 0 then
        (if ping_seq s < 0 then Some s
         else if be16 ic 4 \<noteq> PING_ID then Some s
         else if be16 ic 6 \<noteq> word_of_int (ping_seq s) then Some s
         else if length ic < 8 + PAYLOAD then Some s
         else Some (s\<lparr>ping_intact := (\<forall>i \<in> set [0..<PAYLOAD]. ic ! (8 + i) = ping_byte (ping_seq s) i), ping_got := True\<rparr>))
      else if ic ! 0 = 8 \<and> my_ip s \<noteq> 0 then
        (if length ic > 72 then Some s
         else case route_mac res src s of
           None \<Rightarrow> None
         | Some (None, s1) \<Rightarrow> Some s1
         | Some (Some mac, s1) \<Rightarrow>
             Some (snd (virtio_net_send (eth_header (my_mac s1) mac ET_IPV4 @
               ip_header (of_nat (20 + length ic)) 0 IP_ICMP (my_ip s1) src @ echo_reply ic (checksum (echo_reply ic 0))) s1)))
      else Some s)"

definition handle_udp :: "bytes \<Rightarrow> u32 \<Rightarrow> net \<Rightarrow> net" where
  "handle_udp u src s =
     (if length u < 8 then s
      else let sport = be16 u 0; dport = be16 u 2; ulen = be16 u 4
           in if ulen < 8 \<or> unat ulen > length u then s
              else case List.find (\<lambda>i. u_used (socks s ! i) \<and> u_port (socks s ! i) = dport) [0..<NSOCK] of
                None \<Rightarrow> s
              | Some i \<Rightarrow>
                  if u_have (socks s ! i) then s
                  else on_sock i (\<lambda>k. k\<lparr>u_data := take (min (unat ulen - 8) DGRAM_MAX) (drop 8 u), from_ip := src, from_port := sport, u_have := True\<rparr>) s)"

definition handle_ipv4 :: "resolver \<Rightarrow> bytes \<Rightarrow> net \<Rightarrow> net option" where
  "handle_ipv4 res r s =
     (if length r < 34 then Some s
      else let ip = drop 14 r; ihl = unat (ip ! 0 AND 0x0f) * 4
           in if drop_bit 4 (ip ! 0) \<noteq> 4 \<or> ihl < 20 then Some s
              else if length r < 14 + ihl then Some s
              else if checksum (take ihl ip) \<noteq> 0 then Some s
              else let tot = unat (be16 ip 2)
                   in if tot < ihl \<or> length r < 14 + tot then Some s
                      else let src = be32 ip 12; dst = be32 ip 16
                           in if my_ip s \<noteq> 0 \<and> dst \<noteq> my_ip s \<and> dst \<noteq> 0xffffffff then Some s
                              else let payload = take (tot - ihl) (drop ihl ip)
                                   in if ip ! 9 = IP_ICMP then handle_icmp res payload src s
                                      else if ip ! 9 = IP_UDP then Some (handle_udp payload src s)
                                      else if ip ! 9 = IP_TCP then tcp_input res payload src s
                                      else Some s)"

primrec poll_loop :: "nat \<Rightarrow> resolver \<Rightarrow> net \<Rightarrow> net option" where
  "poll_loop 0 res s = Some s"
| "poll_loop (Suc guard) res s =
     (let (r, s1) = virtio_net_recv 1514 s
      in if length r < 14 then Some s1
         else case (if be16 r 12 = ET_ARP then Some (handle_arp r s1)
                    else if be16 r 12 = ET_IPV4 then handle_ipv4 res r s1 else Some s1) of
           None \<Rightarrow> None
         | Some s2 \<Rightarrow> poll_loop guard res s2)"

definition poll_with :: "resolver \<Rightarrow> net \<Rightarrow> net option" where
  "poll_with res s = (if \<not> card s then Some s else poll_loop 32 res s)"

section \<open>Asking for an address\<close>

primrec arp_wait :: "nat \<Rightarrow> (net \<Rightarrow> net option) \<Rightarrow> u32 \<Rightarrow> u64 \<Rightarrow> net \<Rightarrow> (bytes option \<times> net) option" where
  "arp_wait 0 poll ip deadline s = None"
| "arp_wait (Suc k) poll ip deadline s =
     (if \<not> ticks s < deadline then Some (None, s)
      else case poll s of
        None \<Rightarrow> None
      | Some s1 \<Rightarrow>
          (case arp_lookup ip s1 of
             Some m \<Rightarrow> Some (Some m, s1)
           | None \<Rightarrow> (case net_wait s1 of None \<Rightarrow> None | Some s2 \<Rightarrow> arp_wait k poll ip deadline s2)))"

primrec net_arp_resolve :: "nat \<Rightarrow> u32 \<Rightarrow> net \<Rightarrow> (bytes option \<times> net) option" where
  "net_arp_resolve 0 ip s = None"
| "net_arp_resolve (Suc d) ip s =
     (if \<not> card s then Some (None, s)
      else case arp_lookup ip s of
        Some m \<Rightarrow> Some (Some m, s)
      | None \<Rightarrow>
          let (ok, s1) = virtio_net_send (arp_frame (my_mac s) bcast_mac 1 (my_ip s) (replicate 6 0) ip) s
          in if \<not> ok then Some (None, s1)
             else arp_wait (Suc (length (future s1))) (poll_with (net_arp_resolve d)) ip (ticks s1 + hz s1) s1)"

definition net_poll :: "nat \<Rightarrow> net \<Rightarrow> net option" where
  "net_poll d = poll_with (net_arp_resolve d)"

section \<open>Echo\<close>

definition echo_request :: "u16 \<Rightarrow> u16 \<Rightarrow> bytes" where
  "echo_request sq ck = [8, 0] @ put16 ck @ put16 PING_ID @ put16 sq @ map (ping_byte (int (unat sq))) [0..<PAYLOAD]"

text \<open>The value returned and \<open>*check\<close>.\<close>

primrec ping_wait :: "nat \<Rightarrow> nat \<Rightarrow> u64 \<Rightarrow> u64 \<Rightarrow> net \<Rightarrow> ((int \<times> bool) \<times> net) option" where
  "ping_wait 0 d sent_us deadline s = None"
| "ping_wait (Suc k) d sent_us deadline s =
     (if \<not> ticks s < deadline then Some ((-1, False), s\<lparr>ping_seq := -1\<rparr>)
      else case net_poll d s of
        None \<Rightarrow> None
      | Some s1 \<Rightarrow>
          if ping_got s1 then
            (let took = micros s1 - sent_us
             in Some ((if took > 0x7fffffff then 0x7fffffff else int (unat took), ping_intact s1), s1\<lparr>ping_seq := -1\<rparr>))
          else (case net_wait s1 of None \<Rightarrow> None | Some s2 \<Rightarrow> ping_wait k d sent_us deadline s2))"

definition net_ping :: "nat \<Rightarrow> u32 \<Rightarrow> u16 \<Rightarrow> net \<Rightarrow> ((int \<times> bool) \<times> net) option" where
  "net_ping d ip sq s =
     (if \<not> card s then Some ((-1, False), s)
      else case (case route_mac (net_arp_resolve d) ip s of
                   None \<Rightarrow> None
                 | Some (Some m, s1) \<Rightarrow> Some (Some m, s1)
                 | Some (None, s1) \<Rightarrow> net_arp_resolve d ip s1) of
        None \<Rightarrow> None
      | Some (None, s1) \<Rightarrow> Some ((-1, False), s1)
      | Some (Some mac, s1) \<Rightarrow>
          let f = eth_header (my_mac s1) mac ET_IPV4 @ ip_header (of_nat (28 + PAYLOAD)) sq IP_ICMP (my_ip s1) ip @
                  echo_request sq (checksum (echo_request sq 0));
              s2 = s1\<lparr>ping_got := False, ping_intact := False, ping_seq := int (unat sq)\<rparr>;
              (ok, s3) = virtio_net_send f s2
          in if \<not> ok then Some ((-1, False), s3\<lparr>ping_seq := -1\<rparr>)
             else ping_wait (Suc (length (future s3))) d (micros s2) (ticks s3 + hz s3 * 2) s3)"

section \<open>DHCP\<close>

definition DHCP_MAGIC :: u32 where "DHCP_MAGIC = 0x63825363"

text \<open>Where an option's value begins, and its length; an offset of 0 for an option that is not there.\<close>

function dhcp_scan :: "bytes \<Rightarrow> u8 \<Rightarrow> nat \<Rightarrow> nat \<times> nat" where
  "dhcp_scan p want i =
     (if \<not> i + 1 < length p then (0, 0)
      else if p ! i = 255 then (0, 0)
      else if p ! i = 0 then dhcp_scan p want (i + 1)
      else let l = unat (p ! (i + 1))
           in if i + 2 + l > length p then (0, 0)
              else if p ! i = want then (i + 2, l)
              else dhcp_scan p want (i + 2 + l))"
  by auto
termination by (relation "measure (\<lambda>(p, w, i). length p - i)") auto

declare dhcp_scan.simps [simp del]

definition dhcp_option :: "bytes \<Rightarrow> u8 \<Rightarrow> nat \<times> nat" where
  "dhcp_option p want = dhcp_scan p want 240"

definition DHCP_LEN :: nat where "DHCP_LEN = 300"

definition dhcp_fill :: "bytes \<Rightarrow> u32 \<Rightarrow> u8 \<Rightarrow> u32 \<Rightarrow> u32 \<Rightarrow> bytes" where
  "dhcp_fill mac xid ty server requested =
     (let opts = [53, 1, ty] @ (if server \<noteq> 0 then [54, 4] @ put32 server else []) @
                 (if requested \<noteq> 0 then [50, 4] @ put32 requested else []) @ [55, 3, 1, 3, 6, 255]
      in [1, 1, 6, 0] @ put32 xid @ [0, 0] @ put16 0x8000 @ replicate 16 0 @ mac @ replicate 202 0 @ put32 DHCP_MAGIC @ opts @
         replicate (DHCP_LEN - 240 - length opts) 0)"

text \<open>Whether a datagram is the answer to the transaction, of the message type asked for.\<close>

definition dhcp_answers :: "u32 \<Rightarrow> u8 \<Rightarrow> bytes \<Rightarrow> bool" where
  "dhcp_answers xid want m \<longleftrightarrow>
     240 \<le> length m \<and> m ! 0 = 2 \<and> be32 m 4 = xid \<and> be32 m 236 = DHCP_MAGIC \<and>
     (let (t, l) = dhcp_option m 53 in t \<noteq> 0 \<and> l = 1 \<and> m ! t = want)"

text \<open>The loop goes round without waiting after a datagram that is not the answer; there are no more of those than frames.\<close>

definition frames_left :: "net \<Rightarrow> nat" where
  "frames_left s = length (rxq s) + length (concat (map frames (future s)))"

primrec dhcp_loop :: "nat \<Rightarrow> nat \<Rightarrow> nat \<Rightarrow> u32 \<Rightarrow> u8 \<Rightarrow> u64 \<Rightarrow> net \<Rightarrow> (bytes option \<times> net) option" where
  "dhcp_loop 0 d i xid want deadline s = None"
| "dhcp_loop (Suc k) d i xid want deadline s =
     (if \<not> ticks s < deadline then Some (None, s)
      else case net_poll d s of
        None \<Rightarrow> None
      | Some s1 \<Rightarrow>
          (case udp_recvfrom i DGRAM_MAX s1 of
             (None, s2) \<Rightarrow> (case net_wait s2 of None \<Rightarrow> None | Some s3 \<Rightarrow> dhcp_loop k d i xid want deadline s3)
           | (Some (m, _), s2) \<Rightarrow> if dhcp_answers xid want m then Some (Some m, s2) else dhcp_loop k d i xid want deadline s2))"

definition dhcp_wait :: "nat \<Rightarrow> nat \<Rightarrow> u32 \<Rightarrow> u8 \<Rightarrow> net \<Rightarrow> (bytes option \<times> net) option" where
  "dhcp_wait d i xid want s =
     dhcp_loop (Suc (Suc (length (future s) + frames_left s))) d i xid want (ticks s + hz s * 2) s"

definition dhcp_addr :: "bytes \<Rightarrow> u8 \<Rightarrow> (nat \<Rightarrow> bool) \<Rightarrow> u32 \<Rightarrow> u32" where
  "dhcp_addr m want ok dflt = (let (t, l) = dhcp_option m want in if t \<noteq> 0 \<and> ok l then be32 m t else dflt)"

definition dhcp_send :: "u32 \<Rightarrow> u8 \<Rightarrow> u32 \<Rightarrow> u32 \<Rightarrow> net \<Rightarrow> bool \<times> net" where
  "dhcp_send xid ty server requested s =
     udp_send_from 0 68 0xffffffff 67 bcast_mac (dhcp_fill (my_mac s) xid ty server requested) s"

definition dhcp_configure :: "nat \<Rightarrow> net \<Rightarrow> (bool \<times> net) option" where
  "dhcp_configure d s =
     (case udp_open s of
        (None, s0) \<Rightarrow> Some (False, s0)
      | (Some i, s0) \<Rightarrow>
          let (ok, s1) = udp_bind i 68 s0
          in if \<not> ok then Some (False, udp_close i s1)
             else let xid = ucast (counter s1) XOR 0x5354414d; (ok2, s2) = dhcp_send xid 1 0 0 s1
                  in if \<not> ok2 then Some (False, udp_close i s2)
                     else case dhcp_wait d i xid 2 s2 of
                       None \<Rightarrow> None
                     | Some (None, s3) \<Rightarrow> Some (False, udp_close i s3)
                     | Some (Some m, s3) \<Rightarrow>
                         let (ok4, s4) = dhcp_send xid 3 (dhcp_addr m 54 (\<lambda>l. l = 4) 0) (be32 m 16) s3
                         in if \<not> ok4 then Some (False, udp_close i s4)
                            else case dhcp_wait d i xid 5 s4 of
                              None \<Rightarrow> None
                            | Some (None, s5) \<Rightarrow> Some (False, udp_close i s5)
                            | Some (Some a, s5) \<Rightarrow>
                                let s6 = s5\<lparr>my_ip := be32 a 16, my_mask := dhcp_addr a 1 (\<lambda>l. l = 4) (my_mask s5),
                                            gw_ip := dhcp_addr a 3 (\<lambda>l. l \<ge> 4) (gw_ip s5), dns_ip := dhcp_addr a 6 (\<lambda>l. l \<ge> 4) (dns_ip s5)\<rparr>
                                in Some (my_ip s6 \<noteq> 0, udp_close i s6))"

text \<open>The address of the card, or its absence, is the argument.\<close>

definition net_init :: "nat \<Rightarrow> bytes option \<Rightarrow> net \<Rightarrow> (bool \<times> net) option" where
  "net_init d mac s =
     (case mac of
        None \<Rightarrow> Some (False, s)
      | Some m \<Rightarrow>
          (case dhcp_configure d (s\<lparr>card := True, my_mac := m, is_up := True\<rparr>) of
             None \<Rightarrow> None
           | Some (ok, s1) \<Rightarrow>
               if ok then Some (True, s1)
               else Some (True, s1\<lparr>my_ip := 0x0a00020f, my_mask := 0xffffff00, gw_ip := 0x0a000202\<rparr>)))"

section \<open>Checksums of what is sent\<close>

lemma wsum_append: "even (length xs) \<Longrightarrow> wsum (xs @ ys) = wsum xs + wsum ys"
  by (induction xs rule: wsum.induct) auto

lemma wsum_put16: "wsum (put16 v @ ys) = unat v + wsum ys"
  using be16_put16 [of "[]" 0 v "[]"] by (simp add: put16_def)

lemma wsum_field: "even (length xs) \<Longrightarrow> wsum (xs @ put16 v @ ys) = wsum (xs @ put16 0 @ ys) + unat v"
  by (simp add: wsum_append wsum_put16)

lemma unat_sum_list:
  assumes "length p \<le> 65536"
  shows "unat (sum_add 0 p) = wsum p"
  using unat_sum_add [of 0 p] wsum_le [of p] assms by simp

lemma unat_sum_two:
  assumes "length p + length q \<le> 65536"
  shows "unat (sum_add (sum_add 0 p) q) = wsum p + wsum q"
  using unat_sum_add [of "sum_add 0 p" q] unat_sum_list [of p] wsum_le [of p] wsum_le [of q] assms by simp

lemma checksum_verifies:
  assumes "even (length xs)" "length (xs @ put16 0 @ ys) \<le> 65536"
  shows "checksum (xs @ put16 (checksum (xs @ put16 0 @ ys)) @ ys) = 0"
proof -
  have l: "length (xs @ put16 (checksum (xs @ put16 0 @ ys)) @ ys) \<le> 65536" using assms by simp
  show ?thesis unfolding checksum_def
    by (rule sum_with_checksum [of "sum_add 0 (xs @ put16 0 @ ys)", OF refl])
      (simp only: unat_sum_list [OF l [unfolded checksum_def]] unat_sum_list [OF assms(2)] wsum_field [OF assms(1), of "sum_fold (sum_add 0 (xs @ put16 0 @ ys))"])
qed

lemma pseudo_checksum_verifies:
  assumes "even (length xs)" "length (xs @ put16 0 @ ys) \<le> 60000"
    and c: "c = net_ip_checksum_with_pseudo src dst proto (xs @ put16 0 @ ys)" and c': "c' = c \<or> c = 0 \<and> c' = 0xffff"
  shows "net_ip_checksum_with_pseudo src dst proto (xs @ put16 c' @ ys) = 0"
proof -
  let ?z = "xs @ put16 0 @ ys" and ?p = "pseudo src dst proto (of_nat (length (xs @ put16 0 @ ys)))"
  have len: "length (xs @ put16 c' @ ys) = length ?z" by simp
  have lp: "length ?p = 12" by (simp add: pseudo_def)
  have u: "unat (sum_add (sum_add 0 ?p) ?z) = wsum ?p + wsum ?z" "unat (sum_add (sum_add 0 ?p) (xs @ put16 c' @ ys)) = wsum ?p + wsum ?z + unat c'"
    using unat_sum_two [of ?p ?z] unat_sum_two [of ?p "xs @ put16 c' @ ys"] assms(2) lp by (simp_all add: wsum_field [OF assms(1), of c'])
  have c0: "sum_fold (sum_add (sum_add 0 ?p) ?z) = c" using c by (simp add: net_ip_checksum_with_pseudo_def)
  show ?thesis unfolding net_ip_checksum_with_pseudo_def len
  proof (cases "c' = c")
    case True
    show "sum_fold (sum_add (sum_add 0 ?p) (xs @ put16 c' @ ys)) = 0"
      by (rule sum_with_checksum [OF c0]) (use u True in simp)
  next
    case False
    then have "c = 0" "unat c' = 65535" using c' by auto
    then have "wsum ?p + wsum ?z \<noteq> 0" "(wsum ?p + wsum ?z) mod 65535 = 0" using sum_fold_0 [of "sum_add (sum_add 0 ?p) ?z"] c0 u(1) by auto
    then show "sum_fold (sum_add (sum_add 0 ?p) (xs @ put16 c' @ ys)) = 0"
      unfolding sum_fold_0 u(2) \<open>unat c' = 65535\<close> by simp
  qed
qed

lemma length_ip_header [simp]: "length (ip_header tot idn proto src dst) = 20"
  by (simp add: ip_header_def ip_fields_def)

lemma ip_header_verifies: "checksum (ip_header tot idn proto src dst) = 0"
proof -
  let ?xs = "[0x45, 0] @ put16 tot @ put16 idn @ [0, 0, 64, proto]" and ?ys = "put32 src @ put32 dst"
  have e: "ip_fields tot idn proto src dst ck = ?xs @ put16 ck @ ?ys" for ck by (simp add: ip_fields_def)
  show ?thesis unfolding ip_header_def e by (rule checksum_verifies) simp_all
qed

lemma udp_segment_verifies:
  "length d \<le> 1472 \<Longrightarrow> net_ip_checksum_with_pseudo src dst IP_UDP (udp_segment src sport dst dport d) = 0"
proof -
  assume d: "length d \<le> 1472"
  let ?xs = "put16 sport @ put16 dport @ put16 (of_nat (8 + length d))"
  have e: "udp_fields sport dport d ck = ?xs @ put16 ck @ d" for ck by (simp add: udp_fields_def)
  show ?thesis unfolding udp_segment_def Let_def e by (rule pseudo_checksum_verifies [OF _ _ refl]) (use d in auto)
qed

lemma tcp_segment_verifies:
  "length d \<le> 1400 \<Longrightarrow> net_ip_checksum_with_pseudo src (rip t) IP_TCP (tcp_segment src t flags seq d mss) = 0"
proof -
  assume d: "length d \<le> 1400"
  let ?xs = "put16 (lport t) @ put16 (rport t) @ put32 seq @ put32 (rcv_nxt t) @ [if mss then 0x60 else 0x50, flags] @ put16 (of_nat (RXBUF - length (rx_buf t)))"
  let ?ys = "put16 0 @ (if mss then [2, 4] @ put16 (of_nat MSS) else []) @ d"
  have e: "tcp_fields t flags seq d mss ck = ?xs @ put16 ck @ ?ys" for ck by (simp add: tcp_fields_def)
  show ?thesis unfolding tcp_segment_def e by (rule pseudo_checksum_verifies [OF _ _ refl]) (use d in auto)
qed

section \<open>Packets in\<close>

text \<open>The protocol handler a packet built by \<open>ip_header\<close> goes to, once its address is ours.\<close>

definition for_us :: "u32 \<Rightarrow> net \<Rightarrow> bool" where
  "for_us dst s \<longleftrightarrow> my_ip s = 0 \<or> dst = my_ip s \<or> dst = 0xffffffff"

lemma length_eth_header: "length mac = 6 \<Longrightarrow> length dst = 6 \<Longrightarrow> length (eth_header mac dst ty) = 14"
  by (simp add: eth_header_def)

lemma ip_header_cells:
  "ip_header tot idn proto src dst ! 0 = 0x45" "ip_header tot idn proto src dst ! 9 = proto"
  by (simp_all add: ip_header_def ip_fields_def put16_def)

lemma ip_header_reads:
  "be16 (ip_header tot idn proto src dst @ p) 2 = tot" "be32 (ip_header tot idn proto src dst @ p) 12 = src"
  "be32 (ip_header tot idn proto src dst @ p) 16 = dst"
proof -
  define ck where "ck = checksum (ip_fields tot idn proto src dst 0)"
  have h: "ip_header tot idn proto src dst @ p =
      [0x45, 0] @ put16 tot @ put16 idn @ [0, 0, 64, proto] @ put16 ck @ put32 src @ put32 dst @ p"
    by (simp add: ip_header_def ip_fields_def ck_def)
  show "be16 (ip_header tot idn proto src dst @ p) 2 = tot" unfolding h by (rule be16_put16) simp
  show "be32 (ip_header tot idn proto src dst @ p) 12 = src"
    using be32_put32 [of "[0x45, 0] @ put16 tot @ put16 idn @ [0, 0, 64, proto] @ put16 ck" 12 src "put32 dst @ p"] unfolding h by simp
  show "be32 (ip_header tot idn proto src dst @ p) 16 = dst"
    using be32_put32 [of "[0x45, 0] @ put16 tot @ put16 idn @ [0, 0, 64, proto] @ put16 ck @ put32 src" 16 dst p] unfolding h by simp
qed

lemma handle_ipv4_packet:
  assumes "length e = 14" "length p \<le> 1480" "for_us dst s"
  shows "handle_ipv4 res (e @ ip_header (of_nat (20 + length p)) idn proto src dst @ p) s =
     (if proto = IP_ICMP then handle_icmp res p src s
      else if proto = IP_UDP then Some (handle_udp p src s)
      else if proto = IP_TCP then tcp_input res p src s
      else Some s)"
proof -
  let ?h = "ip_header (of_nat (20 + length p)) idn proto src dst"
  have d: "drop 14 (e @ ?h @ p) = ?h @ p" using assms(1) by simp
  have n0: "(?h @ p) ! 0 = 0x45" "(?h @ p) ! 9 = proto" using ip_header_cells by (simp_all add: nth_append)
  have tot: "unat (of_nat (20 + length p) :: u16) = 20 + length p" by (rule unat_of_nat_eq) (use assms(2) in simp)
  have ihl: "unat ((0x45 :: u8) AND 0x0f) * 4 = 20" "drop_bit 4 (0x45 :: u8) = 4" by (simp_all add: drop_bit_eq_div)
  have us: "(my_ip s \<noteq> 0 \<and> dst \<noteq> my_ip s \<and> dst \<noteq> 0xffffffff) = False" using assms(3) by (auto simp: for_us_def)
  have ck: "checksum (take 20 (?h @ p)) = 0" using ip_header_verifies by simp
  have pl: "take (20 + length p - 20) (drop 20 (?h @ p)) = p" by simp
  have len: "length (e @ ?h @ p) = 34 + length p" using assms(1) by simp
  show ?thesis
    unfolding handle_ipv4_def Let_def d n0 ihl ip_header_reads tot len pl ck us by simp
qed

lemma udp_segment_parts:
  "length (udp_segment src sport dst dport d) = 8 + length d"
  "be16 (udp_segment src sport dst dport d) 0 = sport" "be16 (udp_segment src sport dst dport d) 2 = dport"
  "be16 (udp_segment src sport dst dport d) 4 = of_nat (8 + length d)" "drop 8 (udp_segment src sport dst dport d) = d"
proof -
  define ck where "ck = (let c = net_ip_checksum_with_pseudo src dst IP_UDP (udp_fields sport dport d 0) in if c \<noteq> 0 then c else 0xffff)"
  have h: "udp_segment src sport dst dport d = put16 sport @ put16 dport @ put16 (of_nat (8 + length d)) @ put16 ck @ d"
    by (simp add: udp_segment_def udp_fields_def ck_def Let_def)
  show "length (udp_segment src sport dst dport d) = 8 + length d" "drop 8 (udp_segment src sport dst dport d) = d" unfolding h by simp_all
  show "be16 (udp_segment src sport dst dport d) 0 = sport" unfolding h using be16_put16 [of "[]"] by simp
  show "be16 (udp_segment src sport dst dport d) 2 = dport" unfolding h by (rule be16_put16) simp
  show "be16 (udp_segment src sport dst dport d) 4 = of_nat (8 + length d)"
    unfolding h using be16_put16 [of "put16 sport @ put16 dport" 4] by simp
qed

text \<open>The socket a datagram is for: the first one bound to its port.\<close>

definition first_bound :: "u16 \<Rightarrow> nat \<Rightarrow> net \<Rightarrow> bool" where
  "first_bound p i s \<longleftrightarrow> i < NSOCK \<and> length (socks s) = NSOCK \<and> u_used (socks s ! i) \<and> u_port (socks s ! i) = p \<and>
     (\<forall>j < i. \<not> (u_used (socks s ! j) \<and> u_port (socks s ! j) = p))"

lemma find_first_upt:
  assumes "i < n" "P i" "\<forall>j < i. \<not> P j"
  shows "List.find P [0..<n] = Some i"
  using assms unfolding find_Some_iff by (intro exI [of _ i]) simp

lemma handle_udp_segment:
  assumes "first_bound dport i s" "\<not> u_have (socks s ! i)" "length d \<le> 1472"
  shows "handle_udp (udp_segment src sport dst dport d) src s =
    on_sock i (\<lambda>k. k\<lparr>u_data := d, from_ip := src, from_port := sport, u_have := True\<rparr>) s"
proof -
  have f: "List.find (\<lambda>i. u_used (socks s ! i) \<and> u_port (socks s ! i) = dport) [0..<NSOCK] = Some i"
    by (rule find_first_upt) (use assms(1) in \<open>auto simp: first_bound_def\<close>)
  have u: "unat (of_nat (8 + length d) :: u16) = 8 + length d" by (rule unat_of_nat_eq) (use assms(3) in simp)
  have "\<not> (of_nat (8 + length d) :: u16) < 8" unfolding word_less_nat_alt u by simp
  then show ?thesis
    unfolding handle_udp_def Let_def udp_segment_parts f option.case u using assms(2, 3) by (simp add: DGRAM_MAX_def)
qed

section \<open>Properties\<close>

text \<open>C20: a datagram arrives as it was sent. The frame that \<open>udp_send_from\<close> gives the card, handled by a machine it is addressed to with a
  socket bound to the port and nothing waiting in it, is received there as exactly the bytes sent, with the address and the
  port of the sender.\<close>

theorem udp_round_trip:
  assumes "udp_send_from src sport dst dport mac d a = (True, a')" "length mac = 6" "length (my_mac a) = 6"
    "for_us dst b" "first_bound dport i b" "\<not> u_have (socks b ! i)"
  shows "\<exists>f b'. tx a' = f # tx a \<and> handle_ipv4 res f b = Some b' \<and> fst (udp_recvfrom i mx b') = Some (take mx d, src, sport)"
proof -
  have d: "length d \<le> 1472" using assms(1) by (auto simp: udp_send_from_def DGRAM_MAX_def split: if_splits)
  let ?seg = "udp_segment src sport dst dport d"
  define f where "f = eth_header (my_mac a) mac ET_IPV4 @ ip_header (of_nat (20 + length ?seg)) (sport XOR dport) IP_UDP src dst @ ?seg"
  have len: "28 + length d = 20 + length ?seg" by (simp add: udp_segment_parts)
  have tx: "tx a' = f # tx a"
    using assms(1) d unfolding udp_send_from_def len f_def by (auto simp: virtio_net_send_def Let_def DGRAM_MAX_def split: if_splits)
  have "handle_ipv4 res f b = Some (handle_udp ?seg src b)"
    unfolding f_def using handle_ipv4_packet [OF length_eth_header [OF assms(3, 2)] _ assms(4), of ?seg res ET_IPV4 "sport XOR dport" IP_UDP src] d
    by (simp add: udp_segment_parts IP_UDP_def IP_ICMP_def)
  moreover have "fst (udp_recvfrom i mx (handle_udp ?seg src b)) = Some (take mx d, src, sport)"
    unfolding handle_udp_segment [OF assms(5, 6) d] using assms(5) by (simp add: udp_recvfrom_def on_sock_def first_bound_def)
  ultimately show ?thesis using tx by blast
qed

text \<open>A frame whose IPv4 header and whose payload under the pseudo-header both test as zero.\<close>

definition verifies :: "bytes \<Rightarrow> bool" where
  "verifies f \<longleftrightarrow> checksum (take 20 (drop 14 f)) = 0 \<and>
     net_ip_checksum_with_pseudo (be32 (drop 14 f) 12) (be32 (drop 14 f) 16) (f ! 23) (drop 34 f) = 0"

lemma verifies_packet:
  assumes "length e = 14" "net_ip_checksum_with_pseudo src dst proto p = 0"
  shows "verifies (e @ ip_header tot idn proto src dst @ p)"
proof -
  have "(e @ ip_header tot idn proto src dst @ p) ! 23 = proto"
    using assms(1) ip_header_cells(2) [of tot idn proto src dst] by (simp add: nth_append)
  then show ?thesis using assms ip_header_verifies by (simp add: verifies_def ip_header_reads)
qed

text \<open>What is sent is well formed. Every frame that a datagram socket or a connection gives the card has an IPv4 header and a segment
  whose checksums a receiver finds right, whatever the addresses, ports, flags and data.\<close>

lemma sent_packets_verify:
  assumes "length mac = 6" "length (my_mac s) = 6"
  shows "(udp_send_from src sport dst dport mac d s = (True, s') \<longrightarrow> (\<exists>f. tx s' = f # tx s \<and> verifies f)) \<and>
         (route_mac res (rip (tcps s ! i)) s = Some (Some mac, s) \<and> length d \<le> MSS \<and> send_seg res i flags seq d mss s = Some (True, s') \<longrightarrow>
            (\<exists>f. tx s' = f # tx s \<and> verifies f))"
proof (intro conjI impI)
  assume u: "udp_send_from src sport dst dport mac d s = (True, s')"
  then have d: "length d \<le> 1472" by (auto simp: udp_send_from_def DGRAM_MAX_def split: if_splits)
  have "verifies (eth_header (my_mac s) mac ET_IPV4 @ ip_header (of_nat (28 + length d)) (sport XOR dport) IP_UDP src dst @
      udp_segment src sport dst dport d)"
    by (rule verifies_packet [OF length_eth_header [OF assms(2, 1)] udp_segment_verifies [OF d]])
  then show "\<exists>f. tx s' = f # tx s \<and> verifies f"
    using u by (auto simp: udp_send_from_def virtio_net_send_def Let_def split: if_splits)
next
  assume t: "route_mac res (rip (tcps s ! i)) s = Some (Some mac, s) \<and> length d \<le> MSS \<and> send_seg res i flags seq d mss s = Some (True, s')"
  let ?seg = "tcp_segment (my_ip s) (tcps s ! i) flags seq d mss"
  have "net_ip_checksum_with_pseudo (my_ip s) (rip (tcps s ! i)) IP_TCP ?seg = 0" by (rule tcp_segment_verifies) (use t in \<open>simp add: MSS_def\<close>)
  then have "verifies (eth_header (my_mac s) mac ET_IPV4 @ ip_header (of_nat (20 + length ?seg)) (ident s) IP_TCP (my_ip s) (rip (tcps s ! i)) @ ?seg)"
    by (rule verifies_packet [OF length_eth_header [OF assms(2, 1)]])
  then show "\<exists>f. tx s' = f # tx s \<and> verifies f"
    using t by (auto simp: send_seg_def net_ip_send_def virtio_net_send_def Let_def split: if_splits)
qed

text \<open>Bound ports.\<close>

definition bound_to :: "net \<Rightarrow> nat \<Rightarrow> u16 \<Rightarrow> bool" where
  "bound_to s i p \<longleftrightarrow> i < NSOCK \<and> u_used (socks s ! i) \<and> u_port (socks s ! i) = p \<and> p \<noteq> 0"

definition ports_ok :: "net \<Rightarrow> bool" where
  "ports_ok s \<longleftrightarrow> length (socks s) = NSOCK \<and> (\<forall>i j p. bound_to s i p \<longrightarrow> bound_to s j p \<longrightarrow> i = j)"

lemma ports_ok_mono:
  "ports_ok s \<Longrightarrow> length (socks s') = length (socks s) \<Longrightarrow> (\<And>j p. bound_to s' j p \<Longrightarrow> bound_to s j p) \<Longrightarrow> ports_ok s'"
  unfolding ports_ok_def by metis

lemma ports_ok_on_sock:
  assumes "ports_ok s" "u_port (g (socks s ! i)) = 0 \<or> u_port (g (socks s ! i)) = u_port (socks s ! i) \<and> u_used (socks s ! i)"
  shows "ports_ok (on_sock i g s)"
proof (rule ports_ok_mono [OF assms(1)])
  show "length (socks (on_sock i g s)) = length (socks s)" by (simp add: on_sock_def)
  have len: "length (socks s) = NSOCK" using assms(1) by (simp add: ports_ok_def)
  show "bound_to s j p" if "bound_to (on_sock i g s) j p" for j p
    using that assms(2) len by (cases "i = j") (auto simp: bound_to_def on_sock_def)
qed

lemma ports_ok_bind:
  assumes "ports_ok s" "\<not> port_taken p s"
  shows "ports_ok (on_sock i (\<lambda>k. k\<lparr>u_port := p\<rparr>) s)"
proof -
  let ?s = "on_sock i (\<lambda>k. k\<lparr>u_port := p\<rparr>) s"
  have len: "length (socks s) = NSOCK" using assms(1) by (simp add: ports_ok_def)
  have b: "bound_to s j q \<and> q \<noteq> p \<or> j = i \<and> q = p" if "bound_to ?s j q" for j q
    using that assms(2) len by (cases "i = j") (auto simp: bound_to_def on_sock_def port_taken_def)
  have "x = y" if "bound_to ?s x q" "bound_to ?s y q" for x y q
    using b [OF that(1)] b [OF that(2)] assms(1) unfolding ports_ok_def by blast
  moreover have "length (socks ?s) = NSOCK" using len by (simp add: on_sock_def)
  ultimately show ?thesis unfolding ports_ok_def by blast
qed

lemma ports_ok_bind_any: "ports_ok s \<Longrightarrow> ports_ok (snd (bind_any tries i s))"
proof (induction tries arbitrary: s)
  case (Suc tries)
  have "ports_ok (s\<lparr>next_ephemeral := n\<rparr>)" for n using Suc.prems by (rule ports_ok_mono) (simp_all add: bound_to_def)
  then show ?case using Suc.IH ports_ok_bind by (simp add: Let_def)
qed simp

text \<open>C36: no two open datagram sockets ever have the same port. Opening, binding to a chosen or to any free port, receiving a datagram, taking it
  and closing all keep it so.\<close>

theorem ports_stay_distinct:
  assumes "ports_ok s"
  shows "ports_ok (snd (udp_open s)) \<and> ports_ok (snd (udp_bind i p s)) \<and> ports_ok (udp_close i s) \<and>
         ports_ok (snd (udp_recvfrom i mx s)) \<and> ports_ok (handle_udp u src s)"
proof (intro conjI)
  show "ports_ok (snd (udp_open s))" using assms by (auto simp: udp_open_def split: option.split intro!: ports_ok_on_sock)
  show "ports_ok (snd (udp_bind i p s))" using assms ports_ok_bind_any ports_ok_bind by (simp add: udp_bind_def)
  show "ports_ok (udp_close i s)" using assms unfolding udp_close_def by (rule ports_ok_on_sock) simp
  show "ports_ok (snd (udp_recvfrom i mx s))" using assms by (auto simp: udp_recvfrom_def Let_def intro!: ports_ok_on_sock)
  have "u_used (socks s ! j)" if "List.find (\<lambda>i. u_used (socks s ! i) \<and> u_port (socks s ! i) = q) [0..<NSOCK] = Some j" for j q
    using that unfolding find_Some_iff by auto
  then show "ports_ok (handle_udp u src s)" using assms by (auto simp: handle_udp_def Let_def split: option.split intro!: ports_ok_on_sock)
qed

lemma dhcp_scan_inside:
  "dhcp_scan p want i = (t, l) \<Longrightarrow> t \<noteq> 0 \<Longrightarrow> i + 2 \<le> t \<and> t + l \<le> length p \<and> p ! (t - 2) = want \<and> unat (p ! (t - 1)) = l"
proof (induction p want i rule: dhcp_scan.induct)
  case (1 p want i)
  show ?case using 1 by (subst (asm) (3) dhcp_scan.simps) (auto simp: Let_def split: if_splits)
qed

lemma arp_find_first:
  assumes "i < ARP_N" "arp_used (arp s ! i)" "arp_ip (arp s ! i) = ip" "\<forall>j < i. \<not> (arp_used (arp s ! j) \<and> arp_ip (arp s ! j) = ip)"
  shows "arp_find ip s = Some i"
  unfolding arp_find_def by (rule find_first_upt) (use assms in auto)

lemma arp_find_None: "arp_find ip s = None \<Longrightarrow> j < ARP_N \<Longrightarrow> \<not> (arp_used (arp s ! j) \<and> arp_ip (arp s ! j) = ip)"
  unfolding arp_find_def find_None_iff by auto

lemma arp_lookup_learn:
  assumes "length (arp s) = ARP_N"
  shows "arp_lookup ip (arp_learn ip mac s) = Some mac"
proof (cases "arp_find ip s")
  case (Some i)
  then have i: "i < ARP_N" "arp_used (arp s ! i)" "arp_ip (arp s ! i) = ip" "\<forall>j < i. \<not> (arp_used (arp s ! j) \<and> arp_ip (arp s ! j) = ip)"
    unfolding arp_find_def find_Some_iff by auto
  let ?s = "arp_learn ip mac s"
  have s': "arp ?s = (arp s)[i := (arp s ! i)\<lparr>arp_mac := mac\<rparr>]" using Some by (simp add: arp_learn_def)
  have "arp_find ip ?s = Some i" by (rule arp_find_first) (use i assms in \<open>auto simp: s'\<close>)
  then show ?thesis using i assms by (simp add: arp_lookup_def s')
next
  case None
  note no = arp_find_None [OF None]
  let ?s = "arp_learn ip mac s"
  show ?thesis
  proof (cases "List.find (\<lambda>i. \<not> arp_used (arp s ! i)) [0..<ARP_N]")
    case (Some i)
    then have i: "i < ARP_N" unfolding find_Some_iff by auto
    have s': "arp ?s = (arp s)[i := \<lparr>arp_ip = ip, arp_mac = mac, arp_used = True\<rparr>]" using None Some by (simp add: arp_learn_def)
    have "arp_find ip ?s = Some i" by (rule arp_find_first) (use i assms no in \<open>auto simp: s'\<close>)
    then show ?thesis using i assms by (simp add: arp_lookup_def s')
  next
    case n: None
    then have "arp_used (arp s ! 0)" unfolding find_None_iff by (simp add: ARP_N_def)
    moreover have s': "arp ?s = (arp s)[0 := (arp s ! 0)\<lparr>arp_ip := ip, arp_mac := mac\<rparr>]" using None n by (simp add: arp_learn_def)
    ultimately have "arp_find ip ?s = Some 0" by (intro arp_find_first) (use assms in \<open>auto simp: ARP_N_def\<close>)
    then show ?thesis using assms by (simp add: arp_lookup_def s' ARP_N_def)
  qed
qed

lemma arp_frame_parts:
  assumes "length mac = 6" "length dst = 6" "length tmac = 6"
  shows "length (arp_frame mac dst opn ip tmac tip) = 60" "be16 (arp_frame mac dst opn ip tmac tip) 12 = ET_ARP"
    "be16 (arp_frame mac dst opn ip tmac tip) 16 = ET_IPV4" "arp_frame mac dst opn ip tmac tip ! 18 = 6" "arp_frame mac dst opn ip tmac tip ! 19 = 4"
    "be16 (arp_frame mac dst opn ip tmac tip) 20 = opn" "be32 (arp_frame mac dst opn ip tmac tip) 28 = ip"
    "take 6 (drop 22 (arp_frame mac dst opn ip tmac tip)) = mac" "be32 (arp_frame mac dst opn ip tmac tip) 38 = tip"
proof -
  let ?f = "arp_frame mac dst opn ip tmac tip"
  have f: "?f = dst @ mac @ put16 ET_ARP @ put16 1 @ put16 ET_IPV4 @ [6, 4] @ put16 opn @ mac @ put32 ip @ tmac @ put32 tip @ replicate 18 0"
    by (simp add: arp_frame_def eth_header_def)
  show "length ?f = 60" "take 6 (drop 22 ?f) = mac" "?f ! 18 = 6" "?f ! 19 = 4" unfolding f using assms by (simp_all add: nth_append)
  show "be16 ?f 12 = ET_ARP" unfolding f using be16_put16 [of "dst @ mac" 12] assms by simp
  show "be16 ?f 16 = ET_IPV4" unfolding f using be16_put16 [of "dst @ mac @ put16 ET_ARP @ put16 1" 16] assms by simp
  show "be16 ?f 20 = opn" unfolding f using be16_put16 [of "dst @ mac @ put16 ET_ARP @ put16 1 @ put16 ET_IPV4 @ [6, 4]" 20] assms by simp
  show "be32 ?f 28 = ip"
    unfolding f using be32_put32 [of "dst @ mac @ put16 ET_ARP @ put16 1 @ put16 ET_IPV4 @ [6, 4] @ put16 opn @ mac" 28] assms by simp
  show "be32 ?f 38 = tip"
    unfolding f using be32_put32 [of "dst @ mac @ put16 ET_ARP @ put16 1 @ put16 ET_IPV4 @ [6, 4] @ put16 opn @ mac @ put32 ip @ tmac" 38] assms by simp
qed

lemma arp_learn_same [simp]:
  "my_ip (arp_learn ip mac s) = my_ip s" "my_mac (arp_learn ip mac s) = my_mac s" "tx (arp_learn ip mac s) = tx s" "card (arp_learn ip mac s) = card s"
  "tx_tries (arp_learn ip mac s) = tx_tries s" "tx_ok (arp_learn ip mac s) = tx_ok s" "rxq (arp_learn ip mac s) = rxq s"
  by (simp_all add: arp_learn_def split: option.split)

text \<open>A machine with a card that sends.\<close>

definition online :: "net \<Rightarrow> bool" where
  "online s \<longleftrightarrow> card s \<and> (\<forall>n. tx_ok s n) \<and> length (my_mac s) = 6 \<and> length (arp s) = ARP_N"

lemma online_send: "online s \<Longrightarrow> virtio_net_send f s = (True, s\<lparr>tx_tries := Suc (tx_tries s), tx := f # tx s\<rparr>)"
  by (simp add: online_def virtio_net_send_def Let_def)

text \<open>C37: an address is resolved by the machine that has it. The request that \<open>net_arp_resolve\<close> broadcasts makes the machine with the address
  send an answer, and when that answer is the next thing to arrive before the deadline, the resolution returns that machine's
  hardware address; the machine asked has learned the address of the one that asked.\<close>

theorem arp_resolution:
  assumes "online a" "online b" "my_ip b \<noteq> 0" "arp_lookup (my_ip b) a = None" "rxq a = []" "ticks a < ticks a + hz a"
    and q: "q = arp_frame (my_mac a) bcast_mac 1 (my_ip a) (replicate 6 0) (my_ip b)"
    and fut: "future a = \<lparr>frames = [hd (tx (handle_arp q b))], tick = t, counted = n\<rparr> # ms" "t < ticks a + hz a"
  shows "\<exists>a'. net_arp_resolve (Suc d) (my_ip b) a = Some (Some (my_mac b), a') \<and> hd (tx a') = q \<and>
              arp_lookup (my_ip a) (handle_arp q b) = Some (my_mac a)"
proof -
  have la: "length (my_mac a) = 6" "length (my_mac b) = 6" "length bcast_mac = 6" "length (replicate 6 (0 :: u8)) = 6" "length (arp b) = ARP_N"
    "length (arp a) = ARP_N"
    using assms(1, 2) by (simp_all add: online_def bcast_mac_def)
  note qp = arp_frame_parts [OF la(1, 3, 4), of 1 "my_ip a" "my_ip b", folded q]
  define b1 where "b1 = arp_learn (my_ip a) (my_mac a) b"
  have ob: "online b1" using assms(2) by (auto simp: b1_def online_def arp_learn_def split: option.split)
  define r where "r = arp_frame (my_mac b) (my_mac a) 2 (my_ip b) (my_mac a) (my_ip a)"
  have hb: "handle_arp q b = b1\<lparr>tx_tries := Suc (tx_tries b1), tx := r # tx b1\<rparr>"
    using assms(3) online_send [OF ob] by (simp add: handle_arp_def qp Let_def b1_def [symmetric]) (simp add: b1_def r_def)
  have lb: "arp_lookup (my_ip a) (handle_arp q b) = Some (my_mac a)"
    using arp_lookup_learn [OF la(5), of "my_ip a" "my_mac a"] by (simp add: hb b1_def arp_lookup_def arp_find_def)
  note rp = arp_frame_parts [OF la(2, 1, 1), of 2 "my_ip b" "my_ip a", folded r_def]
  define a1 where "a1 = a\<lparr>tx_tries := Suc (tx_tries a), tx := q # tx a\<rparr>"
  define a2 where "a2 = a1\<lparr>rxq := [r], ticks := t, counter := n, future := ms\<rparr>"
  define a3 where "a3 = arp_learn (my_ip b) (my_mac b) (a2\<lparr>rxq := []\<rparr>)"
  have w1: "net_wait a1 = Some a2" using fut(1) assms(5) by (simp add: net_wait_def a1_def a2_def hb)
  have l1: "arp_lookup (my_ip b) a1 = None" using assms(4) by (simp add: a1_def arp_lookup_def arp_find_def)
  have p1: "poll_with (net_arp_resolve d) a1 = Some a1"
    using assms(1, 5) by (simp add: poll_with_def numeral_eq_Suc virtio_net_recv_def a1_def Let_def)
  have h: "handle_arp r (a2\<lparr>rxq := []\<rparr>) = a3" by (simp add: handle_arp_def rp Let_def a3_def)
  have "poll_loop (Suc (Suc k)) (net_arp_resolve d) a2 = Some a3" for k
    using rp(1, 2) h by (simp add: virtio_net_recv_def a2_def a3_def Let_def)
  from this [of 30] have p2: "poll_with (net_arp_resolve d) a2 = Some a3"
    using assms(1) by (simp add: poll_with_def a2_def a1_def online_def)
  have l3: "arp_lookup (my_ip b) a3 = Some (my_mac b)" unfolding a3_def by (rule arp_lookup_learn) (simp add: a2_def a1_def la(6))
  have dl: "ticks a1 + hz a1 = ticks a + hz a" "ticks a1 < ticks a + hz a" "ticks a2 < ticks a + hz a" "length (future a1) = Suc (length ms)"
    using assms(6) fut by (simp_all add: a1_def a2_def)
  have "net_arp_resolve (Suc d) (my_ip b) a = Some (Some (my_mac b), a3)"
    using assms(1, 4) online_send [OF assms(1)] dl p1 p2 l1 l3 w1
    by (simp add: online_def q [symmetric] a1_def [symmetric])
  moreover have "hd (tx a3) = q" by (simp add: a3_def a2_def a1_def)
  ultimately show ?thesis using lb by blast
qed

text \<open>An option of a DHCP answer is read where it is. Whatever bytes the server sent, a value that \<open>dhcp_option\<close> reports lies inside the
  datagram and after its fixed part, and the two bytes before it are the option's code and the length reported.\<close>

lemma dhcp_option_inside:
  assumes "dhcp_option p want = (t, l)" "t \<noteq> 0"
  shows "242 \<le> t \<and> t + l \<le> length p \<and> p ! (t - 2) = want \<and> unat (p ! (t - 1)) = l"
  using dhcp_scan_inside [OF assms(1) [unfolded dhcp_option_def] assms(2)] by simp

section \<open>Two machines\<close>

definition demo_net :: "u8 \<Rightarrow> u32 \<Rightarrow> net" where
  "demo_net m ip = \<lparr>my_mac = [2, 0, 0, 0, 0, m], my_ip = ip, my_mask = 0xffffff00, gw_ip = 0x0a000201, dns_ip = 0, is_up = True,
     arp = replicate 4 \<lparr>arp_ip = 0, arp_mac = replicate 6 0, arp_used = False\<rparr>, ping_seq = -1, ping_got = False, ping_intact = False,
     socks = \<lparr>u_used = True, u_port = 53, u_have = False, from_ip = 0, from_port = 0, u_data = []\<rparr> #
       replicate 7 \<lparr>u_used = False, u_port = 0, u_have = False, from_ip = 0, from_port = 0, u_data = []\<rparr>,
     next_ephemeral = 49152, ident = 0,
     tcps = replicate 6 \<lparr>tcp_st = T_FREE, lport = 0, rport = 0, rip = 0, snd_nxt = 0, snd_una = 0, rcv_nxt = 0, rx_buf = [], fin_seen = False,
       was_reset = False, t_parent = None\<rparr>,
     next_port = 40000, card = True, rxq = [], tx = [], tx_tries = 0, tx_ok = (\<lambda>_. True), ticks = 0, hz = 100, counter = 7, cntfrq = 62500000,
     future = []\<rparr>"

abbreviation host_a :: net where "host_a \<equiv> demo_net 1 0x0a000205"
abbreviation host_b :: net where "host_b \<equiv> demo_net 2 0x0a000206"

lemma demo_online: "online (demo_net m ip)" "for_us ip (demo_net m ip)" "first_bound 53 0 (demo_net m ip)"
  "\<not> u_have (socks (demo_net m ip) ! 0)" "length (my_mac (demo_net m ip)) = 6" "ports_ok (demo_net m ip)"
  by (simp_all add: demo_net_def online_def ARP_N_def for_us_def first_bound_def NSOCK_def ports_ok_def bound_to_def)
    (auto simp: nth_Cons' split: if_splits)

theorem udp_round_trip_witness:
  "\<exists>a' f b'. udp_send_from 0x0a000205 1234 0x0a000206 53 [2, 0, 0, 0, 0, 2] [104, 105] host_a = (True, a') \<and> hd (tx a') = f \<and>
     handle_ipv4 (net_arp_resolve 0) f host_b = Some b' \<and> fst (udp_recvfrom 0 512 b') = Some ([104, 105], 0x0a000205, 1234)"
proof -
  obtain a' where a': "udp_send_from 0x0a000205 1234 0x0a000206 53 [2, 0, 0, 0, 0, 2] [104, 105] host_a = (True, a')"
    by (simp add: udp_send_from_def DGRAM_MAX_def online_send demo_online(1))
  show ?thesis
    using udp_round_trip [OF a' _ demo_online(5) demo_online(2) [where m = 2] demo_online(3, 4), where res = "net_arp_resolve 0" and mx = 512] a' by auto
qed

theorem ports_stay_distinct_witness: "ports_ok (snd (udp_bind 0 1000 host_a)) \<and> ports_ok (snd (udp_open host_a))"
  using ports_stay_distinct [OF demo_online(6)] by blast

theorem arp_resolution_witness:
  "\<exists>a'. net_arp_resolve 1 0x0a000206
       (host_a\<lparr>future := [\<lparr>frames = [hd (tx (handle_arp (arp_frame [2, 0, 0, 0, 0, 1] bcast_mac 1 0x0a000205 (replicate 6 0) 0x0a000206) host_b))],
                           tick = 1, counted = 9\<rparr>]\<rparr>) = Some (Some [2, 0, 0, 0, 0, 2], a')"
proof -
  let ?q = "arp_frame [2, 0, 0, 0, 0, 1] bcast_mac 1 0x0a000205 (replicate 6 0) 0x0a000206"
  let ?a = "host_a\<lparr>future := [\<lparr>frames = [hd (tx (handle_arp ?q host_b))], tick = 1, counted = 9\<rparr>]\<rparr>"
  have f: "my_ip host_b = 0x0a000206" "my_mac host_b = [2, 0, 0, 0, 0, 2]" "my_ip ?a = 0x0a000205" "my_mac ?a = [2, 0, 0, 0, 0, 1]" "ticks ?a = 0" "hz ?a = 100"
    "rxq ?a = []" by (simp_all add: demo_net_def)
  have "online ?a" using demo_online(1) [of 1 "0x0a000205"] by (simp add: online_def)
  moreover have "arp_lookup 0x0a000206 ?a = None" by (simp add: arp_lookup_def arp_find_def demo_net_def ARP_N_def upt_rec)
  ultimately show ?thesis
    using arp_resolution [of ?a host_b ?q 1 9 "[]" 0] demo_online(1) f by (auto simp del: net_arp_resolve.simps)
qed

end
