(* ===== verification/Tcp.thy ===== *)
theory Tcp
  imports Net
begin

text \<open>
  The calls of \<open>stam/tcp.c\<close> above its segment handler: opening, binding, listening, accepting, connecting, sending with
  retransmission, receiving and closing. A socket is an index into the table. Each waiting loop polls, tests and waits on the
  schedule of \<open>Net\<close>; its fuel is the number of moments left, of which every round but the last uses one.

  The lemmas show that a three-way handshake ends with both ends connected and agreeing on the sequence numbers, and that what a reader
  gets is a prefix of what was sent, however the network delays, repeats, reorders and loses segments.
\<close>

section \<open>Calls that do not wait\<close>

definition tcp_open :: "net \<Rightarrow> nat option \<times> net" where
  "tcp_open s =
     (case tcp_find (\<lambda>t. tcp_st t = T_FREE) s of
        None \<Rightarrow> (None, s)
      | Some i \<Rightarrow>
          (Some i, on_tcp i (\<lambda>t. t\<lparr>tcp_st := T_CLOSED, rx_buf := [], fin_seen := False, was_reset := False, lport := 0, rport := 0,
                                  rip := 0, t_parent := None\<rparr>) s))"

text \<open>Whether another socket listens on the port.\<close>

definition listened :: "nat \<Rightarrow> u16 \<Rightarrow> net \<Rightarrow> bool" where
  "listened i p s \<longleftrightarrow> (\<exists>j \<in> set [0..<NTCP]. j \<noteq> i \<and> tcp_st (tcps s ! j) = T_LISTEN \<and> lport (tcps s ! j) = p)"

definition tcp_bind :: "nat \<Rightarrow> u16 \<Rightarrow> net \<Rightarrow> int \<times> net" where
  "tcp_bind i p s =
     (if tcp_st (tcps s ! i) \<noteq> T_CLOSED then (-22, s)
      else if listened i p s then (-98, s)
      else (0, on_tcp i (\<lambda>t. t\<lparr>lport := p\<rparr>) s))"

definition tcp_listen :: "nat \<Rightarrow> net \<Rightarrow> int \<times> net" where
  "tcp_listen i s =
     (if tcp_st (tcps s ! i) \<noteq> T_CLOSED \<or> \<not> is_up s then (-22, s)
      else if lport (tcps s ! i) = 0 then (-22, s)
      else if listened i (lport (tcps s ! i)) s then (-98, s)
      else (0, on_tcp i (\<lambda>t. t\<lparr>rport := 0, rip := 0, t_parent := None, tcp_st := T_LISTEN\<rparr>) s))"

definition tcp_state_established :: "nat \<Rightarrow> net \<Rightarrow> bool" where
  "tcp_state_established i s \<longleftrightarrow> tcp_st (tcps s ! i) = T_ESTABLISHED \<or> tcp_st (tcps s ! i) = T_CLOSE_WAIT"

section \<open>Accepting\<close>

definition accepted :: "nat \<Rightarrow> tcp_sock \<Rightarrow> bool" where
  "accepted l t \<longleftrightarrow> t_parent t = Some l \<and> (tcp_st t = T_ESTABLISHED \<or> tcp_st t = T_CLOSE_WAIT)"

primrec accept_loop :: "nat \<Rightarrow> nat \<Rightarrow> nat \<Rightarrow> u64 \<Rightarrow> net \<Rightarrow> (nat option \<times> net) option" where
  "accept_loop 0 d l deadline s = None"
| "accept_loop (Suc k) d l deadline s =
     (case net_poll d s of
        None \<Rightarrow> None
      | Some s1 \<Rightarrow>
          (case tcp_find (accepted l) s1 of
             Some i \<Rightarrow> Some (Some i, on_tcp i (\<lambda>t. t\<lparr>t_parent := None\<rparr>) s1)
           | None \<Rightarrow>
               if ticks s1 \<ge> deadline then Some (None, s1)
               else (case net_wait s1 of None \<Rightarrow> None | Some s2 \<Rightarrow> accept_loop k d l deadline s2)))"

definition tcp_accept :: "nat \<Rightarrow> nat \<Rightarrow> u64 \<Rightarrow> net \<Rightarrow> (nat option \<times> net) option" where
  "tcp_accept d l n s =
     (if tcp_st (tcps s ! l) \<noteq> T_LISTEN then Some (None, s)
      else accept_loop (Suc (length (future s))) d l (ticks s + n) s)"

section \<open>Connecting\<close>

definition RETRIES :: nat where "RETRIES = 6"

text \<open>The socket with its sequence numbers and ports chosen.\<close>

definition syn_sent :: "nat \<Rightarrow> u32 \<Rightarrow> u16 \<Rightarrow> net \<Rightarrow> net" where
  "syn_sent i ip p s =
     (let iss = ucast (counter s); np = next_port s + 1
      in on_tcp i (\<lambda>t. t\<lparr>snd_una := iss, snd_nxt := iss + 1, rcv_nxt := 0, rip := ip, rport := p, lport := next_port s, tcp_st := T_SYN_SENT\<rparr>)
           (s\<lparr>next_port := (if np < 40000 then 40000 else np)\<rparr>))"

text \<open>What a wait for an answer ended with.\<close>

datatype answer = Answered | Refused | Silent

primrec await :: "nat \<Rightarrow> nat \<Rightarrow> nat \<Rightarrow> (tcp_sock \<Rightarrow> bool) \<Rightarrow> u64 \<Rightarrow> net \<Rightarrow> (answer \<times> net) option" where
  "await 0 d i done' deadline s = None"
| "await (Suc k) d i done' deadline s =
     (if \<not> ticks s < deadline then Some (Silent, s)
      else case net_poll d s of
        None \<Rightarrow> None
      | Some s1 \<Rightarrow>
          if was_reset (tcps s1 ! i) then Some (Refused, s1)
          else if done' (tcps s1 ! i) then Some (Answered, s1)
          else (case net_wait s1 of None \<Rightarrow> None | Some s2 \<Rightarrow> await k d i done' deadline s2))"

primrec connect_tries :: "nat list \<Rightarrow> nat \<Rightarrow> nat \<Rightarrow> u32 \<Rightarrow> net \<Rightarrow> (int \<times> net) option" where
  "connect_tries [] d i iss s = Some (-110, on_tcp i (\<lambda>t. t\<lparr>tcp_st := T_CLOSED\<rparr>) s)"
| "connect_tries (n # ns) d i iss s =
     (case send_seg (net_arp_resolve d) i F_SYN iss [] True s of
        None \<Rightarrow> None
      | Some (False, s1) \<Rightarrow> Some (-110, on_tcp i (\<lambda>t. t\<lparr>tcp_st := T_CLOSED\<rparr>) s1)
      | Some (True, s1) \<Rightarrow>
          (case await (Suc (length (future s1))) d i (\<lambda>t. tcp_st t = T_ESTABLISHED) (ticks s1 + (of_nat n + 1) * 20) s1 of
             None \<Rightarrow> None
           | Some (Refused, s2) \<Rightarrow> Some (-111, on_tcp i (\<lambda>t. t\<lparr>tcp_st := T_CLOSED\<rparr>) s2)
           | Some (Answered, s2) \<Rightarrow> Some (0, s2)
           | Some (Silent, s2) \<Rightarrow> connect_tries ns d i iss s2))"

definition tcp_connect :: "nat \<Rightarrow> nat \<Rightarrow> u32 \<Rightarrow> u16 \<Rightarrow> net \<Rightarrow> (int \<times> net) option" where
  "tcp_connect d i ip p s =
     (if tcp_st (tcps s ! i) \<noteq> T_CLOSED \<or> \<not> is_up s then Some (-1, s)
      else connect_tries [0..<RETRIES] d i (ucast (counter s)) (syn_sent i ip p s))"

section \<open>Sending\<close>

datatype sent = Acked | SendFailed | PeerReset | Unanswered

text \<open>One segment until it is acknowledged, or the retries are used up.\<close>

primrec send_tries :: "nat list \<Rightarrow> nat \<Rightarrow> nat \<Rightarrow> u32 \<Rightarrow> bytes \<Rightarrow> net \<Rightarrow> (sent \<times> net) option" where
  "send_tries [] d i seq chunk s = Some (Unanswered, s)"
| "send_tries (n # ns) d i seq chunk s =
     (case send_seg (net_arp_resolve d) i (F_ACK OR F_PSH) seq chunk False s of
        None \<Rightarrow> None
      | Some (False, s1) \<Rightarrow> Some (SendFailed, s1)
      | Some (True, s1) \<Rightarrow>
          (case await (Suc (length (future s1))) d i (\<lambda>t. seq_ge (snd_una t) (seq + of_nat (length chunk))) (ticks s1 + (of_nat n + 1) * 20) s1 of
             None \<Rightarrow> None
           | Some (Refused, s2) \<Rightarrow> Some (PeerReset, s2)
           | Some (Answered, s2) \<Rightarrow> Some (Acked, s2)
           | Some (Silent, s2) \<Rightarrow> send_tries ns d i seq chunk s2))"

text \<open>The bytes still to send, and how many went; the fuel is the number of bytes.\<close>

primrec send_loop :: "nat \<Rightarrow> nat \<Rightarrow> nat \<Rightarrow> nat \<Rightarrow> bytes \<Rightarrow> net \<Rightarrow> (int \<times> net) option" where
  "send_loop 0 d i n buf s = Some (int n, s)"
| "send_loop (Suc k) d i n buf s =
     (if buf = [] then Some (int n, s)
      else let chunk = take MSS buf; seq = snd_nxt (tcps s ! i);
               s1 = on_tcp i (\<lambda>t. t\<lparr>snd_nxt := seq + of_nat (length chunk)\<rparr>) s;
               partial = (\<lambda>e. if n \<noteq> 0 then int n else e)
           in case send_tries [0..<RETRIES] d i seq chunk s1 of
                None \<Rightarrow> None
              | Some (SendFailed, s2) \<Rightarrow> Some (partial (-101), s2)
              | Some (PeerReset, s2) \<Rightarrow> Some (partial (-104), s2)
              | Some (Unanswered, s2) \<Rightarrow> Some (partial (-110), on_tcp i (\<lambda>t. t\<lparr>snd_nxt := seq\<rparr>) s2)
              | Some (Acked, s2) \<Rightarrow> send_loop k d i (n + length chunk) (drop MSS buf) s2)"

definition tcp_send :: "nat \<Rightarrow> nat \<Rightarrow> bytes \<Rightarrow> net \<Rightarrow> (int \<times> net) option" where
  "tcp_send d i buf s =
     (if was_reset (tcps s ! i) then Some (-104, s)
      else if \<not> tcp_state_established i s then Some (-107, s)
      else send_loop (length buf) d i 0 buf s)"

section \<open>Receiving\<close>

definition rx_take :: "nat \<Rightarrow> nat \<Rightarrow> net \<Rightarrow> bytes \<times> net" where
  "rx_take i mx s = (take mx (rx_buf (tcps s ! i)), on_tcp i (\<lambda>t. t\<lparr>rx_buf := drop mx (rx_buf t)\<rparr>) s)"

text \<open>The value returned, and the bytes written to the caller's buffer.\<close>

primrec recv_loop :: "nat \<Rightarrow> nat \<Rightarrow> nat \<Rightarrow> nat \<Rightarrow> u64 \<Rightarrow> net \<Rightarrow> ((int \<times> bytes) \<times> net) option" where
  "recv_loop 0 d i mx deadline s = None"
| "recv_loop (Suc k) d i mx deadline s =
     (case net_poll d s of
        None \<Rightarrow> None
      | Some s1 \<Rightarrow>
          if rx_buf (tcps s1 ! i) \<noteq> [] then
            (let (b, s2) = rx_take i mx s1 in Some ((int (length b), b), s2))
          else if was_reset (tcps s1 ! i) then Some ((-104, []), s1)
          else if fin_seen (tcps s1 ! i) then Some ((0, []), s1)
          else if ticks s1 \<ge> deadline then Some ((-11, []), s1)
          else (case net_wait s1 of None \<Rightarrow> None | Some s2 \<Rightarrow> recv_loop k d i mx deadline s2))"

definition tcp_recv :: "nat \<Rightarrow> nat \<Rightarrow> u32 \<Rightarrow> net \<Rightarrow> ((int \<times> bytes) \<times> net) option" where
  "tcp_recv d i mx s =
     (if was_reset (tcps s ! i) then Some ((-104, []), s)
      else recv_loop (Suc (length (future s))) d i (unat mx) (ticks s + hz s * 5) s)"

section \<open>Closing\<close>

primrec close_loop :: "nat \<Rightarrow> nat \<Rightarrow> nat \<Rightarrow> u64 \<Rightarrow> net \<Rightarrow> net option" where
  "close_loop 0 d i deadline s = None"
| "close_loop (Suc k) d i deadline s =
     (if ticks s < deadline \<and> tcp_st (tcps s ! i) \<noteq> T_CLOSED then
        (case net_poll d s of
           None \<Rightarrow> None
         | Some s1 \<Rightarrow> (case net_wait s1 of None \<Rightarrow> None | Some s2 \<Rightarrow> close_loop k d i deadline s2))
      else Some s)"

definition tcp_close :: "nat \<Rightarrow> nat \<Rightarrow> net \<Rightarrow> net option" where
  "tcp_close d i s =
     (if tcp_st (tcps s ! i) = T_LISTEN then Some (on_tcp i (\<lambda>t. t\<lparr>tcp_st := T_FREE\<rparr>) s)
      else if tcp_state_established i s then
        (case send_seg (net_arp_resolve d) i (F_ACK OR F_FIN) (snd_nxt (tcps s ! i)) [] False s of
           None \<Rightarrow> None
         | Some (_, s1) \<Rightarrow>
             let s2 = on_tcp i (\<lambda>t. t\<lparr>snd_nxt := snd_nxt t + 1, tcp_st := (if tcp_st t = T_CLOSE_WAIT then T_CLOSED else T_FIN_WAIT)\<rparr>) s1
             in map_option (on_tcp i (\<lambda>t. t\<lparr>tcp_st := T_FREE\<rparr>)) (close_loop (Suc (length (future s2))) d i (ticks s2 + hz s2 div 2) s2))
      else Some (on_tcp i (\<lambda>t. t\<lparr>tcp_st := T_FREE\<rparr>) s))"

section \<open>Sending to a known neighbour\<close>

text \<open>The next hop towards an address is in the cache, so sending there does not poll.\<close>

definition reaches :: "net \<Rightarrow> u32 \<Rightarrow> bool" where
  "reaches s ip \<longleftrightarrow>
     (let nxt = (if my_mask s \<noteq> 0 \<and> (ip XOR my_ip s) AND my_mask s \<noteq> 0 then gw_ip s else ip)
      in nxt \<noteq> 0 \<and> (\<exists>mac. arp_lookup nxt s = Some mac \<and> length mac = 6))"

text \<open>Two states that send alike.\<close>

definition same_links :: "net \<Rightarrow> net \<Rightarrow> bool" where
  "same_links s s' \<longleftrightarrow> arp s' = arp s \<and> my_ip s' = my_ip s \<and> my_mask s' = my_mask s \<and> gw_ip s' = gw_ip s \<and> my_mac s' = my_mac s \<and>
     card s' = card s \<and> tx_ok s' = tx_ok s \<and> rxq s' = rxq s \<and> future s' = future s \<and> ticks s' = ticks s \<and> is_up s' = is_up s"

lemma same_links_refl [simp]: "same_links s s" by (simp add: same_links_def)

lemma same_links_trans: "same_links s s1 \<Longrightarrow> same_links s1 s2 \<Longrightarrow> same_links s s2" by (simp add: same_links_def)

lemma same_links_on_tcp [simp]: "same_links s (on_tcp i g s)" by (simp add: same_links_def on_tcp_def)

lemma reaches_same: "same_links s s' \<Longrightarrow> reaches s' ip = reaches s ip"
  by (simp add: same_links_def reaches_def arp_lookup_def arp_find_def Let_def)

lemma online_same: "same_links s s' \<Longrightarrow> online s' = online s"
  by (simp add: same_links_def online_def)

lemma on_tcp_at: "i < length (tcps s) \<Longrightarrow> tcps (on_tcp i g s) ! i = g (tcps s ! i)"
  by (simp add: on_tcp_def)

lemma on_tcp_other: "j \<noteq> i \<Longrightarrow> tcps (on_tcp i g s) ! j = tcps s ! j"
  by (simp add: on_tcp_def)

lemma length_on_tcp [simp]: "length (tcps (on_tcp i g s)) = length (tcps s)"
  by (simp add: on_tcp_def)

lemma send_seg_reaches:
  assumes "online s" "reaches s (rip (tcps s ! i))" "length d \<le> 1400"
  shows "\<exists>f s'. send_seg res i flags seq d mss s = Some (True, s') \<and> tx s' = f # tx s \<and> tcps s' = tcps s \<and> same_links s s' \<and>
     (\<exists>e idn. length e = 14 \<and> be16 f 12 = ET_IPV4 \<and>
        f = e @ ip_header (of_nat (20 + length (tcp_segment (my_ip s) (tcps s ! i) flags seq d mss))) idn IP_TCP (my_ip s) (rip (tcps s ! i)) @
            tcp_segment (my_ip s) (tcps s ! i) flags seq d mss)"
proof -
  let ?t = "tcps s ! i" and ?seg = "tcp_segment (my_ip s) (tcps s ! i) flags seq d mss"
  obtain mac where mac: "route_mac res (rip ?t) s = Some (Some mac, s)" "length mac = 6"
    using assms(2) by (auto simp: reaches_def route_mac_def Let_def)
  have len: "length ?seg \<le> 1480" using assms(3) by (simp add: tcp_segment_def tcp_fields_def)
  let ?e = "eth_header (my_mac s) mac ET_IPV4"
  let ?f = "?e @ ip_header (of_nat (20 + length ?seg)) (ident s) IP_TCP (my_ip s) (rip ?t) @ ?seg"
  let ?s = "s\<lparr>ident := ident s + 1\<rparr>"
  have o: "online ?s" using assms(1) by (simp add: online_def)
  have le: "length ?e = 14" by (rule length_eth_header) (use assms(1) mac(2) in \<open>simp_all add: online_def\<close>)
  have ty: "be16 ?f 12 = ET_IPV4"
    using be16_put16 [of "mac @ my_mac s" 12] assms(1) mac(2) by (simp add: eth_header_def online_def)
  have "send_seg res i flags seq d mss s = Some (True, ?s\<lparr>tx_tries := Suc (tx_tries s), tx := ?f # tx s\<rparr>)"
    using mac(1) len online_send [OF o] by (simp add: send_seg_def net_ip_send_def Let_def)
  moreover have "same_links s (?s\<lparr>tx_tries := Suc (tx_tries s), tx := ?f # tx s\<rparr>)" by (simp add: same_links_def)
  ultimately show ?thesis using le ty by (intro exI [of _ ?f] exI [of _ "?s\<lparr>tx_tries := Suc (tx_tries s), tx := ?f # tx s\<rparr>"]) auto
qed

lemma ack_only_reaches:
  assumes "online s" "reaches s (rip (tcps s ! i))"
  shows "\<exists>s'. ack_only res i s = Some s' \<and> tcps s' = tcps s \<and> same_links s s'"
  using send_seg_reaches [OF assms, of "[]" res F_ACK "snd_nxt (tcps s ! i)" False] by (auto simp: ack_only_def)

section \<open>Segments as they are read\<close>

lemma tcp_segment_parts:
  assumes "length d \<le> 1400"
  shows "20 \<le> length (tcp_segment src t flags seq d mss)"
    "unat (drop_bit 4 (tcp_segment src t flags seq d mss ! 12)) * 4 = (if mss then 24 else 20)"
    "drop (if mss then 24 else 20) (tcp_segment src t flags seq d mss) = d"
    "length (tcp_segment src t flags seq d mss) = (if mss then 24 else 20) + length d"
    "be16 (tcp_segment src t flags seq d mss) 0 = lport t" "be16 (tcp_segment src t flags seq d mss) 2 = rport t"
    "be32 (tcp_segment src t flags seq d mss) 4 = seq" "be32 (tcp_segment src t flags seq d mss) 8 = rcv_nxt t"
    "tcp_segment src t flags seq d mss ! 13 = flags"
proof -
  define ck where "ck = net_ip_checksum_with_pseudo src (rip t) IP_TCP (tcp_fields t flags seq d mss 0)"
  let ?g = "tcp_segment src t flags seq d mss"
  have g: "?g = put16 (lport t) @ put16 (rport t) @ put32 seq @ put32 (rcv_nxt t) @ [if mss then 0x60 else 0x50, flags] @
     put16 (of_nat (RXBUF - length (rx_buf t))) @ put16 ck @ put16 0 @ (if mss then [2, 4] @ put16 (of_nat MSS) else []) @ d"
    by (simp add: tcp_segment_def tcp_fields_def ck_def)
  show "20 \<le> length ?g" "drop (if mss then 24 else 20) ?g = d" "length ?g = (if mss then 24 else 20) + length d" unfolding g by simp_all
  have "?g ! 12 = (if mss then 0x60 else 0x50)" unfolding g by (simp add: nth_append)
  then show "unat (drop_bit 4 (?g ! 12)) * 4 = (if mss then 24 else 20)" by (simp add: drop_bit_eq_div)
  show "?g ! 13 = flags" unfolding g by (simp add: nth_append)
  show "be16 ?g 0 = lport t" unfolding g using be16_put16 [of "[]"] by simp
  show "be16 ?g 2 = rport t" unfolding g by (rule be16_put16) simp
  show "be32 ?g 4 = seq" unfolding g using be32_put32 [of "put16 (lport t) @ put16 (rport t)" 4] by simp
  show "be32 ?g 8 = rcv_nxt t" unfolding g using be32_put32 [of "put16 (lport t) @ put16 (rport t) @ put32 seq" 8] by simp
qed

text \<open>A segment one machine wrote, as the other's handler takes it apart.\<close>

lemma tcp_input_segment:
  assumes "length d \<le> 1400" "rip t = my_ip b"
  shows "tcp_input res (tcp_segment src t flags seq d mss) src b =
    (case tcp_find (tcp_match (rport t) (lport t) src) b of
       None \<Rightarrow> if flags AND F_SYN \<noteq> 0 \<and> flags AND F_ACK = 0 then tcp_incoming res (rport t) (lport t) src seq b else Some b
     | Some i \<Rightarrow> tcp_conn_input res i flags seq (rcv_nxt t) d b)"
proof -
  note pt = tcp_segment_parts [OF assms(1), where src = src and t = t and flags = flags and seq = seq and mss = mss]
  have ck: "net_ip_checksum_with_pseudo src (my_ip b) IP_TCP (tcp_segment src t flags seq d mss) = 0"
    using tcp_segment_verifies [OF assms(1), where src = src and t = t and flags = flags and seq = seq and mss = mss] assms(2) by simp
  have h: "(length (tcp_segment src t flags seq d mss) < 20) = False" "((if mss then 24 else 20 :: nat) < 20) = False"
    "((if mss then 24 else 20) > length (tcp_segment src t flags seq d mss)) = False" using pt(1, 4) by simp_all
  show ?thesis unfolding tcp_input_def Let_def pt(2) h ck pt(3) pt(5-9) by simp
qed

text \<open>The frame of a segment, handled by the machine it is addressed to.\<close>

lemma handle_segment_frame:
  assumes "length e = 14" "length d \<le> 1400" "rip t = my_ip b"
  shows "handle_ipv4 res (e @ ip_header (of_nat (20 + length (tcp_segment src t flags seq d mss))) idn IP_TCP src (rip t) @ tcp_segment src t flags seq d mss) b =
     tcp_input res (tcp_segment src t flags seq d mss) src b"
proof -
  have "length (tcp_segment src t flags seq d mss) \<le> 1480" using tcp_segment_parts(4) [OF assms(2)] assms(2) by simp
  moreover have "for_us (rip t) b" using assms(3) by (simp add: for_us_def)
  ultimately show ?thesis
    using handle_ipv4_packet [OF assms(1), of "tcp_segment src t flags seq d mss" "rip t" b res idn IP_TCP src]
    by (simp add: IP_TCP_def IP_UDP_def IP_ICMP_def)
qed

section \<open>A stream in segments\<close>

lemma tcp_input_established:
  fixes s i
  defines "c \<equiv> tcps s ! i"
  assumes on: "online s" "reaches s (rip c)" "i < length (tcps s)"
    and conn: "tcp_find (tcp_match (lport c) (rport c) (rip c)) s = Some i" "tcp_st c \<noteq> T_SYN_SENT" "tcp_st c \<noteq> T_SYN_RCVD"
    and seg: "length d \<le> MSS" "flags AND F_RST = 0" "flags AND F_FIN = 0" "lport t = rport c" "rport t = lport c" "rip t = my_ip s"
  shows "\<exists>s'. tcp_input res (tcp_segment (rip c) t flags seq d mss) (rip c) s = Some s' \<and> same_links s s' \<and>
     tcps s' = (tcps s)[i := (if d \<noteq> [] then take_data seq d (take_ack flags (rcv_nxt t) c) else take_ack flags (rcv_nxt t) c)]"
proof -
  let ?s1 = "on_tcp i (take_ack flags (rcv_nxt t)) s"
  let ?s2 = "on_tcp i (take_data seq d) ?s1"
  have inp: "tcp_input res (tcp_segment (rip c) t flags seq d mss) (rip c) s = tcp_established res i flags seq (rcv_nxt t) d s"
    using tcp_input_segment [of d t s res "rip c" flags seq mss] seg conn by (simp add: MSS_def tcp_conn_input_def c_def)
  have keep: "rip (take_ack flags a u) = rip u" "rip (take_data q d u) = rip u" for a u q
    by (simp_all add: take_ack_def take_data_def Let_def)
  have "online ?s2" "reaches ?s2 (rip (tcps ?s2 ! i))"
    using on online_same [of s ?s2] reaches_same [of s ?s2] same_links_trans [of s ?s1 ?s2] by (simp_all add: on_tcp_at keep c_def)
  then obtain s' where s': "ack_only res i ?s2 = Some s'" "tcps s' = tcps ?s2" "same_links ?s2 s'"
    using ack_only_reaches by blast
  have "same_links s s'" using same_links_trans [OF same_links_trans [of s ?s1 ?s2] s'(3)] by simp
  moreover have "tcps ?s1 = (tcps s)[i := take_ack flags (rcv_nxt t) c]" by (simp add: on_tcp_def c_def)
  moreover have "tcps ?s2 = (tcps s)[i := take_data seq d (take_ack flags (rcv_nxt t) c)]"
    using on(3) by (simp add: on_tcp_def c_def)
  ultimately show ?thesis unfolding inp tcp_established_def tcp_fin_def Let_def using s' seg(3) by (cases "d = []") simp_all
qed

text \<open>
  A connection that carries the stream \<open>str\<close> from sequence number \<open>b\<close>, beside the bytes its reader has taken: the segments of the
  stream arrive in any order, any number of times or never, cut in any way, and the reader reads between them.
\<close>

inductive stream_step :: "resolver \<Rightarrow> nat \<Rightarrow> u32 \<Rightarrow> bytes \<Rightarrow> net \<times> bytes \<Rightarrow> net \<times> bytes \<Rightarrow> bool" for res i b str where
  segment: "\<lbrakk> off \<le> length str; d = take n (drop off str); length d \<le> MSS; flags AND F_RST = 0; flags AND F_FIN = 0;
     lport t = rport (tcps s ! i); rport t = lport (tcps s ! i); rip t = my_ip s;
     tcp_input res (tcp_segment (rip (tcps s ! i)) t flags (b + of_nat off) d mss) (rip (tcps s ! i)) s = Some s' \<rbrakk>
   \<Longrightarrow> stream_step res i b str (s, got) (s', got)"
| reading: "rx_take i mx s = (d, s') \<Longrightarrow> stream_step res i b str (s, got) (s', got @ d)"

definition carries :: "nat \<Rightarrow> u32 \<Rightarrow> bytes \<Rightarrow> net \<times> bytes \<Rightarrow> nat \<Rightarrow> bool" where
  "carries i b str sg k \<longleftrightarrow>
     (let s = fst sg; c = tcps s ! i
      in online s \<and> reaches s (rip c) \<and> i < length (tcps s) \<and> tcp_find (tcp_match (lport c) (rport c) (rip c)) s = Some i \<and>
         tcp_st c \<noteq> T_SYN_SENT \<and> tcp_st c \<noteq> T_SYN_RCVD \<and> k \<le> length str \<and> snd sg @ rx_buf c = take k str \<and> rcv_nxt c = b + of_nat k)"

lemma tcp_find_update:
  assumes "i < length (tcps s)" "tcps s' = (tcps s)[i := c]" "P c = P (tcps s ! i)"
  shows "tcp_find P s' = tcp_find P s"
proof -
  have "P (tcps s' ! j) = P (tcps s ! j)" for j using assms by (cases "j = i") simp_all
  then show ?thesis by (simp add: tcp_find_def)
qed

lemma carries_update:
  assumes c: "carries i b str (s, got) k" and t: "tcps s' = (tcps s)[i := u]" and l: "same_links s s'"
    and u: "tcp_st u = tcp_st (tcps s ! i)" "lport u = lport (tcps s ! i)" "rport u = rport (tcps s ! i)" "rip u = rip (tcps s ! i)"
    and k: "k' \<le> length str" "got' @ rx_buf u = take k' str" "rcv_nxt u = b + of_nat k'"
  shows "carries i b str (s', got') k'"
proof -
  have i: "i < length (tcps s)" using c by (simp add: carries_def Let_def)
  then have ui: "tcps s' ! i = u" using t by simp
  have "tcp_find (tcp_match (lport u) (rport u) (rip u)) s' = Some i"
    using tcp_find_update [OF i t, of "tcp_match (lport u) (rport u) (rip u)"] c u by (simp add: carries_def Let_def tcp_match_def)
  then show ?thesis
    using c i t u k online_same [OF l] reaches_same [OF l] unfolding carries_def Let_def fst_conv snd_conv ui by simp
qed

lemma of_nat_offset_eq:
  assumes "b + of_nat off = b + (of_nat k :: u32)" "off < 2 ^ 32" "k < 2 ^ 32"
  shows "off = k"
  using assms by (simp add: word_of_nat_eq_iff take_bit_nat_eq_self)

lemma take_ack_keeps [simp]:
  "tcp_st (take_ack f a u) = tcp_st u" "lport (take_ack f a u) = lport u" "rport (take_ack f a u) = rport u" "rip (take_ack f a u) = rip u"
  "rx_buf (take_ack f a u) = rx_buf u" "rcv_nxt (take_ack f a u) = rcv_nxt u"
  by (simp_all add: take_ack_def)

lemma take_data_keeps [simp]:
  "tcp_st (take_data q d u) = tcp_st u" "lport (take_data q d u) = lport u" "rport (take_data q d u) = rport u" "rip (take_data q d u) = rip u"
  by (simp_all add: take_data_def Let_def)

lemma take_data_carries:
  assumes "got @ rx_buf u = take k str" "rcv_nxt u = b + of_nat k" "k \<le> length str" "length str < 2 ^ 32" "off \<le> length str"
  shows "\<exists>k'. k' \<le> length str \<and> got @ rx_buf (take_data (b + of_nat off) (take n (drop off str)) u) = take k' str \<and>
     rcv_nxt (take_data (b + of_nat off) (take n (drop off str)) u) = b + of_nat k' \<and>
     (off = k \<longrightarrow> k' = k + min (RXBUF - length (rx_buf u)) (length (take n (drop off str)))) \<and> (off \<noteq> k \<longrightarrow> k' = k)"
proof (cases "off = k")
  case True
  let ?m = "min (RXBUF - length (rx_buf u)) (length (take n (drop k str)))"
  have "take (RXBUF - length (rx_buf u)) (take n (drop k str)) = take ?m (drop k str)" by (simp add: min_def)
  moreover have "length (take ?m (drop k str)) = ?m" "k + ?m \<le> length str" using assms(3) by simp_all
  ultimately show ?thesis using True assms
    by (intro exI [of _ "k + ?m"]) (simp add: take_data_def Let_def take_add append_assoc [symmetric] del: append_assoc take_take length_take)
next
  case False
  then have "b + of_nat off \<noteq> b + (of_nat k :: u32)" using of_nat_offset_eq assms(3-5) by (meson le_less_trans)
  then show ?thesis using False assms by (intro exI [of _ k]) (simp add: take_data_def)
qed

lemma stream_accepts:
  assumes c: "carries i b str (s, got) k" and len: "length str < 2 ^ 32" "off \<le> length str" and d: "d = take n (drop off str)"
    and seg: "length d \<le> MSS" "flags AND F_RST = 0" "flags AND F_FIN = 0" "lport t = rport (tcps s ! i)" "rport t = lport (tcps s ! i)"
      "rip t = my_ip s"
  shows "\<exists>s'. tcp_input res (tcp_segment (rip (tcps s ! i)) t flags (b + of_nat off) d mss) (rip (tcps s ! i)) s = Some s' \<and>
     carries i b str (s', got) (if off = k then k + min (RXBUF - length (rx_buf (tcps s ! i))) (length d) else k) \<and> same_links s s' \<and>
     lport (tcps s' ! i) = lport (tcps s ! i) \<and> rport (tcps s' ! i) = rport (tcps s ! i) \<and> rip (tcps s' ! i) = rip (tcps s ! i)"
proof -
  let ?c = "tcps s ! i"
  let ?a = "take_ack flags (rcv_nxt t) ?c"
  let ?u = "if d \<noteq> [] then take_data (b + of_nat off) d ?a else ?a"
  let ?k = "if off = k then k + min (RXBUF - length (rx_buf ?c)) (length d) else k"
  have at: "online s" "reaches s (rip ?c)" "i < length (tcps s)" "tcp_find (tcp_match (lport ?c) (rport ?c) (rip ?c)) s = Some i"
    "tcp_st ?c \<noteq> T_SYN_SENT" "tcp_st ?c \<noteq> T_SYN_RCVD" and k: "k \<le> length str" "got @ rx_buf ?a = take k str" "rcv_nxt ?a = b + of_nat k"
    using c by (simp_all add: carries_def Let_def)
  obtain s' where s': "tcp_input res (tcp_segment (rip ?c) t flags (b + of_nat off) d mss) (rip ?c) s = Some s'" "same_links s s'"
    "tcps s' = (tcps s)[i := ?u]"
    using tcp_input_established [OF at seg, of res "b + of_nat off" mss] by blast
  have "?k \<le> length str \<and> got @ rx_buf ?u = take ?k str \<and> rcv_nxt ?u = b + of_nat ?k"
    using take_data_carries [OF k(2, 3, 1) len, of n] k d by (cases "d = []") auto
  then have "carries i b str (s', got) ?k" using carries_update [OF c s'(3, 2), of ?k got] by auto
  then show ?thesis using s' at(3) by auto
qed

lemma stream_step_carries:
  assumes "stream_step res i b str sg sg'" "carries i b str sg k" "length str < 2 ^ 32"
  shows "\<exists>k'. carries i b str sg' k'"
  using assms(1)
proof cases
  case (segment off d n flags t s mss s' got)
  have c: "carries i b str (s, got) k" using assms(2) segment(1) by simp
  show ?thesis using stream_accepts [OF c assms(3) segment(3-10), of res mss] segment(2, 11) by auto
next
  case (reading mx s d s' got)
  let ?u = "(tcps s ! i)\<lparr>rx_buf := drop mx (rx_buf (tcps s ! i))\<rparr>"
  have c: "carries i b str (s, got) k" using assms(2) reading by simp
  have "tcps s' = (tcps s)[i := ?u]" "same_links s s'" "d = take mx (rx_buf (tcps s ! i))"
    using reading(3) same_links_on_tcp [of s i] by (auto simp: rx_take_def on_tcp_def)
  then show ?thesis using carries_update [OF c, of s' ?u k "got @ d"] c reading(2) by (auto simp: carries_def Let_def)
qed

lemma stream_run_carries:
  assumes "(stream_step res i b str)\<^sup>*\<^sup>* sg sg'" "carries i b str sg k" "length str < 2 ^ 32"
  shows "\<exists>k'. carries i b str sg' k'"
  using assms(1)
  by (induction rule: rtranclp_induct) (use assms(2, 3) stream_step_carries in blast)+

text \<open>C2: a connection carries its stream. While the segments of a stream, with the numbers the peer gives them, arrive in any order, repeated or
  not at all, and the reader reads between them, the bytes read followed by the bytes buffered are a prefix of the stream,
  acknowledged up to exactly there; and the segment that starts there, if it fits the buffer, is taken whole.\<close>

theorem tcp_stream_prefix:
  assumes "carries i b str (s0, []) 0" "length str < 2 ^ 32" "(stream_step res i b str)\<^sup>*\<^sup>* (s0, []) (s, got)"
  shows "\<exists>k \<le> length str. got @ rx_buf (tcps s ! i) = take k str \<and> rcv_nxt (tcps s ! i) = b + of_nat k \<and>
     (\<forall>n t flags mss. let d = take n (drop k str); c = tcps s ! i in
        length d \<le> MSS \<and> length d \<le> RXBUF - length (rx_buf c) \<and> flags AND F_RST = 0 \<and> flags AND F_FIN = 0 \<and>
        lport t = rport c \<and> rport t = lport c \<and> rip t = my_ip s \<longrightarrow>
        (\<exists>s'. tcp_input res (tcp_segment (rip c) t flags (b + of_nat k) d mss) (rip c) s = Some s' \<and>
              got @ rx_buf (tcps s' ! i) = take (k + length d) str))"
proof -
  obtain k where k: "carries i b str (s, got) k" using stream_run_carries [OF assms(3, 1, 2)] by blast
  have "\<exists>s'. tcp_input res (tcp_segment (rip (tcps s ! i)) t flags (b + of_nat k) (take n (drop k str)) mss) (rip (tcps s ! i)) s = Some s' \<and>
              got @ rx_buf (tcps s' ! i) = take (k + length (take n (drop k str))) str"
    if p: "length (take n (drop k str)) \<le> MSS" "flags AND F_RST = 0" "flags AND F_FIN = 0" "lport t = rport (tcps s ! i)"
      "rport t = lport (tcps s ! i)" "rip t = my_ip s" and fits: "length (take n (drop k str)) \<le> RXBUF - length (rx_buf (tcps s ! i))" for n t flags mss
    using stream_accepts [OF k assms(2) _ refl p, of res mss] k fits by (auto simp: carries_def Let_def min_absorb2)
  then show ?thesis using k by (intro exI [of _ k]) (simp add: Let_def carries_def)
qed

section \<open>The handshake\<close>

definition seg_frame :: "bytes \<Rightarrow> u32 \<Rightarrow> tcp_sock \<Rightarrow> u8 \<Rightarrow> u32 \<Rightarrow> bytes \<Rightarrow> bool \<Rightarrow> bool" where
  "seg_frame f src t flags seq d mss \<longleftrightarrow> be16 f 12 = ET_IPV4 \<and> length f \<le> 1514 \<and>
     (\<exists>e idn. length e = 14 \<and> f = e @ ip_header (of_nat (20 + length (tcp_segment src t flags seq d mss))) idn IP_TCP src (rip t) @
        tcp_segment src t flags seq d mss)"

lemma send_seg_frame:
  assumes "online s" "reaches s (rip (tcps s ! i))" "length d \<le> 1400"
  shows "\<exists>f s'. send_seg res i flags seq d mss s = Some (True, s') \<and> tx s' = f # tx s \<and> tcps s' = tcps s \<and> same_links s s' \<and>
     seg_frame f (my_ip s) (tcps s ! i) flags seq d mss"
proof -
  have "length (tcp_segment (my_ip s) (tcps s ! i) flags seq d mss) \<le> 1480" using assms(3) by (simp add: tcp_segment_parts(4))
  then show ?thesis using send_seg_reaches [OF assms, of res flags seq mss] unfolding seg_frame_def
    by clarsimp (metis append.assoc length_append length_ip_header add_le_mono)
qed

lemma seg_frame_handled:
  assumes "seg_frame f src t flags seq d mss" "length d \<le> 1400" "rip t = my_ip b"
  shows "handle_ipv4 res f b =
    (case tcp_find (tcp_match (rport t) (lport t) src) b of
       None \<Rightarrow> if flags AND F_SYN \<noteq> 0 \<and> flags AND F_ACK = 0 then tcp_incoming res (rport t) (lport t) src seq b else Some b
     | Some i \<Rightarrow> tcp_conn_input res i flags seq (rcv_nxt t) d b)"
proof -
  obtain e idn where e: "length e = 14" and f: "f = e @ ip_header (of_nat (20 + length (tcp_segment src t flags seq d mss))) idn IP_TCP src (rip t) @
        tcp_segment src t flags seq d mss" using assms(1) unfolding seg_frame_def by blast
  show ?thesis unfolding f using handle_segment_frame [OF e assms(2, 3)] tcp_input_segment [OF assms(2, 3)] by simp
qed

lemma poll_nothing: "rxq s = [] \<Longrightarrow> poll_with res s = Some s"
  by (simp add: poll_with_def numeral_eq_Suc virtio_net_recv_def)

lemma poll_one:
  assumes "rxq s = [f]" "seg_frame f src t flags seq d mss" "handle_ipv4 res f (s\<lparr>rxq := []\<rparr>) = Some s1" "rxq s1 = []" "card s"
  shows "poll_with res s = Some s1"
proof -
  have "14 \<le> length f" "be16 f 12 = ET_IPV4" "length f \<le> 1514" using assms(2) unfolding seg_frame_def by auto
  then have "poll_loop (Suc (Suc k)) res s = Some s1" for k
    using assms by (simp add: virtio_net_recv_def ET_ARP_def ET_IPV4_def)
  from this [of 30] show ?thesis using assms(5) by (simp add: poll_with_def)
qed

lemma tcp_find_only:
  assumes "i < NTCP" "P (tcps s ! i)" "\<And>j. j < NTCP \<Longrightarrow> j \<noteq> i \<Longrightarrow> \<not> P (tcps s ! j)"
  shows "tcp_find P s = Some i"
  unfolding tcp_find_def by (rule find_first_upt) (use assms in auto)

lemma tcp_find_None: "tcp_find P s = None \<longleftrightarrow> (\<forall>j < NTCP. \<not> P (tcps s ! j))"
  by (auto simp: tcp_find_def find_None_iff)

lemma tcp_find_Some: "tcp_find P s = Some i \<Longrightarrow> i < NTCP \<and> P (tcps s ! i)"
  by (auto simp: tcp_find_def find_Some_iff)

lemmas tcp_flags = F_SYN_def F_ACK_def F_RST_def F_FIN_def

text \<open>A listener's answer to a first segment.\<close>

lemma listener_answers:
  assumes on: "online b" "reaches b src" "length (tcps b) = NTCP" and l: "tcp_find (\<lambda>t. tcp_st t = T_LISTEN \<and> lport t = p) b = Some l"
    and c: "tcp_find (\<lambda>t. tcp_st t = T_FREE) b = Some c"
  shows "\<exists>b' f u. tcp_incoming res p sp src seq b = Some b' \<and> tx b' = f # tx b \<and> same_links b b' \<and> tcps b' = (tcps b)[c := u] \<and>
     seg_frame f (my_ip b) u (F_SYN OR F_ACK) (snd_una u) [] True \<and> tcp_st u = T_SYN_RCVD \<and> lport u = p \<and> rport u = sp \<and> rip u = src \<and>
     rcv_nxt u = seq + 1 \<and> snd_nxt u = snd_una u + 1 \<and> rx_buf u = [] \<and> t_parent u = Some l"
proof -
  define u where "u = (tcps b ! c)\<lparr>tcp_st := T_SYN_RCVD, lport := p, rport := sp, rip := src, rx_buf := [], fin_seen := False,
    was_reset := False, t_parent := Some l, rcv_nxt := seq + 1, snd_una := ucast (counter b), snd_nxt := ucast (counter b) + 1\<rparr>"
  define b0 where "b0 = on_tcp c (\<lambda>_. u) b"
  have ci: "c < length (tcps b)" using tcp_find_Some [OF c] on(3) by simp
  have l0: "same_links b b0" by (simp add: b0_def)
  have u0: "tcps b0 ! c = u" "tcps b0 = (tcps b)[c := u]" using ci by (simp_all add: b0_def on_tcp_def)
  have "online b0" "reaches b0 (rip (tcps b0 ! c))" using on(1, 2) online_same [OF l0] reaches_same [OF l0] by (simp_all add: u0(1)) (simp add: u_def)
  then obtain f b' where b': "send_seg res c (F_SYN OR F_ACK) (ucast (counter b)) [] True b0 = Some (True, b')" "tx b' = f # tx b0" "tcps b' = tcps b0"
    "same_links b0 b'" "seg_frame f (my_ip b0) u (F_SYN OR F_ACK) (ucast (counter b)) [] True"
    using send_seg_frame [of b0 c "[]" res "F_SYN OR F_ACK" "ucast (counter b)" True] u0(1) by auto
  have "tcp_incoming res p sp src seq b = Some b'"
    using l c b'(1) by (simp add: tcp_incoming_def Let_def b0_def u_def on_tcp_def)
  moreover have "tx b0 = tx b" "my_ip b0 = my_ip b" by (simp_all add: b0_def on_tcp_def)
  ultimately show ?thesis using b' l0 same_links_trans [OF l0 b'(4)] u0
    by (intro exI [of _ b'] exI [of _ f] exI [of _ u]) (simp add: u_def)
qed

text \<open>The answer, as the machine that connects takes it.\<close>

lemma answer_taken:
  assumes on: "online a" "reaches a (rip c)" "i < length (tcps a)" "tcps a ! i = c"
    and st: "tcp_st c = T_SYN_SENT" "ack = snd_nxt c" "flags AND F_RST = 0" "flags AND F_SYN \<noteq> 0" "flags AND F_ACK \<noteq> 0"
  shows "\<exists>a' f u. tcp_conn_input res i flags seq ack [] a = Some a' \<and> tx a' = f # tx a \<and> same_links a a' \<and> tcps a' = (tcps a)[i := u] \<and>
     u = c\<lparr>snd_una := ack, rcv_nxt := seq + 1, tcp_st := T_ESTABLISHED\<rparr> \<and> seg_frame f (my_ip a) u F_ACK (snd_nxt u) [] False"
proof -
  define u where "u = c\<lparr>snd_una := ack, rcv_nxt := seq + 1, tcp_st := T_ESTABLISHED\<rparr>"
  define a0 where "a0 = on_tcp i (\<lambda>_. u) a"
  have l0: "same_links a a0" by (simp add: a0_def)
  have u0: "tcps a0 ! i = u" "tcps a0 = (tcps a)[i := u]" "tx a0 = tx a" "my_ip a0 = my_ip a" using on(3) by (simp_all add: a0_def on_tcp_def)
  have "online a0" "reaches a0 (rip (tcps a0 ! i))" using on(1, 2) online_same [OF l0] reaches_same [OF l0] by (simp_all add: u0(1)) (simp add: u_def)
  then obtain f a' where a': "send_seg res i F_ACK (snd_nxt u) [] False a0 = Some (True, a')" "tx a' = f # tx a0" "tcps a' = tcps a0"
    "same_links a0 a'" "seg_frame f (my_ip a0) u F_ACK (snd_nxt u) [] False"
    using send_seg_frame [of a0 i "[]" res F_ACK "snd_nxt u" False] u0(1) by auto
  have "on_tcp i (\<lambda>t. t\<lparr>snd_una := ack, rcv_nxt := seq + 1, tcp_st := T_ESTABLISHED\<rparr>) a = a0"
    by (simp add: a0_def u_def on_tcp_def on(4))
  then have "tcp_conn_input res i flags seq ack [] a = Some a'"
    using st a'(1) u0(1) by (simp add: tcp_conn_input_def Let_def ack_only_def on(4))
  then show ?thesis using a' u0 same_links_trans [OF l0 a'(4)] u_def by auto
qed

text \<open>The last acknowledgement.\<close>

lemma seq_ge_refl [simp]: "seq_ge x x" by (simp add: seq_ge_def)

lemma ack_establishes:
  assumes "i < length (tcps b)" "tcps b ! i = c" "tcp_st c = T_SYN_RCVD" "ack = snd_nxt c"
  shows "\<exists>b'. tcp_conn_input res i F_ACK seq ack [] b = Some b' \<and> tcps b' = (tcps b)[i := c\<lparr>tcp_st := T_ESTABLISHED, snd_una := ack\<rparr>]"
  using assms by (auto simp: tcp_conn_input_def tcp_established_def tcp_fin_def on_tcp_def tcp_flags take_ack_def Let_def)

text \<open>The frame sent does not depend on what is to come.\<close>

lemma send_seg_future:
  assumes "online s" "reaches s (rip (tcps s ! i))" "send_seg res i flags seq d mss s = Some (True, s')"
  shows "send_seg res' i flags seq d mss (s\<lparr>future := F\<rparr>) = Some (True, s'\<lparr>future := F\<rparr>)"
proof -
  have look: "arp_lookup x (s\<lparr>future := F\<rparr>) = arp_lookup x s" for x by (simp add: arp_lookup_def arp_find_def)
  obtain mac where mac: "\<forall>r. route_mac r (rip (tcps s ! i)) s = Some (Some mac, s) \<and>
      route_mac r (rip (tcps s ! i)) (s\<lparr>future := F\<rparr>) = Some (Some mac, s\<lparr>future := F\<rparr>)"
    using assms(2) by (auto simp: reaches_def route_mac_def look Let_def split: if_splits)
  show ?thesis using assms(1, 3) by (auto simp: send_seg_def net_ip_send_def mac [rule_format] Let_def virtio_net_send_def online_def split: if_splits)
qed

lemma reaches_later [simp]:
  "reaches (s\<lparr>ticks := t, counter := n, future := ms\<rparr>) ip = reaches s ip" "online (s\<lparr>ticks := t, counter := n, future := ms\<rparr>) = online s"
  by (simp_all add: reaches_def arp_lookup_def arp_find_def online_def Let_def)

text \<open>C27: the handshake connects. A machine calls \<open>tcp_connect\<close> to a port on which another listens and has a slot free, and the frames each
  sends reach the other. The call returns 0; the listener's new connection is one \<open>tcp_accept\<close> takes; and the two ends agree: each
  expects the number the other sends next, and neither has anything unacknowledged.\<close>

theorem tcp_handshake:
  assumes a: "online a" "reaches a (my_ip b)" "is_up a" "length (tcps a) = NTCP" "i < NTCP" "tcp_st (tcps a ! i) = T_CLOSED"
      "\<not> was_reset (tcps a ! i)" "rxq a = []" "ticks a + 20 > ticks a" "tk < ticks a + 20"
    and own: "\<And>j. j < NTCP \<Longrightarrow> j \<noteq> i \<Longrightarrow> \<not> tcp_match (next_port a) p (my_ip b) (tcps a ! j)"
    and b: "online b" "reaches b (my_ip a)" "length (tcps b) = NTCP" "tcp_find (\<lambda>t. tcp_st t = T_LISTEN \<and> lport t = p) b = Some l"
      "tcp_find (\<lambda>t. tcp_st t = T_FREE) b = Some c" "tcp_find (tcp_match p (next_port a) (my_ip a)) b = None"
  shows "\<exists>syn b1 synack a' ack b2.
     handle_ipv4 res syn b = Some b1 \<and> tx b1 = synack # tx b \<and>
     tcp_connect d i (my_ip b) p (a\<lparr>future := \<lparr>frames = [synack], tick = tk, counted = ct\<rparr> # ms\<rparr>) = Some (0, a') \<and>
     tx a' = ack # syn # tx a \<and> handle_ipv4 res ack b1 = Some b2 \<and>
     tcp_st (tcps a' ! i) = T_ESTABLISHED \<and> accepted l (tcps b2 ! c) \<and>
     rcv_nxt (tcps a' ! i) = snd_nxt (tcps b2 ! c) \<and> rcv_nxt (tcps b2 ! c) = snd_nxt (tcps a' ! i) \<and>
     snd_una (tcps a' ! i) = snd_nxt (tcps a' ! i) \<and> snd_una (tcps b2 ! c) = snd_nxt (tcps b2 ! c)"
proof -
  define iss where "iss = (ucast (counter a) :: u32)"
  define a0 where "a0 = syn_sent i (my_ip b) p a"
  define F where "F x = \<lparr>frames = [x], tick = tk, counted = ct\<rparr> # ms" for x
  define t0 where "t0 = tcps a0 ! i"
  have t0: "t0 = (tcps a ! i)\<lparr>snd_una := iss, snd_nxt := iss + 1, rcv_nxt := 0, rip := my_ip b, rport := p, lport := next_port a, tcp_st := T_SYN_SENT\<rparr>"
    and tc0: "tcps a0 = (tcps a)[i := t0]" and tx0: "tx a0 = tx a" and l0: "same_links a a0"
    using a(4, 5) by (simp_all add: t0_def a0_def syn_sent_def iss_def Let_def on_tcp_def same_links_def)
  have o0: "online a0" "reaches a0 (rip (tcps a0 ! i))" using a(1, 2) online_same [OF l0] reaches_same [OF l0] by (simp_all add: t0_def [symmetric] t0)
  obtain syn a1 where a1: "send_seg (net_arp_resolve d) i F_SYN iss [] True a0 = Some (True, a1)" "tx a1 = syn # tx a0" "tcps a1 = tcps a0"
    "same_links a0 a1" "seg_frame syn (my_ip a0) t0 F_SYN iss [] True"
    using send_seg_frame [OF o0, of "[]" "net_arp_resolve d" F_SYN iss True] by (auto simp: t0_def)
  have mya: "my_ip a0 = my_ip a" using l0 by (simp add: same_links_def)
  obtain b1 synack u where b1: "tcp_incoming res p (next_port a) (my_ip a) iss b = Some b1" "tx b1 = synack # tx b" "same_links b b1"
    "tcps b1 = (tcps b)[c := u]" "seg_frame synack (my_ip b) u (F_SYN OR F_ACK) (snd_una u) [] True"
    and u: "tcp_st u = T_SYN_RCVD" "lport u = p" "rport u = next_port a" "rip u = my_ip a" "rcv_nxt u = iss + 1" "snd_nxt u = snd_una u + 1"
      "t_parent u = Some l"
    using listener_answers [OF b(1-5), of res "next_port a" iss] by blast
  have hb: "handle_ipv4 res syn b = Some b1"
    using seg_frame_handled [OF a1(5), of b res] b(6) b1(1) by (simp add: t0 mya tcp_flags)
  define a2 where "a2 = a1\<lparr>ticks := tk, counter := ct, future := ms\<rparr>"
  have rx1: "rxq a1 = []" "ticks a1 = ticks a" and card: "card a1" using a(1, 8) l0 a1(4) by (simp_all add: same_links_def online_def)
  have o2: "online a2" "reaches a2 (rip t0)" using o0 online_same [OF a1(4)] reaches_same [OF a1(4)]
    by (simp_all add: a2_def t0_def)
  have tc2: "tcps a2 = (tcps a)[i := t0]" "tcps a2 ! i = t0" using a1(3) tc0 a(4, 5) by (simp_all add: a2_def)
  have find: "tcp_find (tcp_match (next_port a) p (my_ip b)) a2 = Some i"
    by (rule tcp_find_only) (use a(4, 5) own in \<open>simp_all add: tc2 tcp_match_def t0\<close>)
  obtain a3 ack v where a3: "tcp_conn_input (net_arp_resolve d) i (F_SYN OR F_ACK) (snd_una u) (rcv_nxt u) [] a2 = Some a3" "tx a3 = ack # tx a2"
    "same_links a2 a3" "tcps a3 = (tcps a2)[i := v]" "v = t0\<lparr>snd_una := rcv_nxt u, rcv_nxt := snd_una u + 1, tcp_st := T_ESTABLISHED\<rparr>"
    "seg_frame ack (my_ip a2) v F_ACK (snd_nxt v) [] False"
    using answer_taken [OF o2 _ tc2(2), of "rcv_nxt u" "F_SYN OR F_ACK" "net_arp_resolve d" "snd_una u"] a(4, 5)
    by (auto simp: tc2 t0 u tcp_flags)
  have my2: "my_ip a2 = my_ip a" using a1(4) mya by (simp add: a2_def same_links_def)
  have ha: "handle_ipv4 (net_arp_resolve d) synack a2 = Some a3"
    using seg_frame_handled [OF b1(5), of a2 "net_arp_resolve d"] find a3(1) by (simp add: u my2)
  have v3: "tcps a3 ! i = v" using a3(4) tc2 a(4, 5) by simp
  let ?a1 = "a1\<lparr>future := F synack\<rparr>"
  have p1: "net_poll d ?a1 = Some ?a1" using rx1 by (simp add: net_poll_def poll_nothing)
  have w: "net_wait ?a1 = Some (a2\<lparr>rxq := [synack]\<rparr>)" using rx1 by (simp add: net_wait_def F_def a2_def)
  have z: "a2\<lparr>rxq := []\<rparr> = a2" "rxq a2 = []" "card a2" using rx1 card by (simp_all add: a2_def)
  have p2: "net_poll d (a2\<lparr>rxq := [synack]\<rparr>) = Some a3"
    unfolding net_poll_def by (intro poll_one [OF _ b1(5)]) (use ha a3(3) z(2, 3) in \<open>simp_all add: same_links_def z(1)\<close>)
  have s1: "send_seg (net_arp_resolve d) i F_SYN iss [] True (a0\<lparr>future := F synack\<rparr>) = Some (True, ?a1)"
    by (rule send_seg_future [OF o0 a1(1)])
  have con: "tcp_connect d i (my_ip b) p (a\<lparr>future := F synack\<rparr>) = Some (0, a3)"
  proof -
    have tr: "\<not> was_reset t0" "\<not> was_reset v" "tcp_st t0 \<noteq> T_ESTABLISHED" "tcp_st v = T_ESTABLISHED" using a(7) by (simp_all add: t0 a3(5))
    have g: "tcp_st (tcps (a\<lparr>future := F synack\<rparr>) ! i) = T_CLOSED" "is_up (a\<lparr>future := F synack\<rparr>)"
      "syn_sent i (my_ip b) p (a\<lparr>future := F synack\<rparr>) = a0\<lparr>future := F synack\<rparr>"
      using a(3, 6) by (simp_all add: a0_def syn_sent_def on_tcp_def Let_def)
    have aw: "await (Suc (length (future ?a1))) d i (\<lambda>t. tcp_st t = T_ESTABLISHED) (ticks ?a1 + 20) ?a1 = Some (Answered, a3)"
      using p1 p2 w rx1 a(9, 10) tr v3 tc0 a1(3) a(4, 5) by (simp add: F_def a2_def)
    have r: "[0..<RETRIES] = 0 # [1..<RETRIES]" by (simp add: RETRIES_def upt_rec)
    show ?thesis using g s1 aw by (simp add: tcp_connect_def r iss_def del: await.simps)
  qed
  obtain b2 where b2: "tcp_conn_input res c F_ACK (snd_nxt v) (rcv_nxt v) [] b1 = Some b2"
    "tcps b2 = (tcps b1)[c := u\<lparr>tcp_st := T_ESTABLISHED, snd_una := rcv_nxt v\<rparr>]"
    using ack_establishes [of c b1 u "rcv_nxt v" res "snd_nxt v"] tcp_find_Some [OF b(5)] b(3) b1(4) u by (auto simp: a3(5))
  have "tcp_find (tcp_match p (next_port a) (my_ip a)) b1 = Some c"
    by (rule tcp_find_only) (use tcp_find_Some [OF b(5)] b(3, 6) in \<open>simp_all add: b1(4) tcp_find_None u tcp_match_def\<close>)
  then have hk: "handle_ipv4 res ack b1 = Some b2"
    using seg_frame_handled [OF a3(6), of b1 res] b2(1) b1(3) by (simp add: my2 a3(5) t0 same_links_def)
  have w2: "tcps b2 ! c = u\<lparr>tcp_st := T_ESTABLISHED, snd_una := rcv_nxt v\<rparr>"
    using b2(2) b1(4) tcp_find_Some [OF b(5)] b(3) by simp
  have "tx a3 = ack # syn # tx a" using a3(2) a1(2) tx0 by (simp add: a2_def)
  moreover have "accepted l (tcps b2 ! c)" by (simp add: accepted_def w2 u)
  ultimately show ?thesis using hb b1(2) con hk v3 unfolding F_def
    by (intro exI [of _ syn] exI [of _ b1] exI [of _ synack] exI [of _ a3] exI [of _ ack] exI [of _ b2])
      (simp add: w2 a3(5) t0 u)
qed

section \<open>Two connected machines\<close>

text \<open>The two machines of \<open>Net\<close> with each other's address in the cache; the second listens on port 80.\<close>

definition near :: "u32 \<Rightarrow> bytes \<Rightarrow> net \<Rightarrow> net" where
  "near ip mac s = s\<lparr>arp := (arp s)[0 := \<lparr>arp_ip = ip, arp_mac = mac, arp_used = True\<rparr>]\<rparr>"

definition client :: net where
  "client = on_tcp 0 (\<lambda>t. t\<lparr>tcp_st := T_CLOSED\<rparr>) (near 0x0a000206 [2, 0, 0, 0, 0, 2] host_a)"

definition server :: net where
  "server = on_tcp 0 (\<lambda>t. t\<lparr>tcp_st := T_LISTEN, lport := 80\<rparr>) (near 0x0a000205 [2, 0, 0, 0, 0, 1] host_b)"

definition connected :: net where
  "connected = on_tcp 0 (\<lambda>t. t\<lparr>tcp_st := T_ESTABLISHED, lport := 80, rport := 40000, rip := 0x0a000205, rcv_nxt := 0xffffffff\<rparr>)
     (near 0x0a000205 [2, 0, 0, 0, 0, 1] host_b)"

lemmas demo_tcp = near_def demo_net_def on_tcp_def online_def reaches_def arp_lookup_def arp_find_def ARP_N_def NTCP_def tcp_find_def tcp_match_def

lemma client_ready:
  "online client" "reaches client 0x0a000206" "is_up client" "length (tcps client) = NTCP" "tcp_st (tcps client ! 0) = T_CLOSED"
  "\<not> was_reset (tcps client ! 0)" "rxq client = []" "ticks client = 0" "my_ip client = 0x0a000205" "next_port client = 40000"
  by (simp_all add: client_def demo_tcp upt_rec Let_def)

lemma client_others: "0 < j \<Longrightarrow> j < NTCP \<Longrightarrow> tcp_st (tcps client ! j) = T_FREE"
  by (auto simp: client_def demo_tcp nth_Cons')

lemma server_ready:
  "online server" "reaches server 0x0a000205" "length (tcps server) = NTCP" "tcp_find (\<lambda>t. tcp_st t = T_LISTEN \<and> lport t = 80) server = Some 0"
  "tcp_find (\<lambda>t. tcp_st t = T_FREE) server = Some 1" "tcp_find (tcp_match 80 40000 0x0a000205) server = None" "my_ip server = 0x0a000206"
  by (simp_all add: server_def demo_tcp upt_rec Let_def)

theorem tcp_handshake_witness:
  "\<exists>syn b1 synack a' ack b2.
     handle_ipv4 (net_arp_resolve 1) syn server = Some b1 \<and> tx b1 = synack # tx server \<and>
     tcp_connect 1 0 (my_ip server) 80 (client\<lparr>future := [\<lparr>frames = [synack], tick = 1, counted = 9\<rparr>]\<rparr>) = Some (0, a') \<and>
     tx a' = ack # syn # tx client \<and> handle_ipv4 (net_arp_resolve 1) ack b1 = Some b2 \<and>
     tcp_st (tcps a' ! 0) = T_ESTABLISHED \<and> accepted 0 (tcps b2 ! 1) \<and>
     rcv_nxt (tcps a' ! 0) = snd_nxt (tcps b2 ! 1) \<and> rcv_nxt (tcps b2 ! 1) = snd_nxt (tcps a' ! 0) \<and>
     snd_una (tcps a' ! 0) = snd_nxt (tcps a' ! 0) \<and> snd_una (tcps b2 ! 1) = snd_nxt (tcps b2 ! 1)"
  by (rule tcp_handshake) (use client_ready client_others server_ready in \<open>simp_all add: tcp_match_def NTCP_def\<close>)

text \<open>A stream whose numbers wrap around: its second segment comes first, then the first, then both are read.\<close>

theorem tcp_stream_prefix_witness:
  "\<exists>s. (stream_step (net_arp_resolve 1) 0 0xffffffff [1, 2, 3])\<^sup>*\<^sup>* (connected, []) (s, [1, 2]) \<and>
       (\<exists>k. [1, 2] @ rx_buf (tcps s ! 0) = take k [1, 2, 3 :: u8] \<and> rcv_nxt (tcps s ! 0) = 0xffffffff + of_nat k)"
proof -
  let ?str = "[1, 2, 3] :: u8 list" and ?b = "0xffffffff :: u32"
  define t where "t = (tcps host_a ! 0)\<lparr>lport := 40000, rport := 80, rip := 0x0a000206\<rparr>"
  define step where "step = stream_step (net_arp_resolve 1) 0 ?b ?str"
  have t: "lport t = 40000" "rport t = 80" "rip t = 0x0a000206" by (simp_all add: t_def)
  have c0: "carries 0 ?b ?str (connected, []) 0"
    and f0: "my_ip connected = 0x0a000206" "lport (tcps connected ! 0) = 80" "rport (tcps connected ! 0) = 40000" "rip (tcps connected ! 0) = 0x0a000205"
    by (simp_all add: carries_def connected_def demo_tcp upt_rec Let_def)
  have seg: "\<exists>s'. step (s, []) (s', []) \<and> carries 0 ?b ?str (s', []) (if off = k then k + min (RXBUF - length (rx_buf (tcps s ! 0))) (length d) else k) \<and>
      my_ip s' = 0x0a000206 \<and> lport (tcps s' ! 0) = 80 \<and> rport (tcps s' ! 0) = 40000 \<and> rip (tcps s' ! 0) = 0x0a000205"
    if "carries 0 ?b ?str (s, []) k" "off \<le> 3" "d = take n (drop off ?str)" "n \<le> 3" "my_ip s = 0x0a000206" "lport (tcps s ! 0) = 80"
      "rport (tcps s ! 0) = 40000" "rip (tcps s ! 0) = 0x0a000205" for s off d n k
    using stream_accepts [OF that(1) _ _ that(3), of F_ACK t "net_arp_resolve 1" False] that t
      stream_step.segment [of off ?str d n F_ACK t s 0 "net_arp_resolve 1" ?b False] unfolding step_def
    by (fastforce simp: tcp_flags MSS_def same_links_def)
  obtain s1 where s1: "step (connected, []) (s1, [])" "carries 0 ?b ?str (s1, []) 0" "my_ip s1 = 0x0a000206" "lport (tcps s1 ! 0) = 80"
    "rport (tcps s1 ! 0) = 40000" "rip (tcps s1 ! 0) = 0x0a000205"
    using seg [OF c0, of 2 _ 1] f0 by auto
  have "rx_buf (tcps s1 ! 0) = []" using s1(2) by (simp add: carries_def Let_def)
  then obtain s2 where s2: "step (s1, []) (s2, [])" "carries 0 ?b ?str (s2, []) 2"
    using seg [OF s1(2), of 0 _ 2] s1(3-6) by (auto simp: RXBUF_def numeral_2_eq_2)
  have "rx_buf (tcps s2 ! 0) = [1, 2]" using s2(2) by (simp add: carries_def Let_def numeral_2_eq_2)
  then have "step (s2, []) (snd (rx_take 0 2 s2), [1, 2])"
    using stream_step.reading [of 0 2 s2 "[1, 2]" "snd (rx_take 0 2 s2)" "net_arp_resolve 1" ?b ?str "[]"] by (simp add: rx_take_def step_def)
  then have run: "step\<^sup>*\<^sup>* (connected, []) (snd (rx_take 0 2 s2), [1, 2])" using s1(1) s2(1) by (meson converse_rtranclp_into_rtranclp rtranclp.rtrancl_refl)
  then show ?thesis using tcp_stream_prefix [OF c0 _ run [unfolded step_def]] unfolding step_def by auto
qed

end
