(* ===== verification/Files.thy ===== *)
theory Files
  imports Ring Cpio FatVol Console Tcp Sched
begin

text \<open>
  What a file descriptor names: \<open>stam/file.c\<close>. The pools of file objects, pipes and memory files are lists and a pointer into one is an
  index; the record \<open>kern\<close> puts them beside the console, the disk, the network, the scheduler and the memory the archive lies in,
  which the operations call.

  A pipe's reader sleeps while it is empty and its writer while it is full. What happens between taking the scheduler lock and giving it
  up is one turn; between two turns of a sleeping thread the rest of the machine moves, which is the list \<open>others\<close> of a call's
  circumstances \<open>scene\<close>: for each sleep, what the others did and the processor on which the thread came back. \<open>None\<close> is a call that
  is still waiting when the list ends.

  The lemmas show that the counts of a pipe's ends are the numbers of open ends, that what readers get is what writers wrote, in order, that
  a reader sees the end exactly when nobody can write any more, and that memory files keep what is written to them.
\<close>

section \<open>State\<close>

datatype file_kind = FILE_FREE | FILE_CONSOLE | FILE_PIPE_R | FILE_PIPE_W | FILE_INITRD | FILE_MEM | FILE_FAT | FILE_FATDIR | FILE_UDP | FILE_TCP

definition NPIPE :: nat where "NPIPE = 8"
definition NFILE :: nat where "NFILE = 32"
definition NMEM :: nat where "NMEM = 4"
definition PIPE_SIZE :: u32 where "PIPE_SIZE = 4096"
definition MEM_SIZE :: nat where "MEM_SIZE = 4096"
definition NAME_MAX :: nat where "NAME_MAX = 32"
definition OPEN_READ :: int where "OPEN_READ = 0"
definition OPEN_WRITE :: int where "OPEN_WRITE = 1"
definition OPEN_APPEND :: int where "OPEN_APPEND = 2"

record pipe =
  p_buf :: bytes
  p_head :: u32
  p_tail :: u32
  readers :: int
  writers :: int
  p_used :: bool

text \<open>The name of a memory file is the bytes before the NUL.\<close>

record memfile =
  m_name :: bytes
  m_data :: bytes
  m_len :: u64
  m_used :: bool

record file_t =
  f_refs :: int
  f_kind :: file_kind
  f_pipe :: "nat option"
  f_mem :: "nat option"
  f_ro :: u64
  f_ro_len :: u64
  f_fat :: fat_file
  f_sock :: "nat option"
  f_conn :: "nat option"
  f_writable :: bool
  f_pos :: u64

record kern =
  k_con :: con
  k_fat :: fatfs
  k_net :: net
  k_sched :: sched
  k_mem :: mem
  pipes :: "pipe list"
  files :: "file_t list"
  console_file :: "nat option"
  memfiles :: "memfile list"
  archive_addr :: u64
  archive_size :: u64

text \<open>The circumstances of a call that may wait: the processor, the time and the stack pointer of the caller; what comes from the keyboard
  while it waits; how deep address resolution may nest; and what the others do while it sleeps.\<close>

record place =
  on_cpu_no :: nat
  at_time :: u64
  at_sp :: u64

record scene =
  here :: place
  keys :: schedule
  nest :: nat
  others :: "((kern \<Rightarrow> kern) \<times> place) list"

definition on_file :: "nat \<Rightarrow> (file_t \<Rightarrow> file_t) \<Rightarrow> kern \<Rightarrow> kern" where
  "on_file i g s = s\<lparr>files := (files s)[i := g (files s ! i)]\<rparr>"

definition on_pipe :: "nat \<Rightarrow> (pipe \<Rightarrow> pipe) \<Rightarrow> kern \<Rightarrow> kern" where
  "on_pipe i g s = s\<lparr>pipes := (pipes s)[i := g (pipes s ! i)]\<rparr>"

definition on_mem :: "nat \<Rightarrow> (memfile \<Rightarrow> memfile) \<Rightarrow> kern \<Rightarrow> kern" where
  "on_mem i g s = s\<lparr>memfiles := (memfiles s)[i := g (memfiles s ! i)]\<rparr>"

section \<open>The pool\<close>

text \<open>What taking a slot sets. The fields \<open>fat\<close> and \<open>writable\<close> keep what the last user left there.\<close>

definition fresh_file :: "file_kind \<Rightarrow> nat option \<Rightarrow> file_t \<Rightarrow> file_t" where
  "fresh_file k p f = f\<lparr>f_kind := k, f_refs := 1, f_pipe := p, f_mem := None, f_ro := 0, f_ro_len := 0, f_pos := 0, f_sock := None, f_conn := None\<rparr>"

definition file_alloc :: "file_kind \<Rightarrow> nat option \<Rightarrow> kern \<Rightarrow> nat option \<times> kern" where
  "file_alloc k p s =
     (case List.find (\<lambda>i. f_kind (files s ! i) = FILE_FREE) [0..<NFILE] of
        None \<Rightarrow> (None, s)
      | Some i \<Rightarrow> (Some i, on_file i (fresh_file k p) s))"

definition file_set_archive :: "u64 \<Rightarrow> u64 \<Rightarrow> kern \<Rightarrow> kern" where
  "file_set_archive addr sz s = s\<lparr>archive_addr := addr, archive_size := sz\<rparr>"

section \<open>Opening\<close>

text \<open>What the search of the disk, before the lock is taken, comes to.\<close>

datatype on_disk = Failed int | Nothing | Found file_kind fat_file | Writing fat_file

definition open_disk :: "bytes \<Rightarrow> int \<Rightarrow> bool \<Rightarrow> kern \<Rightarrow> (on_disk \<times> kern) option" where
  "open_disk name mode absolute s =
     (if \<not> mounted (k_fat s) then Some (Nothing, s)
      else if mode \<noteq> OPEN_READ \<and> absolute then
        (case fat_open name (k_fat s) of
           None \<Rightarrow> None
         | Some (r, v) \<Rightarrow>
             let s1 = s\<lparr>k_fat := v\<rparr>
             in case r of
                  Some ff \<Rightarrow>
                    if \<not> is_dir ff then
                      (if mode = OPEN_WRITE then
                         (case fat_truncate ff v of
                            None \<Rightarrow> None
                          | Some ((ok, ff1), v1) \<Rightarrow> Some (if ok then Writing ff1 else Failed (-5), s\<lparr>k_fat := v1\<rparr>))
                       else Some (Writing ff, s1))
                    else map_option (\<lambda>(r1, v1). (case r1 of Some ff1 \<Rightarrow> Writing ff1 | None \<Rightarrow> Failed (-2), s\<lparr>k_fat := v1\<rparr>)) (fat_create name v)
                | None \<Rightarrow>
                    map_option (\<lambda>(r1, v1). (case r1 of Some ff1 \<Rightarrow> Writing ff1 | None \<Rightarrow> Failed (-2), s\<lparr>k_fat := v1\<rparr>)) (fat_create name v))
      else if mode = OPEN_READ then
        (case fat_open name (k_fat s) of
           None \<Rightarrow> None
         | Some (r, v) \<Rightarrow>
             Some (case r of Some ff \<Rightarrow> Found (if is_dir ff then FILE_FATDIR else FILE_FAT) ff | None \<Rightarrow> Nothing, s\<lparr>k_fat := v\<rparr>))
      else Some (Nothing, s))"

definition memfile_named :: "bytes \<Rightarrow> kern \<Rightarrow> nat option" where
  "memfile_named name s = List.find (\<lambda>i. m_used (memfiles s ! i) \<and> m_name (memfiles s ! i) = name) [0..<NMEM]"

text \<open>Opening a memory file to write to it.\<close>

definition open_mem :: "bytes \<Rightarrow> int \<Rightarrow> kern \<Rightarrow> (int \<times> nat option) \<times> kern" where
  "open_mem name mode s =
     (let m = (case memfile_named name s of
                 Some i \<Rightarrow> Some i
               | None \<Rightarrow> List.find (\<lambda>i. \<not> m_used (memfiles s ! i)) [0..<NMEM])
      in case m of
           None \<Rightarrow> ((-24, None), s)
         | Some i \<Rightarrow>
             let s1 = on_mem i (\<lambda>m. m\<lparr>m_name := take (NAME_MAX - 1) name,
                        m_len := (if mode = OPEN_WRITE \<or> \<not> m_used m then 0 else m_len m), m_used := True\<rparr>) s
             in case file_alloc FILE_MEM None s1 of
                  (None, s2) \<Rightarrow> ((-24, None), s2)
                | (Some f, s2) \<Rightarrow>
                    ((0, Some f), on_file f (\<lambda>x. x\<lparr>f_mem := Some i, f_pos := (if mode = OPEN_APPEND then m_len (memfiles s2 ! i) else 0)\<rparr>) s2))"

text \<open>A new file object, filled in by \<open>g\<close>.\<close>

definition open_as :: "file_kind \<Rightarrow> (file_t \<Rightarrow> file_t) \<Rightarrow> kern \<Rightarrow> (int \<times> nat option) \<times> kern" where
  "open_as k g s =
     (case file_alloc k None s of
        (None, s1) \<Rightarrow> ((-24, None), s1)
      | (Some f, s1) \<Rightarrow> ((0, Some f), on_file f g s1))"

definition open_read :: "bytes \<Rightarrow> on_disk \<Rightarrow> kern \<Rightarrow> ((int \<times> nat option) \<times> kern) option" where
  "open_read name dk s =
     (case memfile_named name s of
        Some i \<Rightarrow> Some (open_as FILE_MEM (\<lambda>f. f\<lparr>f_mem := Some i, f_pos := 0\<rparr>) s)
      | None \<Rightarrow>
          (case (if archive_size s = 0 then Some None else cpio_find (k_mem s) (archive_addr s) (archive_size s) name) of
             None \<Rightarrow> None
           | Some None \<Rightarrow>
               (case dk of
                  Found k ff \<Rightarrow> Some (open_as k (\<lambda>f. f\<lparr>f_fat := ff, f_ro_len := ucast (fsize ff), f_pos := 0\<rparr>) s)
                | _ \<Rightarrow> Some ((-2, None), s))
           | Some (Some (at, len)) \<Rightarrow> Some (open_as FILE_INITRD (\<lambda>f. f\<lparr>f_ro := at, f_ro_len := len, f_pos := 0\<rparr>) s)))"

definition file_open :: "bytes \<Rightarrow> int \<Rightarrow> kern \<Rightarrow> ((int \<times> nat option) \<times> kern) option" where
  "file_open path mode s =
     (let absolute = (path \<noteq> [] \<and> hd path = 47); name = skip_slash path
      in case open_disk name mode absolute s of
           None \<Rightarrow> None
         | Some (Failed e, s1) \<Rightarrow> Some ((e, None), s1)
         | Some (Writing ff, s1) \<Rightarrow>
             Some (open_as FILE_FAT (\<lambda>f. f\<lparr>f_fat := ff, f_ro_len := ucast (fsize ff), f_writable := True,
                     f_pos := (if mode = OPEN_APPEND then ucast (fsize ff) else 0)\<rparr>) s1)
         | Some (dk, s1) \<Rightarrow> if mode \<noteq> OPEN_READ then Some (open_mem name mode s1) else open_read name dk s1)"

definition file_console :: "kern \<Rightarrow> nat option \<times> kern" where
  "file_console s =
     (case console_file s of
        None \<Rightarrow> (let (r, s1) = file_alloc FILE_CONSOLE None s in (r, s1\<lparr>console_file := r\<rparr>))
      | Some c \<Rightarrow> (Some c, on_file c (\<lambda>f. f\<lparr>f_refs := f_refs f + 1\<rparr>) s))"

definition fresh_pipe :: "pipe \<Rightarrow> pipe" where
  "fresh_pipe q = q\<lparr>p_used := True, p_head := 0, p_tail := 0, readers := 1, writers := 1\<rparr>"

definition file_pipe :: "kern \<Rightarrow> (nat \<times> nat) option \<times> kern" where
  "file_pipe s =
     (case List.find (\<lambda>i. \<not> p_used (pipes s ! i)) [0..<NPIPE] of
        None \<Rightarrow> (None, s)
      | Some p \<Rightarrow>
          let s1 = on_pipe p fresh_pipe s
          in case file_alloc FILE_PIPE_R (Some p) s1 of
               (None, s2) \<Rightarrow> (None, on_pipe p (\<lambda>q. q\<lparr>p_used := False\<rparr>) s2)
             | (Some r, s2) \<Rightarrow>
                 (case file_alloc FILE_PIPE_W (Some p) s2 of
                    (None, s3) \<Rightarrow> (None, on_pipe p (\<lambda>q. q\<lparr>p_used := False\<rparr>) (on_file r (\<lambda>f. f\<lparr>f_kind := FILE_FREE, f_refs := 0\<rparr>) s3))
                  | (Some w, s3) \<Rightarrow> (Some (r, w), s3)))"

definition file_ref :: "nat \<Rightarrow> kern \<Rightarrow> kern" where
  "file_ref i s = on_file i (\<lambda>f. f\<lparr>f_refs := f_refs f + 1\<rparr>) s"

section \<open>Closing\<close>

definition wake_pipe :: "nat \<Rightarrow> kern \<Rightarrow> kern" where
  "wake_pipe p s = s\<lparr>k_sched := thread_wake_pipe (PipeObject p) (k_sched s)\<rparr>"

text \<open>One end of a pipe goes.\<close>

definition close_end :: "file_kind \<Rightarrow> nat \<Rightarrow> kern \<Rightarrow> kern" where
  "close_end k p s =
     wake_pipe p (on_pipe p (\<lambda>q. let q1 = (if k = FILE_PIPE_R then q\<lparr>readers := readers q - 1\<rparr> else q\<lparr>writers := writers q - 1\<rparr>)
       in if readers q1 \<le> 0 \<and> writers q1 \<le> 0 then q1\<lparr>p_used := False\<rparr> else q1) s)"

text \<open>What the last close does under the lock: the object is free, and so is its end of a pipe.\<close>

definition release_file :: "nat \<Rightarrow> kern \<Rightarrow> kern" where
  "release_file i s =
     (let f = files s ! i;
          s1 = on_file i (\<lambda>f. f\<lparr>f_kind := FILE_FREE, f_pipe := None, f_sock := None, f_conn := None\<rparr>) s;
          s2 = (if console_file s1 = Some i then s1\<lparr>console_file := None\<rparr> else s1)
      in case f_pipe f of Some p \<Rightarrow> close_end (f_kind f) p s2 | None \<Rightarrow> s2)"

text \<open>The network at depth \<open>d\<close> may still be waiting for the other end's answer.\<close>

definition file_close :: "nat \<Rightarrow> nat \<Rightarrow> kern \<Rightarrow> kern option" where
  "file_close d i s =
     (let s0 = on_file i (\<lambda>f. f\<lparr>f_refs := f_refs f - 1\<rparr>) s; f = files s0 ! i
      in if f_refs f > 0 then Some s0
         else let s1 = release_file i s0;
                  s2 = (case if f_kind f = FILE_UDP then f_sock f else None of Some k \<Rightarrow> s1\<lparr>k_net := udp_close k (k_net s1)\<rparr> | None \<Rightarrow> s1)
              in case (case if f_kind f = FILE_TCP then f_conn f else None of
                         Some k \<Rightarrow> map_option (\<lambda>n. s2\<lparr>k_net := n\<rparr>) (tcp_close d k (k_net s2))
                       | None \<Rightarrow> Some s2) of
                   None \<Rightarrow> None
                 | Some s3 \<Rightarrow> Some (if f_kind f = FILE_FAT \<and> f_writable f then s3\<lparr>k_fat := fat_sync (k_fat s3)\<rparr> else s3))"

section \<open>Sockets as files\<close>

definition file_udp :: "kern \<Rightarrow> (int \<times> nat option) \<times> kern" where
  "file_udp s =
     (case udp_open (k_net s) of
        (None, n) \<Rightarrow> ((-105, None), s\<lparr>k_net := n\<rparr>)
      | (Some k, n) \<Rightarrow>
          (case file_alloc FILE_UDP None (s\<lparr>k_net := n\<rparr>) of
             (None, s1) \<Rightarrow> ((-24, None), s1\<lparr>k_net := udp_close k (k_net s1)\<rparr>)
           | (Some f, s1) \<Rightarrow> ((0, Some f), on_file f (\<lambda>x. x\<lparr>f_sock := Some k\<rparr>) s1)))"

definition file_udp_sock :: "nat \<Rightarrow> kern \<Rightarrow> nat option" where
  "file_udp_sock i s = (if f_kind (files s ! i) = FILE_UDP then f_sock (files s ! i) else None)"

definition file_tcp_adopt :: "nat \<Rightarrow> nat option \<Rightarrow> kern \<Rightarrow> ((int \<times> nat option) \<times> kern) option" where
  "file_tcp_adopt d c s =
     (case c of
        None \<Rightarrow> Some ((-22, None), s)
      | Some k \<Rightarrow>
          (case file_alloc FILE_TCP None s of
             (None, s1) \<Rightarrow> map_option (\<lambda>n. ((-24, None), s1\<lparr>k_net := n\<rparr>)) (tcp_close d k (k_net s1))
           | (Some f, s1) \<Rightarrow> Some ((0, Some f), on_file f (\<lambda>x. x\<lparr>f_conn := Some k\<rparr>) s1)))"

definition file_tcp :: "nat \<Rightarrow> kern \<Rightarrow> ((int \<times> nat option) \<times> kern) option" where
  "file_tcp d s =
     (case tcp_open (k_net s) of
        (None, n) \<Rightarrow> Some ((-105, None), s\<lparr>k_net := n\<rparr>)
      | (Some k, n) \<Rightarrow>
          (case file_alloc FILE_TCP None (s\<lparr>k_net := n\<rparr>) of
             (None, s1) \<Rightarrow> map_option (\<lambda>n. ((-24, None), s1\<lparr>k_net := n\<rparr>)) (tcp_close d k (k_net s1))
           | (Some f, s1) \<Rightarrow> Some ((0, Some f), on_file f (\<lambda>x. x\<lparr>f_conn := Some k\<rparr>) s1)))"

definition file_tcp_conn :: "nat \<Rightarrow> kern \<Rightarrow> nat option" where
  "file_tcp_conn i s = (if f_kind (files s ! i) = FILE_TCP then f_conn (files s ! i) else None)"

section \<open>Pipes\<close>

definition pipe_bytes :: "pipe \<Rightarrow> u32" where
  "pipe_bytes p = (p_head p - p_tail p) mod PIPE_SIZE"

text \<open>At most \<open>n\<close> bytes out of a pipe.\<close>

primrec pipe_take :: "nat \<Rightarrow> pipe \<Rightarrow> bytes \<times> pipe" where
  "pipe_take 0 p = ([], p)"
| "pipe_take (Suc n) p =
     (if pipe_bytes p = 0 then ([], p)
      else let (bs, q) = pipe_take n (p\<lparr>p_tail := (p_tail p + 1) mod PIPE_SIZE\<rparr>)
           in (p_buf p ! unat (p_tail p) # bs, q))"

text \<open>As many bytes into a pipe as it has room for, and the bytes left over.\<close>

primrec pipe_fill :: "bytes \<Rightarrow> pipe \<Rightarrow> bytes \<times> pipe" where
  "pipe_fill [] p = ([], p)"
| "pipe_fill (c # cs) p =
     (if pipe_bytes p = PIPE_SIZE - 1 then (c # cs, p)
      else pipe_fill cs (p\<lparr>p_buf := (p_buf p)[unat (p_head p) := c], p_head := (p_head p + 1) mod PIPE_SIZE\<rparr>))"

definition block_on_pipe :: "nat \<Rightarrow> place \<Rightarrow> kern \<Rightarrow> kern" where
  "block_on_pipe p w s = s\<lparr>k_sched := thread_block_on_pipe (PipeObject p) (on_cpu_no w) (at_time w) (at_sp w) (k_sched s)\<rparr>"

text \<open>One turn of a reader: the value returned and the bytes, or the thread is asleep.\<close>

datatype read_turn = GotBytes int bytes kern | ReaderAsleep kern

definition pipe_read_turn :: "nat \<Rightarrow> nat \<Rightarrow> place \<Rightarrow> kern \<Rightarrow> read_turn" where
  "pipe_read_turn p len w s =
     (if pipe_bytes (pipes s ! p) = 0 then
        (if writers (pipes s ! p) \<le> 0 then GotBytes 0 [] s else ReaderAsleep (block_on_pipe p w s))
      else let (bs, q) = pipe_take len (pipes s ! p)
           in GotBytes (int (length bs)) bs (wake_pipe p (on_pipe p (\<lambda>_. q) s)))"

text \<open>One turn of a writer that has written \<open>n\<close> bytes and has \<open>buf\<close> left.\<close>

datatype write_turn = Wrote int kern | WriterAsleep bytes nat kern

definition pipe_write_turn :: "nat \<Rightarrow> bytes \<Rightarrow> nat \<Rightarrow> place \<Rightarrow> kern \<Rightarrow> write_turn" where
  "pipe_write_turn p buf n w s =
     (if buf = [] then Wrote (int n) (wake_pipe p s)
      else if readers (pipes s ! p) \<le> 0 then Wrote (if n \<noteq> 0 then int n else -32) s
      else let (rest, q) = pipe_fill buf (pipes s ! p); s1 = on_pipe p (\<lambda>_. q) s; m = n + (length buf - length rest)
           in if rest = [] then Wrote (int m) (wake_pipe p s1) else WriterAsleep rest m (block_on_pipe p w s1))"

fun pipe_read :: "((kern \<Rightarrow> kern) \<times> place) list \<Rightarrow> nat \<Rightarrow> nat \<Rightarrow> place \<Rightarrow> kern \<Rightarrow> ((int \<times> bytes) \<times> kern) option" where
  "pipe_read ws p len w s =
     (case pipe_read_turn p len w s of
        GotBytes r bs s1 \<Rightarrow> Some ((r, bs), s1)
      | ReaderAsleep s1 \<Rightarrow> (case ws of [] \<Rightarrow> None | (g, w1) # ws1 \<Rightarrow> pipe_read ws1 p len w1 (g s1)))"

fun pipe_write :: "((kern \<Rightarrow> kern) \<times> place) list \<Rightarrow> nat \<Rightarrow> bytes \<Rightarrow> nat \<Rightarrow> place \<Rightarrow> kern \<Rightarrow> (int \<times> kern) option" where
  "pipe_write ws p buf n w s =
     (case pipe_write_turn p buf n w s of
        Wrote r s1 \<Rightarrow> Some (r, s1)
      | WriterAsleep rest m s1 \<Rightarrow> (case ws of [] \<Rightarrow> None | (g, w1) # ws1 \<Rightarrow> pipe_write ws1 p rest m w1 (g s1)))"

declare pipe_read.simps [simp del] pipe_write.simps [simp del]

section \<open>Reading\<close>

text \<open>The bytes from the position of a memory file or of a file of the archive, at most \<open>len\<close> of them.\<close>

definition stored_bytes :: "file_t \<Rightarrow> u64 \<Rightarrow> kern \<Rightarrow> bytes" where
  "stored_bytes f len s =
     (case f_mem f of
        Some m \<Rightarrow> let k = memfiles s ! m in take (min (unat len) (unat (m_len k) - unat (f_pos f))) (drop (unat (f_pos f)) (m_data k))
      | None \<Rightarrow> map (\<lambda>j. k_mem s (f_ro f + (f_pos f + of_nat j))) [0..<min (unat len) (unat (f_ro_len f) - unat (f_pos f))])"

text \<open>The value returned and the bytes written to the caller's buffer. A pipe's place is taken by a null pointer in a directory, which the
  code dereferences: that, too, is \<open>None\<close>.\<close>

definition file_read :: "scene \<Rightarrow> nat \<Rightarrow> u64 \<Rightarrow> kern \<Rightarrow> ((int \<times> bytes) \<times> kern) option" where
  "file_read sc i len s =
     (let f = files s ! i
      in if f_kind f = FILE_FREE \<or> f_kind f = FILE_PIPE_W then Some ((-9, []), s)
         else if f_kind f = FILE_CONSOLE then
           map_option (\<lambda>(r, l, c). ((r, l), s\<lparr>k_con := c\<rparr>)) (console_read_line (keys sc) len (k_con s))
         else if f_kind f = FILE_TCP then
           (case f_conn f of
              None \<Rightarrow> Some ((-104, []), s)
            | Some c \<Rightarrow> map_option (\<lambda>(r, n). (r, s\<lparr>k_net := n\<rparr>)) (tcp_recv (nest sc) c (ucast len) (k_net s)))
         else if f_kind f = FILE_UDP then Some ((-9, []), s)
         else if len = 0 then Some ((0, []), s)
         else if f_kind f = FILE_INITRD \<or> f_kind f = FILE_MEM then
           (let bs = stored_bytes f len s
            in Some ((int (length bs), bs), on_file i (\<lambda>f. f\<lparr>f_pos := f_pos f + of_nat (length bs)\<rparr>) s))
         else if f_kind f = FILE_FAT then
           (case fat_read (f_fat f) (f_pos f) len (k_fat s) of
              (None, v) \<Rightarrow> Some ((-1, []), s\<lparr>k_fat := v\<rparr>)
            | (Some bs, v) \<Rightarrow> Some ((int (length bs), bs), on_file i (\<lambda>f. f\<lparr>f_pos := f_pos f + of_nat (length bs)\<rparr>) (s\<lparr>k_fat := v\<rparr>)))
         else case f_pipe f of None \<Rightarrow> None | Some p \<Rightarrow> pipe_read (others sc) p (unat len) (here sc) s)"

section \<open>Directories\<close>

text \<open>One record of \<open>getdents64\<close>.\<close>

definition dirent_size :: "nat \<Rightarrow> nat" where
  "dirent_size n = (n + 27) div 8 * 8"

definition dirent_record :: "u64 \<Rightarrow> bytes \<Rightarrow> bool \<Rightarrow> bytes" where
  "dirent_record pos name isd =
     (let rec = dirent_size (length name)
      in replicate 8 0 @ le_bytes 8 (pos + 1) @ [of_nat rec, of_nat (rec div 256), if isd then 4 else 8] @ name @ [0] @
         replicate (rec - (20 + length name)) 0)"

primrec getdents_loop :: "nat \<Rightarrow> nat \<Rightarrow> fat_file \<Rightarrow> u64 \<Rightarrow> bytes \<Rightarrow> fatfs \<Rightarrow> ((int \<times> bytes \<times> u64) \<times> fatfs) option" where
  "getdents_loop 0 len dir pos out v = None"
| "getdents_loop (Suc k) len dir pos out v =
     (case fat_dirent dir (ucast pos) v of
        None \<Rightarrow> None
      | Some (None, v1) \<Rightarrow> Some ((int (length out), out, pos), v1)
      | Some (Some (name, sz, isd), v1) \<Rightarrow>
          if length out + dirent_size (length name) > len then
            Some (if out = [] then (-22, [], pos) else (int (length out), out, pos), v1)
          else getdents_loop k len dir (pos + 1) (out @ dirent_record pos name isd) v1)"

definition file_getdents :: "nat \<Rightarrow> u64 \<Rightarrow> kern \<Rightarrow> ((int \<times> bytes) \<times> kern) option" where
  "file_getdents i len s =
     (let f = files s ! i
      in if f_kind f \<noteq> FILE_FATDIR then Some ((-20, []), s)
         else case getdents_loop (Suc (unat len)) (unat len) (f_fat f) (f_pos f) [] (k_fat s) of
           None \<Rightarrow> None
         | Some ((r, out, pos), v) \<Rightarrow> Some ((r, out), on_file i (\<lambda>f. f\<lparr>f_pos := pos\<rparr>) (s\<lparr>k_fat := v\<rparr>)))"

section \<open>Writing\<close>

text \<open>Into a memory file, from the position of the open file.\<close>

definition mem_write :: "nat \<Rightarrow> nat \<Rightarrow> bytes \<Rightarrow> kern \<Rightarrow> int \<times> kern" where
  "mem_write i m buf s =
     (let pos = f_pos (files s ! i); n = min (length buf) (MEM_SIZE - unat pos); fin = pos + of_nat n;
          s1 = on_mem m (\<lambda>k. k\<lparr>m_data := splice (unat pos) (take n buf) (m_data k), m_len := (if fin > m_len k then fin else m_len k)\<rparr>)
                 (on_file i (\<lambda>f. f\<lparr>f_pos := fin\<rparr>) s)
      in (if n = 0 \<and> buf \<noteq> [] then -28 else int n, s1))"

definition file_write :: "scene \<Rightarrow> nat \<Rightarrow> bytes \<Rightarrow> kern \<Rightarrow> (int \<times> kern) option" where
  "file_write sc i buf s =
     (let f = files s ! i
      in if f_kind f = FILE_FREE \<or> f_kind f = FILE_PIPE_R then Some (-9, s)
         else if f_kind f = FILE_CONSOLE then Some (int (length buf), s\<lparr>k_con := fold kputc buf (k_con s)\<rparr>)
         else if f_kind f = FILE_TCP then
           (case f_conn f of
              None \<Rightarrow> Some (-104, s)
            | Some c \<Rightarrow> map_option (\<lambda>(r, n). (r, s\<lparr>k_net := n\<rparr>)) (tcp_send (nest sc) c (take (length buf mod 2 ^ 32) buf) (k_net s)))
         else if f_kind f = FILE_UDP \<or> f_kind f = FILE_INITRD then Some (-9, s)
         else if f_kind f = FILE_FAT then
           (if \<not> f_writable f then Some (-9, s)
            else let ((r, ff), v) = fat_write (f_fat f) (f_pos f) buf (k_fat s)
                 in Some (case r of None \<Rightarrow> -1 | Some n \<Rightarrow> int n,
                          on_file i (\<lambda>f. f\<lparr>f_fat := ff, f_pos := f_pos f + (case r of None \<Rightarrow> 0 | Some n \<Rightarrow> of_nat n)\<rparr>) (s\<lparr>k_fat := v\<rparr>)))
         else if f_kind f = FILE_MEM then
           (case f_mem f of None \<Rightarrow> None | Some m \<Rightarrow> Some (mem_write i m buf s))
         else case f_pipe f of None \<Rightarrow> None | Some p \<Rightarrow> pipe_write (others sc) p buf 0 (here sc) s)"

section \<open>A pipe as a queue\<close>

definition p_list :: "pipe \<Rightarrow> bytes" where
  "p_list p = ring_list 4096 (p_buf p) (unat (p_head p)) (unat (p_tail p))"

definition p_inv :: "pipe \<Rightarrow> bool" where
  "p_inv p \<longleftrightarrow> length (p_buf p) = 4096 \<and> unat (p_head p) < 4096 \<and> unat (p_tail p) < 4096"

definition pipe_put :: "u8 \<Rightarrow> pipe \<Rightarrow> pipe option" where
  "pipe_put c p =
     (if pipe_bytes p = PIPE_SIZE - 1 then None
      else Some (p\<lparr>p_buf := (p_buf p)[unat (p_head p) := c], p_head := (p_head p + 1) mod PIPE_SIZE\<rparr>))"

definition pipe_get :: "pipe \<Rightarrow> (u8 \<times> pipe) option" where
  "pipe_get p = (if pipe_bytes p = 0 then None else Some (p_buf p ! unat (p_tail p), p\<lparr>p_tail := (p_tail p + 1) mod PIPE_SIZE\<rparr>))"

lemma unat_pipe_bytes:
  assumes "p_inv p"
  shows "unat (pipe_bytes p) = length (p_list p)"
proof -
  have b: "unat (p_head p) < 4096" "unat (p_tail p) < 4096" using assms by (simp_all add: p_inv_def)
  have "(unat (p_head p) + 4294967296 - unat (p_tail p)) mod 4096 = unat (p_head p) + 4096 - unat (p_tail p)"
    if "unat (p_head p) < unat (p_tail p)"
  proof -
    have "unat (p_head p) + 4294967296 - unat (p_tail p) = (unat (p_head p) + 4096 - unat (p_tail p)) + 1048575 * 4096" using b that by simp
    then show ?thesis using b that by (simp only: mod_mult_self1 mod_less)
  qed
  then show ?thesis using b
    by (auto simp: p_list_def pipe_bytes_def PIPE_SIZE_def unat_mod_distrib unat_sub_if' ring_count_eq)
qed

lemma unat_pipe_next:
  assumes "unat x < 4096"
  shows "unat ((x + 1) mod PIPE_SIZE) = Suc (unat x) mod 4096"
proof -
  have "unat (x + 1) = Suc (unat x)" using assms by (simp add: unat_word_ariths)
  then show ?thesis by (simp add: PIPE_SIZE_def unat_mod_distrib)
qed

lemma pipe_queue_laws:
  assumes "p_inv q"
  shows "pipe_put c q = None \<longleftrightarrow> 4095 \<le> length (p_list q)"
    and "pipe_put c q = Some q' \<Longrightarrow> p_list q' = p_list q @ [c] \<and> p_inv q'"
    and "pipe_get q = None \<longleftrightarrow> p_list q = []"
    and "pipe_get q = Some (c, q') \<Longrightarrow> p_list q = c # p_list q' \<and> p_inv q'"
proof -
  let ?h = "unat (p_head q)" and ?t = "unat (p_tail q)"
  have b: "?h < 4096" "?t < 4096" "length (p_buf q) = 4096" using assms by (simp_all add: p_inv_def)
  have less: "length (p_list q) < 4096" using ring_count_less [OF b(1)] by (simp add: p_list_def)
  have "pipe_bytes q = PIPE_SIZE - 1 \<longleftrightarrow> unat (pipe_bytes q) = 4095" by (simp add: word_unat_eq_iff PIPE_SIZE_def)
  then have full: "pipe_bytes q = PIPE_SIZE - 1 \<longleftrightarrow> length (p_list q) = 4095" using unat_pipe_bytes [OF assms] by simp
  have empty: "pipe_bytes q = 0 \<longleftrightarrow> p_list q = []" using unat_pipe_bytes [OF assms] by (simp add: word_unat_eq_iff)
  show "pipe_put c q = None \<longleftrightarrow> 4095 \<le> length (p_list q)" using full less by (auto simp: pipe_put_def)
  show "pipe_get q = None \<longleftrightarrow> p_list q = []" using empty by (simp add: pipe_get_def)
  show "p_list q' = p_list q @ [c] \<and> p_inv q'" if "pipe_put c q = Some q'"
  proof -
    have "length (p_list q) \<noteq> 4095" using that full by (auto simp: pipe_put_def)
    then have "Suc ?h mod 4096 \<noteq> ?t" using ring_full [OF b(1, 2)] by (simp add: p_list_def)
    then show ?thesis using that ring_put [OF b, of c] b
      by (auto simp: pipe_put_def p_list_def p_inv_def unat_pipe_next split: if_splits)
  qed
  show "p_list q = c # p_list q' \<and> p_inv q'" if "pipe_get q = Some (c, q')"
  proof -
    have "p_list q \<noteq> []" using that empty by (auto simp: pipe_get_def)
    then have "?h \<noteq> ?t" using ring_empty [OF b(1, 2)] by (metis length_0_conv length_ring_list p_list_def)
    then show ?thesis using that ring_get [OF b(1, 2), of "p_buf q"] b
      by (auto simp: pipe_get_def p_list_def p_inv_def unat_pipe_next split: if_splits)
  qed
qed

interpretation pq: byte_queue p_list p_inv pipe_put pipe_get 4095
  by unfold_locales (use pipe_queue_laws in blast)+

lemma pipe_fill_queue: "pipe_fill cs p = pq.put_all cs p"
  by (induction cs arbitrary: p) (simp_all add: pipe_put_def)

lemma pipe_take_queue: "pipe_take n p = pq.get_upto n p"
  by (induction n arbitrary: p) (simp_all add: pipe_get_def)

lemma p_list_bounded: "p_inv p \<Longrightarrow> length (p_list p) \<le> 4095"
  using ring_count_less [of "unat (p_head p)" 4096 "unat (p_tail p)"] by (simp add: p_inv_def p_list_def)

lemma pipe_fill_ends:
  "readers (snd (pipe_fill cs p)) = readers p \<and> writers (snd (pipe_fill cs p)) = writers p \<and> p_used (snd (pipe_fill cs p)) = p_used p"
  by (induction cs arbitrary: p) simp_all

lemma pipe_take_ends:
  "readers (snd (pipe_take n p)) = readers p \<and> writers (snd (pipe_take n p)) = writers p \<and> p_used (snd (pipe_take n p)) = p_used p"
  by (induction n arbitrary: p) (simp_all add: case_prod_unfold Let_def)

section \<open>Readers and writers of one pipe\<close>

lemma pipes_simps [simp]:
  "pipes (wake_pipe p s) = pipes s" "pipes (block_on_pipe p w s) = pipes s" "pipes (on_file i g s) = pipes s" "pipes (on_mem i h s) = pipes s"
  "pipes (on_pipe p f s) = (pipes s)[p := f (pipes s ! p)]"
  by (simp_all add: wake_pipe_def block_on_pipe_def on_file_def on_mem_def on_pipe_def)

text \<open>
  Turns of any number of threads that write to and read from pipe \<open>p\<close>, in any order, beside whatever else leaves its buffer alone. The two
  lists are everything written to the pipe so far and everything read from it.
\<close>

inductive pipe_step :: "nat \<Rightarrow> kern \<times> bytes \<times> bytes \<Rightarrow> kern \<times> bytes \<times> bytes \<Rightarrow> bool" for p where
  wrote: "pipe_write_turn p buf n w s = Wrote r s' \<Longrightarrow> pipe_step p (s, wr, rd) (s', wr @ take (nat r - n) buf, rd)"
| writer_slept: "pipe_write_turn p buf n w s = WriterAsleep rest m s' \<Longrightarrow> pipe_step p (s, wr, rd) (s', wr @ take (m - n) buf, rd)"
| got: "pipe_read_turn p len w s = GotBytes r bs s' \<Longrightarrow> pipe_step p (s, wr, rd) (s', wr, rd @ bs)"
| reader_slept: "pipe_read_turn p len w s = ReaderAsleep s' \<Longrightarrow> pipe_step p (s, wr, rd) (s', wr, rd)"
| elsewhere: "length (pipes s') = length (pipes s) \<Longrightarrow> p_buf (pipes s' ! p) = p_buf (pipes s ! p) \<Longrightarrow>
    p_head (pipes s' ! p) = p_head (pipes s ! p) \<Longrightarrow> p_tail (pipes s' ! p) = p_tail (pipes s ! p) \<Longrightarrow> pipe_step p (s, wr, rd) (s', wr, rd)"

definition in_step :: "nat \<Rightarrow> kern \<times> bytes \<times> bytes \<Rightarrow> bool" where
  "in_step p x \<longleftrightarrow> (case x of (s, wr, rd) \<Rightarrow> p < length (pipes s) \<and> p_inv (pipes s ! p) \<and> wr = rd @ p_list (pipes s ! p))"

lemma write_turn_queue:
  assumes "p < length (pipes s)" "p_inv (pipes s ! p)"
  shows "(case pipe_write_turn p buf n w s of
      Wrote r s' \<Rightarrow> length (pipes s') = length (pipes s) \<and> p_inv (pipes s' ! p) \<and> p_list (pipes s' ! p) = p_list (pipes s ! p) @ take (nat r - n) buf
    | WriterAsleep rest m s' \<Rightarrow> length (pipes s') = length (pipes s) \<and> p_inv (pipes s' ! p) \<and>
        p_list (pipes s' ! p) = p_list (pipes s ! p) @ take (m - n) buf \<and> rest = drop (m - n) buf \<and> length (p_list (pipes s' ! p)) = 4095)"
proof -
  let ?k = "4095 - length (p_list (pipes s ! p))"
  obtain rest q where f: "pipe_fill buf (pipes s ! p) = (rest, q)" by fastforce
  have q: "p_inv q" "p_list q = p_list (pipes s ! p) @ take ?k buf" "rest = drop ?k buf"
    using pq.put_all_spec [OF assms(2) p_list_bounded [OF assms(2)], of buf rest q] f by (simp_all add: pipe_fill_queue)
  have put: "take (length buf - length rest) buf = take ?k buf" "drop (length buf - length rest) buf = rest"
    using q(3) by (cases "?k \<le> length buf"; simp)+
  have full: "length (p_list q) = 4095" if "rest \<noteq> []" using that q p_list_bounded [OF assms(2)] by simp
  have same: "p_list q = p_list (pipes s ! p) @ take (n + (length buf - length rest) - n) buf" "rest = drop (n + (length buf - length rest) - n) buf"
    using q(2) put by simp_all
  consider "buf = []" | "buf \<noteq> []" "readers (pipes s ! p) \<le> 0" | "buf \<noteq> []" "0 < readers (pipes s ! p)" "rest = []"
    | "buf \<noteq> []" "0 < readers (pipes s ! p)" "rest \<noteq> []" by linarith
  then show ?thesis
  proof cases
    case 3
    then have "pipe_write_turn p buf n w s = Wrote (int (n + length buf)) (wake_pipe p (on_pipe p (\<lambda>_. q) s))"
      using f by (simp add: pipe_write_turn_def)
    then show ?thesis using q(1) same(1) 3(3) assms(1) by simp
  next
    case 4
    then have "pipe_write_turn p buf n w s = WriterAsleep rest (n + (length buf - length rest)) (block_on_pipe p w (on_pipe p (\<lambda>_. q) s))"
      using f by (simp add: pipe_write_turn_def)
    then show ?thesis using q(1) same full [OF 4(3)] assms(1) by simp
  qed (use assms in \<open>simp_all add: pipe_write_turn_def\<close>)
qed

lemma read_turn_queue:
  assumes "p < length (pipes s)" "p_inv (pipes s ! p)"
  shows "(case pipe_read_turn p len w s of
      GotBytes r bs s' \<Rightarrow> length (pipes s') = length (pipes s) \<and> p_inv (pipes s' ! p) \<and> p_list (pipes s' ! p) = drop len (p_list (pipes s ! p)) \<and>
        r = int (length bs) \<and> bs = take len (p_list (pipes s ! p)) \<and> (p_list (pipes s ! p) = [] \<longrightarrow> writers (pipes s ! p) \<le> 0)
    | ReaderAsleep s' \<Rightarrow> pipes s' = pipes s \<and> p_list (pipes s ! p) = [] \<and> 0 < writers (pipes s ! p))"
proof -
  obtain bs q where t: "pipe_take len (pipes s ! p) = (bs, q)" by fastforce
  have q: "p_inv q" "bs = take len (p_list (pipes s ! p))" "p_list q = drop len (p_list (pipes s ! p))"
    using pq.get_upto_spec [OF assms(2), of len bs q] t by (simp_all add: pipe_take_queue)
  have e: "pipe_bytes (pipes s ! p) = 0 \<longleftrightarrow> p_list (pipes s ! p) = []" using unat_pipe_bytes [OF assms(2)] by (simp add: word_unat_eq_iff)
  show ?thesis using assms q by (auto simp: pipe_read_turn_def t e Let_def)
qed

lemma pipe_step_in_step: "pipe_step p x y \<Longrightarrow> in_step p x \<Longrightarrow> in_step p y"
proof (induction rule: pipe_step.induct)
  case (wrote buf n w s r s' wr rd)
  have i: "p < length (pipes s)" "p_inv (pipes s ! p)" "wr = rd @ p_list (pipes s ! p)" using wrote.prems by (simp_all add: in_step_def)
  have "length (pipes s') = length (pipes s)" "p_inv (pipes s' ! p)" "p_list (pipes s' ! p) = p_list (pipes s ! p) @ take (nat r - n) buf"
    using write_turn_queue [OF i(1, 2), of n buf w] unfolding wrote.hyps by simp_all
  then show ?case using i by (simp add: in_step_def)
next
  case (writer_slept buf n w s rest m s' wr rd)
  then show ?case using write_turn_queue [where buf = buf and n = n and w = w, of p s] by (simp add: in_step_def)
next
  case (got len w s r bs s' wr rd)
  then show ?case using read_turn_queue [of p s len w] by (simp add: in_step_def)
next
  case (reader_slept len w s s' wr rd)
  then show ?case using read_turn_queue [of p s len w] by (simp add: in_step_def)
next
  case (elsewhere s' s wr rd)
  then show ?case by (simp add: in_step_def p_inv_def p_list_def)
qed

lemma pipe_run_in_step: "(pipe_step p)\<^sup>*\<^sup>* x y \<Longrightarrow> in_step p x \<Longrightarrow> in_step p y"
  by (induction rule: rtranclp_induct) (use pipe_step_in_step in blast)+

text \<open>C9: a pipe delivers what is written to it. However the turns of its writers and readers interleave, what has been written is what has been read
  followed by what the buffer holds, at most 4095 bytes of it. A reader's turn returns the front of the buffer, or sleeps while a
  writer is left, or reports the end, and then everything written has been read and there is no writer. A writer's turn sleeps only
  with the buffer full, and loses nothing: what it has not put is what it goes on with.\<close>

theorem pipe_fifo:
  assumes "(pipe_step p)\<^sup>*\<^sup>* (s0, [], []) (s, wr, rd)" "p < length (pipes s0)" "p_inv (pipes s0 ! p)" "p_list (pipes s0 ! p) = []"
  shows "wr = rd @ p_list (pipes s ! p) \<and> length (p_list (pipes s ! p)) \<le> 4095 \<and>
    (case pipe_read_turn p (Suc len) w s of
       GotBytes r bs s' \<Rightarrow> r = int (length bs) \<and> bs = take (Suc len) (p_list (pipes s ! p)) \<and> (r = 0 \<longrightarrow> rd = wr \<and> writers (pipes s ! p) \<le> 0)
     | ReaderAsleep s' \<Rightarrow> rd = wr \<and> 0 < writers (pipes s ! p)) \<and>
    (case pipe_write_turn p buf n w s of
       Wrote r s' \<Rightarrow> nat r - n = length buf \<or> readers (pipes s ! p) \<le> 0
     | WriterAsleep rest m s' \<Rightarrow> rest = drop (m - n) buf \<and> length (p_list (pipes s' ! p)) = 4095)"
proof -
  have i: "p < length (pipes s)" "p_inv (pipes s ! p)" "wr = rd @ p_list (pipes s ! p)"
    using pipe_run_in_step [OF assms(1)] assms(2-4) by (simp_all add: in_step_def)
  have "nat r - n = length buf \<or> readers (pipes s ! p) \<le> 0" if "pipe_write_turn p buf n w s = Wrote r s'" for r s'
    using that by (auto simp: pipe_write_turn_def Let_def case_prod_unfold split: if_splits)
  note W = this
  have R: "case pipe_read_turn p (Suc len) w s of
       GotBytes r bs s' \<Rightarrow> r = int (length bs) \<and> bs = take (Suc len) (p_list (pipes s ! p)) \<and> (r = 0 \<longrightarrow> rd = wr \<and> writers (pipes s ! p) \<le> 0)
     | ReaderAsleep s' \<Rightarrow> rd = wr \<and> 0 < writers (pipes s ! p)"
    using read_turn_queue [OF i(1, 2), of "Suc len" w] unfolding i(3)
    by (cases "pipe_read_turn p (Suc len) w s") (auto simp: min_def split: if_splits)
  have "case pipe_write_turn p buf n w s of
       Wrote r s' \<Rightarrow> nat r - n = length buf \<or> readers (pipes s ! p) \<le> 0
     | WriterAsleep rest m s' \<Rightarrow> rest = drop (m - n) buf \<and> length (p_list (pipes s' ! p)) = 4095"
    using write_turn_queue [OF i(1, 2), where buf = buf and n = n and w = w] W by (cases "pipe_write_turn p buf n w s") auto
  then show ?thesis using i(3) R p_list_bounded [OF i(2)] by blast
qed

section \<open>The counts of a pipe's ends\<close>

definition is_end :: "file_kind \<Rightarrow> nat \<Rightarrow> file_t \<Rightarrow> bool" where
  "is_end k p f \<longleftrightarrow> f_kind f = k \<and> f_pipe f = Some p"

text \<open>The number of open files that are an end of pipe \<open>p\<close>.\<close>

definition ends :: "file_kind \<Rightarrow> nat \<Rightarrow> kern \<Rightarrow> int" where
  "ends k p s = int (length (filter (is_end k p) (files s)))"

definition file_ok :: "file_t \<Rightarrow> bool" where
  "file_ok f \<longleftrightarrow> f_kind f = FILE_FREE \<or>
     (0 < f_refs f \<and> (case f_pipe f of None \<Rightarrow> f_kind f \<noteq> FILE_PIPE_R \<and> f_kind f \<noteq> FILE_PIPE_W
                                     | Some p \<Rightarrow> (f_kind f = FILE_PIPE_R \<or> f_kind f = FILE_PIPE_W) \<and> p < NPIPE))"

definition pipe_ok :: "nat \<Rightarrow> kern \<Rightarrow> bool" where
  "pipe_ok p s \<longleftrightarrow> p_inv (pipes s ! p) \<and>
     (if p_used (pipes s ! p)
      then readers (pipes s ! p) = ends FILE_PIPE_R p s \<and> writers (pipes s ! p) = ends FILE_PIPE_W p s \<and>
           (0 < ends FILE_PIPE_R p s \<or> 0 < ends FILE_PIPE_W p s)
      else ends FILE_PIPE_R p s = 0 \<and> ends FILE_PIPE_W p s = 0)"

definition files_ok :: "kern \<Rightarrow> bool" where
  "files_ok s \<longleftrightarrow> length (files s) = NFILE \<and> length (pipes s) = NPIPE \<and> (\<forall>i < NFILE. file_ok (files s ! i)) \<and> (\<forall>p < NPIPE. pipe_ok p s) \<and>
     (\<forall>c. console_file s = Some c \<longrightarrow> c < NFILE \<and> f_kind (files s ! c) = FILE_CONSOLE)"

lemma length_filter_update:
  "i < length xs \<Longrightarrow>
   int (length (filter P (xs[i := y]))) = int (length (filter P xs)) - (if P (xs ! i) then 1 else 0) + (if P y then 1 else 0)"
proof (induction xs arbitrary: i)
  case (Cons x xs)
  show ?case
  proof (cases i)
    case (Suc j)
    then show ?thesis using Cons.IH [of j] Cons.prems by auto
  qed auto
qed simp

lemma ends_on_file:
  "i < length (files s) \<Longrightarrow> ends k p (on_file i g s) =
     ends k p s - (if is_end k p (files s ! i) then 1 else 0) + (if is_end k p (g (files s ! i)) then 1 else 0)"
  by (simp add: ends_def on_file_def length_filter_update)

lemma ends_files: "files s' = files s \<Longrightarrow> ends k p s' = ends k p s"
  by (simp add: ends_def)

lemma ends_pos:
  assumes "i < length (files s)" "is_end k p (files s ! i)"
  shows "0 < ends k p s"
  using assms by (auto simp: ends_def filter_empty_conv intro: nth_mem)

lemma ends_nonneg: "0 \<le> ends k p s" by (simp add: ends_def)

lemma files_simps [simp]:
  "files (wake_pipe p s) = files s" "files (block_on_pipe p w s) = files s" "files (on_pipe q h s) = files s" "files (on_mem i k s) = files s"
  "files (on_file i g s) = (files s)[i := g (files s ! i)]"
  "console_file (wake_pipe p s) = console_file s" "console_file (block_on_pipe p w s) = console_file s" "console_file (on_pipe q h s) = console_file s"
  "console_file (on_mem i k s) = console_file s" "console_file (on_file i g s) = console_file s"
  by (simp_all add: wake_pipe_def block_on_pipe_def on_pipe_def on_mem_def on_file_def)

text \<open>The invariant reads the open files and the pipes only.\<close>

lemma files_ok_cong:
  assumes "files_ok s" "files s' = files s" "pipes s' = pipes s" "console_file s' = console_file s"
  shows "files_ok s'"
  using assms ends_files [of s' s] by (simp add: files_ok_def pipe_ok_def)

lemma files_ok_pipes:
  assumes "files_ok s" "files s' = files s" "console_file s' = console_file s" "length (pipes s') = length (pipes s)"
    "\<And>q. q < NPIPE \<Longrightarrow> p_inv (pipes s' ! q) \<and> p_used (pipes s' ! q) = p_used (pipes s ! q) \<and> readers (pipes s' ! q) = readers (pipes s ! q) \<and>
       writers (pipes s' ! q) = writers (pipes s ! q)"
  shows "files_ok s'"
  using assms ends_files [of s' s] by (simp add: files_ok_def pipe_ok_def)

lemma files_ok_replace:
  assumes "files_ok s" "i < NFILE" "files s' = (files s)[i := f]" "file_ok f" "length (pipes s') = NPIPE" "\<And>p. p < NPIPE \<Longrightarrow> pipe_ok p s'"
    "console_file s' = None \<or> (console_file s' = console_file s \<and> (console_file s = Some i \<longrightarrow> f_kind f = FILE_CONSOLE)) \<or>
     (console_file s' = Some i \<and> f_kind f = FILE_CONSOLE)"
  shows "files_ok s'"
  unfolding files_ok_def
proof (intro conjI allI impI)
  have l: "length (files s) = NFILE" using assms(1) by (simp add: files_ok_def)
  show "length (files s') = NFILE" "length (pipes s') = NPIPE" using l assms(3, 5) by simp_all
  show "file_ok (files s' ! j)" if "j < NFILE" for j using assms(1-4) that by (cases "j = i") (simp_all add: files_ok_def)
  show "pipe_ok p s'" if "p < NPIPE" for p by (rule assms(6) [OF that])
  fix c
  assume "console_file s' = Some c"
  then show "c < NFILE" "f_kind (files s' ! c) = FILE_CONSOLE"
    using assms(1-3, 7) l by (cases "c = i"; auto simp: files_ok_def)+
qed

lemma pipe_ok_same:
  assumes "pipe_ok p s" "pipes s' ! p = pipes s ! p" "ends FILE_PIPE_R p s' = ends FILE_PIPE_R p s" "ends FILE_PIPE_W p s' = ends FILE_PIPE_W p s"
  shows "pipe_ok p s'"
  using assms by (simp add: pipe_ok_def)

text \<open>Replacing a file that is no end of a pipe by another.\<close>

lemma files_ok_swap:
  assumes "files_ok s" "i < NFILE" "\<And>k p. k = FILE_PIPE_R \<or> k = FILE_PIPE_W \<Longrightarrow> is_end k p (g (files s ! i)) = is_end k p (files s ! i)"
    "file_ok (g (files s ! i))" "console_file s = Some i \<longrightarrow> f_kind (g (files s ! i)) = FILE_CONSOLE"
  shows "files_ok (on_file i g s)"
proof (rule files_ok_replace [OF assms(1, 2), where f = "g (files s ! i)"])
  fix p
  assume p: "p < NPIPE"
  have "i < length (files s)" using assms(1, 2) by (simp add: files_ok_def)
  then have "ends k p (on_file i g s) = ends k p s" if "k = FILE_PIPE_R \<or> k = FILE_PIPE_W" for k
    using ends_on_file assms(3) [OF that] by simp
  then show "pipe_ok p (on_file i g s)" using assms(1) p pipe_ok_same [of p s "on_file i g s"] by (simp add: files_ok_def)
qed (use assms in \<open>simp_all add: files_ok_def\<close>)

text \<open>Changing an open file without changing what it is.\<close>

lemma files_ok_on_file:
  assumes "files_ok s" "\<And>f. f_kind (g f) = f_kind f \<and> f_pipe (g f) = f_pipe f \<and> f_refs f \<le> f_refs (g f)"
  shows "files_ok (on_file i g s)"
proof (cases "i < NFILE")
  case True
  then have "file_ok (files s ! i)" using assms(1) by (simp add: files_ok_def)
  then have "file_ok (g (files s ! i))" using assms(2) [of "files s ! i"] unfolding file_ok_def by (auto split: option.splits)
  then show ?thesis using files_ok_swap [OF assms(1) True, of g] assms by (simp add: is_end_def files_ok_def)
next
  case False
  then have "length (files s) \<le> i" using assms(1) by (simp add: files_ok_def)
  then show ?thesis using files_ok_cong [OF assms(1), of "on_file i g s"] by (simp add: list_update_beyond)
qed

lemma file_alloc_cases:
  assumes "file_alloc k p s = (r, s')"
  obtains "r = None" "s' = s"
  | i where "r = Some i" "i < NFILE" "f_kind (files s ! i) = FILE_FREE"
      "s' = on_file i (fresh_file k p) s"
proof (cases "List.find (\<lambda>i. f_kind (files s ! i) = FILE_FREE) [0..<NFILE]")
  case None
  then show ?thesis using assms that(1) by (simp add: file_alloc_def)
next
  case (Some i)
  then have "i < NFILE" "f_kind (files s ! i) = FILE_FREE" by (auto simp: find_Some_iff)
  then show ?thesis using assms that(2) [of i] Some by (simp add: file_alloc_def)
qed

lemma file_alloc_ok:
  assumes "files_ok s" "file_alloc k None s = (r, s')" "k \<noteq> FILE_PIPE_R" "k \<noteq> FILE_PIPE_W" "k \<noteq> FILE_FREE"
  shows "files_ok s' \<and> console_file s' = console_file s \<and> pipes s' = pipes s \<and> (\<forall>i. r = Some i \<longrightarrow> i < NFILE \<and> f_kind (files s' ! i) = k)"
  using assms(2)
proof (rule file_alloc_cases)
  fix i
  assume a: "r = Some i" "i < NFILE" "f_kind (files s ! i) = FILE_FREE"
      "s' = on_file i (fresh_file k None) s"
  then have i: "i < length (files s)" "console_file s \<noteq> Some i" using assms(1) by (auto simp: files_ok_def)
  have "files_ok s'" unfolding a(4) by (rule files_ok_swap [OF assms(1) a(2)]) (use assms(3-5) a(3) i in \<open>auto simp: is_end_def file_ok_def fresh_file_def\<close>)
  then show ?thesis using a i by (simp add: fresh_file_def)
qed (use assms in auto)

lemma open_as_ok:
  assumes "files_ok s" "open_as k g s = (r, s')" "k \<noteq> FILE_PIPE_R" "k \<noteq> FILE_PIPE_W" "k \<noteq> FILE_FREE"
    "\<And>f. f_kind (g f) = f_kind f \<and> f_pipe (g f) = f_pipe f \<and> f_refs f \<le> f_refs (g f)"
  shows "files_ok s'"
proof -
  obtain q s1 where a: "file_alloc k None s = (q, s1)" by fastforce
  have "files_ok s1" using file_alloc_ok [OF assms(1) a assms(3-5)] by blast
  then show ?thesis using assms(2, 6) a files_ok_on_file [of s1 g] by (auto simp: open_as_def split: option.splits)
qed

lemma open_mem_ok:
  assumes "files_ok s" "open_mem name mode s = (r, s')"
  shows "files_ok s'"
proof -
  have m: "files_ok (on_mem i g s)" for i g using files_ok_cong [OF assms(1)] by simp
  show ?thesis using assms file_alloc_ok [OF m, where k = FILE_MEM] files_ok_on_file
    by (fastforce simp: open_mem_def Let_def split: option.splits prod.splits)
qed

lemma open_read_ok:
  assumes "files_ok s" "open_read name dk s = Some (r, s')" "\<And>k ff. dk = Found k ff \<Longrightarrow> k = FILE_FAT \<or> k = FILE_FATDIR"
  shows "files_ok s'"
  using assms open_as_ok [OF assms(1), of _ _ r s']
  by (fastforce simp: open_read_def split: option.splits on_disk.splits prod.splits if_splits)

lemma open_disk_same:
  assumes "open_disk name mode ab s = Some (r, s')"
  shows "files s' = files s \<and> pipes s' = pipes s \<and> console_file s' = console_file s \<and> (\<forall>k ff. r = Found k ff \<longrightarrow> k = FILE_FAT \<or> k = FILE_FATDIR)"
  using assms by (fastforce simp: open_disk_def Let_def split: if_splits option.splits prod.splits)

lemma file_open_ok:
  assumes "files_ok s" "file_open path mode s = Some (r, s')"
  shows "files_ok s'"
proof -
  obtain dk s1 where d: "open_disk (skip_slash path) mode (path \<noteq> [] \<and> hd path = 47) s = Some (dk, s1)"
    using assms(2) by (auto simp: file_open_def Let_def split: option.splits)
  have ok: "files_ok s1" using files_ok_cong [OF assms(1)] open_disk_same [OF d] by blast
  have rest: "files_ok s'" if "(if mode \<noteq> OPEN_READ then Some (open_mem (skip_slash path) mode s1) else open_read (skip_slash path) dk s1) = Some (r, s')"
    using that open_mem_ok [OF ok, of "skip_slash path" mode r s'] open_read_ok [OF ok, of "skip_slash path" dk r s'] open_disk_same [OF d]
    by (cases "mode = OPEN_READ") simp_all
  show ?thesis
  proof (cases dk)
    case (Writing ff)
    then show ?thesis using assms(2) d open_as_ok [OF ok, of FILE_FAT] by (fastforce simp: file_open_def Let_def)
  qed (use assms(2) d rest ok in \<open>cases "mode = OPEN_READ"; simp add: file_open_def Let_def\<close>)+
qed

lemma file_console_ok:
  assumes "files_ok s"
  shows "files_ok (snd (file_console s))"
proof (cases "console_file s")
  case None
  obtain r s1 where a: "file_alloc FILE_CONSOLE None s = (r, s1)" by fastforce
  note a' = file_alloc_ok [OF assms a]
  have p: "pipe_ok p (s1\<lparr>console_file := r\<rparr>) = pipe_ok p s1" for p by (simp add: pipe_ok_def ends_def)
  have "files_ok s1" "\<forall>i. r = Some i \<longrightarrow> i < NFILE \<and> f_kind (files s1 ! i) = FILE_CONSOLE" using a' by simp_all
  then have "files_ok (s1\<lparr>console_file := r\<rparr>)" unfolding files_ok_def p by simp
  then show ?thesis using None a by (simp add: file_console_def)
next
  case (Some c)
  then show ?thesis using files_ok_on_file [OF assms, of "\<lambda>f. f\<lparr>f_refs := f_refs f + 1\<rparr>" c] by (simp add: file_console_def)
qed

lemma file_ref_ok: "files_ok s \<Longrightarrow> files_ok (file_ref i s)"
  unfolding file_ref_def by (rule files_ok_on_file) simp_all

lemma pipe_ok_at: "files_ok s \<Longrightarrow> p < NPIPE \<Longrightarrow> pipe_ok p s"
  by (simp add: files_ok_def)

lemma files_ok_len: "files_ok s \<Longrightarrow> length (files s) = NFILE \<and> length (pipes s) = NPIPE"
  by (simp add: files_ok_def)

lemma file_close_ok:
  assumes "files_ok s" "i < NFILE" "f_kind (files s ! i) \<noteq> FILE_FREE" "file_close d i s = Some s'"
  shows "files_ok s'"
proof -
  let ?f = "files s ! i"
  let ?s0 = "on_file i (\<lambda>f. f\<lparr>f_refs := f_refs f - 1\<rparr>) s"
  have l: "i < length (files s)" "length (pipes s) = NPIPE" using files_ok_len [OF assms(1)] assms(2) by simp_all
  have fo: "file_ok ?f" using assms(1, 2) by (simp add: files_ok_def)
  show ?thesis
  proof (cases "f_refs ?f - 1 > 0")
    case True
    then have "file_ok (?f\<lparr>f_refs := f_refs ?f - 1\<rparr>)" using fo assms(3) by (simp add: file_ok_def split: option.splits)
    then have "files_ok ?s0" using assms(1) by (intro files_ok_swap [OF assms(1, 2)]) (simp_all add: is_end_def files_ok_def)
    then show ?thesis using assms(4) True l by (simp add: file_close_def Let_def)
  next
    case False
    let ?s1 = "release_file i ?s0"
    let ?g = "?f\<lparr>f_refs := f_refs ?f - 1, f_kind := FILE_FREE, f_pipe := None, f_sock := None, f_conn := None\<rparr>"
    have fs: "files ?s1 = (files s)[i := ?g]" "console_file ?s1 = (if console_file s = Some i then None else console_file s)"
      using l by (simp_all add: release_file_def Let_def close_end_def split: option.split)
    have ends: "ends k q ?s1 = ends k q s - (if is_end k q ?f then 1 else 0)" if "k \<noteq> FILE_FREE" for k q
      using that length_filter_update [OF l(1), of "is_end k q" ?g] by (simp add: ends_def fs(1) is_end_def)
    have po: "pipe_ok q ?s1" if q: "q < NPIPE" for q
    proof (cases "f_pipe ?f = Some q")
      case False
      then have "pipes ?s1 ! q = pipes s ! q" using l by (auto simp: release_file_def Let_def close_end_def split: option.split)
      moreover have "ends k q ?s1 = ends k q s" if "k \<noteq> FILE_FREE" for k using ends [OF that] False by (simp add: is_end_def)
      ultimately show ?thesis using pipe_ok_same [OF pipe_ok_at [OF assms(1) q]] by simp
    next
      case True
      then have k: "f_kind ?f = FILE_PIPE_R \<or> f_kind ?f = FILE_PIPE_W" using fo assms(3) by (simp add: file_ok_def)
      then have pos: "0 < ends (f_kind ?f) q s" using ends_pos [OF l(1)] True by (simp add: is_end_def)
      then have u: "p_used (pipes s ! q)" "readers (pipes s ! q) = ends FILE_PIPE_R q s" "writers (pipes s ! q) = ends FILE_PIPE_W q s" "p_inv (pipes s ! q)"
        using pipe_ok_at [OF assms(1) q] k by (auto simp: pipe_ok_def split: if_splits)
      have "pipes ?s1 ! q = (let r = (if f_kind ?f = FILE_PIPE_R then (pipes s ! q)\<lparr>readers := readers (pipes s ! q) - 1\<rparr>
          else (pipes s ! q)\<lparr>writers := writers (pipes s ! q) - 1\<rparr>) in if readers r \<le> 0 \<and> writers r \<le> 0 then r\<lparr>p_used := False\<rparr> else r)"
        using l q True by (simp add: release_file_def Let_def close_end_def)
      then show ?thesis using k u True pos ends_nonneg [of FILE_PIPE_R q s] ends_nonneg [of FILE_PIPE_W q s]
        by (auto simp: pipe_ok_def ends is_end_def p_inv_def Let_def)
    qed
    have "files_ok ?s1"
    proof (rule files_ok_replace [OF assms(1, 2) fs(1)])
      show "length (pipes ?s1) = NPIPE" using l by (simp add: release_file_def Let_def close_end_def split: option.split)
    qed (use po fs(2) in \<open>auto simp: file_ok_def\<close>)
    then show ?thesis using assms(4) False l
      by (auto simp: file_close_def Let_def split: option.splits if_splits intro: files_ok_cong)
  qed
qed

text \<open>A pipe that nobody has open may hold anything.\<close>

lemma unused_pipe_ok:
  assumes "files_ok s" "p < NPIPE" "\<not> p_used (pipes s ! p)" "p_inv q" "\<not> p_used q"
  shows "files_ok (on_pipe p (\<lambda>_. q) s)"
proof -
  have l: "length (pipes s) = NPIPE" using files_ok_len [OF assms(1)] by simp
  have "pipe_ok r (on_pipe p (\<lambda>_. q) s)" if "r < NPIPE" for r
    using pipe_ok_at [OF assms(1) that] assms(2-5) l ends_files [of "on_pipe p (\<lambda>_. q) s" s] by (cases "r = p") (simp_all add: pipe_ok_def)
  then show ?thesis using assms(1) l by (simp add: files_ok_def)
qed

text \<open>An end is added to a pipe, and its count with it.\<close>

lemma add_end_ok:
  assumes "files_ok s" "p < NPIPE" "i < NFILE" "f_kind (files s ! i) = FILE_FREE" "k = FILE_PIPE_R \<or> k = FILE_PIPE_W" "p_inv q" "p_used q"
    "readers q = ends FILE_PIPE_R p s + (if k = FILE_PIPE_R then 1 else 0)" "writers q = ends FILE_PIPE_W p s + (if k = FILE_PIPE_W then 1 else 0)"
  shows "files_ok (on_file i (fresh_file k (Some p)) (on_pipe p (\<lambda>_. q) s))" (is "files_ok ?t")
proof (rule files_ok_replace [OF assms(1, 3), where f = "fresh_file k (Some p) (files s ! i)"])
  have l: "i < length (files s)" "length (pipes s) = NPIPE" using files_ok_len [OF assms(1)] assms(3) by simp_all
  have e: "ends e r ?t = ends e r s + (if e = k \<and> r = p then 1 else 0)" if "e \<noteq> FILE_FREE" for e r
    using ends_on_file [of i "on_pipe p (\<lambda>_. q) s" e r "fresh_file k (Some p)"] ends_files [of "on_pipe p (\<lambda>_. q) s" s e r] that l(1) assms(4)
    by (auto simp: is_end_def fresh_file_def)
  show "pipe_ok r ?t" if "r < NPIPE" for r
    using pipe_ok_at [OF assms(1) that] assms(2, 5-9) l that ends_nonneg [of FILE_PIPE_R p s] ends_nonneg [of FILE_PIPE_W p s]
    by (cases "r = p") (auto simp: pipe_ok_def e)
  have "console_file s \<noteq> Some i" using assms(1, 4) by (auto simp: files_ok_def)
  then show "console_file ?t = None \<or> (console_file ?t = console_file s \<and> (console_file s = Some i \<longrightarrow> f_kind (fresh_file k (Some p) (files s ! i)) = FILE_CONSOLE)) \<or>
     (console_file ?t = Some i \<and> f_kind (fresh_file k (Some p) (files s ! i)) = FILE_CONSOLE)" by simp
qed (use assms files_ok_len [OF assms(1)] in \<open>auto simp: file_ok_def fresh_file_def\<close>)

lemma file_pipe_ok:
  assumes "files_ok s"
  shows "files_ok (snd (file_pipe s))"
proof (cases "List.find (\<lambda>i. \<not> p_used (pipes s ! i)) [0..<NPIPE]")
  case None
  then show ?thesis using assms by (simp add: file_pipe_def)
next
  case (Some p)
  then have p: "p < NPIPE" "\<not> p_used (pipes s ! p)" by (auto simp: find_Some_iff)
  have l: "length (files s) = NFILE" "length (pipes s) = NPIPE" using files_ok_len [OF assms] by simp_all
  have z: "ends FILE_PIPE_R p s = 0" "ends FILE_PIPE_W p s = 0" and b: "length (p_buf (pipes s ! p)) = 4096"
    using pipe_ok_at [OF assms p(1)] p(2) by (simp_all add: pipe_ok_def p_inv_def)
  let ?q = "fresh_pipe (pipes s ! p)"
  have inv: "p_inv ?q" "p_used ?q" "readers ?q = 1" "writers ?q = 1" using b by (simp_all add: fresh_pipe_def p_inv_def)
  have off: "files_ok (on_pipe p (\<lambda>_. ?q\<lparr>p_used := False\<rparr>) s)"
    by (rule unused_pipe_ok [OF assms p]) (use inv in \<open>simp_all add: p_inv_def\<close>)
  obtain r s2 where a: "file_alloc FILE_PIPE_R (Some p) (on_pipe p fresh_pipe s) = (r, s2)" by fastforce
  show ?thesis using a
  proof (rule file_alloc_cases)
    assume "r = None" "s2 = on_pipe p fresh_pipe s"
    then show ?thesis using Some a off l p(1) by (simp add: file_pipe_def) (simp add: on_pipe_def)
  next
    fix i
    assume i: "r = Some i" "i < NFILE" "f_kind (files (on_pipe p fresh_pipe s) ! i) = FILE_FREE" "s2 = on_file i (fresh_file FILE_PIPE_R (Some p)) (on_pipe p fresh_pipe s)"
    have fi: "f_kind (files s ! i) = FILE_FREE" "console_file s \<noteq> Some i" using i(3) assms by (auto simp: files_ok_def)
    obtain w s3 where c: "file_alloc FILE_PIPE_W (Some p) s2 = (w, s3)" by fastforce
    show ?thesis using c
    proof (rule file_alloc_cases)
      assume "w = None" "s3 = s2"
      moreover have "on_pipe p (\<lambda>q. q\<lparr>p_used := False\<rparr>) (on_file i (\<lambda>f. f\<lparr>f_kind := FILE_FREE, f_refs := 0\<rparr>) s2) =
          on_file i (\<lambda>f. (fresh_file FILE_PIPE_R (Some p) f)\<lparr>f_kind := FILE_FREE, f_refs := 0\<rparr>) (on_pipe p (\<lambda>_. ?q\<lparr>p_used := False\<rparr>) s)"
        using l p(1) i(2) by (simp add: i(4) on_pipe_def on_file_def)
      moreover have "files_ok (on_file i (\<lambda>f. (fresh_file FILE_PIPE_R (Some p) f)\<lparr>f_kind := FILE_FREE, f_refs := 0\<rparr>) (on_pipe p (\<lambda>_. ?q\<lparr>p_used := False\<rparr>) s))"
        by (rule files_ok_swap [OF off i(2)]) (use fi in \<open>auto simp: is_end_def file_ok_def\<close>)
      ultimately show ?thesis using Some a c i(1) by (simp add: file_pipe_def)
    next
      fix j
      assume j: "w = Some j" "j < NFILE" "f_kind (files s2 ! j) = FILE_FREE" "s3 = on_file j (fresh_file FILE_PIPE_W (Some p)) s2"
      have ij: "j \<noteq> i" using j(3) i(2) l by (auto simp: i(4) fresh_file_def)
      define t where "t = on_file i (fresh_file FILE_PIPE_R (Some p)) (on_pipe p (\<lambda>_. ?q\<lparr>writers := 0\<rparr>) s)"
      have t: "files_ok t" unfolding t_def
        by (rule add_end_ok [OF assms p(1) i(2) fi(1)]) (use inv z in \<open>simp_all add: p_inv_def\<close>)
      have "ends k p t = ends k p s + (if k = FILE_PIPE_R then 1 else 0)" if "k \<noteq> FILE_FREE" for k
        using ends_on_file [of i "on_pipe p (\<lambda>_. ?q\<lparr>writers := 0\<rparr>) s" k p "fresh_file FILE_PIPE_R (Some p)"] that l i(2) fi(1)
          ends_files [of "on_pipe p (\<lambda>_. ?q\<lparr>writers := 0\<rparr>) s" s k p] by (auto simp: t_def is_end_def fresh_file_def)
      then have "files_ok (on_file j (fresh_file FILE_PIPE_W (Some p)) (on_pipe p (\<lambda>_. ?q) t))"
        by (intro add_end_ok [OF t p(1) j(2)]) (use inv z j(3) ij in \<open>simp_all add: i(4) t_def\<close>)
      moreover have "s3 = on_file j (fresh_file FILE_PIPE_W (Some p)) (on_pipe p (\<lambda>_. ?q) t)"
        using l p(1) ij by (simp add: j(4) i(4) t_def on_pipe_def on_file_def)
      ultimately show ?thesis using Some a c i(1) j(1) by (simp add: file_pipe_def)
    qed
  qed
qed

section \<open>Every operation keeps the counts\<close>

inductive file_step :: "kern \<Rightarrow> kern \<Rightarrow> bool" where
  opened: "file_open path mode s = Some (r, s') \<Longrightarrow> file_step s s'"
| console: "file_step s (snd (file_console s))"
| piping: "file_step s (snd (file_pipe s))"
| reffing: "i < NFILE \<Longrightarrow> f_kind (files s ! i) \<noteq> FILE_FREE \<Longrightarrow> file_step s (file_ref i s)"
| closing: "i < NFILE \<Longrightarrow> f_kind (files s ! i) \<noteq> FILE_FREE \<Longrightarrow> file_close d i s = Some s' \<Longrightarrow> file_step s s'"
| udp: "file_udp s = (r, s') \<Longrightarrow> file_step s s'"
| tcp: "file_tcp d s = Some (r, s') \<Longrightarrow> file_step s s'"
| adopting: "file_tcp_adopt d c s = Some (r, s') \<Longrightarrow> file_step s s'"
| got: "p < NPIPE \<Longrightarrow> pipe_read_turn p len w s = GotBytes n bs s' \<Longrightarrow> file_step s s'"
| reader_slept: "p < NPIPE \<Longrightarrow> pipe_read_turn p len w s = ReaderAsleep s' \<Longrightarrow> file_step s s'"
| wrote: "p < NPIPE \<Longrightarrow> pipe_write_turn p buf n w s = Wrote m s' \<Longrightarrow> file_step s s'"
| writer_slept: "p < NPIPE \<Longrightarrow> pipe_write_turn p buf n w s = WriterAsleep rest k s' \<Longrightarrow> file_step s s'"
| reading: "i < NFILE \<Longrightarrow> f_kind (files s ! i) \<noteq> FILE_PIPE_R \<Longrightarrow> file_read sc i len s = Some (x, s') \<Longrightarrow> file_step s s'"
| writing: "i < NFILE \<Longrightarrow> f_kind (files s ! i) \<noteq> FILE_PIPE_W \<Longrightarrow> file_write sc i buf s = Some (m, s') \<Longrightarrow> file_step s s'"
| listing: "file_getdents i len s = Some (x, s') \<Longrightarrow> file_step s s'"

lemma turn_ok:
  assumes "files_ok s" "p < NPIPE" "files s' = files s" "console_file s' = console_file s" "pipes s' = (pipes s)[p := q]" "p_inv q"
    "readers q = readers (pipes s ! p) \<and> writers q = writers (pipes s ! p) \<and> p_used q = p_used (pipes s ! p)"
  shows "files_ok s'"
proof (rule files_ok_pipes [OF assms(1, 3, 4)])
  show "length (pipes s') = length (pipes s)" using assms(5) by simp
  show "p_inv (pipes s' ! r) \<and> p_used (pipes s' ! r) = p_used (pipes s ! r) \<and> readers (pipes s' ! r) = readers (pipes s ! r) \<and>
       writers (pipes s' ! r) = writers (pipes s ! r)" if "r < NPIPE" for r
    using assms that files_ok_len [OF assms(1)] pipe_ok_at [OF assms(1) that] by (cases "r = p") (simp_all add: pipe_ok_def)
qed

lemma read_turn_ok:
  assumes "files_ok s" "p < NPIPE" "pipe_read_turn p len w s = GotBytes n bs s' \<or> pipe_read_turn p len w s = ReaderAsleep s'"
  shows "files_ok s'"
proof -
  obtain cs q where t: "pipe_take len (pipes s ! p) = (cs, q)" by fastforce
  have i: "p < length (pipes s)" "p_inv (pipes s ! p)" using files_ok_len [OF assms(1)] pipe_ok_at [OF assms(1, 2)] assms(2) by (simp_all add: pipe_ok_def)
  have "p_inv q" using pq.get_upto_spec [OF i(2), of len cs q] t by (simp add: pipe_take_queue)
  moreover have "readers q = readers (pipes s ! p) \<and> writers q = writers (pipes s ! p) \<and> p_used q = p_used (pipes s ! p)"
    using pipe_take_ends [of len "pipes s ! p"] t by simp
  ultimately show ?thesis
    using assms(3) turn_ok [OF assms(1, 2), of s' q] files_ok_cong [OF assms(1), of s'] assms(1) by (auto simp: pipe_read_turn_def t split: if_splits)
qed

lemma write_turn_ok:
  assumes "files_ok s" "p < NPIPE" "pipe_write_turn p buf n w s = Wrote r s' \<or> pipe_write_turn p buf n w s = WriterAsleep rest m s'"
  shows "files_ok s'"
proof -
  obtain cs q where t: "pipe_fill buf (pipes s ! p) = (cs, q)" by fastforce
  have i: "p < length (pipes s)" "p_inv (pipes s ! p)" using files_ok_len [OF assms(1)] pipe_ok_at [OF assms(1, 2)] assms(2) by (simp_all add: pipe_ok_def)
  have "p_inv q" using pq.put_all_spec [OF i(2) p_list_bounded [OF i(2)], of buf cs q] t by (simp add: pipe_fill_queue)
  moreover have "readers q = readers (pipes s ! p) \<and> writers q = writers (pipes s ! p) \<and> p_used q = p_used (pipes s ! p)"
    using pipe_fill_ends [of buf "pipes s ! p"] t by simp
  ultimately show ?thesis
    using assms(3) turn_ok [OF assms(1, 2), of s' q] files_ok_cong [OF assms(1), of s'] assms(1) by (auto simp: pipe_write_turn_def t Let_def split: if_splits)
qed

lemma file_read_ok:
  assumes "files_ok s" "i < NFILE" "f_kind (files s ! i) \<noteq> FILE_PIPE_R" "file_read sc i len s = Some (x, s')"
  shows "files_ok s'"
proof -
  have p: "f_kind (files s ! i) \<noteq> FILE_FREE \<Longrightarrow> f_kind (files s ! i) \<noteq> FILE_PIPE_W \<Longrightarrow> f_pipe (files s ! i) = None"
    using assms(1-3) by (auto simp: files_ok_def file_ok_def split: option.splits)
  have m: "files_ok (on_file j (\<lambda>f. f\<lparr>f_pos := v f\<rparr>) t)" if "files_ok t" for j v t using files_ok_on_file [OF that] by simp
  have c: "files_ok (s\<lparr>k_con := a\<rparr>)" "files_ok (s\<lparr>k_net := b\<rparr>)" "files_ok (s\<lparr>k_fat := d\<rparr>)" for a b d using files_ok_cong [OF assms(1)] by simp_all
  show ?thesis using assms(1, 4) p c m [OF assms(1)] m [OF c(3)]
    by (auto simp: file_read_def Let_def split: if_splits option.splits prod.splits)
qed

lemma file_write_ok:
  assumes "files_ok s" "i < NFILE" "f_kind (files s ! i) \<noteq> FILE_PIPE_W" "file_write sc i buf s = Some (m, s')"
  shows "files_ok s'"
proof -
  have p: "f_kind (files s ! i) \<noteq> FILE_FREE \<Longrightarrow> f_kind (files s ! i) \<noteq> FILE_PIPE_R \<Longrightarrow> f_pipe (files s ! i) = None"
    using assms(1-3) by (auto simp: files_ok_def file_ok_def split: option.splits)
  have w: "files_ok (on_mem j g (on_file i (\<lambda>f. f\<lparr>f_pos := v\<rparr>) s))" for j g v
    by (rule files_ok_cong [OF files_ok_on_file [OF assms(1), of "\<lambda>f. f\<lparr>f_pos := v\<rparr>" i]]) simp_all
  have c: "files_ok (s\<lparr>k_con := a\<rparr>)" "files_ok (s\<lparr>k_net := b\<rparr>)" "files_ok (s\<lparr>k_fat := d\<rparr>)" for a b d using files_ok_cong [OF assms(1)] by simp_all
  have f: "files_ok (on_file i (\<lambda>f. f\<lparr>f_fat := e, f_pos := v f\<rparr>) (s\<lparr>k_fat := d\<rparr>))" for e v d using files_ok_on_file [OF c(3)] by simp
  have f0: "files_ok (on_file i (\<lambda>f. f\<lparr>f_fat := e\<rparr>) (s\<lparr>k_fat := d\<rparr>))" for e d using files_ok_on_file [OF c(3)] by simp
  show ?thesis using assms(1, 4) p c w f f0
    by (auto simp: file_write_def mem_write_def Let_def split: if_splits option.splits prod.splits)
qed

lemma sockets_ok:
  assumes "files_ok s"
  shows "file_udp s = (r, s') \<Longrightarrow> files_ok s'" "file_tcp d s = Some (r, s') \<Longrightarrow> files_ok s'" "file_tcp_adopt d c s = Some (r, s') \<Longrightarrow> files_ok s'"
proof -
  have n: "files_ok (t\<lparr>k_net := n\<rparr>)" if "files_ok t" for t n using files_ok_cong [OF that] by simp
  have f: "files_ok (on_file i (\<lambda>x. x\<lparr>f_sock := k\<rparr>) t)" "files_ok (on_file i (\<lambda>x. x\<lparr>f_conn := k\<rparr>) t)" if "files_ok t" for t i k
    using files_ok_on_file [OF that] by simp_all
  have a: "files_ok t" if "file_alloc k None (s\<lparr>k_net := n\<rparr>) = (q, t)" "k = FILE_UDP \<or> k = FILE_TCP" for k n q t
    using file_alloc_ok [OF n [OF assms] that(1)] that(2) by auto
  have a0: "files_ok t" if "file_alloc FILE_TCP None s = (q, t)" for q t using file_alloc_ok [OF assms that] by auto
  show "file_udp s = (r, s') \<Longrightarrow> files_ok s'" using n [OF assms] n [OF a] f [OF a]
    by (fastforce simp: file_udp_def split: option.splits prod.splits)
  show "file_tcp d s = Some (r, s') \<Longrightarrow> files_ok s'" using n [OF assms] n [OF a] f [OF a]
    by (fastforce simp: file_tcp_def split: option.splits prod.splits)
  show "file_tcp_adopt d c s = Some (r, s') \<Longrightarrow> files_ok s'" using assms n [OF a0] f [OF a0]
    by (fastforce simp: file_tcp_adopt_def split: option.splits prod.splits)
qed

lemma file_getdents_ok:
  assumes "files_ok s" "file_getdents i len s = Some (x, s')"
  shows "files_ok s'"
proof -
  have "files_ok (s\<lparr>k_fat := v\<rparr>)" for v using files_ok_cong [OF assms(1)] by simp
  then have "files_ok (on_file i (\<lambda>f. f\<lparr>f_pos := p\<rparr>) (s\<lparr>k_fat := v\<rparr>))" for p v using files_ok_on_file by simp
  then show ?thesis using assms by (auto simp: file_getdents_def Let_def split: option.splits if_splits)
qed

lemma file_step_ok: "file_step s s' \<Longrightarrow> files_ok s \<Longrightarrow> files_ok s'"
  by (induction rule: file_step.induct)
    (blast intro: file_open_ok file_console_ok file_pipe_ok file_ref_ok file_close_ok sockets_ok read_turn_ok write_turn_ok file_read_ok file_write_ok
      file_getdents_ok)+

lemma file_steps_ok: "file_step\<^sup>*\<^sup>* s s' \<Longrightarrow> files_ok s \<Longrightarrow> files_ok s'"
  by (induction rule: rtranclp_induct) (use file_step_ok in blast)+

lemma no_ends: "ends k p s = 0 \<longleftrightarrow> (\<forall>i < length (files s). \<not> is_end k p (files s ! i))"
  by (simp add: ends_def filter_empty_conv all_set_conv_all_nth)

text \<open>C18: the end of a file is seen exactly when it is there. Whatever files are opened, shared, closed, read and written, the counts of a pipe are
  the numbers of its open ends. So a reader of a pipe is told the end exactly when the pipe is empty and every write end is closed,
  and a writer is told that it writes into nothing exactly when every read end is closed; a pipe with no end open is free.\<close>

theorem pipe_ends_counted:
  assumes "files_ok s0" "file_step\<^sup>*\<^sup>* s0 s" "p < NPIPE"
  shows "(p_used (pipes s ! p) \<longleftrightarrow> (\<exists>i < NFILE. is_end FILE_PIPE_R p (files s ! i) \<or> is_end FILE_PIPE_W p (files s ! i))) \<and>
    (p_used (pipes s ! p) \<longrightarrow>
       ((\<exists>s'. pipe_read_turn p (Suc len) w s = GotBytes 0 [] s') \<longleftrightarrow>
          p_list (pipes s ! p) = [] \<and> \<not> (\<exists>i < NFILE. is_end FILE_PIPE_W p (files s ! i))) \<and>
       ((\<exists>s'. pipe_write_turn p (c # buf) 0 w s = Wrote (-32) s') \<longleftrightarrow> \<not> (\<exists>i < NFILE. is_end FILE_PIPE_R p (files s ! i))))"
proof -
  have ok: "files_ok s" by (rule file_steps_ok [OF assms(2, 1)])
  have l: "length (files s) = NFILE" "p < length (pipes s)" using files_ok_len [OF ok] assms(3) by simp_all
  have po: "pipe_ok p s" by (rule pipe_ok_at [OF ok assms(3)])
  then have i: "p_inv (pipes s ! p)" by (simp add: pipe_ok_def)
  note z = no_ends [of FILE_PIPE_R p s] no_ends [of FILE_PIPE_W p s]
  have used: "p_used (pipes s ! p) \<longleftrightarrow> ends FILE_PIPE_R p s \<noteq> 0 \<or> ends FILE_PIPE_W p s \<noteq> 0"
    using po ends_nonneg [of FILE_PIPE_R p s] ends_nonneg [of FILE_PIPE_W p s] by (auto simp: pipe_ok_def split: if_splits)
  have counts: "readers (pipes s ! p) \<le> 0 \<longleftrightarrow> ends FILE_PIPE_R p s = 0" "writers (pipes s ! p) \<le> 0 \<longleftrightarrow> ends FILE_PIPE_W p s = 0" if "p_used (pipes s ! p)"
    using that po ends_nonneg [of FILE_PIPE_R p s] ends_nonneg [of FILE_PIPE_W p s] by (auto simp: pipe_ok_def)
  have R: "(\<exists>s'. pipe_read_turn p (Suc len) w s = GotBytes 0 [] s') \<longleftrightarrow> p_list (pipes s ! p) = [] \<and> writers (pipes s ! p) \<le> 0"
    using read_turn_queue [OF l(2) i, of "Suc len" w] by (cases "pipe_read_turn p (Suc len) w s") (auto simp: min_def split: if_splits)
  have W: "(\<exists>s'. pipe_write_turn p (c # buf) 0 w s = Wrote (-32) s') \<longleftrightarrow> readers (pipes s ! p) \<le> 0"
    by (auto simp: pipe_write_turn_def Let_def case_prod_unfold)
  show ?thesis unfolding R W using used counts z l(1) by auto
qed

section \<open>The holders of an open file\<close>

text \<open>Dropping a hold, as \<open>file_close\<close> does under the lock: the number of holders left.\<close>

definition drop_ref :: "kern \<Rightarrow> nat \<Rightarrow> nat \<times> kern" where
  "drop_ref s i =
     (let s0 = on_file i (\<lambda>f. f\<lparr>f_refs := f_refs f - 1\<rparr>) s; n = f_refs (files s0 ! i) in (nat n, if n > 0 then s0 else release_file i s0))"

interpretation open_file: holders "\<lambda>s i. nat (f_refs (files s ! i))" "\<lambda>s i. file_ref i s" drop_ref "\<lambda>s i. i < length (files s)" "2 ^ 31 - 1"
  by unfold_locales (auto simp: file_ref_def drop_ref_def Let_def nat_add_distrib nat_diff_distrib)

lemma file_close_drops:
  assumes "i < length (files s)" "0 < f_refs (files s ! i)" "file_close d i s = Some s'"
  shows "files s' = files (snd (drop_ref s i)) \<and> pipes s' = pipes (snd (drop_ref s i))"
  using assms by (auto simp: file_close_def drop_ref_def Let_def split: if_splits option.splits)

text \<open>A shared open file is closed by the last of its holders and by nobody before: over any run of shares and drops the answers are the balance,
  and the slot is released when it is zero.\<close>

lemma last_holder_closes:
  assumes "i < length (files s)" "f_refs (files s ! i) = int n" "live (2 ^ 31 - 1) hs n"
  shows "fst (hold_run (\<lambda>s i. file_ref i s) drop_ref i hs s) = answers hs n"
  using open_file.hold_run_answers [of i s n hs] assms by simp

section \<open>Memory files\<close>

definition mems_ok :: "kern \<Rightarrow> bool" where
  "mems_ok s \<longleftrightarrow> length (memfiles s) = NMEM \<and> (\<forall>m < NMEM. length (m_data (memfiles s ! m)) = MEM_SIZE \<and> unat (m_len (memfiles s ! m)) \<le> MEM_SIZE)"

lemma memfiles_simps [simp]:
  "memfiles (on_file i g s) = memfiles s" "memfiles (on_mem m h s) = (memfiles s)[m := h (memfiles s ! m)]"
  by (simp_all add: on_file_def on_mem_def)

lemma find_upt_update:
  assumes "List.find P [0..<n] = None \<or> List.find P [0..<n] = Some m" "m < n" "Q m" "\<And>i. i < n \<Longrightarrow> i \<noteq> m \<Longrightarrow> Q i = P i"
  shows "List.find Q [0..<n] = Some m"
proof (rule find_first_upt [where P = Q, OF assms(2, 3)], intro allI impI)
  fix j
  assume j: "j < m"
  have "\<not> P j" using assms(1)
  proof
    assume "List.find P [0..<n] = None"
    then show ?thesis using j assms(2) by (simp add: find_None_iff)
  next
    assume "List.find P [0..<n] = Some m"
    then obtain k where "k < n" "k = m" "\<forall>i < k. \<not> P i" by (auto simp: find_Some_iff)
    then show ?thesis using j by simp
  qed
  then show "\<not> Q j" using assms(2, 4) j by auto
qed

text \<open>Opening a memory file to write to it: its name finds it, and it is empty.\<close>

lemma open_mem_write:
  assumes "mems_ok s" "length (files s) = NFILE" "length name < NAME_MAX" "open_mem name OPEN_WRITE s = ((0, Some i), s')"
  shows "\<exists>m < NMEM. memfile_named name s' = Some m \<and> m_len (memfiles s' ! m) = 0 \<and> mems_ok s' \<and> i < length (files s') \<and> length (files s') = NFILE \<and>
    f_kind (files s' ! i) = FILE_MEM \<and> f_mem (files s' ! i) = Some m \<and> f_pos (files s' ! i) = 0 \<and> archive_size s' = archive_size s \<and> k_fat s' = k_fat s"
proof -
  let ?P = "\<lambda>j. m_used (memfiles s ! j) \<and> m_name (memfiles s ! j) = name"
  obtain m where m: "(case memfile_named name s of Some j \<Rightarrow> Some j | None \<Rightarrow> List.find (\<lambda>i. \<not> m_used (memfiles s ! i)) [0..<NMEM]) = Some m"
    using assms(4) by (auto simp: open_mem_def Let_def split: option.splits)
  then have mb: "m < NMEM" "List.find ?P [0..<NMEM] = None \<or> List.find ?P [0..<NMEM] = Some m"
    by (auto simp: memfile_named_def find_Some_iff split: option.splits)
  have l: "length (memfiles s) = NMEM" "m < length (memfiles s)" using assms(1) mb(1) by (simp_all add: mems_ok_def)
  define g where "g k = k\<lparr>m_name := take (NAME_MAX - 1) name, m_len := (if OPEN_WRITE = OPEN_WRITE \<or> \<not> m_used k then 0 else m_len k), m_used := True\<rparr>" for k :: memfile
  obtain r t where a: "file_alloc FILE_MEM None (on_mem m g s) = (r, t)" by fastforce
  have e: "r = Some i" "s' = on_file i (\<lambda>x. x\<lparr>f_mem := Some m, f_pos := 0\<rparr>) t"
    using assms(4) m a unfolding open_mem_def Let_def g_def by (auto simp: OPEN_WRITE_def OPEN_APPEND_def split: option.splits)
  have t: "i < NFILE" "t = on_file i (fresh_file FILE_MEM None) (on_mem m g s)" using a e(1) by (auto elim: file_alloc_cases)
  have ms: "memfiles s' = (memfiles s)[m := g (memfiles s ! m)]" by (simp add: e(2) t(2))
  have "memfile_named name s' = Some m"
    unfolding memfile_named_def using assms(3) l mb(1) by (intro find_upt_update [OF mb(2)]) (auto simp: ms g_def NAME_MAX_def)
  moreover have "mems_ok s'" using assms(1) l by (auto simp: mems_ok_def ms g_def nth_list_update)
  ultimately show ?thesis using mb(1) l assms(2) t(1)
    by (intro exI [of _ m]) (simp add: ms g_def e(2) t(2) fresh_file_def on_file_def on_mem_def)
qed

text \<open>Writing to it, and opening it to read.\<close>

lemma mem_write_first:
  assumes "mems_ok s" "m < NMEM" "f_pos (files s ! i) = 0" "m_len (memfiles s ! m) = 0" "mem_write i m buf s = (n, s')" "buf \<noteq> []"
  shows "n = int (min (length buf) 4096) \<and> unat (m_len (memfiles s' ! m)) = min (length buf) 4096 \<and>
    take (min (length buf) 4096) (m_data (memfiles s' ! m)) = take 4096 buf \<and> (\<forall>j. m_used (memfiles s' ! j) = m_used (memfiles s ! j)) \<and>
    (\<forall>j. m_name (memfiles s' ! j) = m_name (memfiles s ! j)) \<and> archive_size s' = archive_size s \<and> k_fat s' = k_fat s \<and>
    length (files s') = length (files s)"
proof -
  let ?n = "min (length buf) 4096"
  have l: "m < length (memfiles s)" "length (m_data (memfiles s ! m)) = 4096" using assms(1, 2) by (simp_all add: mems_ok_def MEM_SIZE_def)
  have u: "unat (of_nat ?n :: u64) = ?n" by (rule unat_of_nat_eq) simp
  have z: "0 < (of_nat ?n :: u64) \<longleftrightarrow> 0 < ?n" using u by (simp add: word_less_nat_alt)
  have d: "take ?n (splice 0 (take ?n buf) (m_data (memfiles s ! m))) = take ?n buf" by (simp add: splice_def)
  have c: "take ?n buf = take 4096 buf" by (simp add: min_def)
  have m: "memfiles s' = (memfiles s)[m := (memfiles s ! m)\<lparr>m_data := splice 0 (take ?n buf) (m_data (memfiles s ! m)), m_len := of_nat ?n\<rparr>]"
    using assms(3-6) l(1) z by (auto simp: mem_write_def Let_def MEM_SIZE_def word_less_nat_alt)
  then have "m_used (memfiles s' ! j) = m_used (memfiles s ! j) \<and> m_name (memfiles s' ! j) = m_name (memfiles s ! j)" for j
    using l(1) by (cases "j = m") simp_all
  moreover have "n = int ?n" using assms(3, 5, 6) by (auto simp: mem_write_def Let_def MEM_SIZE_def)
  moreover have "archive_size s' = archive_size s" "k_fat s' = k_fat s" "length (files s') = length (files s)"
    using assms(5) by (auto simp: mem_write_def Let_def on_mem_def on_file_def)
  ultimately show ?thesis using u d c m l(1) by simp
qed

lemma reading_disk: "open_disk name OPEN_READ ab s \<noteq> Some (Writing ff, s')" "open_disk name OPEN_READ ab s \<noteq> Some (Failed e, s')"
  by (auto simp: open_disk_def split: option.splits)

text \<open>A memory file keeps what is written to it. A program opens a name without a leading slash to write and writes to it; a program that opens the
  name to read, afterwards, reads the bytes written, from the beginning, whether or not the disk or the archive has the name too. At
  most 4096 bytes are kept, and the writer is told how many.\<close>

lemma memfile_round_trip:
  assumes "mems_ok s" "length (files s) = NFILE" "name \<noteq> []" "hd name \<noteq> 47" "length name < NAME_MAX" "buf \<noteq> []" "0 < len"
    and steps: "file_open name OPEN_WRITE s = Some ((0, Some i), s1)" "file_write sc i buf s1 = Some (n, s2)"
      "file_open name OPEN_READ s2 = Some ((0, Some j), s3)" "file_read sc' j len s3 = Some ((r, bs), s4)"
  shows "n = int (min (length buf) 4096) \<and> bs = take (unat len) (take 4096 buf) \<and> r = int (length bs)"
proof -
  have sk: "skip_slash name = name" using assms(3, 4) by (cases name) (simp_all add: skip_slash_def)
  have "open_disk name OPEN_WRITE False s = Some (Nothing, s)" by (simp add: open_disk_def OPEN_WRITE_def OPEN_READ_def)
  then have "open_mem name OPEN_WRITE s = ((0, Some i), s1)"
    using steps(1) assms(3, 4) by (simp add: file_open_def sk OPEN_WRITE_def OPEN_READ_def)
  then obtain m where m: "m < NMEM" "memfile_named name s1 = Some m" "m_len (memfiles s1 ! m) = 0" "mems_ok s1" "i < length (files s1)"
    "length (files s1) = NFILE" "f_kind (files s1 ! i) = FILE_MEM" "f_mem (files s1 ! i) = Some m" "f_pos (files s1 ! i) = 0"
    using open_mem_write [OF assms(1, 2, 5)] by blast
  have w: "mem_write i m buf s1 = (n, s2)" using steps(2) m(7, 8) by (simp add: file_write_def Let_def)
  note W = mem_write_first [OF m(4, 1, 9, 3) w assms(6)]
  have named: "memfile_named name s2 = Some m" using m(2) W by (simp add: memfile_named_def)
  obtain dk t where dk: "open_disk name OPEN_READ False s2 = Some (dk, t)" "open_read name dk t = Some ((0, Some j), s3)"
    using steps(3) assms(3, 4) reading_disk unfolding file_open_def sk by (fastforce split: option.splits on_disk.splits prod.splits)
  have t: "memfiles t = memfiles s2" "files t = files s2" using dk(1) by (auto simp: open_disk_def OPEN_READ_def split: if_splits option.splits)
  have "memfile_named name t = Some m" using named t(1) by (simp add: memfile_named_def)
  then have o: "open_as FILE_MEM (\<lambda>f. f\<lparr>f_mem := Some m, f_pos := 0\<rparr>) t = ((0, Some j), s3)" using dk(2) by (simp add: open_read_def)
  obtain q u where a: "file_alloc FILE_MEM None t = (q, u)" by fastforce
  have j: "q = Some j" "s3 = on_file j (\<lambda>f. f\<lparr>f_mem := Some m, f_pos := 0\<rparr>) u" using o a by (auto simp: open_as_def split: option.splits)
  have ju: "j < NFILE" "u = on_file j (fresh_file FILE_MEM None) t" using a j(1) by (auto elim: file_alloc_cases)
  have fj: "f_kind (files s3 ! j) = FILE_MEM" "f_mem (files s3 ! j) = Some m" "f_pos (files s3 ! j) = 0" "memfiles s3 = memfiles s2"
    using ju W m(6) t by (simp_all add: j(2) fresh_file_def)
  have "stored_bytes (files s3 ! j) len s3 = take (min (unat len) (min (length buf) 4096)) (m_data (memfiles s2 ! m))"
    using W by (simp add: stored_bytes_def fj Let_def)
  also have "\<dots> = take (unat len) (take (min (length buf) 4096) (m_data (memfiles s2 ! m)))" by (simp add: min.commute)
  also have "\<dots> = take (unat len) (take 4096 buf)" using W by simp
  finally have "stored_bytes (files s3 ! j) len s3 = take (unat len) (take 4096 buf)" .
  moreover have "len \<noteq> 0" using assms(7) by auto
  then have "bs = stored_bytes (files s3 ! j) len s3 \<and> r = int (length (stored_bytes (files s3 ! j) len s3))"
    using steps(4) by (auto simp: file_read_def fj Let_def)
  ultimately show ?thesis using W by metis
qed

section \<open>What the code does not guard\<close>

text \<open>\<open>file_alloc\<close> does not reset \<open>writable\<close>. A file on the disk that is opened for reading in a slot whose last user wrote to the
  disk can be written to.\<close>

lemma stale_writable:
  assumes "open_as FILE_FAT (\<lambda>f. f\<lparr>f_fat := ff, f_ro_len := ucast (fsize ff), f_pos := 0\<rparr>) s = ((0, Some i), s')" "i < length (files s)"
  shows "f_writable (files s' ! i) = f_writable (files s ! i)"
proof -
  obtain r t where a: "file_alloc FILE_FAT None s = (r, t)" by fastforce
  then have r: "r = Some i" "s' = on_file i (\<lambda>f. f\<lparr>f_fat := ff, f_ro_len := ucast (fsize ff), f_pos := 0\<rparr>) t"
    using assms(1) by (auto simp: open_as_def split: option.splits)
  from a show ?thesis by (rule file_alloc_cases) (use r assms(2) in \<open>auto simp: fresh_file_def\<close>)
qed

text \<open>A writer that fills a pipe goes to sleep without waking its readers: a thread asleep on the empty pipe stays asleep, so writing more than
  4095 bytes to a pipe whose reader is already waiting never ends.\<close>

lemma full_writer_wakes_nobody:
  assumes "pipe_write_turn p buf n w s = WriterAsleep rest m s'"
  shows "k_sched s' = thread_block_on_pipe (PipeObject p) (on_cpu_no w) (at_time w) (at_sp w) (k_sched s)"
  using assms by (auto simp: pipe_write_turn_def Let_def block_on_pipe_def on_pipe_def split: if_splits prod.splits)

section \<open>A small kernel\<close>

text \<open>Nothing is open except pipe 0, which has both ends.\<close>

definition idle_pipe :: pipe where
  "idle_pipe = \<lparr>p_buf = replicate 4096 0, p_head = 0, p_tail = 0, readers = 0, writers = 0, p_used = False\<rparr>"

definition idle_file :: file_t where
  "idle_file = \<lparr>f_refs = 0, f_kind = FILE_FREE, f_pipe = None, f_mem = None, f_ro = 0, f_ro_len = 0, f_fat = root_file demo_vol, f_sock = None,
     f_conn = None, f_writable = False, f_pos = 0\<rparr>"

definition idle_kern :: kern where
  "idle_kern = \<lparr>k_con = demo_con, k_fat = demo_vol\<lparr>mounted := False\<rparr>, k_net = host_a, k_sched = demo_sched, k_mem = (\<lambda>_. 0), pipes = replicate 8 idle_pipe,
     files = replicate 32 idle_file, console_file = None,
     memfiles = replicate 4 \<lparr>m_name = [], m_data = replicate 4096 0, m_len = 0, m_used = False\<rparr>, archive_addr = 0, archive_size = 0\<rparr>"

abbreviation boot_cpu :: place where "boot_cpu \<equiv> \<lparr>on_cpu_no = 0, at_time = 0, at_sp = 0\<rparr>"

definition piped :: kern where "piped = snd (file_pipe idle_kern)"

lemma idle_ok: "files_ok idle_kern" "mems_ok idle_kern" "length (files idle_kern) = NFILE"
proof -
  have "ends k p idle_kern = 0" for k p by (simp add: no_ends) (simp add: idle_kern_def idle_file_def is_end_def)
  then have "pipe_ok p idle_kern" if "p < NPIPE" for p
    unfolding pipe_ok_def using that by (simp add: idle_kern_def NPIPE_def idle_pipe_def p_inv_def)
  then show "files_ok idle_kern" "mems_ok idle_kern" "length (files idle_kern) = NFILE"
    by (simp_all add: files_ok_def mems_ok_def) (simp_all add: idle_kern_def idle_file_def file_ok_def NFILE_def NPIPE_def NMEM_def MEM_SIZE_def)
qed

lemma find_zero: "0 < n \<Longrightarrow> P 0 \<Longrightarrow> List.find P [0..<n] = Some 0"
  by (rule find_first_upt) simp_all

lemma piped_pipe: "pipes piped ! 0 = fresh_pipe idle_pipe" "length (pipes piped) = 8"
proof -
  let ?s = "on_pipe 0 fresh_pipe idle_kern"
  let ?s2 = "on_file 0 (fresh_file FILE_PIPE_R (Some 0)) ?s"
  have p: "List.find (\<lambda>i. \<not> p_used (pipes idle_kern ! i)) [0..<NPIPE] = Some 0"
    by (rule find_zero) (simp_all add: idle_kern_def NPIPE_def idle_pipe_def)
  have a: "file_alloc FILE_PIPE_R (Some 0) ?s = (Some 0, ?s2)"
    unfolding file_alloc_def by (subst find_zero) (simp_all add: NFILE_def idle_kern_def idle_file_def)
  have "List.find (\<lambda>i. f_kind (files ?s2 ! i) = FILE_FREE) [0..<NFILE] = Some 1"
    by (rule find_first_upt) (simp_all add: NFILE_def idle_kern_def idle_file_def fresh_file_def)
  then have e: "piped = on_file 1 (fresh_file FILE_PIPE_W (Some 0)) ?s2" using p a by (simp add: piped_def file_pipe_def file_alloc_def [of FILE_PIPE_W])
  show "pipes piped ! 0 = fresh_pipe idle_pipe" "length (pipes piped) = 8" unfolding e by (simp_all add: idle_kern_def)
qed

theorem pipe_ends_counted_witness:
  "p_used (pipes piped ! 0) \<and> (\<exists>i < NFILE. is_end FILE_PIPE_R 0 (files piped ! i) \<or> is_end FILE_PIPE_W 0 (files piped ! i))"
proof -
  have "file_step\<^sup>*\<^sup>* idle_kern piped" unfolding piped_def by (rule r_into_rtranclp) (rule file_step.piping)
  then show ?thesis using pipe_ends_counted [OF idle_ok(1), of piped 0] piped_pipe by (simp add: NPIPE_def fresh_pipe_def)
qed

text \<open>Three bytes are written and two are read.\<close>

theorem pipe_fifo_witness:
  "\<exists>s. (pipe_step 0)\<^sup>*\<^sup>* (piped, [], []) (s, [1, 2, 3], [1, 2]) \<and> [1, 2, 3] = [1, 2] @ p_list (pipes s ! 0)"
proof -
  have inv: "0 < length (pipes piped)" "p_inv (pipes piped ! 0)" "p_list (pipes piped ! 0) = []" "readers (pipes piped ! 0) = 1"
    using piped_pipe by (simp_all add: fresh_pipe_def idle_pipe_def p_inv_def p_list_def ring_list_def ring_count_def)
  obtain rest q where f: "pipe_fill [1, 2, 3] (pipes piped ! 0) = (rest, q)" by fastforce
  have q: "rest = []" "p_list q = [1, 2, 3]" using pq.put_all_spec [of "pipes piped ! 0" "[1, 2, 3]" rest q] inv f by (simp_all add: pipe_fill_queue)
  define s1 where "s1 = wake_pipe 0 (on_pipe 0 (\<lambda>_. q) piped)"
  have "pipe_write_turn 0 [1, 2, 3] 0 boot_cpu piped = Wrote 3 s1" using f q inv(4) by (simp add: pipe_write_turn_def s1_def)
  from pipe_step.wrote [OF this, of "[]" "[]"] have w: "pipe_step 0 (piped, [], []) (s1, [1, 2, 3], [])" by (simp add: numeral_3_eq_3)
  have s1: "0 < length (pipes s1)" "p_inv (pipes s1 ! 0)" "p_list (pipes s1 ! 0) = [1, 2, 3]"
    using pipe_step_in_step [OF w] inv by (simp_all add: in_step_def)
  obtain r bs s2 where g: "pipe_read_turn 0 2 boot_cpu s1 = GotBytes r bs s2" "bs = [1, 2]"
    using read_turn_queue [OF s1(1, 2), of 2 boot_cpu] s1(3) by (cases "pipe_read_turn 0 2 boot_cpu s1") auto
  have run: "(pipe_step 0)\<^sup>*\<^sup>* (piped, [], []) (s2, [1, 2, 3], [1, 2])"
    using w pipe_step.got [OF g(1), of "[1, 2, 3]" "[]"] g(2) by (auto intro: converse_rtranclp_into_rtranclp)
  then show ?thesis using pipe_fifo [OF run inv(1-3)] by auto
qed

lemma alloc_first:
  assumes "i < NFILE" "f_kind (files s ! i) = FILE_FREE" "\<forall>j < i. f_kind (files s ! j) \<noteq> FILE_FREE"
  shows "file_alloc k p s = (Some i, on_file i (fresh_file k p) s)"
  using find_first_upt [of i NFILE "\<lambda>i. f_kind (files s ! i) = FILE_FREE"] assms by (simp add: file_alloc_def)

end
