(* ===== verification/Elf.thy ===== *)
theory Elf
  imports Signals
begin

text \<open>
  Executables: the kernel's loader (\<open>stam/elf.c\<close>) with the capability manifest it reads from a note, and the writer of the \<open>sav\<close>
  compiler (\<open>sav/src/elf.c\<close>), which puts the manifest there.

  The image is bytes of memory from an address on, and every offset is 64-bit arithmetic on addresses as in the code. The loader stores
  through user addresses of the space being filled; a store in the upper half goes to the kernel's own memory, a store at an address that
  neither half has, or that is not mapped, is \<open>None\<close>, a fault at EL1. The bytes of the image are taken as they were when the loader
  was called. The lines it prints are left out.

  The lemmas show that the manifest the compiler writes is the one the kernel reads, so that exactly the calls written are allowed.
  Where the segments go is the subject of the theory \<open>Loading\<close>.
\<close>

section \<open>The manifest\<close>

definition PT_LOAD :: u32 where "PT_LOAD = 1"
definition PT_NOTE :: u32 where "PT_NOTE = 4"
definition PF_X :: u32 where "PF_X = 1"
definition SAV_NOTE_TYPE :: u32 where "SAV_NOTE_TYPE = 1"
definition SAV_MAGIC :: u32 where "SAV_MAGIC = 0x31564153"
definition SAV_MAX_CALLS :: u32 where "SAV_MAX_CALLS = 48"
definition SAV_CAPS_BYTES :: nat where "SAV_CAPS_BYTES = 64"

definition no_manifest :: sav_manifest where
  "no_manifest = \<lparr>sav_present = False, sav_calls = [], sav_caps = []\<rparr>"

definition sav_allows :: "sav_manifest \<Rightarrow> u64 \<Rightarrow> bool" where
  "sav_allows m nr \<longleftrightarrow> \<not> sav_present m \<or> ucast nr \<in> set (sav_calls m)"

text \<open>The names with spaces for the NULs between them, and none at the end.\<close>

definition caps_line :: "bytes \<Rightarrow> bytes" where
  "caps_line bs = rev (dropWhile (\<lambda>c. c = 32) (rev (map (\<lambda>c. if c = 0 then 32 else c) bs)))"

definition read_sav_note :: "mem \<Rightarrow> u64 \<Rightarrow> u64 \<Rightarrow> u64 \<Rightarrow> u64 \<Rightarrow> sav_manifest \<Rightarrow> sav_manifest" where
  "read_sav_note m e sz off len out =
     (if off + len > sz \<or> len < 16 then out
      else let n = e + off; namesz = rd32 m n; descsz = rd32 m (n + 4); type = rd32 m (n + 8);
               desc_at = 12 + ucast ((namesz + 3) AND NOT 3)
           in if desc_at + ucast descsz > len then out
              else if type \<noteq> SAV_NOTE_TYPE \<or> namesz \<noteq> 4 then out
              else if \<not> (m (n + 12) = 115 \<and> m (n + 13) = 97 \<and> m (n + 14) = 118 \<and> m (n + 15) = 0) then out
              else let d = n + desc_at
                   in if descsz < 16 \<or> rd32 m d \<noteq> SAV_MAGIC \<or> rd32 m (d + 4) \<noteq> 1 then out
                      else let ncalls = rd32 m (d + 8); nameslen = rd32 m (d + 12)
                           in if 16 + ucast ncalls * 4 + ucast nameslen > (ucast descsz :: u64) then out
                              else if ncalls > SAV_MAX_CALLS then out
                              else \<lparr>sav_present = True,
                                    sav_calls = map (\<lambda>i. rd32 m (d + 16 + of_nat i * 4)) [0..<unat ncalls],
                                    sav_caps = caps_line (map (\<lambda>k. m (d + (16 + ucast ncalls * 4 + of_nat k)))
                                      [0..<min (unat nameslen) (SAV_CAPS_BYTES - 1)])\<rparr>)"

section \<open>Loading\<close>

text \<open>A byte store by the kernel with the space \<open>tb\<close> installed.\<close>

definition set_byte :: "u64 \<Rightarrow> nat \<Rightarrow> u8 \<Rightarrow> u64" where
  "set_byte w i b = (w AND NOT (push_bit (8 * i) 255)) OR push_bit (8 * i) (ucast b)"

definition store_byte :: "u64 \<Rightarrow> u64 \<Rightarrow> u8 \<Rightarrow> pmm \<Rightarrow> pmm option" where
  "store_byte tb a b p =
     (case (if a \<ge> KVA_OFFSET then Some a else if a \<ge> USER_LIMIT then None else user_ptr tb a p) of
        None \<Rightarrow> None
      | Some k \<Rightarrow> Some (p\<lparr>pm := (pm p)(k AND NOT 7 := set_byte (pm p (k AND NOT 7)) (unat (k AND 7)) b)\<rparr>))"

primrec store_bytes :: "u64 \<Rightarrow> u64 \<Rightarrow> bytes \<Rightarrow> pmm \<Rightarrow> pmm option" where
  "store_bytes tb a [] p = Some p"
| "store_bytes tb a (b # bs) p = (case store_byte tb a b p of None \<Rightarrow> None | Some q \<Rightarrow> store_bytes tb (a + 1) bs q)"

text \<open>A fresh page behind every page of a segment; -1 when there is no memory for one.\<close>

primrec map_pages :: "u64 \<Rightarrow> bool \<Rightarrow> u64 list \<Rightarrow> pmm \<Rightarrow> int \<times> pmm" where
  "map_pages tb x [] p = (0, p)"
| "map_pages tb x (va # vas) p =
     (let (page, p1) = alloc_page p
      in if page = 0 then (-1, p1)
         else let (r, p2) = map_user_page tb va page x p1 in if r \<noteq> 0 then (-1, p2) else map_pages tb x vas p2)"

text \<open>The addresses of the loop over the pages of a segment.\<close>

definition segment_pages :: "u64 \<Rightarrow> u64 \<Rightarrow> u64 list" where
  "segment_pages vaddr memsz =
     (let first = vaddr AND NOT (PAGE_SIZE - 1); last = (vaddr + memsz + PAGE_SIZE - 1) AND NOT (PAGE_SIZE - 1)
      in if first < last then map (\<lambda>i. first + of_nat i * PAGE_SIZE) [0..<unat ((last - first) div PAGE_SIZE)] else [])"

definition load_segment :: "u64 \<Rightarrow> mem \<Rightarrow> u64 \<Rightarrow> u64 \<Rightarrow> u64 \<Rightarrow> pmm \<Rightarrow> (int \<times> pmm) option" where
  "load_segment tb m e sz ph p =
     (let flags = rd32 m (ph + 4); offset = rd64 m (ph + 8); vaddr = rd64 m (ph + 16); filesz = rd64 m (ph + 32); memsz = rd64 m (ph + 40)
      in if offset + filesz > sz then Some (-1, p)
         else if memsz < filesz then Some (-1, p)
         else let (r, p1) = map_pages tb (flags AND PF_X \<noteq> 0) (segment_pages vaddr memsz) p
              in if r \<noteq> 0 then Some (-1, p1)
                 else map_option (\<lambda>p2. (0, p2)) (store_bytes tb vaddr (map (\<lambda>i. m (e + offset + of_nat i)) [0..<unat filesz]) p1))"

text \<open>The loop over the program headers, with the manifest found so far and the number of segments loaded.\<close>

primrec load_headers ::
  "nat list \<Rightarrow> u64 \<Rightarrow> mem \<Rightarrow> u64 \<Rightarrow> u64 \<Rightarrow> u64 \<Rightarrow> u16 \<Rightarrow> sav_manifest \<Rightarrow> nat \<Rightarrow> pmm \<Rightarrow> ((int \<times> sav_manifest \<times> nat) \<times> pmm) option" where
  "load_headers [] tb m e sz phoff phent man n p = Some ((0, man, n), p)"
| "load_headers (i # is) tb m e sz phoff phent man n p =
     (let ph = e + phoff + of_nat i * ucast phent
      in if rd32 m ph = PT_NOTE then
           load_headers is tb m e sz phoff phent (read_sav_note m e sz (rd64 m (ph + 8)) (rd64 m (ph + 32)) man) n p
         else if rd32 m ph \<noteq> PT_LOAD then load_headers is tb m e sz phoff phent man n p
         else (case load_segment tb m e sz ph p of
                 None \<Rightarrow> None
               | Some (r, p1) \<Rightarrow> if r \<noteq> 0 then Some ((-1, man, n), p1) else load_headers is tb m e sz phoff phent man (Suc n) p1))"

text \<open>The value returned, the entry point and the manifest.\<close>

definition elf_load :: "u64 \<Rightarrow> mem \<Rightarrow> u64 \<Rightarrow> u64 \<Rightarrow> pmm \<Rightarrow> ((int \<times> u64 \<times> sav_manifest) \<times> pmm) option" where
  "elf_load tb m e sz p =
     (if sz < 64 \<or> \<not> (m e = 0x7f \<and> m (e + 1) = 69 \<and> m (e + 2) = 76 \<and> m (e + 3) = 70) \<or> m (e + 4) \<noteq> 2 \<or> m (e + 5) \<noteq> 1 \<or>
         rd16 m (e + 18) \<noteq> 183 then Some ((-1, 0, no_manifest), p)
      else let phoff = rd64 m (e + 32); phent = rd16 m (e + 54); phnum = rd16 m (e + 56)
           in if phnum = 0 \<or> phoff + ucast phnum * ucast phent > sz then Some ((-1, 0, no_manifest), p)
              else case load_headers [0..<unat phnum] tb m e sz phoff phent no_manifest 0 p of
                None \<Rightarrow> None
              | Some ((r, man, n), p1) \<Rightarrow>
                  if r \<noteq> 0 \<or> n = 0 then Some ((-1, 0, man), p1) else Some ((0, rd64 m (e + 24), man), p1))"

section \<open>Writing\<close>

text \<open>What the code generator hands to the writer. The lengths are those of the lists.\<close>

record image =
  i_text :: bytes
  bss_size :: u64
  rodata_off :: u64
  i_entry :: u64
  text_vaddr :: u64
  data_vaddr :: u64
  i_syscalls :: "u32 list"
  i_capnames :: "bytes list"

definition BASE_VA :: u64 where "BASE_VA = 0x400000"

definition pad_to :: "nat \<Rightarrow> bytes \<Rightarrow> bytes" where
  "pad_to n bs = bs @ replicate (n - length bs) 0"

definition build_note :: "image \<Rightarrow> bytes" where
  "build_note img =
     (let names = concat (map (\<lambda>c. c @ [0]) (i_capnames img));
          desc = 16 + length (i_syscalls img) * 4 + length names; desc_pad = (desc + 3) div 4 * 4
      in pad_to (16 + desc_pad)
           (le_bytes 4 (4 :: u32) @ le_bytes 4 (of_nat desc_pad :: u32) @ le_bytes 4 (1 :: u32) @ [115, 97, 118, 0] @
            le_bytes 4 (0x31564153 :: u32) @ le_bytes 4 (1 :: u32) @ le_bytes 4 (of_nat (length (i_syscalls img)) :: u32) @
            le_bytes 4 (of_nat (length names) :: u32) @ concat (map (le_bytes 4) (i_syscalls img)) @ names))"

definition phdr :: "u32 \<Rightarrow> u32 \<Rightarrow> u64 \<Rightarrow> u64 \<Rightarrow> u64 \<Rightarrow> u64 \<Rightarrow> u64 \<Rightarrow> bytes" where
  "phdr type flags off va filesz memsz align =
     le_bytes 4 type @ le_bytes 4 flags @ le_bytes 8 off @ le_bytes 8 va @ le_bytes 8 va @ le_bytes 8 filesz @ le_bytes 8 memsz @ le_bytes 8 align"

definition shdr :: "u32 \<Rightarrow> u32 \<Rightarrow> u64 \<Rightarrow> u64 \<Rightarrow> u64 \<Rightarrow> u64 \<Rightarrow> u64 \<Rightarrow> bytes" where
  "shdr name type flags addr off sz align =
     le_bytes 4 name @ le_bytes 4 type @ le_bytes 8 flags @ le_bytes 8 addr @ le_bytes 8 off @ le_bytes 8 sz @
     le_bytes 4 (0 :: u32) @ le_bytes 4 (0 :: u32) @ le_bytes 8 align @ le_bytes 8 (0 :: u64)"

text \<open>The names of the sections, a NUL after each.\<close>

definition shstr :: bytes where
  "shstr = [0] @ [46, 116, 101, 120, 116, 0] @ [46, 114, 111, 100, 97, 116, 97, 0] @ [46, 110, 111, 116, 101, 46, 115, 97, 118, 0] @
     [46, 98, 115, 115, 0] @ [46, 115, 104, 115, 116, 114, 116, 97, 98, 0]"

definition elf_ident :: bytes where
  "elf_ident = [0x7f, 69, 76, 70, 2, 1, 1, 0] @ replicate 8 0"

definition elf_header :: "u64 \<Rightarrow> u64 \<Rightarrow> bytes" where
  "elf_header entry sh_off =
     elf_ident @ le_bytes 2 (2 :: u16) @ le_bytes 2 (183 :: u16) @ le_bytes 4 (1 :: u32) @ le_bytes 8 entry @ le_bytes 8 (64 :: u64) @ le_bytes 8 sh_off @
     le_bytes 4 (0 :: u32) @ le_bytes 2 (64 :: u16) @ le_bytes 2 (56 :: u16) @ le_bytes 2 (3 :: u16) @ le_bytes 2 (64 :: u16) @ le_bytes 2 (6 :: u16) @
     le_bytes 2 (5 :: u16)"

text \<open>The contents of the file; \<open>None\<close> when the code would overlap the headers.\<close>

definition write_elf :: "image \<Rightarrow> bytes option" where
  "write_elf img =
     (let note = build_note img; text_off = text_vaddr img - BASE_VA
      in if text_off < 232 then None
         else let note_off = (unat text_off + length (i_text img) + 3) div 4 * 4;
                  seg1 = note_off + length note; data_off = (seg1 + 4095) div 4096 * 4096;
                  rodata_sz = of_nat (length (i_text img)) - rodata_off img;
                  sh_off = (data_off + length shstr + 7) div 8 * 8;
                  hdrs = elf_header (i_entry img) (of_nat sh_off) @
                    phdr PT_LOAD 5 0 BASE_VA (of_nat seg1) (of_nat seg1) 4096 @
                    phdr PT_LOAD 6 (of_nat data_off) (data_vaddr img) 0 (bss_size img) 4096 @
                    phdr PT_NOTE 4 (of_nat note_off) (BASE_VA + of_nat note_off) (of_nat (length note)) (of_nat (length note)) 4
              in Some (pad_to sh_off (pad_to data_off (pad_to note_off (pad_to (unat text_off) hdrs @ i_text img) @ note) @ shstr) @
                   shdr 0 0 0 0 0 0 0 @
                   shdr 1 1 6 (text_vaddr img) text_off (rodata_off img) 4 @
                   shdr 7 1 2 (text_vaddr img + rodata_off img) (text_off + rodata_off img) rodata_sz 8 @
                   shdr 15 7 2 (BASE_VA + of_nat note_off) (of_nat note_off) (of_nat (length note)) 4 @
                   shdr 25 8 3 (data_vaddr img) (of_nat data_off) (bss_size img) 8 @
                   shdr 30 3 0 0 (of_nat data_off) (of_nat (length shstr)) 1))"

section \<open>Fields of a file in memory\<close>

lemma rd16_holds: "holds_at m a (le_bytes 2 v) \<Longrightarrow> rd16 m a = v"
  using holds_atD [of m a "le_bytes 2 v" 0] holds_atD [of m a "le_bytes 2 v" 1] by (simp add: rd16_def)

lemma rd32_holds: "holds_at m a (le_bytes 4 v) \<Longrightarrow> rd32 m a = v"
  using holds_atD [of m a "le_bytes 4 v" 0] holds_atD [of m a "le_bytes 4 v" 1] holds_atD [of m a "le_bytes 4 v" 2] holds_atD [of m a "le_bytes 4 v" 3]
  by (simp add: rd32_def)

lemma rd64_holds: "holds_at m a (le_bytes 8 v) \<Longrightarrow> rd64 m a = v"
  using holds_atD [of m a "le_bytes 8 v" 0] holds_atD [of m a "le_bytes 8 v" 1] holds_atD [of m a "le_bytes 8 v" 2] holds_atD [of m a "le_bytes 8 v" 3]
    holds_atD [of m a "le_bytes 8 v" 4] holds_atD [of m a "le_bytes 8 v" 5] holds_atD [of m a "le_bytes 8 v" 6] holds_atD [of m a "le_bytes 8 v" 7]
  by (simp add: rd64_def)

lemmas rd_holds = rd16_holds rd32_holds rd64_holds

lemma holds_at_words:
  "holds_at m a (concat (map (le_bytes 4) vs)) \<Longrightarrow> map (\<lambda>i. rd32 m (a + of_nat i * 4)) [0..<length vs] = vs"
proof (induction vs arbitrary: a)
  case (Cons v vs)
  then have h: "rd32 m a = v" "holds_at m (a + 4) (concat (map (le_bytes 4) vs))" by (simp_all add: holds_at_append rd32_holds)
  have e: "a + 4 + of_nat i * 4 = a + of_nat (Suc i) * 4" for i :: nat by (simp add: algebra_simps)
  have "[0..<length (v # vs)] = 0 # map Suc [0..<length vs]" by (simp add: upt_conv_Cons map_Suc_upt del: upt_Suc)
  then show ?case using h(1) Cons.IH [OF h(2)] unfolding e by (simp add: comp_def del: upt_Suc of_nat_Suc)
qed simp

lemma length_words [simp]: "length (concat (map (le_bytes 4) vs)) = length vs * 4"
  by (induction vs) simp_all

text \<open>The note of the compiler, as the loader reads it.\<close>

definition names_of :: "image \<Rightarrow> bytes" where
  "names_of img = concat (map (\<lambda>c. c @ [0]) (i_capnames img))"

definition manifest_of :: "image \<Rightarrow> sav_manifest" where
  "manifest_of img = \<lparr>sav_present = True, sav_calls = i_syscalls img, sav_caps = caps_line (take (SAV_CAPS_BYTES - 1) (names_of img))\<rparr>"

lemma read_note:
  assumes h: "holds_at m (e + off) (build_note img)" and len: "length (build_note img) < 2 ^ 31" "length (i_syscalls img) \<le> 48"
    and inside: "\<not> off + of_nat (length (build_note img)) > sz"
  shows "read_sav_note m e sz off (of_nat (length (build_note img))) out = manifest_of img"
proof -
  let ?calls = "i_syscalls img"
  define n where "n = e + off"
  define names where "names = names_of img"
  define desc where "desc = 16 + length ?calls * 4 + length names"
  define pad where "pad = (desc + 3) div 4 * 4"
  have pad: "desc \<le> pad" "16 \<le> pad" by (auto simp: pad_def desc_def)
  have nt: "build_note img = (le_bytes 4 (4 :: u32) @ le_bytes 4 (of_nat pad :: u32) @ le_bytes 4 (1 :: u32) @ [115, 97, 118, 0] @
      le_bytes 4 (0x31564153 :: u32) @ le_bytes 4 (1 :: u32) @ le_bytes 4 (of_nat (length ?calls) :: u32) @
      le_bytes 4 (of_nat (length names) :: u32) @ concat (map (le_bytes 4) ?calls) @ names) @ replicate (pad - desc) 0"
    by (simp add: build_note_def Let_def pad_to_def names_def names_of_def desc_def pad_def)
  have L: "length (build_note img) = 16 + pad" unfolding nt using pad by (simp add: desc_def)
  have f: "rd32 m n = 4" "rd32 m (n + 4) = of_nat pad" "rd32 m (n + 8) = 1" "m (n + 12) = 115" "m (n + 13) = 97" "m (n + 14) = 118" "m (n + 15) = 0"
    "rd32 m (n + 16) = 0x31564153" "rd32 m (n + 20) = 1" "rd32 m (n + 24) = of_nat (length ?calls)" "rd32 m (n + 28) = of_nat (length names)"
    and c: "holds_at m (n + 32) (concat (map (le_bytes 4) ?calls))" "holds_at m (n + 32 + of_nat (length ?calls * 4)) names"
    using h unfolding n_def [symmetric] nt by (simp_all add: holds_at_append rd_holds add.assoc)
  have b: "pad < 2 ^ 31" "length ?calls < 2 ^ 31" "length names < 2 ^ 31" "desc < 2 ^ 31" using len L pad by (simp_all add: desc_def)
  have u: "(ucast (of_nat pad :: u32) :: u64) = of_nat pad" "(ucast (of_nat (length ?calls) :: u32) :: u64) = of_nat (length ?calls)"
    "(ucast (of_nat (length names) :: u32) :: u64) = of_nat (length names)" by (rule ucast_of_nat_small; use b in simp)+
  have un: "unat (of_nat (length ?calls) :: u32) = length ?calls" "unat (of_nat (length names) :: u32) = length names" "unat (of_nat pad :: u32) = pad"
    by (rule unat_of_nat_eq; use b in simp)+
  have cmp: "\<not> of_nat (length (build_note img)) < (16 :: u64)" "\<not> 16 + of_nat pad > (of_nat (length (build_note img)) :: u64)"
    "\<not> of_nat pad < (16 :: u32)" "\<not> of_nat (length ?calls) > SAV_MAX_CALLS"
    "\<not> 16 + of_nat (length ?calls) * 4 + of_nat (length names) > (of_nat pad :: u64)"
  proof -
    have "unat (of_nat (16 + pad) :: u64) = 16 + pad" "unat (of_nat pad :: u64) = pad" "unat (of_nat desc :: u64) = desc"
      by (rule unat_of_nat_eq; use b in simp)+
    moreover have "(16 + of_nat (length ?calls) * 4 + of_nat (length names) :: u64) = of_nat desc" by (simp add: desc_def)
    ultimately show "\<not> of_nat (length (build_note img)) < (16 :: u64)" "\<not> 16 + of_nat pad > (of_nat (length (build_note img)) :: u64)"
      "\<not> of_nat pad < (16 :: u32)" "\<not> of_nat (length ?calls) > SAV_MAX_CALLS"
      "\<not> 16 + of_nat (length ?calls) * 4 + of_nat (length names) > (of_nat pad :: u64)"
      using pad un len(2) by (simp_all add: L word_less_nat_alt SAV_MAX_CALLS_def)
  qed
  have caps: "map (\<lambda>k. m (n + (32 + (of_nat (length ?calls) * 4 + of_nat k)))) [0..<min (length names) 63] = take 63 names"
  proof (rule nth_equalityI)
    fix k
    assume "k < length (map (\<lambda>k. m (n + (32 + (of_nat (length ?calls) * 4 + of_nat k)))) [0..<min (length names) 63])"
    then show "map (\<lambda>k. m (n + (32 + (of_nat (length ?calls) * 4 + of_nat k)))) [0..<min (length names) 63] ! k = take 63 names ! k"
      using holds_atD [OF c(2), of k] by (simp add: add.assoc)
  qed (simp add: min.commute)
  have calls: "map (\<lambda>i. rd32 m (n + (32 + of_nat i * 4))) [0..<length ?calls] = ?calls" using holds_at_words [OF c(1)] by (simp add: add.assoc)
  have mask: "(4 + 3 :: u32) AND NOT 3 = 4" by simp
  show ?thesis
    unfolding read_sav_note_def Let_def n_def [symmetric] f(1-3) mask using inside cmp(1-3)
    by (simp add: f u un cmp(4) cmp(5) [unfolded add.assoc] calls caps add.assoc manifest_of_def names_def [symmetric] SAV_NOTE_TYPE_def SAV_MAGIC_def SAV_CAPS_BYTES_def)
qed

section \<open>A compiled program in memory\<close>

lemma length_headers [simp]: "length (elf_header entry sh) = 64" "length (phdr t fl off va fs ms al) = 56"
  by (simp_all add: elf_header_def elf_ident_def phdr_def)

lemma write_elf_parts:
  assumes "write_elf img = Some file"
  obtains note_off seg1 data_off sh mid rest where
    "file = elf_header (i_entry img) sh @ phdr PT_LOAD 5 0 BASE_VA (of_nat seg1) (of_nat seg1) 4096 @
       phdr PT_LOAD 6 (of_nat data_off) (data_vaddr img) 0 (bss_size img) 4096 @
       phdr PT_NOTE 4 (of_nat note_off) (BASE_VA + of_nat note_off) (of_nat (length (build_note img))) (of_nat (length (build_note img))) 4 @
       mid @ build_note img @ rest"
    "note_off = 232 + length mid" "seg1 = note_off + length (build_note img)" "seg1 \<le> data_off" "data_off \<le> length file"
    "\<exists>tail. mid = replicate (unat (text_vaddr img - BASE_VA) - 232) 0 @ i_text img @ tail" "232 \<le> unat (text_vaddr img - BASE_VA)"
    "note_off \<le> unat (text_vaddr img - BASE_VA) + length (i_text img) + 3"
proof -
  define t where "t = unat (text_vaddr img - BASE_VA)"
  define note_off where "note_off = (t + length (i_text img) + 3) div 4 * 4"
  define seg1 where "seg1 = note_off + length (build_note img)"
  define data_off where "data_off = (seg1 + 4095) div 4096 * 4096"
  have ok: "\<not> text_vaddr img - BASE_VA < 232" using assms by (auto simp: write_elf_def Let_def split: if_splits)
  then have t: "232 \<le> t" unfolding t_def by (simp add: word_less_nat_alt not_less)
  have le: "t + length (i_text img) \<le> note_off" "seg1 \<le> data_off" by (auto simp: note_off_def data_off_def)
  define sh where "sh = (of_nat ((data_off + length shstr + 7) div 8 * 8) :: u64)"
  define mid where "mid = replicate (t - 232) 0 @ i_text img @ replicate (note_off - (t + length (i_text img))) (0 :: u8)"
  have "\<exists>rest. file = elf_header (i_entry img) sh @ phdr PT_LOAD 5 0 BASE_VA (of_nat seg1) (of_nat seg1) 4096 @
       phdr PT_LOAD 6 (of_nat data_off) (data_vaddr img) 0 (bss_size img) 4096 @
       phdr PT_NOTE 4 (of_nat note_off) (BASE_VA + of_nat note_off) (of_nat (length (build_note img))) (of_nat (length (build_note img))) 4 @
       mid @ build_note img @ replicate (data_off - seg1) 0 @ rest"
    using assms ok t le
    by (auto simp: write_elf_def Let_def pad_to_def t_def [symmetric] note_off_def [symmetric] seg1_def [symmetric] data_off_def [symmetric]
        sh_def [symmetric] mid_def simp del: of_nat_add of_nat_mult)
  then obtain rest where f: "file = elf_header (i_entry img) sh @ phdr PT_LOAD 5 0 BASE_VA (of_nat seg1) (of_nat seg1) 4096 @
       phdr PT_LOAD 6 (of_nat data_off) (data_vaddr img) 0 (bss_size img) 4096 @
       phdr PT_NOTE 4 (of_nat note_off) (BASE_VA + of_nat note_off) (of_nat (length (build_note img))) (of_nat (length (build_note img))) 4 @
       mid @ build_note img @ replicate (data_off - seg1) 0 @ rest" ..
  show thesis
    by (rule that [OF f]) (use t le f in \<open>auto simp: mid_def seg1_def t_def [symmetric] note_off_def\<close>)
qed

text \<open>The fields of the headers, where the loader reads them.\<close>

lemma phdr_fields:
  assumes "holds_at m ph (phdr t fl off va fs ms al)"
  shows "rd32 m ph = t" "rd32 m (ph + 4) = fl" "rd64 m (ph + 8) = off" "rd64 m (ph + 16) = va" "rd64 m (ph + 32) = fs" "rd64 m (ph + 40) = ms"
  using assms by (simp_all add: phdr_def holds_at_append rd_holds add.assoc)

lemma elf_header_fields:
  assumes "holds_at m e (elf_header entry sh)"
  shows "m e = 0x7f" "m (e + 1) = 69" "m (e + 2) = 76" "m (e + 3) = 70" "m (e + 4) = 2" "m (e + 5) = 1" "rd16 m (e + 18) = 183"
    "rd64 m (e + 24) = entry" "rd64 m (e + 32) = 64" "rd16 m (e + 54) = 56" "rd16 m (e + 56) = 3"
  using assms by (simp_all add: elf_header_def elf_ident_def holds_at_append rd_holds add.assoc numeral_eq_Suc)

lemma compiled_headers:
  assumes w: "write_elf img = Some file" and h: "holds_at m e file" and len: "length file < 2 ^ 31" and calls: "length (i_syscalls img) \<le> 48"
  shows "rd32 m (e + 64) = PT_LOAD" "rd32 m (e + 64 + 56) = PT_LOAD" "rd32 m (e + 64 + 112) = PT_NOTE"
    "read_sav_note m e (of_nat (length file)) (rd64 m (e + 64 + 112 + 8)) (rd64 m (e + 64 + 112 + 32)) out = manifest_of img"
    "\<exists>sh. holds_at m e (elf_header (i_entry img) sh)"
proof -
  obtain note_off seg1 data_off sh mid rest where f: "file = elf_header (i_entry img) sh @
      phdr PT_LOAD 5 0 BASE_VA (of_nat seg1) (of_nat seg1) 4096 @ phdr PT_LOAD 6 (of_nat data_off) (data_vaddr img) 0 (bss_size img) 4096 @
      phdr PT_NOTE 4 (of_nat note_off) (BASE_VA + of_nat note_off) (of_nat (length (build_note img))) (of_nat (length (build_note img))) 4 @
      mid @ build_note img @ rest" and off: "note_off = 232 + length mid"
    using write_elf_parts [OF w] by metis
  define L where "L = length (build_note img)"
  have p: "holds_at m e (elf_header (i_entry img) sh)" "holds_at m (e + 64) (phdr PT_LOAD 5 0 BASE_VA (of_nat seg1) (of_nat seg1) 4096)"
    "holds_at m (e + 64 + 56) (phdr PT_LOAD 6 (of_nat data_off) (data_vaddr img) 0 (bss_size img) 4096)"
    "holds_at m (e + 64 + 112) (phdr PT_NOTE 4 (of_nat note_off) (BASE_VA + of_nat note_off) (of_nat L) (of_nat L) 4)"
    "holds_at m (e + of_nat note_off) (build_note img)"
    using h unfolding f L_def by (simp_all add: holds_at_append off add.assoc)
  have le: "note_off + L \<le> length file" by (simp add: f off L_def)
  have u: "unat (of_nat (note_off + L) :: u64) = note_off + L" "unat (of_nat (length file) :: u64) = length file"
    by (rule unat_of_nat_eq; use le len in simp)+
  have in_file: "\<not> of_nat note_off + of_nat L > (of_nat (length file) :: u64)" using u le by (simp add: word_less_nat_alt)
  show "rd32 m (e + 64) = PT_LOAD" "rd32 m (e + 64 + 56) = PT_LOAD" "rd32 m (e + 64 + 112) = PT_NOTE" "\<exists>sh. holds_at m e (elf_header (i_entry img) sh)"
    using phdr_fields(1) p(1-4) by blast+
  show "read_sav_note m e (of_nat (length file)) (rd64 m (e + 64 + 112 + 8)) (rd64 m (e + 64 + 112 + 32)) out = manifest_of img"
    unfolding phdr_fields(3,5) [OF p(4)] unfolding L_def by (rule read_note [OF p(5) _ calls]) (use in_file le len L_def in simp_all)
qed

lemma elf_load_compiled:
  assumes w: "write_elf img = Some file" "holds_at m e file" "length file < 2 ^ 31" "length (i_syscalls img) \<le> 48"
    and l: "elf_load tb m e (of_nat (length file)) p = Some ((0, entry, man), p')"
  shows "entry = i_entry img" "man = manifest_of img"
proof -
  obtain sh where hd: "holds_at m e (elf_header (i_entry img) sh)" using compiled_headers(5) [OF w] by blast
  have u: "[0..<unat (3 :: u16)] = [0, 1, 2]" by (simp add: upt_rec)
  note hf = elf_header_fields [OF hd] and ch = compiled_headers(1-4) [OF w]
  obtain n p1 where lh: "load_headers [0, 1, 2] tb m e (of_nat (length file)) 64 56 no_manifest 0 p = Some ((0, man, n), p1)" "entry = i_entry img"
    using l unfolding elf_load_def Let_def hf u by (auto split: if_splits option.splits simp del: load_headers.simps)
  show "entry = i_entry img" by (fact lh(2))
  show "man = manifest_of img"
    using lh(1) by (auto simp: ch [unfolded add.assoc, simplified] add.assoc PT_NOTE_def PT_LOAD_def split: option.splits if_splits)
qed

end
