(* ===== verification/Loading.thy ===== *)
theory Loading
  imports Elf
begin

text \<open>
  What \<open>stam/elf.c\<close> leaves in the space it fills: the proofs about \<open>elf_load\<close> that rest on the page tables of \<open>Vm\<close> and the
  allocator of \<open>Pmm\<close>.

  A space under construction is described by the pages behind its addresses, a map from page addresses to pages of memory. Mapping a fresh
  page and storing a byte are operations on that map, and the bytes a program will read are the ones the loader stored. The lemmas of
  the section before the last say which images get past the checks of the loader all the same.
\<close>

section \<open>Bytes of a word and words of a page\<close>

lemma byte_set_byte: "i < 8 \<Longrightarrow> j < 8 \<Longrightarrow> byte_of (set_byte w i b) j = (if j = i then b else byte_of w j)"
proof (rule bit_word_eqI)
  fix n assume ij: "i < 8" "j < 8" and "n < LENGTH(8)"
  then have n: "n < 8" by simp
  have m: "bit (255 :: u64) k \<longleftrightarrow> k < 8" for k
    using bit_mask_iff [where 'a = "64 word", of 8 k] by (auto simp: mask_eq_exp_minus_1)
  have k: "8 * j + n < 64" using ij n by linarith
  have same: "8 * i \<le> 8 * j + n \<and> 8 * j + n - 8 * i < 8 \<longleftrightarrow> j = i" using n by linarith
  show "bit (byte_of (set_byte w i b) j) n \<longleftrightarrow> bit (if j = i then b else byte_of w j) n"
  proof (cases "j = i")
    case True
    then show ?thesis using n k unfolding set_byte_def bit_byte_of bit_or_iff bit_and_iff bit_not_iff bit_push_bit_iff m
      by (auto simp: bit_unsigned_iff)
  next
    case False
    then have "\<not> (8 * i \<le> 8 * j + n \<and> 8 * j + n - 8 * i < 8)" using same by blast
    moreover have "bit (ucast b :: u64) l \<Longrightarrow> l < 8" for l by (auto simp: bit_unsigned_iff dest: bit_imp_le_length)
    ultimately show ?thesis using n k False unfolding set_byte_def bit_byte_of bit_or_iff bit_and_iff bit_not_iff bit_push_bit_iff m
      by auto
  qed
qed

lemma unat_and_mask: "unat (x AND mask k :: u64) = unat x mod 2 ^ k"
  by (simp add: take_bit_eq_mask [symmetric] unat_take_bit take_bit_eq_mod del: take_bit_eq_mod)

lemma masks: "(7 :: u64) = mask 3" "(4095 :: u64) = mask 12"
  by (simp_all add: mask_eq_exp_minus_1)

text \<open>The word and the byte of it behind an address of a page.\<close>

lemma page_byte:
  assumes "aligned pg"
  shows "(pg + (x AND 4095)) AND NOT 7 = pg + 8 * of_nat (unat x mod 4096 div 8)" "unat ((pg + (x AND 4095)) AND 7) = unat x mod 8"
proof -
  have o: "unat (x AND 4095) = unat x mod 4096" unfolding masks unat_and_mask by simp
  have al: "unat pg mod 4096 = 0" using assms by (simp add: aligned_iff)
  obtain q where q: "unat pg = 4096 * q" using al by (auto elim!: dvdE simp: mod_eq_0_iff_dvd)
  have "unat pg < 2 ^ LENGTH(64)" by (rule unsigned_less)
  then have "4096 * q < 4096 * 2 ^ 52" unfolding q by simp
  then have room: "unat pg + 4096 \<le> 2 ^ 64" using q by simp
  have u: "unat (pg + (x AND 4095)) = unat pg + unat x mod 4096"
    using room o by (subst unat_add_lem [THEN iffD1]) auto
  have "8 * (unat x mod 4096 div 8) \<le> unat x mod 4096" by (rule times_div_less_eq_dividend)
  then have lt: "8 * (unat x mod 4096 div 8) < 4096" by (rule order_le_less_trans) simp
  have w: "unat (of_nat (8 * (unat x mod 4096 div 8)) :: u64) = 8 * (unat x mod 4096 div 8)" by (rule unat_of_nat_eq) (use lt in simp)
  have w': "unat (pg + 8 * of_nat (unat x mod 4096 div 8)) = unat pg + 8 * (unat x mod 4096 div 8)"
    using w room lt by (subst unat_add_lem [THEN iffD1]) simp_all
  have p8: "(2 :: nat) ^ 3 = 8" by simp
  have aux: "(4096 * q + r) div 8 * 8 = 4096 * q + 8 * (r div 8)" for r :: nat
  proof -
    have "4096 * q + r = (512 * q) * 8 + r" by simp
    then have "(4096 * q + r) div 8 = 512 * q + r div 8" by (simp only: div_mult_self3 [of 8 "512 * q" r] mult.commute)
    then show ?thesis by simp
  qed
  show "(pg + (x AND 4095)) AND NOT 7 = pg + 8 * of_nat (unat x mod 4096 div 8)"
    unfolding word_unat_eq_iff masks(1) unat_and_not_mask w' u q p8 by (rule aux)
  have "(512 * q * 8 + unat x mod 4096) mod 8 = unat x mod 4096 mod 8" by (rule mod_mult_self3)
  then have "(4096 * q + unat x mod 4096) mod 8 = unat x mod 8" by (simp add: mod_mod_cancel)
  then show "unat ((pg + (x AND 4095)) AND 7) = unat x mod 8" unfolding masks(1) unat_and_mask u q p8 .
qed

section \<open>The pages behind a space\<close>

text \<open>
  The space of table \<open>tb\<close> in a state has exactly the pages \<open>Q\<close>: the page of memory behind each page address, each behind one address
  only and none of them a table.
\<close>

definition vpage :: "u64 \<Rightarrow> u64" where
  "vpage x = x AND NOT 4095"

definition space_pages :: "u64 \<Rightarrow> (u64 \<Rightarrow> u64 option) \<Rightarrow> pmm \<Rightarrow> bool" where
  "space_pages tb Q p \<longleftrightarrow>
     (\<exists>L2 L3 own fl. pmm_inv p own fl \<and> high_half p \<and> wf_space tb L2 L3 own p \<and> ran Q \<subseteq> own - insert tb (L2 \<union> L3)) \<and>
     (\<forall>u v g. Q u = Some g \<and> Q v = Some g \<longrightarrow> u = v) \<and>
     (\<forall>x. unat x < 2 ^ 39 \<longrightarrow> map_option (\<lambda>d. phys_to_kva (d AND ADDR_MASK)) (leaf tb x p) = Q (vpage x))"

lemma space_pagesI:
  assumes "pmm_inv p own fl" "high_half p" "wf_space tb L2 L3 own p" "ran Q \<subseteq> own - insert tb (L2 \<union> L3)"
    and "\<forall>u v g. Q u = Some g \<and> Q v = Some g \<longrightarrow> u = v"
    and "\<forall>x. unat x < 2 ^ 39 \<longrightarrow> map_option (\<lambda>d. phys_to_kva (d AND ADDR_MASK)) (leaf tb x p) = Q (vpage x)"
  shows "space_pages tb Q p"
  unfolding space_pages_def using assms by blast

lemma table_nonzero: "wf_space t L2 L3 own s \<Longrightarrow> t = mmu_current_user_table_kva t s'"
  by (simp add: wf_space_def mmu_current_user_table_kva_def)

text \<open>The kernel's address of a user byte, and the byte.\<close>

lemma space_pages_byte:
  assumes "space_pages tb Q p" "unat x < 2 ^ 39" "Q (vpage x) = Some g"
  shows "user_ptr tb x p = Some (g + (x AND 4095))" "aligned g"
    "user_byte tb x p = Some (byte_of (pm p (g + 8 * of_nat (unat x mod 4096 div 8))) (unat x mod 8))"
proof -
  obtain L2 L3 own fl where inv: "pmm_inv p own fl" "wf_space tb L2 L3 own p" "ran Q \<subseteq> own"
    using assms(1) unfolding space_pages_def by blast
  show al: "aligned g" using inv(1,3) assms(3) by (auto simp: pmm_inv_def taken_def ran_def)
  obtain d where d: "leaf tb x p = Some d" "phys_to_kva (d AND ADDR_MASK) = g"
    using assms unfolding space_pages_def by (metis (no_types, lifting) map_option_eq_Some)
  obtain slot where w: "walk_to_leaf tb x p = Some (slot, 4096)" "pm p slot = d"
    using d(1) unfolding leaf_def walk_wf(1) [OF inv(2) table_nonzero [OF inv(2)]] Let_def by (auto split: if_splits)
  have m: "d AND ADDR_MASK AND NOT (4096 - 1) = d AND ADDR_MASK"
  proof (rule bit_word_eqI)
    have e: "(4096 - 1 :: u64) = mask 12" using masks(2) by simp
    fix n show "bit (d AND ADDR_MASK AND NOT (4096 - 1)) n = bit (d AND ADDR_MASK) n"
      unfolding e bit_and_iff bit_not_iff bit_ADDR_MASK bit_mask_iff by auto
  qed
  have al': "aligned (d AND ADDR_MASK)" using al unfolding d(2) [symmetric] phys_to_kva_def by (simp only: aligned_kva_offset)
  show "user_ptr tb x p = Some (g + (x AND 4095))"
    using m d(2) by (simp add: user_ptr_def w phys_to_kva_def ac_simps)
  show "user_byte tb x p = Some (byte_of (pm p (g + 8 * of_nat (unat x mod 4096 div 8))) (unat x mod 8))"
  proof -
    have e: "(4096 - 1 :: u64) = 4095" by simp
    have g: "phys_to_kva ((d AND ADDR_MASK) + v) = g + v" for v unfolding d(2) [symmetric] by (simp add: phys_to_kva_def)
    show ?thesis unfolding user_byte_def w(1) Let_def option.case prod.case w(2) m unfolding e page_byte [OF al'] g ..
  qed
qed

lemma space_pages_none:
  assumes "space_pages tb Q p" "unat x < 2 ^ 39" "Q (vpage x) = None"
  shows "user_byte tb x p = None"
proof -
  have "map_option (\<lambda>d. phys_to_kva (d AND ADDR_MASK)) (leaf tb x p) = None" using assms by (simp add: space_pages_def)
  then show ?thesis by (simp add: user_byte_def leaf_def)
qed

lemma leaf_frame:
  assumes wf: "wf_space tb L2 L3 own p" "wf_space tb L2 L3 own' p'"
    and same: "\<And>q a. q \<in> insert tb (L2 \<union> L3) \<Longrightarrow> word_in q a \<Longrightarrow> pm p' a = pm p a"
  shows "leaf tb x p' = leaf tb x p"
proof (rule leaf_same [OF wf table_nonzero [OF wf(1)] table_nonzero [OF wf(1)]])
  note t = table_nonzero [OF wf(1)]
  show "pm p' (slot_of tb 30 x) = pm p (slot_of tb 30 x)" by (rule same [of tb]) simp_all
  let ?m = "table_at (pm p (slot_of tb 30 x))"
  assume n1: "pm p (slot_of tb 30 x) \<noteq> 0"
  show "pm p' (slot_of ?m 21 x) = pm p (slot_of ?m 21 x)" by (rule same [of ?m]) (use walk_wf(2) [OF wf(1) t n1] in simp_all)
  assume n2: "pm p (slot_of ?m 21 x) \<noteq> 0"
  show "pm p' (slot_of (table_at (pm p (slot_of ?m 21 x))) 12 x) = pm p (slot_of (table_at (pm p (slot_of ?m 21 x))) 12 x)"
    by (rule same [of "table_at (pm p (slot_of ?m 21 x))"]) (use walk_wf(3) [OF wf(1) t n1 n2] in simp_all)
qed

lemma space_pages_store:
  assumes sp: "space_pages tb Q p" and g: "Q u = Some g" and i: "i < 512"
  shows "space_pages tb Q (p\<lparr>pm := (pm p)(g + 8 * of_nat i := v)\<rparr>)"
proof -
  let ?p = "p\<lparr>pm := (pm p)(g + 8 * of_nat i := v)\<rparr>"
  obtain L2 L3 own fl where inv: "pmm_inv p own fl" "high_half p" "wf_space tb L2 L3 own p" "ran Q \<subseteq> own - insert tb (L2 \<union> L3)"
    using sp unfolding space_pages_def by blast
  have go: "g \<in> own" "g \<notin> insert tb (L2 \<union> L3)" using g inv(4) by (auto simp: ran_def)
  have al: "aligned q" if "q \<in> own" for q using that inv(1) by (auto simp: pmm_inv_def taken_def)
  have tables: "insert tb (L2 \<union> L3) \<subseteq> own" using inv(3) by (auto simp: wf_space_def)
  have same: "pm ?p a = pm p a" if "q \<in> insert tb (L2 \<union> L3)" "word_in q a" for q a
  proof -
    have "q \<in> own" using that(1) tables by blast
    moreover have "word_in g (g + 8 * of_nat i)" using i by (auto simp: word_in_def)
    ultimately have "a \<noteq> g + 8 * of_nat i" using word_in_unique [of q g a] that go al by auto
    then show ?thesis by simp
  qed
  have wf: "wf_space tb L2 L3 own ?p" by (rule wf_space_frame [OF inv(3)]) (blast intro: same)+
  have "leaf tb x ?p = leaf tb x p" for x by (rule leaf_frame [OF inv(3) wf]) (rule same)
  then show ?thesis
    using sp by (intro space_pagesI [OF store_inv [OF inv(1) go(1) i] _ wf inv(4)]) (simp_all add: inv(2) space_pages_def)
qed

lemma vpage_word:
  assumes "vpage x = vpage y" "unat x mod 4096 div 8 = unat y mod 4096 div 8" "unat x mod 8 = unat y mod 8"
  shows "x = y"
proof -
  have "unat x div 4096 * 4096 = unat y div 4096 * 4096" using assms(1) page_of_va(1) unfolding vpage_def by metis
  moreover have "unat z mod 4096 mod 8 = unat z mod 8" for z :: u64 by (simp add: mod_mod_cancel)
  then have "unat x mod 4096 = unat y mod 4096" using assms(2,3) by (metis div_mult_mod_eq)
  ultimately have "unat x = unat y" by (metis div_mult_mod_eq)
  then show ?thesis by (simp add: word_unat_eq_iff)
qed

lemma store_byte_page:
  assumes sp: "space_pages tb Q p" and a: "unat a < 2 ^ 39" and g: "Q (vpage a) = Some g"
  obtains q where "store_byte tb a b p = Some q" "space_pages tb Q q" "user_byte tb a q = Some b"
    "\<And>x. unat x < 2 ^ 39 \<Longrightarrow> x \<noteq> a \<Longrightarrow> user_byte tb x q = user_byte tb x p" "free_next q = free_next p" "free_top q = free_top p"
proof -
  define i where "i = unat a mod 4096 div 8"
  have i: "i < 512" using less_mult_imp_div_less [of "unat a mod 4096" 512 8] by (simp add: i_def)
  let ?w = "g + 8 * of_nat i"
  define q where "q = p\<lparr>pm := (pm p)(?w := set_byte (pm p ?w) (unat a mod 8) b)\<rparr>"
  note by_a = space_pages_byte [OF sp a g]
  have u: "\<not> a \<ge> KVA_OFFSET" "\<not> a \<ge> USER_LIMIT" using a by (simp_all add: word_le_nat_alt KVA_OFFSET_def USER_LIMIT_def)
  have st: "store_byte tb a b p = Some q"
    unfolding store_byte_def if_not_P [OF u(1)] if_not_P [OF u(2)] by_a(1) option.case page_byte [OF by_a(2)] q_def i_def ..
  have sq: "space_pages tb Q q" unfolding q_def by (rule space_pages_store [OF sp g i])
  have here: "user_byte tb a q = Some b"
    using space_pages_byte(3) [OF sq a g] by (simp add: q_def i_def byte_set_byte)
  have other: "user_byte tb x q = user_byte tb x p" if x: "unat x < 2 ^ 39" "x \<noteq> a" for x
  proof (cases "Q (vpage x)")
    case None
    then show ?thesis using space_pages_none [OF sp x(1)] space_pages_none [OF sq x(1)] by simp
  next
    case (Some h)
    define j where "j = unat x mod 4096 div 8"
    have j: "j < 512" using less_mult_imp_div_less [of "unat x mod 4096" 512 8] by (simp add: j_def)
    have al: "aligned h" "aligned g" using space_pages_byte(2) [OF sp x(1) Some] by_a(2) by simp_all
    have "byte_of (pm q (h + 8 * of_nat j)) (unat x mod 8) = byte_of (pm p (h + 8 * of_nat j)) (unat x mod 8)"
    proof (cases "h + 8 * of_nat j = ?w")
      case True
      then have "h = g" "j = i" using page_word_eq_iff [OF al j i] by simp_all
      then have "vpage x = vpage a" using sp Some g unfolding space_pages_def by blast
      then have "unat x mod 8 \<noteq> unat a mod 8" using vpage_word [of x a] x(2) \<open>j = i\<close> by (auto simp: i_def j_def)
      then show ?thesis unfolding True by (simp add: q_def byte_set_byte)
    next
      case False
      then show ?thesis by (simp add: q_def)
    qed
    then show ?thesis using space_pages_byte(3) [OF sp x(1) Some] space_pages_byte(3) [OF sq x(1) Some] by (simp add: j_def)
  qed
  show thesis by (rule that [OF st sq here other]) (simp_all add: q_def)
qed

text \<open>A page handed out by the allocator does not disturb the space.\<close>

lemma alloc_page_space:
  assumes inv: "pmm_inv p own fl" "wf_space tb L2 L3 own p" and a: "alloc_page p = (page, p1)" "page \<noteq> 0"
  shows "wf_space tb L2 L3 (insert page own) p1" "leaf tb x p1 = leaf tb x p"
    "g \<in> own \<Longrightarrow> word_in g c \<Longrightarrow> pm p1 c = pm p c" "page \<notin> own" "word_in page c \<Longrightarrow> pm p1 c = 0"
proof -
  note f = alloc_page_fresh [OF inv(1) a]
  have tables: "insert tb (L2 \<union> L3) \<subseteq> own" using inv(2) by (auto simp: wf_space_def)
  show same: "pm p1 c = pm p c" if "g \<in> own" "word_in g c" for g c
  proof -
    have "aligned g" using that(1) inv(1) by (auto simp: pmm_inv_def taken_def)
    then have "\<not> word_in page c" using word_in_unique [of page g c] f(1,2) that by auto
    then show ?thesis using f(5) by (auto simp: word_in_def)
  qed
  show wf: "wf_space tb L2 L3 (insert page own) p1"
    by (rule wf_space_frame [OF inv(2)]) (use tables in \<open>blast intro: same\<close>)+
  show "leaf tb x p1 = leaf tb x p" by (rule leaf_frame [OF inv(2) wf]) (use tables in \<open>blast intro: same\<close>)
  show "page \<notin> own" by (rule f(1))
  show "word_in page c \<Longrightarrow> pm p1 c = 0" using f(3) by (auto simp: word_in_def)
qed

lemma user_desc_page:
  assumes "high_half s" "taken s p" "unat (free_next s) < 2 ^ 40"
  shows "phys_to_kva (user_desc (kva_to_phys s p) x AND ADDR_MASK) = p"
proof -
  have "user_desc (kva_to_phys s p) x AND ADDR_MASK = kva_to_phys s p AND ADDR_MASK"
    by (rule bit_word_eqI) (auto simp: bit_and_iff bit_ADDR_MASK bit_user_desc)
  then show ?thesis using addr_of_desc [OF assms, of 0] by (simp add: and.assoc)
qed

lemma vpage_drop: "vpage x = vpage y \<longleftrightarrow> drop_bit 12 x = drop_bit 12 y"
proof -
  have "vpage z = push_bit 12 (drop_bit 12 z)" for z
    unfolding vpage_def masks(2) by (rule bit_word_eqI) (auto simp: bit_and_iff bit_not_iff bit_mask_iff bit_push_bit_iff bit_drop_bit_eq)
  moreover have "drop_bit 12 (vpage z) = drop_bit 12 z" for z
    unfolding vpage_def masks(2) by (rule bit_word_eqI) (auto simp: bit_and_iff bit_not_iff bit_mask_iff bit_drop_bit_eq dest: bit_imp_le_length)
  ultimately show ?thesis by metis
qed

lemma leaf_vpage: "wf_space tb L2 L3 own p \<Longrightarrow> vpage x = vpage y \<Longrightarrow> leaf tb x p = leaf tb y p"
  unfolding vpage_drop by (simp add: leaf_wf [OF _ table_nonzero] slot_of_cong [of 12 x y])

lemma vpage_vpage [simp]: "vpage (vpage x) = vpage x"
  by (simp add: vpage_def and.assoc)

lemma map_page_space:
  assumes sp: "space_pages tb Q p" and va: "vpage va = va" "unat va < 2 ^ 39" "Q va = None"
    and room: "unat (free_next p) + 4096 * (k + 3) \<le> unat (free_top p)"
  obtains page p1 p2 where "alloc_page p = (page, p1)" "page \<noteq> 0" "map_user_page tb va page x p1 = (0, p2)"
    "space_pages tb (Q(va \<mapsto> page)) p2" "unat (free_next p2) + 4096 * k \<le> unat (free_top p2)"
    "\<And>y. unat y < 2 ^ 39 \<Longrightarrow> user_byte tb y p2 = (if vpage y = va then Some 0 else user_byte tb y p)"
proof -
  obtain L2 L3 own fl where inv: "pmm_inv p own fl" "high_half p" "wf_space tb L2 L3 own p" "ran Q \<subseteq> own - insert tb (L2 \<union> L3)"
    using sp unfolding space_pages_def by blast
  have Q: "\<forall>u v g. Q u = Some g \<and> Q v = Some g \<longrightarrow> u = v"
    "\<And>y. unat y < 2 ^ 39 \<Longrightarrow> map_option (\<lambda>d. phys_to_kva (d AND ADDR_MASK)) (leaf tb y p) = Q (vpage y)"
    using sp unfolding space_pages_def by blast+
  obtain page p1 where a: "alloc_page p = (page, p1)" "page \<noteq> 0" and r1: "unat (free_next p1) + 4096 * Suc (Suc k) \<le> unat (free_top p1)"
    using alloc_page_room [OF inv(1), of "Suc (Suc k)"] room by auto
  note s1 = alloc_page_space [OF inv(1,3) a]
  obtain fl1 where i1: "pmm_inv p1 (insert page own) fl1" using alloc_page_fresh(4) [OF inv(1) a] by blast
  have h1: "high_half p1" using alloc_page_l1_user [OF a(1)] inv(2) by simp
  note t = table_nonzero [OF inv(3)]
  let ?d = "user_desc (kva_to_phys p1 page) x"
  obtain p2 where raw: "map_user_page_raw tb va ?d p1 = (0, p2)" and r2: "unat (free_next p2) + 4096 * k \<le> unat (free_top p2)"
    using map_user_page_raw_succeeds [OF i1 h1 s1(1) t r1] by blast
  note m = map_user_page_raw_leaf [OF i1 h1 s1(1) t user_desc_flags(1) raw]
  from m(2) obtain L2' L3' own' fl' where "pmm_inv p2 own' fl' \<and> wf_space tb L2' L3' own' p2 \<and> insert page own \<subseteq> own' \<and>
      L3' \<inter> insert page own \<subseteq> L3 \<and> L2' \<inter> insert page own \<subseteq> L2 \<and>
      (\<forall>g \<in> insert page own - insert tb (L2 \<union> L3). \<forall>c. word_in g c \<longrightarrow> pm p2 c = pm p1 c)" by (elim exE)
  then have n: "pmm_inv p2 own' fl'" "wf_space tb L2' L3' own' p2" "insert page own \<subseteq> own'"
    "L3' \<inter> insert page own \<subseteq> L3" "L2' \<inter> insert page own \<subseteq> L2"
    "\<And>g c. g \<in> insert page own - insert tb (L2 \<union> L3) \<Longrightarrow> word_in g c \<Longrightarrow> pm p2 c = pm p1 c"
    by blast+
  have tables: "insert tb (L2 \<union> L3) \<subseteq> own" using inv(3) by (auto simp: wf_space_def)
  have pg: "phys_to_kva (?d AND ADDR_MASK) = page"
    by (rule user_desc_page [OF h1]) (use i1 in \<open>auto simp: pmm_inv_def\<close>)
  have new: "page \<notin> ran Q" using s1(4) inv(4) by auto
  have sp2: "space_pages tb (Q(va \<mapsto> page)) p2"
  proof (rule space_pagesI [OF n(1) _ n(2)])
    show "high_half p2" using m(3) by blast
    have "ran (Q(va \<mapsto> page)) \<subseteq> insert page (ran Q)" by (auto simp: ran_def)
    then show "ran (Q(va \<mapsto> page)) \<subseteq> own' - insert tb (L2' \<union> L3')" using inv(4) n(3-5) s1(4) tables by blast
    show "\<forall>u v g. (Q(va \<mapsto> page)) u = Some g \<and> (Q(va \<mapsto> page)) v = Some g \<longrightarrow> u = v"
      using Q(1) new by (auto simp: ran_def)
    show "\<forall>y. unat y < 2 ^ 39 \<longrightarrow> map_option (\<lambda>d. phys_to_kva (d AND ADDR_MASK)) (leaf tb y p2) = (Q(va \<mapsto> page)) (vpage y)"
    proof (intro allI impI)
      fix y :: u64 assume y: "unat y < 2 ^ 39"
      show "map_option (\<lambda>d. phys_to_kva (d AND ADDR_MASK)) (leaf tb y p2) = (Q(va \<mapsto> page)) (vpage y)"
      proof (cases "vpage y = va")
        case True
        then have "leaf tb y p2 = leaf tb va p2" using va(1) by (intro leaf_vpage [OF n(2)]) simp
        then show ?thesis using m(1) pg True by simp
      next
        case False
        then have "leaf tb y p2 = leaf tb y p" using m(4) [OF va(2) y] va(1) s1(2) vpage_drop [of y va] by simp
        then show ?thesis using Q(2) [OF y] False by simp
      qed
    qed
  qed
  have "user_byte tb y p2 = (if vpage y = va then Some 0 else user_byte tb y p)" if y: "unat y < 2 ^ 39" for y
  proof -
    define i where "i = unat y mod 4096 div 8"
    have i: "i < 512" using less_mult_imp_div_less [of "unat y mod 4096" 512 8] by (simp add: i_def)
    then have wi: "word_in g (g + 8 * of_nat i)" for g by (auto simp: word_in_def)
    show ?thesis
    proof (cases "vpage y = va")
      case True
      have "pm p2 (page + 8 * of_nat i) = 0" using n(6) [OF _ wi, of page] s1(4,5) tables wi by auto
      then show ?thesis using space_pages_byte(3) [OF sp2 y, of page] True by (simp add: i_def byte_of_def)
    next
      case False
      then have q: "(Q(va \<mapsto> page)) (vpage y) = Q (vpage y)" by simp
      show ?thesis
      proof (cases "Q (vpage y)")
        case None
        then show ?thesis using space_pages_none [OF sp y] space_pages_none [OF sp2 y] False by simp
      next
        case (Some g)
        then have "g \<in> own - insert tb (L2 \<union> L3)" using inv(4) by (auto simp: ran_def)
        then have "pm p2 (g + 8 * of_nat i) = pm p (g + 8 * of_nat i)" using n(6) [OF _ wi, of g] s1(3) [OF _ wi, of g] by simp
        then show ?thesis using space_pages_byte(3) [OF sp y Some] space_pages_byte(3) [OF sp2 y, of g] q Some False by (simp add: i_def)
      qed
    qed
  qed
  then show thesis by (intro that [OF a _ sp2 r2]) (simp_all add: map_user_page_raw_eq raw)
qed

lemma space_pages_fresh:
  assumes "pmm_inv p own fl" "high_half p" "wf_space tb {} {} own p"
  shows "space_pages tb Map.empty p"
proof (rule space_pagesI [OF assms])
  have "pm p (slot_of tb 30 x) = 0" for x using wf_space_levels(1) [OF assms(3) slot_word_in] by blast
  then show "\<forall>x. unat x < 2 ^ 39 \<longrightarrow> map_option (\<lambda>d. phys_to_kva (d AND ADDR_MASK)) (leaf tb x p) = Map.empty (vpage x)"
    by (simp add: leaf_wf [OF assms(3) table_nonzero [OF assms(3)]])
qed simp_all

section \<open>Segments\<close>

lemma map_pages_space:
  assumes "space_pages tb Q p" "\<forall>va \<in> set vas. vpage va = va \<and> unat va < 2 ^ 39 \<and> Q va = None" "distinct vas"
    and "unat (free_next p) + 4096 * (k + 3 * length vas) \<le> unat (free_top p)"
  shows "\<exists>Q' p'. map_pages tb x vas p = (0, p') \<and> space_pages tb Q' p' \<and> dom Q' = dom Q \<union> set vas \<and>
    unat (free_next p') + 4096 * k \<le> unat (free_top p') \<and>
    (\<forall>y. unat y < 2 ^ 39 \<longrightarrow> user_byte tb y p' = (if vpage y \<in> set vas then Some 0 else user_byte tb y p))"
  using assms
proof (induction vas arbitrary: Q p)
  case (Cons va vas)
  have va: "vpage va = va" "unat va < 2 ^ 39" "Q va = None" using Cons.prems(2) by simp_all
  have room: "unat (free_next p) + 4096 * (k + 3 * length vas + 3) \<le> unat (free_top p)" using Cons.prems(4) by simp
  obtain page p1 p2 where s: "alloc_page p = (page, p1)" "page \<noteq> 0" "map_user_page tb va page x p1 = (0, p2)"
    "space_pages tb (Q(va \<mapsto> page)) p2" "unat (free_next p2) + 4096 * (k + 3 * length vas) \<le> unat (free_top p2)"
    "\<And>y. unat y < 2 ^ 39 \<Longrightarrow> user_byte tb y p2 = (if vpage y = va then Some 0 else user_byte tb y p)"
    by (rule map_page_space [OF Cons.prems(1) va room]) (rule that; assumption)
  have "\<forall>v \<in> set vas. vpage v = v \<and> unat v < 2 ^ 39 \<and> (Q(va \<mapsto> page)) v = None" using Cons.prems(2,3) by auto
  from Cons.IH [OF s(4) this _ s(5)] Cons.prems(3) obtain Q' p' where
    r: "map_pages tb x vas p2 = (0, p')" "space_pages tb Q' p'" "dom Q' = dom (Q(va \<mapsto> page)) \<union> set vas"
      "unat (free_next p') + 4096 * k \<le> unat (free_top p')"
      "\<forall>y. unat y < 2 ^ 39 \<longrightarrow> user_byte tb y p' = (if vpage y \<in> set vas then Some 0 else user_byte tb y p2)" by (auto simp del: fun_upd_apply)
  show ?case by (rule exI [of _ Q'], rule exI [of _ p']) (use r s in auto)
qed auto

lemma store_bytes_space:
  assumes "space_pages tb Q p" "unat a + length bs \<le> 2 ^ 39" "\<forall>i < length bs. vpage (a + of_nat i) \<in> dom Q"
  shows "\<exists>q. store_bytes tb a bs p = Some q \<and> space_pages tb Q q \<and> free_next q = free_next p \<and> free_top q = free_top p \<and>
    (\<forall>y. unat y < 2 ^ 39 \<longrightarrow>
       user_byte tb y q = (if unat a \<le> unat y \<and> unat y < unat a + length bs then Some (bs ! (unat y - unat a)) else user_byte tb y p))"
  using assms
proof (induction bs arbitrary: a p)
  case (Cons b bs)
  have a: "unat a < 2 ^ 39" using Cons.prems(2) by simp
  have next_a: "unat (a + 1) = unat a + 1" using a by (subst unat_add_lem [THEN iffD1]) simp_all
  obtain g where "Q (vpage a) = Some g" using Cons.prems(3) by fastforce
  then obtain p1 where s: "store_byte tb a b p = Some p1" "space_pages tb Q p1" "user_byte tb a p1 = Some b"
    "\<And>x. unat x < 2 ^ 39 \<Longrightarrow> x \<noteq> a \<Longrightarrow> user_byte tb x p1 = user_byte tb x p" "free_next p1 = free_next p" "free_top p1 = free_top p"
    by (rule store_byte_page [OF Cons.prems(1) a]) (rule that; assumption)
  have "\<forall>i < length bs. vpage (a + 1 + of_nat i) \<in> dom Q"
  proof (intro allI impI)
    fix i assume "i < length bs"
    then show "vpage (a + 1 + of_nat i) \<in> dom Q" using Cons.prems(3) [rule_format, of "Suc i"] by (simp add: ac_simps)
  qed
  from Cons.IH [OF s(2) _ this] Cons.prems(2) next_a obtain q where
    r: "store_bytes tb (a + 1) bs p1 = Some q" "space_pages tb Q q" "free_next q = free_next p1" "free_top q = free_top p1"
      "\<And>y. unat y < 2 ^ 39 \<Longrightarrow> user_byte tb y q =
        (if unat a + 1 \<le> unat y \<and> unat y < unat a + 1 + length bs then Some (bs ! (unat y - (unat a + 1))) else user_byte tb y p1)" by auto
  have "user_byte tb y q = (if unat a \<le> unat y \<and> unat y < unat a + length (b # bs) then Some ((b # bs) ! (unat y - unat a)) else user_byte tb y p)"
    if y: "unat y < 2 ^ 39" for y
  proof (cases "y = a")
    case True
    then show ?thesis using r(5) [OF y] s(3) by simp
  next
    case False
    then have ne: "unat y \<noteq> unat a" by (simp add: word_unat_eq_iff)
    have "(b # bs) ! (unat y - unat a) = bs ! (unat y - (unat a + 1))" if "unat a < unat y" using that by (simp add: nth_Cons')
    then show ?thesis using r(5) [OF y] s(4) [OF y False] ne by auto
  qed
  then show ?case using s r by (intro exI [of _ q]) simp
qed auto

lemma unat_vpage: "unat (vpage x) = unat x div 4096 * 4096"
  unfolding vpage_def by (rule page_of_va(1))

lemma vpage_fix: "vpage x = x \<longleftrightarrow> 4096 dvd unat x"
  unfolding word_unat_eq_iff unat_vpage by (auto simp: dvd_eq_mod_eq_0 minus_mod_eq_div_mult [symmetric])

text \<open>The pages of a segment inside the user half: a list of page addresses without repetition, with the page of every byte in it.\<close>

lemma segment_pages_props:
  assumes "unat v + unat ms \<le> 2 ^ 39"
  shows "\<And>va. va \<in> set (segment_pages v ms) \<Longrightarrow>
      vpage va = va \<and> unat va < 2 ^ 39 \<and> unat v div 4096 * 4096 \<le> unat va \<and> unat va < unat v + unat ms" "distinct (segment_pages v ms)"
    "\<And>y. unat v \<le> unat y \<Longrightarrow> unat y < unat v + unat ms \<Longrightarrow> vpage y \<in> set (segment_pages v ms)"
    "length (segment_pages v ms) = (unat v + unat ms + 4095) div 4096 - unat v div 4096"
proof -
  define a b where "a = unat v div 4096" and "b = (unat v + unat ms + 4095) div 4096"
  have ab: "a \<le> b" "b \<le> 2 ^ 27"
  proof -
    show "a \<le> b" unfolding a_def b_def by (rule div_le_mono) simp
    have "b \<le> (2 ^ 39 + 4095) div 4096" unfolding b_def using assms by (intro div_le_mono) simp
    then show "b \<le> 2 ^ 27" by simp
  qed
  have first: "unat (v AND NOT (PAGE_SIZE - 1)) = a * 4096"
    using unat_vpage [of v] by (simp add: vpage_def PAGE_SIZE_def a_def)
  have u: "unat (v + ms + PAGE_SIZE - 1) = unat v + unat ms + 4095"
  proof -
    have s: "unat (v + ms) = unat v + unat ms" using assms by (subst unat_add_lem [THEN iffD1]) simp_all
    have e: "v + ms + PAGE_SIZE - 1 = v + ms + 4095" by (simp add: PAGE_SIZE_def)
    show ?thesis unfolding e using assms s by (subst unat_add_lem [THEN iffD1]) simp_all
  qed
  have last: "unat ((v + ms + PAGE_SIZE - 1) AND NOT (PAGE_SIZE - 1)) = b * 4096"
    using unat_vpage [of "v + ms + PAGE_SIZE - 1"] unfolding vpage_def u b_def by (simp add: PAGE_SIZE_def)
  have at: "unat ((v AND NOT (PAGE_SIZE - 1)) + of_nat i * PAGE_SIZE) = (a + i) * 4096" if "i < b - a" for i
  proof -
    have lt: "(a + i) * 4096 < 2 ^ 39" using that ab by simp
    have w: "unat (of_nat (i * 4096) :: u64) = i * 4096" by (rule unat_of_nat_eq) (use lt in simp)
    have e: "of_nat i * PAGE_SIZE = of_nat (i * 4096)" by (simp add: PAGE_SIZE_def)
    have sum: "a * 4096 + i * 4096 = (a + i) * 4096" by simp
    have "unat ((v AND NOT (PAGE_SIZE - 1)) + of_nat (i * 4096)) = unat (v AND NOT (PAGE_SIZE - 1)) + unat (of_nat (i * 4096) :: u64)"
      by (rule unat_add_lem [THEN iffD1]) (unfold first w sum, use lt in simp)
    then show ?thesis unfolding e first w sum .
  qed
  have sp: "segment_pages v ms = map (\<lambda>i. (v AND NOT (PAGE_SIZE - 1)) + of_nat i * PAGE_SIZE) [0..<b - a]"
  proof (cases "a < b")
    case True
    then have lt: "v AND NOT (PAGE_SIZE - 1) < (v + ms + PAGE_SIZE - 1) AND NOT (PAGE_SIZE - 1)" unfolding word_less_nat_alt first last by simp
    have "unat (((v + ms + PAGE_SIZE - 1) AND NOT (PAGE_SIZE - 1)) - (v AND NOT (PAGE_SIZE - 1))) = b * 4096 - a * 4096"
      using lt unfolding first [symmetric] last [symmetric] by (intro unat_sub) simp
    then have "unat ((((v + ms + PAGE_SIZE - 1) AND NOT (PAGE_SIZE - 1)) - (v AND NOT (PAGE_SIZE - 1))) div PAGE_SIZE) = b - a"
      by (simp add: unat_div PAGE_SIZE_def diff_mult_distrib [symmetric])
    then show ?thesis unfolding segment_pages_def Let_def if_P [OF lt] by (simp only:)
  next
    case False
    then show ?thesis unfolding segment_pages_def Let_def word_less_nat_alt first last by simp
  qed
  show "vpage va = va \<and> unat va < 2 ^ 39 \<and> unat v div 4096 * 4096 \<le> unat va \<and> unat va < unat v + unat ms"
    if va: "va \<in> set (segment_pages v ms)" for va
  proof -
    obtain i where i: "i < b - a" "va = (v AND NOT (PAGE_SIZE - 1)) + of_nat i * PAGE_SIZE" using va unfolding sp by auto
    have u: "unat va = (a + i) * 4096" unfolding i(2) by (rule at [OF i(1)])
    have "b * 4096 \<le> unat v + unat ms + 4095" unfolding b_def by (rule div_times_less_eq_dividend)
    moreover have "Suc (a + i) * 4096 \<le> b * 4096" using i(1) by (intro mult_right_mono) simp_all
    ultimately show ?thesis using ab u unfolding vpage_fix a_def [symmetric] by auto
  qed
  show "length (segment_pages v ms) = (unat v + unat ms + 4095) div 4096 - unat v div 4096" unfolding sp a_def b_def by simp
  show "distinct (segment_pages v ms)"
    unfolding sp distinct_map by (auto intro!: inj_onI dest!: arg_cong [of _ _ unat] simp: at simp del: add_left_cancel)
  show "vpage y \<in> set (segment_pages v ms)" if y: "unat v \<le> unat y" "unat y < unat v + unat ms" for y
  proof -
    define i where "i = unat y div 4096 - a"
    have "a \<le> unat y div 4096" unfolding a_def using y(1) by (rule div_le_mono)
    moreover have "unat y div 4096 < b"
    proof -
      have "(unat y + 4096) div 4096 \<le> b" unfolding b_def using y(2) by (intro div_le_mono) simp
      then show ?thesis by simp
    qed
    ultimately have i: "i < b - a" "a + i = unat y div 4096" by (simp_all add: i_def)
    then have "vpage y = (v AND NOT (PAGE_SIZE - 1)) + of_nat i * PAGE_SIZE" unfolding word_unat_eq_iff at [OF i(1)] unat_vpage by simp
    then show ?thesis unfolding sp using i(1) by auto
  qed
qed

text \<open>
  A program header whose segment is inside the file and inside the user half, without wrapping around; its pages; and the byte it
  puts behind an address of them.
\<close>

definition good_segment :: "mem \<Rightarrow> u64 \<Rightarrow> u64 \<Rightarrow> bool" where
  "good_segment m sz ph \<longleftrightarrow>
     unat (rd64 m (ph + 8)) + unat (rd64 m (ph + 32)) \<le> unat sz \<and> rd64 m (ph + 32) \<le> rd64 m (ph + 40) \<and>
     unat (rd64 m (ph + 16)) + unat (rd64 m (ph + 40)) \<le> 2 ^ 39"

definition seg_pages :: "mem \<Rightarrow> u64 \<Rightarrow> u64 list" where
  "seg_pages m ph = segment_pages (rd64 m (ph + 16)) (rd64 m (ph + 40))"

definition seg_byte :: "mem \<Rightarrow> u64 \<Rightarrow> u64 \<Rightarrow> u64 \<Rightarrow> u8" where
  "seg_byte m e ph y =
     (let v = unat (rd64 m (ph + 16))
      in if v \<le> unat y \<and> unat y < v + unat (rd64 m (ph + 32)) then m (e + rd64 m (ph + 8) + of_nat (unat y - v)) else 0)"

lemma load_segment_space:
  assumes sp: "space_pages tb Q p" and good: "good_segment m sz ph" and new: "set (seg_pages m ph) \<inter> dom Q = {}"
    and room: "unat (free_next p) + 4096 * (k + 3 * length (seg_pages m ph)) \<le> unat (free_top p)"
  shows "\<exists>Q' p'. load_segment tb m e sz ph p = Some (0, p') \<and> space_pages tb Q' p' \<and> dom Q' = dom Q \<union> set (seg_pages m ph) \<and>
    unat (free_next p') + 4096 * k \<le> unat (free_top p') \<and>
    (\<forall>y. unat y < 2 ^ 39 \<longrightarrow> user_byte tb y p' = (if vpage y \<in> set (seg_pages m ph) then Some (seg_byte m e ph y) else user_byte tb y p))"
proof -
  define off v fs ms where d: "off = rd64 m (ph + 8)" "v = rd64 m (ph + 16)" "fs = rd64 m (ph + 32)" "ms = rd64 m (ph + 40)"
  have g: "unat off + unat fs \<le> unat sz" "unat fs \<le> unat ms" "unat v + unat ms \<le> 2 ^ 39"
    using good by (simp_all add: good_segment_def d word_le_nat_alt)
  have pgs: "seg_pages m ph = segment_pages v ms" by (simp add: seg_pages_def d)
  note sg = segment_pages_props [OF g(3)]
  let ?bs = "map (\<lambda>i. m (e + off + of_nat i)) [0..<unat fs]" and ?x = "rd32 m (ph + 4) AND PF_X \<noteq> 0"
  have vas: "\<forall>va \<in> set (segment_pages v ms). vpage va = va \<and> unat va < 2 ^ 39 \<and> Q va = None"
    using sg(1) new unfolding pgs by blast
  obtain Q' p1 where a: "map_pages tb ?x (segment_pages v ms) p = (0, p1)" "space_pages tb Q' p1" "dom Q' = dom Q \<union> set (segment_pages v ms)"
    "unat (free_next p1) + 4096 * k \<le> unat (free_top p1)"
    "\<And>y. unat y < 2 ^ 39 \<Longrightarrow> user_byte tb y p1 = (if vpage y \<in> set (segment_pages v ms) then Some 0 else user_byte tb y p)"
    using map_pages_space [OF sp vas sg(2), of k ?x] room unfolding pgs by blast
  have at: "unat (v + of_nat i) = unat v + i" if "i < unat fs" for i
  proof -
    have lt: "unat v + i < 2 ^ 39" using that g by simp
    then have "unat (of_nat i :: u64) = i" by (intro unat_of_nat_eq) simp
    then show ?thesis using lt by (subst unat_add_lem [THEN iffD1]) simp_all
  qed
  have st: "unat v + length ?bs \<le> 2 ^ 39" "\<forall>i < length ?bs. vpage (v + of_nat i) \<in> dom Q'"
    using g a(3) sg(3) at by auto
  obtain q where b: "store_bytes tb v ?bs p1 = Some q" "space_pages tb Q' q" "free_next q = free_next p1" "free_top q = free_top p1"
    "\<And>y. unat y < 2 ^ 39 \<Longrightarrow> user_byte tb y q =
      (if unat v \<le> unat y \<and> unat y < unat v + length ?bs then Some (?bs ! (unat y - unat v)) else user_byte tb y p1)"
    using store_bytes_space [OF a(2) st] by blast
  have "unat (off + fs) = unat off + unat fs"
    using g(1) unsigned_less [where 'b = 64 and 'a = nat, of sz] by (subst unat_add_lem [THEN iffD1]) simp_all
  then have c: "\<not> off + fs > sz" "\<not> ms < fs" using g by (simp_all add: word_less_nat_alt)
  have ls: "load_segment tb m e sz ph p = Some (0, q)"
    unfolding load_segment_def Let_def d [symmetric] using c a(1) b(1) by simp
  have "user_byte tb y q = (if vpage y \<in> set (seg_pages m ph) then Some (seg_byte m e ph y) else user_byte tb y p)" if y: "unat y < 2 ^ 39" for y
  proof (cases "unat v \<le> unat y \<and> unat y < unat v + unat fs")
    case True
    moreover have "vpage y \<in> set (segment_pages v ms)" using sg(3) [of y] True g(2) by linarith
    ultimately show ?thesis using b(5) [OF y] by (auto simp: pgs seg_byte_def d [symmetric])
  next
    case False
    then show ?thesis using b(5) [OF y] a(5) [OF y] by (auto simp: pgs seg_byte_def d [symmetric] Let_def)
  qed
  then show ?thesis using ls b a(3,4) by (intro exI [of _ Q'] exI [of _ q]) (simp add: pgs)
qed

section \<open>The program headers\<close>

definition header_at :: "u64 \<Rightarrow> u64 \<Rightarrow> u16 \<Rightarrow> nat \<Rightarrow> u64" where
  "header_at e phoff phent i = e + phoff + of_nat i * ucast phent"

text \<open>The headers of a list that load something.\<close>

definition loads :: "mem \<Rightarrow> u64 \<Rightarrow> u64 \<Rightarrow> u16 \<Rightarrow> nat list \<Rightarrow> nat list" where
  "loads m e phoff phent is = filter (\<lambda>i. rd32 m (header_at e phoff phent i) = PT_LOAD) is"

definition pages_needed :: "mem \<Rightarrow> u64 \<Rightarrow> u64 \<Rightarrow> u16 \<Rightarrow> nat list \<Rightarrow> nat" where
  "pages_needed m e phoff phent is = sum_list (map (\<lambda>i. length (seg_pages m (header_at e phoff phent i))) (loads m e phoff phent is))"

text \<open>No two segments share a page.\<close>

primrec apart :: "mem \<Rightarrow> u64 \<Rightarrow> u64 \<Rightarrow> u16 \<Rightarrow> nat list \<Rightarrow> bool" where
  "apart m e phoff phent [] \<longleftrightarrow> True"
| "apart m e phoff phent (i # is) \<longleftrightarrow>
     (\<forall>j \<in> set is. set (seg_pages m (header_at e phoff phent i)) \<inter> set (seg_pages m (header_at e phoff phent j)) = {}) \<and>
     apart m e phoff phent is"

text \<open>The byte of the image behind an address; \<open>None\<close> where no segment has a page.\<close>

definition image_byte :: "mem \<Rightarrow> u64 \<Rightarrow> u64 \<Rightarrow> u16 \<Rightarrow> nat list \<Rightarrow> u64 \<Rightarrow> u8 option" where
  "image_byte m e phoff phent is y =
     map_option (\<lambda>i. seg_byte m e (header_at e phoff phent i) y)
       (find (\<lambda>i. vpage y \<in> set (seg_pages m (header_at e phoff phent i))) (loads m e phoff phent is))"

lemma load_headers_space:
  assumes "space_pages tb Q p" "\<forall>i \<in> set (loads m e phoff phent is). good_segment m sz (header_at e phoff phent i) \<and>
      set (seg_pages m (header_at e phoff phent i)) \<inter> dom Q = {}"
    and "apart m e phoff phent (loads m e phoff phent is)"
    and "unat (free_next p) + 4096 * (k + 3 * pages_needed m e phoff phent is) \<le> unat (free_top p)"
  shows "\<exists>Q' man' p'. load_headers is tb m e sz phoff phent man n p = Some ((0, man', n + length (loads m e phoff phent is)), p') \<and>
    space_pages tb Q' p' \<and>
    (\<forall>y. unat y < 2 ^ 39 \<longrightarrow>
       user_byte tb y p' = (case image_byte m e phoff phent is y of Some b \<Rightarrow> Some b | None \<Rightarrow> user_byte tb y p))"
  using assms
proof (induction "is" arbitrary: Q man n p)
  case Nil
  then show ?case by (auto simp: loads_def image_byte_def)
next
  case (Cons i "is")
  let ?h = "header_at e phoff phent i"
  have ph: "e + phoff + of_nat i * ucast phent = ?h" by (simp add: header_at_def)
  show ?case
  proof (cases "rd32 m ?h = PT_LOAD")
    case False
    then have l: "loads m e phoff phent (i # is) = loads m e phoff phent is" by (simp add: loads_def)
    then have e: "image_byte m e phoff phent (i # is) = image_byte m e phoff phent is"
      "pages_needed m e phoff phent (i # is) = pages_needed m e phoff phent is" by (simp_all add: image_byte_def pages_needed_def fun_eq_iff)
    note ih = Cons.IH [OF Cons.prems(1) Cons.prems(2-4) [unfolded l e]]
    show ?thesis
      unfolding load_headers.simps Let_def ph l e using False
      by (cases "rd32 m ?h = PT_NOTE") (simp_all only: if_True if_False not_False_eq_True refl ih)
  next
    case True
    then have l: "loads m e phoff phent (i # is) = i # loads m e phoff phent is" by (simp add: loads_def)
    have room: "unat (free_next p) + 4096 * ((k + 3 * pages_needed m e phoff phent is) + 3 * length (seg_pages m ?h)) \<le> unat (free_top p)"
      using Cons.prems(4) by (simp add: pages_needed_def l)
    have g: "good_segment m sz ?h" "set (seg_pages m ?h) \<inter> dom Q = {}" using Cons.prems(2) by (simp_all add: l)
    obtain Q1 p1 where s: "load_segment tb m e sz ?h p = Some (0, p1)" "space_pages tb Q1 p1" "dom Q1 = dom Q \<union> set (seg_pages m ?h)"
      "unat (free_next p1) + 4096 * (k + 3 * pages_needed m e phoff phent is) \<le> unat (free_top p1)"
      "\<forall>y. unat y < 2 ^ 39 \<longrightarrow> user_byte tb y p1 = (if vpage y \<in> set (seg_pages m ?h) then Some (seg_byte m e ?h y) else user_byte tb y p)"
      using load_segment_space [OF Cons.prems(1) g room] by blast
    have ap: "\<forall>j \<in> set (loads m e phoff phent is). set (seg_pages m ?h) \<inter> set (seg_pages m (header_at e phoff phent j)) = {}"
      "apart m e phoff phent (loads m e phoff phent is)" using Cons.prems(3) by (simp_all add: l)
    have "\<forall>j \<in> set (loads m e phoff phent is). good_segment m sz (header_at e phoff phent j) \<and>
        set (seg_pages m (header_at e phoff phent j)) \<inter> dom Q1 = {}"
    proof
      fix j assume j: "j \<in> set (loads m e phoff phent is)"
      then have "good_segment m sz (header_at e phoff phent j)" "set (seg_pages m (header_at e phoff phent j)) \<inter> dom Q = {}"
        using Cons.prems(2) by (simp_all add: l)
      moreover have "set (seg_pages m ?h) \<inter> set (seg_pages m (header_at e phoff phent j)) = {}" using ap(1) j by blast
      ultimately show "good_segment m sz (header_at e phoff phent j) \<and> set (seg_pages m (header_at e phoff phent j)) \<inter> dom Q1 = {}"
        unfolding s(3) by blast
    qed
    from Cons.IH [OF s(2) this ap(2) s(4), of man "Suc n"] obtain Q' man' p' where
      r: "load_headers is tb m e sz phoff phent man (Suc n) p1 = Some ((0, man', Suc n + length (loads m e phoff phent is)), p')"
        "space_pages tb Q' p'"
        "\<forall>y. unat y < 2 ^ 39 \<longrightarrow> user_byte tb y p' = (case image_byte m e phoff phent is y of Some b \<Rightarrow> Some b | None \<Rightarrow> user_byte tb y p1)" by blast
    have "user_byte tb y p' = (case image_byte m e phoff phent (i # is) y of Some b \<Rightarrow> Some b | None \<Rightarrow> user_byte tb y p)" if "unat y < 2 ^ 39" for y
    proof (cases "vpage y \<in> set (seg_pages m ?h)")
      case here: True
      then have "image_byte m e phoff phent is y = None" using ap(1) unfolding image_byte_def by (auto simp: find_None_iff)
      then show ?thesis using r(3) s(5) that here by (simp add: image_byte_def l)
    next
      case False
      then have "user_byte tb y p1 = user_byte tb y p" "image_byte m e phoff phent (i # is) y = image_byte m e phoff phent is y"
        using s(5) that by (simp_all add: image_byte_def l)
      then show ?thesis using r(3) that by (simp split: option.split)
    qed
    then show ?thesis using True s(1) r(1,2) by (auto simp: ph Let_def l PT_LOAD_def PT_NOTE_def)
  qed
qed

text \<open>An image the loader has nothing to object to: an aarch64 executable whose header table and segments are inside it.\<close>

definition good_image :: "mem \<Rightarrow> u64 \<Rightarrow> u64 \<Rightarrow> bool" where
  "good_image m e sz \<longleftrightarrow>
     sz \<ge> 64 \<and> m e = 0x7f \<and> m (e + 1) = 69 \<and> m (e + 2) = 76 \<and> m (e + 3) = 70 \<and> m (e + 4) = 2 \<and> m (e + 5) = 1 \<and> rd16 m (e + 18) = 183 \<and>
     (let phoff = rd64 m (e + 32); phent = rd16 m (e + 54); phnum = rd16 m (e + 56); ls = loads m e phoff phent [0..<unat phnum]
      in phnum \<noteq> 0 \<and> phoff + ucast phnum * ucast phent \<le> sz \<and> ls \<noteq> [] \<and> apart m e phoff phent ls \<and>
         list_all (\<lambda>i. good_segment m sz (header_at e phoff phent i)) ls)"

abbreviation file_pages :: "mem \<Rightarrow> u64 \<Rightarrow> nat" where
  "file_pages m e \<equiv> pages_needed m e (rd64 m (e + 32)) (rd16 m (e + 54)) [0..<unat (rd16 m (e + 56))]"

abbreviation file_byte :: "mem \<Rightarrow> u64 \<Rightarrow> u64 \<Rightarrow> u8 option" where
  "file_byte m e \<equiv> image_byte m e (rd64 m (e + 32)) (rd16 m (e + 54)) [0..<unat (rd16 m (e + 56))]"

lemma elf_load_good:
  assumes good: "good_image m e sz" and sp: "space_pages tb Map.empty p" and room: "unat (free_next p) + 4096 * (3 * file_pages m e) \<le> unat (free_top p)"
  shows "\<exists>man Q p'. elf_load tb m e sz p = Some ((0, rd64 m (e + 24), man), p') \<and> space_pages tb Q p' \<and>
    (\<forall>y. unat y < 2 ^ 39 \<longrightarrow> user_byte tb y p' = file_byte m e y)"
proof -
  let ?phoff = "rd64 m (e + 32)" and ?phent = "rd16 m (e + 54)" and ?phnum = "rd16 m (e + 56)"
  let ?is = "[0..<unat ?phnum]"
  have g: "\<not> sz < 64" "m e = 0x7f \<and> m (e + 1) = 69 \<and> m (e + 2) = 76 \<and> m (e + 3) = 70" "m (e + 4) = 2" "m (e + 5) = 1" "rd16 m (e + 18) = 183"
    "?phnum \<noteq> 0" "\<not> ?phoff + ucast ?phnum * ucast ?phent > sz" "loads m e ?phoff ?phent ?is \<noteq> []"
    "apart m e ?phoff ?phent (loads m e ?phoff ?phent ?is)"
    "\<forall>i \<in> set (loads m e ?phoff ?phent ?is). good_segment m sz (header_at e ?phoff ?phent i) \<and>
      set (seg_pages m (header_at e ?phoff ?phent i)) \<inter> dom (Map.empty :: u64 \<Rightarrow> u64 option) = {}"
    using good by (auto simp: good_image_def Let_def list_all_iff)
  obtain Q man p' where l: "load_headers ?is tb m e sz ?phoff ?phent no_manifest 0 p = Some ((0, man, 0 + length (loads m e ?phoff ?phent ?is)), p')"
    "space_pages tb Q p'" "\<forall>y. unat y < 2 ^ 39 \<longrightarrow> user_byte tb y p' = (case file_byte m e y of Some b \<Rightarrow> Some b | None \<Rightarrow> user_byte tb y p)"
    using load_headers_space [OF sp g(10,9), of 0 no_manifest 0] room by (metis (no_types, lifting) add_0)
  have "user_byte tb y p' = file_byte m e y" if "unat y < 2 ^ 39" for y
    using l(3) that space_pages_none [OF sp that] by (auto split: option.splits)
  moreover have "elf_load tb m e sz p = Some ((0, rd64 m (e + 24), man), p')"
    unfolding elf_load_def Let_def using g(1-8) l(1) by simp
  ultimately show ?thesis using l(2) by blast
qed

section \<open>Compiled programs\<close>

lemma loads_3: "rd32 m (e + 64) = PT_LOAD \<Longrightarrow> rd32 m (e + 64 + 56) = PT_LOAD \<Longrightarrow> rd32 m (e + 64 + 112) = PT_NOTE \<Longrightarrow>
    loads m e 64 56 [0..<unat (3 :: u16)] = [0, 1]"
  by (simp add: loads_def header_at_def upt_rec PT_LOAD_def PT_NOTE_def add.assoc)

lemma compiled_good:
  assumes w: "write_elf img = Some file" "holds_at m e file" "length file < 2 ^ 31" "length (i_syscalls img) \<le> 48"
    and va: "text_vaddr img = 0x400100" "data_vaddr img = 0x500000"
    and small: "length (i_text img) + length (build_note img) \<le> 0xffe00" "unat (bss_size img) \<le> 2 ^ 38"
  shows "good_image m e (of_nat (length file))"
    "j < length (i_text img) \<Longrightarrow> file_byte m e (text_vaddr img + of_nat j) = Some (i_text img ! j)"
    "j < unat (bss_size img) \<Longrightarrow> file_byte m e (data_vaddr img + of_nat j) = Some 0"
    "file_pages m e \<le> (length (i_text img) + length (build_note img) + 0x1102) div 4096 + (unat (bss_size img) + 4095) div 4096"
proof -
  have toff: "unat (text_vaddr img - BASE_VA) = 0x100" by (simp add: va BASE_VA_def)
  obtain note_off seg1 data_off sh mid tail rest where f: "file = elf_header (i_entry img) sh @
      phdr PT_LOAD 5 0 BASE_VA (of_nat seg1) (of_nat seg1) 4096 @ phdr PT_LOAD 6 (of_nat data_off) (data_vaddr img) 0 (bss_size img) 4096 @
      phdr PT_NOTE 4 (of_nat note_off) (BASE_VA + of_nat note_off) (of_nat (length (build_note img))) (of_nat (length (build_note img))) 4 @
      mid @ build_note img @ rest"
    and off: "note_off = 232 + length mid" "seg1 = note_off + length (build_note img)" "seg1 \<le> data_off" "data_off \<le> length file"
      "mid = replicate (0x100 - 232) 0 @ i_text img @ tail" "note_off \<le> 0x100 + length (i_text img) + 3"
    using write_elf_parts [OF w(1)] unfolding toff by metis
  have seg1: "seg1 \<le> 0x100000" "0x100 + length (i_text img) \<le> seg1" "seg1 \<le> length file" using off small by simp_all
  have p: "holds_at m e (elf_header (i_entry img) sh)" "holds_at m (e + 64) (phdr PT_LOAD 5 0 BASE_VA (of_nat seg1) (of_nat seg1) 4096)"
    "holds_at m (e + 64 + 56) (phdr PT_LOAD 6 (of_nat data_off) (data_vaddr img) 0 (bss_size img) 4096)"
    using w(2) unfolding f by (simp_all add: holds_at_append add.assoc)
  note hf = elf_header_fields [OF p(1)] and p0 = phdr_fields [OF p(2)] and p1 = phdr_fields [OF p(3)]
  note ls = loads_3 [OF compiled_headers(1-3) [OF w]]
  have at: "header_at e 64 56 0 = e + 64" "header_at e 64 56 1 = e + 64 + 56" by (simp_all add: header_at_def)
  have u: "unat (of_nat seg1 :: u64) = seg1" "unat (of_nat data_off :: u64) = data_off" "unat (of_nat (length file) :: u64) = length file"
    by (rule unat_of_nat_eq; use seg1 off w(3) in simp)+
  have u0: "unat BASE_VA = 0x400000" "unat (data_vaddr img) = 0x500000" by (simp_all add: BASE_VA_def va)
  have good: "good_segment m (of_nat (length file)) (e + 64)" "good_segment m (of_nat (length file)) (e + 64 + 56)"
    unfolding good_segment_def p0 p1 u u0 using seg1 off(3,4) small(2) by simp_all
  have l0: "unat BASE_VA + unat (of_nat seg1 :: u64) \<le> 2 ^ 39" "unat (data_vaddr img) + unat (bss_size img) \<le> 2 ^ 39"
    using seg1 small(2) unfolding u u0 by simp_all
  have pg0: "unat y < 0x500000" if "y \<in> set (seg_pages m (e + 64))" for y
    using that segment_pages_props(1) [OF l0(1)] seg1(1) unfolding seg_pages_def p0 u u0 by fastforce
  have pg1: "0x500000 \<le> unat y" if "y \<in> set (seg_pages m (e + 64 + 56))" for y
    using that segment_pages_props(1) [OF l0(2)] unfolding seg_pages_def p1 u0 by fastforce
  have ap: "set (seg_pages m (e + 64)) \<inter> set (seg_pages m (e + 64 + 56)) = {}" using pg0 pg1 by fastforce
  have len: "232 \<le> length file" by (simp add: f)
  have n64: "of_nat (length file) \<ge> (64 :: u64)" "of_nat (length file) \<ge> (232 :: u64)" using len u(3) by (simp_all add: word_le_nat_alt)
  show "good_image m e (of_nat (length file))"
    unfolding good_image_def Let_def hf ls using n64 ap good by (simp add: at del: One_nat_def)
  have ib: "file_byte m e y = (if vpage y \<in> set (seg_pages m (e + 64)) then Some (seg_byte m e (e + 64) y)
      else if vpage y \<in> set (seg_pages m (e + 64 + 56)) then Some (seg_byte m e (e + 64 + 56) y) else None)" for y
    unfolding image_byte_def hf ls by (simp add: at del: One_nat_def)
  have "length (seg_pages m (e + 64)) \<le> (length (i_text img) + length (build_note img) + 0x1102) div 4096"
    unfolding seg_pages_def p0 segment_pages_props(4) [OF l0(1)] u u0 using off(2,6) by (simp add: div_le_mono)
  moreover have "length (seg_pages m (e + 64 + 56)) \<le> (unat (bss_size img) + 4095) div 4096"
    unfolding seg_pages_def p1 segment_pages_props(4) [OF l0(2)] u0 by simp
  ultimately show "file_pages m e \<le> (length (i_text img) + length (build_note img) + 0x1102) div 4096 + (unat (bss_size img) + 4095) div 4096"
    unfolding pages_needed_def hf ls by (simp add: at del: One_nat_def)
  have low: "unat (of_nat k :: u64) = k" if "k < 2 ^ 39" for k by (rule unat_of_nat_eq) (use that in simp)
  show "file_byte m e (text_vaddr img + of_nat j) = Some (i_text img ! j)" if j: "j < length (i_text img)"
  proof -
    let ?y = "text_vaddr img + of_nat j"
    have y: "unat ?y = 0x400100 + j" unfolding va using low [of j] j seg1 by (subst unat_add_lem [THEN iffD1]) simp_all
    have "vpage ?y \<in> set (seg_pages m (e + 64))"
      unfolding seg_pages_def p0 by (rule segment_pages_props(3) [OF l0(1)]) (use y seg1 j u u0 in simp_all)
    moreover have "seg_byte m e (e + 64) ?y = m (e + of_nat (0x100 + j))"
      unfolding seg_byte_def p0 Let_def u u0 y using seg1(2) j by simp
    moreover have "m (e + of_nat (0x100 + j)) = file ! (0x100 + j)" by (rule holds_atD [OF w(2)]) (use seg1 j in simp)
    moreover have "file ! (0x100 + j) = i_text img ! j" using j by (simp add: f off(5) nth_append)
    ultimately show ?thesis unfolding ib by simp
  qed
  show "file_byte m e (data_vaddr img + of_nat j) = Some 0" if j: "j < unat (bss_size img)"
  proof -
    let ?y = "data_vaddr img + of_nat j"
    have y: "unat ?y = 0x500000 + j" using u0(2) low [of j] j small(2) by (subst unat_add_lem [THEN iffD1]) simp_all
    have a: "vpage ?y \<in> set (seg_pages m (e + 64 + 56))"
      unfolding seg_pages_def p1 by (rule segment_pages_props(3) [OF l0(2)]) (use y j u0 in simp_all)
    moreover have "vpage ?y \<notin> set (seg_pages m (e + 64))" using a ap by blast
    moreover have "seg_byte m e (e + 64 + 56) ?y = 0" unfolding seg_byte_def p1 u0 y by simp
    ultimately show ?thesis unfolding ib by simp
  qed
qed

lemma compiled_loads:
  assumes w: "write_elf img = Some file" "holds_at m e file" "length file < 2 ^ 31" "length (i_syscalls img) \<le> 48"
    and va: "text_vaddr img = 0x400100" "data_vaddr img = 0x500000"
    and small: "length (i_text img) + length (build_note img) \<le> 0xffe00" "unat (bss_size img) \<le> 2 ^ 38"
    and sp: "space_pages tb Map.empty p"
    and room: "unat (free_next p) + 4096 * (3 * ((length (i_text img) + length (build_note img) + 0x1102) div 4096 +
        (unat (bss_size img) + 4095) div 4096)) \<le> unat (free_top p)"
  shows "\<exists>p'. elf_load tb m e (of_nat (length file)) p = Some ((0, i_entry img, manifest_of img), p') \<and>
    (\<forall>j < length (i_text img). user_byte tb (text_vaddr img + of_nat j) p' = Some (i_text img ! j)) \<and>
    (\<forall>j < unat (bss_size img). user_byte tb (data_vaddr img + of_nat j) p' = Some 0)"
proof -
  note g = compiled_good [OF w va small]
  have "unat (free_next p) + 4096 * (3 * file_pages m e) \<le> unat (free_top p)" using g(4) room by simp
  from elf_load_good [OF g(1) sp this] obtain man Q p' where
    l: "elf_load tb m e (of_nat (length file)) p = Some ((0, rd64 m (e + 24), man), p')"
    and b: "\<And>y. unat y < 2 ^ 39 \<Longrightarrow> user_byte tb y p' = file_byte m e y" by blast
  have low: "unat (of_nat k :: u64) = k" if "k < 2 ^ 39" for k by (rule unat_of_nat_eq) (use that in simp)
  have "user_byte tb (text_vaddr img + of_nat j) p' = Some (i_text img ! j)" if j: "j < length (i_text img)" for j
  proof -
    have "unat (text_vaddr img + of_nat j) < 2 ^ 39"
      unfolding va using low [of j] j small(1) by (subst unat_add_lem [THEN iffD1]) simp_all
    then show ?thesis using b g(2) [OF j] by simp
  qed
  moreover have "user_byte tb (data_vaddr img + of_nat j) p' = Some 0" if j: "j < unat (bss_size img)" for j
  proof -
    have "unat (data_vaddr img + of_nat j) < 2 ^ 39"
      unfolding va using low [of j] j small(2) by (subst unat_add_lem [THEN iffD1]) simp_all
    then show ?thesis using b g(3) [OF j] by simp
  qed
  ultimately show ?thesis using l elf_load_compiled [OF w l] by simp
qed

text \<open>A program of two instructions that asks for two system calls, in memory at address zero.\<close>

definition demo_image :: image where
  "demo_image = \<lparr>i_text = [1, 2, 3, 4, 5, 6, 7, 8], bss_size = 16, rodata_off = 8, i_entry = 0x400100, text_vaddr = 0x400100,
     data_vaddr = 0x500000, i_syscalls = [1, 2], i_capnames = [[111, 117, 116]]\<rparr>"

definition demo_file :: bytes where
  "demo_file = the (write_elf demo_image)"

definition demo_mem :: mem where
  "demo_mem a = (if unat a < length demo_file then demo_file ! unat a else 0)"

lemma demo_file_props:
  "write_elf demo_image = Some demo_file" "length demo_file < 2 ^ 31" "holds_at demo_mem 0 demo_file"
  "length (build_note demo_image) = 44"
proof -
  show n: "length (build_note demo_image) = 44" by (simp add: build_note_def demo_image_def pad_to_def Let_def)
  show w: "write_elf demo_image = Some demo_file" by (simp add: demo_file_def write_elf_def demo_image_def BASE_VA_def Let_def)
  have "length demo_file = 4520"
    unfolding demo_file_def
    by (simp add: n [unfolded demo_image_def] write_elf_def demo_image_def BASE_VA_def Let_def pad_to_def shstr_def shdr_def)
  then show len: "length demo_file < 2 ^ 31" by simp
  show "holds_at demo_mem 0 demo_file"
    unfolding holds_at_def demo_mem_def using len by (auto simp: unat_of_nat_eq)
qed

lemma demo_loads:
  "space_pages (fst demo_space) Map.empty (snd demo_space)" "unat (free_next (snd demo_space)) + 4096 * 12 \<le> unat (free_top (snd demo_space))"
proof -
  obtain fl where inv: "pmm_inv (snd demo_space) {fst demo_space} fl" using demo_space_wf(1) by blast
  show "space_pages (fst demo_space) Map.empty (snd demo_space)" by (rule space_pages_fresh [OF inv demo_space_wf(3,2)])
  show "unat (free_next (snd demo_space)) + 4096 * 12 \<le> unat (free_top (snd demo_space))"
    by (simp add: demo_space_def demo_pmm_def mmu_note_high_def pmm_init_def pmm_statics_def vm_new_space_def
        alloc_page_def Let_def usable_def PAGE_SIZE_def KVA_OFFSET_def)
qed

lemma demo_good: "good_image demo_mem 0 (of_nat (length demo_file))" "file_pages demo_mem 0 \<le> 3"
proof -
  have i: "length (i_syscalls demo_image) \<le> 48" "text_vaddr demo_image = 0x400100" "data_vaddr demo_image = 0x500000"
    "length (i_text demo_image) = 8" "bss_size demo_image = 16" by (simp_all add: demo_image_def)
  note g = compiled_good [OF demo_file_props(1,3,2) i(1-3), unfolded i demo_file_props(4)]
  show "good_image demo_mem 0 (of_nat (length demo_file))" by (rule g(1)) simp_all
  show "file_pages demo_mem 0 \<le> 3" using g(4) by simp
qed

section \<open>What the checks let through\<close>

text \<open>A manifest of more than 48 calls is skipped, and a program without a manifest may make every call.\<close>

lemma long_manifest_ignored:
  assumes "rd32 m (e + off) = 4" "rd32 m (e + off + 16 + 8) > SAV_MAX_CALLS"
  shows "read_sav_note m e sz off len no_manifest = no_manifest" "sav_allows no_manifest nr"
  using assms by (simp_all add: read_sav_note_def Let_def no_manifest_def sav_allows_def add.assoc)

text \<open>
  A segment whose end wraps around has no pages, and its bytes are stored all the same: one of one byte at the top of the address space
  overwrites kernel memory with what the file says.
\<close>

lemma wrapped_segment_hits_kernel:
  assumes "rd64 m (ph + 16) = - 1" "rd64 m (ph + 32) = 1" "rd64 m (ph + 40) = 1" "rd64 m (ph + 8) + 1 \<le> sz"
  shows "load_segment tb m e sz ph p = Some (0, p\<lparr>pm := (pm p)(- 8 := set_byte (pm p (- 8)) 7 (m (e + rd64 m (ph + 8))))\<rparr>)"
  using assms by (simp add: load_segment_def Let_def segment_pages_def PAGE_SIZE_def store_byte_def KVA_OFFSET_def not_less)

section \<open>The properties\<close>

text \<open>
  C17: the loader puts the program where it asks to be. An image for this machine whose headers and segments are inside the file, whose
  segments are inside the user half and share no page, is loaded into a fresh space whenever there is memory for it: \<open>elf_load\<close>
  returns 0 with the entry point of the file, every address of a segment's pages reads as the byte of the file that belongs there or as
  zero after the segment's data, and no other user address is mapped.
\<close>
theorem elf_load_places:
  assumes "good_image m e sz" "space_pages tb Map.empty p" "unat (free_next p) + 4096 * (3 * file_pages m e) \<le> unat (free_top p)"
  shows "\<exists>man p'. elf_load tb m e sz p = Some ((0, rd64 m (e + 24), man), p') \<and>
    (\<forall>y. unat y < 2 ^ 39 \<longrightarrow> user_byte tb y p' = file_byte m e y)"
  using elf_load_good [OF assms] by blast

theorem elf_load_places_witness:
  "\<exists>man p'. elf_load (fst demo_space) demo_mem 0 (of_nat (length demo_file)) (snd demo_space) = Some ((0, rd64 demo_mem (0 + 24), man), p') \<and>
    (\<forall>y. unat y < 2 ^ 39 \<longrightarrow> user_byte (fst demo_space) y p' = file_byte demo_mem 0 y)"
  by (rule elf_load_places [OF demo_good(1) demo_loads(1)]) (use demo_good(2) demo_loads(2) in simp)

text \<open>
  C1: a compiled program runs with the calls it declares. A program the \<open>sav\<close> compiler wrote, with at most 48 system calls and
  less than a megabyte of code, is loaded by the kernel into a fresh space when there is memory: its entry point is the compiler's,
  its code is at the addresses the compiler gave it, its globals are zero, and the kernel allows exactly the system calls of the
  compiler's manifest.
\<close>
theorem compiled_program_loads:
  assumes "write_elf img = Some file" "holds_at m e file" "length file < 2 ^ 31" "length (i_syscalls img) \<le> 48"
    and "text_vaddr img = 0x400100" "data_vaddr img = 0x500000"
    and "length (i_text img) + length (build_note img) \<le> 0xffe00" "unat (bss_size img) \<le> 2 ^ 38"
    and "space_pages tb Map.empty p"
    and "unat (free_next p) + 4096 * (3 * ((length (i_text img) + length (build_note img) + 0x1102) div 4096 +
        (unat (bss_size img) + 4095) div 4096)) \<le> unat (free_top p)"
  shows "\<exists>man p'. elf_load tb m e (of_nat (length file)) p = Some ((0, i_entry img, man), p') \<and>
    (\<forall>nr. sav_allows man nr \<longleftrightarrow> ucast nr \<in> set (i_syscalls img)) \<and>
    (\<forall>j < length (i_text img). user_byte tb (text_vaddr img + of_nat j) p' = Some (i_text img ! j)) \<and>
    (\<forall>j < unat (bss_size img). user_byte tb (data_vaddr img + of_nat j) p' = Some 0)"
  using compiled_loads [OF assms] by (fastforce simp: sav_allows_def manifest_of_def)

theorem compiled_program_loads_witness:
  "\<exists>man p'. elf_load (fst demo_space) demo_mem 0 (of_nat (length demo_file)) (snd demo_space) = Some ((0, 0x400100, man), p') \<and>
    sav_allows man 2 \<and> \<not> sav_allows man 3 \<and> user_byte (fst demo_space) 0x400102 p' = Some 3"
proof -
  have i: "length (i_syscalls demo_image) \<le> 48" "text_vaddr demo_image = 0x400100" "data_vaddr demo_image = 0x500000"
    "length (i_text demo_image) + length (build_note demo_image) \<le> 0xffe00" "unat (bss_size demo_image) \<le> 2 ^ 38"
    using demo_file_props(4) by (simp_all add: demo_image_def)
  have room: "unat (free_next (snd demo_space)) + 4096 * (3 * ((length (i_text demo_image) + length (build_note demo_image) + 0x1102) div 4096 +
      (unat (bss_size demo_image) + 4095) div 4096)) \<le> unat (free_top (snd demo_space))"
    using demo_loads(2) demo_file_props(4) by (simp add: demo_image_def)
  obtain man p' where l: "elf_load (fst demo_space) demo_mem 0 (of_nat (length demo_file)) (snd demo_space) = Some ((0, i_entry demo_image, man), p')"
    "\<And>nr. sav_allows man nr \<longleftrightarrow> ucast nr \<in> set (i_syscalls demo_image)"
    "\<And>j. j < length (i_text demo_image) \<Longrightarrow> user_byte (fst demo_space) (text_vaddr demo_image + of_nat j) p' = Some (i_text demo_image ! j)"
    using compiled_program_loads [OF demo_file_props(1,3,2) i demo_loads(1) room] by blast
  have "user_byte (fst demo_space) 0x400102 p' = Some 3" using l(3) [of 2] by (simp add: demo_image_def)
  then show ?thesis using l(1,2) by (intro exI [of _ man] exI [of _ p']) (simp add: demo_image_def)
qed

end
