(* ===== verification/Process.thy ===== *)
theory Process
  imports Files Loading
begin

text \<open>
  Processes: \<open>thread_fork\<close>, \<open>thread_wait\<close> and \<open>thread_exit\<close> of \<open>stam/sched.c\<close>, which hold descriptors and a space, and \<open>do_fork\<close> and
  \<open>do_execve\<close> of \<open>stam/syscall.c\<close>. They work on the whole state \<open>kern\<close>; the processor's current space is the table it has
  installed. The frame of the interrupted program is the record \<open>regs\<close>. \<open>None\<close> is a fault at EL1 or a wait that has not ended.

  The thread that exits runs to the switch away from it without being preempted; \<open>Sched\<close> says what a preemption in between does.
\<close>

section \<open>The current thread\<close>

abbreviation curk :: "nat \<Rightarrow> kern \<Rightarrow> nat option" where "curk me s \<equiv> cur (cpus (k_sched s) me)"
abbreviation thk :: "kern \<Rightarrow> nat \<Rightarrow> thread" where "thk s c \<equiv> threads (k_sched s) ! c"
abbreviation table_of :: "nat \<Rightarrow> kern \<Rightarrow> u64" where "table_of me s \<equiv> user_table_of me (k_sched s)"
abbreviation mem_pages :: "kern \<Rightarrow> pmm" where "mem_pages s \<equiv> pages (k_sched s)"

definition on_sched :: "(sched \<Rightarrow> sched) \<Rightarrow> kern \<Rightarrow> kern" where
  "on_sched g s = s\<lparr>k_sched := g (k_sched s)\<rparr>"

definition with_pages :: "pmm \<Rightarrow> kern \<Rightarrow> kern" where
  "with_pages p s = on_sched (\<lambda>x. x\<lparr>pages := p\<rparr>) s"

definition set_fd :: "nat \<Rightarrow> nat \<Rightarrow> nat option \<Rightarrow> kern \<Rightarrow> kern" where
  "set_fd c i v s = on_sched (on_thread c (\<lambda>t. t\<lparr>fds := (fds t)[i := v]\<rparr>)) s"

section \<open>Fork\<close>

text \<open>The 34 words of the frame an exception leaves on the kernel stack.\<close>

definition frame_words :: "regs \<Rightarrow> u64 list" where
  "frame_words f = rx f @ [lr f, elr f, spsr f, sp_el0 f]"

definition put_frame :: "u64 \<Rightarrow> u64 list \<Rightarrow> wmem \<Rightarrow> wmem" where
  "put_frame a ws m = fold (\<lambda>(i, v) m. m(a + 8 * of_nat i := v)) (List.enumerate 0 ws) m"

definition ref_opt :: "nat option \<Rightarrow> kern \<Rightarrow> kern" where
  "ref_opt x s = (case x of Some f \<Rightarrow> file_ref f s | None \<Rightarrow> s)"

definition child_name :: bytes where "child_name = [99, 104, 105, 108, 100]"

text \<open>The kernel stack of the child: the canary at its low end, at its top the parent's frame with 0 for the value returned, and below that
  what the switch to the child pops.\<close>

definition fork_pages :: "u64 \<Rightarrow> regs \<Rightarrow> u64 \<Rightarrow> pmm \<Rightarrow> pmm" where
  "fork_pages stack f ret_to_user p =
     (let frame = stack + ucast STACK_PAGES * PAGE_SIZE - 272
      in p\<lparr>pm := switch_frame (frame - 96) [(11, ret_to_user)] (put_frame frame ((frame_words f)[0 := 0]) ((pm p)(stack := STACK_CANARY)))\<rparr>)"

definition fork_child :: "u64 \<Rightarrow> thread option \<Rightarrow> thread \<Rightarrow> thread" where
  "fork_child stack cu t =
     (let t1 = t\<lparr>stack_low := stack, sp := stack + ucast STACK_PAGES * PAGE_SIZE - 272 - 96, tstate := Runnable\<rparr>
      in case cu of Some c \<Rightarrow> t1\<lparr>blocked := blocked c, sigacts := sigacts c, fds := fds c, sav := sav c\<rparr> | None \<Rightarrow> t1)"

definition thread_fork :: "nat \<Rightarrow> regs \<Rightarrow> u64 \<Rightarrow> u64 \<Rightarrow> kern \<Rightarrow> nat option \<times> kern" where
  "thread_fork me f spc ret_to_user s =
     (case alloc_slot (k_sched s) of
        (None, sc) \<Rightarrow> (None, s\<lparr>k_sched := sc\<rparr>)
      | (Some i, sc) \<Rightarrow>
          let (stack, p) = alloc_pages (pages sc) STACK_PAGES
          in if stack = 0 then (None, s\<lparr>k_sched := on_thread i (\<lambda>t. t\<lparr>tstate := Free\<rparr>) (sc\<lparr>pages := p\<rparr>)\<rparr>)
             else let sc1 = slot_init me i child_name spc (sc\<lparr>pages := fork_pages stack f ret_to_user p\<rparr>); cu = current me sc1;
                      s1 = (case cu of Some c \<Rightarrow> fold ref_opt (fds c) (s\<lparr>k_sched := sc1\<rparr>) | None \<Rightarrow> s\<lparr>k_sched := sc1\<rparr>)
                  in (Some i, on_sched (on_thread i (fork_child stack cu)) s1))"

text \<open>The value returned to the parent: the id of the child or an error. A space that was copied is not freed when there is no room for
  the thread.\<close>

definition do_fork :: "nat \<Rightarrow> regs \<Rightarrow> u64 \<Rightarrow> kern \<Rightarrow> u64 \<times> kern" where
  "do_fork me f ret_to_user s =
     (let (child_space, p) = vm_copy_space (mmu_current_user_table_kva (table_of me s) (mem_pages s)) (mem_pages s);
          s1 = with_pages p s
      in if child_space = 0 then (- 12, s1)
         else case thread_fork me f child_space ret_to_user s1 of
           (None, s2) \<Rightarrow> (- 11, s2)
         | (Some i, s2) \<Rightarrow> (of_int (id_of (thk s2 i)), s2))"

section \<open>Exit\<close>

definition close_opt :: "nat \<Rightarrow> nat option \<Rightarrow> kern \<Rightarrow> kern option" where
  "close_opt d x s = (case x of Some f \<Rightarrow> file_close d f s | None \<Rightarrow> Some s)"

text \<open>The loop over the descriptors of thread \<open>c\<close>.\<close>

primrec close_fds :: "nat list \<Rightarrow> nat \<Rightarrow> nat \<Rightarrow> kern \<Rightarrow> kern option" where
  "close_fds [] d c s = Some s"
| "close_fds (i # is) d c s =
     (case close_opt d (fds (thk s c) ! i) s of None \<Rightarrow> None | Some s1 \<Rightarrow> close_fds is d c (set_fd c i None s1))"

definition thread_exit :: "nat \<Rightarrow> nat \<Rightarrow> u64 \<Rightarrow> u64 \<Rightarrow> int \<Rightarrow> kern \<Rightarrow> kern option" where
  "thread_exit me d now sp_now code s =
     (case curk me s of
        None \<Rightarrow> None
      | Some c \<Rightarrow>
          let spc = space (thk s c)
          in case close_fds [0..<NFD] d c (on_sched (become_zombie me code) s) of
               None \<Rightarrow> None
             | Some s1 \<Rightarrow>
                 let s2 = (if spc \<noteq> 0 then with_pages (vm_free_space spc (mem_pages s1)) s1 else s1)
                 in Some (on_sched (\<lambda>x. schedule me now sp_now (wake_parent me x)) s2))"

section \<open>Wait\<close>

text \<open>The loop of \<open>thread_wait\<close>: between two turns the thread sleeps and the others run.\<close>

primrec thread_wait :: "((kern \<Rightarrow> kern) \<times> place) list \<Rightarrow> place \<Rightarrow> kern \<Rightarrow> ((int \<times> int option) \<times> kern) option" where
  "thread_wait [] w s =
     (case thread_wait_turn (on_cpu_no w) (at_time w) (at_sp w) (k_sched s) of
        (Some r, x) \<Rightarrow> Some (r, s\<lparr>k_sched := x\<rparr>) | (None, x) \<Rightarrow> None)"
| "thread_wait (o1 # os) w s =
     (case thread_wait_turn (on_cpu_no w) (at_time w) (at_sp w) (k_sched s) of
        (Some r, x) \<Rightarrow> Some (r, s\<lparr>k_sched := x\<rparr>)
      | (None, x) \<Rightarrow> thread_wait os (snd o1) (fst o1 (s\<lparr>k_sched := x\<rparr>)))"

section \<open>Exec\<close>

definition MAX_ARGS :: nat where "MAX_ARGS = 16"
definition ARG_BYTES :: nat where "ARG_BYTES = 512"
definition STACK_VA :: u64 where "STACK_VA = 0x7f00100000"

primrec user_bytes :: "nat \<Rightarrow> u64 \<Rightarrow> u64 \<Rightarrow> pmm \<Rightarrow> bytes option" where
  "user_bytes 0 tb a p = Some []"
| "user_bytes (Suc n) tb a p =
     (case user_byte tb a p of None \<Rightarrow> None | Some b \<Rightarrow> map_option (Cons b) (user_bytes n tb (a + 1) p))"

text \<open>
  The arguments as the kernel copies them, each with its NUL, or the error: \<open>k\<close> more of them may follow the \<open>argc\<close> already copied,
  which take \<open>used\<close> bytes.
\<close>

primrec exec_args :: "nat \<Rightarrow> u64 \<Rightarrow> u64 \<Rightarrow> nat \<Rightarrow> nat \<Rightarrow> pmm \<Rightarrow> ((u64 + bytes list) \<times> pmm) option" where
  "exec_args 0 tb argv argc used p =
     (let (ok, p1) = user_ok tb (argv + 8 * of_nat argc) 8 False p
      in if \<not> ok then Some (Inl EFAULT, p1)
         else case user_word tb (argv + 8 * of_nat argc) p1 of
           None \<Rightarrow> None
         | Some w \<Rightarrow> Some (if w \<noteq> 0 then Inl (- 7) else Inr [], p1))"
| "exec_args (Suc k) tb argv argc used p =
     (let (ok, p1) = user_ok tb (argv + 8 * of_nat argc) 8 False p
      in if \<not> ok then Some (Inl EFAULT, p1)
         else case user_word tb (argv + 8 * of_nat argc) p1 of
           None \<Rightarrow> None
         | Some w \<Rightarrow>
             if w = 0 then Some (Inr [], p1)
             else case vm_user_strlen tb w (of_nat ARG_BYTES) p1 of
               None \<Rightarrow> None
             | Some None \<Rightarrow> Some (Inl EFAULT, p1)
             | Some (Some n) \<Rightarrow>
                 if used + n + 1 > ARG_BYTES then Some (Inl (- 7), p1)
                 else case user_bytes (n + 1) tb w p1 of
                   None \<Rightarrow> None
                 | Some bs \<Rightarrow>
                     map_option (\<lambda>(r, p2). (case r of Inl e \<Rightarrow> Inl e | Inr xs \<Rightarrow> Inr (bs # xs), p2))
                       (exec_args k tb argv (argc + 1) (used + n + 1) p1))"

text \<open>
  The pages a program read from the disk is staged in, filled and given back.
\<close>

definition drop_pages :: "u64 \<Rightarrow> nat \<Rightarrow> pmm \<Rightarrow> pmm" where
  "drop_pages a n p = fold (\<lambda>i g. free_page g (a + of_nat i * PAGE_SIZE)) [0..<n] p"

definition kernel_byte :: "pmm \<Rightarrow> mem" where
  "kernel_byte p a = byte_of (pm p (a AND NOT 7)) (unat (a AND 7))"

text \<open>Where the program is: the error, or its bytes, address and length, and the number of pages it is staged in.\<close>

definition exec_image :: "bytes \<Rightarrow> kern \<Rightarrow> ((u64 + mem \<times> u64 \<times> u64 \<times> nat) \<times> kern) option" where
  "exec_image name s =
     (case cpio_find (k_mem s) (archive_addr s) (archive_size s) name of
        None \<Rightarrow> None
      | Some (Some (at, len)) \<Rightarrow> Some (Inr (k_mem s, at, len, 0), s)
      | Some None \<Rightarrow>
          if \<not> mounted (k_fat s) then Some (Inl (- 2), s)
          else case fat_open name (k_fat s) of
            None \<Rightarrow> None
          | Some (None, v) \<Rightarrow> Some (Inl (- 2), s\<lparr>k_fat := v\<rparr>)
          | Some (Some ff, v) \<Rightarrow>
              if is_dir ff \<or> fsize ff = 0 then Some (Inl (- 2), s\<lparr>k_fat := v\<rparr>)
              else let n = (unat (fsize ff) + 4095) div 4096;
                       (at, p) = alloc_pages (mem_pages s) (of_nat n)
                   in if at = 0 then Some (Inl (- 12), with_pages p (s\<lparr>k_fat := v\<rparr>))
                      else case fat_read ff 0 (ucast (fsize ff)) v of
                        (None, v1) \<Rightarrow> Some (Inl (- 5), with_pages (drop_pages at n p) (s\<lparr>k_fat := v1\<rparr>))
                      | (Some bs, v1) \<Rightarrow>
                          (case store_bytes 0 at bs p of
                             None \<Rightarrow> None
                           | Some p1 \<Rightarrow>
                               if length bs \<noteq> unat (fsize ff) then Some (Inl (- 5), with_pages (drop_pages at n p1) (s\<lparr>k_fat := v1\<rparr>))
                               else Some (Inr (kernel_byte p1, at, ucast (fsize ff), n), with_pages p1 (s\<lparr>k_fat := v1\<rparr>))))"

text \<open>The arguments laid out in the stack's page, through the kernel's address of it, and the stack pointer's place in the page.\<close>

definition string_offsets :: "bytes list \<Rightarrow> nat list" where
  "string_offsets args = map (\<lambda>k. sum_list (map length (take k args))) [0..<length args]"

definition str_off :: "bytes list \<Rightarrow> nat" where
  "str_off args = (4096 - length (concat args)) div 16 * 16"

definition sp_off :: "bytes list \<Rightarrow> nat" where
  "sp_off args = str_off args - (8 * (length args + 3) + 15) div 16 * 16"

definition stack_words :: "bytes list \<Rightarrow> u64 list" where
  "stack_words args = of_nat (length args) # map (\<lambda>o1. STACK_VA + of_nat (str_off args + o1)) (string_offsets args) @ [0, 0]"

definition put_args :: "u64 \<Rightarrow> bytes list \<Rightarrow> pmm \<Rightarrow> pmm option" where
  "put_args page args p =
     (case store_bytes 0 (page + of_nat (str_off args)) (concat args) p of
        None \<Rightarrow> None
      | Some p1 \<Rightarrow> Some (p1\<lparr>pm := put_frame (page + of_nat (sp_off args)) (stack_words args) (pm p1)\<rparr>))"

definition exec_frame :: "u64 \<Rightarrow> bytes list \<Rightarrow> regs \<Rightarrow> regs" where
  "exec_frame start args f = f\<lparr>rx := replicate 30 0, elr := start, spsr := 0, sp_el0 := STACK_VA + of_nat (sp_off args)\<rparr>"

text \<open>The new space is installed for the loader; \<open>exec_back\<close> puts the old one back when the program cannot be loaded.\<close>

definition exec_space :: "nat \<Rightarrow> nat \<Rightarrow> u64 \<Rightarrow> kern \<Rightarrow> kern" where
  "exec_space me c spc s = on_sched (\<lambda>x. on_thread c (\<lambda>t. t\<lparr>space := spc\<rparr>) (mmu_switch_user me spc x)) s"

definition exec_back :: "nat \<Rightarrow> nat \<Rightarrow> u64 \<Rightarrow> u64 \<Rightarrow> u64 \<Rightarrow> nat \<Rightarrow> kern \<Rightarrow> kern" where
  "exec_back me c saved saved_space at n s =
     with_pages (drop_pages at n (mem_pages s)) (on_sched (\<lambda>x. on_thread c (\<lambda>t. t\<lparr>space := saved_space\<rparr>) (mmu_switch_user me saved x)) s)"

text \<open>From the image to the new program. A new space that could not be filled is not freed, nor is the old one.\<close>

definition exec_load :: "nat \<Rightarrow> nat \<Rightarrow> mem \<times> u64 \<times> u64 \<times> nat \<Rightarrow> bytes list \<Rightarrow> regs \<Rightarrow> kern \<Rightarrow> ((u64 \<times> regs) \<times> kern) option" where
  "exec_load me c img args f s =
     (let (m, at, len, n) = img; (spc, p) = vm_new_space (mem_pages s)
      in if spc = 0 then Some ((- 12, f), with_pages (drop_pages at n p) s)
         else let saved = mmu_current_user_table_kva (table_of me s) (mem_pages s); saved_space = space (thk s c);
                  s1 = exec_space me c spc (with_pages p s)
              in case elf_load spc m at len (mem_pages s1) of
                   None \<Rightarrow> None
                 | Some ((r, start, man), p1) \<Rightarrow>
                     if r \<noteq> 0 then Some ((- 8, f), exec_back me c saved saved_space at n (with_pages p1 s1))
                     else let (page, p2) = alloc_page p1
                          in if page = 0 then Some ((- 12, f), exec_back me c saved saved_space at n (with_pages p2 s1))
                             else let (r2, p3) = map_user_page spc STACK_VA page False p2
                                  in if r2 \<noteq> 0 then Some ((- 12, f), exec_back me c saved saved_space at n (with_pages p3 s1))
                                     else case put_args page args (drop_pages at n p3) of
                                       None \<Rightarrow> None
                                     | Some p4 \<Rightarrow>
                                         Some ((0, exec_frame start args f),
                                           on_sched (\<lambda>x. sig_exec_reset me (on_thread c (\<lambda>t. t\<lparr>sav := man\<rparr>) x)) (with_pages p4 s1)))"

definition do_execve :: "nat \<Rightarrow> u64 \<Rightarrow> u64 \<Rightarrow> regs \<Rightarrow> kern \<Rightarrow> ((u64 \<times> regs) \<times> kern) option" where
  "do_execve me path argv f s =
     (let tb = table_of me s; p = mem_pages s
      in if archive_size s = 0 \<and> \<not> mounted (k_fat s) then Some ((- 2, f), s)
         else case vm_user_strlen tb path 63 p of
           None \<Rightarrow> None
         | Some None \<Rightarrow> Some ((EFAULT, f), s)
         | Some (Some n) \<Rightarrow>
             (case user_bytes n tb path p of
                None \<Rightarrow> None
              | Some name \<Rightarrow>
                  (case (if argv = 0 then Some (Inr [], p) else exec_args MAX_ARGS tb argv 0 0 p) of
                     None \<Rightarrow> None
                   | Some (Inl e, p1) \<Rightarrow> Some ((e, f), with_pages p1 s)
                   | Some (Inr xs, p1) \<Rightarrow>
                       let args = (if xs = [] then [name @ [0]] else xs)
                       in case exec_image name (with_pages p1 s) of
                            None \<Rightarrow> None
                          | Some (Inl e, s1) \<Rightarrow> Some ((e, f), s1)
                          | Some (Inr img, s1) \<Rightarrow>
                              (case curk me s1 of None \<Rightarrow> None | Some c \<Rightarrow> exec_load me c img args f s1))))"

end
