(* ===== verification/Syscall.thy ===== *)
theory Syscall
  imports Process
begin

text \<open>
  The system calls: \<open>stam/syscall.c\<close>. A call is given the circumstances \<open>scene\<close> of a call that may wait (see \<open>Files\<close>); the processor that
  makes it is the one named there. Bytes go to and come from the caller's memory through the tables of its space, after the
  checks the code makes; a buffer is filled when the call that fills it returns. \<open>None\<close> is a fault at EL1 or a wait that has not ended.
  The messages the kernel prints are left out.
\<close>

section \<open>Numbers\<close>

definition SYS_DUP :: u64 where "SYS_DUP = 23"
definition SYS_DUP3 :: u64 where "SYS_DUP3 = 24"
definition SYS_IOCTL :: u64 where "SYS_IOCTL = 29"
definition SYS_MKDIRAT :: u64 where "SYS_MKDIRAT = 34"
definition SYS_UNLINKAT :: u64 where "SYS_UNLINKAT = 35"
definition SYS_OPENAT :: u64 where "SYS_OPENAT = 56"
definition SYS_CLOSE :: u64 where "SYS_CLOSE = 57"
definition SYS_PIPE2 :: u64 where "SYS_PIPE2 = 59"
definition SYS_GETDENTS64 :: u64 where "SYS_GETDENTS64 = 61"
definition SYS_READ :: u64 where "SYS_READ = 63"
definition SYS_WRITE :: u64 where "SYS_WRITE = 64"
definition SYS_EXIT :: u64 where "SYS_EXIT = 93"
definition SYS_KILL :: u64 where "SYS_KILL = 129"
definition SYS_RT_SIGACTION :: u64 where "SYS_RT_SIGACTION = 134"
definition SYS_RT_SIGRETURN :: u64 where "SYS_RT_SIGRETURN = 139"
definition SYS_SETPGID :: u64 where "SYS_SETPGID = 154"
definition SYS_GETPGID :: u64 where "SYS_GETPGID = 155"
definition SYS_GETPID :: u64 where "SYS_GETPID = 172"
definition SYS_SOCKET :: u64 where "SYS_SOCKET = 198"
definition SYS_BIND :: u64 where "SYS_BIND = 200"
definition SYS_LISTEN :: u64 where "SYS_LISTEN = 201"
definition SYS_ACCEPT :: u64 where "SYS_ACCEPT = 202"
definition SYS_CONNECT :: u64 where "SYS_CONNECT = 203"
definition SYS_SENDTO :: u64 where "SYS_SENDTO = 206"
definition SYS_RECVFROM :: u64 where "SYS_RECVFROM = 207"
definition SYS_CLONE :: u64 where "SYS_CLONE = 220"
definition SYS_EXECVE :: u64 where "SYS_EXECVE = 221"
definition SYS_ACCEPT4 :: u64 where "SYS_ACCEPT4 = 242"
definition SYS_WAIT4 :: u64 where "SYS_WAIT4 = 260"

lemmas sys_numbers =
  SYS_DUP_def SYS_DUP3_def SYS_IOCTL_def SYS_MKDIRAT_def SYS_UNLINKAT_def SYS_OPENAT_def SYS_CLOSE_def SYS_PIPE2_def SYS_GETDENTS64_def
  SYS_READ_def SYS_WRITE_def SYS_EXIT_def SYS_KILL_def SYS_RT_SIGACTION_def SYS_RT_SIGRETURN_def SYS_SETPGID_def SYS_GETPGID_def
  SYS_GETPID_def SYS_SOCKET_def SYS_BIND_def SYS_LISTEN_def SYS_ACCEPT_def SYS_CONNECT_def SYS_SENDTO_def SYS_RECVFROM_def SYS_CLONE_def
  SYS_EXECVE_def SYS_ACCEPT4_def SYS_WAIT4_def

definition TIOCGPGRP :: u64 where "TIOCGPGRP = 0x540f"
definition TIOCSPGRP :: u64 where "TIOCSPGRP = 0x5410"
definition AF_INET :: u64 where "AF_INET = 2"
definition SOCK_STREAM :: u32 where "SOCK_STREAM = 1"
definition SOCK_DGRAM :: u32 where "SOCK_DGRAM = 2"
definition O_WRONLY :: u64 where "O_WRONLY = 1"
definition O_CREAT :: u64 where "O_CREAT = 64"
definition O_APPEND :: u64 where "O_APPEND = 1024"
definition WNOHANG :: u64 where "WNOHANG = 1"
definition SOCKADDR_LEN :: u64 where "SOCKADDR_LEN = 16"

abbreviation EBADF :: u64 where "EBADF \<equiv> - 9"
abbreviation EMFILE :: u64 where "EMFILE \<equiv> - 24"

section \<open>Descriptors\<close>

definition fd_get :: "nat \<Rightarrow> u64 \<Rightarrow> kern \<Rightarrow> nat option" where
  "fd_get c fd s = (if fd \<ge> of_nat NFD then None else fds (thk s c) ! unat fd)"

definition fd_alloc :: "nat \<Rightarrow> nat \<Rightarrow> kern \<Rightarrow> nat option \<times> kern" where
  "fd_alloc c f s =
     (case List.find (\<lambda>i. fds (thk s c) ! i = None) [0..<NFD] of
        None \<Rightarrow> (None, s)
      | Some i \<Rightarrow> (Some i, set_fd c i (Some f) s))"

text \<open>A new object behind the lowest free descriptor; the object goes again when there is none.\<close>

definition fd_install :: "nat \<Rightarrow> nat \<Rightarrow> nat \<Rightarrow> kern \<Rightarrow> (u64 \<times> kern) option" where
  "fd_install d c f s =
     (case fd_alloc c f s of
        (Some i, s1) \<Rightarrow> Some (of_nat i, s1)
      | (None, s1) \<Rightarrow> map_option (\<lambda>s2. (EMFILE, s2)) (file_close d f s1))"

definition syscall_open_stdio :: "nat \<Rightarrow> kern \<Rightarrow> kern" where
  "syscall_open_stdio c s =
     fold (\<lambda>i s. if fds (thk s c) ! i = None then (case file_console s of (f, s1) \<Rightarrow> set_fd c i f s1) else s) [0..<3] s"

definition sys_dup :: "nat \<Rightarrow> nat \<Rightarrow> u64 \<Rightarrow> kern \<Rightarrow> (u64 \<times> kern) option" where
  "sys_dup d c a s =
     (case fd_get c a s of
        None \<Rightarrow> Some (EBADF, s)
      | Some f \<Rightarrow> fd_install d c f (file_ref f s))"

definition sys_dup3 :: "nat \<Rightarrow> nat \<Rightarrow> u64 \<Rightarrow> u64 \<Rightarrow> kern \<Rightarrow> (u64 \<times> kern) option" where
  "sys_dup3 d c a b s =
     (case fd_get c a s of
        None \<Rightarrow> Some (EBADF, s)
      | Some f \<Rightarrow>
          if b \<ge> of_nat NFD then Some (EBADF, s)
          else if a = b then Some (- 22, s)
          else map_option (\<lambda>s1. (b, set_fd c (unat b) (Some f) s1)) (close_opt d (fds (thk s c) ! unat b) (file_ref f s)))"

definition sys_close :: "nat \<Rightarrow> nat \<Rightarrow> u64 \<Rightarrow> kern \<Rightarrow> (u64 \<times> kern) option" where
  "sys_close d c a s =
     (case fd_get c a s of
        None \<Rightarrow> Some (EBADF, s)
      | Some f \<Rightarrow> map_option (\<lambda>s1. (0, set_fd c (unat a) None s1)) (file_close d f s))"

section \<open>The caller's memory\<close>

text \<open>Bytes stored through the caller's tables.\<close>

definition put_user :: "u64 \<Rightarrow> u64 \<Rightarrow> bytes \<Rightarrow> kern \<Rightarrow> kern option" where
  "put_user tb a bs s = map_option (\<lambda>p. with_pages p s) (store_bytes tb a bs (mem_pages s))"

definition user_okk :: "u64 \<Rightarrow> u64 \<Rightarrow> u64 \<Rightarrow> bool \<Rightarrow> kern \<Rightarrow> bool \<times> kern" where
  "user_okk tb a len wr s = (let (ok, p) = user_ok tb a len wr (mem_pages s) in (ok, with_pages p s))"

section \<open>Reading and writing\<close>

definition sys_write :: "scene \<Rightarrow> nat \<Rightarrow> u64 \<Rightarrow> u64 \<Rightarrow> u64 \<Rightarrow> u64 \<Rightarrow> kern \<Rightarrow> (u64 \<times> kern) option" where
  "sys_write sc c tb fd buf len s =
     (case fd_get c fd s of
        None \<Rightarrow> Some (EBADF, s)
      | Some f \<Rightarrow>
          let (ok, s1) = user_okk tb buf len False s
          in if \<not> ok then Some (EFAULT, s1)
             else case user_bytes (unat len) tb buf (mem_pages s1) of
               None \<Rightarrow> None
             | Some bs \<Rightarrow> map_option (\<lambda>(r, s2). (of_int r, s2)) (file_write sc f bs s1))"

definition sys_read :: "scene \<Rightarrow> nat \<Rightarrow> u64 \<Rightarrow> u64 \<Rightarrow> u64 \<Rightarrow> u64 \<Rightarrow> kern \<Rightarrow> (u64 \<times> kern) option" where
  "sys_read sc c tb fd buf len s =
     (case fd_get c fd s of
        None \<Rightarrow> Some (EBADF, s)
      | Some f \<Rightarrow>
          if len = 0 then Some (0, s)
          else let (ok, s1) = user_okk tb buf len True s
               in if \<not> ok then Some (EFAULT, s1)
                  else case file_read sc f len s1 of
                    None \<Rightarrow> None
                  | Some ((r, bs), s2) \<Rightarrow> map_option (\<lambda>s3. (of_int r, s3)) (put_user tb buf bs s2))"

definition sys_getdents :: "nat \<Rightarrow> u64 \<Rightarrow> u64 \<Rightarrow> u64 \<Rightarrow> u64 \<Rightarrow> kern \<Rightarrow> (u64 \<times> kern) option" where
  "sys_getdents c tb a b len s =
     (let (ok, s1) = user_okk tb b len True s
      in if \<not> ok then Some (EFAULT, s1)
         else case fd_get c (scast (ucast a :: u32)) s1 of
           None \<Rightarrow> Some (EBADF, s1)
         | Some f \<Rightarrow>
             (case file_getdents f len s1 of
                None \<Rightarrow> None
              | Some ((r, bs), s2) \<Rightarrow> map_option (\<lambda>s3. (of_int r, s3)) (put_user tb b bs s2)))"

definition open_mode :: "u64 \<Rightarrow> int" where
  "open_mode fl = (if fl AND O_APPEND \<noteq> 0 then OPEN_APPEND else if fl AND (O_WRONLY OR O_CREAT) \<noteq> 0 then OPEN_WRITE else OPEN_READ)"

definition sys_openat :: "nat \<Rightarrow> nat \<Rightarrow> u64 \<Rightarrow> u64 \<Rightarrow> u64 \<Rightarrow> kern \<Rightarrow> (u64 \<times> kern) option" where
  "sys_openat d c tb b fl s =
     (case vm_user_strlen tb b 63 (mem_pages s) of
        None \<Rightarrow> None
      | Some None \<Rightarrow> Some (EFAULT, s)
      | Some (Some n) \<Rightarrow>
          (case user_bytes n tb b (mem_pages s) of
             None \<Rightarrow> None
           | Some name \<Rightarrow>
               (case file_open name (open_mode fl) s of
                  None \<Rightarrow> None
                | Some ((rc, None), s1) \<Rightarrow> Some (of_int rc, s1)
                | Some ((rc, Some f), s1) \<Rightarrow> if rc < 0 then Some (of_int rc, s1) else fd_install d c f s1)))"

definition sys_pipe2 :: "nat \<Rightarrow> nat \<Rightarrow> u64 \<Rightarrow> u64 \<Rightarrow> kern \<Rightarrow> (u64 \<times> kern) option" where
  "sys_pipe2 d c tb a s =
     (let (ok, s1) = user_okk tb a 8 True s
      in if \<not> ok then Some (EFAULT, s1)
         else case file_pipe s1 of
           (None, s2) \<Rightarrow> Some (EMFILE, s2)
         | (Some (r, w), s2) \<Rightarrow>
             let (rf, s3) = fd_alloc c r s2; (wf, s4) = (if rf = None then (None, s3) else fd_alloc c w s3)
             in case (rf, wf) of
                  (Some i, Some j) \<Rightarrow>
                    map_option (\<lambda>s5. (0, s5)) (put_user tb a (le_bytes 4 (of_nat i :: u32) @ le_bytes 4 (of_nat j :: u32)) s4)
                | _ \<Rightarrow>
                    (let s5 = (case rf of Some i \<Rightarrow> set_fd c i None s4 | None \<Rightarrow> s4)
                     in case file_close d r s5 of None \<Rightarrow> None | Some s6 \<Rightarrow> map_option (\<lambda>s7. (EMFILE, s7)) (file_close d w s6)))"

text \<open>\<open>mkdirat\<close> and \<open>unlinkat\<close>.\<close>

definition sys_dir :: "bool \<Rightarrow> u64 \<Rightarrow> u64 \<Rightarrow> u64 \<Rightarrow> kern \<Rightarrow> (u64 \<times> kern) option" where
  "sys_dir mkd tb a b s =
     (if (scast (ucast a :: u32) :: u64) \<noteq> - 100 then Some (- 22, s)
      else case vm_user_strlen tb b 127 (mem_pages s) of
        None \<Rightarrow> None
      | Some None \<Rightarrow> Some (EFAULT, s)
      | Some (Some n) \<Rightarrow>
          (case user_bytes n tb b (mem_pages s) of
             None \<Rightarrow> None
           | Some path \<Rightarrow>
               if \<not> mounted (k_fat s) then Some (- 30, s)
               else case (if mkd then fat_mkdir path (k_fat s) else fat_unlink path (k_fat s)) of
                 None \<Rightarrow> None
               | Some (ok, v) \<Rightarrow> Some (if ok then 0 else - 2, s\<lparr>k_fat := if ok then fat_sync v else v\<rparr>)))"

section \<open>Sockets\<close>

datatype sockaddr = BadFamily | BadPointer | Address u32 u16

definition sockaddr_read :: "u64 \<Rightarrow> u64 \<Rightarrow> u64 \<Rightarrow> kern \<Rightarrow> (sockaddr \<times> kern) option" where
  "sockaddr_read tb va len s =
     (if len < SOCKADDR_LEN then Some (BadFamily, s)
      else let (ok, s1) = user_okk tb va SOCKADDR_LEN False s
           in if \<not> ok then Some (BadPointer, s1)
              else case user_bytes 8 tb va (mem_pages s1) of
                None \<Rightarrow> None
              | Some p \<Rightarrow>
                  Some (if ucast (le16 (p ! 0) (p ! 1)) \<noteq> AF_INET then BadFamily else Address (be32 p 4) (be16 p 2), s1))"

definition sockaddr_bytes :: "u32 \<Rightarrow> u16 \<Rightarrow> bytes" where
  "sockaddr_bytes ip p = [2, 0] @ put16 p @ put32 ip @ replicate 8 0"

text \<open>The peer's address and its length, where the caller asked for them.\<close>

definition put_peer :: "u64 \<Rightarrow> u64 \<Rightarrow> u64 \<Rightarrow> u32 \<Rightarrow> u16 \<Rightarrow> kern \<Rightarrow> kern option" where
  "put_peer tb addr alen ip p s =
     (if addr = 0 then Some s
      else case put_user tb addr (sockaddr_bytes ip p) s of
        None \<Rightarrow> None
      | Some s1 \<Rightarrow> if alen = 0 then Some s1 else put_user tb alen (le_bytes 4 (16 :: u32)) s1)"

text \<open>The checks of the pointers the address goes to.\<close>

definition peer_ok :: "u64 \<Rightarrow> u64 \<Rightarrow> u64 \<Rightarrow> kern \<Rightarrow> bool \<times> kern" where
  "peer_ok tb addr alen s =
     (if addr = 0 then (True, s)
      else let (ok, s1) = user_okk tb addr SOCKADDR_LEN True s
           in if \<not> ok then (False, s1) else if alen = 0 then (True, s1) else user_okk tb alen 4 True s1)"

definition sys_socket :: "nat \<Rightarrow> nat \<Rightarrow> u64 \<Rightarrow> u64 \<Rightarrow> kern \<Rightarrow> (u64 \<times> kern) option" where
  "sys_socket d c domain type s =
     (if domain \<noteq> AF_INET then Some (- 97, s)
      else if \<not> is_up (k_net s) then Some (- 97, s)
      else let kind = (ucast type :: u32) AND 15
           in if kind \<noteq> SOCK_DGRAM \<and> kind \<noteq> SOCK_STREAM then Some (- 93, s)
              else case (if kind = SOCK_STREAM then file_tcp d s else Some (file_udp s)) of
                None \<Rightarrow> None
              | Some ((e, None), s1) \<Rightarrow> Some (of_int e, s1)
              | Some ((e, Some f), s1) \<Rightarrow> if e < 0 then Some (of_int e, s1) else fd_install d c f s1)"

definition sock_of :: "(nat \<Rightarrow> kern \<Rightarrow> nat option) \<Rightarrow> nat \<Rightarrow> u64 \<Rightarrow> kern \<Rightarrow> nat option" where
  "sock_of g c fd s = (case fd_get c fd s of None \<Rightarrow> None | Some f \<Rightarrow> g f s)"

definition sys_bind :: "nat \<Rightarrow> u64 \<Rightarrow> u64 \<Rightarrow> u64 \<Rightarrow> u64 \<Rightarrow> kern \<Rightarrow> (u64 \<times> kern) option" where
  "sys_bind c tb fd addr len s =
     (let u = sock_of file_udp_sock c fd s; t = sock_of file_tcp_conn c fd s
      in if u = None \<and> t = None then Some (- 88, s)
         else case sockaddr_read tb addr len s of
           None \<Rightarrow> None
         | Some (BadPointer, s1) \<Rightarrow> Some (EFAULT, s1)
         | Some (BadFamily, s1) \<Rightarrow> Some (- 22, s1)
         | Some (Address ip p, s1) \<Rightarrow>
             if ip \<noteq> 0 \<and> ip \<noteq> my_ip (k_net s1) then Some (- 99, s1)
             else case t of
               Some k \<Rightarrow> (let (r, n) = tcp_bind k p (k_net s1) in Some (of_int r, s1\<lparr>k_net := n\<rparr>))
             | None \<Rightarrow>
                 (case u of
                    None \<Rightarrow> None
                  | Some k \<Rightarrow> (let (ok, n) = udp_bind k p (k_net s1) in Some (if ok then 0 else - 98, s1\<lparr>k_net := n\<rparr>))))"

definition sys_connect :: "nat \<Rightarrow> nat \<Rightarrow> u64 \<Rightarrow> u64 \<Rightarrow> u64 \<Rightarrow> u64 \<Rightarrow> kern \<Rightarrow> (u64 \<times> kern) option" where
  "sys_connect d c tb fd addr len s =
     (case sock_of file_tcp_conn c fd s of
        None \<Rightarrow> Some (- 88, s)
      | Some k \<Rightarrow>
          (case sockaddr_read tb addr len s of
             None \<Rightarrow> None
           | Some (BadPointer, s1) \<Rightarrow> Some (EFAULT, s1)
           | Some (BadFamily, s1) \<Rightarrow> Some (- 22, s1)
           | Some (Address ip p, s1) \<Rightarrow> map_option (\<lambda>(r, n). (of_int r, s1\<lparr>k_net := n\<rparr>)) (tcp_connect d k ip p (k_net s1))))"

definition sys_listen :: "nat \<Rightarrow> u64 \<Rightarrow> kern \<Rightarrow> u64 \<times> kern" where
  "sys_listen c fd s =
     (case sock_of file_tcp_conn c fd s of
        None \<Rightarrow> (- 88, s)
      | Some k \<Rightarrow> (let (r, n) = tcp_listen k (k_net s) in (of_int r, s\<lparr>k_net := n\<rparr>)))"

definition sys_accept :: "nat \<Rightarrow> nat \<Rightarrow> u64 \<Rightarrow> u64 \<Rightarrow> u64 \<Rightarrow> u64 \<Rightarrow> kern \<Rightarrow> (u64 \<times> kern) option" where
  "sys_accept d c tb fd addr alen s =
     (case sock_of file_tcp_conn c fd s of
        None \<Rightarrow> Some (- 88, s)
      | Some l \<Rightarrow>
          let (ok, s1) = peer_ok tb addr alen s
          in if \<not> ok then Some (EFAULT, s1)
             else case tcp_accept d l (hz (k_net s1) * 10) (k_net s1) of
               None \<Rightarrow> None
             | Some (None, n) \<Rightarrow> Some (- 11, s1\<lparr>k_net := n\<rparr>)
             | Some (Some k, n) \<Rightarrow>
                 (case file_tcp_adopt d (Some k) (s1\<lparr>k_net := n\<rparr>) of
                    None \<Rightarrow> None
                  | Some ((e, None), s2) \<Rightarrow> Some (of_int e, s2)
                  | Some ((e, Some f), s2) \<Rightarrow>
                      (case fd_alloc c f s2 of
                         (None, s3) \<Rightarrow> map_option (\<lambda>s4. (EMFILE, s4)) (file_close d f s3)
                       | (Some i, s3) \<Rightarrow>
                           map_option (\<lambda>s4. (of_nat i, s4))
                             (put_peer tb addr alen (rip (tcps (k_net s3) ! k)) (rport (tcps (k_net s3) ! k)) s3))))"

definition sys_sendto :: "nat \<Rightarrow> nat \<Rightarrow> u64 \<Rightarrow> u64 \<Rightarrow> u64 \<Rightarrow> u64 \<Rightarrow> u64 \<Rightarrow> u64 \<Rightarrow> kern \<Rightarrow> (u64 \<times> kern) option" where
  "sys_sendto d c tb fd buf len addr alen s =
     (case sock_of file_udp_sock c fd s of
        None \<Rightarrow> Some (- 88, s)
      | Some k \<Rightarrow>
          let (ok, s1) = user_okk tb buf len False s
          in if \<not> ok then Some (EFAULT, s1)
             else case sockaddr_read tb addr alen s1 of
               None \<Rightarrow> None
             | Some (BadPointer, s2) \<Rightarrow> Some (EFAULT, s2)
             | Some (BadFamily, s2) \<Rightarrow> Some (- 22, s2)
             | Some (Address ip p, s2) \<Rightarrow>
                 (case user_bytes (unat (ucast len :: u32)) tb buf (mem_pages s2) of
                    None \<Rightarrow> None
                  | Some bs \<Rightarrow>
                      map_option (\<lambda>(ok, n). (if ok then len else - 101, s2\<lparr>k_net := n\<rparr>)) (udp_sendto (net_arp_resolve d) k ip p bs (k_net s2))))"

text \<open>The loop of \<open>sys_recvfrom\<close>: the datagram, or the deadline has passed.\<close>

primrec recvfrom_loop :: "nat \<Rightarrow> nat \<Rightarrow> nat \<Rightarrow> nat \<Rightarrow> u64 \<Rightarrow> net \<Rightarrow> ((bytes \<times> u32 \<times> u16) option \<times> net) option" where
  "recvfrom_loop 0 d k len deadline n = None"
| "recvfrom_loop (Suc fuel) d k len deadline n =
     (case net_poll d n of
        None \<Rightarrow> None
      | Some n1 \<Rightarrow>
          (case udp_recvfrom k len n1 of
             (Some r, n2) \<Rightarrow> Some (Some r, n2)
           | (None, n2) \<Rightarrow>
               if ticks n2 \<ge> deadline then Some (None, n2)
               else (case net_wait n2 of None \<Rightarrow> None | Some n3 \<Rightarrow> recvfrom_loop fuel d k len deadline n3)))"

definition sys_recvfrom :: "nat \<Rightarrow> nat \<Rightarrow> u64 \<Rightarrow> u64 \<Rightarrow> u64 \<Rightarrow> u64 \<Rightarrow> u64 \<Rightarrow> u64 \<Rightarrow> kern \<Rightarrow> (u64 \<times> kern) option" where
  "sys_recvfrom d c tb fd buf len addr alen s =
     (case sock_of file_udp_sock c fd s of
        None \<Rightarrow> Some (- 88, s)
      | Some k \<Rightarrow>
          let (ok, s1) = user_okk tb buf len True s
          in if \<not> ok then Some (EFAULT, s1)
             else let (ok2, s2) = peer_ok tb addr alen s1
                  in if \<not> ok2 then Some (EFAULT, s2)
                     else let (bound, n) = (if u_port (socks (k_net s2) ! k) = 0 then udp_bind k 0 (k_net s2) else (True, k_net s2))
                          in if \<not> bound then Some (- 98, s2\<lparr>k_net := n\<rparr>)
                             else case recvfrom_loop (Suc (length (future n))) d k (unat (ucast len :: u32)) (ticks n + hz n * 5) n of
                               None \<Rightarrow> None
                             | Some (None, n1) \<Rightarrow> Some (- 11, s2\<lparr>k_net := n1\<rparr>)
                             | Some (Some (bs, ip, p), n1) \<Rightarrow>
                                 (case put_user tb buf bs (s2\<lparr>k_net := n1\<rparr>) of
                                    None \<Rightarrow> None
                                  | Some s3 \<Rightarrow> map_option (\<lambda>s4. (of_nat (length bs), s4)) (put_peer tb addr alen ip p s3)))"

section \<open>Processes and the terminal\<close>

definition int_of :: "u64 \<Rightarrow> int" where
  "int_of a = sint (ucast a :: u32)"

definition sys_wait4 :: "scene \<Rightarrow> u64 \<Rightarrow> u64 \<Rightarrow> u64 \<Rightarrow> kern \<Rightarrow> (u64 \<times> kern) option" where
  "sys_wait4 sc tb b fl s =
     (let (ok, s1) = (if b = 0 then (True, s) else user_okk tb b 4 True s)
      in if \<not> ok then Some (EFAULT, s1)
         else case (if fl AND WNOHANG \<noteq> 0
                    then Some (let (r, x) = thread_reap (on_cpu_no (here sc)) (k_sched s1) in (r, s1\<lparr>k_sched := x\<rparr>))
                    else thread_wait (others sc) (here sc) s1) of
           None \<Rightarrow> None
         | Some ((i, code), s2) \<Rightarrow>
             if i = 0 \<and> fl AND WNOHANG \<noteq> 0 then Some (0, s2)
             else if i < 0 then Some (- 10, s2)
             else if b = 0 then Some (of_int i, s2)
             else let (ok2, s3) = user_okk tb b 4 True s2
                  in if \<not> ok2 then Some (EFAULT, s3)
                     else map_option (\<lambda>s4. (of_int i, s4))
                       (put_user tb b (le_bytes 4 (push_bit 8 (of_int (case code of Some e \<Rightarrow> e | None \<Rightarrow> 0) AND 255) :: u32)) s3))"

definition sys_ioctl :: "nat \<Rightarrow> u64 \<Rightarrow> u64 \<Rightarrow> u64 \<Rightarrow> u64 \<Rightarrow> kern \<Rightarrow> (u64 \<times> kern) option" where
  "sys_ioctl c tb a b p s =
     (case fd_get c a s of
        None \<Rightarrow> Some (EBADF, s)
      | Some f \<Rightarrow>
          if b = TIOCSPGRP then
            (let (ok, s1) = user_okk tb p 4 False s
             in if \<not> ok then Some (EFAULT, s1)
                else case user_bytes 4 tb p (mem_pages s1) of
                  None \<Rightarrow> None
                | Some v \<Rightarrow> Some (0, s1\<lparr>k_con := console_set_foreground (sint (le32 (v ! 0) (v ! 1) (v ! 2) (v ! 3))) (k_con s1)\<rparr>))
          else if b = TIOCGPGRP then
            (let (ok, s1) = user_okk tb p 4 True s
             in if \<not> ok then Some (EFAULT, s1)
                else map_option (\<lambda>s2. (0, s2)) (put_user tb p (le_bytes 4 (of_int (fg_pgid (k_con s1)) :: u32)) s1))
          else Some (- 25, s))"

text \<open>The number of the signal is not checked; the processor shifts by its low five bits.\<close>

definition sys_kill :: "u64 \<Rightarrow> u64 \<Rightarrow> kern \<Rightarrow> u64 \<times> kern" where
  "sys_kill a b s =
     (let (n, x) = thread_signal (int_of a) (nat (int_of b mod 32)) (k_sched s) in (if n \<noteq> 0 then 0 else - 3, s\<lparr>k_sched := x\<rparr>))"

section \<open>The table of calls\<close>

text \<open>A call returns a value to the program, with the frame it returns through, or the program is gone.\<close>

datatype outcome = Returns u64 regs kern | Gone kern

definition ret :: "regs \<Rightarrow> (u64 \<times> kern) option \<Rightarrow> outcome option" where
  "ret f r = map_option (\<lambda>(v, s). Returns v f s) r"

definition do_syscall :: "scene \<Rightarrow> u64 \<Rightarrow> nat \<Rightarrow> u64 \<Rightarrow> u64 \<Rightarrow> u64 \<Rightarrow> u64 \<Rightarrow> regs \<Rightarrow> kern \<Rightarrow> outcome option" where
  "do_syscall sc ret_to_user c nr a b x f s =
     (let w = here sc; me = on_cpu_no w; d = nest sc; tb = table_of me s
      in if nr = SYS_READ then ret f (sys_read sc c tb a b x s)
         else if nr = SYS_SOCKET then ret f (sys_socket d c a b s)
         else if nr = SYS_BIND then ret f (sys_bind c tb a b x s)
         else if nr = SYS_CONNECT then ret f (sys_connect d c tb a b x s)
         else if nr = SYS_LISTEN then ret f (Some (sys_listen c a s))
         else if nr = SYS_ACCEPT4 then (if rx f ! 3 \<noteq> 0 then ret f (Some (- 22, s)) else ret f (sys_accept d c tb a b x s))
         else if nr = SYS_ACCEPT then ret f (sys_accept d c tb a b x s)
         else if nr = SYS_SENDTO then ret f (sys_sendto d c tb a b x (rx f ! 4) (rx f ! 5) s)
         else if nr = SYS_RECVFROM then ret f (sys_recvfrom d c tb a b x (rx f ! 4) (rx f ! 5) s)
         else if nr = SYS_CLONE then ret f (Some (do_fork me f ret_to_user s))
         else if nr = SYS_EXECVE then map_option (\<lambda>((v, f1), s1). Returns v f1 s1) (do_execve me a b f s)
         else if nr = SYS_WRITE then ret f (sys_write sc c tb a b x s)
         else if nr = SYS_GETPID then ret f (Some (of_int (id_of (thk s c)), s))
         else if nr = SYS_KILL then ret f (Some (sys_kill a b s))
         else if nr = SYS_SETPGID then
           ret f (Some (let (r, y) = thread_setpgid me (int_of a) (int_of b) (k_sched s) in (of_int r, s\<lparr>k_sched := y\<rparr>)))
         else if nr = SYS_GETPGID then ret f (Some (of_int (thread_pgid_of me (int_of a) (k_sched s)), s))
         else if nr = SYS_IOCTL then ret f (sys_ioctl c tb a b x s)
         else if nr = SYS_CLOSE then ret f (sys_close d c a s)
         else if nr = SYS_DUP then ret f (sys_dup d c a s)
         else if nr = SYS_DUP3 then ret f (sys_dup3 d c a b s)
         else if nr = SYS_OPENAT then ret f (sys_openat d c tb b x s)
         else if nr = SYS_PIPE2 then ret f (sys_pipe2 d c tb a s)
         else if nr = SYS_WAIT4 then ret f (sys_wait4 sc tb b x s)
         else if nr = SYS_RT_SIGACTION then
           ret f (Some (let (r, y) = sig_action me (int_of a) b x 0 (k_sched s) in (of_int r, s\<lparr>k_sched := y\<rparr>)))
         else if nr = SYS_GETDENTS64 then ret f (sys_getdents c tb a b x s)
         else if nr = SYS_MKDIRAT then ret f (sys_dir True tb a b s)
         else if nr = SYS_UNLINKAT then ret f (sys_dir False tb a b s)
         else if nr = SYS_RT_SIGRETURN then map_option (\<lambda>(v, f1, y). Returns v f1 (s\<lparr>k_sched := y\<rparr>)) (sig_return me f (k_sched s))
         else if nr = SYS_EXIT then map_option Gone (thread_exit me d (at_time w) (at_sp w) (int_of a) s)
         else ret f (Some (- 38, s)))"

text \<open>
  An exception from EL0 with syndrome \<open>esr\<close> and fault address \<open>far\<close>. The thread \<open>c\<close> may come back from a wait on another processor,
  \<open>back\<close>.
\<close>

definition after_syscall :: "nat \<Rightarrow> place \<Rightarrow> u64 \<Rightarrow> regs \<Rightarrow> kern \<Rightarrow> nat \<Rightarrow> outcome option" where
  "after_syscall d back v f s c =
     (let f1 = f\<lparr>rx := (rx f)[0 := v]\<rparr>; sig = thread_signalled (thk s c)
      in if sig = 0 then Some (Returns v f1 s)
         else case sig_deliver (on_cpu_no back) sig f1 (k_sched s) of
           None \<Rightarrow> None
         | Some ((True, f2), x) \<Rightarrow> Some (Returns v f2 (s\<lparr>k_sched := x\<rparr>))
         | Some ((False, f2), x) \<Rightarrow>
             map_option Gone (thread_exit (on_cpu_no back) d (at_time back) (at_sp back) (128 + int sig) (s\<lparr>k_sched := x\<rparr>)))"

definition handle_user_sync :: "scene \<Rightarrow> place \<Rightarrow> u64 \<Rightarrow> u64 \<Rightarrow> u64 \<Rightarrow> regs \<Rightarrow> kern \<Rightarrow> outcome option" where
  "handle_user_sync sc back ret_to_user esr far f s =
     (let w = here sc; me = on_cpu_no w; d = nest sc
      in case curk me s of
           None \<Rightarrow> None
         | Some c \<Rightarrow>
             if drop_bit 26 esr = 0x15 then
               (if sav_present (sav (thk s c)) \<and> \<not> sav_allows (sav (thk s c)) (rx f ! 8) then
                  map_option Gone (thread_exit me d (at_time w) (at_sp w) (128 + 31) s)
                else case do_syscall sc ret_to_user c (rx f ! 8) (rx f ! 0) (rx f ! 1) (rx f ! 2) f s of
                  None \<Rightarrow> None
                | Some (Gone s1) \<Rightarrow> Some (Gone s1)
                | Some (Returns v f1 s1) \<Rightarrow> after_syscall d back v f1 s1 c)
             else let (r, p) = (if drop_bit 26 esr = 0x24 \<and> bit esr 6 then vm_cow_fault (table_of me s) far (mem_pages s) else (- 1, mem_pages s))
                  in if r = 0 then Some (Returns (rx f ! 0) f (with_pages p s))
                     else map_option Gone (thread_exit me d (at_time w) (at_sp w) (- 1) (with_pages p s)))"

end
