(* ===== verification/Holding.thy ===== *)
theory Holding
  imports Syscall
begin

text \<open>
  Who holds an open file. The table of \<open>file.c\<close> counts the holders of each open file, and the descriptors of the processes are what it
  counts: over every run of the kernel the count of an open file is the number of descriptors, of all processes, that name it. A
  descriptor never names a free slot of the table, and a file nobody names is closed.

  Inside a call the two differ by the references the call has in hand; \<open>holding X K s\<close> states the balance with \<open>K f\<close> more counted on file
  \<open>f\<close> than the descriptors account for. Each operation of \<open>file.c\<close> moves \<open>K\<close> in a known way and a store to a descriptor
  moves it back.
\<close>

section \<open>Descriptors of all processes\<close>

definition desc :: "sched \<Rightarrow> nat \<Rightarrow> int" where
  "desc x f = int (count_list (concat (map fds (threads x))) (Some f))"

definition ended :: "thread \<Rightarrow> bool" where
  "ended t \<longleftrightarrow> tstate t = Free \<or> tstate t = Zombie"

definition fds_ok :: "thread \<Rightarrow> bool" where
  "fds_ok t \<longleftrightarrow> length (fds t) = NFD \<and> (\<forall>f. Some f \<in> set (fds t) \<longrightarrow> f < NFILE)"

text \<open>Slots not yet used and processes that are gone have no descriptors; processors run threads of the table. The threads of \<open>X\<close> are on the
  way out and may still have some.\<close>

definition wf_fds :: "nat set \<Rightarrow> sched \<Rightarrow> bool" where
  "wf_fds X x \<longleftrightarrow> length (threads x) = MAX_THREADS \<and> n_threads x \<le> MAX_THREADS \<and> (\<forall>t \<in> set (threads x). fds_ok t) \<and>
     (\<forall>i < MAX_THREADS. i \<notin> X \<and> (n_threads x \<le> i \<or> ended (thr x i)) \<longrightarrow> set (fds (thr x i)) \<subseteq> {None}) \<and>
     (\<forall>m c. curof x m = Some c \<or> idleof x m = Some c \<longrightarrow> c < n_threads x)"

definition counted :: "(nat \<Rightarrow> int) \<Rightarrow> kern \<Rightarrow> bool" where
  "counted T s \<longleftrightarrow> (\<forall>f < NFILE. if f_kind (files s ! f) = FILE_FREE then T f = 0 else f_refs (files s ! f) = T f \<and> 0 < T f)"

definition holding :: "nat set \<Rightarrow> (nat \<Rightarrow> int) \<Rightarrow> kern \<Rightarrow> bool" where
  "holding X K s \<longleftrightarrow> files_ok s \<and> wf_fds X (k_sched s) \<and> counted (\<lambda>f. desc (k_sched s) f + K f) s"

abbreviation fd_ok :: "kern \<Rightarrow> bool" where "fd_ok \<equiv> holding {} (\<lambda>_. 0)"

definition plus_one :: "nat \<Rightarrow> (nat \<Rightarrow> int) \<Rightarrow> nat \<Rightarrow> int" where
  "plus_one f K = K(f := K f + 1)"

definition minus_one :: "nat \<Rightarrow> (nat \<Rightarrow> int) \<Rightarrow> nat \<Rightarrow> int" where
  "minus_one f K = K(f := K f - 1)"

lemma plus_minus [simp]: "minus_one f (plus_one f K) = K" "plus_one f (minus_one f K) = K"
  "plus_one f (plus_one g K) = plus_one g (plus_one f K) \<longleftrightarrow> True" "minus_one f (plus_one g K) = plus_one g (minus_one f K) \<longleftrightarrow> True"
  by (auto simp: plus_one_def minus_one_def)

section \<open>Counting\<close>

lemma count_list_update:
  "i < length xs \<Longrightarrow> int (count_list (xs[i := v]) y) = int (count_list xs y) - (if xs ! i = y then 1 else 0) + (if v = y then 1 else 0)"
proof (induction xs arbitrary: i)
  case (Cons x xs)
  show ?case
  proof (cases i)
    case (Suc j)
    then show ?thesis using Cons.IH [of j] Cons.prems by auto
  qed auto
qed simp

lemma count_concat_update:
  "i < length xss \<Longrightarrow> int (count_list (concat (xss[i := ys])) y) = int (count_list (concat xss) y) - int (count_list (xss ! i) y) + int (count_list ys y)"
proof (induction xss arbitrary: i)
  case (Cons xs xss)
  show ?case
  proof (cases i)
    case (Suc j)
    then show ?thesis using Cons.IH [of j] Cons.prems by simp
  qed simp
qed simp

lemma desc_on_thread:
  assumes "c < length (threads x)"
  shows "desc (on_thread c g x) f = desc x f - int (count_list (fds (thr x c)) (Some f)) + int (count_list (fds (g (thr x c))) (Some f))"
  using count_concat_update [of c "map fds (threads x)" "fds (g (thr x c))" "Some f"] assms
  by (simp add: desc_def on_thread_def map_update)

lemma desc_nonneg: "0 \<le> desc x f" by (simp add: desc_def)

lemma desc_pos:
  assumes "c < length (threads x)" "Some f \<in> set (fds (thr x c))"
  shows "0 < desc x f"
proof -
  have "Some f \<in> set (concat (map fds (threads x)))" using assms nth_mem by fastforce
  then have "count_list (concat (map fds (threads x))) (Some f) \<noteq> 0" by (simp only: count_list_0_iff not_not)
  then show ?thesis by (simp add: desc_def)
qed

lemma count_none: "set xs \<subseteq> {None} \<Longrightarrow> count_list xs (Some f) = 0"
  by (auto simp: count_list_0_iff)

section \<open>What leaves the descriptors alone\<close>

text \<open>The scheduler's operations leave the descriptors of every thread alone and end none.\<close>

definition fd_keep :: "sched \<Rightarrow> sched \<Rightarrow> bool" where
  "fd_keep x y \<longleftrightarrow> n_threads y = n_threads x \<and> map fds (threads y) = map fds (threads x) \<and>
     (\<forall>i < length (threads x). ended (thr y i) \<longrightarrow> ended (thr x i)) \<and>
     (\<forall>m c. curof y m = Some c \<or> idleof y m = Some c \<longrightarrow>
        c < n_threads x \<or> (\<exists>m'. curof x m' = Some c \<or> idleof x m' = Some c))"

lemma fd_keep_refl [simp]: "fd_keep x x" by (auto simp: fd_keep_def)

lemma fd_keep_trans:
  assumes "fd_keep x y" "fd_keep y z"
  shows "fd_keep x z"
proof -
  have "length (threads y) = length (threads x)" using assms(1) by (metis fd_keep_def length_map)
  then show ?thesis using assms unfolding fd_keep_def by (metis (no_types, lifting))
qed

lemma fd_keep_thread:
  assumes "fds (g (thr x i)) = fds (thr x i)" "ended (g (thr x i)) \<Longrightarrow> ended (thr x i)"
  shows "fd_keep x (on_thread i g x)"
proof -
  have "(map fds (threads x))[i := fds (thr x i)] = map fds (threads x)" by (cases "i < length (threads x)") (simp_all add: list_update_same_conv list_update_beyond)
  moreover have "ended ((threads x)[i := g (thr x i)] ! j) \<longrightarrow> ended (thr x j)" if "j < length (threads x)" for j
    using that assms(2) by (cases "j = i") auto
  ultimately show ?thesis using assms(1) by (auto simp: fd_keep_def on_thread_def map_update)
qed

lemma fd_keep_threads: "(\<And>t. fds (g t) = fds t) \<Longrightarrow> (\<And>t. ended (g t) \<Longrightarrow> ended t) \<Longrightarrow> fd_keep x (on_thread i g x)"
  by (rule fd_keep_thread)

lemma fd_keep_each:
  assumes "\<And>t. fds (g t) = fds t" "\<And>t. ended (g t) \<Longrightarrow> ended t"
  shows "fd_keep x (each_thread g x)"
proof -
  have "map fds (map g (take n ts) @ drop n ts) = map fds ts" for n ts
    by (metis (no_types, lifting) append_take_drop_id assms(1) list.map_comp map_append map_eq_conv comp_apply)
  moreover have "ended ((map g (take n ts) @ drop n ts) ! i) \<longrightarrow> ended (ts ! i)" if "i < length ts" for n ts i
    using that assms(2) by (auto simp: nth_append)
  ultimately show ?thesis by (auto simp: fd_keep_def each_thread_def)
qed

lemma fd_keep_cpu:
  assumes "\<And>c. cur (g c) = cur c \<and> idle (g c) = idle c"
  shows "fd_keep x (on_cpu m g x)"
  using assms by (auto simp: fd_keep_def on_cpu_def split: if_splits)

lemma fd_keep_if: "fd_keep x y \<Longrightarrow> fd_keep x (if b then y else x)" by simp

lemma fd_keep_pages [simp]: "fd_keep x (y\<lparr>pages := p\<rparr>) = fd_keep x y" "fd_keep x (y\<lparr>switches := n\<rparr>) = fd_keep x y"
  by (simp_all add: fd_keep_def)

lemma fd_keep_switch:
  assumes "nxt < n_threads x"
  shows "fd_keep x (switch_to me sp_now prev nxt x)"
proof -
  have sw: "fd_keep x (x\<lparr>switches := n\<rparr>)" for n by simp
  have cc: "fd_keep y (check_canary prev y)" for y by (simp add: check_canary_def Let_def)
  have st: "ended (t\<lparr>user_table := u, tstate := if tstate t = Running then Runnable else tstate t\<rparr>) \<Longrightarrow> ended t" for t u
    by (simp add: ended_def split: if_splits)
  have run: "fd_keep y (on_cpu me (\<lambda>c. c\<lparr>user_table_kva := u, cur := Some nxt\<rparr>) y)" if "n_threads y = n_threads x" for y u
    using that assms by (auto simp: fd_keep_def on_cpu_def split: if_splits)
  have n: "n_threads (check_canary prev y) = n_threads y" for y by (simp add: check_canary_def Let_def)
  have mu: "fd_keep y (mmu_switch_user me spn y)" for y spn unfolding mmu_switch_user_def by (rule fd_keep_cpu) simp
  show ?thesis
    unfolding switch_to_def Let_def
    by (rule fd_keep_trans [OF _ fd_keep_threads], rule fd_keep_trans [OF _ fd_keep_if [OF mu]], rule fd_keep_trans [OF _ fd_keep_threads],
        rule fd_keep_trans [OF _ run], rule fd_keep_trans [OF _ fd_keep_threads], rule fd_keep_trans [OF sw cc])
      (use st in \<open>auto simp: ended_def n\<close>)
qed

lemma fd_keep_schedule_locked:
  assumes "wf_fds X x"
  shows "fd_keep x (schedule_locked me now sp_now x)"
proof -
  let ?y = "each_thread (wake_expired now) x"
  have y: "fd_keep x ?y" by (rule fd_keep_each) (auto simp: wake_expired_def ended_def split: if_splits)
  have "nxt < n_threads x" if "next_runnable me (Some prev) ?y = Some nxt" for prev nxt
  proof -
    have "nxt \<in> set (round_robin prev (n_threads x))" using that unfolding next_runnable_def find_Some_iff by (metis each_thread_simps(1) nth_mem option.simps(5))
    then show ?thesis by (cases "n_threads x = 0") (auto simp: round_robin_def)
  qed
  moreover have "c < n_threads x" if "idleof x m = Some c" for m c using assms that by (auto simp: wf_fds_def)
  ultimately have "fd_keep ?y (switch_to me sp_now prev nxt ?y)"
    if "next_runnable me (Some prev) ?y = Some nxt \<or> idleof x me = Some nxt" for prev nxt
    using that fd_keep_switch [of nxt ?y] by auto
  then show ?thesis using y fd_keep_trans [OF y] by (auto simp: schedule_locked_def Let_def split: option.splits)
qed

lemma fd_keep_schedule: "wf_fds X x \<Longrightarrow> fd_keep x (schedule me now sp_now x)"
  by (simp add: schedule_def fd_keep_schedule_locked)

lemma fd_keep_wf:
  assumes "wf_fds X x" "fd_keep x y"
  shows "wf_fds X y"
proof -
  have l: "length (threads y) = length (threads x)" "map fds (threads y) = map fds (threads x)" using assms(2) by (metis fd_keep_def length_map)+
  have f: "fds (thr y i) = fds (thr x i)" if "i < MAX_THREADS" for i
    using that l assms(1) by (metis nth_map wf_fds_def)
  have "fds_ok t" if t: "t \<in> set (threads y)" for t
  proof -
    obtain i where i: "i < length (threads y)" "t = thr y i" using t by (metis in_set_conv_nth)
    then have "fds_ok (thr x i)" using assms(1) l by (auto simp: wf_fds_def)
    then show ?thesis using f [of i] i l assms(1) by (simp add: fds_ok_def wf_fds_def)
  qed
  moreover have n: "n_threads y = n_threads x" "length (threads x) = MAX_THREADS" using assms unfolding fd_keep_def wf_fds_def by blast+
  moreover have "set (fds (thr y i)) \<subseteq> {None}" if "i < MAX_THREADS" "i \<notin> X \<and> (n_threads x \<le> i \<or> ended (thr y i))" for i
  proof -
    have "i \<notin> X \<and> (n_threads x \<le> i \<or> ended (thr x i))" using that assms(2) n(2) unfolding fd_keep_def by metis
    then show ?thesis using assms(1) that(1) f [OF that(1)] unfolding wf_fds_def by metis
  qed
  moreover have "c < n_threads x" if "curof y m = Some c \<or> idleof y m = Some c" for m c
    using assms that unfolding fd_keep_def wf_fds_def by metis
  moreover have "n_threads x \<le> MAX_THREADS" using assms(1) by (simp add: wf_fds_def)
  ultimately show ?thesis unfolding wf_fds_def using l by simp
qed

lemma fd_keep_desc: "fd_keep x y \<Longrightarrow> desc y f = desc x f"
  by (simp add: fd_keep_def desc_def)

section \<open>The rules of the balance\<close>

lemma holdingD:
  assumes "holding X K s"
  shows "files_ok s" "wf_fds X (k_sched s)" "counted (\<lambda>f. desc (k_sched s) f + K f) s" "length (files s) = NFILE" "length (threads (k_sched s)) = MAX_THREADS"
  using assms by (auto simp: holding_def files_ok_def wf_fds_def)

lemma holding_use:
  assumes "holding X K s" "f < NFILE" "f_kind (files s ! f) \<noteq> FILE_FREE"
  shows "f_refs (files s ! f) = desc (k_sched s) f + K f" "0 < desc (k_sched s) f + K f"
  using assms by (auto simp: holding_def counted_def)

lemma holding_open: "holding X K s \<Longrightarrow> f < NFILE \<Longrightarrow> 0 < desc (k_sched s) f + K f \<Longrightarrow> f_kind (files s ! f) \<noteq> FILE_FREE"
  by (force simp: holding_def counted_def)

text \<open>What changes neither counts nor descriptors.\<close>

definition same_refs :: "kern \<Rightarrow> kern \<Rightarrow> bool" where
  "same_refs s s' \<longleftrightarrow> map f_kind (files s') = map f_kind (files s) \<and> map f_refs (files s') = map f_refs (files s)"

lemma same_refs_at:
  assumes "same_refs s s'" "f < length (files s)"
  shows "f_kind (files s' ! f) = f_kind (files s ! f)" "f_refs (files s' ! f) = f_refs (files s ! f)"
proof -
  have l: "length (files s') = length (files s)" using assms(1) by (metis same_refs_def length_map)
  show "f_kind (files s' ! f) = f_kind (files s ! f)" "f_refs (files s' ! f) = f_refs (files s ! f)"
    using assms l unfolding same_refs_def by (metis nth_map)+
qed

lemma holding_keep:
  assumes "holding X K s" "files_ok s'" "same_refs s s'" "fd_keep (k_sched s) (k_sched s')"
  shows "holding X K s'"
proof -
  have "counted (\<lambda>f. desc (k_sched s) f + K f) s'"
    using holdingD(3, 4) [OF assms(1)] same_refs_at [OF assms(3)] by (auto simp: counted_def)
  then show ?thesis using assms(2) fd_keep_wf [OF holdingD(2) [OF assms(1)] assms(4)] fd_keep_desc [OF assms(4)] by (simp add: holding_def)
qed

lemma holding_same:
  assumes "holding X K s" "files s' = files s" "pipes s' = pipes s" "console_file s' = console_file s" "fd_keep (k_sched s) (k_sched s')"
  shows "holding X K s'"
  using holding_keep [OF assms(1) files_ok_cong [OF holdingD(1) [OF assms(1)] assms(2-4)] _ assms(5)] assms(2) by (simp add: same_refs_def)

lemma holding_fields:
  assumes "holding X K s"
  shows "holding X K (s\<lparr>k_net := n\<rparr>)" "holding X K (s\<lparr>k_fat := v\<rparr>)" "holding X K (s\<lparr>k_con := c\<rparr>)" "holding X K (with_pages p s)"
  by (rule holding_same [OF assms]; simp add: with_pages_def on_sched_def)+

lemma holding_sched: "holding X K s \<Longrightarrow> fd_keep (k_sched s) x \<Longrightarrow> holding X K (s\<lparr>k_sched := x\<rparr>)"
  by (rule holding_same) simp_all

text \<open>An open file changes without changing what it is.\<close>

lemma holding_file:
  assumes "holding X K s" "\<And>f. f_kind (g f) = f_kind f \<and> f_pipe (g f) = f_pipe f \<and> f_refs (g f) = f_refs f"
  shows "holding X K (on_file i g s)"
proof (rule holding_keep [OF assms(1)])
  show "files_ok (on_file i g s)" using files_ok_on_file [OF holdingD(1) [OF assms(1)], of g i] assms(2) by simp
  have "(map f_kind (files s))[i := f_kind (files s ! i)] = map f_kind (files s)" "(map f_refs (files s))[i := f_refs (files s ! i)] = map f_refs (files s)"
    by (cases "i < length (files s)", simp_all add: list_update_same_conv list_update_beyond)+
  then show "same_refs s (on_file i g s)" using assms(2) by (simp add: same_refs_def map_update)
qed (simp add: on_file_def)

text \<open>Somebody else holds the file, somebody lets go of it, and the last holder closes it.\<close>

lemma holding_ref:
  assumes "holding X K s" "f < NFILE" "0 < desc (k_sched s) f + K f"
  shows "holding X (plus_one f K) (file_ref f s)"
proof -
  have l: "f < length (files s)" using holdingD(4) [OF assms(1)] assms(2) by simp
  have k: "k_sched (file_ref f s) = k_sched s" by (simp add: file_ref_def on_file_def)
  have "counted (\<lambda>g. desc (k_sched s) g + plus_one f K g) (file_ref f s)"
    using holdingD(3) [OF assms(1)] assms(3) l unfolding counted_def file_ref_def
    by (auto simp: plus_one_def nth_list_update split: if_splits)
  then show ?thesis using file_ref_ok [OF holdingD(1) [OF assms(1)]] holdingD(2) [OF assms(1)] by (simp add: holding_def k)
qed

lemma counted_alloc:
  assumes "counted T s" "length (files s) = NFILE" "file_alloc k p s = (Some f, s')" "k \<noteq> FILE_FREE"
  shows "counted (T(f := T f + 1)) s' \<and> f < NFILE \<and> k_sched s' = k_sched s \<and> length (files s') = NFILE"
  using assms(3)
proof (rule file_alloc_cases)
  fix i
  assume a: "Some f = Some i" "i < NFILE" "f_kind (files s ! i) = FILE_FREE" "s' = on_file i (fresh_file k p) s"
  then have "T f = 0" using assms(1) by (auto simp: counted_def)
  then have "counted (T(f := T f + 1)) s'"
    using assms(1, 2, 4) a(2) unfolding counted_def a(4) a(1) [symmetric, simplified] by (simp add: nth_list_update fresh_file_def)
  then show ?thesis using a assms(2) by (simp add: on_file_def)
qed simp

lemma holding_alloc:
  assumes "holding X K s" "file_alloc k p s = (Some f, s')" "k \<noteq> FILE_FREE" "files_ok s'"
  shows "holding X (plus_one f K) s' \<and> f < NFILE \<and> k_sched s' = k_sched s"
proof -
  have e: "(\<lambda>f. desc (k_sched s) f + K f)(f := (\<lambda>f. desc (k_sched s) f + K f) f + 1) = (\<lambda>g. desc (k_sched s) g + plus_one f K g)"
    by (auto simp: plus_one_def)
  show ?thesis using counted_alloc [OF holdingD(3, 4) [OF assms(1)] assms(2, 3)] assms(4) holdingD(2) [OF assms(1)] unfolding e by (simp add: holding_def)
qed

lemma fd_keep_wake_pipe: "fd_keep x (thread_wake_pipe ob x)"
  unfolding thread_wake_pipe_def by (rule fd_keep_each) (auto simp: ended_def split: if_splits)

lemma file_close_sched:
  assumes "file_close d f s = Some s'"
  shows "fd_keep (k_sched s) (k_sched s')"
proof -
  have "fd_keep (k_sched s) (k_sched (release_file f t))" if "k_sched t = k_sched s" for t
    using that fd_keep_wake_pipe by (simp add: release_file_def Let_def close_end_def wake_pipe_def on_pipe_def on_file_def split: option.split)
  then show ?thesis using assms by (auto simp: file_close_def Let_def on_file_def split: if_splits option.splits)
qed

lemma file_close_cpus:
  assumes "file_close d f s = Some s'"
  shows "cpus (k_sched s') = cpus (k_sched s)"
proof -
  have "cpus (k_sched (release_file f t)) = cpus (k_sched t)" for t
    by (simp add: release_file_def Let_def close_end_def wake_pipe_def thread_wake_pipe_def on_pipe_def on_file_def split: option.split)
  then show ?thesis using assms by (auto simp: file_close_def Let_def on_file_def split: if_splits option.splits)
qed

lemma holding_close:
  assumes "holding X K s" "f < NFILE" "0 < desc (k_sched s) f + K f" "file_close d f s = Some s'"
  shows "holding X (minus_one f K) s'"
proof -
  have k: "f_kind (files s ! f) \<noteq> FILE_FREE" by (rule holding_open [OF assms(1-3)])
  have l: "f < length (files s)" using holdingD(4) [OF assms(1)] assms(2) by simp
  have r: "f_refs (files s ! f) = desc (k_sched s) f + K f" using holding_use [OF assms(1, 2) k] by simp
  have ok: "files_ok s'" by (rule file_close_ok [OF holdingD(1) [OF assms(1)] assms(2) k assms(4)])
  have sk: "fd_keep (k_sched s) (k_sched s')" by (rule file_close_sched [OF assms(4)])
  have fs: "files s' = (files s)[f := files s' ! f]"
    "if f_refs (files s ! f) = 1 then f_kind (files s' ! f) = FILE_FREE
     else f_kind (files s' ! f) = f_kind (files s ! f) \<and> f_refs (files s' ! f) = f_refs (files s ! f) - 1"
    using file_close_drops [OF l _ assms(4)] assms(3) r l
    by (auto simp: drop_ref_def Let_def release_file_def close_end_def split: option.splits if_splits)
  have "counted (\<lambda>g. desc (k_sched s) g + minus_one f K g) s'"
    unfolding counted_def
  proof (intro allI impI)
    fix g
    assume g: "g < NFILE"
    show "if f_kind (files s' ! g) = FILE_FREE then desc (k_sched s) g + minus_one f K g = 0
      else f_refs (files s' ! g) = desc (k_sched s) g + minus_one f K g \<and> 0 < desc (k_sched s) g + minus_one f K g"
    proof (cases "g = f")
      case True
      then show ?thesis using fs(2) r k assms(3) by (auto simp: minus_one_def split: if_splits)
    next
      case False
      then have "files s' ! g = files s ! g" using fs(1) by (metis nth_list_update_neq)
      then show ?thesis using False holdingD(3) [OF assms(1)] g by (simp add: counted_def minus_one_def)
    qed
  qed
  then show ?thesis using ok fd_keep_wf [OF holdingD(2) [OF assms(1)] sk] fd_keep_desc [OF sk] by (simp add: holding_def)
qed

section \<open>Descriptors\<close>

definition running :: "nat \<Rightarrow> kern \<Rightarrow> bool" where
  "running c s \<longleftrightarrow> c < n_threads (k_sched s) \<and> \<not> ended (thk s c)"

lemma runningD:
  assumes "holding X K s" "running c s"
  shows "c < length (threads (k_sched s))" "c < n_threads (k_sched s)" "length (fds (thk s c)) = NFD" "Some f \<in> set (fds (thk s c)) \<Longrightarrow> f < NFILE"
proof -
  note w = holdingD(2) [OF assms(1)]
  show l: "c < n_threads (k_sched s)" "c < length (threads (k_sched s))" using assms(2) w by (auto simp: running_def wf_fds_def)
  then have "fds_ok (thk s c)" using w by (simp add: wf_fds_def)
  then show "length (fds (thk s c)) = NFD" "Some f \<in> set (fds (thk s c)) \<Longrightarrow> f < NFILE" by (simp_all add: fds_ok_def)
qed

lemma running_keep:
  assumes "running c s" "holding X K s" "fd_keep (k_sched s) (k_sched s')"
  shows "running c s'" "fds (thk s' c) = fds (thk s c)"
proof -
  have l: "c < length (threads (k_sched s))" by (rule runningD(1) [OF assms(2, 1)])
  show "running c s'" using assms(1, 3) l by (auto simp: running_def fd_keep_def)
  have "length (threads (k_sched s')) = length (threads (k_sched s))" using assms(3) by (metis fd_keep_def length_map)
  then show "fds (thk s' c) = fds (thk s c)" using assms(3) l unfolding fd_keep_def by (metis nth_map)
qed

text \<open>A store to a descriptor of a thread whose old value is \<open>old\<close>.\<close>

definition move :: "nat option \<Rightarrow> nat option \<Rightarrow> (nat \<Rightarrow> int) \<Rightarrow> nat \<Rightarrow> int" where
  "move old new K f = K f + (if old = Some f then 1 else 0) - (if new = Some f then 1 else 0)"

lemma set_fd_simps [simp]:
  "files (set_fd c i v s) = files s" "pipes (set_fd c i v s) = pipes s" "console_file (set_fd c i v s) = console_file s"
  by (simp_all add: set_fd_def on_sched_def)

text \<open>A thread changes in any way.\<close>

definition trade :: "nat option list \<Rightarrow> nat option list \<Rightarrow> (nat \<Rightarrow> int) \<Rightarrow> nat \<Rightarrow> int" where
  "trade old new K f = K f + int (count_list old (Some f)) - int (count_list new (Some f))"

lemma holding_thread:
  assumes "holding X K s" "c < n_threads (k_sched s)" "fds_ok (g (thk s c))" "c \<in> X \<or> \<not> ended (g (thk s c)) \<or> set (fds (g (thk s c))) \<subseteq> {None}"
  shows "holding X (trade (fds (thk s c)) (fds (g (thk s c))) K) (on_sched (on_thread c g) s)"
proof -
  note w = holdingD(2) [OF assms(1)]
  let ?x = "k_sched s" and ?y = "on_thread c g (k_sched s)"
  have l: "c < length (threads ?x)" "length (threads ?x) = MAX_THREADS" "n_threads ?x \<le> MAX_THREADS" using w assms(2) by (auto simp: wf_fds_def)
  have fo: "fds_ok t" if "t \<in> set (threads ?x)" for t using w that by (simp add: wf_fds_def)
  have "wf_fds X ?y"
    unfolding wf_fds_def
  proof (intro conjI allI impI ballI)
    show "length (threads ?y) = MAX_THREADS" "n_threads ?y \<le> MAX_THREADS" using l by simp_all
    show "fds_ok t" if "t \<in> set (threads ?y)" for t
      using that fo assms(3) set_update_subset_insert [of "threads ?x" c "g (thr ?x c)"] by (auto simp: on_thread_def)
    show "c' < n_threads ?y" if "curof ?y m = Some c' \<or> idleof ?y m = Some c'" for m c' using w that unfolding wf_fds_def on_thread_simps by blast
    fix j
    assume j: "j < MAX_THREADS" "j \<notin> X \<and> (n_threads ?y \<le> j \<or> ended (thr ?y j))"
    show "set (fds (thr ?y j)) \<subseteq> {None}"
    proof (cases "j = c")
      case True
      then show ?thesis using assms(2, 4) j(2) l(1) by (auto simp: thr_on_thread)
    next
      case False
      then have "j \<notin> X \<and> (n_threads ?x \<le> j \<or> ended (thr ?x j))" using j(2) l(1) by (simp add: thr_on_thread)
      then have "set (fds (thr ?x j)) \<subseteq> {None}" using w j(1) unfolding wf_fds_def by blast
      then show ?thesis using False l(1) by (simp add: thr_on_thread)
    qed
  qed
  moreover have "desc ?y f + trade (fds (thr ?x c)) (fds (g (thr ?x c))) K f = desc ?x f + K f" for f
    using desc_on_thread [OF l(1)] by (simp add: trade_def)
  moreover have "files_ok (on_sched (on_thread c g) s)" by (rule files_ok_cong [OF holdingD(1) [OF assms(1)]]) (simp_all add: on_sched_def)
  ultimately show ?thesis using holdingD(3) [OF assms(1)] by (simp add: holding_def counted_def on_sched_def)
qed

lemma holding_set_fd:
  assumes "holding X K s" "c < n_threads (k_sched s)" "i < NFD" "v = None \<or> \<not> ended (thk s c)" "\<And>f. v = Some f \<Longrightarrow> f < NFILE"
  shows "holding X (move (fds (thk s c) ! i) v K) (set_fd c i v s)"
proof -
  let ?t = "thk s c"
  have c: "c < length (threads (k_sched s))" using holdingD(2) [OF assms(1)] assms(2) by (auto simp: wf_fds_def)
  then have o: "fds_ok ?t" "ended ?t \<longrightarrow> c \<in> X \<or> set (fds ?t) \<subseteq> {None}"
    using holdingD(2) [OF assms(1)] unfolding wf_fds_def by (metis nth_mem)+
  have n: "fds_ok (?t\<lparr>fds := (fds ?t)[i := v]\<rparr>)" "set ((fds ?t)[i := v]) \<subseteq> insert v (set (fds ?t))"
    using o(1) assms(5) set_update_subset_insert [of "fds ?t" i v] unfolding fds_ok_def by auto
  have "trade (fds ?t) ((fds ?t)[i := v]) K = move (fds ?t ! i) v K"
    using count_list_update [of i "fds ?t" v] assms(3) o(1) by (auto simp: trade_def move_def fds_ok_def)
  moreover have "c \<in> X \<or> \<not> ended ?t \<or> set ((fds ?t)[i := v]) \<subseteq> {None}" using o(2) n(2) assms(4) by blast
  ultimately show ?thesis
    using holding_thread [OF assms(1, 2), of "\<lambda>t. t\<lparr>fds := (fds t)[i := v]\<rparr>"] n(1) by (simp add: set_fd_def ended_def)
qed

section \<open>Opening\<close>

text \<open>What a call that may open a file leaves: the file in the kernel's hand, or nothing.\<close>

definition opened :: "nat set \<Rightarrow> (nat \<Rightarrow> int) \<Rightarrow> kern \<Rightarrow> nat option \<Rightarrow> kern \<Rightarrow> bool" where
  "opened X K s x s' \<longleftrightarrow> k_sched s' = k_sched s \<and> (case x of None \<Rightarrow> holding X K s' | Some f \<Rightarrow> f < NFILE \<and> holding X (plus_one f K) s')"

lemma opened_alloc:
  assumes "holding X K s" "file_alloc k None s = (x, s')" "k \<noteq> FILE_PIPE_R" "k \<noteq> FILE_PIPE_W" "k \<noteq> FILE_FREE"
  shows "opened X K s x s'"
proof (cases x)
  case None
  then show ?thesis using assms(1, 2) by (auto simp: opened_def elim: file_alloc_cases)
next
  case (Some f)
  have "files_ok s'" using file_alloc_ok [OF holdingD(1) [OF assms(1)] assms(2-5)] by blast
  then show ?thesis using holding_alloc [OF assms(1), of k None f s'] assms(2, 5) Some by (simp add: opened_def)
qed

lemma opened_after:
  assumes "opened X K s x s1" "\<And>L. holding X L s1 \<Longrightarrow> holding X L s2" "k_sched s2 = k_sched s1"
  shows "opened X K s x s2"
  using assms by (auto simp: opened_def split: option.splits)

lemma opened_before: "opened X K s1 x s' \<Longrightarrow> k_sched s1 = k_sched s \<Longrightarrow> opened X K s x s'"
  by (simp add: opened_def)

lemma k_sched_simps [simp]:
  "k_sched (on_file i g s) = k_sched s" "k_sched (on_mem j h s) = k_sched s" "k_sched (on_pipe p r s) = k_sched s" "k_sched (file_ref i s) = k_sched s"
  by (simp_all add: on_file_def on_mem_def on_pipe_def file_ref_def)

lemma opened_as:
  assumes "holding X K s" "open_as k g s = ((r, x), s')" "k \<noteq> FILE_PIPE_R" "k \<noteq> FILE_PIPE_W" "k \<noteq> FILE_FREE"
    "\<And>f. f_kind (g f) = f_kind f \<and> f_pipe (g f) = f_pipe f \<and> f_refs (g f) = f_refs f"
  shows "opened X K s x s'"
proof -
  obtain q s1 where a: "file_alloc k None s = (q, s1)" by fastforce
  have o1: "opened X K s q s1" by (rule opened_alloc [OF assms(1) a assms(3-5)])
  have "q = x \<and> (s' = s1 \<or> (\<exists>i. s' = on_file i g s1))" using assms(2) a by (auto simp: open_as_def split: option.splits)
  then show ?thesis using o1 opened_after [OF o1, of s'] holding_file [of X _ s1 g] assms(6) by auto
qed

lemma opened_mem:
  assumes "holding X K s" "open_mem name mode s = ((r, x), s')"
  shows "opened X K s x s'"
proof -
  have m: "holding X K (on_mem i g s)" for i g by (rule holding_same [OF assms(1)]) simp_all
  show ?thesis
  proof (cases "case memfile_named name s of Some i \<Rightarrow> Some i | None \<Rightarrow> List.find (\<lambda>i. \<not> m_used (memfiles s ! i)) [0..<NMEM]")
    case None
    then show ?thesis using assms by (simp add: open_mem_def opened_def)
  next
    case (Some i)
    let ?g = "\<lambda>m. m\<lparr>m_name := take (NAME_MAX - 1) name, m_len := (if mode = OPEN_WRITE \<or> \<not> m_used m then 0 else m_len m), m_used := True\<rparr>"
    obtain q s1 where a: "file_alloc FILE_MEM None (on_mem i ?g s) = (q, s1)" by fastforce
    have o1: "opened X K s q s1" by (rule opened_before [OF opened_alloc [OF m a]]) simp_all
    have "q = x \<and> (s' = s1 \<or> (\<exists>i e p. s' = on_file i (\<lambda>y. y\<lparr>f_mem := e, f_pos := p\<rparr>) s1))"
      using assms(2) a Some by (auto simp: open_mem_def Let_def split: option.splits)
    then show ?thesis using o1 opened_after [OF o1, of s'] holding_file [of X _ s1] by auto
  qed
qed

lemma opened_read:
  assumes "holding X K s" "open_read name dk s = Some ((r, x), s')" "\<And>k ff. dk = on_disk.Found k ff \<Longrightarrow> k = FILE_FAT \<or> k = FILE_FATDIR"
  shows "opened X K s x s'"
proof -
  have n: "opened X K s None s" using assms(1) by (simp add: opened_def)
  show ?thesis using assms(2, 3) n opened_as [OF assms(1), of _ _ r x s']
    by (fastforce simp: open_read_def split: option.splits on_disk.splits prod.splits if_splits)
qed

lemma open_disk_sched: "open_disk name mode ab s = Some (r, s') \<Longrightarrow> k_sched s' = k_sched s"
  by (fastforce simp: open_disk_def Let_def split: if_splits option.splits prod.splits)

lemma opened_file:
  assumes "holding X K s" "file_open path mode s = Some ((r, x), s')"
  shows "opened X K s x s'"
proof -
  obtain dk s1 where d: "open_disk (skip_slash path) mode (path \<noteq> [] \<and> hd path = 47) s = Some (dk, s1)"
    using assms(2) by (auto simp: file_open_def Let_def split: option.splits)
  note ds = open_disk_same [OF d] open_disk_sched [OF d]
  have h: "holding X K s1" by (rule holding_same [OF assms(1)]) (use ds in simp_all)
  have rest: "opened X K s x s'" if "(if mode \<noteq> OPEN_READ then Some (open_mem (skip_slash path) mode s1) else open_read (skip_slash path) dk s1) = Some ((r, x), s')"
    using that opened_mem [OF h, of "skip_slash path" mode r x s'] opened_read [OF h, of "skip_slash path" dk r x s'] ds opened_before [of X K s1 x s' s]
    by (cases "mode = OPEN_READ") simp_all
  show ?thesis
  proof (cases dk)
    case (Failed e)
    then show ?thesis using assms(2) d h ds(2) by (auto simp: file_open_def Let_def opened_def)
  next
    case (Writing ff)
    then show ?thesis using assms(2) d opened_as [OF h, of FILE_FAT _ r x s'] ds(2) opened_before [of X K s1 x s' s] by (fastforce simp: file_open_def Let_def)
  qed (use assms(2) d rest in \<open>cases "mode = OPEN_READ"; simp add: file_open_def Let_def\<close>)+
qed

lemma opened_udp:
  assumes "holding X K s" "file_udp s = ((r, x), s')"
  shows "opened X K s x s'"
proof (cases "udp_open (k_net s)")
  case (Pair k n)
  have h: "holding X K (s\<lparr>k_net := n\<rparr>)" by (rule holding_fields(1) [OF assms(1)])
  obtain q s1 where a: "file_alloc FILE_UDP None (s\<lparr>k_net := n\<rparr>) = (q, s1)" by fastforce
  have o1: "opened X K s q s1" by (rule opened_before [OF opened_alloc [OF h a]]) simp_all
  have "opened X K s q (s1\<lparr>k_net := m\<rparr>)" "opened X K s q (on_file i (\<lambda>y. y\<lparr>f_sock := e\<rparr>) s1)" for m i e
    by (rule opened_after [OF o1]; simp add: holding_fields holding_file)+
  then show ?thesis using assms(2) a Pair h by (auto simp: file_udp_def opened_def split: option.splits)
qed

lemma opened_tcp:
  assumes "holding X K s" "file_tcp_adopt d c s = Some ((r, x), s')"
  shows "opened X K s x s'"
proof (cases c)
  case None
  then show ?thesis using assms by (simp add: file_tcp_adopt_def opened_def)
next
  case (Some k)
  obtain q s1 where a: "file_alloc FILE_TCP None s = (q, s1)" by fastforce
  have o1: "opened X K s q s1" by (rule opened_alloc [OF assms(1) a]) simp_all
  have "opened X K s q (s1\<lparr>k_net := m\<rparr>)" "opened X K s q (on_file i (\<lambda>y. y\<lparr>f_conn := e\<rparr>) s1)" for m i e
    by (rule opened_after [OF o1]; simp add: holding_fields holding_file)+
  then show ?thesis using assms(2) a Some by (auto simp: file_tcp_adopt_def split: option.splits)
qed

text \<open>\<open>file_tcp\<close> is a new connection that is then adopted.\<close>

lemma file_tcp_adopts:
  "file_tcp d s = (case tcp_open (k_net s) of (None, n) \<Rightarrow> Some ((-105, None), s\<lparr>k_net := n\<rparr>) | (Some k, n) \<Rightarrow> file_tcp_adopt d (Some k) (s\<lparr>k_net := n\<rparr>))"
  by (simp add: file_tcp_def file_tcp_adopt_def split: prod.split option.split)

lemma opened_tcp_new:
  assumes "holding X K s" "file_tcp d s = Some ((r, x), s')"
  shows "opened X K s x s'"
proof (cases "tcp_open (k_net s)")
  case (Pair k n)
  have h: "holding X K (s\<lparr>k_net := n\<rparr>)" by (rule holding_fields(1) [OF assms(1)])
  then show ?thesis using assms(2) Pair opened_tcp [OF h, of d k r x s'] opened_before [of X K "s\<lparr>k_net := n\<rparr>" x s' s]
    by (auto simp: file_tcp_adopts opened_def split: option.splits)
qed

lemma holding_pipe:
  assumes "holding X K s" "file_pipe s = (x, s')"
  shows "k_sched s' = k_sched s \<and>
    (case x of None \<Rightarrow> holding X K s' | Some (r, w) \<Rightarrow> r < NFILE \<and> w < NFILE \<and> holding X (plus_one w (plus_one r K)) s')"
proof -
  have ok: "files_ok s'" using file_pipe_ok [OF holdingD(1) [OF assms(1)]] assms(2) by (metis snd_conv)
  let ?T = "\<lambda>f. desc (k_sched s) f + K f"
  have c0: "counted ?T (on_pipe p g s)" "length (files (on_pipe p g s)) = NFILE" for p g
    using holdingD(3, 4) [OF assms(1)] by (simp_all add: counted_def)
  have pp: "counted T (on_pipe p g t) = counted T t" for T p g t by (simp add: counted_def)
  have und: "counted T (on_file r (\<lambda>f. f\<lparr>f_kind := FILE_FREE, f_refs := 0\<rparr>) t)" if "counted (T(r := T r + 1)) t" "T r = 0" "length (files t) = NFILE" for T r t
    unfolding counted_def
  proof (intro allI impI)
    fix f
    assume f: "f < NFILE"
    show "if f_kind (files (on_file r (\<lambda>f. f\<lparr>f_kind := FILE_FREE, f_refs := 0\<rparr>) t) ! f) = FILE_FREE then T f = 0
      else f_refs (files (on_file r (\<lambda>f. f\<lparr>f_kind := FILE_FREE, f_refs := 0\<rparr>) t) ! f) = T f \<and> 0 < T f"
      using that(1) [unfolded counted_def, rule_format, OF f] that(2, 3) f by (cases "f = r") (simp_all split: if_splits)
  qed
  have zero: "?T r = 0" if "file_alloc k p (on_pipe q g s) = (Some r, t)" for k p q g r t
    using that holdingD(3) [OF assms(1)] by (auto simp: counted_def elim!: file_alloc_cases)
  have fin: "holding X K s'" if "counted ?T s'" "k_sched s' = k_sched s" using that ok holdingD(2) [OF assms(1)] by (simp add: holding_def)
  show ?thesis
  proof (cases "List.find (\<lambda>i. \<not> p_used (pipes s ! i)) [0..<NPIPE]")
    case None
    then show ?thesis using assms by (auto simp: file_pipe_def)
  next
    case (Some p)
    obtain r s2 where a: "file_alloc FILE_PIPE_R (Some p) (on_pipe p fresh_pipe s) = (r, s2)" by fastforce
    obtain w s3 where b: "file_alloc FILE_PIPE_W (Some p) s2 = (w, s3)" by fastforce
    show ?thesis
    proof (cases r)
      case None
      then have "s2 = on_pipe p fresh_pipe s" using a by (auto elim: file_alloc_cases)
      then show ?thesis using assms(2) Some a None fin c0 pp by (auto simp: file_pipe_def)
    next
      case (Some i)
      have a1: "counted (?T(i := ?T i + 1)) s2 \<and> i < NFILE \<and> k_sched s2 = k_sched s \<and> length (files s2) = NFILE"
        using counted_alloc [OF c0, of FILE_PIPE_R "Some p" p fresh_pipe i s2] a Some by simp
      show ?thesis
      proof (cases w)
        case None
        then have "s3 = s2" using b by (auto elim: file_alloc_cases)
        then show ?thesis using assms(2) \<open>List.find _ _ = Some p\<close> a b Some None fin a1 pp und [of ?T i s2] zero [of FILE_PIPE_R "Some p" p fresh_pipe i s2]
          by (auto simp: file_pipe_def)
      next
        case (Some j)
        have a2: "counted ((?T(i := ?T i + 1))(j := (?T(i := ?T i + 1)) j + 1)) s3 \<and> j < NFILE \<and> k_sched s3 = k_sched s2"
          using counted_alloc [of "?T(i := ?T i + 1)" s2 FILE_PIPE_W "Some p" j s3] a1 b Some by simp
        have e: "(?T(i := ?T i + 1))(j := (?T(i := ?T i + 1)) j + 1) = (\<lambda>f. desc (k_sched s) f + plus_one j (plus_one i K) f)"
          by (auto simp: plus_one_def)
        have "x = Some (i, j)" "s' = s3" using assms(2) \<open>List.find _ _ = Some p\<close> a b \<open>r = Some i\<close> Some by (auto simp: file_pipe_def)
        then show ?thesis using a1 a2 e ok holdingD(2) [OF assms(1)] by (simp add: holding_def)
      qed
    qed
  qed
qed

lemma opened_console:
  assumes "holding X K s" "file_console s = (x, s')"
  shows "opened X K s x s'"
proof (cases "console_file s")
  case None
  obtain r s1 where a: "file_alloc FILE_CONSOLE None s = (r, s1)" by fastforce
  have o1: "opened X K s r s1" by (rule opened_alloc [OF assms(1) a]) simp_all
  have e: "x = r" "s' = s1\<lparr>console_file := r\<rparr>" using assms(2) None a by (auto simp: file_console_def)
  have "files_ok s'" using file_console_ok [OF holdingD(1) [OF assms(1)]] assms(2) by (metis snd_conv)
  then have "holding X L s'" if "holding X L s1" for L by (rule holding_keep [OF that]) (simp_all add: e(2) same_refs_def)
  then show ?thesis using opened_after [OF o1, of s'] e by simp
next
  case (Some c)
  then have c: "c < NFILE" "f_kind (files s ! c) \<noteq> FILE_FREE" using holdingD(1) [OF assms(1)] by (auto simp: files_ok_def)
  have "holding X (plus_one c K) (file_ref c s)" by (rule holding_ref [OF assms(1) c(1) holding_use(2) [OF assms(1) c]])
  moreover have "x = Some c" "s' = file_ref c s" using assms(2) Some by (auto simp: file_console_def file_ref_def)
  ultimately show ?thesis using c(1) by (simp add: opened_def)
qed

section \<open>A file behind a descriptor\<close>

lemma fd_alloc_cases:
  assumes "fd_alloc c f s = (x, s')"
  obtains "x = None" "s' = s" | i where "x = Some i" "i < NFD" "fds (thk s c) ! i = None" "s' = set_fd c i (Some f) s"
proof (cases "List.find (\<lambda>i. fds (thk s c) ! i = None) [0..<NFD]")
  case None
  then show ?thesis using assms that(1) by (simp add: fd_alloc_def)
next
  case (Some i)
  then have "i < NFD" "fds (thk s c) ! i = None" by (auto simp: find_Some_iff)
  then show ?thesis using assms that(2) [of i] Some by (simp add: fd_alloc_def)
qed

lemma move_simps [simp]: "move None (Some f) (plus_one f K) = K" "move (Some f) None K = plus_one f K" "move None None K = K" "move (Some f) (Some f) K = K"
  by (auto simp: move_def plus_one_def)

lemma holding_give:
  assumes "holding X (plus_one f K) s" "running c s" "f < NFILE" "fd_alloc c f s = (Some i, s')"
  shows "holding X K s'"
  using assms(4)
proof (rule fd_alloc_cases)
  fix j
  assume "Some i = Some j" "j < NFD" "fds (thk s c) ! j = None" "s' = set_fd c j (Some f) s"
  then show ?thesis using holding_set_fd [OF assms(1), of c j "Some f"] assms(2, 3) by (simp add: running_def)
qed simp

lemma fd_install_holds:
  assumes "holding X (plus_one f K) s" "running c s" "f < NFILE" "0 \<le> K f" "fd_install d c f s = Some (v, s')"
  shows "holding X K s'"
proof (cases "fd_alloc c f s")
  case (Pair x s1)
  show ?thesis
  proof (cases x)
    case None
    then have "s1 = s" using Pair by (auto elim: fd_alloc_cases)
    moreover have "0 < desc (k_sched s) f + plus_one f K f" using desc_nonneg [of "k_sched s" f] assms(4) by (simp add: plus_one_def)
    ultimately show ?thesis using assms(5) Pair None holding_close [OF assms(1, 3)] by (auto simp: fd_install_def)
  next
    case (Some i)
    then show ?thesis using assms(5) Pair holding_give [OF assms(1-3)] by (auto simp: fd_install_def)
  qed
qed

lemma fd_get_held:
  assumes "fd_ok s" "running c s" "fd_get c a s = Some f"
  shows "f < NFILE" "0 < desc (k_sched s) f" "unat a < NFD" "fds (thk s c) ! unat a = Some f" "f_kind (files s ! f) \<noteq> FILE_FREE"
proof -
  show u: "unat a < NFD" using assms(3) by (auto simp: fd_get_def NFD_def word_le_nat_alt split: if_splits)
  show e: "fds (thk s c) ! unat a = Some f" using assms(3) by (auto simp: fd_get_def split: if_splits)
  then have m: "Some f \<in> set (fds (thk s c))" using u runningD(3) [OF assms(1, 2)] by (metis nth_mem)
  then show f: "f < NFILE" by (rule runningD(4) [OF assms(1, 2)])
  show d: "0 < desc (k_sched s) f" by (rule desc_pos [OF runningD(1) [OF assms(1, 2)] m])
  then show "f_kind (files s ! f) \<noteq> FILE_FREE" using holding_open [OF assms(1) f] by simp
qed

section \<open>The scheduler leaves descriptors alone\<close>

lemma fd_keep_block:
  assumes "wf_fds X x" "\<And>t. fds (g t) = fds t"
  shows "fd_keep x (block_with g me now sp_now x)"
proof -
  have "fd_keep x (on_thread c (\<lambda>t. (g t)\<lparr>tstate := Blocked\<rparr>) x)" for c by (rule fd_keep_thread) (simp_all add: assms(2) ended_def)
  then have "fd_keep x (schedule_locked me now sp_now (on_thread c (\<lambda>t. (g t)\<lparr>tstate := Blocked\<rparr>) x))" for c
    using fd_keep_trans fd_keep_schedule_locked fd_keep_wf assms(1) by blast
  then show ?thesis by (simp add: block_with_def split: option.split)
qed

lemma fd_keep_release:
  assumes "ended (thr x i)"
  shows "fd_keep x (release_slot i x)"
proof -
  define y where "y p = x\<lparr>pages := p\<rparr>" for p
  have "fd_keep x (y p)" for p by (simp add: y_def)
  then have "fd_keep x (on_thread i g (y p))" if "\<And>t. fds (g t) = fds t" for g p
    by (rule fd_keep_trans [OF _ fd_keep_thread]) (use assms that in \<open>simp_all add: y_def\<close>)
  note k = this
  have "y (pages x) = x" by (simp add: y_def)
  then show ?thesis using k [of _ "pages x"] k unfolding release_slot_def Let_def by (cases "stack_low (thr x i) = 0") (simp_all add: y_def)
qed

lemma zombie_child_ended: "zombie_child j x = Some i \<Longrightarrow> ended (thr x i)"
  by (auto simp: zombie_child_def find_Some_iff ended_def)

lemma fd_keep_reap: "fd_keep x (snd (thread_reap me x))"
  using fd_keep_release zombie_child_ended by (auto simp: thread_reap_def split: option.split)

lemma fd_keep_wait_turn:
  assumes "wf_fds X x"
  shows "fd_keep x (snd (thread_wait_turn me now sp_now x))"
proof -
  have "fd_keep x (on_thread c (\<lambda>t. t\<lparr>wait_reason := WaitChild, tstate := Blocked\<rparr>) x)" for c by (rule fd_keep_thread) (simp_all add: ended_def)
  then have "fd_keep x (schedule_locked me now sp_now (on_thread c (\<lambda>t. t\<lparr>wait_reason := WaitChild, tstate := Blocked\<rparr>) x))" for c
    using fd_keep_trans fd_keep_schedule_locked fd_keep_wf assms by blast
  then show ?thesis using fd_keep_release zombie_child_ended by (auto simp: thread_wait_turn_def split: option.split)
qed

lemma fd_keep_wake_parent: "fd_keep x (wake_parent me x)"
proof -
  have "fd_keep x (each_thread (\<lambda>t. if P t then t\<lparr>tstate := Runnable\<rparr> else t) x)" for P
    by (rule fd_keep_each) (auto simp: ended_def split: if_splits)
  then show ?thesis by (simp add: wake_parent_def split: option.split)
qed

lemma fd_keep_thread_signal: "fd_keep x (snd (thread_signal pid sig x))"
  unfolding thread_signal_def snd_conv by (rule fd_keep_each) (auto simp: ended_def split: if_splits)

lemma fd_keep_setpgid: "fd_keep x (snd (thread_setpgid me pid g x))"
proof -
  have "fd_keep x (on_thread i (\<lambda>t. t\<lparr>pgid := g\<rparr>) x)" for i g by (rule fd_keep_thread) (simp_all add: ended_def)
  then show ?thesis by (simp add: thread_setpgid_def Let_def split: option.split)
qed

lemma fd_keep_sig_action: "fd_keep x (snd (sig_action me sig h r msk x))"
proof -
  have "fd_keep y (on_thread c (\<lambda>t. t\<lparr>sigacts := g t\<rparr>) y)" for c y g by (rule fd_keep_thread) (simp_all add: ended_def)
  moreover from this have "fd_keep x (on_thread c (\<lambda>t. t\<lparr>sigacts := g t\<rparr>) (x\<lparr>pages := p\<rparr>))" for c p g using fd_keep_trans [of x "x\<lparr>pages := p\<rparr>"] by simp
  ultimately show ?thesis by (auto simp: sig_action_def Let_def case_prod_unfold split: option.split)
qed

lemma fd_keep_sig_return:
  assumes "sig_return me f x = Some (v, f', y)"
  shows "fd_keep x y"
proof -
  have "fd_keep y (on_thread c (\<lambda>t. t\<lparr>blocked := b\<rparr>) y)" for c y b by (rule fd_keep_thread) (simp_all add: ended_def)
  then have "fd_keep x (on_thread c (\<lambda>t. t\<lparr>blocked := b\<rparr>) (x\<lparr>pages := p\<rparr>))" for c p b using fd_keep_trans [of x "x\<lparr>pages := p\<rparr>"] by simp
  then show ?thesis using assms by (auto simp: sig_return_def Let_def case_prod_unfold split: option.splits if_splits)
qed

lemma fd_keep_sig_deliver:
  assumes "sig_deliver me sig f x = Some (r, y)"
  shows "fd_keep x y"
proof -
  have t: "fd_keep y (on_thread c (\<lambda>t. t\<lparr>pending := p t\<rparr>) y)" "fd_keep y (on_thread c (\<lambda>t. t\<lparr>blocked := b t, pending := p t\<rparr>) y)" for c y b p
    by (rule fd_keep_thread; simp add: ended_def)+
  have "fd_keep x (on_thread c (\<lambda>t. t\<lparr>blocked := b t, pending := p t\<rparr>) (x\<lparr>pages := q\<rparr>))" for c p b q using t(2) fd_keep_trans [of x "x\<lparr>pages := q\<rparr>"] by simp
  then show ?thesis using assms t(1) by (auto simp: sig_deliver_def Let_def case_prod_unfold split: option.splits if_splits)
qed

lemma fd_keep_exec_reset: "fd_keep x (sig_exec_reset me x)"
proof -
  have "fd_keep x (on_thread c (\<lambda>t. t\<lparr>sigacts := g t, blocked := 0\<rparr>) x)" for c g by (rule fd_keep_thread) (simp_all add: ended_def)
  then show ?thesis by (simp add: sig_exec_reset_def split: option.split)
qed

lemma fd_keep_space: "fd_keep x (on_thread c (\<lambda>t. t\<lparr>space := v\<rparr>) (mmu_switch_user me w x))"
proof -
  have "fd_keep x (mmu_switch_user me w x)" unfolding mmu_switch_user_def by (rule fd_keep_cpu) simp
  then show ?thesis by (rule fd_keep_trans [OF _ fd_keep_thread]) (simp_all add: ended_def)
qed

end
