(* ===== verification/Descriptors.thy ===== *)
theory Descriptors
  imports Holding
begin

text \<open>
  Every system call, fault and interrupt keeps the balance of open files and descriptors of \<open>Holding\<close>: over every run of the kernel the count of
  an open file is the number of descriptors, of all processes, that name it. A descriptor never names a free slot of the table, and a
  file nobody names is closed.
\<close>

section \<open>The caller's memory\<close>

lemma with_pages_simps [simp]:
  "k_sched (with_pages p s) = (k_sched s)\<lparr>pages := p\<rparr>" "files (with_pages p s) = files s" "pipes (with_pages p s) = pipes s"
  "running c (with_pages p s) = running c s" "with_pages q (with_pages p s) = with_pages q s" "fd_get c a (with_pages p s) = fd_get c a s"
  by (simp_all add: with_pages_def on_sched_def running_def fd_get_def)

lemma holding_pages [simp]: "holding X K (with_pages p s) = holding X K s"
proof
  assume "holding X K (with_pages p s)"
  then have "holding X K (with_pages (pages (k_sched s)) (with_pages p s))" by (rule holding_fields)
  then show "holding X K s" by (simp add: with_pages_def on_sched_def)
qed (rule holding_fields)

text \<open>The checks and the copies touch page tables and pages.\<close>

definition only_pages :: "kern \<Rightarrow> kern \<Rightarrow> bool" where
  "only_pages s s' \<longleftrightarrow> (\<exists>p. s' = with_pages p s)"

lemma only_pages_refl [simp]: "only_pages s s"
  unfolding only_pages_def by (rule exI [of _ "pages (k_sched s)"]) (simp add: with_pages_def on_sched_def)

lemma only_pages_trans: "only_pages s t \<Longrightarrow> only_pages t u \<Longrightarrow> only_pages s u"
  by (auto simp: only_pages_def)

lemma only_pagesD:
  assumes "only_pages s s'"
  shows "holding X K s' = holding X K s" "running c s' = running c s" "fd_get c a s' = fd_get c a s"
  using assms by (auto simp: only_pages_def)

lemma user_okk_pages: "user_okk tb a n wr s = (ok, s1) \<Longrightarrow> only_pages s s1"
  by (auto simp: user_okk_def only_pages_def case_prod_unfold Let_def)

lemma put_user_pages: "put_user tb a bs s = Some s1 \<Longrightarrow> only_pages s s1"
  by (auto simp: put_user_def only_pages_def)

lemma sockaddr_read_pages: "sockaddr_read tb va len s = Some (x, s1) \<Longrightarrow> only_pages s s1"
  by (auto simp: sockaddr_read_def split: if_splits option.splits prod.splits dest: user_okk_pages)

lemma put_peer_pages: "put_peer tb addr alen ip p s = Some s1 \<Longrightarrow> only_pages s s1"
  by (auto simp: put_peer_def split: if_splits option.splits dest!: put_user_pages intro: only_pages_trans)

lemma peer_ok_pages: "peer_ok tb addr alen s = (ok, s1) \<Longrightarrow> only_pages s s1"
  by (auto simp: peer_ok_def split: if_splits prod.splits dest!: user_okk_pages intro: only_pages_trans)

lemmas pages_only = user_okk_pages put_user_pages sockaddr_read_pages put_peer_pages peer_ok_pages

section \<open>Calls on descriptors\<close>

lemma sys_dup_ok:
  assumes "fd_ok s" "running c s" "sys_dup d c a s = Some (v, s')"
  shows "fd_ok s'"
proof (cases "fd_get c a s")
  case (Some f)
  note h = fd_get_held [OF assms(1, 2) Some]
  have r: "holding {} (plus_one f (\<lambda>_. 0)) (file_ref f s)" by (rule holding_ref [OF assms(1) h(1)]) (use h(2) in simp)
  have "running c (file_ref f s)" using assms(2) by (simp add: running_def)
  then show ?thesis using fd_install_holds [OF r _ h(1)] assms(3) Some by (simp add: sys_dup_def)
qed (use assms in \<open>simp add: sys_dup_def\<close>)

lemma sys_dup3_ok:
  assumes "fd_ok s" "running c s" "sys_dup3 d c a b s = Some (v, s')"
  shows "fd_ok s'"
proof (cases "fd_get c a s = None \<or> of_nat NFD \<le> b \<or> a = b")
  case True
  then show ?thesis using assms(1, 3) by (auto simp: sys_dup3_def split: option.splits if_splits)
next
  case False
  then obtain f where f: "fd_get c a s = Some f" "\<not> of_nat NFD \<le> b" "a \<noteq> b" by auto
  note h = fd_get_held [OF assms(1, 2) f(1)]
  let ?K = "plus_one f (\<lambda>_. 0)" and ?old = "fds (thk s c) ! unat b"
  have r: "holding {} ?K (file_ref f s)" by (rule holding_ref [OF assms(1) h(1)]) (use h(2) in simp)
  have run: "running c (file_ref f s)" using assms(2) by (simp add: running_def)
  have b: "unat b < NFD" using f(2) by (simp add: NFD_def word_le_nat_alt)
  obtain s1 where s1: "close_opt d ?old (file_ref f s) = Some s1" "s' = set_fd c (unat b) (Some f) s1"
    using assms(3) f by (auto simp: sys_dup3_def)
  have fin: "fd_ok s'" if "holding {} L s1" "fd_keep (k_sched (file_ref f s)) (k_sched s1)" "move ?old (Some f) L = (\<lambda>_. 0)" for L
  proof -
    have rs: "running c s1" "fds (thk s1 c) = fds (thk s c)" using running_keep [OF run r that(2)] by simp_all
    then show ?thesis using holding_set_fd [OF that(1), of c "unat b" "Some f"] b h(1) that(3) s1(2) by (simp add: running_def)
  qed
  show ?thesis
  proof (cases ?old)
    case None
    then have "s1 = file_ref f s" using s1(1) by (simp add: close_opt_def)
    then show ?thesis using fin [of ?K] r None by simp
  next
    case (Some g)
    then have cl: "file_close d g (file_ref f s) = Some s1" using s1(1) by (simp add: close_opt_def)
    have m: "Some g \<in> set (fds (thk s c))" using Some b runningD(3) [OF assms(1, 2)] by (metis nth_mem)
    have g: "g < NFILE" "0 < desc (k_sched (file_ref f s)) g + ?K g"
      using runningD(4) [OF assms(1, 2) m] desc_pos [OF runningD(1) [OF assms(1, 2)] m] by (auto simp: plus_one_def)
    have "move ?old (Some f) (minus_one g ?K) = (\<lambda>_. 0)" using Some by (auto simp: move_def minus_one_def plus_one_def)
    then show ?thesis using fin [OF holding_close [OF r g cl]] file_close_sched [OF cl] by simp
  qed
qed

lemma sys_close_ok:
  assumes "fd_ok s" "running c s" "sys_close d c a s = Some (v, s')"
  shows "fd_ok s'"
proof (cases "fd_get c a s")
  case (Some f)
  note h = fd_get_held [OF assms(1, 2) Some]
  obtain s1 where s1: "file_close d f s = Some s1" "s' = set_fd c (unat a) None s1" using assms(3) Some by (auto simp: sys_close_def)
  have cl: "holding {} (minus_one f (\<lambda>_. 0)) s1" by (rule holding_close [OF assms(1) h(1) _ s1(1)]) (use h(2) in simp)
  have rs: "running c s1" "fds (thk s1 c) = fds (thk s c)" by (rule running_keep [OF assms(2, 1) file_close_sched [OF s1(1)]])+
  show ?thesis using holding_set_fd [OF cl, of c "unat a" None] rs h(3, 4) s1(2) by (simp add: running_def)
qed (use assms in \<open>simp add: sys_close_def\<close>)

text \<open>A call that opens a file and gives it a descriptor.\<close>

lemma install_ok:
  assumes "fd_ok s" "running c s" "opened {} (\<lambda>_. 0) s (Some f) s1" "fd_install d c f s1 = Some (v, s')"
  shows "fd_ok s'"
  using fd_install_holds [of "{}" f "\<lambda>_. 0" s1 c d v s'] assms by (simp add: opened_def running_def)

lemma open_as_zero: "open_as k g s = ((rc, Some f), s1) \<Longrightarrow> rc = 0"
  by (auto simp: open_as_def split: option.splits prod.splits)

lemma open_mem_zero: "open_mem name mode s = ((rc, Some f), s1) \<Longrightarrow> rc = 0"
  by (auto simp: open_mem_def Let_def split: option.splits prod.splits)

lemma open_read_zero: "open_read name dk s = Some ((rc, Some f), s1) \<Longrightarrow> rc = 0"
  by (auto simp: open_read_def split: option.splits on_disk.splits prod.splits if_splits dest: open_as_zero)

lemma file_open_zero: "file_open name mode s = Some ((rc, Some f), s1) \<Longrightarrow> rc = 0"
  by (auto simp: file_open_def Let_def split: option.splits on_disk.splits prod.splits if_splits dest: open_as_zero open_mem_zero open_read_zero)

lemma sys_openat_ok:
  assumes "fd_ok s" "running c s" "sys_openat d c tb b fl s = Some (v, s')"
  shows "fd_ok s'"
proof -
  consider "s' = s" | name rc s1 where "file_open name (open_mode fl) s = Some ((rc, None), s1)" "s' = s1"
    | name rc f s1 where "file_open name (open_mode fl) s = Some ((rc, Some f), s1)" "fd_install d c f s1 = Some (v, s') \<or> rc < 0"
    using assms(3) by (auto simp: sys_openat_def split: option.splits if_splits)
  then show ?thesis
  proof cases
    case 1
    then show ?thesis using assms(1) by simp
  next
    case 2
    then show ?thesis using opened_file [OF assms(1) 2(1)] by (simp add: opened_def)
  next
    case 3
    then show ?thesis using install_ok [OF assms(1, 2) opened_file [OF assms(1) 3(1)]] file_open_zero [OF 3(1)] by simp
  qed
qed

lemma sys_pipe2_ok:
  assumes "fd_ok s" "running c s" "sys_pipe2 d c tb a s = Some (v, s')"
  shows "fd_ok s'"
proof -
  obtain ok s1 where u: "user_okk tb a 8 True s = (ok, s1)" by fastforce
  have o1: "only_pages s s1" by (rule user_okk_pages [OF u])
  then have h1: "fd_ok s1" "running c s1" using only_pagesD assms(1, 2) by simp_all
  obtain x s2 where p: "file_pipe s1 = (x, s2)" by fastforce
  note hp = holding_pipe [OF h1(1) p]
  show ?thesis
  proof (cases "ok \<and> x \<noteq> None")
    case False
    then show ?thesis using assms(3) u p h1(1) hp by (cases ok; cases x) (simp_all add: sys_pipe2_def)
  next
    case True
    then obtain r w where x: "x = Some (r, w)" by auto
    then have h2: "r < NFILE" "w < NFILE" "holding {} (plus_one w (plus_one r (\<lambda>_. 0))) s2" "running c s2" using hp h1(2) by (simp_all add: running_def)
    obtain rf s3 where f1: "fd_alloc c r s2 = (rf, s3)" by fastforce
    obtain wf s4 where f2: "(if rf = None then (None, s3) else fd_alloc c w s3) = (wf, s4)" by fastforce
    have both: "fd_ok s6" if "holding {} (plus_one w (plus_one r (\<lambda>_. 0))) t" "file_close d r t = Some s5" "file_close d w s5 = Some s6" for t s5 s6
    proof -
      have "holding {} (minus_one r (plus_one w (plus_one r (\<lambda>_. 0)))) s5" by (rule holding_close [OF that(1) h2(1) _ that(2)])
          (use desc_nonneg [of "k_sched t" r] in \<open>auto simp: plus_one_def\<close>)
      moreover have "minus_one r (plus_one w (plus_one r (\<lambda>_. 0))) = plus_one w (\<lambda>_. 0)" by (auto simp: minus_one_def plus_one_def)
      ultimately have "holding {} (plus_one w (\<lambda>_. 0)) s5" by simp
      then have "holding {} (minus_one w (plus_one w (\<lambda>_. 0))) s6" by (rule holding_close [OF _ h2(2) _ that(3)])
          (use desc_nonneg [of "k_sched s5" w] in \<open>simp add: plus_one_def\<close>)
      then show ?thesis by simp
    qed
    show ?thesis
    proof (cases rf)
      case None
      then have "s3 = s2" "s4 = s3" "wf = None" using f1 f2 by (auto elim: fd_alloc_cases)
      then show ?thesis using assms(3) u p x True f1 f2 None both [OF h2(3)] by (auto simp: sys_pipe2_def split: option.splits)
    next
      case (Some i)
      have i: "i < NFD" "fds (thk s2 c) ! i = None" "s3 = set_fd c i (Some r) s2" using f1 Some by (auto elim: fd_alloc_cases)
      have e3: "plus_one w (plus_one r (\<lambda>_. 0)) = plus_one r (plus_one w (\<lambda>_. 0))" by (auto simp: plus_one_def)
      have h3: "holding {} (plus_one w (\<lambda>_. 0)) s3" using holding_give [of "{}" r "plus_one w (\<lambda>_. 0)" s2 c i s3] h2 f1 Some e3 by simp
      have c: "c < length (threads (k_sched s2))" by (rule runningD(1) [OF h2(3, 4)])
      have r3: "running c s3" using h2(4) c i(3) by (simp add: running_def set_fd_def on_sched_def thr_on_thread ended_def)
      show ?thesis
      proof (cases wf)
        case None
        then have "s4 = s3" using f2 Some by (auto elim: fd_alloc_cases)
        moreover have "fds (thk s3 c) ! i = Some r" using i c runningD(3) [OF h2(3, 4)] by (simp add: set_fd_def on_sched_def thr_on_thread)
        then have "holding {} (plus_one r (plus_one w (\<lambda>_. 0))) (set_fd c i None s3)" using holding_set_fd [OF h3, of c i None] r3 i(1) by (simp add: running_def)
        ultimately show ?thesis using assms(3) u p x True f1 f2 Some None both [of "set_fd c i None s3"] e3 by (auto simp: sys_pipe2_def split: option.splits)
      next
        case (Some j)
        then have "fd_ok s4" using holding_give [OF h3 r3 h2(2), of j s4] f2 \<open>rf = Some i\<close> by simp
        then show ?thesis using assms(3) u p x True f1 f2 Some \<open>rf = Some i\<close> only_pagesD(1) by (auto simp: sys_pipe2_def dest!: put_user_pages)
      qed
    qed
  qed
qed

lemma sys_socket_ok:
  assumes "fd_ok s" "running c s" "sys_socket d c domn ty s = Some (v, s')"
  shows "fd_ok s'"
proof -
  let ?k = "(ucast ty :: u32) AND 15"
  show ?thesis
  proof (cases "domn \<noteq> AF_INET \<or> \<not> is_up (k_net s) \<or> (?k \<noteq> SOCK_DGRAM \<and> ?k \<noteq> SOCK_STREAM)")
    case True
    then show ?thesis using assms(1, 3) by (auto simp: sys_socket_def split: if_splits)
  next
    case False
    let ?o = "if ?k = SOCK_STREAM then file_tcp d s else Some (file_udp s)"
    have eq: "sys_socket d c domn ty s = (case ?o of None \<Rightarrow> None | Some ((e, None), s1) \<Rightarrow> Some (of_int e, s1)
        | Some ((e, Some f), s1) \<Rightarrow> if e < 0 then Some (of_int e, s1) else fd_install d c f s1)"
      using False by (auto simp: sys_socket_def Let_def)
    then obtain e x s1 where o1: "?o = Some ((e, x), s1)" using assms(3) by (auto split: option.splits)
    have o2: "opened {} (\<lambda>_. 0) s x s1" using o1 opened_tcp_new [OF assms(1)] opened_udp [OF assms(1)] by (simp split: if_splits)
    have "e = 0" if "x = Some f" for f using o1 that
      by (auto simp: file_udp_def file_tcp_def split: option.splits prod.splits if_splits)
    then have "case x of None \<Rightarrow> s' = s1 | Some f \<Rightarrow> fd_install d c f s1 = Some (v, s')" using eq o1 assms(3) by (cases x) auto
    then show ?thesis using o2 install_ok [OF assms(1, 2)] by (cases x) (auto simp: opened_def)
  qed
qed

lemma sys_accept_ok:
  assumes "fd_ok s" "running c s" "sys_accept d c tb fd addr alen s = Some (v, s')"
  shows "fd_ok s'"
proof (cases "sock_of file_tcp_conn c fd s")
  case None
  then show ?thesis using assms by (simp add: sys_accept_def)
next
  case (Some l)
  obtain ok s1 where u: "peer_ok tb addr alen s = (ok, s1)" by fastforce
  then have h1: "fd_ok s1" "running c s1" using only_pagesD [OF peer_ok_pages [OF u]] assms(1, 2) by simp_all
  consider "s' = s1" | n where "s' = s1\<lparr>k_net := n\<rparr>" | n k e x s2 where "file_tcp_adopt d (Some k) (s1\<lparr>k_net := n\<rparr>) = Some ((e, x), s2)"
      "case x of None \<Rightarrow> s' = s2 | Some f \<Rightarrow> (\<exists>w s3. fd_install d c f s2 = Some (w, s3) \<and> only_pages s3 s')"
    using assms(3) Some u
    by (auto simp: sys_accept_def fd_install_def split: option.splits if_splits prod.splits dest!: put_peer_pages)
  then show ?thesis
  proof cases
    case (3 n k e x s2)
    let ?t = "s1\<lparr>k_net := n\<rparr>"
    have h: "fd_ok ?t" "running c ?t" using holding_fields(1) [OF h1(1)] h1(2) by (simp_all add: running_def)
    show ?thesis using opened_tcp [OF h(1) 3(1)] 3(2) install_ok [OF h] only_pagesD(1) by (cases x) (auto simp: opened_def)
  qed (use h1 holding_fields(1) [OF h1(1)] in simp_all)
qed

section \<open>Reading and writing\<close>

text \<open>What the others do while a thread waits keeps the balance.\<close>

definition calm :: "((kern \<Rightarrow> kern) \<times> place) list \<Rightarrow> bool" where
  "calm ws \<longleftrightarrow> (\<forall>(g, w) \<in> set ws. \<forall>x. fd_ok x \<longrightarrow> fd_ok (g x))"

lemma calm_Cons [simp]: "calm ((g, w) # ws) \<longleftrightarrow> (\<forall>x. fd_ok x \<longrightarrow> fd_ok (g x)) \<and> calm ws"
  by (simp add: calm_def)

lemma holding_block: "holding X K s \<Longrightarrow> holding X K (block_on_pipe p w s)"
  unfolding block_on_pipe_def thread_block_on_pipe_def by (rule holding_sched) (auto intro!: fd_keep_block dest: holdingD(2))

lemma holding_wake: "holding X K s \<Longrightarrow> holding X K (wake_pipe p s)"
  unfolding wake_pipe_def by (rule holding_sched) (simp_all add: fd_keep_wake_pipe)

lemma holding_turn:
  assumes "holding X K s" "files_ok t" "files t = files s" "k_sched t = k_sched s"
  shows "holding X K t"
  by (rule holding_keep [OF assms(1, 2)]) (simp_all add: assms same_refs_def)

lemma wake_files_ok: "files_ok (wake_pipe p t) = files_ok t" "files_ok (block_on_pipe p w t) = files_ok t"
  by (auto intro: files_ok_cong)

lemma read_turn_holds:
  assumes "holding X K s" "p < NPIPE" "pipe_read_turn p len w s = GotBytes n bs s' \<or> pipe_read_turn p len w s = ReaderAsleep s'"
  shows "holding X K s'"
proof -
  have ok: "files_ok s'" by (rule read_turn_ok [OF holdingD(1) [OF assms(1)] assms(2, 3)])
  consider "s' = s" | "s' = block_on_pipe p w s" | q where "s' = wake_pipe p (on_pipe p (\<lambda>_. q) s)"
    using assms(3) by (auto simp: pipe_read_turn_def Let_def case_prod_unfold split: if_splits)
  then show ?thesis
  proof cases
    case (3 q)
    then have "holding X K (on_pipe p (\<lambda>_. q) s)" using holding_turn [OF assms(1)] ok wake_files_ok by simp
    then show ?thesis using holding_wake 3 by simp
  qed (use assms(1) holding_block in simp_all)
qed

lemma write_turn_holds:
  assumes "holding X K s" "p < NPIPE" "pipe_write_turn p buf n w s = Wrote r s' \<or> pipe_write_turn p buf n w s = WriterAsleep rest m s'"
  shows "holding X K s'"
proof -
  have ok: "files_ok s'" by (rule write_turn_ok [OF holdingD(1) [OF assms(1)] assms(2, 3)])
  consider "s' = s" | "s' = wake_pipe p s" | q where "s' = wake_pipe p (on_pipe p (\<lambda>_. q) s) \<or> s' = block_on_pipe p w (on_pipe p (\<lambda>_. q) s)"
    using assms(3) by (auto simp: pipe_write_turn_def Let_def case_prod_unfold split: if_splits)
  then show ?thesis
  proof cases
    case (3 q)
    then have "holding X K (on_pipe p (\<lambda>_. q) s)" using holding_turn [OF assms(1)] ok wake_files_ok by auto
    then show ?thesis using holding_wake holding_block 3 by auto
  qed (use assms(1) holding_wake in simp_all)
qed

lemma pipe_read_ok: "pipe_read ws p len w s = Some (x, s') \<Longrightarrow> fd_ok s \<Longrightarrow> p < NPIPE \<Longrightarrow> calm ws \<Longrightarrow> fd_ok s'"
proof (induction ws p len w s rule: pipe_read.induct)
  case (1 ws p len w s)
  show ?case
  proof (cases "pipe_read_turn p len w s")
    case (GotBytes r bs s1)
    then show ?thesis using 1 read_turn_holds [of "{}" "\<lambda>_. 0" s p len w r bs s1] by (simp add: pipe_read.simps [of ws])
  next
    case (ReaderAsleep s1)
    then have "fd_ok s1" using 1 read_turn_holds [of "{}" "\<lambda>_. 0" s p len w _ _ s1] by simp
    then show ?thesis using 1 ReaderAsleep by (auto simp: pipe_read.simps [of ws] split: list.splits)
  qed
qed

lemma pipe_write_ok: "pipe_write ws p buf n w s = Some (x, s') \<Longrightarrow> fd_ok s \<Longrightarrow> p < NPIPE \<Longrightarrow> calm ws \<Longrightarrow> fd_ok s'"
proof (induction ws p buf n w s rule: pipe_write.induct)
  case (1 ws p buf n w s)
  show ?case
  proof (cases "pipe_write_turn p buf n w s")
    case (Wrote r s1)
    then show ?thesis using 1 write_turn_holds [of "{}" "\<lambda>_. 0" s p buf n w r s1] by (simp add: pipe_write.simps [of ws])
  next
    case (WriterAsleep rest m s1)
    then have "fd_ok s1" using 1 write_turn_holds [of "{}" "\<lambda>_. 0" s p buf n w _ s1 rest m] by simp
    then show ?thesis using 1 WriterAsleep by (auto simp: pipe_write.simps [of ws] split: list.splits)
  qed
qed

lemma open_pipe_bound:
  assumes "files_ok s" "i < NFILE" "f_kind (files s ! i) \<noteq> FILE_FREE" "f_pipe (files s ! i) = Some p"
  shows "p < NPIPE"
  using assms by (auto simp: files_ok_def file_ok_def)

lemma file_read_holds:
  assumes "fd_ok s" "i < NFILE" "f_kind (files s ! i) \<noteq> FILE_FREE" "calm (others sc)" "file_read sc i len s = Some (x, s')"
  shows "fd_ok s'"
proof -
  note f = holding_fields [OF assms(1)]
  have m: "fd_ok (on_file i (\<lambda>f. f\<lparr>f_pos := g f\<rparr>) t)" if "fd_ok t" for g t by (rule holding_file [OF that]) simp
  have "fd_ok s'" if "f_pipe (files s ! i) = Some p" "pipe_read (others sc) p (unat len) (here sc) s = Some (x, s')" for p
    using pipe_read_ok [OF that(2) assms(1) _ assms(4)] open_pipe_bound [OF holdingD(1) [OF assms(1)] assms(2, 3) that(1)] by simp
  then show ?thesis using assms(1, 5) f m [OF assms(1)] m [OF f(2)]
    by (auto simp: file_read_def Let_def split: if_splits option.splits prod.splits)
qed

lemma file_write_holds:
  assumes "fd_ok s" "i < NFILE" "f_kind (files s ! i) \<noteq> FILE_FREE" "calm (others sc)" "file_write sc i buf s = Some (x, s')"
  shows "fd_ok s'"
proof -
  note f = holding_fields [OF assms(1)]
  have m: "fd_ok (on_mem j g t)" if "fd_ok t" for j g t by (rule holding_same [OF that]) simp_all
  have p: "fd_ok (on_file i (\<lambda>f. f\<lparr>f_pos := v\<rparr>) s)" for v by (rule holding_file [OF assms(1)]) simp
  have w: "fd_ok (on_file i (\<lambda>f. f\<lparr>f_fat := e, f_pos := v f\<rparr>) (s\<lparr>k_fat := d\<rparr>))" "fd_ok (on_file i (\<lambda>f. f\<lparr>f_fat := e\<rparr>) (s\<lparr>k_fat := d\<rparr>))" for e v d
    by (rule holding_file [OF f(2)]; simp)+
  have "fd_ok s'" if "f_pipe (files s ! i) = Some p" "pipe_write (others sc) p buf 0 (here sc) s = Some (x, s')" for p
    using pipe_write_ok [OF that(2) assms(1) _ assms(4)] open_pipe_bound [OF holdingD(1) [OF assms(1)] assms(2, 3) that(1)] by simp
  then show ?thesis using assms(1, 5) f w m [OF p]
    by (auto simp: file_write_def mem_write_def Let_def split: if_splits option.splits prod.splits)
qed

lemma file_getdents_holds:
  assumes "holding X K s" "file_getdents i len s = Some (x, s')"
  shows "holding X K s'"
proof -
  have "holding X K (on_file i (\<lambda>f. f\<lparr>f_pos := p\<rparr>) (s\<lparr>k_fat := v\<rparr>))" for p v by (rule holding_file [OF holding_fields(2) [OF assms(1)]]) simp
  then show ?thesis using assms by (auto simp: file_getdents_def Let_def split: option.splits if_splits)
qed

section \<open>Leaving\<close>

lemma wf_fds_mono: "wf_fds X x \<Longrightarrow> X \<subseteq> Y \<Longrightarrow> wf_fds Y x"
  unfolding wf_fds_def by blast

lemma wf_fds_tighten:
  assumes "wf_fds {c} x" "set (fds (thr x c)) \<subseteq> {None}"
  shows "wf_fds {} x"
proof -
  have "set (fds (thr x i)) \<subseteq> {None}" if "i < MAX_THREADS" "n_threads x \<le> i \<or> ended (thr x i)" for i
    using assms that unfolding wf_fds_def by (cases "i = c") blast+
  then show ?thesis using assms(1) unfolding wf_fds_def by blast
qed

lemma close_fds_holds:
  "close_fds is d c s = Some s' \<Longrightarrow> holding {c} (\<lambda>_. 0) s \<Longrightarrow> c < n_threads (k_sched s) \<Longrightarrow> set is \<subseteq> {..<NFD} \<Longrightarrow>
   holding {c} (\<lambda>_. 0) s' \<and> c < n_threads (k_sched s') \<and> cpus (k_sched s') = cpus (k_sched s) \<and>
   (\<forall>i < NFD. fds (thk s' c) ! i = (if i \<in> set is then None else fds (thk s c) ! i))"
proof (induction "is" arbitrary: s)
  case (Cons i js)
  have l: "c < length (threads (k_sched s))" using holdingD(2) [OF Cons.prems(2)] Cons.prems(3) by (auto simp: wf_fds_def)
  then have o: "fds_ok (thk s c)" using holdingD(2) [OF Cons.prems(2)] by (simp add: wf_fds_def)
  have i: "i < NFD" using Cons.prems(4) by simp
  obtain s1 where s1: "close_opt d (fds (thk s c) ! i) s = Some s1" "close_fds js d c (set_fd c i None s1) = Some s'"
    using Cons.prems(1) by (auto split: option.splits)
  have k: "fd_keep (k_sched s) (k_sched s1)" "cpus (k_sched s1) = cpus (k_sched s)" and
    h: "holding {c} (case fds (thk s c) ! i of None \<Rightarrow> (\<lambda>_. 0) | Some f \<Rightarrow> minus_one f (\<lambda>_. 0)) s1"
  proof -
    have m: "Some f \<in> set (fds (thk s c))" if "fds (thk s c) ! i = Some f" for f using that i o by (metis fds_ok_def nth_mem)
    show "fd_keep (k_sched s) (k_sched s1)" "cpus (k_sched s1) = cpus (k_sched s)"
      using s1(1) file_close_sched [of d _ s s1] file_close_cpus [of d _ s s1] by (auto simp: close_opt_def split: option.splits)
    show "holding {c} (case fds (thk s c) ! i of None \<Rightarrow> (\<lambda>_. 0) | Some f \<Rightarrow> minus_one f (\<lambda>_. 0)) s1"
      using s1(1) Cons.prems(2) holding_close [OF Cons.prems(2), of _ d s1] m desc_pos [OF l] o
      by (auto simp: close_opt_def fds_ok_def split: option.splits)
  qed
  have f1: "fds (thk s1 c) = fds (thk s c)" "n_threads (k_sched s1) = n_threads (k_sched s)" "c < length (threads (k_sched s1))"
    using k(1) l unfolding fd_keep_def by (metis length_map nth_map)+
  have "move (fds (thk s c) ! i) None (case fds (thk s c) ! i of None \<Rightarrow> (\<lambda>_. 0) | Some f \<Rightarrow> minus_one f (\<lambda>_. 0)) = (\<lambda>_. 0)"
    by (simp split: option.split)
  then have h2: "holding {c} (\<lambda>_. 0) (set_fd c i None s1)" using holding_set_fd [OF h, of c i None] f1 Cons.prems(3) i by simp
  have f2: "fds (thk (set_fd c i None s1) c) = (fds (thk s c))[i := None]" "n_threads (k_sched (set_fd c i None s1)) = n_threads (k_sched s)"
    "cpus (k_sched (set_fd c i None s1)) = cpus (k_sched s)"
    using f1 k(2) by (simp_all add: set_fd_def on_sched_def thr_on_thread)
  show ?case using Cons.IH [OF s1(2) h2] Cons.prems(3, 4) f2 o by (auto simp: nth_list_update fds_ok_def)
qed simp

lemma become_zombie_holds:
  assumes "fd_ok s" "curk me s = Some c"
  shows "holding {c} (\<lambda>_. 0) (on_sched (become_zombie me code) s)"
proof -
  have c: "c < n_threads (k_sched s)" "c < length (threads (k_sched s))"
    using assms(2) holdingD(2) [OF assms(1)] unfolding wf_fds_def by (blast, metis less_le_trans)
  have h: "holding {c} (\<lambda>_. 0) s" using assms(1) wf_fds_mono unfolding holding_def by blast
  have "fds_ok (thk s c)" using holdingD(2) [OF assms(1)] c(2) by (simp add: wf_fds_def)
  then have "holding {c} (trade (fds (thk s c)) (fds (thk s c)) (\<lambda>_. 0)) (on_sched (on_thread c (\<lambda>t. t\<lparr>tstate := Zombie, status := code, space := 0\<rparr>)) s)"
    using holding_thread [OF h c(1), of "\<lambda>t. t\<lparr>tstate := Zombie, status := code, space := 0\<rparr>"] by (simp add: fds_ok_def)
  moreover have "trade xs xs K = K" for xs K by (auto simp: trade_def)
  ultimately show ?thesis using assms(2) by (simp add: on_sched_def become_zombie_def)
qed

lemma thread_exit_ok:
  assumes "fd_ok s" "thread_exit me d now sp_now code s = Some s'"
  shows "fd_ok s'"
proof -
  obtain c s1 where c: "curk me s = Some c" and s1: "close_fds [0..<NFD] d c (on_sched (become_zombie me code) s) = Some s1"
    using assms(2) by (auto simp: thread_exit_def Let_def split: option.splits)
  define spc where "spc = space (thk s c)"
  let ?z = "on_sched (become_zombie me code) s"
  have z: "holding {c} (\<lambda>_. 0) ?z" by (rule become_zombie_holds [OF assms(1) c])
  have "c < n_threads (k_sched s)" using c holdingD(2) [OF assms(1)] by (auto simp: wf_fds_def)
  then have "c < n_threads (k_sched ?z)" using c by (simp add: on_sched_def become_zombie_def)
  then have h1: "holding {c} (\<lambda>_. 0) s1" "\<forall>i < NFD. fds (thk s1 c) ! i = None" "c < n_threads (k_sched s1)" using close_fds_holds [OF s1 z] by (auto simp: atLeast0LessThan)
  have "fds_ok (thk s1 c)" using holdingD(2) [OF h1(1)] h1(3) by (simp add: wf_fds_def)
  then have "set (fds (thk s1 c)) \<subseteq> {None}" using h1(2) unfolding fds_ok_def by (auto simp: in_set_conv_nth)
  then have "fd_ok s1" using h1(1) wf_fds_tighten unfolding holding_def by blast
  then have h2: "fd_ok (if spc \<noteq> 0 then with_pages (vm_free_space spc (mem_pages s1)) s1 else s1)" (is "fd_ok ?s2") by simp
  have "fd_keep (k_sched ?s2) (schedule me now sp_now (wake_parent me (k_sched ?s2)))"
    using fd_keep_trans fd_keep_wake_parent fd_keep_schedule fd_keep_wf holdingD(2) [OF h2] by blast
  moreover have "s' = ?s2\<lparr>k_sched := schedule me now sp_now (wake_parent me (k_sched ?s2))\<rparr>"
    using assms(2) c s1 by (cases "spc = 0") (simp_all add: thread_exit_def Let_def on_sched_def spc_def)
  ultimately show ?thesis using holding_sched [OF h2] by simp
qed

section \<open>Fork\<close>

lemma alloc_slot_wf:
  assumes "wf_fds X x" "alloc_slot x = (Some i, y)"
  shows "wf_fds X y \<and> (\<forall>f. desc y f = desc x f) \<and> i < n_threads y \<and> ended (thr y i) \<and> cpus y = cpus x \<and>
    (\<forall>j < MAX_THREADS. fds (thr y j) = fds (thr x j)) \<and> (\<forall>j < n_threads x. \<not> ended (thr x j) \<longrightarrow> \<not> ended (thr y j) \<and> j \<noteq> i)"
proof (cases "filter (\<lambda>i. st x i = Free) [0..<n_threads x]")
  case (Cons a as)
  then have "a \<in> set (filter (\<lambda>i. st x i = Free) [0..<n_threads x])" by simp
  then have "a < n_threads x" "st x a = Free" by simp_all
  then show ?thesis using assms Cons by (auto simp: alloc_slot_def ended_def)
next
  case Nil
  let ?n = "n_threads x"
  have n: "?n < MAX_THREADS" "i = ?n" "y = (on_thread ?n (\<lambda>t. t\<lparr>tstate := Free\<rparr>) x)\<lparr>n_threads := Suc ?n\<rparr>"
    using assms(2) Nil by (auto simp: alloc_slot_def split: if_splits)
  have l: "?n < length (threads x)" "length (threads x) = MAX_THREADS" using assms(1) n(1) by (simp_all add: wf_fds_def)
  have t: "thr y j = (if j = ?n then (thr x ?n)\<lparr>tstate := Free\<rparr> else thr x j)" for j using n(3) l by (simp add: on_thread_def nth_list_update)
  have f: "fds (thr y j) = fds (thr x j)" for j using t by simp
  have ly: "length (threads y) = MAX_THREADS" "n_threads y = Suc ?n" "cpus y = cpus x" using n(3) l(2) by simp_all
  have "map fds (threads y) = map fds (threads x)" by (rule nth_equalityI) (use ly l f in simp_all)
  then have d: "desc y g = desc x g" for g by (simp add: desc_def)
  have fo: "fds_ok u" if "u \<in> set (threads y)" for u
  proof -
    obtain j where j: "j < MAX_THREADS" "u = thr y j" using \<open>u \<in> set (threads y)\<close> ly(1) by (metis in_set_conv_nth)
    have "fds_ok (thr x j)" using assms(1) j(1) l(2) by (simp add: wf_fds_def)
    then show ?thesis using f [of j] j(2) by (simp add: fds_ok_def)
  qed
  have "wf_fds X y"
    unfolding wf_fds_def
  proof (intro conjI allI impI ballI)
    show "set (fds (thr y j)) \<subseteq> {None}" if "j < MAX_THREADS" "j \<notin> X \<and> (n_threads y \<le> j \<or> ended (thr y j))" for j
    proof -
      have "?n \<le> j \<or> ended (thr x j)" using that(2) t ly(2) by (auto split: if_splits)
      then show ?thesis using assms(1) that f unfolding wf_fds_def by metis
    qed
    show "c < n_threads y" if "curof y m = Some c \<or> idleof y m = Some c" for m c
      using assms(1) that ly unfolding wf_fds_def by (metis less_SucI)
  qed (use ly n(1) fo in simp_all)
  then show ?thesis using n d f t ly(2) by (auto simp: ended_def)
qed

lemma fold_ref_holds:
  "holding X K s \<Longrightarrow> (\<forall>f. Some f \<in> set L \<longrightarrow> f < NFILE \<and> 0 < desc (k_sched s) f + K f) \<Longrightarrow>
   holding X (\<lambda>f. K f + int (count_list L (Some f))) (fold ref_opt L s) \<and> k_sched (fold ref_opt L s) = k_sched s"
proof (induction L arbitrary: K s)
  case (Cons x L)
  show ?case
  proof (cases x)
    case None
    then show ?thesis using Cons by (simp add: ref_opt_def)
  next
    case (Some f)
    have r: "holding X (plus_one f K) (file_ref f s)" using Cons.prems Some by (intro holding_ref) auto
    have e: "(\<lambda>g. plus_one f K g + int (count_list L (Some g))) = (\<lambda>g. K g + int (count_list (x # L) (Some g)))"
      using Some by (auto simp: plus_one_def)
    have p: "K g \<le> plus_one f K g" for g by (simp add: plus_one_def)
    have "\<forall>g. Some g \<in> set L \<longrightarrow> g < NFILE \<and> 0 < desc (k_sched (file_ref f s)) g + plus_one f K g"
      using Cons.prems(2) p by (auto simp: plus_one_def)
    then show ?thesis using Cons.IH [OF r] Some unfolding e by (simp add: ref_opt_def)
  qed
qed simp

lemma slot_init_wf:
  assumes "holding X K s" "i < n_threads (k_sched s)" "set (fds (thk s i)) \<subseteq> {None}"
  shows "holding X K (on_sched (slot_init me i nm spc) s)"
proof -
  let ?x = "k_sched s"
  define g where "g = (\<lambda>t :: thread. t\<lparr>id_of := next_id ?x, tname := nm, slices := 0, space := spc,
        parent := (case current me ?x of Some c \<Rightarrow> id_of c | None \<Rightarrow> -1), status := 0, wait_reason := NoReason,
        wait_object := NoObject, wake_at := 0, pgid := (case current me ?x of Some c \<Rightarrow> pgid c | None \<Rightarrow> 0), pending := 0, blocked := 0, home := -1,
        user_table := 0, last_cpu := -1, ran_on := 0, sigacts := replicate NSIG no_sigact, stack_low := 0, sp := 0, fds := replicate NFD None\<rparr>)"
  have "fds_ok (g (thk s i))" "set (fds (g (thk s i))) \<subseteq> {None}" by (auto simp: fds_ok_def g_def)
  moreover have "trade (fds (thk s i)) (fds (g (thk s i))) K = K"
    using count_none [OF assms(3)] count_none [OF calculation(2)] by (auto simp: trade_def)
  ultimately have "holding X K (on_sched (on_thread i g) s)" using holding_thread [OF assms(1, 2), of g] by simp
  then have "holding X K ((on_sched (on_thread i g) s)\<lparr>k_sched := (on_thread i g ?x)\<lparr>next_id := next_id ?x + 1\<rparr>\<rparr>)"
    by (rule holding_sched) (auto simp: on_sched_def fd_keep_def)
  then show ?thesis by (simp add: on_sched_def slot_init_def g_def)
qed

lemma slot_init_threads:
  assumes "i < length (threads x)"
  shows "fds (thr (slot_init me i nm spc x) i) = replicate NFD None" "j \<noteq> i \<Longrightarrow> thr (slot_init me i nm spc x) j = thr x j"
    "n_threads (slot_init me i nm spc x) = n_threads x" "cpus (slot_init me i nm spc x) = cpus x"
  using assms by (simp_all add: slot_init_def thr_on_thread on_thread_def)

lemma thread_fork_ok:
  assumes "fd_ok s" "curk me s = Some c" "running c s" "thread_fork me f spc rt s = (r, s')"
  shows "fd_ok s'"
proof -
  obtain x sc where a: "alloc_slot (k_sched s) = (x, sc)" by fastforce
  show ?thesis
  proof (cases x)
    case None
    then show ?thesis using assms(1, 4) a by (auto simp: thread_fork_def alloc_slot_def split: list.splits if_splits)
  next
    case (Some i)
    note as = alloc_slot_wf [OF holdingD(2) [OF assms(1)] a [unfolded Some]]
    have h0: "fd_ok (s\<lparr>k_sched := sc\<rparr>)"
      using assms(1) as files_ok_cong [OF holdingD(1) [OF assms(1)], of "s\<lparr>k_sched := sc\<rparr>"] by (simp add: holding_def counted_def)
    obtain stack p where st: "alloc_pages (pages sc) STACK_PAGES = (stack, p)" by fastforce
    show ?thesis
    proof (cases "stack = 0")
      case True
      have "fd_keep sc (on_thread i (\<lambda>t. t\<lparr>tstate := Free\<rparr>) (sc\<lparr>pages := p\<rparr>))"
        by (rule fd_keep_trans [OF _ fd_keep_thread [where x = "sc\<lparr>pages := p\<rparr>"]]) (use as in \<open>simp_all\<close>)
      then show ?thesis using assms(4) a Some st True holding_sched [OF h0] by (auto simp: thread_fork_def)
    next
      case False
      define q where "q = fork_pages stack f rt p"
      define t where "t = on_sched (slot_init me i child_name spc) (with_pages q (s\<lparr>k_sched := sc\<rparr>))"
      have ln: "i < length (threads sc)" "i < n_threads sc" "c < MAX_THREADS" "c \<noteq> i" "length (threads sc) = MAX_THREADS"
        using as runningD [OF assms(1, 3)] holdingD(5) [OF assms(1)] assms(3) holdingD(2) [OF h0] unfolding running_def wf_fds_def by auto
      have "set (fds (thr sc i)) \<subseteq> {None}" using as ln holdingD(2) [OF h0] unfolding wf_fds_def by simp
      then have t: "fd_ok t" using h0 ln(2) unfolding t_def by (intro slot_init_wf) simp_all
      have kt: "k_sched t = slot_init me i child_name spc (sc\<lparr>pages := q\<rparr>)" by (simp add: t_def on_sched_def)
      note si = slot_init_threads [where x = "sc\<lparr>pages := q\<rparr>" and i = i and me = me and nm = child_name and spc = spc]
      have ct: "curk me t = Some c" "thk t c = thr sc c" "fds (thr sc c) = fds (thk s c)" using as assms(2) si ln kt by simp_all
      let ?L = "fds (thr sc c)"
      have "fds_ok (thr sc c)" using holdingD(2) [OF h0] ln by (simp add: wf_fds_def)
      then have L: "length ?L = NFD" "\<And>f. Some f \<in> set ?L \<Longrightarrow> f < NFILE" by (simp_all add: fds_ok_def)
      have cl: "c < length (threads (k_sched t))" using holdingD(5) [OF t] ln(3) by simp
      have "\<forall>f. Some f \<in> set ?L \<longrightarrow> f < NFILE \<and> 0 < desc (k_sched t) f + 0" using L(2) desc_pos [OF cl] ct(2) by simp
      from fold_ref_holds [OF t this]
      have u: "holding {} (\<lambda>f. int (count_list ?L (Some f))) (fold ref_opt ?L t)" "k_sched (fold ref_opt ?L t) = k_sched t" by simp_all
      define g where "g = fork_child stack (Some (thr sc c))"
      have n: "i < n_threads (k_sched (fold ref_opt ?L t))" "fds (thk (fold ref_opt ?L t) i) = replicate NFD None" using u(2) kt si ln by simp_all
      have "trade (replicate NFD None) ?L (\<lambda>f. int (count_list ?L (Some f))) = (\<lambda>_. 0)" by (auto simp: trade_def count_none)
      then have fin: "fd_ok (on_sched (on_thread i g) (fold ref_opt ?L t))"
        using holding_thread [OF u(1) n(1), of g] n(2) L by (simp add: g_def fork_child_def Let_def fds_ok_def ended_def)
      have "current me (k_sched t) = Some (thr sc c)" using ct by (simp add: current_def)
      then have cu: "current me (slot_init me i child_name spc (sc\<lparr>pages := q\<rparr>)) = Some (thr sc c)" by (simp add: kt)
      have tt: "t = s\<lparr>k_sched := slot_init me i child_name spc (sc\<lparr>pages := q\<rparr>)\<rparr>" by (simp add: t_def with_pages_def on_sched_def)
      have "s' = on_sched (on_thread i g) (fold ref_opt ?L t)"
        using assms(4) a Some st False by (simp add: thread_fork_def q_def [symmetric] cu tt [symmetric] g_def)
      then show ?thesis using fin by simp
    qed
  qed
qed

lemma do_fork_ok:
  assumes "fd_ok s" "curk me s = Some c" "running c s" "do_fork me f rt s = (v, s')"
  shows "fd_ok s'"
proof -
  obtain spc p where v: "vm_copy_space (mmu_current_user_table_kva (table_of me s) (mem_pages s)) (mem_pages s) = (spc, p)" by fastforce
  obtain r s2 where t: "thread_fork me f spc rt (with_pages p s) = (r, s2)" by fastforce
  have "fd_ok s2" by (rule thread_fork_ok [OF _ _ _ t]) (use assms in simp_all)
  then show ?thesis using assms(1, 4) v t by (auto simp: do_fork_def Let_def split: if_splits option.splits)
qed

section \<open>The remaining calls\<close>

text \<open>A call that may fault or wait, and keeps the balance if it returns.\<close>

definition kept :: "('a \<times> kern) option \<Rightarrow> bool" where
  "kept r \<longleftrightarrow> (\<forall>v s'. r = Some (v, s') \<longrightarrow> fd_ok s')"

lemma keptI: "(\<And>v s'. r = Some (v, s') \<Longrightarrow> fd_ok s') \<Longrightarrow> kept r"
  by (auto simp: kept_def)

lemma kept_simps [simp]: "kept None" "kept (Some (v, s')) = fd_ok s'" "kept (if b then x else y) = (if b then kept x else kept y)"
  "kept (map_option (Pair v) r) = (\<forall>s'. r = Some s' \<longrightarrow> fd_ok s')" "kept (map_option (\<lambda>s4. (g s4, s4)) r) = (\<forall>s'. r = Some s' \<longrightarrow> fd_ok s')"
  by (auto simp: kept_def)

lemma only_pages_ok: "fd_ok s \<Longrightarrow> only_pages s s' \<Longrightarrow> fd_ok s'"
  using only_pagesD(1) by blast

lemma sys_write_ok:
  assumes "fd_ok s" "running c s" "calm (others sc)"
  shows "kept (sys_write sc c tb fd buf len s)"
proof (cases "fd_get c fd s")
  case (Some f)
  obtain ok s1 where u: "user_okk tb buf len False s = (ok, s1)" by fastforce
  note h = only_pages_ok [OF assms(1) user_okk_pages [OF u]] fd_get_held [OF assms(1, 2) Some]
  have "files s1 = files s" using user_okk_pages [OF u] by (auto simp: only_pages_def)
  then have "fd_ok s2" if "file_write sc f bs s1 = Some (r, s2)" for bs r s2
    using file_write_holds [OF h(1, 2) _ assms(3) that] h(6) by simp
  then show ?thesis using Some u h(1) by (auto simp: sys_write_def kept_def split: option.splits)
qed (use assms in \<open>simp add: sys_write_def\<close>)

lemma sys_read_ok:
  assumes "fd_ok s" "running c s" "calm (others sc)"
  shows "kept (sys_read sc c tb fd buf len s)"
proof (cases "fd_get c fd s")
  case (Some f)
  obtain ok s1 where u: "user_okk tb buf len True s = (ok, s1)" by fastforce
  note h = only_pages_ok [OF assms(1) user_okk_pages [OF u]] fd_get_held [OF assms(1, 2) Some]
  have "files s1 = files s" using user_okk_pages [OF u] by (auto simp: only_pages_def)
  then have "fd_ok s2" if "file_read sc f len s1 = Some (r, s2)" for r s2
    using file_read_holds [OF h(1, 2) _ assms(3) that] h(6) by simp
  then show ?thesis using Some u h(1) assms(1) only_pages_ok [OF _ put_user_pages] by (auto simp: sys_read_def kept_def split: option.splits)
qed (use assms in \<open>simp add: sys_read_def\<close>)

lemma sys_getdents_ok:
  assumes "fd_ok s"
  shows "kept (sys_getdents c tb a b len s)"
proof -
  obtain ok s1 where u: "user_okk tb b len True s = (ok, s1)" by fastforce
  have "fd_ok s1" by (rule only_pages_ok [OF assms user_okk_pages [OF u]])
  then show ?thesis using u only_pages_ok [OF file_getdents_holds put_user_pages] by (auto simp: sys_getdents_def kept_def split: option.splits)
qed

lemma sys_dir_ok: "fd_ok s \<Longrightarrow> kept (sys_dir mk tb a b s)"
  using holding_fields(2) by (auto simp: sys_dir_def kept_def split: option.splits if_splits)

lemma sys_bind_ok:
  assumes "fd_ok s"
  shows "kept (sys_bind c tb fd addr len s)"
proof -
  have "fd_ok s1" "fd_ok (s1\<lparr>k_net := n\<rparr>)" if "sockaddr_read tb addr len s = Some (x, s1)" for x s1 n
    using only_pages_ok [OF assms sockaddr_read_pages [OF that]] holding_fields(1) by blast+
  then show ?thesis using assms
    by (auto simp: sys_bind_def Let_def kept_def case_prod_unfold split: option.splits sockaddr.splits if_splits)
qed

lemma sys_connect_ok:
  assumes "fd_ok s"
  shows "kept (sys_connect d c tb fd addr len s)"
proof -
  have "fd_ok s1" "fd_ok (s1\<lparr>k_net := n\<rparr>)" if "sockaddr_read tb addr len s = Some (x, s1)" for x s1 n
    using only_pages_ok [OF assms sockaddr_read_pages [OF that]] holding_fields(1) by blast+
  then show ?thesis using assms by (auto simp: sys_connect_def kept_def split: option.splits sockaddr.splits)
qed

lemma sys_listen_ok: "fd_ok s \<Longrightarrow> kept (Some (sys_listen c fd s))"
  using holding_fields(1) by (simp add: sys_listen_def case_prod_unfold Let_def split: option.split)

lemma sys_sendto_ok:
  assumes "fd_ok s"
  shows "kept (sys_sendto d c tb fd buf len addr alen s)"
proof -
  obtain ok s1 where u: "user_okk tb buf len False s = (ok, s1)" by fastforce
  have h: "fd_ok s1" by (rule only_pages_ok [OF assms user_okk_pages [OF u]])
  have "fd_ok s2" "fd_ok (s2\<lparr>k_net := n\<rparr>)" if "sockaddr_read tb addr alen s1 = Some (x, s2)" for x s2 n
    using only_pages_ok [OF h sockaddr_read_pages [OF that]] holding_fields(1) by blast+
  then show ?thesis using assms u h by (auto simp: sys_sendto_def kept_def split: option.splits sockaddr.splits)
qed

lemma sys_recvfrom_ok:
  assumes "fd_ok s"
  shows "kept (sys_recvfrom d c tb fd buf len addr alen s)"
proof -
  obtain ok s1 where u: "user_okk tb buf len True s = (ok, s1)" by fastforce
  obtain ok2 s2 where v: "peer_ok tb addr alen s1 = (ok2, s2)" by fastforce
  have h: "fd_ok s1" "fd_ok s2" using only_pages_ok [OF assms user_okk_pages [OF u]] only_pages_ok [OF _ peer_ok_pages [OF v]] by blast+
  note n = holding_fields(1) [OF h(2)]
  have "fd_ok s4" if "put_user tb buf bs (s2\<lparr>k_net := m\<rparr>) = Some s3" "put_peer tb addr alen ip p s3 = Some s4" for bs m s3 ip p s4
    using only_pages_ok [OF only_pages_ok [OF n put_user_pages [OF that(1)]] put_peer_pages [OF that(2)]] .
  then show ?thesis using assms u v h n
    by (auto simp: sys_recvfrom_def kept_def split: option.splits prod.splits if_splits)
qed

lemma thread_wait_ok: "thread_wait ws w s = Some (r, s') \<Longrightarrow> fd_ok s \<Longrightarrow> calm ws \<Longrightarrow> fd_ok s'"
proof (induction ws arbitrary: w s)
  case Nil
  obtain x y where t: "thread_wait_turn (on_cpu_no w) (at_time w) (at_sp w) (k_sched s) = (x, y)" by fastforce
  then have "fd_ok (s\<lparr>k_sched := y\<rparr>)" using holding_sched [OF Nil.prems(2)] fd_keep_wait_turn [OF holdingD(2) [OF Nil.prems(2)]] by (metis snd_conv)
  then show ?case using Nil.prems(1) t by (auto split: option.splits)
next
  case (Cons o1 ws)
  obtain g v where o: "o1 = (g, v)" by fastforce
  obtain x y where t: "thread_wait_turn (on_cpu_no w) (at_time w) (at_sp w) (k_sched s) = (x, y)" by fastforce
  then have "fd_ok (s\<lparr>k_sched := y\<rparr>)" using holding_sched [OF Cons.prems(2)] fd_keep_wait_turn [OF holdingD(2) [OF Cons.prems(2)]] by (metis snd_conv)
  then show ?case using Cons t o by (auto split: option.splits)
qed

lemma sys_wait4_ok:
  assumes "fd_ok s" "calm (others sc)"
  shows "kept (sys_wait4 sc tb b fl s)"
proof -
  obtain ok s1 where u: "(if b = 0 then (True, s) else user_okk tb b 4 True s) = (ok, s1)" by fastforce
  have h: "fd_ok s1" using u assms(1) only_pages_ok [OF assms(1) user_okk_pages] by (auto split: if_splits)
  define m where "m = (if fl AND WNOHANG \<noteq> 0 then Some (let (r, x) = thread_reap (on_cpu_no (here sc)) (k_sched s1) in (r, s1\<lparr>k_sched := x\<rparr>))
      else thread_wait (others sc) (here sc) s1)"
  have r: "fd_ok s2" if "m = Some (x, s2)" for x s2
    using that thread_wait_ok [OF _ h assms(2)] holding_sched [OF h fd_keep_reap] by (auto simp: m_def case_prod_unfold Let_def split: if_splits)
  show ?thesis
  proof (cases "\<not> ok \<or> m = None")
    case True
    then show ?thesis using h u by (auto simp: sys_wait4_def m_def [symmetric])
  next
    case False
    then obtain i code s2 where x: "ok" "m = Some ((i, code), s2)" by auto
    obtain ok2 s3 where v: "user_okk tb b 4 True s2 = (ok2, s3)" by fastforce
    have h2: "fd_ok s2" "fd_ok s3" using r [OF x(2)] only_pages_ok [OF _ user_okk_pages [OF v]] by blast+
    then show ?thesis using only_pages_ok [OF h2(2) put_user_pages] x u v by (simp add: sys_wait4_def m_def [symmetric])
  qed
qed

lemma sys_ioctl_ok:
  assumes "fd_ok s"
  shows "kept (sys_ioctl c tb a b p s)"
proof -
  obtain ok1 s1 where u: "user_okk tb p 4 False s = (ok1, s1)" by fastforce
  obtain ok2 s2 where v: "user_okk tb p 4 True s = (ok2, s2)" by fastforce
  have h: "fd_ok s1" "fd_ok s2" using only_pages_ok [OF assms user_okk_pages [OF u]] only_pages_ok [OF assms user_okk_pages [OF v]] by blast+
  have "fd_ok s3" if "put_user tb p bs s2 = Some s3" for bs s3 by (rule only_pages_ok [OF h(2) put_user_pages [OF that]])
  then show ?thesis using assms h holding_fields(3) [OF h(1)] unfolding sys_ioctl_def u v
    by (cases "b = TIOCSPGRP"; cases "b = TIOCGPGRP") (auto simp: kept_def split: option.splits)
qed

lemma sys_kill_ok: "fd_ok s \<Longrightarrow> kept (Some (sys_kill a b s))"
  using holding_sched fd_keep_thread_signal by (simp add: sys_kill_def case_prod_unfold Let_def)

section \<open>Exec\<close>

lemma exec_image_ok: "exec_image nm s = Some (r, s') \<Longrightarrow> fd_ok s \<Longrightarrow> fd_ok s'"
  using holding_fields(2) by (auto simp: exec_image_def Let_def split: option.splits if_splits prod.splits)

lemma holding_on_sched: "holding X K s \<Longrightarrow> fd_keep (k_sched s) (g (k_sched s)) \<Longrightarrow> holding X K (on_sched g s)"
  unfolding on_sched_def by (rule holding_sched)

lemma exec_load_ok:
  assumes "fd_ok s" "exec_load me c img args f s = Some (r, s')"
  shows "fd_ok s'"
proof -
  have sp: "fd_ok (exec_space me c spc t)" if "fd_ok t" for spc t unfolding exec_space_def by (rule holding_on_sched [OF that], rule fd_keep_space)
  have bk: "fd_ok (exec_back me c sv sp2 at n t)" if "fd_ok t" for sv sp2 at n t
    unfolding exec_back_def holding_pages by (rule holding_on_sched [OF that], rule fd_keep_space)
  have st: "fd_keep x (on_thread c (\<lambda>t. t\<lparr>sav := mn\<rparr>) x)" for x mn by (rule fd_keep_thread) (simp_all add: ended_def)
  have fin: "fd_ok (on_sched (\<lambda>x. sig_exec_reset me (on_thread c (\<lambda>t. t\<lparr>sav := mn\<rparr>) x)) t)" if "fd_ok t" for mn t
    by (rule holding_on_sched [OF that], rule fd_keep_trans [OF st fd_keep_exec_reset])
  obtain m at len n where i: "img = (m, at, len, n)" by (metis surj_pair)
  show ?thesis using assms sp bk fin
    by (auto simp: exec_load_def i Let_def split: option.splits prod.splits if_splits)
qed

lemma do_execve_ok:
  assumes "fd_ok s"
  shows "kept (do_execve me path argv f s)"
proof -
  have "fd_ok s'" if "(case exec_image nm (with_pages p s) of None \<Rightarrow> None | Some (Inl e, s1) \<Rightarrow> Some ((e, f), s1)
      | Some (Inr img, s1) \<Rightarrow> (case curk me s1 of None \<Rightarrow> None | Some c \<Rightarrow> exec_load me c img args f s1)) = Some (v, s')" for nm p args v s'
  proof (cases "exec_image nm (with_pages p s)")
    case (Some r)
    obtain x s1 where r: "r = (x, s1)" by fastforce
    have "fd_ok s1" using exec_image_ok [of nm "with_pages p s" x s1] Some r assms by simp
    then show ?thesis using that Some r exec_load_ok by (cases x) (auto split: option.splits)
  qed (use that in simp)
  then show ?thesis using assms unfolding do_execve_def Let_def kept_def
    by (auto split: option.splits sum.splits if_splits)
qed

section \<open>Every exception from a program\<close>

definition state_of :: "outcome \<Rightarrow> kern" where
  "state_of r = (case r of Returns v f s \<Rightarrow> s | Gone s \<Rightarrow> s)"

definition good :: "outcome option \<Rightarrow> bool" where
  "good r \<longleftrightarrow> (\<forall>x. r = Some x \<longrightarrow> fd_ok (state_of x))"

lemma good_ret: "kept r \<Longrightarrow> good (ret f r)"
  by (auto simp: good_def kept_def ret_def state_of_def)

lemma good_gone: "(\<And>s'. r = Some s' \<Longrightarrow> fd_ok s') \<Longrightarrow> good (map_option Gone r)"
  by (auto simp: good_def state_of_def)

lemma good_if: "good x \<Longrightarrow> good y \<Longrightarrow> good (if b then x else y)" by simp

lemma do_syscall_ok:
  assumes "fd_ok s" "curk (on_cpu_no (here sc)) s = Some c" "running c s" "calm (others sc)"
  shows "good (do_syscall sc rt c nr a b x f s)"
proof -
  have fork: "kept (Some (do_fork me f rt s))" if "curk me s = Some c" for me
    using do_fork_ok [OF assms(1) that assms(3)] by (cases "do_fork me f rt s") simp
  have sig: "kept (Some (let (r, y) = sig_action me g h k 0 (k_sched s) in (of_int r, s\<lparr>k_sched := y\<rparr>)))" for me g h k
    using holding_sched [OF assms(1) fd_keep_sig_action] by (simp add: case_prod_unfold Let_def)
  have pg: "kept (Some (let (r, y) = thread_setpgid me g h (k_sched s) in (of_int r, s\<lparr>k_sched := y\<rparr>)))" for me g h
    using holding_sched [OF assms(1) fd_keep_setpgid] by (simp add: case_prod_unfold Let_def)
  have exec: "good (map_option (\<lambda>((v, f1), s1). Returns v f1 s1) (do_execve me a b f s))" for me
    using do_execve_ok [OF assms(1)] by (auto simp: good_def kept_def state_of_def)
  have sret: "good (map_option (\<lambda>(v, f1, y). Returns v f1 (s\<lparr>k_sched := y\<rparr>)) (sig_return me f (k_sched s)))" for me
    using holding_sched [OF assms(1) fd_keep_sig_return] by (auto simp: good_def state_of_def)
  have exit: "good (map_option Gone (thread_exit me d now sp_now code s))" for me d now sp_now code
    by (rule good_gone, rule thread_exit_ok [OF assms(1)])
  show ?thesis unfolding do_syscall_def Let_def
    by (intro good_if exec sret exit; rule good_ret)
      (use assms(1) fork [OF assms(2)] sig pg sys_read_ok [OF assms(1, 3, 4)] sys_write_ok [OF assms(1, 3, 4)] sys_bind_ok [OF assms(1)]
         sys_connect_ok [OF assms(1)] sys_listen_ok [OF assms(1)] sys_sendto_ok [OF assms(1)] sys_recvfrom_ok [OF assms(1)] sys_kill_ok [OF assms(1)]
         sys_ioctl_ok [OF assms(1)] sys_wait4_ok [OF assms(1, 4)] sys_getdents_ok [OF assms(1)] sys_dir_ok [OF assms(1)]
         keptI [OF sys_socket_ok [OF assms(1, 3)]] keptI [OF sys_accept_ok [OF assms(1, 3)]] keptI [OF sys_close_ok [OF assms(1, 3)]]
         keptI [OF sys_dup_ok [OF assms(1, 3)]] keptI [OF sys_dup3_ok [OF assms(1, 3)]] keptI [OF sys_openat_ok [OF assms(1, 3)]]
         keptI [OF sys_pipe2_ok [OF assms(1, 3)]] in \<open>simp_all add: case_prod_unfold Let_def\<close>)
qed

lemma after_syscall_ok:
  assumes "fd_ok s"
  shows "good (after_syscall d back v f s c)"
proof -
  have "fd_ok (s\<lparr>k_sched := x\<rparr>)" if "sig_deliver me sig g (k_sched s) = Some (r, x)" for me sig g r x
    using holding_sched [OF assms fd_keep_sig_deliver [OF that]] .
  moreover from this have "fd_ok z" if "sig_deliver me sig g (k_sched s) = Some (r, x)" "thread_exit m d now sp_now code (s\<lparr>k_sched := x\<rparr>) = Some z"
    for me sig g r x m now sp_now code z using thread_exit_ok [OF _ that(2)] that(1) by blast
  ultimately show ?thesis using assms
    by (auto simp: good_def after_syscall_def state_of_def Let_def split: option.splits bool.splits if_splits)
qed

lemma handle_user_sync_ok:
  assumes "fd_ok s" "curk (on_cpu_no (here sc)) s = Some c" "running c s" "calm (others sc)"
  shows "good (handle_user_sync sc back rt esr far f s)"
proof -
  have call: "good (case do_syscall sc rt c nr a b x f s of None \<Rightarrow> None | Some (Gone s1) \<Rightarrow> Some (Gone s1)
      | Some (Returns v f1 s1) \<Rightarrow> after_syscall d back v f1 s1 c)" for nr a b x d
  proof (cases "do_syscall sc rt c nr a b x f s")
    case (Some r)
    then have "fd_ok (state_of r)" using do_syscall_ok [OF assms, of rt nr a b x f] by (simp add: good_def)
    then show ?thesis using Some after_syscall_ok by (cases r) (simp_all add: state_of_def, simp add: good_def state_of_def)
  qed (simp add: good_def)
  have exit: "good (map_option Gone (thread_exit me d now sp_now code t))" if "fd_ok t" for me d now sp_now code t
    by (rule good_gone, rule thread_exit_ok [OF that])
  have pages: "good (Some (Returns v f (with_pages p s)))" "fd_ok (with_pages p s)" for v p using assms(1) by (simp_all add: good_def state_of_def)
  show ?thesis unfolding handle_user_sync_def Let_def assms(2) option.case case_prod_unfold
    by (intro good_if call exit pages assms(1))
qed

text \<open>Giving a new process its standard descriptors.\<close>

lemma open_stdio_ok:
  assumes "fd_ok s" "running c s"
  shows "fd_ok (syscall_open_stdio c s)"
proof -
  define g where "g = (\<lambda>i s. if fds (thk s c) ! i = None then (case file_console s of (f, s1) \<Rightarrow> set_fd c i f s1) else s)"
  have g: "fd_ok (g i t) \<and> running c (g i t)" if t: "fd_ok t" "running c t" and i: "i < NFD" for i t
  proof (cases "fds (thk t c) ! i")
    case None
    obtain x t1 where x: "file_console t = (x, t1)" by fastforce
    note o = opened_console [OF t(1) x]
    have k: "k_sched t1 = k_sched t" using o by (simp add: opened_def)
    have r: "running c (set_fd c i x t1)" using t(2) k runningD(1) [OF t] by (simp add: running_def set_fd_def on_sched_def thr_on_thread ended_def)
    have "fd_ok (set_fd c i x t1)"
    proof (cases x)
      case None
      then show ?thesis using o holding_set_fd [of "{}" "\<lambda>_. 0" t1 c i None] t(2) i k \<open>fds (thk t c) ! i = None\<close> by (simp add: opened_def running_def)
    next
      case (Some f)
      then show ?thesis using o holding_set_fd [of "{}" "plus_one f (\<lambda>_. 0)" t1 c i "Some f"] t(2) i k \<open>fds (thk t c) ! i = None\<close>
        by (simp add: opened_def running_def)
    qed
    then show ?thesis using None x r by (simp add: g_def)
  qed (use t in \<open>simp add: g_def\<close>)
  have "fd_ok (fold g is t) \<and> running c (fold g is t)" if "fd_ok t" "running c t" "set is \<subseteq> {..<NFD}" for t "is"
    using that by (induction "is" arbitrary: t) (use g in auto)
  moreover have "set [0..<3] \<subseteq> {..<NFD}" by (auto simp: NFD_def)
  ultimately have "fd_ok (fold g [0..<3] s)" using assms by blast
  then show ?thesis by (simp only: syscall_open_stdio_def g_def)
qed

section \<open>Runs of the kernel\<close>

text \<open>
  What can happen: a program that runs on a processor enters the kernel, by a system call or by a fault, and whatever runs while its call
  sleeps is a run itself; a timer interrupt reschedules; the console wakes its readers and sends signals; a process is given its
  standard descriptors; devices change what they hold.
\<close>

inductive kruns :: "kern \<Rightarrow> kern \<Rightarrow> bool" where
  start: "kruns s s"
| exception: "kruns s t \<Longrightarrow> curk (on_cpu_no (here sc)) t = Some c \<Longrightarrow> tstate (thk t c) = Running \<Longrightarrow>
    (\<And>g w x. (g, w) \<in> set (others sc) \<Longrightarrow> kruns x (g x)) \<Longrightarrow> handle_user_sync sc back rt esr far f t = Some r \<Longrightarrow> kruns s (state_of r)"
| timer: "kruns s t \<Longrightarrow> kruns s (on_sched (schedule me now sp_now) t)"
| keyboard: "kruns s t \<Longrightarrow> kruns s (on_sched thread_wake_console t)"
| interrupted: "kruns s t \<Longrightarrow> kruns s (on_sched (\<lambda>x. snd (thread_signal pid sig x)) t)"
| stdio: "kruns s t \<Longrightarrow> curk me t = Some c \<Longrightarrow> tstate (thk t c) = Running \<Longrightarrow> kruns s (syscall_open_stdio c t)"
| devices: "kruns s t \<Longrightarrow> kruns s (t\<lparr>k_con := a, k_net := b, k_fat := d\<rparr>)"

lemma running_current: "fd_ok s \<Longrightarrow> curk me s = Some c \<Longrightarrow> tstate (thk s c) = Running \<Longrightarrow> running c s"
  using holdingD(2) [of "{}" _ s] unfolding running_def wf_fds_def ended_def by auto

lemma kruns_ok: "kruns s s' \<Longrightarrow> fd_ok s \<Longrightarrow> fd_ok s'"
proof (induction rule: kruns.induct)
  case (exception s t sc c bk rt esr fa f r)
  have t: "fd_ok t" using exception by blast
  have "calm (others sc)" unfolding calm_def using exception.IH(2) by blast
  then have "good (handle_user_sync sc bk rt esr fa f t)"
    using handle_user_sync_ok [OF t] running_current [OF t] exception.hyps by blast
  then show ?case using exception.hyps by (simp add: good_def)
next
  case (timer s t me now sp_now)
  then have t: "fd_ok t" by blast
  show ?case by (rule holding_on_sched [OF t]) (rule fd_keep_schedule [OF holdingD(2) [OF t]])
next
  case (keyboard s t)
  have "fd_keep x (thread_wake_console x)" for x unfolding thread_wake_console_def by (rule fd_keep_each) (auto simp: ended_def split: if_splits)
  then show ?case using keyboard by (auto intro: holding_on_sched)
next
  case (interrupted s t pid sg)
  then have t: "fd_ok t" by blast
  show ?case by (rule holding_on_sched [OF t]) (rule fd_keep_thread_signal)
next
  case (stdio s t me c)
  then show ?case using open_stdio_ok running_current by blast
next
  case (devices s t a b d)
  then have t: "fd_ok t" by blast
  show ?case by (rule holding_same [OF t]) simp_all
qed simp


text \<open>A process with its standard descriptors duplicates one of them.\<close>

lemma idle_fd_ok: "fd_ok idle_kern"
proof -
  have k: "k_sched idle_kern = demo_sched" "files idle_kern = replicate 32 idle_file" by (simp_all add: idle_kern_def)
  have n: "fds t = replicate 8 None" if "t \<in> set (threads demo_sched)" for t using that by (auto simp: demo_sched_def demo_thread_def)
  then have "set (concat (map fds (threads demo_sched))) \<subseteq> {None}" by auto
  from count_none [OF this] have d: "desc demo_sched f = 0" for f by (simp only: desc_def of_nat_0)
  have l: "length (threads demo_sched) = MAX_THREADS" "n_threads demo_sched = 3" by (simp_all add: demo_sched_def MAX_THREADS_def)
  have c: "curof demo_sched m = Some c \<or> idleof demo_sched m = Some c \<Longrightarrow> c < 3" for m c by (auto simp: demo_sched_def split: if_splits)
  have "set (fds (thr demo_sched i)) \<subseteq> {None}" if "i < MAX_THREADS" for i using n [of "thr demo_sched i"] that l by auto
  then have "wf_fds {} demo_sched" using n l c unfolding wf_fds_def fds_ok_def by (auto simp: NFD_def MAX_THREADS_def)
  then show ?thesis using idle_ok(1) by (simp add: holding_def k d counted_def idle_file_def NFILE_def)
qed

definition three_fds :: kern where
  "three_fds = fold (\<lambda>i t. set_fd 0 i (Some 0) (file_ref 0 t)) [1, 2]
     (set_fd 0 0 (Some 0) ((on_file 0 (fresh_file FILE_CONSOLE None) idle_kern)\<lparr>console_file := Some 0\<rparr>))"

lemma fds_set_fd: "c < length (threads (k_sched s)) \<Longrightarrow> fds (thk (set_fd c i v s) c) = (fds (thk s c))[i := v]"
  by (simp add: set_fd_def on_sched_def thr_on_thread)

lemma set_fd_sched [simp]: "length (threads (k_sched (set_fd c i v s))) = length (threads (k_sched s))" "cpus (k_sched (set_fd c i v s)) = cpus (k_sched s)"
  by (simp_all add: set_fd_def on_sched_def)

lemma idle_facts: "console_file idle_kern = None" "fds (thk idle_kern 0) = replicate 8 None" "length (threads (k_sched idle_kern)) = 24"
  "length (files idle_kern) = 32" "files idle_kern ! 0 = idle_file" "curk 0 idle_kern = Some 0" "tstate (thk idle_kern 0) = Running"
  "\<not> sav_present (sav (thk idle_kern 0))"
  by (simp_all add: idle_kern_def demo_sched_def demo_thread_def)

lemma stdio_idle: "syscall_open_stdio 0 idle_kern = three_fds"
proof -
  have a: "file_alloc FILE_CONSOLE None idle_kern = (Some 0, on_file 0 (fresh_file FILE_CONSOLE None) idle_kern)"
    by (rule alloc_first) (simp_all add: idle_facts idle_file_def NFILE_def)
  have u: "[0..<3] = [0, 1, 2 :: nat]" by (simp add: upt_rec)
  have "file_console idle_kern = (Some 0, (on_file 0 (fresh_file FILE_CONSOLE None) idle_kern)\<lparr>console_file := Some 0\<rparr>)"
    by (simp add: file_console_def idle_facts a)
  moreover have "file_console t = (Some 0, file_ref 0 t)" if "console_file t = Some 0" for t using that by (simp add: file_console_def file_ref_def)
  moreover have "console_file (file_ref i t) = console_file t" for i t by (simp add: file_ref_def)
  ultimately show ?thesis unfolding syscall_open_stdio_def u three_fds_def
    by (simp add: idle_facts fds_set_fd)
qed

lemma three_fds_facts: "fds (thk three_fds 0) = [Some 0, Some 0, Some 0] @ replicate 5 None" "f_refs (files three_fds ! 0) = 3" "curk 0 three_fds = Some 0"
  "length (threads (k_sched three_fds)) = 24" "length (files three_fds) = 32" "f_kind (files three_fds ! 0) = FILE_CONSOLE"
  using idle_facts by (simp_all add: three_fds_def fds_set_fd file_ref_def fresh_file_def numeral_eq_Suc)

lemma three_fds_thread: "tstate (thk three_fds 0) = Running" "\<not> sav_present (sav (thk three_fds 0))" "pending (thk three_fds 0) = 0"
  by (simp_all add: three_fds_def set_fd_def on_sched_def on_thread_def idle_kern_def demo_sched_def demo_thread_def)

lemma no_pending: "pending t = 0 \<Longrightarrow> thread_signalled t = 0"
  by (simp add: thread_signalled_def deliverable_def split: option.split)  (simp add: find_Some_iff)


end
