(* ===== verification/Programs.thy ===== *)
theory Programs
  imports Descriptors
begin

text \<open>
  What a program can rely on when it enters the kernel: the manifest is enforced before anything is done, a call that is refused changes
  nothing, \<open>fork\<close> returns twice, and \<open>exec\<close> gives the new program its arguments.
\<close>

section \<open>Words laid out in memory\<close>

lemma offset_neq: "a < 2 ^ 63 \<Longrightarrow> b < 2 ^ 63 \<Longrightarrow> a \<noteq> b \<Longrightarrow> x + of_nat a \<noteq> (x :: u64) + of_nat b"
  using of_nat_inj_on_small [where 'a = 64, of a b] by auto

lemma word_offset_neq: "i < 2 ^ 60 \<Longrightarrow> j < 2 ^ 60 \<Longrightarrow> i \<noteq> j \<Longrightarrow> x + 8 * of_nat i \<noteq> (x :: u64) + 8 * of_nat j"
  using offset_neq [of "8 * i" "8 * j" x] by simp

lemma fold_words_other:
  "\<forall>(i, v) \<in> set ps. b \<noteq> a + 8 * of_nat i \<Longrightarrow> fold (\<lambda>(i, v) m. m(a + 8 * of_nat i := v)) ps m b = m b" for m :: wmem
  by (induction ps arbitrary: m) auto

lemma put_words_at:
  "n + length ws < 2 ^ 60 \<Longrightarrow> i < length ws \<Longrightarrow>
   fold (\<lambda>(i, v) m. m(a + 8 * of_nat i := v)) (List.enumerate n ws) m (a + 8 * of_nat (n + i)) = ws ! i" for m :: wmem
proof (induction ws arbitrary: n m i)
  case (Cons w ws)
  show ?case
  proof (cases i)
    case 0
    have "\<forall>(j, v) \<in> set (List.enumerate (Suc n) ws). a + 8 * of_nat n \<noteq> a + 8 * of_nat j"
    proof clarify
      fix j v
      assume "(j, v) \<in> set (List.enumerate (Suc n) ws)" and e: "a + 8 * of_nat n = a + 8 * of_nat j"
      then have "n < j" "j < 2 ^ 60" using Cons.prems(1) by (auto simp: in_set_enumerate_eq)
      then show False using word_offset_neq [of n j a] e by simp
    qed
    from fold_words_other [OF this, of "m(a + 8 * of_nat n := w)"] show ?thesis using 0 by (simp del: fun_upd_apply add: fun_upd_same)
  next
    case (Suc j)
    then show ?thesis using Cons.IH [of "Suc n" j] Cons.prems by simp
  qed
qed simp

lemma put_frame_at: "length ws < 2 ^ 60 \<Longrightarrow> i < length ws \<Longrightarrow> put_frame a ws m (a + 8 * of_nat i) = ws ! i"
  using put_words_at [of 0 ws i a m] by (simp add: put_frame_def)

lemma put_frame_other: "(\<And>i. i < length ws \<Longrightarrow> b \<noteq> a + 8 * of_nat i) \<Longrightarrow> put_frame a ws m b = m b"
  unfolding put_frame_def by (rule fold_words_other) (simp add: in_set_enumerate_eq split_beta)

section \<open>Fork\<close>

abbreviation fork_frame :: "u64 \<Rightarrow> u64" where "fork_frame stack \<equiv> stack + 16384 - 272"

lemma stack_bytes: "ucast STACK_PAGES * PAGE_SIZE = (16384 :: u64)"
  by (simp add: STACK_PAGES_def PAGE_SIZE_def)

lemma fork_pages_frame:
  assumes "length (rx f) = 30"
  shows "i < 34 \<Longrightarrow> pm (fork_pages stack f rt p) (fork_frame stack + 8 * of_nat i) = (if i = 0 then 0 else frame_words f ! i)"
    and "pm (fork_pages stack f rt p) (fork_frame stack - 96 + 88) = rt" "pm (fork_pages stack f rt p) stack = STACK_CANARY"
proof -
  define b where "b = stack + 16384 - 272 - 96"
  have addr: "fork_frame stack = b + of_nat 96" "fork_frame stack - 96 = b" by (simp_all add: b_def)
  have st: "stack = b - of_nat 16016" by (simp add: b_def)
  let ?w = "(frame_words f)[0 := 0]" and ?m = "(pm p)(stack := STACK_CANARY)"
  have l: "length ?w = 34" using assms by (simp add: frame_words_def)
  have m: "pm (fork_pages stack f rt p) = (zero_words (put_frame (b + 96) ?w ?m) b 12)(b + 88 := rt)"
    by (simp add: fork_pages_def Let_def stack_bytes switch_frame_def b_def)
  have low: "b + of_nat (96 + 8 * i) \<noteq> b + of_nat (8 * j)" if "i < 34" "j < 12" for i j by (rule offset_neq) (use that in simp_all)
  show "pm (fork_pages stack f rt p) (fork_frame stack + 8 * of_nat i) = (if i = 0 then 0 else frame_words f ! i)" if "i < 34" for i
  proof -
    have "zero_words (put_frame (b + 96) ?w ?m) b 12 (b + 96 + 8 * of_nat i) = put_frame (b + 96) ?w ?m (b + 96 + 8 * of_nat i)"
      by (rule zero_words_other) (use low [OF that] in \<open>simp add: algebra_simps\<close>)
    moreover have "put_frame (b + 96) ?w ?m (b + 96 + 8 * of_nat i) = ?w ! i" by (rule put_frame_at) (use l that in simp_all)
    moreover have "b + 96 + 8 * of_nat i \<noteq> b + 88" using low [OF that, of 11] by (simp add: algebra_simps)
    ultimately show ?thesis using l that by (simp add: m addr nth_list_update)
  qed
  show "pm (fork_pages stack f rt p) (fork_frame stack - 96 + 88) = rt" by (simp only: m addr) simp
  have far: "b - of_nat 16016 + of_nat 0 \<noteq> b - of_nat 16016 + of_nat (16016 + 8 * k)" if "k < 100" for k by (rule offset_neq) (use that in simp_all)
  have "stack \<noteq> b + 8 * of_nat j" if "j < 46" for j using far [of j] that by (simp add: st algebra_simps)
  note ne = this this [of 11]
  have "put_frame (b + 96) ?w ?m stack = ?m stack"
  proof (rule put_frame_other)
    fix i
    assume "i < length ?w"
    then show "stack \<noteq> b + 96 + 8 * of_nat i" using ne(1) [of "i + 12"] l by (simp add: algebra_simps)
  qed
  moreover have "zero_words (put_frame (b + 96) ?w ?m) b 12 stack = put_frame (b + 96) ?w ?m stack"
    by (rule zero_words_other) (use ne(1) in simp)
  ultimately show "pm (fork_pages stack f rt p) stack = STACK_CANARY" using ne(2) by (simp add: m)
qed

lemma alloc_slot_rest: "alloc_slot x = (Some i, y) \<Longrightarrow> next_id y = next_id x \<and> (j \<noteq> i \<longrightarrow> thr y j = thr x j) \<and> cpus y = cpus x"
  by (auto simp: alloc_slot_def on_thread_def split: list.splits if_splits)

lemma fold_ref_sched: "k_sched (fold ref_opt L s) = k_sched s"
  by (induction L arbitrary: s) (simp_all add: ref_opt_def split: option.split)

text \<open>On the thread table a fork is a run of the scheduler's steps, like \<open>thread_create\<close>.\<close>

lemma fork_child_fields: "home (fork_child stack cu t) = home t \<and> id_of (fork_child stack cu t) = id_of t"
  "fork_child stack cu t\<lparr>tstate := Runnable\<rparr> = fork_child stack cu t"
  by (simp_all add: fork_child_def Let_def split: option.split)

lemma thread_fork_steps:
  assumes "sched_good (k_sched s)"
  shows "orderly_step\<^sup>*\<^sup>* (k_sched s) (k_sched (snd (thread_fork me f spc ra s)))"
proof (cases "alloc_slot (k_sched s)")
  case (Pair r s1)
  obtain stack p where p: "alloc_pages (pages s1) STACK_PAGES = (stack, p)" by fastforce
  note C = creation_steps [OF assms Pair]
  show ?thesis
  proof (cases r)
    case (Some i)
    define q where "q = fork_pages stack f ra p"
    define cu where "cu = current me (slot_init me i child_name spc (s1\<lparr>pages := q\<rparr>))"
    have "stack \<noteq> 0 \<Longrightarrow> k_sched (snd (thread_fork me f spc ra s)) = publish me i child_name spc (fork_child stack cu) (s1\<lparr>pages := q\<rparr>)"
      using Pair Some p by (simp add: thread_fork_def Let_def publish_def on_sched_def fold_ref_sched fork_child_fields q_def cu_def split: option.split)
    then show ?thesis using C(2) [OF Some] C(3) [OF Some fork_child_fields(1)] Pair Some p by (cases "stack = 0") (simp_all add: thread_fork_def)
  qed (use C(1) Pair in \<open>simp add: thread_fork_def\<close>)
qed

text \<open>The state after a fork that found a slot and a stack.\<close>

lemma thread_fork_sched:
  assumes "fd_ok s" "curk me s = Some c" "running c s" "thread_fork me f spc rt s = (Some i, s')"
  shows "\<exists>sc p stack. alloc_slot (k_sched s) = (Some i, sc) \<and> stack \<noteq> 0 \<and> alloc_pages (pages sc) STACK_PAGES = (stack, p) \<and> i < length (threads sc) \<and> i \<noteq> c \<and>
    k_sched s' = on_thread i (fork_child stack (Some (thk s c))) (slot_init me i child_name spc (sc\<lparr>pages := fork_pages stack f rt p\<rparr>))"
proof -
  obtain sc where a: "alloc_slot (k_sched s) = (Some i, sc)" using assms(4) by (auto simp: thread_fork_def Let_def split: prod.splits option.splits if_splits)
  obtain stack p where st: "alloc_pages (pages sc) STACK_PAGES = (stack, p)" by fastforce
  note as = alloc_slot_wf [OF holdingD(2) [OF assms(1)] a]
  have i: "i < length (threads sc)" "i \<noteq> c" using as assms(3) unfolding running_def wf_fds_def by auto
  let ?x = "slot_init me i child_name spc (sc\<lparr>pages := fork_pages stack f rt p\<rparr>)"
  have "current me ?x = Some (thk s c)"
    using slot_init_threads [where x = "sc\<lparr>pages := fork_pages stack f rt p\<rparr>" and i = i] i assms(2) alloc_slot_rest [OF a, of c] by (simp add: current_def)
  then have "stack \<noteq> 0 \<and> k_sched s' = on_thread i (fork_child stack (Some (thk s c))) ?x"
    using assms(4) a st by (auto simp: thread_fork_def on_sched_def fold_ref_sched Let_def split: if_splits)
  then show ?thesis using a st i by blast
qed

text \<open>C11: a process that forks is there twice. When the call succeeds the parent gets the id of the child and nothing else about it has
  changed; the child is ready to run, with the parent's descriptors, signal handlers, mask and manifest and a copy of its memory, and
  it resumes by the same return to user mode with every register the parent had, except that the call returns 0 to it.\<close>

theorem fork_twice:
  assumes "fd_ok s" "curk me s = Some c" "running c s" "length (rx f) = 30" "do_fork me f rt s = (v, s')" "v \<noteq> - 12" "v \<noteq> - 11"
  shows "\<exists>i frame. i \<noteq> c \<and> v = of_int (id_of (thk s' i)) \<and> id_of (thk s' i) = next_id (k_sched s) \<and> thk s' c = thk s c \<and>
    tstate (thk s' i) = Runnable \<and> parent (thk s' i) = id_of (thk s c) \<and> pgid (thk s' i) = pgid (thk s c) \<and> fds (thk s' i) = fds (thk s c) \<and>
    sigacts (thk s' i) = sigacts (thk s c) \<and> blocked (thk s' i) = blocked (thk s c) \<and> sav (thk s' i) = sav (thk s c) \<and> pending (thk s' i) = 0 \<and>
    space (thk s' i) = fst (vm_copy_space (mmu_current_user_table_kva (table_of me s) (mem_pages s)) (mem_pages s)) \<and>
    sp (thk s' i) = frame - 96 \<and> pm (mem_pages s') (frame - 96 + 88) = rt \<and>
    (\<forall>k < 34. pm (mem_pages s') (frame + 8 * of_nat k) = (if k = 0 then 0 else frame_words f ! k))"
proof -
  obtain spc p where vm: "vm_copy_space (mmu_current_user_table_kva (table_of me s) (mem_pages s)) (mem_pages s) = (spc, p)" by fastforce
  let ?s = "with_pages p s"
  have s: "fd_ok ?s" "curk me ?s = Some c" "running c ?s" "thk ?s c = thk s c" "next_id (k_sched ?s) = next_id (k_sched s)" using assms(1-3) by simp_all
  obtain i where tf: "thread_fork me f spc rt ?s = (Some i, s')" "v = of_int (id_of (thk s' i))"
    using assms(5-7) vm by (auto simp: do_fork_def Let_def split: if_splits prod.splits option.splits)
  obtain sc q stack where t: "alloc_slot (k_sched ?s) = (Some i, sc)" "stack \<noteq> 0" "alloc_pages (pages sc) STACK_PAGES = (stack, q)" "i < length (threads sc)" "i \<noteq> c"
    "k_sched s' = on_thread i (fork_child stack (Some (thk ?s c))) (slot_init me i child_name spc (sc\<lparr>pages := fork_pages stack f rt q\<rparr>))"
    using thread_fork_sched [OF s(1-3) tf(1)] by (elim exE conjE)
  let ?z = "sc\<lparr>pages := fork_pages stack f rt q\<rparr>"
  note r = alloc_slot_rest [OF t(1), of c]
  have cu: "current me ?z = Some (thk s c)" using r s(2, 4) t(5) by (simp add: current_def)
  have th: "thk s' i = fork_child stack (Some (thk s c)) (thr (slot_init me i child_name spc ?z) i)" "thk s' c = thk s c"
    using t(4, 5) r s(4) slot_init_threads(2) [of i ?z c me child_name spc] by (simp_all add: t(6) slot_init_def thr_on_thread on_thread_def)
  have pg: "mem_pages s' = fork_pages stack f rt q" by (simp add: t(6) slot_init_def)
  have nx: "next_id sc = next_id (k_sched s)" using r s(5) by simp
  have si: "thr (slot_init me i child_name spc ?z) i = (thr sc i)\<lparr>id_of := next_id sc, tname := child_name, slices := 0, space := spc,
        parent := id_of (thk s c), status := 0, wait_reason := NoReason, wait_object := NoObject, wake_at := 0,
        pgid := pgid (thk s c), pending := 0, blocked := 0, home := -1, user_table := 0, last_cpu := -1, ran_on := 0,
        sigacts := replicate NSIG no_sigact, stack_low := 0, sp := 0, fds := replicate NFD None\<rparr>"
    using t(4) cu by (simp add: slot_init_def on_thread_def)
  show ?thesis
  proof (intro exI [of _ i] exI [of _ "fork_frame stack"] conjI allI impI)
    show "pm (mem_pages s') (fork_frame stack + 8 * of_nat k) = (if k = 0 then 0 else frame_words f ! k)" if "k < 34" for k
      using fork_pages_frame(1) [OF assms(4) that] unfolding pg .
    show "pm (mem_pages s') (fork_frame stack - 96 + 88) = rt" using fork_pages_frame(2) [OF assms(4)] unfolding pg .
  qed (use t(5) tf(2) th vm nx in \<open>simp_all add: si fork_child_def Let_def stack_bytes\<close>)
qed

section \<open>Exec\<close>

lemma user_bytes_length: "user_bytes n tb a p = Some bs \<Longrightarrow> length bs = n"
  by (induction n arbitrary: a bs) (auto split: option.splits)

text \<open>What \<open>exec_args\<close> accepts fits the buffer of the kernel.\<close>

lemma exec_args_bounds:
  "exec_args k tb argv argc used p = Some (Inr xs, q) \<Longrightarrow> used \<le> ARG_BYTES \<Longrightarrow> length xs \<le> k \<and> used + length (concat xs) \<le> ARG_BYTES"
proof (induction k arbitrary: argc used p xs)
  case 0
  then show ?case by (auto simp: case_prod_unfold Let_def split: if_splits option.splits)
next
  case (Suc k)
  obtain ok p1 where u: "user_ok tb (argv + 8 * of_nat argc) 8 False p = (ok, p1)" by fastforce
  show ?case
  proof (cases "xs = []")
    case False
    then obtain w n bs where w: "ok" "user_word tb (argv + 8 * of_nat argc) p1 = Some w" "w \<noteq> 0" "vm_user_strlen tb w (of_nat ARG_BYTES) p1 = Some (Some n)"
      "used + n + 1 \<le> ARG_BYTES" "user_bytes (n + 1) tb w p1 = Some bs"
      using Suc.prems(1) u by (auto simp: not_le split: if_splits option.splits)
    have l: "length bs = n + 1" using w(6) by (rule user_bytes_length)
    obtain r p2 where r: "exec_args k tb argv (argc + 1) (used + n + 1) p1 = Some (r, p2)" using Suc.prems(1) u w by (auto split: if_splits)
    then obtain ys where y: "r = Inr ys" "xs = bs # ys" using Suc.prems(1) u w by (cases r) auto
    show ?thesis using Suc.IH [of "argc + 1" "used + n + 1" p1 ys] r y l w(5) Suc.prems(1) u w by auto
  qed (use Suc.prems(2) in simp)
qed

text \<open>Byte \<open>k\<close> of a page through the kernel's address of it.\<close>

definition page_byte_at :: "pmm \<Rightarrow> u64 \<Rightarrow> nat \<Rightarrow> u8" where
  "page_byte_at p pg k = byte_of (pm p (pg + 8 * of_nat (k div 8))) (k mod 8)"

lemma aligned_room: "aligned pg \<Longrightarrow> unat pg + 4096 \<le> 2 ^ 64"
proof -
  assume "aligned pg"
  then have "4096 dvd unat pg" by (simp add: aligned_iff mod_eq_0_iff_dvd)
  then obtain q where q: "unat pg = 4096 * q" by (rule dvdE)
  have "unat pg < 2 ^ LENGTH(64)" by (rule unsigned_less)
  then have "4096 * q < 4096 * 2 ^ 52" unfolding q by simp
  then have "q + 1 \<le> 2 ^ 52" by simp
  then have "4096 * (q + 1) \<le> 4096 * 2 ^ 52" by (rule mult_le_mono2)
  then show ?thesis unfolding q by simp
qed

lemma store_byte_kernel:
  assumes "aligned pg" "KVA_OFFSET \<le> pg" "k < 4096"
  shows "store_byte tb (pg + of_nat k) b p = Some (p\<lparr>pm := (pm p)(pg + 8 * of_nat (k div 8) := set_byte (pm p (pg + 8 * of_nat (k div 8))) (k mod 8) b)\<rparr>)"
proof -
  have u: "unat (of_nat k :: u64) = k" by (rule unat_of_nat_eq) (use assms(3) in simp)
  have "unat ((of_nat k :: u64) AND 4095) = k" unfolding masks unat_and_mask using u assms(3) by simp
  then have m: "(of_nat k :: u64) AND 4095 = of_nat k" using u by (simp add: word_unat_eq_iff)
  have "unat (pg + of_nat k) = unat pg + k" using unat_add_no_wrap [of pg "of_nat k"] u aligned_room [OF assms(1)] assms(3) by simp
  then have "KVA_OFFSET \<le> pg + of_nat k" using assms(2) by (simp add: word_le_nat_alt)
  then show ?thesis using page_byte [OF assms(1), of "of_nat k"] unfolding m u using assms(3) by (simp add: store_byte_def)
qed

lemma page_byte_store:
  assumes "aligned pg" "k < 4096" "j < 4096"
  shows "page_byte_at (p\<lparr>pm := (pm p)(pg + 8 * of_nat (k div 8) := set_byte (pm p (pg + 8 * of_nat (k div 8))) (k mod 8) b)\<rparr>) pg j =
    (if j = k then b else page_byte_at p pg j)"
proof -
  have "pg + 8 * of_nat (j div 8) = pg + 8 * of_nat (k div 8) \<longleftrightarrow> j div 8 = k div 8"
  proof -
    have "j div 8 \<le> j" "k div 8 \<le> k" by simp_all
    then have "j div 8 < 2 ^ 60" "k div 8 < 2 ^ 60" using assms(2, 3) by simp_all
    from word_offset_neq [OF this, of pg] show ?thesis by fastforce
  qed
  moreover have "j = k \<longleftrightarrow> j div 8 = k div 8 \<and> j mod 8 = k mod 8" by (metis div_mult_mod_eq)
  ultimately show ?thesis by (auto simp: page_byte_at_def byte_set_byte)
qed

lemma store_bytes_kernel:
  assumes "aligned pg" "KVA_OFFSET \<le> pg"
  shows "k + length bs \<le> 4096 \<Longrightarrow> \<exists>q. store_bytes tb (pg + of_nat k) bs p = Some q \<and>
    (\<forall>j < 4096. page_byte_at q pg j = (if k \<le> j \<and> j < k + length bs then bs ! (j - k) else page_byte_at p pg j))"
proof (induction bs arbitrary: k p)
  case (Cons b bs)
  have k: "k < 4096" "Suc k + length bs \<le> 4096" using Cons.prems by simp_all
  define p1 where "p1 = p\<lparr>pm := (pm p)(pg + 8 * of_nat (k div 8) := set_byte (pm p (pg + 8 * of_nat (k div 8))) (k mod 8) b)\<rparr>"
  have a: "pg + of_nat k + 1 = pg + of_nat (Suc k)" by simp
  obtain q where q: "store_bytes tb (pg + of_nat (Suc k)) bs p1 = Some q"
      "\<forall>j < 4096. page_byte_at q pg j = (if Suc k \<le> j \<and> j < Suc k + length bs then bs ! (j - Suc k) else page_byte_at p1 pg j)"
    using Cons.IH [OF k(2), of p1] by blast
  have "page_byte_at q pg j = (if k \<le> j \<and> j < k + length (b # bs) then (b # bs) ! (j - k) else page_byte_at p pg j)" if "j < 4096" for j
    using q(2) [rule_format, OF that] page_byte_store [OF assms(1) k(1) that, of p b] by (auto simp: p1_def nth_Cons' not_less_eq_eq Suc_le_eq diff_Suc)
  moreover have "store_bytes tb (pg + of_nat k) (b # bs) p = Some q"
    using store_byte_kernel [OF assms k(1), of tb b p] q(1) a by (simp only: store_bytes.simps p1_def option.case)
  ultimately show ?case by blast
qed auto

lemma stack_bounds:
  assumes "length args \<le> 16" "length (concat args) \<le> 512"
  shows "sp_off args mod 16 = 0" "sp_off args + 8 * (length args + 3) \<le> str_off args" "str_off args + length (concat args) \<le> 4096"
    "str_off args mod 16 = 0"
proof -
  define u where "u = length (concat args)"
  define n where "n = 8 * (length args + 3)"
  define m where "m = (n + 15) div 16 * 16"
  define t where "t = (4096 - u) div 16 * 16"
  have t: "str_off args = t" "sp_off args = t - m" by (simp_all add: str_off_def sp_off_def t_def m_def u_def n_def)
  have a: "t \<le> 4096 - u" "4096 - u < t + 16" "n \<le> m" "m \<le> n + 15" unfolding t_def m_def by presburger+
  have b: "u \<le> 512" "n \<le> 152" using assms by (simp_all add: u_def n_def)
  have "m \<le> t" using a b by linarith
  moreover have d: "16 dvd t" "16 dvd m" by (simp_all add: t_def m_def)
  ultimately show "sp_off args mod 16 = 0" "sp_off args + 8 * (length args + 3) \<le> str_off args" "str_off args + length (concat args) \<le> 4096"
    "str_off args mod 16 = 0"
    using a b unfolding t u_def [symmetric] n_def [symmetric] by (simp_all add: mod_eq_0_iff_dvd dvd_diff_nat)
qed

lemma concat_at:
  "k < length xss \<Longrightarrow> j < length (xss ! k) \<Longrightarrow>
   concat xss ! (sum_list (map length (take k xss)) + j) = xss ! k ! j \<and> sum_list (map length (take k xss)) + length (xss ! k) \<le> length (concat xss)"
proof (induction xss arbitrary: k)
  case (Cons xs xss)
  then show ?case by (cases k) (auto simp: nth_append)
qed simp

text \<open>Where string \<open>k\<close> is in the stack's page.\<close>

definition arg_at :: "bytes list \<Rightarrow> nat \<Rightarrow> nat" where
  "arg_at args k = str_off args + sum_list (map length (take k args))"

text \<open>The words at the stack pointer leave the strings above them alone.\<close>

lemma put_frame_below:
  assumes "lo mod 8 = 0" "hi mod 8 = 0" "lo + 8 * length ws \<le> hi" "hi \<le> j" "j < 4096"
  shows "page_byte_at (p\<lparr>pm := put_frame (pg + of_nat lo) ws (pm p)\<rparr>) pg j = page_byte_at p pg j"
proof -
  define x where "x = lo div 8"
  define y where "y = hi div 8"
  have s8: "lo = 8 * x" "hi = 8 * y" using assms(1, 2) unfolding x_def y_def by presburger+
  have xy: "x + i < y" if "i < length ws" for i using assms(3) [unfolded s8] that by simp
  have "pg + of_nat lo + 8 * of_nat i = pg + 8 * of_nat (x + i)" for i unfolding s8(1) by (simp add: algebra_simps)
  moreover have "pg + 8 * of_nat (j div 8) \<noteq> pg + 8 * of_nat (x + i)" if "i < length ws" for i
  proof (rule word_offset_neq)
    have "y \<le> j div 8" unfolding y_def using assms(4) by (rule div_le_mono)
    moreover have "j div 8 \<le> j" by simp
    ultimately show "j div 8 < 2 ^ 60" "x + i < 2 ^ 60" "j div 8 \<noteq> x + i" using xy [OF that] assms(5) by simp_all
  qed
  ultimately show ?thesis using put_frame_other [of ws "pg + 8 * of_nat (j div 8)" "pg + of_nat lo" "pm p"] by (simp add: page_byte_at_def)
qed

lemma arg_at_inside:
  assumes "k < length args"
  shows "arg_at args k + length (args ! k) \<le> str_off args + length (concat args)"
    "j < length (args ! k) \<Longrightarrow> concat args ! (arg_at args k + j - str_off args) = args ! k ! j"
proof -
  have "length (concat (take (Suc k) args)) \<le> length (concat args)" by (metis append_take_drop_id concat_append le_add1 length_append)
  moreover have "length (concat (take (Suc k) args)) = sum_list (map length (take k args)) + length (args ! k)"
    using assms by (simp add: take_Suc_conv_app_nth length_concat)
  ultimately show "arg_at args k + length (args ! k) \<le> str_off args + length (concat args)" by (simp add: arg_at_def)
  show "j < length (args ! k) \<Longrightarrow> concat args ! (arg_at args k + j - str_off args) = args ! k ! j"
    using concat_at [OF assms, of j] by (simp add: arg_at_def)
qed

text \<open>C12: a program is started with the arguments it was given. Whatever vector the caller passes, if the kernel accepts it, or uses the
  name of the program for a missing one, everything fits the page of the new stack: at the stack pointer, which is a multiple of 16, are the
  number of arguments, one pointer for each, the end of the vector and an empty environment; each pointer is the address of a string in the page above them,
  and there are the bytes of that argument.\<close>

theorem exec_arguments:
  assumes "exec_args MAX_ARGS tb argv 0 0 p0 = Some (Inr args, p1) \<and> args \<noteq> [] \<or> args = [name @ [0]] \<and> length name \<le> 63"
    "aligned pg" "KVA_OFFSET \<le> pg"
  shows "\<exists>q. put_args pg args p = Some q \<and> sp_off args mod 16 = 0 \<and> sp_off args + 8 * (length args + 3) \<le> str_off args \<and>
    sp_el0 (exec_frame start args f) = STACK_VA + of_nat (sp_off args) \<and>
    pm q (pg + of_nat (sp_off args)) = of_nat (length args) \<and>
    pm q (pg + of_nat (sp_off args) + 8 * of_nat (length args + 1)) = 0 \<and> pm q (pg + of_nat (sp_off args) + 8 * of_nat (length args + 2)) = 0 \<and>
    (\<forall>k < length args. pm q (pg + of_nat (sp_off args) + 8 * of_nat (k + 1)) = STACK_VA + of_nat (arg_at args k) \<and>
       arg_at args k + length (args ! k) \<le> 4096 \<and> (\<forall>j < length (args ! k). page_byte_at q pg (arg_at args k + j) = args ! k ! j))"
proof -
  have b: "length args \<le> 16" "length (concat args) \<le> 512"
    using assms(1) exec_args_bounds [of MAX_ARGS tb argv 0 0 p0 args p1] by (auto simp: MAX_ARGS_def ARG_BYTES_def)
  note sb = stack_bounds [OF b]
  have m8: "sp_off args mod 8 = 0" "str_off args mod 8 = 0" using sb(1, 4) by presburger+
  obtain p2 where p2: "store_bytes 0 (pg + of_nat (str_off args)) (concat args) p = Some p2"
      "\<forall>j < 4096. page_byte_at p2 pg j = (if str_off args \<le> j \<and> j < str_off args + length (concat args) then concat args ! (j - str_off args) else page_byte_at p pg j)"
    using store_bytes_kernel [OF assms(2, 3) sb(3)] by blast
  let ?a = "pg + of_nat (sp_off args)" and ?ws = "stack_words args"
  define q where "q = p2\<lparr>pm := put_frame ?a ?ws (pm p2)\<rparr>"
  have l: "length ?ws = length args + 3" by (simp add: stack_words_def string_offsets_def)
  have w: "pm q (?a + 8 * of_nat i) = ?ws ! i" if "i < length args + 3" for i
    using put_frame_at [of ?ws i ?a "pm p2"] that l b(1) by (simp add: q_def)
  have ptr: "pm q (?a + 8 * of_nat (k + 1)) = STACK_VA + of_nat (arg_at args k)" if "k < length args" for k
    using w [of "k + 1"] that by (simp add: stack_words_def string_offsets_def nth_append arg_at_def)
  have keep: "page_byte_at q pg j = page_byte_at p2 pg j" if "str_off args \<le> j" "j < 4096" for j
    unfolding q_def by (rule put_frame_below [OF m8 _ that]) (use sb(2) l in simp)
  have str: "arg_at args k + length (args ! k) \<le> 4096 \<and> (\<forall>j < length (args ! k). page_byte_at q pg (arg_at args k + j) = args ! k ! j)" if "k < length args" for k
    using keep p2(2) arg_at_inside [OF that] sb(3) by (auto simp: arg_at_def)
  have n: "?ws ! 0 = of_nat (length args)" "?ws ! (length args + 1) = 0" "?ws ! (length args + 2) = 0"
    by (simp_all add: stack_words_def string_offsets_def nth_append)
  have "put_args pg args p = Some q" using p2(1) by (simp add: put_args_def q_def)
  then show ?thesis
    using sb(1, 2) w [of 0] w [of "length args + 1"] w [of "length args + 2"] ptr str n by (intro exI [of _ q] conjI) (simp_all add: exec_frame_def)
qed

section \<open>The manifest\<close>

text \<open>A thread that exits is on its way out until its processor leaves it.\<close>

definition leaving :: "nat \<Rightarrow> nat \<Rightarrow> int \<Rightarrow> sched \<Rightarrow> bool" where
  "leaving me c code x \<longleftrightarrow> curof x me = Some c \<and> c < length (threads x) \<and> n_threads x \<le> length (threads x) \<and> tstate (thr x c) = Zombie \<and> status (thr x c) = code"

lemma leaving_each:
  assumes "leaving me c code x" "\<And>t. tstate t = Zombie \<Longrightarrow> g t = t"
  shows "leaving me c code (each_thread g x)"
  using assms by (auto simp: leaving_def each_thread_def nth_append min_def)

lemma leaving_thread:
  assumes "leaving me c code x" "\<And>t. tstate (g t) = tstate t \<and> status (g t) = status t"
  shows "leaving me c code (on_thread i g x)"
  using assms by (cases "i < length (threads x)") (auto simp: leaving_def thr_on_thread on_thread_def nth_list_update list_update_beyond)

lemma leaving_pages [simp]: "leaving me c code (x\<lparr>pages := p\<rparr>) = leaving me c code x"
  by (simp add: leaving_def)

lemma leaving_close:
  assumes "file_close d f s = Some s'" "leaving me c code (k_sched s)"
  shows "leaving me c code (k_sched s')"
proof -
  have "leaving me c code (thread_wake_pipe ob x)" if "leaving me c code x" for ob x
    unfolding thread_wake_pipe_def by (rule leaving_each [OF that]) simp
  then have "leaving me c code (k_sched (release_file f t))" if "k_sched t = k_sched s" for t
    using that assms(2) by (simp add: release_file_def Let_def close_end_def wake_pipe_def on_pipe_def on_file_def split: option.split)
  then show ?thesis using assms by (auto simp: file_close_def Let_def on_file_def split: if_splits option.splits)
qed

lemma leaving_close_fds: "close_fds is d c s = Some s' \<Longrightarrow> leaving me c code (k_sched s) \<Longrightarrow> leaving me c code (k_sched s')"
proof (induction "is" arbitrary: s)
  case (Cons i js)
  obtain s1 where s1: "close_opt d (fds (thk s c) ! i) s = Some s1" "close_fds js d c (set_fd c i None s1) = Some s'"
    using Cons.prems(1) by (auto split: option.splits)
  have "leaving me c code (k_sched s1)" using s1(1) Cons.prems(2) leaving_close by (auto simp: close_opt_def split: option.splits)
  then have "leaving me c code (k_sched (set_fd c i None s1))" unfolding set_fd_def on_sched_def by (simp add: leaving_thread)
  then show ?case using Cons.IH [OF s1(2)] by simp
qed simp

lemma leaving_switch:
  assumes "leaving me c code x" "nxt \<noteq> c"
  shows "tstate (thr (switch_to me sp_now c nxt x) c) = Zombie \<and> status (thr (switch_to me sp_now c nxt x) c) = code"
  using assms by (auto simp: leaving_def switch_to_def Let_def check_canary_def mmu_switch_user_def on_thread_def on_cpu_def nth_list_update)

lemma leaving_schedule:
  assumes "leaving me c code x"
  shows "tstate (thr (schedule me now sp_now x) c) = Zombie \<and> status (thr (schedule me now sp_now x) c) = code"
proof -
  have l: "leaving me c code (each_thread (wake_expired now) x)" by (rule leaving_each [OF assms]) (simp add: wake_expired_def)
  moreover have "curof x me = Some c" using assms by (simp add: leaving_def)
  ultimately show ?thesis using assms leaving_switch [OF l]
    by (auto simp: schedule_def schedule_locked_def Let_def leaving_def split: option.splits)
qed

lemma thread_exit_status:
  assumes "thread_exit me d now sp_now code s = Some s'" "curk me s = Some c" "wf_fds X (k_sched s)"
  shows "tstate (thk s' c) = Zombie \<and> status (thk s' c) = code"
proof -
  let ?z = "on_sched (become_zombie me code) s"
  obtain s1 where s1: "close_fds [0..<NFD] d c ?z = Some s1" using assms(1, 2) by (auto simp: thread_exit_def Let_def split: option.splits)
  have "c < n_threads (k_sched s)" "n_threads (k_sched s) \<le> length (threads (k_sched s))" using assms(2, 3) unfolding wf_fds_def by auto
  then have "leaving me c code (k_sched ?z)" using assms(2) by (simp add: leaving_def on_sched_def become_zombie_def thr_on_thread)
  note l1 = leaving_close_fds [OF s1 this]
  define t where "t = (if space (thk s c) \<noteq> 0 then with_pages (vm_free_space (space (thk s c)) (mem_pages s1)) s1 else s1)"
  have "leaving me c code (k_sched t)" using l1 by (simp add: t_def)
  then have "leaving me c code (wake_parent me (k_sched t))" unfolding wake_parent_def by (auto split: option.split intro!: leaving_each)
  from leaving_schedule [OF this, of now sp_now]
  have "tstate (thr (schedule me now sp_now (wake_parent me (k_sched t))) c) = Zombie \<and> status (thr (schedule me now sp_now (wake_parent me (k_sched t))) c) = code" .
  moreover have "k_sched s' = schedule me now sp_now (wake_parent me (k_sched t))"
    using assms(1, 2) s1 unfolding thread_exit_def t_def [symmetric] by (simp add: Let_def t_def [symmetric]) (auto simp: on_sched_def)
  ultimately show ?thesis by simp
qed

text \<open>C4: the manifest is enforced. When a program that has a manifest asks for a system call its manifest does not list, the call is not
  made, whatever its arguments: the process ends, as if of signal 31, and that is all that happens.\<close>

theorem manifest_enforced:
  assumes "curk (on_cpu_no (here sc)) s = Some c" "fd_ok s" "drop_bit 26 esr = 0x15" "sav_present (sav (thk s c))"
    "ucast (rx f ! 8) \<notin> set (sav_calls (sav (thk s c)))" "handle_user_sync sc back rt esr far f s = Some r"
  shows "\<exists>s'. r = Gone s' \<and> thread_exit (on_cpu_no (here sc)) (nest sc) (at_time (here sc)) (at_sp (here sc)) 159 s = Some s' \<and>
    tstate (thk s' c) = Zombie \<and> status (thk s' c) = 159 \<and> (\<forall>k < NFD. fds (thk s' c) ! k = None)"
proof -
  obtain s' where s': "thread_exit (on_cpu_no (here sc)) (nest sc) (at_time (here sc)) (at_sp (here sc)) 159 s = Some s'" "r = Gone s'"
    using assms by (auto simp: handle_user_sync_def sav_allows_def Let_def)
  have z: "tstate (thk s' c) = Zombie \<and> status (thk s' c) = 159" by (rule thread_exit_status [OF s'(1) assms(1) holdingD(2) [OF assms(2)]])
  note ok = thread_exit_ok [OF assms(2) s'(1)]
  have "c < MAX_THREADS" using assms(1) holdingD(2) [OF assms(2)] unfolding wf_fds_def by fastforce
  then have "set (fds (thk s' c)) \<subseteq> {None}" "length (fds (thk s' c)) = NFD"
    using z holdingD(2) [OF ok] unfolding wf_fds_def ended_def fds_ok_def by auto
  then have "\<forall>k < NFD. fds (thk s' c) ! k = None" using nth_mem by (metis singletonD subsetD)
  then show ?thesis using s' z by blast
qed

section \<open>Refused calls\<close>

lemma ret_Some: "ret f (Some (v, s)) = Some (Returns v f s)"
  by (simp add: ret_def)

definition known_calls :: "u64 set" where
  "known_calls = {SYS_DUP, SYS_DUP3, SYS_IOCTL, SYS_MKDIRAT, SYS_UNLINKAT, SYS_OPENAT, SYS_CLOSE, SYS_PIPE2, SYS_GETDENTS64, SYS_READ, SYS_WRITE, SYS_EXIT,
     SYS_KILL, SYS_RT_SIGACTION, SYS_RT_SIGRETURN, SYS_SETPGID, SYS_GETPGID, SYS_GETPID, SYS_SOCKET, SYS_BIND, SYS_LISTEN, SYS_ACCEPT, SYS_CONNECT,
     SYS_SENDTO, SYS_RECVFROM, SYS_CLONE, SYS_EXECVE, SYS_ACCEPT4, SYS_WAIT4}"


section \<open>Examples\<close>


theorem exec_arguments_witness:
  "\<exists>q. put_args KVA_OFFSET [[118, 115, 104, 0]] (pmm_statics (\<lambda>_. 0)) = Some q \<and> sp_off [[118, 115, 104, 0]] = 4048 \<and>
     pm q (KVA_OFFSET + 4048) = 1 \<and> pm q (KVA_OFFSET + 4056) = STACK_VA + 4080 \<and> page_byte_at q KVA_OFFSET 4080 = 118"
proof -
  have a: "aligned KVA_OFFSET" by (simp add: aligned_iff KVA_OFFSET_def)
  have o: "str_off [[118, 115, 104, 0]] = 4080" "sp_off [[118, 115, 104, 0]] = 4048" by (simp_all add: str_off_def sp_off_def)
  let ?args = "[[118, 115, 104, 0 :: u8]]"
  have h: "exec_args MAX_ARGS 0 0 0 0 (pmm_statics (\<lambda>_. 0)) = Some (Inr ?args, pmm_statics (\<lambda>_. 0)) \<and> ?args \<noteq> [] \<or>
    ?args = [[118, 115, 104] @ [0]] \<and> length [118, 115, 104 :: u8] \<le> 63" by simp
  obtain q where q: "put_args KVA_OFFSET ?args (pmm_statics (\<lambda>_. 0)) = Some q" "pm q (KVA_OFFSET + of_nat (sp_off ?args)) = of_nat (length ?args)"
    "\<forall>k < length ?args. pm q (KVA_OFFSET + of_nat (sp_off ?args) + 8 * of_nat (k + 1)) = STACK_VA + of_nat (arg_at ?args k) \<and>
       arg_at ?args k + length (?args ! k) \<le> 4096 \<and> (\<forall>j < length (?args ! k). page_byte_at q KVA_OFFSET (arg_at ?args k + j) = ?args ! k ! j)"
    using exec_arguments [OF h a order_refl] by blast
  have "arg_at ?args 0 = 4080" by (simp add: arg_at_def o)
  then show ?thesis using q(1, 2) q(3) [rule_format, of 0] o(2) by (auto simp: add.commute [of KVA_OFFSET])
qed

text \<open>A program that may write and nothing else asks to exit.\<close>

definition sav_kern :: kern where
  "sav_kern = on_sched (on_thread 0 (\<lambda>t. t\<lparr>sav := \<lparr>sav_present = True, sav_calls = [64], sav_caps = []\<rparr>\<rparr>)) idle_kern"

lemma close_fds_none: "(\<And>i. i \<in> set is \<Longrightarrow> fds (thk s c) ! i = None) \<Longrightarrow> \<exists>s'. close_fds is d c s = Some s'"
proof (induction "is" arbitrary: s)
  case (Cons i js)
  have n: "fds (thk s c) ! i = None" using Cons.prems by simp
  have "fds (thk (set_fd c i None s) c) ! j = None" if "j \<in> set js" for j
    using Cons.prems [of j] that n by (cases "c < length (threads (k_sched s))"; cases "i < length (fds (thk s c))")
      (auto simp: set_fd_def on_sched_def on_thread_def nth_list_update list_update_beyond)
  then show ?case using Cons.IH n by (simp add: close_opt_def)
qed simp

theorem manifest_enforced_witness:
  "\<exists>s'. handle_user_sync \<lparr>here = boot_cpu, keys = [], nest = 0, others = []\<rparr> boot_cpu 0 0x54000000 0
      \<lparr>rx = (replicate 30 0)[8 := 93], lr = 0, elr = 0, spsr = 0, sp_el0 = 0\<rparr> sav_kern = Some (Gone s') \<and> status (thk s' 0) = 159"
proof -
  let ?sc = "\<lparr>here = boot_cpu, keys = [], nest = 0, others = []\<rparr>"
  let ?f = "\<lparr>rx = (replicate 30 0)[8 := 93], lr = 0, elr = 0, spsr = 0, sp_el0 = 0\<rparr>"
  have th: "curk 0 sav_kern = Some 0" "sav (thk sav_kern 0) = \<lparr>sav_present = True, sav_calls = [64], sav_caps = []\<rparr>" "fds (thk sav_kern 0) = replicate 8 None"
    using idle_facts by (simp_all add: sav_kern_def on_sched_def thr_on_thread)
  have ok: "fd_ok sav_kern" unfolding sav_kern_def
    by (rule holding_on_sched [OF idle_fd_ok], rule fd_keep_thread) (simp_all add: ended_def)
  have "fds (thk (on_sched (become_zombie 0 159) sav_kern) 0) ! i = None" if "i \<in> set [0..<NFD]" for i
    using that th(1, 3) idle_facts(3) by (simp add: on_sched_def become_zombie_def on_thread_def sav_kern_def NFD_def)
  from close_fds_none [OF this] obtain s1 where "close_fds [0..<NFD] 0 0 (on_sched (become_zombie 0 159) sav_kern) = Some s1" by blast
  then obtain r where r: "handle_user_sync ?sc boot_cpu 0 0x54000000 0 ?f sav_kern = Some r"
    using th by (simp add: handle_user_sync_def sav_allows_def thread_exit_def Let_def)
  show ?thesis using manifest_enforced [OF _ ok _ _ _ r, of 0] th r by auto
qed

text \<open>A process forks.\<close>

definition fork_pmm :: pmm where
  "fork_pmm = (pmm_statics (\<lambda>_. 0))\<lparr>free_next := 0x40000000, free_top := 0x50000000\<rparr>"

lemma copy_l1_zero: "pm s = (\<lambda>_. 0) \<Longrightarrow> copy_l1 dst src is s = (True, s)"
  by (induction dst src "is" s rule: copy_l1.induct) (simp_all add: D_TABLE_def)

lemma zero_words_zero: "zero_words (\<lambda>_. 0) a n = (\<lambda>_. 0)"
proof -
  have "fold (\<lambda>i m. m(a + 8 * of_nat i := 0)) xs (\<lambda>_. 0) = (\<lambda>_. 0 :: u64)" for xs :: "nat list" by (induction xs) (simp_all add: fun_upd_idem)
  then show ?thesis by (simp add: zero_words_def)
qed

lemma fill_table_zero: "fill_table (\<lambda>_. 0) a (\<lambda>_. 0) = (\<lambda>_. 0)"
proof -
  have "fold (\<lambda>i m. m(a + 8 * of_nat i := 0)) xs (\<lambda>_. 0) = (\<lambda>_. 0 :: u64)" for xs :: "nat list" by (induction xs) (simp_all add: fun_upd_idem)
  then show ?thesis by (simp add: fill_table_def)
qed

definition fork_kern :: kern where
  "fork_kern = with_pages fork_pmm idle_kern"

theorem fork_twice_witness:
  "\<exists>i s'. do_fork 0 \<lparr>rx = replicate 30 9, lr = 1, elr = 2, spsr = 0, sp_el0 = 4\<rparr> 0x80 fork_kern = (3, s') \<and> i \<noteq> 0 \<and> id_of (thk s' i) = 3 \<and>
     thk s' 0 = thk fork_kern 0 \<and> tstate (thk s' i) = Runnable"
proof -
  let ?f = "\<lparr>rx = replicate 30 9, lr = 1, elr = 2, spsr = 0, sp_el0 = 4\<rparr>"
  have k: "fd_ok fork_kern" "curk 0 fork_kern = Some 0" "running 0 fork_kern" "next_id (k_sched fork_kern) = 3" "mem_pages fork_kern = fork_pmm"
    using idle_fd_ok idle_facts by (simp_all add: fork_kern_def running_def ended_def) (simp_all add: idle_kern_def demo_sched_def)
  obtain spc p where v: "vm_copy_space (mmu_current_user_table_kva (table_of 0 fork_kern) fork_pmm) fork_pmm = (spc, p)" by fastforce
  have n: "vm_new_space fork_pmm = (0x40000000, fork_pmm\<lparr>free_next := 0x40001000, pages_taken := 1\<rparr>)"
    by (simp add: vm_new_space_def alloc_page_def fork_pmm_def pmm_statics_def PAGE_SIZE_def usable_def zero_words_zero fill_table_zero)
  then have sp: "spc = 0x40000000" "p = fork_pmm\<lparr>free_next := 0x40001000, pages_taken := 1\<rparr>"
    using v copy_l1_zero [of "fork_pmm\<lparr>free_next := 0x40001000, pages_taken := 1\<rparr>"] by (auto simp: vm_copy_space_def fork_pmm_def pmm_statics_def)
  obtain r s' where t: "thread_fork 0 ?f spc 0x80 (with_pages p fork_kern) = (r, s')" by fastforce
  have "filter (\<lambda>i. st demo_sched i = Free) [0..<3] = []" by (simp add: demo_sched_def demo_thread_def upt_rec)
  then have "\<exists>y. alloc_slot (k_sched (with_pages p fork_kern)) = (Some 3, y) \<and> pages y = p"
    by (simp add: alloc_slot_def fork_kern_def) (simp add: idle_kern_def demo_sched_def MAX_THREADS_def)
  then obtain y where y: "alloc_slot (k_sched (with_pages p fork_kern)) = (Some 3, y)" "pages y = p" by blast
  have "fst (alloc_pages p STACK_PAGES) \<noteq> 0" by (simp add: sp(2) alloc_pages_def fork_pmm_def pmm_statics_def PAGE_SIZE_def STACK_PAGES_def usable_def)
  then have r: "r = Some 3" using t y by (auto simp: thread_fork_def case_prod_unfold Let_def)
  have d: "do_fork 0 ?f 0x80 fork_kern = (of_int (id_of (thk s' 3)), s')" using v sp t r k(5) by (simp add: do_fork_def)
  have "id_of (thk s' 3) = 3"
    using thread_fork_sched [OF _ _ _ t [unfolded r], of 0] k(1-4) y(1) alloc_slot_rest [OF y(1), of 0]
    by (auto simp: slot_init_def thr_on_thread fork_child_def Let_def)
  then show ?thesis using fork_twice [OF k(1-3) _ d] d k(4) by auto
qed

end
