(* ===== verification/Gzip.thy ===== *)
theory Gzip
  imports Prelude
begin

text \<open>
  \<open>vgzip/vgzip.c\<close>: the DEFLATE codec (the full decoder, and the encoder with hash chains and the fixed
  Huffman code), the gzip container and the command around them. The proofs are in \<open>Deflated\<close>.

  A function that returns -1 is refused with \<open>Inl Refused\<close>; its callers all return -1 at once in turn.
  \<open>Inl Overrun\<close> stands for an access outside an array, or a read of an element that was never written, which C
  leaves undefined. The functions \<open>getbit\<close> and \<open>getbits\<close> keep their -1 as a value, because their callers
  go on computing with it. Buffers hold fewer than \<open>2 ^ 31\<close> bytes wherever an \<open>int\<close> indexes them, so sizes and
  positions are natural numbers; \<open>realloc\<close> and \<open>malloc\<close> succeed.
\<close>

datatype fault = Refused | Overrun

section \<open>Checksum\<close>

definition crc_step :: "u32 \<Rightarrow> u32" where
  "crc_step c = (if c AND 1 \<noteq> 0 then 0xedb88320 XOR drop_bit 1 c else drop_bit 1 c)"

definition crc_init :: "u32 list" where
  "crc_init = map (\<lambda>i. (crc_step ^^ 8) (of_nat i)) [0..<256]"

fun crc_loop :: "u32 list \<Rightarrow> u32 \<Rightarrow> bytes \<Rightarrow> u32" where
  "crc_loop crc_tab crc [] = crc"
| "crc_loop crc_tab crc (b # bs) =
     crc_loop crc_tab (crc_tab ! unat ((crc XOR ucast b) AND 0xff) XOR drop_bit 8 crc) bs"

definition crc32 :: "u32 \<Rightarrow> bytes \<Rightarrow> u32" where
  "crc32 crc p = NOT (crc_loop crc_init (NOT crc) p)"

section \<open>Growable buffer\<close>

text \<open>The field \<open>n\<close> of the struct is the length of \<open>buf_d\<close>.\<close>

record buf =
  buf_d :: bytes
  buf_cap :: nat

definition no_buf :: buf where
  "no_buf = \<lparr>buf_d = [], buf_cap = 0\<rparr>"

definition wider :: "nat \<Rightarrow> nat" where
  "wider cap = (if cap \<noteq> 0 then cap * 2 else 65536)"

definition bput :: "u8 \<Rightarrow> buf \<Rightarrow> buf" where
  "bput c b = \<lparr>buf_d = buf_d b @ [c],
     buf_cap = (if length (buf_d b) \<ge> buf_cap b then wider (buf_cap b) else buf_cap b)\<rparr>"

function grow :: "nat \<Rightarrow> nat \<Rightarrow> nat" where
  "grow want cap = (if want > cap then grow want (wider cap) else cap)"
  by pat_completeness auto
termination
  by (relation "measure (\<lambda>(want, cap). want - cap)") (auto simp: wider_def)

declare grow.simps [simp del]

definition bputmem :: "bytes \<Rightarrow> buf \<Rightarrow> buf" where
  "bputmem p b = \<lparr>buf_d = buf_d b @ p, buf_cap = grow (length (buf_d b) + length p) (buf_cap b)\<rparr>"

section \<open>Decoder\<close>

record bitr =
  in_d :: bytes
  in_pos :: nat
  in_buf :: u32
  in_cnt :: nat

definition getbit :: "bitr \<Rightarrow> int \<times> bitr" where
  "getbit r =
     (if in_cnt r = 0 \<and> in_pos r \<ge> length (in_d r) then (-1, r)
      else let r = (if in_cnt r = 0 then r\<lparr>in_buf := ucast (in_d r ! in_pos r), in_pos := in_pos r + 1, in_cnt := 8\<rparr>
                    else r)
        in (uint (in_buf r AND 1), r\<lparr>in_buf := drop_bit 1 (in_buf r), in_cnt := in_cnt r - 1\<rparr>))"

text \<open>The loop of \<open>getbits\<close>, over the bit positions still to be read.\<close>

fun getbits_loop :: "nat list \<Rightarrow> int \<Rightarrow> bitr \<Rightarrow> int \<times> bitr" where
  "getbits_loop [] v r = (v, r)"
| "getbits_loop (i # is) v r =
     (case getbit r of (b, r') \<Rightarrow>
        if b < 0 then (-1, r') else getbits_loop is (v OR push_bit i b) r')"

definition getbits :: "nat \<Rightarrow> bitr \<Rightarrow> int \<times> bitr" where
  "getbits n r = getbits_loop [0..<n] 0 r"

record huff =
  hcount :: "nat list"
  hsym :: "nat option list"

fun count_lens :: "nat list \<Rightarrow> nat list \<Rightarrow> nat list option" where
  "count_lens [] count = Some count"
| "count_lens (l # lens) count =
     (if l < 16 then count_lens lens (count[l := count ! l + 1]) else None)"

definition offsets :: "nat list \<Rightarrow> nat list" where
  "offsets count = fold (\<lambda>i offs. offs[i + 1 := offs ! i + count ! i]) [1..<15] (replicate 16 0)"

fun place_syms :: "nat \<Rightarrow> nat list \<Rightarrow> nat list \<Rightarrow> nat option list \<Rightarrow> nat option list option" where
  "place_syms i [] offs syms = Some syms"
| "place_syms i (l # lens) offs syms =
     (if l = 0 then place_syms (i + 1) lens offs syms
      else if offs ! l < 288
      then place_syms (i + 1) lens (offs[l := offs ! l + 1]) (syms[offs ! l := Some i])
      else None)"

text \<open>The table is on the stack: an element of \<open>sym\<close> is \<open>None\<close> until it is written.\<close>

definition huff_build :: "nat list \<Rightarrow> fault + huff" where
  "huff_build lens =
     (case count_lens lens (replicate 16 0) of None \<Rightarrow> Inl Overrun
      | Some c \<Rightarrow> let count = c[0 := 0]
        in case place_syms 0 lens (offsets count) (replicate 288 None) of None \<Rightarrow> Inl Overrun
           | Some syms \<Rightarrow> Inr \<lparr>hcount = count, hsym = syms\<rparr>)"

fun decode_loop :: "huff \<Rightarrow> nat list \<Rightarrow> int \<Rightarrow> int \<Rightarrow> int \<Rightarrow> bitr \<Rightarrow> fault + (nat \<times> bitr)" where
  "decode_loop h [] code first index r = Inl Refused"
| "decode_loop h (len # ls) code first index r =
     (case getbit r of (b, r') \<Rightarrow>
        if b < 0 then Inl Refused
        else let code = code OR b; count = int (hcount h ! len)
          in if code - first < count
             then (let k = index + (code - first)
               in if k < 0 \<or> k \<ge> 288 then Inl Overrun
                  else case hsym h ! nat k of None \<Rightarrow> Inl Overrun | Some s \<Rightarrow> Inr (s, r'))
             else decode_loop h ls (push_bit 1 code) (push_bit 1 (first + count)) (index + count) r')"

definition huff_decode :: "huff \<Rightarrow> bitr \<Rightarrow> fault + (nat \<times> bitr)" where
  "huff_decode h r = decode_loop h [1..<16] 0 0 0 r"

definition len_base :: "nat list" where
  "len_base = [3,4,5,6,7,8,9,10,11,13,15,17,19,23,27,31,35,43,51,59,67,83,99,115,131,163,195,227,258]"
definition len_extra :: "nat list" where
  "len_extra = [0,0,0,0,0,0,0,0,1,1,1,1,2,2,2,2,3,3,3,3,4,4,4,4,5,5,5,5,0]"
definition dist_base :: "nat list" where
  "dist_base = [1,2,3,4,5,7,9,13,17,25,33,49,65,97,129,193,257,385,513,769,1025,1537,2049,3073,4097,6145,
     8193,12289,16385,24577]"
definition dist_extra :: "nat list" where
  "dist_extra = [0,0,0,0,1,1,2,2,3,3,4,4,5,5,6,6,7,7,8,8,9,9,10,10,11,11,12,12,13,13]"

fun copy_match :: "nat \<Rightarrow> nat \<Rightarrow> buf \<Rightarrow> fault + buf" where
  "copy_match 0 dist out = Inr out"
| "copy_match (Suc k) dist out =
     (if 1 \<le> dist \<and> dist \<le> length (buf_d out)
      then copy_match k dist (bput (buf_d out ! (length (buf_d out) - dist)) out)
      else Inl Overrun)"

text \<open>Bits that are left; each turn of the loops below takes one at least.\<close>

definition bits_left :: "bitr \<Rightarrow> nat" where
  "bits_left r = 8 * (length (in_d r) - in_pos r) + in_cnt r"

lemma uint_and_1: "uint (w AND 1) = of_bool (bit w 0)" for w :: u32
  by (simp add: uint_and bit_0 and_one_eq odd_iff_mod_2_eq_one)

lemma getbit_left: "getbit r = (b, r') \<Longrightarrow> bits_left r' \<le> bits_left r \<and> (0 \<le> b \<longrightarrow> bits_left r' < bits_left r)"
  by (auto simp: getbit_def bits_left_def Let_def split: if_splits)

lemma getbits_loop_left: "getbits_loop is v r = (x, r') \<Longrightarrow> bits_left r' \<le> bits_left r"
  by (induction "is" v r rule: getbits_loop.induct)
    (auto split: prod.splits if_splits dest!: getbit_left)

lemma getbits_left: "getbits n r = (x, r') \<Longrightarrow> bits_left r' \<le> bits_left r"
  by (simp add: getbits_def getbits_loop_left)

lemma getbits_left_sym: "(x, r') = getbits n r \<Longrightarrow> bits_left r' \<le> bits_left r"
  by (metis getbits_left)

lemma decode_loop_left: "decode_loop h ls code first index r = Inr (s, r') \<Longrightarrow> bits_left r' < bits_left r"
proof (induction h ls code first index r rule: decode_loop.induct)
  case (2 h len ls code first index r)
  obtain b r1 where g: "getbit r = (b, r1)" by fastforce
  show ?case using 2 getbit_left [OF g]
    by (fastforce simp: g Let_def split: if_splits option.splits)
qed simp

lemma huff_decode_left: "huff_decode h r = Inr (s, r') \<Longrightarrow> bits_left r' < bits_left r"
  by (simp add: huff_decode_def decode_loop_left)

text \<open>\<open>len\<close> and \<open>dist\<close> are computed with the -1 of a stream that has ended.\<close>

function inflate_block :: "huff \<Rightarrow> huff \<Rightarrow> bitr \<Rightarrow> buf \<Rightarrow> fault + (bitr \<times> buf)" where
  "inflate_block lh dh r out =
     (case huff_decode lh r of Inl e \<Rightarrow> Inl e
      | Inr (s, r1) \<Rightarrow>
          if s = 256 then Inr (r1, out)
          else if s < 256 then inflate_block lh dh r1 (bput (of_nat s) out)
          else let ls = s - 257
            in if ls \<ge> 29 then Inl Refused
               else case getbits (len_extra ! ls) r1 of (x, r2) \<Rightarrow>
                 (let len = int (len_base ! ls) + x
                  in case huff_decode dh r2 of Inl e \<Rightarrow> Inl e
                     | Inr (dsym, r3) \<Rightarrow>
                         if dsym \<ge> 30 then Inl Refused
                         else case getbits (dist_extra ! dsym) r3 of (y, r4) \<Rightarrow>
                           (let dist = int (dist_base ! dsym) + y
                            in if dist < 0 \<or> dist > int (length (buf_d out)) then Inl Refused
                               else case copy_match (nat len) (nat dist) out of Inl e \<Rightarrow> Inl e
                                 | Inr out' \<Rightarrow> inflate_block lh dh r4 out')))"
  by pat_completeness auto
termination
proof (relation "measure (\<lambda>(lh, dh, r, out). bits_left r)", goal_cases)
  case 2
  then show ?case by (auto dest: huff_decode_left)
next
  case (3 lh dh r out a s r1 s' x r2 len b dsym r3 y r4 dist out')
  have "bits_left r1 < bits_left r" "bits_left r2 \<le> bits_left r1" "bits_left r3 < bits_left r2"
    "bits_left r4 \<le> bits_left r3"
    using 3 by (auto dest!: huff_decode_left getbits_left_sym)
  then show ?case by simp
qed simp

declare inflate_block.simps [simp del]

subsection \<open>The three kinds of block\<close>

definition stored_block :: "bitr \<Rightarrow> buf \<Rightarrow> fault + (bitr \<times> buf)" where
  "stored_block r out =
     (let r = r\<lparr>in_cnt := 0\<rparr>
      in if in_pos r + 4 > length (in_d r) then Inl Refused
         else let len = unat (get16 (in_d r) (in_pos r)); r = r\<lparr>in_pos := in_pos r + 4\<rparr>
           in if in_pos r + len > length (in_d r) then Inl Refused
              else Inr (r\<lparr>in_pos := in_pos r + len\<rparr>, bputmem (take len (drop (in_pos r) (in_d r))) out))"

definition fixed_ll :: "nat list" where
  "fixed_ll = replicate 144 8 @ replicate 112 9 @ replicate 24 7 @ replicate 8 8"

definition fixed_dl :: "nat list" where
  "fixed_dl = replicate 30 5"

definition fixed_block :: "bitr \<Rightarrow> buf \<Rightarrow> fault + (bitr \<times> buf)" where
  "fixed_block r out =
     (case huff_build fixed_ll of Inl e \<Rightarrow> Inl e
      | Inr lh \<Rightarrow> (case huff_build fixed_dl of Inl e \<Rightarrow> Inl e
        | Inr dh \<Rightarrow> inflate_block lh dh r out))"

definition ord :: "nat list" where
  "ord = [16,17,18,0,8,7,9,6,10,5,11,4,12,3,13,2,14,1,15]"

text \<open>Storing an \<open>int\<close> in an \<open>unsigned char\<close>.\<close>

definition to_uchar :: "int \<Rightarrow> nat" where
  "to_uchar v = nat (v mod 256)"

fun read_cl :: "nat list \<Rightarrow> nat list \<Rightarrow> bitr \<Rightarrow> nat list \<times> bitr" where
  "read_cl [] cl r = (cl, r)"
| "read_cl (o' # os) cl r = (case getbits 3 r of (x, r') \<Rightarrow> read_cl os (cl[o' := to_uchar x]) r')"

text \<open>\<open>while (rep-- && i < all) lens[i++] = v\<close>, with the array of 318 elements.\<close>

fun fill_lens :: "nat \<Rightarrow> nat \<Rightarrow> nat \<Rightarrow> nat list \<Rightarrow> nat \<Rightarrow> fault + (nat list \<times> nat)" where
  "fill_lens 0 all v lens i = Inr (lens, i)"
| "fill_lens (Suc rep) all v lens i =
     (if i < all then if i < 318 then fill_lens rep all v (lens[i := v]) (i + 1) else Inl Overrun
      else Inr (lens, i))"

text \<open>The count of the three repeat codes.\<close>

definition repeat_count :: "nat \<Rightarrow> bitr \<Rightarrow> nat \<times> bitr" where
  "repeat_count s r =
     (case getbits (if s = 16 then 2 else if s = 17 then 3 else 7) r of (x, r') \<Rightarrow>
        (nat (x + (if s = 16 \<or> s = 17 then 3 else 11)), r'))"

lemma repeat_count_left: "(n, r') = repeat_count s r \<Longrightarrow> bits_left r' \<le> bits_left r"
  by (auto simp: repeat_count_def split: prod.splits dest!: getbits_left)

function read_lens :: "huff \<Rightarrow> nat \<Rightarrow> nat list \<Rightarrow> nat \<Rightarrow> bitr \<Rightarrow> fault + (nat list \<times> bitr)" where
  "read_lens ch all lens i r =
     (if i \<ge> all then Inr (lens, r)
      else case huff_decode ch r of Inl e \<Rightarrow> Inl e
      | Inr (s, r1) \<Rightarrow>
          if s < 16 then if i < 318 then read_lens ch all (lens[i := s]) (i + 1) r1 else Inl Overrun
          else case repeat_count s r1 of (rep, r2) \<Rightarrow>
            if s = 16 \<and> i = 0 then Inl Refused
            else case fill_lens rep all (if s = 16 then lens ! (i - 1) else 0) lens i of Inl e \<Rightarrow> Inl e
                 | Inr (lens', i') \<Rightarrow> read_lens ch all lens' i' r2)"
  by pat_completeness auto
termination
  by (relation "measure (\<lambda>(ch, all, lens, i, r). bits_left r)")
    (auto dest!: huff_decode_left repeat_count_left)

declare read_lens.simps [simp del]

definition dynamic_block :: "bitr \<Rightarrow> buf \<Rightarrow> fault + (bitr \<times> buf)" where
  "dynamic_block r out =
     (case getbits 5 r of (x, r1) \<Rightarrow> case getbits 5 r1 of (y, r2) \<Rightarrow> case getbits 4 r2 of (z, r3) \<Rightarrow>
        let hlit = nat (x + 257); hdist = nat (y + 1); hclen = nat (z + 4)
        in case read_cl (take hclen ord) (replicate 19 0) r3 of (cl, r4) \<Rightarrow>
           case huff_build cl of Inl e \<Rightarrow> Inl e
           | Inr ch \<Rightarrow> (case read_lens ch (hlit + hdist) (replicate 318 0) 0 r4 of Inl e \<Rightarrow> Inl e
             | Inr (lens, r5) \<Rightarrow> (case huff_build (take hlit lens) of Inl e \<Rightarrow> Inl e
               | Inr lh \<Rightarrow> (case huff_build (take hdist (drop hlit lens)) of Inl e \<Rightarrow> Inl e
                 | Inr dh \<Rightarrow> inflate_block lh dh r5 out))))"

subsection \<open>The stream\<close>

lemma inflate_block_left: "inflate_block lh dh r out = Inr (r', out') \<Longrightarrow> bits_left r' < bits_left r"
proof (induction lh dh r out rule: inflate_block.induct)
  case (1 lh dh r out)
  show ?case
  proof (cases "huff_decode lh r")
    case (Inr p)
    obtain s r1 where d: "huff_decode lh r = Inr (s, r1)" using Inr by (cases p) auto
    note l1 = huff_decode_left [OF d]
    consider "s = 256" | "s < 256" | "s > 256" by linarith
    then show ?thesis
    proof cases
      case 2
      then show ?thesis using 1 l1 d by (fastforce simp: inflate_block.simps [of lh dh r])
    next
      case 3
      obtain x r2 where x: "getbits (len_extra ! (s - 257)) r1 = (x, r2)" by fastforce
      obtain ds r3 where ds: "huff_decode dh r2 = Inr (ds, r3)" "s - 257 < 29"
        using 1(3) 3 d x by (auto simp: inflate_block.simps [of lh dh r] Let_def split: sum.splits if_splits)
      obtain y r4 where y: "getbits (dist_extra ! ds) r3 = (y, r4)" by fastforce
      obtain o2 where o2: "inflate_block lh dh r4 o2 = Inr (r', out')" "bits_left r' < bits_left r4"
        using 1 3 d x ds y by (auto simp: inflate_block.simps [of lh dh r] Let_def split: sum.splits if_splits)
      then show ?thesis using l1 getbits_left [OF x] getbits_left [OF y] huff_decode_left [OF ds(1)] by linarith
    qed (use 1 l1 d in \<open>auto simp: inflate_block.simps [of lh dh r]\<close>)
  qed (use 1 in \<open>simp add: inflate_block.simps [of lh dh r]\<close>)
qed

lemma read_cl_left: "read_cl os cl r = (cl', r') \<Longrightarrow> bits_left r' \<le> bits_left r"
  by (induction os cl r rule: read_cl.induct) (auto split: prod.splits dest!: getbits_left)

lemma read_lens_left: "read_lens ch all lens i r = Inr (lens', r') \<Longrightarrow> bits_left r' \<le> bits_left r"
proof (induction ch all lens i r rule: read_lens.induct)
  case (1 ch all lens i r)
  show ?case
  proof (cases "i \<ge> all \<or> (\<exists>e. huff_decode ch r = Inl e)")
    case False
    then obtain s r1 where d: "\<not> i \<ge> all" "huff_decode ch r = Inr (s, r1)"
      by (cases "huff_decode ch r") auto
    obtain rep r2 where p: "repeat_count s r1 = (rep, r2)" by fastforce
    note l = huff_decode_left [OF d(2)] repeat_count_left [OF p [symmetric]]
    consider "s < 16" | "16 \<le> s" by linarith
    then show ?thesis
    proof cases
      case 1
      then show ?thesis using "1.IH"(1) [OF d refl] "1.prems" d l
        by (auto simp: read_lens.simps [of ch all lens i r] split: if_splits)
    next
      case 2
      then obtain lens1 i1 where f: "fill_lens rep all (if s = 16 then lens ! (i - 1) else 0) lens i = Inr (lens1, i1)"
        "\<not> (s = 16 \<and> i = 0)" "read_lens ch all lens1 i1 r2 = Inr (lens', r')"
        using "1.prems" d p by (auto simp: read_lens.simps [of ch all lens i r] split: if_splits sum.splits)
      have "bits_left r' \<le> bits_left r2"
        by (rule "1.IH"(2) [OF d refl _ p [symmetric] f(2) f(1) refl f(3)]) (use 2 in simp)
      then show ?thesis using l by linarith
    qed
  qed (use 1(3) in \<open>auto simp: read_lens.simps [of ch all lens i r] split: if_splits\<close>)
qed

lemma dynamic_block_left: "dynamic_block r out = Inr (r', out') \<Longrightarrow> bits_left r' \<le> bits_left r"
  by (auto simp: dynamic_block_def Let_def split: prod.splits sum.splits
      dest!: getbits_left read_cl_left read_lens_left inflate_block_left)

lemma fixed_block_left: "fixed_block r out = Inr (r', out') \<Longrightarrow> bits_left r' \<le> bits_left r"
  by (auto simp: fixed_block_def split: sum.splits dest!: inflate_block_left)

lemma stored_block_left: "stored_block r out = Inr (r', out') \<Longrightarrow> bits_left r' \<le> bits_left r"
  by (auto simp: stored_block_def Let_def bits_left_def split: if_splits)

definition any_block :: "int \<Rightarrow> bitr \<Rightarrow> buf \<Rightarrow> fault + (bitr \<times> buf)" where
  "any_block type r out =
     (if type = 0 then stored_block r out else if type = 1 then fixed_block r out
      else if type = 2 then dynamic_block r out else Inl Refused)"

lemma any_block_left: "any_block type r out = Inr (r', out') \<Longrightarrow> bits_left r' \<le> bits_left r"
  by (auto simp: any_block_def split: if_splits dest!: stored_block_left fixed_block_left dynamic_block_left)

function inflate_loop :: "bitr \<Rightarrow> buf \<Rightarrow> fault + buf" where
  "inflate_loop r out =
     (case getbit r of (final, r1) \<Rightarrow>
        if final < 0 then Inl Refused
        else case getbits 2 r1 of (type, r2) \<Rightarrow>
          if type < 0 then Inl Refused
          else case any_block type r2 out of Inl e \<Rightarrow> Inl e
            | Inr (r3, out') \<Rightarrow> if final \<noteq> 0 then Inr out' else inflate_loop r3 out')"
  by pat_completeness auto
termination
proof (relation "measure (\<lambda>(r, out). bits_left r)", goal_cases)
  case (2 r out final r1 type r2 a r3 out')
  then show ?case
    using getbit_left [of r final r1] getbits_left_sym [of type r2 2 r1] any_block_left [of type r2 out r3 out']
    by auto
qed simp

declare inflate_loop.simps [simp del]

definition inflate :: "bytes \<Rightarrow> buf \<Rightarrow> fault + buf" where
  "inflate data out = inflate_loop \<lparr>in_d = data, in_pos = 0, in_buf = 0, in_cnt = 0\<rparr> out"

section \<open>Encoder\<close>

record bitw =
  wb :: buf
  w_buf :: u32
  w_cnt :: nat

definition putbit :: "int \<Rightarrow> bitw \<Rightarrow> bitw" where
  "putbit b w =
     (let v = w_buf w OR push_bit (w_cnt w) (of_int (b AND 1)); c = w_cnt w + 1
      in if c = 8 then w\<lparr>wb := bput (ucast v) (wb w), w_buf := 0, w_cnt := 0\<rparr>
         else w\<lparr>w_buf := v, w_cnt := c\<rparr>)"

definition putbits :: "nat \<Rightarrow> nat \<Rightarrow> bitw \<Rightarrow> bitw" where
  "putbits val n = fold (\<lambda>i. putbit (drop_bit i (int val) AND 1)) [0..<n]"

definition putbits_rev :: "nat \<Rightarrow> nat \<Rightarrow> bitw \<Rightarrow> bitw" where
  "putbits_rev val n = fold (\<lambda>i. putbit (drop_bit i (int val) AND 1)) (rev [0..<n])"

definition flush_bits :: "bitw \<Rightarrow> bitw" where
  "flush_bits w = (if w_cnt w \<noteq> 0 then w\<lparr>wb := bput (ucast (w_buf w)) (wb w), w_buf := 0, w_cnt := 0\<rparr> else w)"

definition emit_lit :: "nat \<Rightarrow> bitw \<Rightarrow> bitw" where
  "emit_lit lit = (if lit < 144 then putbits_rev (0x30 + lit) 8 else putbits_rev (0x190 + (lit - 144)) 9)"

text \<open>
  The search of \<open>len_sym\<close> and \<open>dist_sym\<close>: the last base not above the value. Result: the number of the symbol,
  the extra value and its width.
\<close>

fun base_search :: "nat list \<Rightarrow> nat list \<Rightarrow> nat list \<Rightarrow> nat \<Rightarrow> nat \<times> nat \<times> nat" where
  "base_search base extra [] v = (0, 0, 0)"
| "base_search base extra (s # ss) v =
     (if v \<ge> base ! s then (s, v - base ! s, extra ! s) else base_search base extra ss v)"

definition len_sym :: "nat \<Rightarrow> nat \<times> nat \<times> nat" where
  "len_sym len = (case base_search len_base len_extra (rev [0..<29]) len of (s, e, n) \<Rightarrow> (257 + s, e, n))"

definition dist_sym :: "nat \<Rightarrow> nat \<times> nat \<times> nat" where
  "dist_sym dist = base_search dist_base dist_extra (rev [0..<30]) dist"

definition emit_len :: "nat \<Rightarrow> bitw \<Rightarrow> bitw" where
  "emit_len len w =
     (case len_sym len of (s, extra, nextra) \<Rightarrow>
        putbits extra nextra
          (if s \<le> 279 then putbits_rev (s - 256) 7 w else putbits_rev (0xc0 + (s - 280)) 8 w))"

definition emit_dist :: "nat \<Rightarrow> bitw \<Rightarrow> bitw" where
  "emit_dist dist w =
     (case dist_sym dist of (s, extra, nextra) \<Rightarrow> putbits extra nextra (putbits_rev s 5 w))"

subsection \<open>Hash chains\<close>

text \<open>
  \<open>head\<close> maps a hash to the last position that had it, or -1; \<open>prev\<close> comes from \<open>malloc\<close>, so that an element is
  \<open>None\<close> until it is written.
\<close>

record chains =
  head :: "int list"
  prev :: "int option list"

definition HASHSIZE :: nat where "HASHSIZE = 2 ^ 15"

definition WSIZE :: int where "WSIZE = 32768"

definition hash3 :: "bytes \<Rightarrow> nat \<Rightarrow> nat" where
  "hash3 d i = nat ((push_bit 10 (uint (d ! i)) XOR push_bit 5 (uint (d ! (i + 1))) XOR uint (d ! (i + 2)))
     AND (int HASHSIZE - 1))"

text \<open>The length of the match at \<open>j\<close>, from \<open>l\<close> on.\<close>

function match_len :: "bytes \<Rightarrow> nat \<Rightarrow> nat \<Rightarrow> nat \<Rightarrow> nat" where
  "match_len d i j l =
     (if l < 258 \<and> i + l < length d \<and> d ! (j + l) = d ! (i + l) then match_len d i j (l + 1) else l)"
  by pat_completeness auto
termination
  by (relation "measure (\<lambda>(d, i, j, l). 258 - l)") auto

declare match_len.simps [simp del]

text \<open>Along the chain from \<open>j\<close>, \<open>fuel\<close> candidates more at the most.\<close>

fun find_match :: "bytes \<Rightarrow> chains \<Rightarrow> nat \<Rightarrow> nat \<Rightarrow> int \<Rightarrow> nat \<times> nat \<Rightarrow> fault + (nat \<times> nat)" where
  "find_match d c i 0 j (best_len, best_dist) = Inr (best_len, best_dist)"
| "find_match d c i (Suc fuel) j (best_len, best_dist) =
     (if j < 0 then Inr (best_len, best_dist)
      else let l = match_len d i (nat j) 0; near = (int i - j \<le> WSIZE \<and> j \<le> int i);
               best = (if near \<and> l > best_len then (l, nat (int i - j)) else (best_len, best_dist))
        in if near \<and> l > best_len \<and> l \<ge> 258 then Inr best
           else if nat j < length (prev c)
             then (case prev c ! nat j of None \<Rightarrow> Inl Overrun
                   | Some j' \<Rightarrow> find_match d c i fuel j' best)
             else Inl Overrun)"

text \<open>\<open>prev[p] = head[h]; head[h] = p\<close>, for a position that has three bytes left.\<close>

definition enter :: "bytes \<Rightarrow> nat \<Rightarrow> chains \<Rightarrow> chains" where
  "enter d p c =
     (if p + 3 \<le> length d
      then c\<lparr>prev := (prev c)[p := Some (head c ! hash3 d p)], head := (head c)[hash3 d p := int p]\<rparr>
      else c)"

definition search :: "bytes \<Rightarrow> nat \<Rightarrow> chains \<Rightarrow> fault + (nat \<times> nat)" where
  "search d i c =
     (if i + 3 \<le> length d then find_match d c i 128 (head c ! hash3 d i) (0, 0) else Inr (0, 0))"

text \<open>The main loop; a turn advances by one position at least.\<close>

function deflate_loop :: "bytes \<Rightarrow> nat \<Rightarrow> chains \<Rightarrow> bitw \<Rightarrow> fault + bitw" where
  "deflate_loop d i c w =
     (if i < length d
      then case search d i c of Inl e \<Rightarrow> Inl e
        | Inr (best_len, best_dist) \<Rightarrow>
            if best_len \<ge> 3
            then deflate_loop d (i + best_len) (fold (\<lambda>k. enter d (i + k)) [1..<best_len] (enter d i c))
                   (emit_dist best_dist (emit_len best_len w))
            else deflate_loop d (i + 1) (enter d i c) (emit_lit (unat (d ! i)) w)
      else Inr w)"
  by pat_completeness auto
termination
  by (relation "measure (\<lambda>(d, i, c, w). length d - i)") auto

declare deflate_loop.simps [simp del]

definition deflate :: "bytes \<Rightarrow> buf \<Rightarrow> fault + buf" where
  "deflate d out =
     (let w = putbits 1 2 (putbit 1 \<lparr>wb = out, w_buf = 0, w_cnt = 0\<rparr>);
          c = \<lparr>head = replicate HASHSIZE (-1), prev = replicate (max 1 (length d)) None\<rparr>
      in case deflate_loop d 0 c w of Inl e \<Rightarrow> Inl e
         | Inr w' \<Rightarrow> Inr (wb (flush_bits (putbits_rev 0 7 w'))))"

section \<open>Container\<close>

definition gz_header :: bytes where
  "gz_header = [0x1f, 0x8b, 8, 0, 0, 0, 0, 0, 0, 3]"

definition gz_compress :: "bytes \<Rightarrow> buf \<Rightarrow> fault + buf" where
  "gz_compress d out =
     (case deflate d (bputmem gz_header out) of Inl e \<Rightarrow> Inl e
      | Inr out' \<Rightarrow> Inr (bputmem (le_bytes 4 (crc32 0 d) @ le_bytes 4 (of_nat (length d) :: u64)) out'))"

text \<open>\<open>while (p < n && in[p]) p++; p++\<close>\<close>

definition skip_name :: "bytes \<Rightarrow> nat \<Rightarrow> nat" where
  "skip_name d p = p + length (takeWhile (\<lambda>b. b \<noteq> 0) (drop p d)) + 1"

definition gz_data :: "bytes \<Rightarrow> nat option" where
  "gz_data d =
     (if length d < 18 \<or> d ! 0 \<noteq> 0x1f \<or> d ! 1 \<noteq> 0x8b \<or> d ! 2 \<noteq> 8 then None
      else if d ! 3 AND 4 \<noteq> 0 \<and> 10 + 2 > length d then None
      else let flg = d ! 3; p = 10;
               p = (if flg AND 4 \<noteq> 0 then p + 2 + unat (get16 d p) else p);
               p = (if flg AND 8 \<noteq> 0 then skip_name d p else p);
               p = (if flg AND 16 \<noteq> 0 then skip_name d p else p);
               p = (if flg AND 2 \<noteq> 0 then p + 2 else p)
        in if p \<ge> length d then None else Some p)"

definition gz_decompress :: "bytes \<Rightarrow> buf \<Rightarrow> fault + buf" where
  "gz_decompress d out =
     (case gz_data d of None \<Rightarrow> Inl Refused
      | Some p \<Rightarrow> (case inflate (drop p d) out of Inl e \<Rightarrow> Inl e
        | Inr out' \<Rightarrow>
            if crc32 0 (buf_d out') \<noteq> get32 d (length d - 8) then Inl Refused else Inr out'))"

section \<open>Command\<close>

record gz_opts =
  decompress :: bool
  tostdout :: bool
  keep :: bool
  files :: "string list"

text \<open>One argument of combined short flags; \<open>None\<close> is the message about an unknown one.\<close>

fun short_flags :: "string \<Rightarrow> gz_opts \<Rightarrow> gz_opts option" where
  "short_flags [] o' = Some o'"
| "short_flags (f # fs) o' =
     (if f = CHR ''d'' then short_flags fs (o'\<lparr>decompress := True\<rparr>)
      else if f = CHR ''c'' then short_flags fs (o'\<lparr>tostdout := True\<rparr>)
      else if f = CHR ''k'' then short_flags fs (o'\<lparr>keep := True\<rparr>)
      else None)"

text \<open>One argument. The array \<open>files\<close> has room for 256 names.\<close>

definition parse_arg :: "string \<Rightarrow> gz_opts \<Rightarrow> fault + gz_opts" where
  "parse_arg a o' =
     (if length a \<ge> 2 \<and> a ! 0 = CHR ''-'' \<and> a ! 1 \<noteq> CHR ''-''
      then (case short_flags (tl a) o' of None \<Rightarrow> Inl Refused | Some o'' \<Rightarrow> Inr o'')
      else if a = ''-d'' then Inr (o'\<lparr>decompress := True\<rparr>)
      else if a = ''-c'' then Inr (o'\<lparr>tostdout := True\<rparr>)
      else if a = ''-k'' then Inr (o'\<lparr>keep := True\<rparr>)
      else if a = ''-f'' \<or> a = ''-n'' \<or> a = ''-q'' then Inr o'
      else if length a \<ge> 2 \<and> a ! 0 = CHR ''-'' then Inl Refused
      else if a = [] \<or> a ! 0 \<noteq> CHR ''-''
      then if length (files o') < 256 then Inr (o'\<lparr>files := files o' @ [a]\<rparr>) else Inl Overrun
      else Inr o')"

fun parse_args :: "string list \<Rightarrow> gz_opts \<Rightarrow> fault + gz_opts" where
  "parse_args [] o' = Inr o'"
| "parse_args (a # as) o' = (case parse_arg a o' of Inl e \<Rightarrow> Inl e | Inr o'' \<Rightarrow> parse_args as o'')"

text \<open>The part of the path after the last slash.\<close>

definition me_name :: "string \<Rightarrow> string" where
  "me_name arg0 = rev (takeWhile (\<lambda>c. c \<noteq> CHR ''/'') (rev arg0))"

definition first_opts :: "string \<Rightarrow> gz_opts" where
  "first_opts me = \<lparr>decompress = (me = ''gunzip'' \<or> me = ''zcat''), tostdout = (me = ''zcat''),
     keep = False, files = []\<rparr>"

text \<open>\<open>outname\<close> has 1024 characters, the last one for the terminator.\<close>

definition out_name :: "bool \<Rightarrow> string \<Rightarrow> string" where
  "out_name dec f = take 1023
     (if dec
      then if length f > 3 \<and> drop (length f - 3) f = ''.gz'' then take (length f - 3) f else f @ ''.out''
      else f @ ''.gz'')"

text \<open>
  What the command works on: the files by name, and the standard output. Which names can be opened for writing is
  the argument \<open>can_write\<close>.
\<close>

record gz_world =
  named :: "string \<Rightarrow> bytes option"
  out_bytes :: bytes

definition gz_convert :: "gz_opts \<Rightarrow> bytes \<Rightarrow> fault + bytes" where
  "gz_convert o' d =
     (case (if decompress o' then gz_decompress d no_buf else gz_compress d no_buf) of
        Inl e \<Rightarrow> Inl e | Inr b \<Rightarrow> Inr (buf_d b))"

text \<open>One file: the new world, and whether it failed.\<close>

definition gz_file :: "(string \<Rightarrow> bool) \<Rightarrow> gz_opts \<Rightarrow> string \<Rightarrow> gz_world \<Rightarrow> fault + (gz_world \<times> bool)" where
  "gz_file can_write o' f w =
     (case named w f of None \<Rightarrow> Inr (w, True)
      | Some d \<Rightarrow> (case gz_convert o' d of
          Inl Overrun \<Rightarrow> Inl Overrun
        | Inl Refused \<Rightarrow> Inr (w, True)
        | Inr x \<Rightarrow>
            if tostdout o' then Inr (w\<lparr>out_bytes := out_bytes w @ x\<rparr>, False)
            else let outname = out_name (decompress o') f
              in if \<not> can_write outname then Inr (w, True)
                 else let w = w\<lparr>named := (named w)(outname := Some x)\<rparr>
                   in Inr (if keep o' then w else w\<lparr>named := (named w)(f := None)\<rparr>, False)))"

fun gz_files :: "(string \<Rightarrow> bool) \<Rightarrow> gz_opts \<Rightarrow> string list \<Rightarrow> nat \<Rightarrow> gz_world \<Rightarrow> fault + (gz_world \<times> nat)" where
  "gz_files can_write o' [] ret w = Inr (w, ret)"
| "gz_files can_write o' (f # fs) ret w =
     (case gz_file can_write o' f w of Inl e \<Rightarrow> Inl e
      | Inr (w', bad) \<Rightarrow> gz_files can_write o' fs (if bad then 1 else ret) w')"

definition gz_main :: "(string \<Rightarrow> bool) \<Rightarrow> bytes \<Rightarrow> string \<Rightarrow> string list \<Rightarrow> gz_world \<Rightarrow> fault + (gz_world \<times> nat)" where
  "gz_main can_write input arg0 args w =
     (case parse_args args (first_opts (me_name arg0)) of
        Inl Overrun \<Rightarrow> Inl Overrun
      | Inl Refused \<Rightarrow> Inr (w, 1)
      | Inr o' \<Rightarrow>
          if files o' = []
          then (case gz_convert o' input of
              Inl Overrun \<Rightarrow> Inl Overrun
            | Inl Refused \<Rightarrow> Inr (w, 1)
            | Inr x \<Rightarrow> Inr (w\<lparr>out_bytes := out_bytes w @ x\<rparr>, 0))
          else gz_files can_write o' (files o') 0 w)"

end
