(* ===== verification/Deflated.thy ===== *)
theory Deflated
  imports Gzip
begin

text \<open>
  Correctness of \<open>vgzip\<close>: what its encoder writes, its decoder reads back. The bit reader and the bit writer are
  related to lists of bits first; on these the fixed Huffman code is shown to be read back symbol by symbol,
  then the loop of the decoder is run along with the loop of the encoder.
\<close>

declare decode_loop.simps [simp del]

section \<open>Bits\<close>

definition byte_bits :: "u8 \<Rightarrow> bool list" where
  "byte_bits b = map (bit b) [0..<8]"

text \<open>What a reader still has to give.\<close>

definition rbits :: "bitr \<Rightarrow> bool list" where
  "rbits r = map (bit (in_buf r)) [0..<in_cnt r] @ concat (map byte_bits (drop (in_pos r) (in_d r)))"

lemma bits_Suc: "map (bit w) [0..<Suc c] = bit w 0 # map (bit (drop_bit 1 w)) [0..<c]"
  by (subst upt_conv_Cons) (simp_all add: map_Suc_upt [symmetric] bit_simps comp_def del: upt_Suc map_Suc_upt)

lemma byte_bits_32: "byte_bits b = map (bit (ucast b :: u32)) [0..<8]"
  by (simp add: byte_bits_def bit_simps)

lemma getbit_Cons:
  assumes "rbits r = b # bs"
  obtains r' where "getbit r = (of_bool b, r')" "rbits r' = bs"
proof (cases "in_cnt r")
  case 0
  then have p: "in_pos r < length (in_d r)" using assms by (cases "in_pos r < length (in_d r)") (auto simp: rbits_def)
  define w :: u32 where "w = ucast (in_d r ! in_pos r)"
  have d: "drop (in_pos r) (in_d r) = in_d r ! in_pos r # drop (Suc (in_pos r)) (in_d r)"
    using p by (simp add: Cons_nth_drop_Suc)
  have e: "b # bs = map (bit w) [0..<Suc 7] @ concat (map byte_bits (drop (Suc (in_pos r)) (in_d r)))"
    using assms 0 by (simp add: rbits_def d byte_bits_32 w_def del: upt_Suc)
  then have e2: "b = bit w 0" "bs = map (bit (drop_bit 1 w)) [0..<7] @ concat (map byte_bits (drop (Suc (in_pos r)) (in_d r)))"
    unfolding bits_Suc by simp_all
  show thesis
    by (rule that [of "r\<lparr>in_pos := in_pos r + 1, in_buf := drop_bit 1 w, in_cnt := 7\<rparr>"])
      (use 0 p in \<open>simp_all add: getbit_def rbits_def uint_and_1 e2 w_def [symmetric] del: upt_Suc\<close>)
next
  case (Suc c)
  show thesis
    by (rule that [of "r\<lparr>in_buf := drop_bit 1 (in_buf r), in_cnt := c\<rparr>"])
      (use assms Suc in \<open>simp_all add: getbit_def rbits_def uint_and_1 bits_Suc del: upt_Suc\<close>)
qed

section \<open>The checksum\<close>

text \<open>The division by the polynomial, bit by bit.\<close>

definition crc_bit :: "u32 \<Rightarrow> bool \<Rightarrow> u32" where
  "crc_bit c b = crc_step (c XOR of_bool b)"

lemma crc_step_eq: "crc_step c = drop_bit 1 c XOR (if bit c 0 then 0xedb88320 else 0)"
proof -
  have "c AND 1 = of_bool (bit c 0)" by (simp add: and_one_eq bit_0 mod_2_eq_odd)
  then show ?thesis by (simp add: crc_step_def xor.commute)
qed

lemma crc_step_xor: "crc_step (a XOR b) = crc_step a XOR crc_step b"
  by (rule bit_word_eqI) (auto simp: crc_step_eq bit_simps)

lemma crc_steps_xor: "(crc_step ^^ n) (a XOR b) = (crc_step ^^ n) a XOR (crc_step ^^ n) b"
  by (induction n) (simp_all add: crc_step_xor)

text \<open>As long as the low bits are 0, a step is a shift.\<close>

lemma crc_steps_shift: "\<forall>i < n. \<not> bit c i \<Longrightarrow> (crc_step ^^ n) c = drop_bit n c"
proof (induction n)
  case (Suc n)
  then have "(crc_step ^^ n) c = drop_bit n c" "\<not> bit c n" by auto
  then show ?case by (simp add: crc_step_eq [of "drop_bit n c"] bit_simps)
qed simp

lemma crc_bits_steps:
  "foldl crc_bit c (map (bit v) [0..<n]) = (crc_step ^^ n) (c XOR take_bit n v)" for v :: u32
proof (induction n)
  case (Suc n)
  have p: "(crc_step ^^ n) (push_bit n (of_bool (bit v n))) = of_bool (bit v n)"
  proof (cases "n < 32")
    case True
    then show ?thesis using crc_steps_shift [of n "push_bit n (of_bool (bit v n))"]
      by (auto simp: bit_simps intro!: bit_word_eqI)
  qed (auto dest: bit_imp_le_length simp: crc_steps_shift)
  have t: "take_bit (Suc n) v = take_bit n v XOR push_bit n (of_bool (bit v n))"
    by (rule bit_word_eqI) (auto simp: bit_simps less_Suc_eq)
  have "foldl crc_bit c (map (bit v) [0..<Suc n]) =
      crc_step ((crc_step ^^ n) (c XOR take_bit n v) XOR of_bool (bit v n))"
    by (simp add: Suc.IH crc_bit_def)
  also have "\<dots> = crc_step ((crc_step ^^ n) ((c XOR take_bit n v) XOR push_bit n (of_bool (bit v n))))"
    by (simp only: crc_steps_xor p)
  finally show ?case by (simp add: t ac_simps)
qed simp

lemma crc_table_byte:
  "crc_init ! unat ((c XOR ucast b) AND 0xff) XOR drop_bit 8 c = foldl crc_bit c (byte_bits b)"
proof -
  let ?x = "c XOR ucast b :: u32"
  have n: "(0xff :: u32) = mask 8" by (simp add: mask_eq_exp_minus_1)
  have m: "?x AND 0xff = take_bit 8 ?x" by (simp add: n take_bit_eq_mask)
  have "unat (?x AND 0xff) < 256" unfolding m unat_take_bit by simp
  then have "crc_init ! unat (?x AND 0xff) = (crc_step ^^ 8) (?x AND 0xff)"
    by (simp add: crc_init_def del: upt_rec_numeral)
  moreover have "(crc_step ^^ 8) (?x AND NOT 0xff) = drop_bit 8 c"
  proof (subst crc_steps_shift)
    show "\<forall>i < 8. \<not> bit (?x AND NOT 0xff) i" unfolding n by (auto simp: bit_simps)
    show "drop_bit 8 (?x AND NOT 0xff) = drop_bit 8 c"
      unfolding n by (rule bit_word_eqI) (auto simp: bit_simps dest: bit_imp_le_length)
  qed
  ultimately have "crc_init ! unat (?x AND 0xff) XOR drop_bit 8 c = (crc_step ^^ 8) ((?x AND 0xff) XOR (?x AND NOT 0xff))"
    by (simp only: crc_steps_xor)
  also have "(?x AND 0xff) XOR (?x AND NOT 0xff) = ?x"
    unfolding n by (rule bit_word_eqI) (auto simp: bit_simps)
  also have "(crc_step ^^ 8) ?x = foldl crc_bit c (byte_bits b)"
  proof -
    have "take_bit 8 (ucast b) = (ucast b :: u32)"
      by (rule bit_word_eqI) (auto simp: bit_simps dest: bit_imp_le_length)
    then show ?thesis using crc_bits_steps [of c "ucast b" 8] by (simp add: byte_bits_32)
  qed
  finally show ?thesis .
qed

lemma crc_loop_bits: "crc_loop crc_init c p = foldl crc_bit c (concat (map byte_bits p))"
  by (induction p arbitrary: c) (simp_all add: crc_table_byte)

section \<open>Reading numbers\<close>

text \<open>The number with these bits, the lowest first, and with these bits, the highest first.\<close>

definition lsb_bits :: "nat \<Rightarrow> nat \<Rightarrow> bool list" where
  "lsb_bits v n = map (bit v) [0..<n]"

definition msb_bits :: "nat \<Rightarrow> nat \<Rightarrow> bool list" where
  "msb_bits v n = map (bit v) (rev [0..<n])"

lemma getbits_loop_bits:
  assumes "rbits r = map (bit v) [i..<n] @ bs" "i \<le> n"
  obtains r' where "getbits_loop [i..<n] (take_bit i (int v)) r = (take_bit n (int v), r')" "rbits r' = bs"
  using assms
proof (induction "n - i" arbitrary: i r thesis)
  case 0
  then show ?case by simp
next
  case (Suc k)
  then have u: "[i..<n] = i # [Suc i..<n]" by (simp add: upt_conv_Cons)
  obtain r1 where r1: "getbit r = (of_bool (bit v i), r1)" "rbits r1 = map (bit v) [Suc i..<n] @ bs"
    using getbit_Cons [of r "bit v i"] Suc.prems(2) by (auto simp: u)
  have t: "take_bit i (int v) OR push_bit i (of_bool (bit v i)) = take_bit (Suc i) (int v)"
    by (rule bit_eqI) (auto simp: bit_simps less_Suc_eq)
  have "k = n - Suc i" "Suc i \<le> n" using Suc.hyps Suc.prems by auto
  from Suc.hyps(1) [OF this(1) _ r1(2) this(2)] obtain r2 where
    "getbits_loop [Suc i..<n] (take_bit (Suc i) (int v)) r1 = (take_bit n (int v), r2)" "rbits r2 = bs"
    by metis
  then show ?case using Suc.prems(1) [of r2] r1 t by (simp add: u)
qed

lemma getbits_bits:
  assumes "rbits r = lsb_bits v n @ bs" "v < 2 ^ n"
  obtains r' where "getbits n r = (int v, r')" "rbits r' = bs"
proof -
  obtain r' where "getbits_loop [0..<n] (take_bit 0 (int v)) r = (take_bit n (int v), r')" "rbits r' = bs"
    using getbits_loop_bits [of r v 0 n bs] assms(1) by (auto simp: lsb_bits_def)
  moreover have "take_bit n (int v) = int v" using assms(2)
    by (metis of_nat_take_bit take_bit_nat_eq_self)
  ultimately show thesis using that by (simp add: getbits_def)
qed

lemma push_or: "push_bit 1 c OR of_bool b = 2 * c + of_bool b" for c :: int
  by (cases b) (simp_all add: or_one_eq push_bit_double)

lemma shift_in: "2 * int (v div 2 ^ Suc m) OR of_bool (bit v m) = int (v div 2 ^ m)"
proof -
  have "v div 2 ^ Suc m = v div 2 ^ m div 2" by (simp add: div_mult2_eq mult.commute [of 2])
  then have "v div 2 ^ m = 2 * (v div 2 ^ Suc m) + of_bool (odd (v div 2 ^ m))"
    by (cases "odd (v div 2 ^ m)") (simp_all only: of_bool_eq even_two_times_div_two odd_two_times_div_two_succ
        not_False_eq_True not_True_eq_False add_0_right not_not)
  then have "int (v div 2 ^ m) = int (2 * (v div 2 ^ Suc m) + of_bool (odd (v div 2 ^ m)))"
    by (rule arg_cong)
  then show ?thesis using push_or [of "int (v div 2 ^ Suc m)" "bit v m"]
    by (simp only: bit_iff_odd of_nat_add of_nat_mult of_nat_numeral of_nat_of_bool push_bit_double push_bit_0_id id_apply
        push_bit_eq_mult power_one_right mult.commute [of _ 2])
qed

section \<open>Symbols\<close>

text \<open>One code length that symbols have, with the number read so far.\<close>

lemma decode_step:
  assumes "rbits r = bit v k # bs" "c = 2 * int (v div 2 ^ Suc k)"
  obtains r' where "rbits r' = bs"
    "decode_loop h (len # ls) c first index r =
       (let code = int (v div 2 ^ k); count = int (hcount h ! len)
        in if code - first < count
           then (let j = index + (code - first)
             in if j < 0 \<or> j \<ge> 288 then Inl Overrun
                else case hsym h ! nat j of None \<Rightarrow> Inl Overrun | Some s \<Rightarrow> Inr (s, r'))
           else decode_loop h ls (2 * code) (2 * (first + count)) (index + count) r')"
proof -
  obtain r1 where r1: "getbit r = (of_bool (bit v k), r1)" "rbits r1 = bs"
    using getbit_Cons [OF assms(1)] by blast
  show thesis
    by (rule that [OF r1(2)], simp only: decode_loop.simps r1(1) prod.case assms(2) shift_in Let_def)
      (simp add: push_bit_double mult.commute [of _ 2])
qed

lemma decode_miss:
  assumes "rbits r = bit v k # bs" "int (hcount h ! len) \<le> int (v div 2 ^ k) - first"
  obtains r' where "rbits r' = bs"
    "decode_loop h (len # ls) (2 * int (v div 2 ^ Suc k)) first index r =
     decode_loop h ls (2 * int (v div 2 ^ k)) (2 * (first + int (hcount h ! len))) (index + int (hcount h ! len)) r'"
  by (rule decode_step [OF assms(1) refl, of h len ls first index]) (use assms(2) that in \<open>simp add: Let_def\<close>)

lemma decode_hit:
  assumes "rbits r = bit v k # bs" "int (v div 2 ^ k) - first < int (hcount h ! len)"
    "index + (int (v div 2 ^ k) - first) = int j" "j < 288" "hsym h ! j = Some s"
  obtains r' where "rbits r' = bs"
    "decode_loop h (len # ls) (2 * int (v div 2 ^ Suc k)) first index r = Inr (s, r')"
  by (rule decode_step [OF assms(1) refl, of h len ls first index]) (use assms that in \<open>simp add: Let_def\<close>)

text \<open>A run of the decoder over code lengths that no symbol has: the bits just gather.\<close>

lemma decode_skip:
  assumes "rbits r = map (bit v) (rev [k..<n]) @ bs" "\<forall>len \<in> set ls. hcount h ! len = 0" "length ls = n - k" "k \<le> n"
  obtains r' where "decode_loop h (ls @ ls') (2 * int (v div 2 ^ n)) 0 0 r = decode_loop h ls' (2 * int (v div 2 ^ k)) 0 0 r'"
    "rbits r' = bs"
  using assms
proof (induction ls arbitrary: n r thesis)
  case Nil
  then show ?case by simp
next
  case (Cons l ls)
  define m where "m = n - 1"
  have n: "n = Suc m" "k \<le> m" using Cons.prems(4,5) by (auto simp: m_def)
  obtain r1 where r1: "rbits r1 = map (bit v) (rev [k..<m]) @ bs"
    "decode_loop h (l # ls @ ls') (2 * int (v div 2 ^ n)) 0 0 r = decode_loop h (ls @ ls') (2 * int (v div 2 ^ m)) 0 0 r1"
    using decode_step [of r v m _ "2 * int (v div 2 ^ n)" h l "ls @ ls'" 0 0] Cons.prems(2,3) n
    by (simp add: Let_def del: decode_loop.simps power_Suc) metis
  have "length ls = m - k" using Cons.prems(4) n by simp
  then obtain r' where "rbits r' = bs"
    "decode_loop h (ls @ ls') (2 * int (v div 2 ^ m)) 0 0 r1 = decode_loop h ls' (2 * int (v div 2 ^ k)) 0 0 r'"
    using Cons.IH [OF _ r1(1)] Cons.prems(3) n by auto
  then show ?case using Cons.prems(1) [of r'] r1(2) by (simp del: decode_loop.simps)
qed

subsection \<open>The tables of the fixed code\<close>

lemma count_lens_replicate:
  "l < 16 \<Longrightarrow> length c = 16 \<Longrightarrow> count_lens (replicate k l @ lens) c = count_lens lens (c[l := c ! l + k])"
  by (induction k arbitrary: c) simp_all

lemma place_syms_replicate:
  assumes "l \<noteq> 0" "l < length offs" "offs ! l + k \<le> 288" "length syms = 288"
  shows "place_syms i (replicate k l @ lens) offs syms =
    place_syms (i + k) lens (offs[l := offs ! l + k])
      (take (offs ! l) syms @ map Some [i..<i + k] @ drop (offs ! l + k) syms)"
  using assms
proof (induction k arbitrary: i offs syms)
  case (Suc k)
  let ?a = "offs ! l"
  have "take (Suc ?a) (syms[?a := Some i]) = take ?a syms @ [Some i]"
    using Suc.prems by (simp add: take_Suc_conv_app_nth)
  moreover have "[i..<i + Suc k] = i # [Suc i..<Suc i + k]" by (simp add: upt_conv_Cons)
  ultimately show ?case
    using Suc.prems Suc.IH [of "offs[l := Suc ?a]" "syms[?a := Some i]" "Suc i"]
    by (simp del: upt_Suc)
qed simp

definition fixed_lh :: huff where
  "fixed_lh = \<lparr>hcount = [0, 0, 0, 0, 0, 0, 0, 24, 152, 112, 0, 0, 0, 0, 0, 0],
     hsym = map Some ([256..<280] @ [0..<144] @ [280..<288] @ [144..<256])\<rparr>"

definition fixed_dh :: huff where
  "fixed_dh = \<lparr>hcount = [0, 0, 0, 0, 0, 30, 0, 0, 0, 0, 0, 0, 0, 0, 0, 0],
     hsym = map Some [0..<30] @ replicate 258 None\<rparr>"

lemma huff_build_fixed_dl: "huff_build fixed_dl = Inr fixed_dh"
  by code_simp

lemma fixed_ll_runs: "fixed_ll = replicate 144 8 @ replicate 112 9 @ replicate 24 7 @ replicate 8 8 @ []"
  by (simp add: fixed_ll_def)

lemma fixed_counts: "count_lens fixed_ll (replicate 16 0) = Some (hcount fixed_lh)"
  unfolding fixed_ll_runs by ((subst count_lens_replicate, simp, simp)+, code_simp)

lemma fixed_offsets: "offsets (hcount fixed_lh) = [0, 0, 0, 0, 0, 0, 0, 0, 24, 176, 288, 288, 288, 288, 288, 288]"
  by code_simp

lemma fixed_places:
  "place_syms 0 fixed_ll (offsets (hcount fixed_lh)) (replicate 288 None) = Some (hsym fixed_lh)"
  unfolding fixed_ll_runs fixed_offsets
  by (simp add: place_syms_replicate place_syms_replicate [where lens = "[]", simplified append_Nil2] fixed_lh_def)

lemma huff_build_fixed_ll: "huff_build fixed_ll = Inr fixed_lh"
  using fixed_counts fixed_places by (simp add: huff_build_def fixed_lh_def Let_def)

subsection \<open>Code words\<close>

text \<open>The word of a symbol (RFC 1951, 3.2.6).\<close>

definition fixed_word :: "nat \<Rightarrow> bool list" where
  "fixed_word s =
     (if s < 144 then msb_bits (0x30 + s) 8 else if s < 256 then msb_bits (0x190 + (s - 144)) 9
      else if s < 280 then msb_bits (s - 256) 7 else msb_bits (0xc0 + (s - 280)) 8)"

lemma msb_bits_split: "k \<le> n \<Longrightarrow> msb_bits v n = map (bit v) (rev [k..<n]) @ msb_bits v k"
  using upt_add_eq_append [of 0 k "n - k"] by (simp add: msb_bits_def)

lemma decode_from:
  assumes "rbits r = msb_bits v n @ bs" "k \<le> n" "v < 2 ^ n" "\<forall>len \<in> {1..<n - k + 1}. hcount h ! len = 0" "n - k < 15"
  obtains r' where "huff_decode h r = decode_loop h [n - k + 1..<16] (2 * int (v div 2 ^ k)) 0 0 r'"
    "rbits r' = msb_bits v k @ bs"
proof -
  have u: "[1..<16] = [1..<n - k + 1] @ [n - k + 1..<16]"
    using upt_add_eq_append [of 1 "n - k + 1" "16 - (n - k + 1)"] assms(5) by simp
  have r: "rbits r = map (bit v) (rev [k..<n]) @ msb_bits v k @ bs"
    using assms(1) msb_bits_split [OF assms(2)] by simp
  obtain r' where "decode_loop h ([1..<n - k + 1] @ [n - k + 1..<16]) (2 * int (v div 2 ^ n)) 0 0 r =
      decode_loop h [n - k + 1..<16] (2 * int (v div 2 ^ k)) 0 0 r'" "rbits r' = msb_bits v k @ bs"
    by (rule decode_skip [OF r, of "[1..<n - k + 1]" h "[n - k + 1..<16]"]) (use assms in auto)
  then show thesis using that assms(3) unfolding huff_decode_def u by simp
qed

lemma msb_bits_Suc: "msb_bits v (Suc k) = bit v k # msb_bits v k"
  by (simp add: msb_bits_def)

text \<open>The three lengths of the literal and length code.\<close>

lemma fixed_lh_sym:
  "k < 24 \<Longrightarrow> hsym fixed_lh ! k = Some (256 + k)"
  "k < 144 \<Longrightarrow> hsym fixed_lh ! (24 + k) = Some k"
  "k < 8 \<Longrightarrow> hsym fixed_lh ! (168 + k) = Some (280 + k)"
  "k < 112 \<Longrightarrow> hsym fixed_lh ! (176 + k) = Some (144 + k)"
  by (simp_all add: fixed_lh_def nth_append del: upt_Suc upt_rec_numeral map_append)

lemma fixed_lh_count: "hcount fixed_lh ! 7 = 24" "hcount fixed_lh ! 8 = 152" "hcount fixed_lh ! 9 = 112"
  "\<forall>len \<in> {1..<7}. hcount fixed_lh ! len = 0"
  by (simp_all add: fixed_lh_def) code_simp

lemma upt_7_16: "[7..<16] = 7 # 8 # 9 # [10..<16]"
  by (simp add: upt_rec_numeral)

lemma decode_to_7:
  assumes "rbits r = msb_bits v (7 + k) @ bs" "v < 2 ^ (7 + k)"
  obtains r' where "huff_decode fixed_lh r = decode_loop fixed_lh (7 # 8 # 9 # [10..<16]) (2 * int (v div 2 ^ Suc k)) 0 0 r'"
    "rbits r' = bit v k # msb_bits v k @ bs"
proof -
  have e: "7 + k - Suc k + 1 = 7" by simp
  show thesis
    by (rule decode_from [of r v "7 + k" bs "Suc k" fixed_lh, unfolded e upt_7_16 msb_bits_Suc append_Cons])
      (use assms fixed_lh_count(4) that in auto)
qed

lemma decode_word_7:
  assumes "rbits r = msb_bits v 7 @ bs" "v < 24"
  obtains r' where "huff_decode fixed_lh r = Inr (256 + v, r')" "rbits r' = bs"
proof -
  obtain r1 where r1: "huff_decode fixed_lh r = decode_loop fixed_lh (7 # 8 # 9 # [10..<16]) (2 * int (v div 2 ^ Suc 0)) 0 0 r1"
    "rbits r1 = bit v 0 # bs"
    by (rule decode_to_7 [of r v 0 bs]) (use assms in \<open>auto simp: msb_bits_def\<close>)
  show thesis
    by (rule decode_hit [OF r1(2), of 0 fixed_lh 7 0 v "256 + v" "8 # 9 # [10..<16]"])
      (use r1(1) that assms(2) in \<open>simp_all add: fixed_lh_count fixed_lh_sym\<close>)
qed

lemma decode_word_8:
  assumes "rbits r = msb_bits (48 + v) 8 @ bs" "v < 152"
  obtains r' where "huff_decode fixed_lh r = Inr (if v < 144 then v else 136 + v, r')" "rbits r' = bs"
proof -
  let ?v = "48 + v"
  obtain r1 where r1: "huff_decode fixed_lh r = decode_loop fixed_lh (7 # 8 # 9 # [10..<16]) (2 * int (?v div 2 ^ Suc 1)) 0 0 r1"
    "rbits r1 = bit ?v 1 # bit ?v 0 # bs"
    by (rule decode_to_7 [of r ?v 1 bs]) (use assms in \<open>auto simp: msb_bits_def\<close>)
  obtain r2 where r2: "rbits r2 = bit ?v 0 # bs" "huff_decode fixed_lh r =
      decode_loop fixed_lh (8 # 9 # [10..<16]) (2 * int (?v div 2 ^ Suc 0)) 48 24 r2"
    by (rule decode_miss [OF r1(2), of fixed_lh 7 0 "8 # 9 # [10..<16]" 0])
      (use r1(1) in \<open>simp_all add: fixed_lh_count\<close>)
  have h: "hsym fixed_lh ! (24 + v) = Some (if v < 144 then v else 136 + v)"
    using fixed_lh_sym(2) [of v] fixed_lh_sym(3) [of "v - 144"] assms(2) by auto
  show thesis
    by (rule decode_hit [OF r2(1), of 48 fixed_lh 8 24 "24 + v" _ "9 # [10..<16]", OF _ _ _ h])
      (use r2(2) that assms(2) in \<open>simp_all add: fixed_lh_count\<close>)
qed

lemma decode_word_9:
  assumes "rbits r = msb_bits (400 + v) 9 @ bs" "v < 112"
  obtains r' where "huff_decode fixed_lh r = Inr (144 + v, r')" "rbits r' = bs"
proof -
  let ?v = "400 + v"
  obtain r1 where r1: "huff_decode fixed_lh r = decode_loop fixed_lh (7 # 8 # 9 # [10..<16]) (2 * int (?v div 2 ^ Suc (Suc 1))) 0 0 r1"
    "rbits r1 = bit ?v (Suc 1) # bit ?v 1 # bit ?v 0 # bs"
    by (rule decode_to_7 [of r ?v "Suc 1" bs]) (use assms in \<open>auto simp: msb_bits_def\<close>)
  obtain r2 where r2: "rbits r2 = bit ?v 1 # bit ?v 0 # bs" "huff_decode fixed_lh r =
      decode_loop fixed_lh (8 # 9 # [10..<16]) (2 * int (?v div 2 ^ Suc 1)) 48 24 r2"
    by (rule decode_miss [OF r1(2), of fixed_lh 7 0 "8 # 9 # [10..<16]" 0])
      (use r1(1) in \<open>simp_all add: fixed_lh_count\<close>)
  obtain r3 where r3: "rbits r3 = bit ?v 0 # bs" "huff_decode fixed_lh r =
      decode_loop fixed_lh (9 # [10..<16]) (2 * int (?v div 2 ^ Suc 0)) 400 176 r3"
    by (rule decode_miss [OF r2(1), of fixed_lh 8 48 "9 # [10..<16]" 24])
      (use r2(2) in \<open>simp_all add: fixed_lh_count\<close>)
  show thesis
    by (rule decode_hit [OF r3(1), of 400 fixed_lh 9 176 "176 + v" "144 + v" "[10..<16]"])
      (use r3(2) that assms(2) in \<open>simp_all add: fixed_lh_count fixed_lh_sym\<close>)
qed

lemma decode_word:
  assumes "rbits r = fixed_word s @ bs" "s < 288"
  obtains r' where "huff_decode fixed_lh r = Inr (s, r')" "rbits r' = bs"
proof -
  consider "s < 144" | "144 \<le> s" "s < 256" | "256 \<le> s" "s < 280" | "280 \<le> s" by linarith
  then show thesis
  proof cases
    case 1
    show thesis by (rule decode_word_8 [of r s bs]) (use assms 1 that in \<open>simp_all add: fixed_word_def\<close>)
  next
    case 2
    show thesis by (rule decode_word_9 [of r "s - 144" bs]) (use assms 2 that in \<open>simp_all add: fixed_word_def\<close>)
  next
    case 3
    show thesis by (rule decode_word_7 [of r "s - 256" bs]) (use assms 3 that in \<open>simp_all add: fixed_word_def\<close>)
  next
    case 4
    have h: "192 + (s - 280) = 48 + (s - 136)" using 4 by simp
    show thesis
      by (rule decode_word_8 [of r "s - 136" bs]) (use assms 4 that h in \<open>simp_all add: fixed_word_def\<close>)
  qed
qed

lemma decode_dist_word:
  assumes "rbits r = msb_bits s 5 @ bs" "s < 30"
  obtains r' where "huff_decode fixed_dh r = Inr (s, r')" "rbits r' = bs"
proof -
  have c: "\<forall>len \<in> {1..<5 - Suc 0 + 1}. hcount fixed_dh ! len = 0" by code_simp
  have u: "[5..<16] = 5 # [6..<16]" by (simp add: upt_rec_numeral)
  obtain r1 where r1: "huff_decode fixed_dh r = decode_loop fixed_dh (5 # [6..<16]) (2 * int (s div 2 ^ Suc 0)) 0 0 r1"
    "rbits r1 = bit s 0 # bs"
    by (rule decode_from [OF assms(1) _ _ c]) (use assms(2) in \<open>auto simp: u msb_bits_def\<close>)
  have h: "hcount fixed_dh ! 5 = 30" "hsym fixed_dh ! s = Some s"
    using assms(2) by (simp_all add: fixed_dh_def nth_append del: upt_rec_numeral)
  show thesis
    by (rule decode_hit [OF r1(2), of 0 fixed_dh 5 0 s s "[6..<16]"])
      (use r1(1) that assms(2) h in simp_all)
qed

section \<open>The writer\<close>

text \<open>What a writer has written, and that nothing is left over above the bits it gathers.\<close>

definition wbits :: "bitw \<Rightarrow> bool list" where
  "wbits w = concat (map byte_bits (buf_d (wb w))) @ map (bit (w_buf w)) [0..<w_cnt w]"

definition w_ok :: "bitw \<Rightarrow> bool" where
  "w_ok w \<longleftrightarrow> w_cnt w < 8 \<and> (\<forall>i \<ge> w_cnt w. \<not> bit (w_buf w) i)"

definition emits :: "(bitw \<Rightarrow> bitw) \<Rightarrow> bool list \<Rightarrow> bool" where
  "emits f bs \<longleftrightarrow> (\<forall>w. w_ok w \<longrightarrow> w_ok (f w) \<and> wbits (f w) = wbits w @ bs)"

lemma emits_comp: "emits f bs \<Longrightarrow> emits g cs \<Longrightarrow> emits (\<lambda>w. g (f w)) (bs @ cs)"
  by (simp add: emits_def)

lemma bit_of_and_1: "bit (of_int (b AND 1) :: u32) n \<longleftrightarrow> n = 0 \<and> odd b"
  by (cases "odd b") (auto simp: and_one_eq odd_iff_mod_2_eq_one bit_simps)

lemma putbit_emits: "emits (putbit b) [odd b]"
  unfolding emits_def
proof (intro allI impI)
  fix w assume w: "w_ok w"
  define v where "v = w_buf w OR push_bit (w_cnt w) (of_int (b AND 1))"
  have v: "bit v i = (if i < w_cnt w then bit (w_buf w) i else i = w_cnt w \<and> odd b)" for i
    using w by (auto simp: v_def w_ok_def bit_simps bit_of_and_1 bit_0)
  then have m: "map (bit v) [0..<Suc (w_cnt w)] = map (bit (w_buf w)) [0..<w_cnt w] @ [odd b]" by simp
  show "w_ok (putbit b w) \<and> wbits (putbit b w) = wbits w @ [odd b]"
  proof (cases "Suc (w_cnt w) = 8")
    case True
    then have "byte_bits (ucast v) = map (bit v) [0..<Suc (w_cnt w)]"
      by (simp add: byte_bits_def bit_simps del: upt_Suc)
    then show ?thesis using True m
      by (simp add: putbit_def Let_def v_def w_ok_def wbits_def bput_def del: upt_Suc)
  next
    case False
    then show ?thesis using w m v
      by (simp add: putbit_def Let_def v_def [symmetric] w_ok_def wbits_def del: upt_Suc)
  qed
qed

lemma fold_putbit_emits: "emits (fold (\<lambda>i. putbit (drop_bit i (int v) AND 1)) is) (map (bit v) is)"
proof (induction "is")
  case (Cons i "is")
  have "odd (drop_bit i (int v) AND 1) = bit v i"
    by (simp add: and_one_eq bit_iff_odd_drop_bit flip: of_nat_drop_bit)
  then show ?case
    using emits_comp [OF putbit_emits Cons.IH, of "drop_bit i (int v) AND 1"] by (simp add: comp_def)
qed (simp add: emits_def)

lemma putbits_emits: "emits (putbits v n) (lsb_bits v n)"
  unfolding putbits_def lsb_bits_def by (rule fold_putbit_emits)

lemma putbits_rev_emits: "emits (putbits_rev v n) (msb_bits v n)"
  unfolding putbits_rev_def msb_bits_def by (rule fold_putbit_emits)

lemma flush_bits_padding:
  assumes "w_ok w"
  obtains k where "concat (map byte_bits (buf_d (wb (flush_bits w)))) = wbits w @ replicate k False"
proof (cases "w_cnt w = 0")
  case True
  then show thesis using that [of 0] by (simp add: flush_bits_def wbits_def)
next
  case False
  have u: "[0..<8] = [0..<w_cnt w] @ [w_cnt w..<8]"
    using upt_add_eq_append [of 0 "w_cnt w" "8 - w_cnt w"] assms by (simp add: w_ok_def)
  have "byte_bits (ucast (w_buf w)) = map (bit (w_buf w)) ([0..<w_cnt w] @ [w_cnt w..<8])"
    by (simp add: byte_bits_def bit_simps flip: u)
  also have "\<dots> = map (bit (w_buf w)) [0..<w_cnt w] @ replicate (8 - w_cnt w) False"
    using assms by (auto simp: w_ok_def intro!: nth_equalityI)
  finally show thesis using False that [of "8 - w_cnt w"] by (simp add: flush_bits_def wbits_def bput_def)
qed

lemma emit_lit_emits: "lit < 256 \<Longrightarrow> emits (emit_lit lit) (fixed_word lit)"
  using putbits_rev_emits by (auto simp: emit_lit_def fixed_word_def)

section \<open>Lengths and distances\<close>

lemma base_search_finds:
  assumes "0 < k" "base ! 0 \<le> v" "v < base ! (k - 1) + 2 ^ (extra ! (k - 1))"
    "\<forall>s < k - 1. base ! Suc s \<le> base ! s + 2 ^ (extra ! s)"
  shows "\<exists>s e. base_search base extra (rev [0..<k]) v = (s, e, extra ! s) \<and> s < k \<and> e < 2 ^ (extra ! s) \<and>
    base ! s + e = v"
  using assms
proof (induction k)
  case (Suc k)
  show ?case
  proof (cases "base ! k \<le> v")
    case False
    then have k: "0 < k" using Suc.prems(2) by (cases k) auto
    then have "base ! k \<le> base ! (k - 1) + 2 ^ (extra ! (k - 1))" using Suc.prems(4) by (cases k) auto
    then have "v < base ! (k - 1) + 2 ^ (extra ! (k - 1))" using False by linarith
    then show ?thesis using Suc.IH [OF k Suc.prems(2)] Suc.prems(4) False k by (auto simp: less_Suc_eq)
  qed (use Suc.prems in \<open>auto\<close>)
qed simp

lemma len_tables: "s < 28 \<Longrightarrow> len_base ! Suc s \<le> len_base ! s + 2 ^ (len_extra ! s)"
proof -
  have "list_all (\<lambda>s. len_base ! Suc s \<le> len_base ! s + 2 ^ (len_extra ! s)) [0..<28]"
    by (simp add: len_base_def len_extra_def upt_rec [of 0] upt_rec [of "Suc 0"] numeral_2_eq_2 [symmetric])
  then show "s < 28 \<Longrightarrow> ?thesis" by (simp only: list_all_iff set_upt atLeastLessThan_iff) simp
qed

lemma dist_tables: "s < 29 \<Longrightarrow> dist_base ! Suc s \<le> dist_base ! s + 2 ^ (dist_extra ! s)"
proof -
  have "list_all (\<lambda>s. dist_base ! Suc s \<le> dist_base ! s + 2 ^ (dist_extra ! s)) [0..<29]"
    by (simp add: dist_base_def dist_extra_def upt_rec [of 0] upt_rec [of "Suc 0"] numeral_2_eq_2 [symmetric])
  then show "s < 29 \<Longrightarrow> ?thesis" by (simp only: list_all_iff set_upt atLeastLessThan_iff) simp
qed

lemma len_sym_finds:
  assumes "3 \<le> len" "len \<le> 258"
  obtains s e where "len_sym len = (257 + s, e, len_extra ! s)" "s < 29" "e < 2 ^ (len_extra ! s)" "len_base ! s + e = len"
  using base_search_finds [of 29 len_base len len_extra] assms len_tables
  by (auto simp: len_sym_def len_base_def len_extra_def split: prod.splits)

lemma dist_sym_finds:
  assumes "1 \<le> dist" "dist \<le> 32768"
  obtains s e where "dist_sym dist = (s, e, dist_extra ! s)" "s < 30" "e < 2 ^ (dist_extra ! s)" "dist_base ! s + e = dist"
  using base_search_finds [of 30 dist_base dist dist_extra] assms dist_tables
  by (auto simp: dist_sym_def dist_base_def dist_extra_def)

text \<open>The bits of a match.\<close>

definition match_bits :: "nat \<Rightarrow> nat \<Rightarrow> bool list" where
  "match_bits len dist =
     (case len_sym len of (s, e, n) \<Rightarrow> fixed_word s @ lsb_bits e n) @
     (case dist_sym dist of (s, e, n) \<Rightarrow> msb_bits s 5 @ lsb_bits e n)"

lemma emit_match_emits:
  assumes "3 \<le> len" "len \<le> 258"
  shows "emits (\<lambda>w. emit_dist dist (emit_len len w)) (match_bits len dist)"
proof -
  obtain s e where s: "len_sym len = (257 + s, e, len_extra ! s)" "s < 29" by (rule len_sym_finds [OF assms])
  obtain t f m where t: "dist_sym dist = (t, f, m)" by (cases "dist_sym dist")
  let ?head = "if 257 + s \<le> 279 then putbits_rev (257 + s - 256) 7 else putbits_rev (0xc0 + (257 + s - 280)) 8"
  have "emits ?head (fixed_word (257 + s))"
    using putbits_rev_emits by (auto simp: fixed_word_def)
  then have "emits (\<lambda>w. putbits e (len_extra ! s) (?head w)) (fixed_word (257 + s) @ lsb_bits e (len_extra ! s))"
    by (rule emits_comp) (rule putbits_emits)
  moreover have "emits (\<lambda>w. putbits f m (putbits_rev t 5 w)) (msb_bits t 5 @ lsb_bits f m)"
    by (rule emits_comp [OF putbits_rev_emits putbits_emits])
  ultimately have "emits (\<lambda>w. putbits f m (putbits_rev t 5 (putbits e (len_extra ! s) (?head w)))) (match_bits len dist)"
    using emits_comp by (fastforce simp: match_bits_def s t)
  then show ?thesis by (simp add: emit_len_def [abs_def] emit_dist_def [abs_def] s t if_distrib [of "\<lambda>f. f w" for w] cong: if_cong)
qed

section \<open>The decoder on what the encoder writes\<close>

lemma inflate_literal:
  assumes "rbits r = fixed_word s @ bs" "s < 256"
  obtains r' where "inflate_block fixed_lh fixed_dh r out = inflate_block fixed_lh fixed_dh r' (bput (of_nat s) out)"
    "rbits r' = bs"
proof -
  obtain r' where "huff_decode fixed_lh r = Inr (s, r')" "rbits r' = bs"
    by (rule decode_word [OF assms(1)]) (use assms(2) in auto)
  then show thesis using that [of r'] assms(2) by (simp add: inflate_block.simps [of fixed_lh fixed_dh r])
qed

lemma inflate_end:
  assumes "rbits r = fixed_word 256 @ bs"
  obtains r' where "inflate_block fixed_lh fixed_dh r out = Inr (r', out)"
proof -
  obtain r' where "huff_decode fixed_lh r = Inr (256, r')" by (rule decode_word [OF assms]) auto
  then show thesis using that [of r'] by (simp add: inflate_block.simps [of fixed_lh fixed_dh r])
qed

text \<open>Copying a match gives the bytes that follow, also where the match overlaps them.\<close>

lemma copy_match_copies:
  assumes "buf_d out = take i d" "1 \<le> dist" "dist \<le> i" "i + k \<le> length d" "\<forall>l < k. d ! (i - dist + l) = d ! (i + l)"
  obtains out' where "copy_match k dist out = Inr out'" "buf_d out' = take (i + k) d"
  using assms
proof (induction k arbitrary: i out thesis)
  case (Suc k)
  let ?o = "bput (d ! (i - dist)) out"
  have "d ! (i - dist) = d ! i" using Suc.prems(6) by force
  then have o: "buf_d ?o = take (Suc i) d"
    using Suc.prems by (simp add: bput_def take_Suc_conv_app_nth)
  have "\<forall>l < k. d ! (Suc i - dist + l) = d ! (Suc i + l)"
  proof (intro allI impI)
    fix l assume "l < k"
    then have "d ! (i - dist + Suc l) = d ! (i + Suc l)" using Suc.prems(6) by blast
    then show "d ! (Suc i - dist + l) = d ! (Suc i + l)" using Suc.prems(4) by (simp add: Suc_diff_le)
  qed
  then obtain out' where "copy_match k dist ?o = Inr out'" "buf_d out' = take (Suc i + k) d"
    using Suc.IH [OF _ o] Suc.prems by auto
  moreover have "length (buf_d out) = i" "buf_d out ! (i - dist) = d ! (i - dist)" using Suc.prems by auto
  ultimately show ?case using Suc.prems(1) [of out'] Suc.prems(3,4) by simp
qed simp

lemma inflate_match:
  assumes r: "rbits r = match_bits len dist @ bs" and len: "3 \<le> len" "len \<le> 258" and dist: "1 \<le> dist" "dist \<le> 32768"
    and out: "buf_d out = take i d" "dist \<le> i" "i + len \<le> length d" "\<forall>l < len. d ! (i - dist + l) = d ! (i + l)"
  obtains r' out' where "inflate_block fixed_lh fixed_dh r out = inflate_block fixed_lh fixed_dh r' out'"
    "rbits r' = bs" "buf_d out' = take (i + len) d"
proof -
  obtain s e where s: "len_sym len = (257 + s, e, len_extra ! s)" "s < 29" "e < 2 ^ (len_extra ! s)" "len_base ! s + e = len"
    by (rule len_sym_finds [OF len])
  obtain t f where t: "dist_sym dist = (t, f, dist_extra ! t)" "t < 30" "f < 2 ^ (dist_extra ! t)" "dist_base ! t + f = dist"
    by (rule dist_sym_finds [OF dist])
  have b: "rbits r = fixed_word (257 + s) @ lsb_bits e (len_extra ! s) @ msb_bits t 5 @ lsb_bits f (dist_extra ! t) @ bs"
    using r by (simp add: match_bits_def s t)
  obtain r1 where r1: "huff_decode fixed_lh r = Inr (257 + s, r1)"
    "rbits r1 = lsb_bits e (len_extra ! s) @ msb_bits t 5 @ lsb_bits f (dist_extra ! t) @ bs"
    by (rule decode_word [OF b]) (use s in auto)
  obtain r2 where r2: "getbits (len_extra ! s) r1 = (int e, r2)" "rbits r2 = msb_bits t 5 @ lsb_bits f (dist_extra ! t) @ bs"
    by (rule getbits_bits [OF r1(2) s(3)])
  obtain r3 where r3: "huff_decode fixed_dh r2 = Inr (t, r3)" "rbits r3 = lsb_bits f (dist_extra ! t) @ bs"
    by (rule decode_dist_word [OF r2(2) t(2)])
  obtain r4 where r4: "getbits (dist_extra ! t) r3 = (int f, r4)" "rbits r4 = bs"
    by (rule getbits_bits [OF r3(2) t(3)])
  have n: "nat (int (len_base ! s) + int e) = len" "int (dist_base ! t) + int f = int dist" "length (buf_d out) = i"
    using s t out by auto
  obtain out' where "copy_match len dist out = Inr out'" "buf_d out' = take (i + len) d"
    by (rule copy_match_copies [OF out(1) dist(1) out(2-4)])
  then show thesis
    using that [of r4 out'] r1(1) r2(1) r3(1) r4 s(2) t(2) n out(2)
    by (simp add: inflate_block.simps [of fixed_lh fixed_dh r] Let_def)
qed

section \<open>The search for matches\<close>

text \<open>
  What the encoder knows when it stands at position \<open>i\<close>: the chains lead backwards, through positions whose
  element of \<open>prev\<close> has been written.
\<close>

definition chains_ok :: "bytes \<Rightarrow> nat \<Rightarrow> chains \<Rightarrow> bool" where
  "chains_ok d i c \<longleftrightarrow> length (head c) = HASHSIZE \<and> length (prev c) = max 1 (length d) \<and>
     (\<forall>h < HASHSIZE. head c ! h < int i \<and> (0 \<le> head c ! h \<longrightarrow> head c ! h + 3 \<le> int (length d))) \<and>
     (\<forall>p < i. p + 3 \<le> length d \<longrightarrow> (\<exists>q. prev c ! p = Some q \<and> q < int p))"

text \<open>A candidate: none yet, or a match.\<close>

definition good_match :: "bytes \<Rightarrow> nat \<Rightarrow> nat \<times> nat \<Rightarrow> bool" where
  "good_match d i best \<longleftrightarrow> (case best of (len, dist) \<Rightarrow> len = 0 \<or>
     1 \<le> dist \<and> dist \<le> i \<and> dist \<le> 32768 \<and> len \<le> 258 \<and> i + len \<le> length d \<and>
     (\<forall>l < len. d ! (i - dist + l) = d ! (i + l)))"

lemma match_len_spec:
  assumes "l \<le> 258" "i + l \<le> length d" "\<forall>k < l. d ! (j + k) = d ! (i + k)"
  shows "match_len d i j l \<le> 258 \<and> i + match_len d i j l \<le> length d \<and>
    (\<forall>k < match_len d i j l. d ! (j + k) = d ! (i + k))"
  using assms
proof (induction d i j l rule: match_len.induct)
  case (1 d i j l)
  then show ?case by (simp add: match_len.simps [of d i j l] less_Suc_eq)
qed

lemma good_match_found:
  assumes "0 \<le> j" "j < int i" "int i - j \<le> WSIZE" "i \<le> length d"
  shows "good_match d i (match_len d i (nat j) 0, nat (int i - j))"
proof -
  have "i - nat (int i - j) = nat j" using assms by simp
  then show ?thesis using match_len_spec [of 0 i d "nat j"] assms
    by (auto simp: good_match_def WSIZE_def)
qed

lemma find_match_good:
  assumes c: "chains_ok d i c" and i: "i \<le> length d"
    and j: "j < int i" "0 \<le> j \<longrightarrow> j + 3 \<le> int (length d)" and b: "good_match d i best"
  shows "\<exists>best'. find_match d c i fuel j best = Inr best' \<and> good_match d i best'"
  using j b
proof (induction fuel arbitrary: j best)
  case 0
  then show ?case by (cases best) simp
next
  case (Suc fuel)
  obtain bl bd where best: "best = (bl, bd)" by fastforce
  show ?case
  proof (cases "j < 0")
    case False
    let ?l = "match_len d i (nat j) 0"
    let ?best = "if (int i - j \<le> WSIZE \<and> j \<le> int i) \<and> ?l > bl then (?l, nat (int i - j)) else (bl, bd)"
    have p: "nat j < i" "nat j + 3 \<le> length d" using Suc.prems(1,2) False by auto
    then obtain q where q: "prev c ! nat j = Some q" "q < int (nat j)" using c unfolding chains_ok_def by blast
    have l: "nat j < length (prev c)" using c p by (simp add: chains_ok_def)
    have g: "good_match d i ?best" using good_match_found [of j i d] Suc.prems False i best by auto
    have "q < int i" "0 \<le> q \<longrightarrow> q + 3 \<le> int (length d)" using q p False by auto
    then have "\<exists>best'. find_match d c i fuel q ?best = Inr best' \<and> good_match d i best'" using g by (rule Suc.IH)
    then show ?thesis using False l q(1) g by (auto simp: best Let_def)
  qed (use Suc.prems best in simp)
qed

lemma hash3_less: "hash3 d i < HASHSIZE"
proof -
  let ?x = "push_bit 10 (uint (d ! i)) XOR push_bit 5 (uint (d ! (i + 1))) XOR uint (d ! (i + 2))"
  have "?x AND (int HASHSIZE - 1) = ?x mod 2 ^ 15"
    using take_bit_eq_mask [of 15 ?x] by (simp add: HASHSIZE_def mask_eq_exp_minus_1 take_bit_eq_mod)
  then show ?thesis by (simp add: hash3_def HASHSIZE_def nat_less_iff)
qed

lemma search_good:
  assumes "chains_ok d i c" "i \<le> length d"
  obtains len dist where "search d i c = Inr (len, dist)" "good_match d i (len, dist)"
proof (cases "i + 3 \<le> length d")
  case True
  have "\<exists>best. find_match d c i 128 (head c ! hash3 d i) (0, 0) = Inr best \<and> good_match d i best"
    using assms hash3_less [of d i] by (intro find_match_good) (auto simp: chains_ok_def good_match_def)
  then show thesis using that True by (auto simp: search_def)
qed (use that [of 0 0] in \<open>simp add: search_def good_match_def\<close>)

lemma enter_ok: "chains_ok d i c \<Longrightarrow> chains_ok d (Suc i) (enter d i c)"
  using hash3_less [of d i]
  by (auto simp: chains_ok_def enter_def nth_list_update less_Suc_eq Let_def)

lemma enter_many_ok:
  "chains_ok d i c \<Longrightarrow> 0 < k \<Longrightarrow> chains_ok d (i + k) (fold (\<lambda>k. enter d (i + k)) [1..<k] (enter d i c))"
proof (induction k)
  case (Suc k)
  then show ?case
    using enter_ok [of d "i + k"] enter_ok [of d i c] by (cases k) auto
qed simp

section \<open>The loop of the encoder\<close>

text \<open>Bits that make the decoder go from the first \<open>i\<close> bytes to the whole.\<close>

definition completes :: "bytes \<Rightarrow> nat \<Rightarrow> bool list \<Rightarrow> bool" where
  "completes d i bs \<longleftrightarrow> (\<forall>r out rest. rbits r = bs @ rest \<and> buf_d out = take i d \<longrightarrow>
     (\<exists>r' out'. inflate_block fixed_lh fixed_dh r out = inflate_block fixed_lh fixed_dh r' out' \<and>
        rbits r' = rest \<and> buf_d out' = d))"

lemma completes_literal:
  assumes "completes d (Suc i) bs" "i < length d"
  shows "completes d i (fixed_word (unat (d ! i)) @ bs)"
  unfolding completes_def
proof (intro allI impI)
  fix r :: bitr and out :: buf and rest
  assume a: "rbits r = (fixed_word (unat (d ! i)) @ bs) @ rest \<and> buf_d out = take i d"
  obtain r1 where r1: "inflate_block fixed_lh fixed_dh r out =
      inflate_block fixed_lh fixed_dh r1 (bput (of_nat (unat (d ! i))) out)" "rbits r1 = bs @ rest"
    by (rule inflate_literal [of r "unat (d ! i)" "bs @ rest"]) (use a unsigned_less [of "d ! i"] in auto)
  have "buf_d (bput (of_nat (unat (d ! i))) out) = take (Suc i) d"
    using a assms(2) by (simp add: bput_def take_Suc_conv_app_nth)
  then show "\<exists>r' out'. inflate_block fixed_lh fixed_dh r out = inflate_block fixed_lh fixed_dh r' out' \<and>
        rbits r' = rest \<and> buf_d out' = d"
    using assms(1) r1 unfolding completes_def by metis
qed

lemma completes_match:
  assumes "completes d (i + len) bs" "good_match d i (len, dist)" "3 \<le> len"
  shows "completes d i (match_bits len dist @ bs)"
  unfolding completes_def
proof (intro allI impI)
  fix r :: bitr and out :: buf and rest
  assume a: "rbits r = (match_bits len dist @ bs) @ rest \<and> buf_d out = take i d"
  obtain r1 out1 where r1: "inflate_block fixed_lh fixed_dh r out = inflate_block fixed_lh fixed_dh r1 out1"
    "rbits r1 = bs @ rest" "buf_d out1 = take (i + len) d"
    by (rule inflate_match [of r len dist "bs @ rest" out i d])
      (use a assms(2,3) in \<open>auto simp: good_match_def\<close>)
  then show "\<exists>r' out'. inflate_block fixed_lh fixed_dh r out = inflate_block fixed_lh fixed_dh r' out' \<and>
        rbits r' = rest \<and> buf_d out' = d"
    using assms(1) unfolding completes_def by metis
qed

lemma deflate_loop_completes:
  assumes "chains_ok d i c" "w_ok w" "i \<le> length d"
  shows "\<exists>w' bs. deflate_loop d i c w = Inr w' \<and> w_ok w' \<and> wbits w' = wbits w @ bs \<and> completes d i bs"
  using assms
proof (induction d i c w rule: deflate_loop.induct)
  case (1 d i c w)
  show ?case
  proof (cases "i < length d")
    case True
    obtain len dist where m: "search d i c = Inr (len, dist)" "good_match d i (len, dist)"
      by (rule search_good [OF 1(3)]) (use True in auto)
    show ?thesis
    proof (cases "3 \<le> len")
      case l: True
      let ?w = "emit_dist dist (emit_len len w)"
      have e: "w_ok ?w" "wbits ?w = wbits w @ match_bits len dist"
        using emit_match_emits [of len dist] l m(2) 1(4) by (auto simp: emits_def good_match_def)
      have "chains_ok d (i + len) (fold (\<lambda>k. enter d (i + k)) [1..<len] (enter d i c))" "i + len \<le> length d"
        using enter_many_ok [OF 1(3), of len] l m(2) by (auto simp: good_match_def)
      then obtain w' bs where "deflate_loop d i c w = Inr w'" "w_ok w'"
        "wbits w' = wbits ?w @ bs" "completes d (i + len) bs"
        using 1(1) [OF True m(1) refl l] e l m(1) True by (auto simp: deflate_loop.simps [of d i c])
      then show ?thesis using e completes_match [OF _ m(2) l] by auto
    next
      case l: False
      let ?w = "emit_lit (unat (d ! i)) w"
      have e: "w_ok ?w" "wbits ?w = wbits w @ fixed_word (unat (d ! i))"
        using emit_lit_emits [of "unat (d ! i)"] unsigned_less [of "d ! i"] 1(4) by (auto simp: emits_def)
      obtain w' bs where "deflate_loop d i c w = Inr w'" "w_ok w'" "wbits w' = wbits ?w @ bs" "completes d (Suc i) bs"
        using 1(2) [OF True m(1) refl l] enter_ok [OF 1(3)] e l m(1) True by (auto simp: deflate_loop.simps [of d i c])
      then show ?thesis using e completes_literal [OF _ True] by auto
    qed
  next
    case False
    then have "completes d i []" using 1(5) by (fastforce simp: completes_def)
    then show ?thesis using False 1(4) by (auto simp: deflate_loop.simps [of d i c])
  qed
qed

lemma chains_start:
  "chains_ok d 0 \<lparr>head = replicate HASHSIZE (-1), prev = replicate (max 1 (length d)) None\<rparr>"
  by (simp add: chains_ok_def)

lemma byte_bits_inject: "byte_bits a = byte_bits b \<longleftrightarrow> a = b"
proof
  assume "byte_bits a = byte_bits b"
  then have "\<forall>n \<in> set [0..<8]. bit a n = bit b n" by (simp only: byte_bits_def map_eq_conv)
  then show "a = b" by (intro bit_word_eqI) auto
qed simp

lemma length_byte_bits [simp]: "length (byte_bits b) = 8"
  by (simp add: byte_bits_def)

lemma byte_bits_not_Nil [simp]: "byte_bits b \<noteq> []"
  using length_byte_bits [of b] by (metis list.size(3) zero_neq_numeral)

lemma length_concat_byte_bits: "length (concat (map byte_bits xs)) = 8 * length xs"
  by (induction xs) simp_all

lemma byte_bits_prefix:
  assumes "concat (map byte_bits xs) = concat (map byte_bits ys) @ zs"
  obtains t where "xs = ys @ t" "zs = concat (map byte_bits t)"
  using assms
proof (induction ys arbitrary: xs thesis)
  case (Cons y ys)
  have "xs \<noteq> []" using Cons.prems(2) by auto
  then obtain x xs' where x: "xs = x # xs'" by (auto simp: neq_Nil_conv)
  then have "x = y" "concat (map byte_bits xs') = concat (map byte_bits ys) @ zs"
    using Cons.prems(2) by (simp_all add: byte_bits_inject)
  then show ?case using Cons.IH [of xs'] Cons.prems(1) x by auto
qed simp

text \<open>The bits of a whole stream.\<close>

lemma deflate_bits:
  obtains out' t bs k where "deflate d out = Inr out'" "buf_d out' = buf_d out @ t" "completes d 0 bs"
    "concat (map byte_bits t) = True # lsb_bits 1 2 @ bs @ fixed_word 256 @ replicate k False"
proof -
  let ?c = "\<lparr>head = replicate HASHSIZE (-1), prev = replicate (max 1 (length d)) None\<rparr>"
  let ?start = "\<lparr>wb = out, w_buf = 0, w_cnt = 0\<rparr>"
  let ?w = "putbits 1 2 (putbit 1 ?start)"
  have "emits (\<lambda>w. putbits 1 2 (putbit 1 w)) ([True] @ lsb_bits 1 2)"
    using emits_comp [OF putbit_emits [of 1] putbits_emits [of 1 2]] by simp
  moreover have "w_ok ?start" "wbits ?start = concat (map byte_bits (buf_d out))" by (simp_all add: w_ok_def wbits_def)
  ultimately have w: "w_ok ?w" "wbits ?w = concat (map byte_bits (buf_d out)) @ True # lsb_bits 1 2"
    by (simp_all add: emits_def)
  obtain w' bs where l: "deflate_loop d 0 ?c ?w = Inr w'" "w_ok w'" "wbits w' = wbits ?w @ bs" "completes d 0 bs"
    using deflate_loop_completes [OF chains_start w(1), of d] by auto
  let ?v = "putbits_rev 0 7 w'"
  have v: "w_ok ?v" "wbits ?v = wbits w' @ fixed_word 256"
    using putbits_rev_emits [of 0 7] l(2) by (auto simp: emits_def fixed_word_def)
  obtain k where "concat (map byte_bits (buf_d (wb (flush_bits ?v)))) = wbits ?v @ replicate k False"
    by (rule flush_bits_padding [OF v(1)])
  then have "concat (map byte_bits (buf_d (wb (flush_bits ?v)))) = concat (map byte_bits (buf_d out)) @
      True # lsb_bits 1 2 @ bs @ fixed_word 256 @ replicate k False"
    using v(2) l(3) w(2) by simp
  then obtain t where "buf_d (wb (flush_bits ?v)) = buf_d out @ t"
    "True # lsb_bits 1 2 @ bs @ fixed_word 256 @ replicate k False = concat (map byte_bits t)"
    by (rule byte_bits_prefix)
  then show thesis using that [of "wb (flush_bits ?v)" t bs k] l by (simp add: deflate_def Let_def)
qed

lemma inflate_stream:
  assumes "concat (map byte_bits t) = True # lsb_bits 1 2 @ bs @ fixed_word 256 @ pad" "completes d 0 bs" "buf_d out = []"
  obtains out' where "inflate (t @ tail) out = Inr out'" "buf_d out' = d"
proof -
  let ?r = "\<lparr>in_d = t @ tail, in_pos = 0, in_buf = 0, in_cnt = 0\<rparr> :: bitr"
  let ?tail = "pad @ concat (map byte_bits tail)"
  have r: "rbits ?r = True # lsb_bits 1 2 @ bs @ fixed_word 256 @ ?tail"
    using assms(1) by (simp add: rbits_def)
  obtain r1 where r1: "getbit ?r = (1, r1)" "rbits r1 = lsb_bits 1 2 @ bs @ fixed_word 256 @ ?tail"
    by (rule getbit_Cons [OF r]) auto
  obtain r2 where r2: "getbits 2 r1 = (1, r2)" "rbits r2 = bs @ fixed_word 256 @ ?tail"
    by (rule getbits_bits [OF r1(2)]) auto
  obtain r3 out' where r3: "inflate_block fixed_lh fixed_dh r2 out = inflate_block fixed_lh fixed_dh r3 out'"
    "rbits r3 = fixed_word 256 @ ?tail" "buf_d out' = d"
    using assms(2,3) r2(2) unfolding completes_def by force
  obtain r4 where "inflate_block fixed_lh fixed_dh r3 out' = Inr (r4, out')"
    by (rule inflate_end [OF r3(2)])
  then have "any_block 1 r2 out = Inr (r4, out')"
    using r3(1) by (simp add: any_block_def fixed_block_def huff_build_fixed_ll huff_build_fixed_dl)
  then show thesis using that [of out'] r1(1) r2(1) r3(3) by (simp add: inflate_def inflate_loop.simps [of ?r])
qed

text \<open>The container.\<close>

lemma gz_data_plain:
  assumes "8 \<le> length t"
  shows "gz_data (gz_header @ t) = Some 10"
  using assms by (auto simp: gz_data_def gz_header_def Let_def)

lemma gz_round_trip:
  obtains z b where "gz_compress d no_buf = Inr z" "gz_decompress (buf_d z) no_buf = Inr b" "buf_d b = d"
proof -
  obtain out t bs k where e: "deflate d (bputmem gz_header no_buf) = Inr out"
    "buf_d out = buf_d (bputmem gz_header no_buf) @ t" "completes d 0 bs"
    "concat (map byte_bits t) = True # lsb_bits 1 2 @ bs @ fixed_word 256 @ replicate k False"
    by (rule deflate_bits)
  let ?tail = "le_bytes 4 (crc32 0 d) @ le_bytes 4 (of_nat (length d) :: u64)"
  let ?z = "bputmem ?tail out"
  have z: "buf_d ?z = gz_header @ t @ ?tail" using e(2) by (simp add: bputmem_def no_buf_def)
  obtain b where b: "inflate (t @ ?tail) no_buf = Inr b" "buf_d b = d"
    by (rule inflate_stream [OF e(4,3), of no_buf ?tail]) (simp_all add: no_buf_def)
  have c: "get32 (buf_d ?z) (length (buf_d ?z) - 8) = crc32 0 d"
    unfolding z using get32_le_bytes [of "gz_header @ t" _ "crc32 0 d"] by simp
  have h: "gz_data (buf_d ?z) = Some 10" unfolding z by (rule gz_data_plain) simp
  have "drop 10 (buf_d ?z) = t @ ?tail" unfolding z by (simp add: gz_header_def)
  then have "gz_decompress (buf_d ?z) no_buf = Inr b" using h b c by (simp add: gz_decompress_def)
  moreover have "gz_compress d no_buf = Inr ?z" using e(1) by (simp add: gz_compress_def)
  ultimately show thesis using that b(2) by blast
qed

section \<open>Properties\<close>



text \<open>C38: \<open>gzip FILE\<close> followed by \<open>gunzip FILE.gz\<close> leaves every file as it was, and both commands exit with 0. The
  name must not look like an option, and must leave room for the suffix in \<open>outname\<close>.\<close>

theorem gzip_gunzip_files:
  assumes "named w f = Some d" "named w (f @ ''.gz'') = None" "length d < 2 ^ 31"
    "f \<noteq> []" "f ! 0 \<noteq> CHR ''-''" "length f \<le> 1020" "can_write f" "can_write (f @ ''.gz'')"
  shows "\<exists>w'. gz_main can_write inp ''/bin/gzip'' [f] w = Inr (w', 0) \<and>
    gz_main can_write inp ''/bin/gunzip'' [f @ ''.gz''] w' = Inr (w, 0)"
proof -
  obtain z b where z: "gz_compress d no_buf = Inr z" "gz_decompress (buf_d z) no_buf = Inr b" "buf_d b = d"
    by (rule gz_round_trip)
  have p: "parse_arg f o' = Inr (o'\<lparr>files := files o' @ [f]\<rparr>)"
    "parse_arg (f @ ''.gz'') o' = Inr (o'\<lparr>files := files o' @ [f @ ''.gz'']\<rparr>)" if "files o' = []" for o'
    using assms(4,5) that by (auto simp: parse_arg_def nth_append)
  have n: "out_name False f = f @ ''.gz''" "out_name True (f @ ''.gz'') = f"
    using assms(4,6) by (simp_all add: out_name_def)
  let ?w = "w\<lparr>named := (named w)(f := None, f @ ''.gz'' := Some (buf_d z))\<rparr>"
  have "gz_main can_write inp ''/bin/gzip'' [f] w = Inr (?w, 0)"
    using assms p z(1) n(1) by (simp add: gz_main_def me_name_def first_opts_def gz_file_def gz_convert_def fun_upd_twist)
  moreover have "w\<lparr>named := (named w)(f := Some d, f @ ''.gz'' := None)\<rparr> = w"
    using assms(1,2) by (simp add: fun_upd_idem)
  then have "gz_main can_write inp ''/bin/gunzip'' [f @ ''.gz''] ?w = Inr (w, 0)"
    using assms p z(2,3) n(2)
    by (simp add: gz_main_def me_name_def first_opts_def gz_file_def gz_convert_def fun_upd_twist)
  ultimately show ?thesis by blast
qed

theorem gzip_gunzip_files_witness:
  "\<exists>w'. gz_main (\<lambda>_. True) [] ''/bin/gzip'' [''a''] \<lparr>named = [''a'' \<mapsto> [7]], out_bytes = []\<rparr> = Inr (w', 0) \<and>
    gz_main (\<lambda>_. True) [] ''/bin/gunzip'' [''a.gz''] w' = Inr (\<lparr>named = [''a'' \<mapsto> [7]], out_bytes = []\<rparr>, 0)"
  using gzip_gunzip_files [of "\<lparr>named = [''a'' \<mapsto> [7]], out_bytes = []\<rparr>" "''a''" "[7]" "\<lambda>_. True" "[]"] by simp

text \<open>C39: the checksum that the table computes a byte at a time is the one computed a bit at a time, by division.\<close>

theorem crc32_bitwise: "crc32 crc p = NOT (foldl crc_bit (NOT crc) (concat (map byte_bits p)))"
  by (simp add: crc32_def crc_loop_bits)

text \<open>An argument with a flag that the command does not know.\<close>

definition unknown_flags :: "string \<Rightarrow> bool" where
  "unknown_flags a \<longleftrightarrow> (\<exists>c cs. a = CHR ''-'' # c # cs \<and> \<not> set (c # cs) \<subseteq> {CHR ''d'', CHR ''c'', CHR ''k''})"

lemma short_flags_unknown: "\<not> set fs \<subseteq> {CHR ''d'', CHR ''c'', CHR ''k''} \<Longrightarrow> short_flags fs o' = None"
proof (induction fs arbitrary: o')
  case (Cons f fs)
  show ?case
  proof (cases "set fs \<subseteq> {CHR ''d'', CHR ''c'', CHR ''k''}")
    case True
    then show ?thesis using Cons.prems by simp
  qed (simp add: Cons.IH)
qed simp

lemma short_flags_files: "short_flags fs o' = Some o'' \<Longrightarrow> files o'' = files o'"
  by (induction fs o' rule: short_flags.induct) (auto split: if_splits)

lemma parse_arg_unknown: "unknown_flags a \<Longrightarrow> parse_arg a o' = Inl Refused"
proof -
  assume "unknown_flags a"
  then obtain c cs where a: "a = CHR ''-'' # c # cs" "\<not> set (c # cs) \<subseteq> {CHR ''d'', CHR ''c'', CHR ''k''}"
    unfolding unknown_flags_def by blast
  show ?thesis
    using short_flags_unknown [OF a(2)] by (cases "c = CHR ''-''") (simp_all add: a(1) parse_arg_def)
qed

lemma parse_arg_room: "length (files o') < 256 \<Longrightarrow> parse_arg a o' \<noteq> Inl Overrun"
  by (simp add: parse_arg_def split: option.splits)

lemma parse_arg_files: "parse_arg a o' = Inr o'' \<Longrightarrow> length (files o'') \<le> Suc (length (files o'))"
  by (auto simp: parse_arg_def split: if_splits option.splits dest!: short_flags_files)

lemma parse_args_unknown:
  "a \<in> set args \<Longrightarrow> unknown_flags a \<Longrightarrow> length (files o') + length args \<le> 256 \<Longrightarrow> parse_args args o' = Inl Refused"
proof (induction args arbitrary: o')
  case (Cons b args)
  show ?case
  proof (cases "parse_arg b o'")
    case (Inl e)
    then show ?thesis using parse_arg_room [of o' b] Cons.prems(3) by (cases e) auto
  next
    case (Inr o'')
    then have "a \<noteq> b" using parse_arg_unknown [of b o'] Cons.prems(2) by auto
    then show ?thesis using Inr Cons parse_arg_files [OF Inr] by simp
  qed
qed simp

text \<open>C40: a flag other than \<open>d\<close>, \<open>c\<close> and \<open>k\<close> anywhere among the arguments ends the command with status 1 before it
  reads or writes anything. This holds of \<open>-f\<close>, \<open>-n\<close> and \<open>-q\<close> too, which the code after the loop over combined flags
  means to accept.\<close>

theorem unknown_option_refused:
  assumes "a \<in> set args" "unknown_flags a" "length args \<le> 256"
  shows "gz_main can_write inp arg0 args w = Inr (w, 1)"
  using parse_args_unknown [OF assms(1,2), of "first_opts (me_name arg0)"] assms(3)
  by (simp add: gz_main_def first_opts_def)

theorem unknown_option_refused_witness:
  "gz_main (\<lambda>_. True) [] ''gzip'' [''-f'', ''a''] \<lparr>named = [''a'' \<mapsto> [7]], out_bytes = []\<rparr> =
     Inr (\<lparr>named = [''a'' \<mapsto> [7]], out_bytes = []\<rparr>, 1)"
  by (rule unknown_option_refused [of "''-f''"]) (auto simp: unknown_flags_def)

end
