(* ===== verification/GzipSafe.thy ===== *)
theory GzipSafe
  imports Gzip
begin

text \<open>
  Where \<open>vgzip\<close>'s decoder can leave its arrays: the tables built from code lengths below 16, the fixed blocks and
  the stored blocks are safe on every input. What is left are the two ways in which a dynamic header goes wrong: it
  is cut off, or it announces more lengths than the array holds.
\<close>

section \<open>Tables\<close>

definition before :: "nat list \<Rightarrow> nat \<Rightarrow> nat" where
  "before count l = (\<Sum>j \<in> {1..<l}. count ! j)"

lemma before_Suc: "1 \<le> l \<Longrightarrow> before count (Suc l) = before count l + count ! l"
  by (simp add: before_def sum.atLeastLessThan_Suc)

lemma sum_count_list: "finite A \<Longrightarrow> (\<Sum>j \<in> A. count_list xs j) = length (filter (\<lambda>x. x \<in> A) xs)"
proof (induction xs)
  case (Cons x xs)
  have "(\<Sum>j \<in> A. count_list (x # xs) j) = (\<Sum>j \<in> A. count_list xs j + (if x = j then 1 else 0))"
    by (rule sum.cong) auto
  then show ?case using Cons by (simp add: sum.distrib)
qed simp

lemma count_lens_counts:
  assumes "\<forall>l \<in> set lens. l < 16" "length c = 16"
  shows "\<exists>c'. count_lens lens c = Some c' \<and> length c' = 16 \<and> (\<forall>l < 16. c' ! l = c ! l + count_list lens l)"
  using assms
proof (induction lens arbitrary: c)
  case (Cons l lens)
  then have "\<exists>c'. count_lens lens (c[l := c ! l + 1]) = Some c' \<and> length c' = 16 \<and>
      (\<forall>k < 16. c' ! k = c[l := c ! l + 1] ! k + count_list lens k)" by simp
  then show ?case using Cons.prems by (auto simp: nth_list_update)
qed simp

lemma offsets_upto:
  assumes "1 \<le> m" "m \<le> 15"
  shows "length (fold (\<lambda>i offs. offs[i + 1 := offs ! i + count ! i]) [1..<m] (replicate 16 0)) = 16 \<and>
    (\<forall>l \<in> {1..m}. fold (\<lambda>i offs. offs[i + 1 := offs ! i + count ! i]) [1..<m] (replicate 16 0) ! l = before count l)"
  using assms
proof (induction m rule: dec_induct)
  case base
  then show ?case by (simp add: before_def)
next
  case (step m)
  then show ?case by (auto simp: nth_list_update before_Suc le_Suc_eq)
qed

lemma offsets_before: "1 \<le> l \<Longrightarrow> l < 16 \<Longrightarrow> offsets count ! l = before count l" "length (offsets count) = 16"
  using offsets_upto [of 15 count] by (auto simp: offsets_def)

lemma place_syms_fills:
  assumes "\<forall>l \<in> set lens. l < 16" "length offs = 16" "length syms = 288"
    "\<forall>l \<in> {1..<16}. offs ! l + count_list lens l \<le> 288"
  shows "\<exists>syms'. place_syms i lens offs syms = Some syms' \<and>
    (\<forall>k < 288. (\<exists>l \<in> {1..<16}. offs ! l \<le> k \<and> k < offs ! l + count_list lens l) \<or>
       (\<exists>s < i + length lens. syms ! k = Some s) \<longrightarrow> (\<exists>s < i + length lens. syms' ! k = Some s))"
  using assms
proof (induction lens arbitrary: i offs syms)
  case (Cons l lens)
  show ?case
  proof (cases "l = 0")
    case True
    then have "\<exists>syms'. place_syms (Suc i) lens offs syms = Some syms' \<and>
      (\<forall>k < 288. (\<exists>l \<in> {1..<16}. offs ! l \<le> k \<and> k < offs ! l + count_list lens l) \<or>
         (\<exists>s < Suc i + length lens. syms ! k = Some s) \<longrightarrow> (\<exists>s < Suc i + length lens. syms' ! k = Some s))"
      using Cons.prems by (intro Cons.IH) auto
    then show ?thesis using True by (force split: if_splits)
  next
    case False
    let ?offs = "offs[l := offs ! l + 1]" and ?syms = "syms[offs ! l := Some i]"
    have o: "offs ! l < 288" using Cons.prems(1,4) False by (auto dest: bspec [of _ _ l])
    have "\<forall>m \<in> {1..<16}. ?offs ! m + count_list lens m \<le> 288"
      using Cons.prems by (auto simp: nth_list_update)
    then obtain syms' where s: "place_syms (Suc i) lens ?offs ?syms = Some syms'"
      "\<forall>k < 288. (\<exists>m \<in> {1..<16}. ?offs ! m \<le> k \<and> k < ?offs ! m + count_list lens m) \<or>
         (\<exists>s < Suc i + length lens. ?syms ! k = Some s) \<longrightarrow> (\<exists>s < Suc i + length lens. syms' ! k = Some s)"
      using Cons.IH [of ?offs ?syms "Suc i"] Cons.prems by auto
    have "(\<exists>s < Suc i + length lens. syms' ! k = Some s)"
      if k: "k < 288" and h: "(\<exists>m \<in> {1..<16}. offs ! m \<le> k \<and> k < offs ! m + count_list (l # lens) m) \<or>
         (\<exists>s < i + length (l # lens). syms ! k = Some s)" for k
    proof (cases "k = offs ! l")
      case True
      then show ?thesis using s(2) k Cons.prems(3) by auto
    next
      case False
      then have "(\<exists>m \<in> {1..<16}. ?offs ! m \<le> k \<and> k < ?offs ! m + count_list lens m) \<or>
         (\<exists>s < Suc i + length lens. ?syms ! k = Some s)"
        using h Cons.prems(1,2) by (fastforce simp: nth_list_update split: if_splits)
      then show ?thesis using s(2) k by blast
    qed
    then show ?thesis using False o s(1) by auto
  qed
qed auto

text \<open>A table on which the decoder stays inside, with symbols below \<open>n\<close>.\<close>

definition table_ok :: "nat \<Rightarrow> huff \<Rightarrow> bool" where
  "table_ok n h \<longleftrightarrow> (\<forall>len \<in> {1..<16}. \<forall>k. before (hcount h) len \<le> k \<and> k < before (hcount h) len + hcount h ! len \<longrightarrow>
     k < 288 \<and> (\<exists>s < n. hsym h ! k = Some s))"

lemma huff_build_ok:
  assumes "\<forall>l \<in> set lens. l < 16" "length lens \<le> 288"
  obtains h where "huff_build lens = Inr h" "table_ok (length lens) h"
proof -
  obtain c where c: "count_lens lens (replicate 16 0) = Some c" "length c = 16" "\<forall>l < 16. c ! l = count_list lens l"
    using count_lens_counts [OF assms(1), of "replicate 16 0"] by auto
  let ?c = "c[0 := 0]"
  have n: "?c ! l = count_list lens l" if "1 \<le> l" "l < 16" for l using that c by simp
  have b: "before ?c l + count_list lens l \<le> 288" if "1 \<le> l" "l < 16" for l
  proof -
    have "before ?c l + count_list lens l = (\<Sum>j \<in> {1..<Suc l}. count_list lens j)"
      using that n by (simp add: before_def sum.atLeastLessThan_Suc)
    also have "\<dots> \<le> length (filter (\<lambda>x. x \<in> {1..<Suc l}) lens)"
      by (rule eq_refl, rule sum_count_list) simp
    also have "\<dots> \<le> 288" using assms(2) length_filter_le le_trans by blast
    finally show ?thesis .
  qed
  obtain syms where s: "place_syms 0 lens (offsets ?c) (replicate 288 None) = Some syms"
    "\<forall>k < 288. (\<exists>l \<in> {1..<16}. offsets ?c ! l \<le> k \<and> k < offsets ?c ! l + count_list lens l) \<longrightarrow>
       (\<exists>s < length lens. syms ! k = Some s)"
    using place_syms_fills [OF assms(1) offsets_before(2) [of ?c], of "replicate 288 None" 0] b offsets_before(1)
    by fastforce
  have "table_ok (length lens) \<lparr>hcount = ?c, hsym = syms\<rparr>"
    unfolding table_ok_def
  proof (intro ballI allI impI)
    fix l k
    assume l: "l \<in> {1..<16}" and "before (hcount \<lparr>hcount = ?c, hsym = syms\<rparr>) l \<le> k \<and>
      k < before (hcount \<lparr>hcount = ?c, hsym = syms\<rparr>) l + hcount \<lparr>hcount = ?c, hsym = syms\<rparr> ! l"
    then have k: "offsets ?c ! l \<le> k" "k < offsets ?c ! l + count_list lens l"
      using n offsets_before(1) [of l ?c] by auto
    then have "k < 288" using b [of l] l offsets_before(1) [of l ?c] by simp
    then show "k < 288 \<and> (\<exists>s < length lens. hsym \<lparr>hcount = ?c, hsym = syms\<rparr> ! k = Some s)"
      using s(2) k l by auto
  qed
  then show thesis using that c(1) s(1) by (simp add: huff_build_def Let_def)
qed

section \<open>Reading\<close>

lemma getbit_range: "getbit r = (b, r') \<Longrightarrow> b = -1 \<or> b = 0 \<or> b = 1"
  by (auto simp: getbit_def Let_def uint_and_1 split: if_splits)

lemma getbit_more: "0 < bits_left r \<Longrightarrow> \<exists>b r'. getbit r = (b, r') \<and> 0 \<le> b \<and> bits_left r' = bits_left r - 1"
  by (auto simp: getbit_def bits_left_def Let_def)

lemma or_push_less: "0 \<le> v \<Longrightarrow> v < 2 ^ i \<Longrightarrow> b = 0 \<or> b = 1 \<Longrightarrow> 0 \<le> v OR push_bit i b \<and> v OR push_bit i b < 2 ^ Suc i"
  for v b :: int
proof -
  assume a: "0 \<le> v" "v < 2 ^ i" "b = 0 \<or> b = 1"
  then have "v < 2 ^ Suc i" "push_bit i b < 2 ^ Suc i" by auto
  then show ?thesis using OR_upper [of v "Suc i" "push_bit i b"] a by auto
qed

lemma getbits_loop_range:
  "getbits_loop [i..<n] v r = (x, r') \<Longrightarrow> 0 \<le> v \<Longrightarrow> v < 2 ^ i \<Longrightarrow> i \<le> n \<Longrightarrow>
   x = -1 \<and> bits_left r < n - i \<or> 0 \<le> x \<and> x < 2 ^ n \<and> bits_left r = bits_left r' + (n - i)"
proof (induction "n - i" arbitrary: i v r)
  case (Suc k)
  then have u: "[i..<n] = i # [Suc i..<n]" by (simp add: upt_conv_Cons)
  obtain b r1 where b: "getbit r = (b, r1)" by fastforce
  show ?case
  proof (cases "bits_left r = 0")
    case True
    then have "b < 0" using getbit_left [OF b] by force
    then show ?thesis using Suc b True by (auto simp: u)
  next
    case False
    then have b': "0 \<le> b" "bits_left r1 = bits_left r - 1" using getbit_more [of r] b by auto
    then have "b = 0 \<or> b = 1" using getbit_range [OF b] by auto
    then have "0 \<le> v OR push_bit i b" "v OR push_bit i b < 2 ^ Suc i"
      using or_push_less [of v i b] Suc.prems by auto
    moreover have "getbits_loop [Suc i..<n] (v OR push_bit i b) r1 = (x, r')" using Suc.prems(1) b b' by (simp add: u)
    ultimately show ?thesis using Suc.hyps(1) [of "Suc i"] Suc.hyps(2) b' False by fastforce
  qed
qed simp

lemma getbits_range:
  "getbits n r = (x, r') \<Longrightarrow> x = -1 \<and> bits_left r < n \<or> 0 \<le> x \<and> x < 2 ^ n \<and> bits_left r = bits_left r' + n"
  using getbits_loop_range [of 0 n 0 r x r'] by (simp add: getbits_def)

lemma decode_loop_safe:
  assumes "table_ok n h" "1 \<le> l" "l \<le> 16" "0 \<le> first" "first \<le> code" "even code" "index = int (before (hcount h) l)"
  shows "decode_loop h [l..<16] code first index r \<noteq> Inl Overrun \<and>
    (decode_loop h [l..<16] code first index r = Inr (s, r') \<longrightarrow> s < n)"
  using assms(2-)
proof (induction "16 - l" arbitrary: l code first index r)
  case (Suc k)
  then have u: "[l..<16] = l # [Suc l..<16]" by (simp add: upt_conv_Cons)
  obtain b r1 where b: "getbit r = (b, r1)" by fastforce
  show ?case
  proof (cases "b < 0")
    case False
    define code' where "code' = code OR b"
    let ?n = "int (hcount h ! l)"
    have "b = 0 \<or> b = 1" using getbit_range [OF b] False by auto
    then have c: "first \<le> code'" using Suc.prems by (auto simp: code'_def or_one_eq)
    show ?thesis
    proof (cases "code' - first < ?n")
      case True
      define j where "j = nat (index + (code' - first))"
      have j: "int j = index + (code' - first)" using c Suc.prems by (simp add: j_def)
      then have "before (hcount h) l \<le> j" "j < before (hcount h) l + hcount h ! l" using c True Suc.prems by auto
      then obtain s where "j < 288" "s < n" "hsym h ! j = Some s"
        using assms(1) Suc.prems Suc.hyps(2) unfolding table_ok_def by (metis Suc_diff_Suc Zero_not_Suc atLeastLessThan_iff diff_is_0_eq not_le)
      then show ?thesis using True False by (auto simp: u decode_loop.simps b Let_def code'_def [symmetric] j [symmetric])
    next
      case over: False
      have "decode_loop h [Suc l..<16] (push_bit 1 code') (push_bit 1 (first + ?n)) (index + ?n) r1 \<noteq> Inl Overrun \<and>
        (decode_loop h [Suc l..<16] (push_bit 1 code') (push_bit 1 (first + ?n)) (index + ?n) r1 = Inr (s, r') \<longrightarrow> s < n)"
        by (rule Suc.hyps(1)) (use Suc.prems Suc.hyps(2) over c in \<open>auto simp: before_Suc push_bit_double\<close>)
      then show ?thesis using over False by (simp add: u decode_loop.simps(2) b Let_def code'_def)
    qed
  qed (simp add: u b decode_loop.simps(2))
qed (simp add: decode_loop.simps)

lemma huff_decode_safe:
  "table_ok n h \<Longrightarrow> huff_decode h r \<noteq> Inl Overrun" "table_ok n h \<Longrightarrow> huff_decode h r = Inr (s, r') \<Longrightarrow> s < n"
  using decode_loop_safe [of n h 1 0 0 0 r s r'] by (auto simp: huff_decode_def before_def)

section \<open>Blocks\<close>

lemma copy_match_safe: "1 \<le> dist \<Longrightarrow> dist \<le> length (buf_d out) \<Longrightarrow> copy_match k dist out \<noteq> Inl e"
  by (induction k arbitrary: out) (simp_all add: bput_def)

lemma dist_lengths: "length dist_base = 30" "length dist_extra = 30"
  by (simp_all add: dist_base_def dist_extra_def)

text \<open>A distance is at least 1, also when the stream ends inside its extra bits.\<close>

lemma dist_positive:
  assumes "getbits (dist_extra ! s) r = (y, r')" "s < 30"
  shows "1 \<le> int (dist_base ! s) + y"
proof -
  have "list_all (\<lambda>(b, e). 2 \<le> b \<or> e = 0 \<and> b = 1) (zip dist_base dist_extra)"
    by (simp add: dist_base_def dist_extra_def)
  then have "2 \<le> dist_base ! s \<or> dist_extra ! s = 0 \<and> dist_base ! s = 1"
    using assms(2) dist_lengths by (auto simp: list_all_length)
  then show ?thesis using getbits_range [OF assms(1)] by auto
qed

lemma inflate_block_safe:
  assumes "table_ok n lh" "table_ok m dh"
  shows "inflate_block lh dh r out \<noteq> Inl Overrun"
  using assms
proof (induction lh dh r out rule: inflate_block.induct)
  case (1 lh dh r out)
  note safe = huff_decode_safe(1) [OF 1(3)] huff_decode_safe(1) [OF 1(4)]
  show ?case
  proof (cases "huff_decode lh r")
    case (Inr p)
    obtain s r1 where d: "huff_decode lh r = Inr (s, r1)" using Inr by (cases p) auto
    consider "s = 256" | "s < 256" | "256 < s" "29 \<le> s - 257" | "256 < s" "s - 257 < 29" by linarith
    then show ?thesis
    proof cases
      case 2
      then show ?thesis using 1(1) [OF d refl] 1(3,4) d by (simp add: inflate_block.simps [of lh dh r])
    next
      case 4
      obtain x r2 where x: "getbits (len_extra ! (s - 257)) r1 = (x, r2)" by fastforce
      show ?thesis
      proof (cases "huff_decode dh r2")
        case (Inr q)
        obtain t r3 where t: "huff_decode dh r2 = Inr (t, r3)" using Inr by (cases q) auto
        obtain y r4 where y: "getbits (dist_extra ! t) r3 = (y, r4)" by fastforce
        let ?dist = "int (dist_base ! t) + y" and ?len = "int (len_base ! (s - 257)) + x"
        show ?thesis
        proof (cases "30 \<le> t \<or> ?dist < 0 \<or> ?dist > int (length (buf_d out))")
          case False
          then have "1 \<le> nat ?dist" "nat ?dist \<le> length (buf_d out)" using dist_positive [OF y] by auto
          then obtain o2 where o2: "copy_match (nat ?len) (nat ?dist) out = Inr o2"
            using copy_match_safe by (metis sum.exhaust)
          have "inflate_block lh dh r4 o2 \<noteq> Inl Overrun"
            by (rule 1(2) [OF d refl _ _ refl _ x [symmetric] refl t refl _ y [symmetric] refl _ o2 1(3,4)])
              (use 4 False in auto)
          then show ?thesis using 4 d x t y o2 False by (simp add: inflate_block.simps [of lh dh r] Let_def)
        qed (use 4 d x t y in \<open>auto simp: inflate_block.simps [of lh dh r] Let_def\<close>)
      qed (use 4 d x safe(2) [of r2] in \<open>auto simp: inflate_block.simps [of lh dh r] Let_def\<close>)
    qed (use d in \<open>auto simp: inflate_block.simps [of lh dh r] Let_def\<close>)
  qed (use safe(1) [of r] in \<open>auto simp: inflate_block.simps [of lh dh r]\<close>)
qed

lemma fixed_block_safe: "fixed_block r out \<noteq> Inl Overrun"
proof -
  have "set fixed_ll \<subseteq> {7, 8, 9}" "set fixed_dl \<subseteq> {5}" by (auto simp: fixed_ll_def fixed_dl_def)
  then have l: "\<forall>l \<in> set fixed_ll. l < 16" "\<forall>l \<in> set fixed_dl. l < 16" by force+
  obtain lh where lh: "huff_build fixed_ll = Inr lh" "table_ok (length fixed_ll) lh"
    by (rule huff_build_ok [OF l(1)]) (auto simp: fixed_ll_def)
  obtain dh where dh: "huff_build fixed_dl = Inr dh" "table_ok (length fixed_dl) dh"
    by (rule huff_build_ok [OF l(2)]) (auto simp: fixed_dl_def)
  show ?thesis using lh dh inflate_block_safe by (simp add: fixed_block_def)
qed

lemma stored_block_safe: "stored_block r out \<noteq> Inl Overrun"
  by (simp add: stored_block_def Let_def)

subsection \<open>A dynamic header\<close>

definition short_lens :: "nat list \<Rightarrow> bool" where
  "short_lens lens \<longleftrightarrow> (\<forall>l \<in> set lens. l < 16)"

lemma short_lens_update: "short_lens lens \<Longrightarrow> v < 16 \<Longrightarrow> short_lens (lens[i := v])"
  using set_update_subset_insert [of lens i v] by (auto simp: short_lens_def)

lemma read_cl_short:
  "read_cl os cl r = (cl', r') \<Longrightarrow> 3 * length os \<le> bits_left r \<Longrightarrow> short_lens cl \<Longrightarrow>
   short_lens cl' \<and> length cl' = length cl"
proof (induction os arbitrary: cl r)
  case (Cons o' os)
  obtain x r1 where x: "getbits 3 r = (x, r1)" by fastforce
  then have "0 \<le> x" "x < 8" "3 * length os \<le> bits_left r1" using getbits_range [OF x] Cons.prems by auto
  then show ?case using Cons x short_lens_update [of cl "to_uchar x" o'] by (auto simp: to_uchar_def)
qed simp

lemma fill_lens_short:
  "all \<le> 318 \<Longrightarrow> v < 16 \<Longrightarrow> short_lens lens \<Longrightarrow>
   \<exists>lens' i'. fill_lens rep all v lens i = Inr (lens', i') \<and> short_lens lens' \<and> length lens' = length lens"
proof (induction rep arbitrary: lens i)
  case (Suc rep)
  then show ?case using Suc.IH [of "lens[i := v]" "i + 1"] by (auto simp: short_lens_update)
qed simp

lemma read_lens_safe:
  assumes "all \<le> 318" "table_ok n ch" "short_lens lens" "length lens = 318"
  shows "read_lens ch all lens i r \<noteq> Inl Overrun \<and>
    (read_lens ch all lens i r = Inr (lens', r') \<longrightarrow> short_lens lens')"
  using assms
proof (induction ch all lens i r rule: read_lens.induct)
  case (1 ch all lens i r)
  show ?case
  proof (cases "i \<ge> all \<or> (\<exists>e. huff_decode ch r = Inl e)")
    case False
    then obtain s r1 where d: "\<not> i \<ge> all" "huff_decode ch r = Inr (s, r1)" by (cases "huff_decode ch r") auto
    obtain rep r2 where p: "repeat_count s r1 = (rep, r2)" by fastforce
    show ?thesis
    proof (cases "s < 16")
      case True
      then have "i < 318" "short_lens (lens[i := s])" using d(1) 1(3,5) by (auto simp: short_lens_update)
      then show ?thesis using 1(1) [OF d refl True] 1(3-6) d True by (simp add: read_lens.simps [of ch all lens i r])
    next
      case False
      let ?v = "if s = 16 then lens ! (i - 1) else 0"
      have "?v < 16" using 1(3,5,6) d(1) by (auto simp: short_lens_def)
      then obtain lens1 i1 where f: "fill_lens rep all ?v lens i = Inr (lens1, i1)" "short_lens lens1" "length lens1 = 318"
        using fill_lens_short [OF 1(3) _ 1(5), of ?v] 1(6) by metis
      have "\<not> (s = 16 \<and> i = 0) \<Longrightarrow> read_lens ch all lens1 i1 r2 \<noteq> Inl Overrun \<and>
          (read_lens ch all lens1 i1 r2 = Inr (lens', r') \<longrightarrow> short_lens lens')"
        by (rule 1(2) [OF d refl False p [symmetric] _ f(1) refl 1(3,4) f(2,3)])
      then show ?thesis using d p f(1) False by (auto simp: read_lens.simps [of ch all lens i r])
    qed
  qed (use 1(5) huff_decode_safe(1) [OF 1(4), of r] in \<open>auto simp: read_lens.simps [of ch all lens i r]\<close>)
qed

text \<open>The number of lengths a header announces.\<close>

definition announced :: "bitr \<Rightarrow> int" where
  "announced r = (case getbits 5 r of (x, r1) \<Rightarrow> (x + 257) + (fst (getbits 5 r1) + 1))"

lemma dynamic_block_safe:
  assumes "71 \<le> bits_left r" "announced r \<le> 318"
  shows "dynamic_block r out \<noteq> Inl Overrun"
proof -
  obtain x r1 where x: "getbits 5 r = (x, r1)" by fastforce
  obtain y r2 where y: "getbits 5 r1 = (y, r2)" by fastforce
  obtain z r3 where z: "getbits 4 r2 = (z, r3)" by fastforce
  define hlit hdist hclen where h: "hlit = nat (x + 257)" "hdist = nat (y + 1)" "hclen = nat (z + 4)"
  obtain cl r4 where cl: "read_cl (take hclen ord) (replicate 19 0) r3 = (cl, r4)" by fastforce
  have r: "0 \<le> x" "x < 32" "0 \<le> y" "y < 32" "57 \<le> bits_left r3"
    using getbits_range [OF x] getbits_range [OF y] getbits_range [OF z] assms(1) by auto
  have "3 * length (take hclen ord) \<le> bits_left r3" using r(5) by (simp add: ord_def)
  then have c: "short_lens cl" "length cl = 19"
    using read_cl_short [OF cl] by (auto simp: short_lens_def)
  obtain ch where ch: "huff_build cl = Inr ch" "table_ok (length cl) ch"
    by (rule huff_build_ok [of cl]) (use c in \<open>auto simp: short_lens_def\<close>)
  have "hlit + hdist \<le> 318" "hlit \<le> 288" "hdist \<le> 288" using assms(2) r x y by (auto simp: announced_def h)
  note rl = read_lens_safe [OF this(1) ch(2), of "replicate 318 0" 0 r4]
  show ?thesis
  proof (cases "read_lens ch (hlit + hdist) (replicate 318 0) 0 r4")
    case (Inl e)
    then show ?thesis using rl x y z cl ch by (auto simp: dynamic_block_def Let_def h [symmetric] short_lens_def)
  next
    case (Inr p)
    then obtain lens r5 where p: "read_lens ch (hlit + hdist) (replicate 318 0) 0 r4 = Inr (lens, r5)" by (cases p) auto
    then have s: "short_lens lens" using rl by (auto simp: short_lens_def)
    obtain lh where lh: "huff_build (take hlit lens) = Inr lh" "table_ok (length (take hlit lens)) lh"
      by (rule huff_build_ok [of "take hlit lens"])
        (use s \<open>hlit \<le> 288\<close> in \<open>auto simp: short_lens_def dest: in_set_takeD\<close>)
    obtain dh where dh: "huff_build (take hdist (drop hlit lens)) = Inr dh" "table_ok (length (take hdist (drop hlit lens))) dh"
      by (rule huff_build_ok [of "take hdist (drop hlit lens)"])
        (use s \<open>hdist \<le> 288\<close> in \<open>auto simp: short_lens_def dest: in_set_takeD in_set_dropD\<close>)
    show ?thesis using p x y z cl ch lh dh inflate_block_safe
      by (simp add: dynamic_block_def Let_def h [symmetric])
  qed
qed

section \<open>Properties\<close>



text \<open>There is a file of 18 bytes on which \<open>gunzip\<close> leaves its arrays.\<close>

lemma gunzip_overruns:
  "gz_decompress [0x1f, 0x8b, 8, 8, 0, 0, 0, 0, 0, 3, 97, 97, 97, 97, 97, 97, 0, 5] no_buf = Inl Overrun"
  by code_simp

end
