(* ===== verification/Spec2Isabelle.thy ===== *)
theory Spec2Isabelle
  imports Klib Cpio Pmm Vm Gpt Fat FatVol Fdt Sched Signals Console Net Tcp Files Loading Programs Deflated GzipSafe
begin

text \<open>
  A verification development for \<open>stam\<close>, the kernel of VerkOS, and for the tools that write what it reads.

  \<^bold>\<open>The program.\<close> \<open>src/pkg/stam\<close> is an aarch64 kernel in freestanding C. It takes over from the boot loader with a device tree
  (\<open>fdt.c\<close>) and an archive of files in memory (\<open>cpio.c\<close>), sets up a page allocator and the kernel's page tables (\<open>mmu.c\<close>), runs
  processes in address spaces with copy-on-write (\<open>vm.c\<close>) under a preemptive scheduler (\<open>sched.c\<close>) with signals (\<open>signal.c\<close>),
  and gives them a console (\<open>console.c\<close>), pipes and files (\<open>file.c\<close>), a FAT volume on a GPT partition (\<open>fat.c\<close>, \<open>gpt.c\<close>), UDP and
  TCP (\<open>net.c\<close>, \<open>tcp.c\<close>) and programs in ELF with a manifest of the system calls they may make (\<open>elf.c\<close>). Three host tools write
  its inputs: \<open>vcpio\<close> the archive, \<open>vpart\<close> the partition table, and the \<open>sav\<close> compiler (\<open>sav/src/elf.c\<close>) the executables.

  \<^bold>\<open>The theories.\<close>
  \<^item> \<open>Prelude\<close>: words, little- and big-endian fields, lists and memory; the collections of simplification rules.
  \<^item> \<open>Contracts\<close>: the interfaces as locales, interpreted by the components: holders of a counted object and bounded byte queues.
  \<^item> \<open>Klib\<close> (\<open>klib.c\<close>): the memory and string loops; \<open>memmove\<close> is the parallel copy.
  \<^item> \<open>Cpio\<close> (\<open>cpio.c\<close>, \<open>vcpio.c\<close>): the archive's writer and reader and their round trip; the reader ends on every archive.
  \<^item> \<open>Pmm\<close> (\<open>mmu.c\<close>): pages are handed out to one holder at a time, counts are right, device mappings translate as asked.
  \<^item> \<open>Vm\<close> (\<open>vm.c\<close>): mapping maps one page and nothing else, copy-on-write gives a private copy, checked user ranges are mapped.
  \<^item> \<open>Gpt\<close> (\<open>gpt.c\<close>, \<open>vpart.c\<close>): the partition written is the partition found.
  \<^item> \<open>Fat\<close>, \<open>FatVol\<close> (\<open>fat.c\<close>): the volume's operations; allocation of clusters, copies of the table, reading along a chain, short names.
  \<^item> \<open>Fdt\<close> (\<open>fdt.c\<close>): a property lookup finds the property.
  \<^item> \<open>Sched\<close> (\<open>sched.c\<close>): threads as slots of a table, one step per decision of a processor; no thread on two processors, unique process
    ids, zombies stay off, sleepers wake, a child is reaped once.
  \<^item> \<open>Signals\<close> (\<open>signal.c\<close>): handler frames cannot raise privilege, returning undoes delivery, \<open>SIGKILL\<close> cannot be stopped.
  \<^item> \<open>Ring\<close>, \<open>Console\<close> (\<open>console.c\<close>): the input ring as a bounded queue, line editing, and \<open>kprintf\<close>'s numbers.
  \<^item> \<open>Wire\<close>, \<open>Net\<close> (\<open>net.c\<close>): checksums, ARP, UDP sockets, DHCP options; what is sent is what is received.
  \<^item> \<open>Tcp\<close> (\<open>tcp.c\<close>): the bytes read are a prefix of the bytes sent under any behaviour of the network, and the handshake completes.
  \<^item> \<open>Files\<close> (\<open>file.c\<close>): open files over all of these; pipes are queues, ends are counted, memory files keep what is written.
  \<^item> \<open>Elf\<close>, \<open>Loading\<close> (\<open>elf.c\<close>, \<open>sav/src/elf.c\<close>): a compiled program is loaded where the compiler put it, with exactly its calls allowed.
  \<^item> \<open>Process\<close> (\<open>sched.c\<close>, \<open>syscall.c\<close>): \<open>fork\<close>, \<open>exec\<close>, \<open>wait\<close> and \<open>exit\<close>, which bring the scheduler, the spaces, the loader and the open files
    together.
  \<^item> \<open>Syscall\<close> (\<open>syscall.c\<close>): every system call and the handler of exceptions from user mode, over all the components above.
  \<^item> \<open>Holding\<close>, \<open>Descriptors\<close>: the balance of open files and descriptors, as rules for each operation, and the invariant of every run of the
    kernel that follows from them.
  \<^item> \<open>Programs\<close>: what a program can rely on: its manifest is enforced, refused calls change nothing, \<open>fork\<close> returns twice, \<open>exec\<close> passes the
    arguments.
  \<^item> \<open>Gzip\<close> (\<open>vgzip.c\<close>): the compressor of the distribution, decoder, encoder, container and command; \<open>Deflated\<close>: what it compresses it
    decompresses, its checksum is the polynomial division, options it does not know are refused; \<open>GzipSafe\<close>: the only inputs on which the
    decoder leaves its arrays.

  \<^bold>\<open>How the code is rendered.\<close> A C function is a definition with the name of the function; it takes the state it reads and returns the
  state it leaves. Structures are records, pointers into fixed tables are indices, integers are words of the width of the C type, and an
  array that the code addresses is memory (a function from addresses to bytes, or to 64-bit words for pages the kernel owns). An early
  return is a branch with the value the code returns. Output to the console for the reader of the boot log is left out, except where the
  console itself is the subject. The block device is a list of sectors and the network card a list of frames received and one of
  frames sent; what they do is a parameter.

  Loops that need not end are given fuel, and \<open>None\<close> means the fuel ran out; for each of them there is a lemma that says how much is
  enough (the archive walk, the checks of user ranges, cluster chains, polling loops that end with a deadline). A thread that waits is
  given the list of what happens meanwhile: the console's reader a list of interrupts, the network a list of moments at which frames
  arrive and time passes, pipes the steps of the other threads. The properties quantify over these lists.

  \<^bold>\<open>Bounds.\<close> Constants are the code's: 4 KiB pages, 39-bit user addresses, tables of its sizes. Theorems that need memory
  or free slots say how much; sizes of files and messages are bounded only where the code computes with 32-bit lengths.

  \<^bold>\<open>Not modelled.\<close> The interrupt controller, timer, secondary processors, PCI and virtio rings, which are device registers. Start-up code and
  assembly. Interleaving inside a function that holds the scheduler's lock; what happens between two critical sections is a step of its own
  in \<open>Sched\<close>, \<open>Files\<close> and \<open>Descriptors\<close>, except that a process that exits is taken to reach its last switch undisturbed (\<open>Sched\<close> shows
  what happens otherwise). The lines the kernel prints. The user-space tools of the distribution, which run on Linux, apart from \<open>vgzip\<close> and
  the writers named above; the front end and code generator of the compiler.
\<close>

end
